(* ===== verification/Prelude.thy ===== *)
theory Prelude
  imports Main "HOL-Library.Word" "HOL-Library.Multiset"
begin

text \<open>
  Shared material of the development: the machine integer types of the 32-bit target, the
  errno values of \<^verbatim>\<open>include/errno.h\<close> that the components return, the find-first-set
  builtin and the bit iteration idiom, and generic lemmas on lists and words.  The
  collections \<open>word_bits\<close> and \<open>list_upd\<close> gather the rewrite rules the component proofs
  hand to the simplifier.
\<close>

unbundle bit_operations_syntax

named_theorems word_bits
named_theorems list_upd

type_synonym u8 = "8 word"
type_synonym u16 = "16 word"
type_synonym u32 = "32 word"
type_synonym u64 = "64 word"

section \<open>Error numbers\<close>

text \<open>The positive constants of \<^verbatim>\<open>include/errno.h\<close>; operations return their negation.\<close>

abbreviation (input) EPERM :: int where "EPERM \<equiv> 1"
abbreviation (input) ENOENT :: int where "ENOENT \<equiv> 2"
abbreviation (input) ESRCH :: int where "ESRCH \<equiv> 3"
abbreviation (input) EIO :: int where "EIO \<equiv> 5"
abbreviation (input) E2BIG :: int where "E2BIG \<equiv> 7"
abbreviation (input) EBADF :: int where "EBADF \<equiv> 9"
abbreviation (input) EAGAIN :: int where "EAGAIN \<equiv> 11"
abbreviation (input) ENOMEM :: int where "ENOMEM \<equiv> 12"
abbreviation (input) EBUSY :: int where "EBUSY \<equiv> 16"
abbreviation (input) EEXIST :: int where "EEXIST \<equiv> 17"
abbreviation (input) ENODEV :: int where "ENODEV \<equiv> 19"
abbreviation (input) EINVAL :: int where "EINVAL \<equiv> 22"
abbreviation (input) ENFILE :: int where "ENFILE \<equiv> 23"
abbreviation (input) EMFILE :: int where "EMFILE \<equiv> 24"
abbreviation (input) ENOSPC :: int where "ENOSPC \<equiv> 28"
abbreviation (input) ESPIPE :: int where "ESPIPE \<equiv> 29"
abbreviation (input) EPIPE :: int where "EPIPE \<equiv> 32"
abbreviation (input) ERANGE :: int where "ERANGE \<equiv> 34"
abbreviation (input) ENOSYS :: int where "ENOSYS \<equiv> 38"
abbreviation (input) EWOULDBLOCK :: int where "EWOULDBLOCK \<equiv> 41"

section \<open>Lists\<close>

text \<open>Exchange of two array elements.\<close>

definition list_swap :: "'a list \<Rightarrow> nat \<Rightarrow> nat \<Rightarrow> 'a list" where
  "list_swap xs i j = xs[i := xs ! j, j := xs ! i]"

lemma length_list_swap [simp]: "length (list_swap xs i j) = length xs"
  by (simp add: list_swap_def)

lemma nth_list_swap [list_upd]:
  "i < length xs \<Longrightarrow> j < length xs \<Longrightarrow> n < length xs \<Longrightarrow>
   list_swap xs i j ! n = (if n = i then xs ! j else if n = j then xs ! i else xs ! n)"
  by (auto simp: list_swap_def nth_list_update)

lemma mset_list_swap [list_upd]:
  "i < length xs \<Longrightarrow> j < length xs \<Longrightarrow> mset (list_swap xs i j) = mset xs"
  by (cases "i = j") (simp_all add: list_swap_def mset_swap)

lemma list_swap_same [simp]: "list_swap xs i i = xs"
  by (simp add: list_swap_def)

lemma nth_in_take: "i < n \<Longrightarrow> i < length xs \<Longrightarrow> xs ! i \<in> set (take n xs)"
  by (metis length_take min_less_iff_conj nth_mem nth_take)

lemma remdups_adj_snoc:
  "xs \<noteq> [] \<Longrightarrow> remdups_adj (xs @ [x]) = (if last xs = x then remdups_adj xs else remdups_adj xs @ [x])"
  by (induction xs rule: remdups_adj.induct) auto

lemma sorted_distinct_remdups_adj:
  "sorted xs \<Longrightarrow> sorted (remdups_adj xs) \<and> distinct (remdups_adj xs)"
  for xs :: "'a::linorder list"
  by (induction xs rule: remdups_adj.induct) force+

section \<open>Find-first-set and iteration over set bits\<close>

text \<open>
  \<^verbatim>\<open>__builtin_ffsl\<close>: one plus the index of the least significant set bit, 0 for 0.
\<close>

definition ffs :: "'a::len word \<Rightarrow> nat" where
  "ffs w = (case find (bit w) [0..<LENGTH('a)] of None \<Rightarrow> 0 | Some i \<Rightarrow> Suc i)"

lemma find_upt_Some:
  "find P [m..<n] = Some i \<longleftrightarrow> m \<le> i \<and> i < n \<and> P i \<and> (\<forall>j. m \<le> j \<and> j < i \<longrightarrow> \<not> P j)"
proof (induction "n - m" arbitrary: m)
  case 0
  then show ?case by simp
next
  case (Suc d)
  from Suc.hyps(2) have up: "[m..<n] = m # [Suc m..<n]" by (simp add: upt_rec)
  from Suc.hyps(2) have "d = n - Suc m" by simp
  note IH = Suc.hyps(1) [OF this]
  show ?case
  proof (cases "P m")
    case True
    with Suc.hyps(2) show ?thesis by (auto simp: up)
  next
    case False
    then show ?thesis
      by (simp add: up IH) (metis Suc_le_eq le_neq_implies_less less_imp_le_nat)
  qed
qed

lemma find_upt_None: "find P [m..<n] = None \<longleftrightarrow> (\<forall>i. m \<le> i \<and> i < n \<longrightarrow> \<not> P i)"
  by (auto simp: find_None_iff)

lemma word_eq_0_iff_bits: "w = 0 \<longleftrightarrow> (\<forall>n < LENGTH('a). \<not> bit w n)"
  for w :: "'a::len word"
  by (auto simp: bit_word_eqI)

lemma ffs_eq_0_iff: "ffs w = 0 \<longleftrightarrow> w = 0"
  for w :: "'a::len word"
  by (auto simp: ffs_def find_upt_None find_upt_Some word_eq_0_iff_bits split: option.splits)

lemma ffs_Suc_iff: "ffs w = Suc i \<longleftrightarrow> bit w i \<and> (\<forall>j < i. \<not> bit w j)"
  for w :: "'a::len word"
proof -
  have "ffs w = Suc i \<longleftrightarrow> find (bit w) [0..<LENGTH('a)] = Some i"
    by (simp add: ffs_def split: option.splits)
  then show ?thesis using bit_imp_le_length [of w i] by (auto simp: find_upt_Some)
qed

lemma ffs_bit: "w \<noteq> 0 \<Longrightarrow> bit w (ffs w - Suc 0)"
  for w :: "'a::len word"
  using ffs_Suc_iff [of w "ffs w - 1"] ffs_eq_0_iff [of w] by simp

text \<open>
  The macro \<^verbatim>\<open>for_each_bit\<close> of \<^verbatim>\<open>sys/msg/sysmsg.c\<close> visits \<open>ffsl(acc) - 1\<close> and clears
  that bit until the accumulator is 0.
\<close>

definition clear_bit :: "nat \<Rightarrow> 'a::len word \<Rightarrow> 'a word" where
  "clear_bit n w = w AND NOT (push_bit n 1)"

lemma bit_clear_bit [word_bits, simp]: "bit (clear_bit n w) i \<longleftrightarrow> bit w i \<and> i \<noteq> n"
  for w :: "'a::len word"
  by (auto simp: clear_bit_def bit_simps dest: bit_imp_le_length)

lemma clear_bit_less: "bit w n \<Longrightarrow> unat (clear_bit n w) < unat w"
  for w :: "'a::len word"
proof -
  assume b: "bit w n"
  have "clear_bit n w \<noteq> w" using b bit_clear_bit [of n w n] by metis
  moreover have "clear_bit n w \<le> w" by (simp add: clear_bit_def word_and_le2)
  ultimately have "clear_bit n w < w" by simp
  then show ?thesis by (simp add: word_less_nat_alt)
qed

function bit_loop :: "'a::len word \<Rightarrow> nat list" where
  "bit_loop acc = (if acc = 0 then [] else (let b = ffs acc - 1 in b # bit_loop (clear_bit b acc)))"
  by pat_completeness auto
termination
  by (relation "measure unat") (auto intro: clear_bit_less ffs_bit)

declare bit_loop.simps [simp del]

lemma filter_upt_least:
  "n < N \<Longrightarrow> P n \<Longrightarrow> (\<forall>j < n. \<not> P j) \<Longrightarrow> filter P [0..<N] = n # filter (\<lambda>i. P i \<and> i \<noteq> n) [0..<N]"
proof -
  assume n: "n < N" "P n" and least: "\<forall>j < n. \<not> P j"
  have split: "[0..<N] = [0..<n] @ n # [Suc n..<N]"
    using n(1) upt_add_eq_append [of 0 n "N - n"] by (simp add: upt_conv_Cons)
  have "filter (\<lambda>i. P i \<and> i \<noteq> n) [Suc n..<N] = filter P [Suc n..<N]"
    by (rule filter_cong) auto
  then show ?thesis using n least by (simp add: split)
qed

lemma bit_loop_eq: "bit_loop w = filter (bit w) [0..<LENGTH('a)]"
  for w :: "'a::len word"
proof (induction w rule: bit_loop.induct)
  case (1 w)
  show ?case
  proof (cases "w = 0")
    case True
    then show ?thesis by (simp add: bit_loop.simps)
  next
    case False
    let ?b = "ffs w - 1"
    have b: "bit w ?b" "\<forall>j < ?b. \<not> bit w j"
      using False ffs_Suc_iff [of w ?b] ffs_eq_0_iff [of w] by auto
    have "bit_loop w = ?b # filter (\<lambda>i. bit w i \<and> i \<noteq> ?b) [0..<LENGTH('a)]"
      using False "1.IH" [OF False refl] by (simp add: bit_loop.simps [of w] Let_def)
    then show ?thesis
      using filter_upt_least [of ?b "LENGTH('a)" "bit w"] b bit_imp_le_length [OF b(1)]
      by simp
  qed
qed

lemma set_bit_loop [simp]: "set (bit_loop w) = {i. bit w i}"
  for w :: "'a::len word"
  by (auto simp: bit_loop_eq dest: bit_imp_le_length)

lemma distinct_bit_loop [simp]: "distinct (bit_loop w)"
  by (simp add: bit_loop_eq)

section \<open>Bounds as absent bits\<close>

lemma unat_lt_bits: "unat w < 2 ^ n \<longleftrightarrow> (\<forall>i \<ge> n. \<not> bit w i)" for w :: "'a::len word"
proof -
  have "unat w < 2 ^ n \<longleftrightarrow> take_bit n (unat w) = unat w"
    by (simp add: take_bit_nat_eq_self_iff)
  also have "\<dots> \<longleftrightarrow> (\<forall>i. i < n \<or> \<not> bit (unat w) i)"
    by (auto simp: bit_eq_iff bit_take_bit_iff)
  also have "\<dots> \<longleftrightarrow> (\<forall>i \<ge> n. \<not> bit w i)"
    by (simp add: bit_unsigned_iff) (meson bit_imp_le_length not_less)
  finally show ?thesis .
qed

lemma unat_or_lt: "unat a < 2 ^ n \<Longrightarrow> unat b < 2 ^ n \<Longrightarrow> unat (a OR b) < 2 ^ n"
  for a b :: "'a::len word"
  unfolding unat_lt_bits by (simp add: bit_or_iff)

lemma unat_drop_lt: "unat a < 2 ^ (n + k) \<Longrightarrow> unat (drop_bit k a) < 2 ^ n"
  for a :: "'a::len word"
  unfolding unat_lt_bits by (simp add: bit_drop_bit_eq)

lemma unat_and_le: "unat (a AND b) \<le> unat b" for a b :: "'a::len word"
  by (simp add: word_le_nat_alt [symmetric] word_and_le1)

end
