(* ===== verification/Handle_Links.thy ===== *)
theory Handle_Links
  imports Prelude
begin

text \<open>
  The handle arrays of \<^verbatim>\<open>sys/io\<close>: a client and a file each keep a dynamic array of handles, and
  a handle keeps its owner, its file and its index in both arrays (\<^verbatim>\<open>client_ix\<close>, \<^verbatim>\<open>file_ix\<close>).
  A holder is a client or a file; \<open>H\<close> maps holders to their arrays and \<open>P\<close> maps a handle to its
  holder and index.  \<open>link_ok\<close> says that the two are inverse to each other.
\<close>

text \<open>The macro \<^verbatim>\<open>darray_remove_fast\<close> of \<^verbatim>\<open>sys/io/io.c\<close>, with its assertion on the index.\<close>

definition darray_remove_fast :: "'a list \<Rightarrow> nat \<Rightarrow> 'a list option" where
  "darray_remove_fast arr i =
     (if i < length arr
      then Some (if i < length arr - 1 then (butlast arr)[i := last arr] else butlast arr)
      else None)"

definition link_ok :: "('h \<rightharpoonup> nat list) \<Rightarrow> (nat \<rightharpoonup> 'h \<times> nat) \<Rightarrow> bool" where
  "link_ok H P \<longleftrightarrow>
     (\<forall>i h k. P i = Some (h, k) \<longrightarrow> (\<exists>xs. H h = Some xs \<and> k < length xs \<and> xs ! k = i))
     \<and> (\<forall>h xs k. H h = Some xs \<and> k < length xs \<longrightarrow> P (xs ! k) = Some (h, k))"

lemma link_okD1: "link_ok H P \<Longrightarrow> P i = Some (h, k) \<Longrightarrow> \<exists>xs. H h = Some xs \<and> k < length xs \<and> xs ! k = i"
  by (auto simp: link_ok_def)

lemma link_okD2: "link_ok H P \<Longrightarrow> H h = Some xs \<Longrightarrow> k < length xs \<Longrightarrow> P (xs ! k) = Some (h, k)"
  by (auto simp: link_ok_def)

lemma link_distinct:
  assumes "link_ok H P" "H h = Some xs"
  shows "distinct xs"
  unfolding distinct_conv_nth
proof (intro allI impI)
  fix i j assume "i < length xs" "j < length xs" "i \<noteq> j"
  with link_okD2 [OF assms, of i] link_okD2 [OF assms, of j] show "xs ! i \<noteq> xs ! j" by auto
qed

lemma link_mem:
  assumes "link_ok H P" "H h = Some xs"
  shows "i \<in> set xs \<longleftrightarrow> (\<exists>k. P i = Some (h, k))"
proof
  assume "i \<in> set xs"
  then show "\<exists>k. P i = Some (h, k)" using link_okD2 [OF assms] by (auto simp: in_set_conv_nth)
next
  assume "\<exists>k. P i = Some (h, k)"
  then show "i \<in> set xs" using link_okD1 [OF assms(1)] assms(2) by fastforce
qed

lemma link_push:
  assumes "link_ok H P" "H h = Some xs" "P i = None"
  shows "link_ok (H(h \<mapsto> xs @ [i])) (P(i \<mapsto> (h, length xs)))"
proof -
  have "i \<noteq> ys ! k" if "H h' = Some ys" "k < length ys" for h' ys k
    using link_okD2 [OF assms(1) that] assms(3) by auto
  moreover have "\<exists>ys. (H(h \<mapsto> xs @ [i])) h' = Some ys \<and> k < length ys \<and> ys ! k = j" if "P j = Some (h', k)" for j h' k
    using link_okD1 [OF assms(1) that] assms(2) by (auto simp: nth_append)
  ultimately show ?thesis
    using link_okD2 [OF assms(1)] assms(2) unfolding link_ok_def
    by (auto simp: nth_append less_Suc_eq split: if_splits)
qed

lemma link_new_holder:
  assumes "link_ok H P" "H h = None"
  shows "link_ok (H(h \<mapsto> [])) P"
proof -
  have "h' \<noteq> h" if "P i = Some (h', k)" for i h' k
    using link_okD1 [OF assms(1) that] assms(2) by auto
  then show ?thesis using assms(1) unfolding link_ok_def by (auto split: if_splits)
qed

lemma link_del_holder:
  assumes "link_ok H P" "H h = Some []"
  shows "link_ok (H(h := None)) P"
proof -
  have "h' \<noteq> h" if "P i = Some (h', k)" for i h' k
    using link_okD1 [OF assms(1) that] assms(2) by auto
  then show ?thesis using assms(1) unfolding link_ok_def by (simp add: fun_upd_def)
qed

text \<open>Removal: the last handle moves into the gap and gets its index.\<close>

lemma remove_fast_Some: "k < length xs \<Longrightarrow> darray_remove_fast xs k \<noteq> None"
  by (simp add: darray_remove_fast_def)

lemma nth_remove_fast:
  assumes "darray_remove_fast xs k = Some ys"
  shows "length ys = length xs - 1" "j < length ys \<Longrightarrow> ys ! j = (if j = k then last xs else xs ! j)" "k < length xs"
proof -
  show k: "k < length xs" using assms unfolding darray_remove_fast_def by (meson option.distinct(1))
  have ys: "ys = (if k < length xs - 1 then (butlast xs)[k := last xs] else butlast xs)"
    using assms k unfolding darray_remove_fast_def by (metis option.inject)
  show "length ys = length xs - 1" by (simp add: ys)
  then show "j < length ys \<Longrightarrow> ys ! j = (if j = k then last xs else xs ! j)"
    using k unfolding ys by (auto simp: nth_butlast nth_list_update)
qed

lemma link_remove:
  assumes ok: "link_ok H P" and Pi: "P i = Some (h, k)" and Hh: "H h = Some xs"
    and rm: "darray_remove_fast xs k = Some ys"
  shows "link_ok (H(h \<mapsto> ys)) ((P(last xs \<mapsto> (h, k)))(i := None))"
proof -
  note ys = nth_remove_fast [OF rm]
  have i: "xs ! k = i" using link_okD1 [OF ok Pi] Hh by auto
  have last: "last xs = xs ! (length xs - 1)" using ys(3) by (intro last_conv_nth) auto
  have ne: "length xs - 1 < length xs" using ys(3) by linarith
  have d: "distinct xs" using ok Hh by (rule link_distinct)
  have inj: "xs ! a = xs ! b \<longleftrightarrow> a = b" if "a < length xs" "b < length xs" for a b
    using d that by (simp add: nth_eq_iff_index_eq)
  have other: "P (zs ! j) = Some (h', j) \<and> zs ! j \<noteq> i \<and> zs ! j \<noteq> last xs"
    if "h' \<noteq> h" "H h' = Some zs" "j < length zs" for h' zs j
    using link_okD2 [OF ok that(2,3)] link_okD2 [OF ok Hh, of "length xs - 1"] Pi that(1) ys(3) last by auto
  show ?thesis
    unfolding link_ok_def
  proof (intro conjI allI impI)
    fix j h' k' assume "((P(last xs \<mapsto> (h, k)))(i := None)) j = Some (h', k')"
    then have j: "j \<noteq> i" "(if j = last xs then Some (h, k) else P j) = Some (h', k')" by (auto split: if_splits)
    show "\<exists>zs. (H(h \<mapsto> ys)) h' = Some zs \<and> k' < length zs \<and> zs ! k' = j"
    proof (cases "j = last xs")
      case True
      with j have e: "h' = h" "k' = k" by auto
      have "k < length ys" using j(1) True i last ys(1,3) by (cases "k = length xs - 1") auto
      with e True ys(2) show ?thesis by simp
    next
      case False
      with j(2) obtain zs where zs: "H h' = Some zs" "k' < length zs" "zs ! k' = j"
        using link_okD1 [OF ok, of j h' k'] by auto
      show ?thesis
      proof (cases "h' = h")
        case True
        with zs Hh have z: "zs = xs" by simp
        have "k' \<noteq> length xs - 1" "k' \<noteq> k" using z zs False last j(1) i by auto
        with z zs ys(1,2) True show ?thesis by auto
      next
        case False
        with zs show ?thesis by simp
      qed
    qed
  next
    fix h' zs j assume a: "(H(h \<mapsto> ys)) h' = Some zs \<and> j < length zs"
    show "((P(last xs \<mapsto> (h, k)))(i := None)) (zs ! j) = Some (h', j)"
    proof (cases "h' = h")
      case False
      with a other [of h' zs j] show ?thesis by auto
    next
      case True
      with a have z: "zs = ys" "j < length ys" by auto
      have jl: "j < length xs - 1" using z(2) ys(1) by simp
      show ?thesis
      proof (cases "j = k")
        case True
        have "last xs \<noteq> i" using inj [OF ys(3) ne] i last jl True by simp
        with True z ys(2) \<open>h' = h\<close> show ?thesis by simp
      next
        case False
        have "xs ! j \<noteq> i" "xs ! j \<noteq> last xs" using inj [of j k] inj [of j "length xs - 1"] i last jl ys(3) ne False by auto
        with False z ys(2) link_okD2 [OF ok Hh, of j] jl \<open>h' = h\<close> show ?thesis by simp
      qed
    qed
  qed
qed

end
