(* ===== verification/Lifecycle_Queue.thy ===== *)
theory Lifecycle_Queue
  imports Prelude
begin

text \<open>
  The single-producer single-consumer ring of lifecycle events in \<^verbatim>\<open>sys/io/io.c\<close>: 128 slots and
  a control word with the write position in bits 0--9, the read position in bits 10--19 and
  the overflow flag in bit 20.  The producer is one atomic step; the consumer loads the
  control word, processes what it saw and commits with compare-and-exchange, and producer
  steps may fall between.  \<open>None\<close> is a failed assertion or \<^verbatim>\<open>abort()\<close>.
\<close>

section \<open>Producer and consumer\<close>

abbreviation (input) NUM_LC_EVENTS :: nat where "NUM_LC_EVENTS \<equiv> 128"

datatype lc_body = MPL_FORK u16 | MPL_EXEC | MPL_EXIT u16 u32 u32 | MPL_other u8

record lc_event =
  primary :: u16
  lc_tag :: lc_body

record lc_ring =
  lce_queue :: "lc_event list"
  lce_ctrl :: u32

text \<open>Decoding of the message body: PID, tag with payload, wait status, exit code.\<close>

definition lc_decode :: "u32 list \<Rightarrow> lc_event" where
  "lc_decode body =
     (let tag = body ! 1 AND 0xff in
      \<lparr>primary = ucast (body ! 0), lc_tag =
        (if tag = 0 then MPL_FORK (ucast (drop_bit 8 (body ! 1)))
         else if tag = 1 then MPL_EXEC
         else if tag = 2 then MPL_EXIT (ucast (drop_bit 8 (body ! 1))) (body ! 2) (body ! 3)
         else MPL_other (ucast tag))\<rparr>)"

definition rd_pos :: "u32 \<Rightarrow> nat" where "rd_pos ctrl = unat (drop_bit 10 ctrl)"
definition wr_pos :: "u32 \<Rightarrow> nat" where "wr_pos ctrl = unat (ctrl AND 0x3ff)"

text \<open>
  The result says whether to poke the dispatcher.  In the overflow branches the event goes
  to a dummy.  On the first overflow the exchange fails because of the bit just set and the
  loop ends; when the bit was set already the exchange succeeds.
\<close>

definition lifecycle_handler_fn :: "lc_ring \<Rightarrow> u32 list \<Rightarrow> bool \<times> lc_ring" where
  "lifecycle_handler_fn r body =
     (let ctrl = lce_ctrl r; wrpos = wr_pos ctrl; ev = lc_decode body;
          exit = (case lc_tag ev of MPL_EXIT _ _ _ \<Rightarrow> True | _ \<Rightarrow> False);
          newctrl = (ctrl AND push_bit 10 0x3ff) OR word_of_nat ((wrpos + 1) mod NUM_LC_EVENTS)
      in if bit ctrl 20 then (exit, r\<lparr>lce_ctrl := newctrl\<rparr>)
         else if rd_pos ctrl = (wrpos + 1) mod NUM_LC_EVENTS
         then (True, r\<lparr>lce_ctrl := ctrl OR push_bit 20 1\<rparr>)
         else (exit, r\<lparr>lce_queue := (lce_queue r)[wrpos := ev], lce_ctrl := newctrl\<rparr>))"

definition lc_load :: "u32 \<Rightarrow> (nat \<times> nat) option" where
  "lc_load ctrl =
     (if bit ctrl 20 then None
      else let first = rd_pos ctrl;
               cnt = (if wr_pos ctrl < first then wr_pos ctrl + NUM_LC_EVENTS - first else wr_pos ctrl - first)
           in Some (first, cnt))"

definition lc_events :: "lc_ring \<Rightarrow> nat \<Rightarrow> nat \<Rightarrow> lc_event list" where
  "lc_events r first cnt = map (\<lambda>i. lce_queue r ! ((first + i) mod NUM_LC_EVENTS)) [0..<cnt]"

definition lc_commit :: "lc_ring \<Rightarrow> nat \<Rightarrow> nat \<Rightarrow> lc_ring option" where
  "lc_commit r first cnt =
     (let ctrl = lce_ctrl r in
      if rd_pos ctrl \<noteq> first then None
      else Some (r\<lparr>lce_ctrl := push_bit 10 (word_of_nat ((first + cnt) mod NUM_LC_EVENTS))
             OR (ctrl AND 0x3ff)\<rparr>))"

definition lc_init :: "lc_event list \<Rightarrow> lc_ring" where
  "lc_init q = \<lparr>lce_queue = q, lce_ctrl = 0\<rparr>"

section \<open>The control word\<close>

definition pack :: "nat \<Rightarrow> nat \<Rightarrow> u32" where
  "pack rd wr = push_bit 10 (word_of_nat rd) OR word_of_nat wr"

lemma bit_lt_128: "n < 128 \<Longrightarrow> bit n i \<Longrightarrow> i < 7" for n :: nat
proof -
  assume n: "n < 128" "bit n i"
  have "take_bit 7 n = n" using n(1) by (simp add: take_bit_nat_eq_self)
  then have "bit (take_bit 7 n) i" using n(2) by simp
  then show "i < 7" by (simp add: bit_take_bit_iff)
qed

lemma pack_fields:
  assumes "rd < 128" "wr < 128"
  shows "drop_bit 10 (pack rd wr) = word_of_nat rd" "pack rd wr AND 0x3ff = word_of_nat wr"
    "pack rd wr AND push_bit 10 0x3ff = push_bit 10 (word_of_nat rd)" "\<not> bit (pack rd wr) 20"
    "rd_pos (pack rd wr) = rd" "wr_pos (pack rd wr) = wr"
proof -
  have m: "(0x3ff :: u32) = mask 10" by (simp add: mask_eq_decr_exp)
  note b = bit_lt_128 [OF assms(1)] bit_lt_128 [OF assms(2)]
  show d: "drop_bit 10 (pack rd wr) = word_of_nat rd"
    by (rule bit_word_eqI) (fastforce simp: pack_def bit_simps dest: b)
  show w: "pack rd wr AND 0x3ff = word_of_nat wr"
    unfolding m by (rule bit_word_eqI) (fastforce simp: pack_def bit_simps dest: b)
  show "pack rd wr AND push_bit 10 0x3ff = push_bit 10 (word_of_nat rd)"
    unfolding m by (rule bit_word_eqI) (fastforce simp: pack_def bit_simps dest: b)
  show "\<not> bit (pack rd wr) 20" by (auto simp: pack_def bit_simps dest!: b)
  show "rd_pos (pack rd wr) = rd" "wr_pos (pack rd wr) = wr"
    using assms by (simp_all add: rd_pos_def wr_pos_def d w unat_of_nat)
qed

text \<open>
  A ring is well-formed when both positions are in range and the overflow bit is clear;
  \<open>lc_abs\<close> is the queue of events it holds.
\<close>

definition ring_ok :: "lc_ring \<Rightarrow> bool" where
  "ring_ok r \<longleftrightarrow> length (lce_queue r) = 128
     \<and> rd_pos (lce_ctrl r) < 128 \<and> wr_pos (lce_ctrl r) < 128
     \<and> lce_ctrl r = pack (rd_pos (lce_ctrl r)) (wr_pos (lce_ctrl r))"

definition ring_count :: "lc_ring \<Rightarrow> nat" where
  "ring_count r = (wr_pos (lce_ctrl r) + 128 - rd_pos (lce_ctrl r)) mod 128"

definition lc_abs :: "lc_ring \<Rightarrow> lc_event list" where
  "lc_abs r = lc_events r (rd_pos (lce_ctrl r)) (ring_count r)"

lemma ring_okE:
  assumes "ring_ok r"
  obtains rd wr where "rd < 128" "wr < 128" "lce_ctrl r = pack rd wr" "length (lce_queue r) = 128"
    "rd_pos (lce_ctrl r) = rd" "wr_pos (lce_ctrl r) = wr"
  using assms unfolding ring_ok_def by blast

lemma ring_okI: "length (lce_queue r) = 128 \<Longrightarrow> lce_ctrl r = pack rd wr \<Longrightarrow> rd < 128 \<Longrightarrow> wr < 128 \<Longrightarrow> ring_ok r"
  by (simp add: ring_ok_def pack_fields)

lemma length_lc_abs: "length (lc_abs r) < 128"
  by (simp add: lc_abs_def lc_events_def ring_count_def)

text \<open>Adding the event behind the last one, in terms of positions.\<close>

lemma mod_128: "x < 256 \<Longrightarrow> x mod 128 = (if x < 128 then x else x - 128)" for x :: nat
  by (simp add: mod_if)

lemma ring_dist:
  "rd < 128 \<Longrightarrow> wr < 128 \<Longrightarrow> (wr + 128 - rd) mod 128 = (if wr < rd then wr + 128 - rd else wr - rd)"
  for rd wr :: nat
proof (cases "wr < rd")
  case False
  assume "rd < 128" "wr < 128"
  with False have "wr + 128 - rd = 128 + (wr - rd)" and "wr - rd < 128" by arith+
  then have "(wr + 128 - rd) mod 128 = (wr - rd) mod 128" by (metis mod_add_self1)
  then show ?thesis using False \<open>wr - rd < 128\<close> by simp
qed simp

lemma ring_count_step:
  assumes "rd < 128" "wr < (128 :: nat)" "rd \<noteq> (wr + 1) mod 128"
  shows "((wr + 1) mod 128 + 128 - rd) mod 128 = Suc ((wr + 128 - rd) mod 128)"
    "(rd + (wr + 128 - rd) mod 128) mod 128 = wr"
proof -
  show "((wr + 1) mod 128 + 128 - rd) mod 128 = Suc ((wr + 128 - rd) mod 128)"
    using assms ring_dist [of rd "(wr + 1) mod 128"] ring_dist [of rd wr]
    by (cases "wr = 127"; cases "wr < rd") auto
  show "(rd + (wr + 128 - rd) mod 128) mod 128 = wr"
    using assms ring_dist [of rd wr] by (cases "wr < rd") (simp_all add: mod_128)
qed

lemma lc_events_write:
  assumes "rd < 128" "wr < 128" "cnt = (wr + 128 - rd) mod 128" "length (lce_queue r) = 128"
  shows "lc_events (r\<lparr>lce_queue := (lce_queue r)[wr := ev], lce_ctrl := c\<rparr>) rd (Suc cnt) = lc_events r rd cnt @ [ev]"
proof -
  have "wr \<noteq> (rd + i) mod 128" if "i < cnt" for i
    using that assms ring_dist [of rd wr] mod_128 [of "rd + i"] by (cases "wr < rd"; cases "rd + i < 128") auto
  moreover have "(rd + cnt) mod 128 = wr"
    using assms ring_dist [of rd wr] by (cases "wr < rd") (simp_all add: mod_128)
  ultimately show ?thesis using assms by (simp add: lc_events_def nth_list_update_neq)
qed

section \<open>The ring is a bounded queue\<close>

lemma push_ok:
  assumes "ring_ok r" "length (lc_abs r) < 127"
  shows "ring_ok (snd (lifecycle_handler_fn r body))"
    "lc_abs (snd (lifecycle_handler_fn r body)) = lc_abs r @ [lc_decode body]"
    "rd_pos (lce_ctrl (snd (lifecycle_handler_fn r body))) = rd_pos (lce_ctrl r)"
proof -
  obtain rd wr where rw: "rd < 128" "wr < 128" "lce_ctrl r = pack rd wr" "length (lce_queue r) = 128"
    "rd_pos (lce_ctrl r) = rd" "wr_pos (lce_ctrl r) = wr" using assms(1) by (rule ring_okE)
  let ?wr = "(wr + 1) mod 128"
  have nf: "rd \<noteq> ?wr"
    using assms(2) rw ring_dist [of rd wr]
    by (cases "wr = 127"; cases "wr < rd") (auto simp: lc_abs_def lc_events_def ring_count_def)
  have res: "snd (lifecycle_handler_fn r body) =
      r\<lparr>lce_queue := (lce_queue r)[wr := lc_decode body], lce_ctrl := pack rd ?wr\<rparr>"
    using nf rw pack_fields [OF rw(1,2)] by (simp add: lifecycle_handler_fn_def Let_def pack_def)
  show "ring_ok (snd (lifecycle_handler_fn r body))"
    unfolding res by (rule ring_okI [of _ rd ?wr]) (use rw in simp_all)
  show "rd_pos (lce_ctrl (snd (lifecycle_handler_fn r body))) = rd_pos (lce_ctrl r)"
    unfolding res using rw by (simp add: pack_fields)
  show "lc_abs (snd (lifecycle_handler_fn r body)) = lc_abs r @ [lc_decode body]"
    using rw nf ring_count_step [OF rw(1,2) nf] lc_events_write [OF rw(1,2) refl rw(4)]
    by (simp add: res lc_abs_def ring_count_def pack_fields)
qed

lemma push_full:
  assumes "ring_ok r" "length (lc_abs r) = 127"
  shows "lifecycle_handler_fn r body = (True, r\<lparr>lce_ctrl := lce_ctrl r OR push_bit 20 1\<rparr>)"
proof -
  obtain rd wr where rw: "rd < 128" "wr < 128" "lce_ctrl r = pack rd wr" "length (lce_queue r) = 128"
    "rd_pos (lce_ctrl r) = rd" "wr_pos (lce_ctrl r) = wr" using assms(1) by (rule ring_okE)
  have "rd = (wr + 1) mod 128"
    using assms(2) rw ring_dist [of rd wr]
    by (cases "wr = 127"; cases "wr < rd") (auto simp: lc_abs_def lc_events_def ring_count_def)
  then show ?thesis using rw pack_fields(4) [OF rw(1,2)] by (simp add: lifecycle_handler_fn_def Let_def)
qed

lemma lc_load_ok:
  assumes "ring_ok r"
  shows "lc_load (lce_ctrl r) = Some (rd_pos (lce_ctrl r), length (lc_abs r))"
  using assms
  by (elim ring_okE) (simp add: lc_load_def pack_fields lc_abs_def lc_events_def ring_count_def ring_dist Let_def)

text \<open>Producer steps between load and commit.\<close>

definition pushes :: "lc_ring \<Rightarrow> u32 list list \<Rightarrow> lc_ring" where
  "pushes r bodies = foldl (\<lambda>r b. snd (lifecycle_handler_fn r b)) r bodies"

lemma pushes_ok:
  "ring_ok r \<Longrightarrow> length (lc_abs r) + length bodies \<le> 127 \<Longrightarrow>
   ring_ok (pushes r bodies) \<and> lc_abs (pushes r bodies) = lc_abs r @ map lc_decode bodies
     \<and> rd_pos (lce_ctrl (pushes r bodies)) = rd_pos (lce_ctrl r)"
proof (induction bodies arbitrary: r)
  case Nil
  then show ?case by (simp add: pushes_def)
next
  case (Cons b bs)
  have "length (lc_abs r) < 127" using Cons.prems by simp
  note p = push_ok [OF Cons.prems(1) this, of b]
  from Cons.IH [OF p(1)] Cons.prems p(2,3) show ?case by (simp add: pushes_def)
qed

lemma commit_ok:
  assumes "ring_ok r" "n \<le> length (lc_abs r)"
  shows "\<exists>r'. lc_commit r (rd_pos (lce_ctrl r)) n = Some r' \<and> ring_ok r' \<and> lc_abs r' = drop n (lc_abs r)"
proof -
  obtain rd wr where rw: "rd < 128" "wr < 128" "lce_ctrl r = pack rd wr" "length (lce_queue r) = 128"
    "rd_pos (lce_ctrl r) = rd" "wr_pos (lce_ctrl r) = wr" using assms(1) by (rule ring_okE)
  let ?rd = "(rd + n) mod 128"
  let ?r = "r\<lparr>lce_ctrl := pack ?rd wr\<rparr>"
  have c: "lc_commit r rd n = Some ?r"
    using rw pack_fields [OF rw(1,2)] by (simp add: lc_commit_def Let_def pack_def)
  have "ring_ok ?r" by (rule ring_okI [of _ ?rd wr]) (use rw in simp_all)
  moreover have "lc_abs ?r = drop n (lc_abs r)"
  proof -
    let ?m = "(wr + 128 - rd) mod 128"
    have n: "n \<le> ?m" using assms(2) rw by (simp add: lc_abs_def lc_events_def ring_count_def)
    have m: "(wr + 128 - ?rd) mod 128 = ?m - n"
      using n rw(1,2) ring_dist [of ?rd wr] ring_dist [of rd wr] mod_128 [of "rd + n"]
      by (cases "wr < rd"; cases "rd + n < 128") auto
    have a: "((rd + n) mod 128 + i) mod 128 = (rd + (n + i)) mod 128" for i
      by (metis add.assoc mod_add_left_eq)
    have "lc_abs ?r = map (\<lambda>i. lce_queue r ! ((rd + (n + i)) mod 128)) [0..<?m - n]"
      using m rw by (simp add: lc_abs_def lc_events_def ring_count_def pack_fields a)
    also have "\<dots> = drop n (map (\<lambda>i. lce_queue r ! ((rd + i) mod 128)) [0..<?m])"
      by (rule nth_equalityI) (simp_all add: drop_map less_diff_conv add.commute)
    also have "\<dots> = drop n (lc_abs r)"
      using rw by (simp add: lc_abs_def lc_events_def ring_count_def)
    finally show ?thesis .
  qed
  ultimately show ?thesis using c rw(5) by auto
qed

text \<open>
  C13. While at most 127 events are outstanding the ring behaves as a FIFO queue under
  concurrency: producer steps append, the consumer sees exactly the events queued when it
  loaded the control word, in order, and its commit removes exactly those, keeping the events
  that arrived while it was processing; neither side fails an assertion.
\<close>

theorem lifecycle_ring_fifo:
  assumes "ring_ok r" "length (lc_abs r) + length bodies \<le> 127"
  shows "\<exists>first n r'. lc_load (lce_ctrl r) = Some (first, n) \<and> lc_events r first n = lc_abs r
     \<and> lc_commit (pushes r bodies) first n = Some r' \<and> ring_ok r' \<and> lc_abs r' = map lc_decode bodies"
proof -
  note p = pushes_ok [OF assms]
  have "lc_events r (rd_pos (lce_ctrl r)) (length (lc_abs r)) = lc_abs r"
    by (simp add: lc_abs_def lc_events_def)
  then show ?thesis
    using lc_load_ok [OF assms(1)] commit_ok [of "pushes r bodies" "length (lc_abs r)"] p by auto
qed

lemma lc_init_ok: "length q = 128 \<Longrightarrow> ring_ok (lc_init q) \<and> lc_abs (lc_init q) = []"
  by (simp add: ring_ok_def lc_init_def rd_pos_def wr_pos_def pack_def lc_abs_def lc_events_def ring_count_def)

theorem lifecycle_ring_fifo_witness:
  "\<exists>first n r'. lc_load 0 = Some (first, n)
     \<and> lc_commit (pushes (lc_init (replicate 128 \<lparr>primary = 0, lc_tag = MPL_EXEC\<rparr>)) [[7, 0x900], [9, 1]]) first n = Some r'
     \<and> lc_abs r' = [\<lparr>primary = 7, lc_tag = MPL_FORK 9\<rparr>, \<lparr>primary = 9, lc_tag = MPL_EXEC\<rparr>]"
proof -
  let ?r = "lc_init (replicate 128 \<lparr>primary = 0, lc_tag = MPL_EXEC\<rparr>)"
  have "map lc_decode [[7, 0x900], [9, 1]] = [\<lparr>primary = 7, lc_tag = MPL_FORK 9\<rparr>, \<lparr>primary = 9, lc_tag = MPL_EXEC\<rparr>]"
    by (simp add: lc_decode_def Let_def)
  with lifecycle_ring_fifo [of ?r "[[7, 0x900], [9, 1]]"] lc_init_ok [of "replicate 128 \<lparr>primary = 0, lc_tag = MPL_EXEC\<rparr>"]
  show ?thesis by (simp add: lc_init_def) blast
qed

text \<open>
  An overflow is detected when it happens and lost on the next event: a push onto a full
  ring sets the overflow bit, on which the consumer aborts, but a further push clears the bit
  and leaves the positions equal, so that the consumer finds an empty queue and all 127
  queued events are gone.
\<close>

theorem lifecycle_overflow_forgotten:
  fixes b1 b2 :: "u32 list"
  assumes "ring_ok r" "length (lc_abs r) = 127"
  defines "r1 \<equiv> snd (lifecycle_handler_fn r b1)"
  defines "r2 \<equiv> snd (lifecycle_handler_fn r1 b2)"
  shows "lc_load (lce_ctrl r1) = None \<and> lc_load (lce_ctrl r2) = Some (rd_pos (lce_ctrl r), 0)"
proof -
  obtain rd wr where rw: "rd < 128" "wr < 128" "lce_ctrl r = pack rd wr" "length (lce_queue r) = 128"
    "rd_pos (lce_ctrl r) = rd" "wr_pos (lce_ctrl r) = wr" using assms(1) by (rule ring_okE)
  have full: "rd = (wr + 1) mod 128"
    using assms(2) rw ring_dist [of rd wr]
    by (cases "wr = 127"; cases "wr < rd") (auto simp: lc_abs_def lc_events_def ring_count_def)
  have r1: "r1 = r\<lparr>lce_ctrl := pack rd wr OR push_bit 20 1\<rparr>"
    unfolding r1_def push_full [OF assms(1,2)] by (simp add: rw(3))
  have b20: "bit (pack rd wr OR push_bit 20 1) 20" by (simp add: bit_simps)
  have m: "(0x3ff :: u32) = mask 10" by (simp add: mask_eq_decr_exp)
  have keep: "(pack rd wr OR push_bit 20 1) AND x = pack rd wr AND x" if "\<not> bit x 20" for x :: u32
  proof (rule bit_word_eqI)
    fix n
    have "bit (push_bit 20 1 :: u32) n \<Longrightarrow> n = 20" by (auto simp only: bit_push_bit_iff bit_1_iff)
    then show "bit ((pack rd wr OR push_bit 20 1) AND x) n = bit (pack rd wr AND x) n"
      using that by (auto simp only: bit_and_iff bit_or_iff)
  qed
  have f: "(pack rd wr OR push_bit 20 1) AND 0x3ff = word_of_nat wr"
    "(pack rd wr OR push_bit 20 1) AND push_bit 10 0x3ff = push_bit 10 (word_of_nat rd)"
    using pack_fields [OF rw(1,2)] by (subst keep; simp add: m bit_simps)+
  have wr: "wr_pos (pack rd wr OR push_bit 20 1) = wr"
    unfolding wr_pos_def f(1) using rw(2) by (simp add: unat_of_nat)
  obtain c where c: "lce_ctrl r1 = c" "bit c 20" "wr_pos c = wr" "c AND push_bit 10 0x3ff = push_bit 10 (word_of_nat rd)"
    using b20 wr f(2) r1 by force
  have "r2 = r1\<lparr>lce_ctrl := push_bit 10 (word_of_nat rd) OR word_of_nat ((wr + 1) mod 128)\<rparr>"
    unfolding r2_def lifecycle_handler_fn_def Let_def c(1) c(3) c(4) using c(2) by simp
  then have "lce_ctrl r2 = pack rd rd" unfolding full [symmetric] by (simp add: pack_def)
  then have "lc_load (lce_ctrl r2) = Some (rd, 0)"
    using pack_fields [of rd rd] rw(1) by (simp add: lc_load_def Let_def)
  moreover have "lc_load (lce_ctrl r1) = None" using b20 by (simp add: r1 lc_load_def)
  ultimately show ?thesis by (simp add: rw(5))
qed

theorem lifecycle_overflow_forgotten_witness:
  "lc_load (lce_ctrl (snd (lifecycle_handler_fn (snd (lifecycle_handler_fn
     \<lparr>lce_queue = replicate 128 \<lparr>primary = 3, lc_tag = MPL_EXEC\<rparr>, lce_ctrl = 127\<rparr> [1, 1])) [2, 1]))) = Some (0, 0)"
proof -
  let ?r = "\<lparr>lce_queue = replicate 128 \<lparr>primary = 3, lc_tag = MPL_EXEC\<rparr>, lce_ctrl = 127\<rparr>"
  have p: "rd_pos 127 = 0" "wr_pos 127 = 127" "pack 0 127 = 127"
    by (simp_all add: rd_pos_def wr_pos_def pack_def)
  have "ring_ok ?r" "length (lc_abs ?r) = 127"
    by (simp_all add: ring_ok_def p lc_abs_def lc_events_def ring_count_def)
  from lifecycle_overflow_forgotten [OF this, of "[1, 1]" "[2, 1]"] show ?thesis by (simp add: p)
qed

end
