(* ===== verification/Lib_Codes.thy ===== *)
theory Lib_Codes
  imports Prelude
begin

text \<open>
  Small value-level routines of \<^verbatim>\<open>lib/\<close>: the integer hashes of \<^verbatim>\<open>hash.c\<close>, the radix-64
  codec of \<^verbatim>\<open>a64l.c\<close>, device numbers of \<^verbatim>\<open>sysmacros.c\<close>, process identifiers of
  \<^verbatim>\<open>pidof.c\<close> and open cookies of \<^verbatim>\<open>cookie.c\<close>.  Integers keep their width.
\<close>

section \<open>Hashes\<close>

definition hash32shiftmult :: "u32 \<Rightarrow> u32" where
  "hash32shiftmult key0 =
     (let c2 = 0x27d4eb2d;
          key = (key0 XOR 61) XOR drop_bit 16 key0;
          key = key + push_bit 3 key;
          key = key XOR drop_bit 4 key;
          key = key * c2;
          key = key XOR drop_bit 15 key
      in key)"

definition int_hash :: "u32 \<Rightarrow> u32" where
  "int_hash x = hash32shiftmult x"

definition int64_hash :: "u64 \<Rightarrow> u32" where
  "int64_hash key = hash32shiftmult (ucast key) XOR hash32shiftmult (ucast (drop_bit 32 key))"

definition bob96bitmix :: "u32 \<Rightarrow> u32 \<Rightarrow> u32 \<Rightarrow> u32" where
  "bob96bitmix a b c =
     (let a = a - b; a = a - c; a = a XOR drop_bit 13 c;
          b = b - c; b = b - a; b = b XOR push_bit 8 a;
          c = c - a; c = c - b; c = c XOR drop_bit 13 b;
          a = a - b; a = a - c; a = a XOR drop_bit 12 c;
          b = b - c; b = b - a; b = b XOR push_bit 16 a;
          c = c - a; c = c - b; c = c XOR drop_bit 5 b;
          a = a - b; a = a - c; a = a XOR drop_bit 3 c;
          b = b - c; b = b - a; b = b XOR push_bit 10 a;
          c = c - a; c = c - b; c = c XOR drop_bit 15 b
      in c)"

section \<open>Radix-64 codec\<close>

text \<open>
  \<open>dec_table\<close> has the entries of the designated initialisers, 0 elsewhere, and ends at
  the letter \<open>z\<close>.  Characters are bytes; \<open>decode_byte\<close> receives them sign-extended.
\<close>

definition dec_table :: "nat list" where
  "dec_table = map (\<lambda>c. if c = 47 then 1
     else if 48 \<le> c \<and> c \<le> 57 then c - 46
     else if 65 \<le> c \<and> c \<le> 90 then c - 53
     else if 97 \<le> c \<and> c \<le> 122 then c - 59
     else 0) [0..<123]"

definition decode_byte :: "u32 \<Rightarrow> u32 option" where
  "decode_byte c =
     (if unat c < length dec_table \<and> (dec_table ! unat c > 0 \<or> c = 46)
      then Some (of_nat (dec_table ! unat c)) else None)"

definition enc_table :: "nat list" where
  "enc_table = [46, 47] @ [48..<58] @ [65..<91] @ [97..<123]"

definition encode_byte :: "u32 \<Rightarrow> u8" where
  "encode_byte b = (if unat b < length enc_table then of_nat (enc_table ! unat b) else 38)"

text \<open>
  The string argument is the bytes before the terminator.  A failing digit leaves the loop
  and makes the result 0.
\<close>

fun a64l_loop :: "u8 list \<Rightarrow> nat \<Rightarrow> u32 \<Rightarrow> u32" where
  "a64l_loop [] i acc = acc"
| "a64l_loop (c # cs) i acc =
     (if i < 6 then
        (case decode_byte (scast c) of None \<Rightarrow> 0
         | Some d \<Rightarrow> a64l_loop cs (Suc i) (acc OR push_bit (6 * i) d))
      else acc)"

definition a64l :: "u8 list \<Rightarrow> u32" where
  "a64l str64 = a64l_loop str64 0 0"

fun l64a_loop :: "nat \<Rightarrow> u32 \<Rightarrow> u8 list" where
  "l64a_loop 0 v = []"
| "l64a_loop (Suc n) v =
     (if v > 0 then encode_byte (v AND 0x3f) # l64a_loop n (drop_bit 6 v) else [])"

text \<open>
  The static buffer is only written inside the loop: its previous contents are an
  argument, and they are what the call returns for 0.
\<close>

definition l64a :: "u8 list \<Rightarrow> u32 \<Rightarrow> u8 list" where
  "l64a str v = (if v > 0 then l64a_loop 6 v else str)"

section \<open>Device numbers\<close>

definition sneks_major :: "u32 \<Rightarrow> u32" where
  "sneks_major dev = drop_bit 15 dev AND 0x7fff"

definition sneks_minor :: "u32 \<Rightarrow> u32" where
  "sneks_minor dev = dev AND 0x7fff"

definition sneks_makedev :: "u32 \<Rightarrow> u32 \<Rightarrow> u32" where
  "sneks_makedev major minor = push_bit 15 (major AND 0x7fff) OR (minor AND 0x7fff)"

section \<open>Process identifiers\<close>

text \<open>
  The microkernel's accessors \<^verbatim>\<open>L4_IsLocalId\<close>, \<^verbatim>\<open>L4_Version\<close> (14 bits) and
  \<^verbatim>\<open>L4_ThreadNo\<close> (18 bits) of a thread identifier are the fields of this record; the
  first argument of \<open>pidof_NP\<close> is the caller's own global identifier.
\<close>

record l4_tid =
  is_local :: bool
  tid_version :: u32
  tid_threadno :: u32

definition tid_ok :: "l4_tid \<Rightarrow> bool" where
  "tid_ok t \<longleftrightarrow> unat (tid_version t) < 2 ^ 14 \<and> unat (tid_threadno t) < 2 ^ 18"

definition pidof_NP :: "l4_tid \<Rightarrow> l4_tid \<Rightarrow> u32" where
  "pidof_NP my_global tid =
     (let tid = (if is_local tid then my_global else tid);
          v = tid_version tid; n = tid_threadno tid
      in if v AND 1 = 1 then drop_bit 1 v OR drop_bit 3 (n AND 0x30000)
         else if v AND 3 = 2 then 50000 + drop_bit 2 v
         else 0)"

section \<open>Cookies\<close>

text \<open>
  The keyed hash \<^verbatim>\<open>siphash_2_4\<close> is an argument, a function of the three fields of
  \<^verbatim>\<open>struct cookie_info\<close> and the key.
\<close>

type_synonym 'key siphash = "u64 \<times> u32 \<times> u64 \<Rightarrow> 'key \<Rightarrow> u64"

definition COOKIE_PERIOD_US :: u64 where
  "COOKIE_PERIOD_US = 2 ^ 15 - 1"

definition gen_cookie :: "'key siphash \<Rightarrow> 'key \<Rightarrow> u64 \<Rightarrow> u32 \<Rightarrow> u32 \<Rightarrow> u32" where
  "gen_cookie siphash key now object pid =
     ucast (siphash (now AND NOT COOKIE_PERIOD_US, pid, ucast object) key)"

definition validate_cookie :: "'key siphash \<Rightarrow> u32 \<Rightarrow> 'key \<Rightarrow> u64 \<Rightarrow> u32 \<Rightarrow> u32 \<Rightarrow> bool" where
  "validate_cookie siphash cookie key now object pid =
     (let nxt = now + COOKIE_PERIOD_US + 1
      in gen_cookie siphash key now object pid = cookie
         \<or> gen_cookie siphash key nxt object pid = cookie)"

section \<open>Properties\<close>

lemma length_tables [simp]: "length enc_table = 64" "length dec_table = 123"
  unfolding enc_table_def dec_table_def by (simp_all only: length_map length_upt length_append) simp

lemma enc_table_nth:
  assumes "n < 64"
  shows "enc_table ! n = (if n < 12 then n + 46 else if n < 38 then n + 53 else n + 59)"
proof -
  consider "n = 0" | "n = 1" | "2 \<le> n" "n < 12" | "12 \<le> n" "n < 38" | "38 \<le> n" by linarith
  then show ?thesis
    unfolding enc_table_def using assms
    by cases (simp_all only: nth_append length_append length_upt list.size nth_upt, simp_all, linarith+)
qed

lemma dec_table_nth:
  assumes "c < 123"
  shows "dec_table ! c = (if c = 47 then 1 else if 48 \<le> c \<and> c \<le> 57 then c - 46
     else if 65 \<le> c \<and> c \<le> 90 then c - 53 else if 97 \<le> c \<and> c \<le> 122 then c - 59 else 0)"
  unfolding dec_table_def using assms
  by (subst nth_map) (simp_all only: length_upt nth_upt add_0 diff_zero)

lemma unat_scast_ascii: "c < 128 \<Longrightarrow> unat (scast (word_of_nat c :: u8) :: u32) = c"
proof -
  assume c: "c < 128"
  have "sint (word_of_nat c :: u8) = int c"
    using c by (simp add: signed_of_nat signed_take_bit_int_eq_self)
  then show ?thesis using c by (simp add: scast_eq unsigned_of_nat take_bit_nat_eq_self)
qed

lemma decode_encode_digit:
  assumes "unat d < 64" shows "decode_byte (scast (encode_byte d)) = Some d"
proof -
  let ?c = "enc_table ! unat d"
  have c: "?c < 123" and dc: "dec_table ! ?c = unat d" and dot: "unat d = 0 \<longleftrightarrow> ?c = 46"
    using assms by (auto simp: enc_table_nth dec_table_nth)
  have "unat (scast (encode_byte d) :: u32) = ?c"
    using assms c by (simp add: encode_byte_def unat_scast_ascii)
  moreover have "scast (encode_byte d) = (46 :: u32) \<longleftrightarrow> ?c = 46"
    using calculation by (simp add: word_unat_eq_iff)
  ultimately show ?thesis using c dc dot by (auto simp: decode_byte_def)
qed

lemma and_0x3f: "v AND 0x3f = take_bit 6 v" for v :: u32
  by (simp add: take_bit_eq_mask mask_eq_decr_exp)

lemma take_bit_digit: "unat (take_bit 6 v) < 64" for v :: u32
  using unat_lt_bits [of "take_bit 6 v" 6] by (simp add: bit_take_bit_iff)

lemma digit_recombine:
  "push_bit n (take_bit 6 v) OR push_bit (6 + n) (drop_bit 6 v) = push_bit n v" for v :: u32
proof (rule bit_word_eqI)
  fix i assume "i < LENGTH(32)"
  moreover have "6 + (i - (6 + n)) = i - n" if "6 \<le> i - n" using that by simp
  ultimately show "bit (push_bit n (take_bit 6 v) OR push_bit (6 + n) (drop_bit 6 v)) i = bit (push_bit n v) i"
    by (cases "6 \<le> i - n") (auto simp: bit_simps)
qed

lemma a64l_loop_inverse:
  "i + n = 6 \<Longrightarrow> a64l_loop (l64a_loop n v) i acc = acc OR push_bit (6 * i) v"
proof (induction n arbitrary: i v acc)
  case 0
  then have "push_bit (6 * i) v = 0" by (auto intro: bit_word_eqI simp: bit_simps)
  then show ?case by simp
next
  case (Suc n)
  then show ?case
    using digit_recombine [of "6 * i" v]
    by (auto simp: decode_encode_digit and_0x3f take_bit_digit or.assoc word_gt_0)
qed

text \<open>Encoding a nonzero 32-bit value with \<open>l64a\<close> and decoding the string with \<open>a64l\<close>
  gives the value back, over the full range including values with the sign bit set.\<close>

theorem a64l_l64a_roundtrip: "v \<noteq> 0 \<Longrightarrow> a64l (l64a str v) = v"
  using a64l_loop_inverse [of 0 6 v 0] by (simp add: a64l_def l64a_def word_gt_0)

theorem a64l_l64a_roundtrip_witness:
  "(0xdeadbeef :: u32) \<noteq> 0 \<and> a64l (l64a [] 0xdeadbeef) = 0xdeadbeef"
  using a64l_l64a_roundtrip [where v = "0xdeadbeef" and str = "[]"] by simp

lemma and_7fff: "(x :: u32) AND 0x7fff = take_bit 15 x"
  by (simp add: take_bit_eq_mask mask_eq_decr_exp)

text \<open>\<open>makedev\<close> packs the low 15 bits of both numbers, and \<open>major\<close> and \<open>minor\<close> read
  them back without interference.\<close>

lemma makedev_roundtrip:
  "sneks_major (sneks_makedev major minor) = major AND 0x7fff
   \<and> sneks_minor (sneks_makedev major minor) = minor AND 0x7fff"
  unfolding sneks_major_def sneks_minor_def sneks_makedev_def and_7fff
  by (intro conjI bit_word_eqI) (auto simp: bit_simps)

lemma user_pid_bound:
  assumes "unat v < 2 ^ 14"
  shows "unat (drop_bit 1 v OR drop_bit 3 (n AND 0x30000) :: u32) < 2 ^ 15"
proof (rule unat_or_lt)
  show "unat (drop_bit 1 v) < 2 ^ 15" using assms by (intro unat_drop_lt) simp
  show "unat (drop_bit 3 (n AND 0x30000)) < 2 ^ 15"
    using unat_and_le [of n "0x30000"] by (intro unat_drop_lt) simp
qed

text \<open>Thread identifiers map to the process identifier ranges the headers promise: an
  odd version gives a userspace PID of at most \<^verbatim>\<open>SNEKS_MAX_PID\<close>, a version ending in
  binary 10 a system task between \<^verbatim>\<open>SNEKS_MIN_SYSID\<close> and 65535, every other version 0;
  so every result fits the 16-bit \<open>pid\<close> fields.\<close>

theorem pidof_NP_ranges:
  assumes "tid_ok t" and "\<not> is_local t"
  shows "(if tid_version t AND 1 = 1 then unat (pidof_NP me t) \<le> 32767
    else if tid_version t AND 3 = 2 then 50000 \<le> unat (pidof_NP me t) \<and> unat (pidof_NP me t) < 2 ^ 16
    else pidof_NP me t = 0)"
proof -
  let ?v = "tid_version t"
  have v: "unat ?v < 2 ^ 14" using assms(1) by (simp add: tid_ok_def)
  have d: "unat (drop_bit 2 ?v) < 2 ^ 12"
    using v by (intro unat_drop_lt) simp
  then have "unat (50000 + drop_bit 2 ?v) = 50000 + unat (drop_bit 2 ?v)"
    by (simp add: unat_word_ariths)
  with d user_pid_bound [OF v, of "tid_threadno t"] assms(2) show ?thesis
    by (simp add: pidof_NP_def Let_def)
qed

theorem pidof_NP_ranges_witness:
  "tid_ok \<lparr>is_local = False, tid_version = 5, tid_threadno = 0x30007\<rparr>
   \<and> pidof_NP \<lparr>is_local = False, tid_version = 2, tid_threadno = 0\<rparr>
       \<lparr>is_local = False, tid_version = 5, tid_threadno = 0x30007\<rparr> = 24578
   \<and> unat (24578 :: u32) \<le> 32767"
  using pidof_NP_ranges [of "\<lparr>is_local = False, tid_version = 5, tid_threadno = 0x30007\<rparr>"
      "\<lparr>is_local = False, tid_version = 2, tid_threadno = 0\<rparr>"]
  by (simp add: tid_ok_def pidof_NP_def)

lemma cookie_period: "now AND NOT COOKIE_PERIOD_US = push_bit 15 (drop_bit 15 now)"
proof -
  have eq: "COOKIE_PERIOD_US = mask 15" by (simp add: COOKIE_PERIOD_US_def mask_eq_decr_exp)
  show ?thesis unfolding eq by (rule bit_word_eqI) (auto simp: bit_simps)
qed

lemma gen_cookie_cong:
  "drop_bit 15 now = drop_bit 15 t \<Longrightarrow>
   gen_cookie siphash key now object pid = gen_cookie siphash key t object pid"
  by (simp add: gen_cookie_def cookie_period)

text \<open>A cookie validates for the same key, object and consumer at every time of the
  32768 microsecond period it was generated in, and one period earlier; in the period after
  it validates only if the hash collides with that of one of the two periods then accepted.\<close>

theorem validate_cookie_periods:
  "(drop_bit 15 now = drop_bit 15 t \<longrightarrow>
      validate_cookie siphash (gen_cookie siphash key t object pid) key now object pid)
   \<and> validate_cookie siphash (gen_cookie siphash key (t + 2 ^ 15) object pid) key t object pid
   \<and> (validate_cookie siphash (gen_cookie siphash key t object pid) key (t + 2 ^ 15) object pid \<longleftrightarrow>
        gen_cookie siphash key (t + 2 ^ 15) object pid = gen_cookie siphash key t object pid
        \<or> gen_cookie siphash key (t + 2 ^ 16) object pid = gen_cookie siphash key t object pid)"
  using gen_cookie_cong [of now t siphash key object pid]
  by (auto simp: validate_cookie_def Let_def COOKIE_PERIOD_US_def add.commute)

theorem validate_cookie_periods_witness:
  "validate_cookie (\<lambda>(time, pid, object) key. time + key) (gen_cookie (\<lambda>(time, pid, object) key. time + key) 7 0x10001 3 4)
     7 0x10fff 3 4
   \<and> \<not> validate_cookie (\<lambda>(time, pid, object) key. time + key)
     (gen_cookie (\<lambda>(time, pid, object) key. time + key) 7 0x10001 3 4) 7 (0x10001 + 2 ^ 15) 3 4"
  using validate_cookie_periods [of "0x10fff" "0x10001" "\<lambda>(time, pid, object) key. time + key" 7 3 4]
  by (simp add: gen_cookie_def COOKIE_PERIOD_US_def)

end
