(* ===== verification/Rollback.thy ===== *)
theory Rollback
  imports Lib_Codes
begin

text \<open>
  Lazy confirmation and rollback of IPC replies, \<^verbatim>\<open>lib/rollback.c\<close>.  The per-thread context
  is an option (\<open>None\<close> before the first use); a handler function with its two arguments is an
  abstract action, and \<open>run\<close> says what executing one does to the server state.  The sender
  and tag of the current transaction come from the IDL dispatcher, as does the classification
  of a dispatch status as a kernel IPC error.  The \<^verbatim>\<open>abort()\<close> when a thread's context cannot be
  allocated, at the thread's first use of it, is not modelled, and the functions set are never null, as in all callers.
\<close>

section \<open>The context and its operations\<close>

record 'a rbctx =
  rb_sender :: l4_tid
  rb_tag :: u32
  rb_r :: "'a option"
  rb_c :: "'a option"

definition nil_tid :: l4_tid where
  "nil_tid = \<lparr>is_local = False, tid_version = 0, tid_threadno = 0\<rparr>"

definition get_ctx :: "'a rbctx option \<Rightarrow> 'a rbctx" where
  "get_ctx ctx = (case ctx of None \<Rightarrow> \<lparr>rb_sender = nil_tid, rb_tag = 0, rb_r = None, rb_c = None\<rparr>
     | Some c \<Rightarrow> c)"

definition set_rollback :: "'a \<Rightarrow> l4_tid \<Rightarrow> u32 \<Rightarrow> 'a rbctx option \<Rightarrow> 'a rbctx option" where
  "set_rollback fn sender tag ctx =
     Some ((get_ctx ctx)\<lparr>rb_r := Some fn, rb_sender := sender, rb_tag := tag\<rparr>)"

definition set_confirm :: "'a \<Rightarrow> l4_tid \<Rightarrow> u32 \<Rightarrow> 'a rbctx option \<Rightarrow> 'a rbctx option" where
  "set_confirm fn sender tag ctx =
     Some ((get_ctx ctx)\<lparr>rb_c := Some fn, rb_sender := sender, rb_tag := tag\<rparr>)"

definition sync_confirm ::
  "('a \<Rightarrow> 's \<Rightarrow> 's option) \<Rightarrow> 'a rbctx option \<times> 's \<Rightarrow> ('a rbctx option \<times> 's) option" where
  "sync_confirm run cs =
     (case cs of
        (Some ctx, s) \<Rightarrow>
          (case rb_c ctx of None \<Rightarrow> Some cs
           | Some fn \<Rightarrow> map_option (\<lambda>s. (Some (ctx\<lparr>rb_c := None\<rparr>), s)) (run fn s))
      | (None, s) \<Rightarrow> Some cs)"

definition check_rollback ::
  "(u32 \<Rightarrow> bool) \<Rightarrow> ('a \<Rightarrow> 's \<Rightarrow> 's option) \<Rightarrow> u32 \<Rightarrow> l4_tid \<Rightarrow> u32
     \<Rightarrow> 'a rbctx option \<times> 's \<Rightarrow> (bool \<times> 'a rbctx option \<times> 's) option" where
  "check_rollback is_l4_error run status sender tag cs =
     (if \<not> is_l4_error status then Some (False, cs)
      else if status AND 1 \<noteq> 0 then
        map_option (\<lambda>(ctx, s). (False, map_option (\<lambda>c. c\<lparr>rb_r := None\<rparr>) ctx, s)) (sync_confirm run cs)
      else case cs of
        (None, s) \<Rightarrow> Some (False, None, s)
      | (Some ctx, s) \<Rightarrow>
          if rb_tag ctx = tag \<and> rb_sender ctx = sender then
            (case rb_r ctx of
               None \<Rightarrow> Some (False, Some (ctx\<lparr>rb_c := None, rb_r := None\<rparr>), s)
             | Some fn \<Rightarrow> map_option (\<lambda>s. (True, Some (ctx\<lparr>rb_c := None, rb_r := None\<rparr>), s)) (run fn s))
          else Some (False, Some (ctx\<lparr>rb_r := None\<rparr>), s))"

section \<open>Transactions\<close>

text \<open>
  A transaction as the header \<^verbatim>\<open>include/sneks/rollback.h\<close> prescribes: the handler calls
  \<open>sync_confirm\<close>, then may set a confirm and a rollback action; then the reply succeeds, fails on the send side (status 2), or succeeds and
  the wait for the next message fails (status 3).  The server state is the log of executed actions, confirms on the left and rollbacks on the
  right.
\<close>

datatype reply = Replied | Send_Failed | Receive_Failed

record ('a, 'b) txn =
  t_sender :: l4_tid
  t_tag :: u32
  t_confirm :: "'a option"
  t_rollback :: "'b option"
  t_reply :: reply

definition log_run :: "'a \<Rightarrow> 'a list \<Rightarrow> 'a list option" where
  "log_run a l = Some (l @ [a])"

definition do_txn :: "('a, 'b) txn \<Rightarrow> ('a + 'b) rbctx option \<times> ('a + 'b) list \<Rightarrow> (('a + 'b) rbctx option \<times> ('a + 'b) list) option" where
  "do_txn t cs =
     (case sync_confirm log_run cs of None \<Rightarrow> None
      | Some (ctx, l) \<Rightarrow>
          let ctx = (case t_confirm t of None \<Rightarrow> ctx | Some a \<Rightarrow> set_confirm (Inl a) (t_sender t) (t_tag t) ctx);
              ctx = (case t_rollback t of None \<Rightarrow> ctx | Some a \<Rightarrow> set_rollback (Inr a) (t_sender t) (t_tag t) ctx)
          in if t_reply t = Replied then Some (ctx, l)
             else map_option snd (check_rollback (\<lambda>_. True) log_run (if t_reply t = Send_Failed then 2 else 3) (t_sender t) (t_tag t) (ctx, l)))"

fun do_txns :: "('a, 'b) txn list \<Rightarrow> ('a + 'b) rbctx option \<times> ('a + 'b) list \<Rightarrow> (('a + 'b) rbctx option \<times> ('a + 'b) list) option" where
  "do_txns [] cs = sync_confirm log_run cs"
| "do_txns (t # ts) cs = (case do_txn t cs of None \<Rightarrow> None | Some cs \<Rightarrow> do_txns ts cs)"

definition pending_confirm :: "'a rbctx option \<Rightarrow> 'a list" where
  "pending_confirm ctx = (case ctx of None \<Rightarrow> [] | Some c \<Rightarrow> (case rb_c c of None \<Rightarrow> [] | Some a \<Rightarrow> [a]))"

definition opt_list :: "'a option \<Rightarrow> 'a list" where
  "opt_list x = (case x of None \<Rightarrow> [] | Some a \<Rightarrow> [a])"

text \<open>The confirm actions that are executed or will be by the next \<open>sync_confirm\<close>.\<close>

definition confirms :: "('a + 'b) rbctx option \<Rightarrow> ('a + 'b) list \<Rightarrow> 'a list" where
  "confirms ctx l = map projl (filter isl (l @ pending_confirm ctx))"

definition rollbacks_kept :: "('a + 'b) rbctx option \<Rightarrow> bool" where
  "rollbacks_kept ctx \<longleftrightarrow> (\<forall>c a. ctx = Some c \<longrightarrow> rb_r c = Some a \<longrightarrow> \<not> isl a)"

lemma sync_confirm_log:
  "\<exists>ctx'. sync_confirm log_run (ctx, l) = Some (ctx', l @ pending_confirm ctx) \<and> pending_confirm ctx' = []
     \<and> map_option rb_r ctx' = map_option rb_r ctx \<and> map_option rb_sender ctx' = map_option rb_sender ctx
     \<and> map_option rb_tag ctx' = map_option rb_tag ctx"
  by (auto simp: sync_confirm_def pending_confirm_def log_run_def split: option.splits)

text \<open>One transaction adds its confirm action, executed or pending, exactly if its reply succeeded.\<close>

lemma do_txn_confirms:
  assumes "rollbacks_kept ctx"
  shows "\<exists>ctx' l'. do_txn t (ctx, l) = Some (ctx', l') \<and> rollbacks_kept ctx'
     \<and> confirms ctx' l' = confirms ctx l @ (if t_reply t = Send_Failed then [] else opt_list (t_confirm t))"
proof -
  obtain c1 where c1: "sync_confirm log_run (ctx, l) = Some (c1, l @ pending_confirm ctx)"
    "pending_confirm c1 = []" "map_option rb_r c1 = map_option rb_r ctx"
    using sync_confirm_log by blast
  have r: "rollbacks_kept c1" using c1(3) assms by (cases c1; cases ctx) (auto simp: rollbacks_kept_def)
  have n: "\<forall>c. c1 = Some c \<longrightarrow> rb_c c = None" using c1(2) by (auto simp: pending_confirm_def split: option.splits)
  show ?thesis
  proof (cases "t_reply t")
    case Replied
    then show ?thesis using c1(1) r n
      by (cases c1; cases "t_confirm t"; cases "t_rollback t")
        (auto simp: do_txn_def set_confirm_def set_rollback_def get_ctx_def confirms_def pending_confirm_def opt_list_def rollbacks_kept_def)
  next
    case Send_Failed
    then show ?thesis using c1(1) r n
      by (cases c1; cases "t_confirm t"; cases "t_rollback t")
        (auto simp: do_txn_def set_confirm_def set_rollback_def get_ctx_def confirms_def pending_confirm_def opt_list_def rollbacks_kept_def
          check_rollback_def log_run_def split: option.splits)
  next
    case Receive_Failed
    then show ?thesis using c1(1) r n
      by (cases c1; cases "t_confirm t"; cases "t_rollback t")
        (auto simp: do_txn_def set_confirm_def set_rollback_def get_ctx_def confirms_def pending_confirm_def opt_list_def rollbacks_kept_def
          check_rollback_def sync_confirm_def log_run_def split: option.splits)
  qed
qed

text \<open>
  C30. Confirm actions are exact: over any sequence of transactions whose handlers begin with \<open>sync_confirm\<close>, the
  confirm actions executed are precisely those of the transactions whose replies succeeded, each once
  and in order, whoever the senders are, whatever rollback actions the transactions set as well, and whether a failure is on the send or on the
  receive side.
\<close>

theorem confirms_exact:
  "\<exists>ctx l. do_txns ts (None, []) = Some (ctx, l)
     \<and> map projl (filter isl l) = concat (map (\<lambda>t. if t_reply t = Send_Failed then [] else opt_list (t_confirm t)) ts)"
proof -
  have "\<exists>ctx' l'. do_txns ts (ctx, l) = Some (ctx', l') \<and> map projl (filter isl l')
      = confirms ctx l @ concat (map (\<lambda>t. if t_reply t = Send_Failed then [] else opt_list (t_confirm t)) ts)"
    if "rollbacks_kept ctx" for ctx :: "('a + 'b) rbctx option" and l
    using that
  proof (induction ts arbitrary: ctx l)
    case Nil
    then show ?case using sync_confirm_log [of ctx l] by (auto simp: confirms_def)
  next
    case (Cons t ts)
    obtain c l' where c: "do_txn t (ctx, l) = Some (c, l')" "rollbacks_kept c"
      "confirms c l' = confirms ctx l @ (if t_reply t = Send_Failed then [] else opt_list (t_confirm t))"
      using do_txn_confirms [OF Cons.prems] by blast
    from Cons.IH [OF c(2), of l'] c(1,3) show ?case by auto
  qed
  from this [of None "[]"] show ?thesis by (simp add: confirms_def pending_confirm_def rollbacks_kept_def)
qed

text \<open>
  For rollbacks the context remembers an action until it is matched, replaced or cleared, so
  the executed actions are exact as long as sender and tag identify the transaction.
\<close>

definition stale_free :: "'a rbctx option \<Rightarrow> (l4_tid \<times> u32) set \<Rightarrow> bool" where
  "stale_free ctx K \<longleftrightarrow> (\<forall>c. ctx = Some c \<longrightarrow> rb_c c = None \<and> (rb_r c = None \<or> (rb_sender c, rb_tag c) \<in> K))"

lemma do_txn_rollbacks:
  assumes "t_confirm t = None" "stale_free ctx K" "(t_sender t, t_tag t) \<notin> K"
  shows "\<exists>ctx'. do_txn t (ctx, l) = Some (ctx', l @ (if t_reply t = Send_Failed then map Inr (opt_list (t_rollback t)) else []))
     \<and> stale_free ctx' (insert (t_sender t, t_tag t) K)"
  using assms
  by (cases ctx; cases "t_rollback t"; cases "t_reply t")
    (auto simp: do_txn_def sync_confirm_def check_rollback_def set_rollback_def opt_list_def
        get_ctx_def stale_free_def log_run_def)

text \<open>
  Rollback actions are exact while no confirms are mixed in and no two transactions share
  sender and tag: the actions executed are those of the transactions whose replies failed,
  each once and in order, and a successful transaction's action never runs.
\<close>

theorem rollbacks_exact:
  assumes "\<forall>t \<in> set ts. t_confirm t = None" "distinct (map (\<lambda>t. (t_sender t, t_tag t)) ts)"
  shows "\<exists>ctx. do_txns ts (None, []) =
    Some (ctx, concat (map (\<lambda>t. if t_reply t = Send_Failed then map Inr (opt_list (t_rollback t)) else []) ts))"
proof -
  have "\<exists>ctx'. do_txns ts (ctx, l) = Some (ctx', l @
      concat (map (\<lambda>t. if t_reply t = Send_Failed then map Inr (opt_list (t_rollback t)) else []) ts))"
    if "\<forall>t \<in> set ts. t_confirm t = None" "distinct (map (\<lambda>t. (t_sender t, t_tag t)) ts)" "stale_free ctx K"
      "K \<inter> (\<lambda>t. (t_sender t, t_tag t)) ` set ts = {}" for ctx :: "('a + 'b) rbctx option" and l K ts
    using that
  proof (induction ts arbitrary: ctx l K)
    case Nil
    then show ?case by (auto simp: sync_confirm_def stale_free_def split: option.splits)
  next
    case (Cons t ts)
    let ?r = "if t_reply t = Send_Failed then map Inr (opt_list (t_rollback t)) else []"
    obtain c where c: "do_txn t (ctx, l) = Some (c, l @ ?r)" "stale_free c (insert (t_sender t, t_tag t) K)"
      using do_txn_rollbacks [of t ctx K l] Cons.prems by auto
    from Cons.IH [OF _ _ c(2), of "l @ ?r"] Cons.prems c(1)
    show ?case by auto
  qed
  from this [OF assms, of None "{}" "[]"] show ?thesis by (simp add: stale_free_def)
qed

theorem rollbacks_exact_witness:
  "\<exists>ctx. do_txns [\<lparr>t_sender = nil_tid, t_tag = 1, t_confirm = None :: char option, t_rollback = Some CHR ''a'', t_reply = Replied\<rparr>,
      \<lparr>t_sender = nil_tid, t_tag = 2, t_confirm = None, t_rollback = Some CHR ''b'', t_reply = Send_Failed\<rparr>] (None, [])
     = Some (ctx, [Inr CHR ''b''])"
  using rollbacks_exact [of "[\<lparr>t_sender = nil_tid, t_tag = 1, t_confirm = None :: char option, t_rollback = Some CHR ''a'', t_reply = Replied\<rparr>,
      \<lparr>t_sender = nil_tid, t_tag = 2, t_confirm = None, t_rollback = Some CHR ''b'', t_reply = Send_Failed\<rparr>]"]
  by (simp add: opt_list_def)

text \<open>
  Mixing the two loses exactness of rollbacks: \<open>_set_confirm\<close> overwrites the recorded sender and tag but
  leaves an earlier rollback in place, so the failed reply of a later, unrelated transaction
  that only set a confirm undoes a transaction whose reply had succeeded.
\<close>

theorem stale_rollback_runs:
  "\<exists>ctx. do_txns [\<lparr>t_sender = A, t_tag = ta, t_confirm = None, t_rollback = Some undo, t_reply = Replied\<rparr>,
      \<lparr>t_sender = B, t_tag = tb, t_confirm = Some conf, t_rollback = None, t_reply = Send_Failed\<rparr>] (None, [])
     = Some (ctx, [Inr undo])"
  by (simp add: do_txn_def sync_confirm_def check_rollback_def set_rollback_def set_confirm_def
      get_ctx_def log_run_def)

end
