(* ===== verification/Io_Core.thy ===== *)
theory Io_Core
  imports Handle_Links Lifecycle_Queue Rollback
begin

text \<open>
  The I/O server library \<^verbatim>\<open>sys/io/io.c\<close>: clients, files and handles with their cross-linked
  arrays, the fork indirection tables, handle transfers, lazy close, and the lifecycle
  events that fork, exec and exit send.

  A handle is identified with its range allocator index, a client with its PID, a file with
  a number never reused.  The range allocator is the argument \<open>ra\<close>: given which indexes are in
  use it returns a free one or none.  The implementation's callbacks are the record \<open>cb\<close> over
  the implementation's own state.  \<open>res_oracle\<close> lists whether the coming allocations and hash table
  insertions succeed (exhausted: success).  \<open>None\<close> is \<^verbatim>\<open>abort()\<close>, a failed assertion or an
  access through a bad pointer or index.
\<close>

section \<open>State\<close>

abbreviation (input) IOF_NONBLOCK :: u32 where "IOF_NONBLOCK \<equiv> 0x800"
abbreviation (input) IOD_CLOEXEC :: u32 where "IOD_CLOEXEC \<equiv> 0x10000"
abbreviation (input) IOD_SHADOW :: u32 where "IOD_SHADOW \<equiv> 0x4000000"
abbreviation (input) IOD_TRANSFER :: u32 where "IOD_TRANSFER \<equiv> 0x8000000"
abbreviation (input) IOD_PRIVATE_MASK :: u32 where "IOD_PRIVATE_MASK \<equiv> 0xFC00201F"
abbreviation (input) CF_WRITE_BLOCKED :: u32 where "CF_WRITE_BLOCKED \<equiv> 1"
abbreviation (input) CF_NOTIFY :: u32 where "CF_NOTIFY \<equiv> 2"
abbreviation (input) MAX_FD :: nat where "MAX_FD \<equiv> 65535"
abbreviation (input) IO_CONFIRM_READ :: u32 where "IO_CONFIRM_READ \<equiv> 1"
abbreviation (input) IO_CONFIRM_WRITE :: u32 where "IO_CONFIRM_WRITE \<equiv> 2"
abbreviation (input) IO_CONFIRM_CLOSE :: u32 where "IO_CONFIRM_CLOSE \<equiv> 4"

definition has_flag :: "u32 \<Rightarrow> u32 \<Rightarrow> bool" where "has_flag flags m \<longleftrightarrow> flags AND m \<noteq> 0"

record io_file =
  fhandles :: "nat list"
  fflags :: u32

record client =
  chandles :: "nat list"
  blocker :: l4_tid
  cflags :: u32
  fd_table :: "nat list"

record fd =
  fd_file :: nat
  fd_owner :: u16
  fd_flags :: u32
  orig_fd :: nat
  file_ix :: nat
  client_ix :: nat

datatype io_action = Io_Confirm bool u16 int nat int | Late_Close nat

record 's io =
  client_hash :: "u16 \<rightharpoonup> client"
  io_files :: "nat \<rightharpoonup> io_file"
  fds :: "nat \<rightharpoonup> fd"
  transfer_hash :: "(nat \<times> int) list"
  next_file :: nat
  res_oracle :: "bool list"
  ring :: lc_ring
  listening :: bool
  lc_filter :: "u16 list"
  fast_confirm_flags :: u32
  pokes :: nat
  my_tid :: l4_tid
  rb :: "io_action rbctx option"
  impl :: 's

datatype lifecycle_tag = CLIENT_FORK u16 | CLIENT_EXIT | CLIENT_EXEC

record 's io_callbacks =
  cb_read :: "nat \<Rightarrow> u32 \<Rightarrow> int \<Rightarrow> 's \<Rightarrow> int \<times> u8 list \<times> 's"
  cb_write :: "nat \<Rightarrow> u8 list \<Rightarrow> u32 \<Rightarrow> int \<Rightarrow> 's \<Rightarrow> int \<times> 's"
  cb_close :: "nat \<Rightarrow> 's \<Rightarrow> int \<times> 's"
  cb_lifecycle :: "u16 \<Rightarrow> lifecycle_tag \<Rightarrow> 's \<Rightarrow> 's"
  cb_confirm :: "(nat \<Rightarrow> nat \<Rightarrow> int \<Rightarrow> bool \<Rightarrow> 's \<Rightarrow> 's) option"
  cb_add_blocker :: "(nat \<Rightarrow> l4_tid \<Rightarrow> bool \<Rightarrow> 's \<Rightarrow> int \<times> 's) option"
  freed_pid :: "u16 \<Rightarrow> u16"

type_synonym allocator = "(nat \<Rightarrow> bool) \<Rightarrow> nat option"

datatype io_reply = Reply int "u8 list" | No_Reply

definition res_ok :: "'s io \<Rightarrow> bool \<times> 's io" where
  "res_ok s = (case res_oracle s of [] \<Rightarrow> (True, s) | b # bs \<Rightarrow> (b, s\<lparr>res_oracle := bs\<rparr>))"

definition upd_client :: "u16 \<Rightarrow> (client \<Rightarrow> client) \<Rightarrow> 's io \<Rightarrow> 's io" where
  "upd_client p g s = s\<lparr>client_hash := (client_hash s)(p := map_option g (client_hash s p))\<rparr>"

definition upd_file :: "nat \<Rightarrow> (io_file \<Rightarrow> io_file) \<Rightarrow> 's io \<Rightarrow> 's io" where
  "upd_file n g s = s\<lparr>io_files := (io_files s)(n := map_option g (io_files s n))\<rparr>"

definition upd_fd :: "nat \<Rightarrow> (fd \<Rightarrow> fd) \<Rightarrow> 's io \<Rightarrow> 's io" where
  "upd_fd i g s = s\<lparr>fds := (fds s)(i := map_option g (fds s i))\<rparr>"

definition sender_pid :: "'s io \<Rightarrow> l4_tid \<Rightarrow> u16" where
  "sender_pid s sender = ucast (pidof_NP (my_tid s) sender)"

section \<open>Destroying handles\<close>

text \<open>Removing a handle from its owner's array and re-indexing the handle that took its place.\<close>

definition detach_client :: "'s io \<Rightarrow> fd \<Rightarrow> 's io option" where
  "detach_client s f =
     (case client_hash s (fd_owner f) of None \<Rightarrow> None
      | Some c \<Rightarrow> (case darray_remove_fast (chandles c) (client_ix f) of None \<Rightarrow> None
          | Some hs \<Rightarrow>
              let s = upd_client (fd_owner f) (\<lambda>c. c\<lparr>chandles := hs\<rparr>) s
              in Some (if client_ix f < length hs
                       then upd_fd (hs ! client_ix f) (\<lambda>g. g\<lparr>client_ix := client_ix f\<rparr>) s else s)))"

definition detach_file :: "'s io \<Rightarrow> fd \<Rightarrow> 's io option" where
  "detach_file s f =
     (case io_files s (fd_file f) of None \<Rightarrow> None
      | Some p \<Rightarrow> (case darray_remove_fast (fhandles p) (file_ix f) of None \<Rightarrow> None
          | Some hs \<Rightarrow>
              let s = upd_file (fd_file f) (\<lambda>p. p\<lparr>fhandles := hs\<rparr>) s
              in Some (if file_ix f < length hs
                       then upd_fd (hs ! file_ix f) (\<lambda>g. g\<lparr>file_ix := file_ix f\<rparr>) s else s)))"

definition file_dtor :: "'s io \<Rightarrow> nat \<Rightarrow> 's io option" where
  "file_dtor s n = (case io_files s n of None \<Rightarrow> None
     | Some p \<Rightarrow> if fhandles p = [] then Some (s\<lparr>io_files := (io_files s)(n := None)\<rparr>) else None)"

definition at_index :: "'a list \<Rightarrow> nat \<Rightarrow> 'a \<Rightarrow> bool" where
  "at_index xs k x \<longleftrightarrow> k < length xs \<and> xs ! k = x"

definition fd_dtor :: "'s io_callbacks \<Rightarrow> 's io \<Rightarrow> nat \<Rightarrow> bool \<Rightarrow> (int \<times> 's io) option" where
  "fd_dtor cb s i destroy_file =
     (case fds s i of None \<Rightarrow> None
      | Some f \<Rightarrow>
      (case (client_hash s (fd_owner f), io_files s (fd_file f)) of (Some c, Some p) \<Rightarrow>
         if \<not> at_index (chandles c) (client_ix f) i then None
         else case detach_client s f of None \<Rightarrow> None
         | Some s \<Rightarrow>
         if \<not> at_index (fhandles p) (file_ix f) i then None
         else case detach_file s f of None \<Rightarrow> None
         | Some s \<Rightarrow>
         (case (if map_option fhandles (io_files s (fd_file f)) = Some [] \<and> destroy_file
                then (let (n, t) = cb_close cb (fd_file f) (impl s)
                      in map_option (\<lambda>s. (n, s)) (file_dtor (s\<lparr>impl := t\<rparr>) (fd_file f)))
                else Some (0, s)) of None \<Rightarrow> None
          | Some (n, s) \<Rightarrow>
              let s = (if has_flag (fd_flags f) IOD_TRANSFER
                       then s\<lparr>transfer_hash := filter (\<lambda>t. fst t \<noteq> i) (transfer_hash s)\<rparr> else s)
              in Some (n, s\<lparr>fds := (fds s)(i := None)\<rparr>))
       | _ \<Rightarrow> None))"

text \<open>
  \<open>client_dtor\<close>: the handles go one by one, always the first of the array.  The counter is the
  array's length; each round removes one handle.
\<close>

fun client_dtor_loop :: "'s io_callbacks \<Rightarrow> 's io \<Rightarrow> u16 \<Rightarrow> nat \<Rightarrow> 's io option" where
  "client_dtor_loop cb s p n =
     (case client_hash s p of None \<Rightarrow> None
      | Some c \<Rightarrow> (case chandles c of [] \<Rightarrow> Some s
          | h # _ \<Rightarrow> (case n of 0 \<Rightarrow> None
              | Suc n \<Rightarrow> (case fd_dtor cb s h True of None \<Rightarrow> None
                  | Some (_, s) \<Rightarrow> client_dtor_loop cb s p n))))"

definition client_dtor :: "'s io_callbacks \<Rightarrow> 's io \<Rightarrow> u16 \<Rightarrow> 's io option" where
  "client_dtor cb s p =
     (case client_hash s p of None \<Rightarrow> None
      | Some c \<Rightarrow> map_option (\<lambda>s. s\<lparr>client_hash := (client_hash s)(p := None)\<rparr>)
          (client_dtor_loop cb s p (length (chandles c))))"

definition late_close_fd :: "'s io_callbacks \<Rightarrow> 's io \<Rightarrow> nat \<Rightarrow> 's io option" where
  "late_close_fd cb s i =
     (case fds s i of None \<Rightarrow> None
      | Some f \<Rightarrow>
          (case client_hash s (fd_owner f) of None \<Rightarrow> None
           | Some c \<Rightarrow>
               if has_flag (fd_flags f) IOD_SHADOW
               then (if orig_fd f < length (fd_table c) \<and> fd_table c ! orig_fd f > 0
                     then map_option snd (fd_dtor cb
                       (upd_client (fd_owner f) (\<lambda>c. c\<lparr>fd_table := (fd_table c)[orig_fd f := 0]\<rparr>) s) i True)
                     else None)
               else map_option snd (fd_dtor cb s i True)))"

section \<open>Fork, exec and exit\<close>

text \<open>
  \<open>alloc_fd\<close> skips indexes for which the client has an indirection entry; skipped indexes stay
  in use until the end.  The counter bounds the indexes there are.
\<close>

fun alloc_fd_loop :: "allocator \<Rightarrow> (nat \<Rightarrow> bool) \<Rightarrow> nat list \<Rightarrow> nat \<Rightarrow> nat option option" where
  "alloc_fd_loop ra used tbl 0 = None"
| "alloc_fd_loop ra used tbl (Suc n) =
     (case ra used of None \<Rightarrow> Some None
      | Some desc \<Rightarrow>
          if desc < length tbl \<and> tbl ! desc > 0 then alloc_fd_loop ra (used(desc := True)) tbl n
          else Some (Some desc))"

definition alloc_fd :: "allocator \<Rightarrow> 's io \<Rightarrow> client \<Rightarrow> nat option option" where
  "alloc_fd ra s c = alloc_fd_loop ra (\<lambda>i. fds s i \<noteq> None) (fd_table c) 65536"

text \<open>Linking a filled-in handle into its owner's and its file's arrays.\<close>

definition link_fd :: "'s io \<Rightarrow> nat \<Rightarrow> fd \<Rightarrow> 's io option" where
  "link_fd s i f =
     (case (client_hash s (fd_owner f), io_files s (fd_file f)) of (Some c, Some p) \<Rightarrow>
        Some (upd_file (fd_file f) (\<lambda>p. p\<lparr>fhandles := fhandles p @ [i]\<rparr>)
         (upd_client (fd_owner f) (\<lambda>c. c\<lparr>chandles := chandles c @ [i]\<rparr>)
          (s\<lparr>fds := (fds s)(i \<mapsto> f\<lparr>client_ix := length (chandles c), file_ix := length (fhandles p)\<rparr>)\<rparr>)))
      | _ \<Rightarrow> None)"

definition fork_handle :: "allocator \<Rightarrow> 's io \<Rightarrow> nat \<Rightarrow> u16 \<Rightarrow> (int \<times> 's io) option" where
  "fork_handle ra s i child =
     (case (fds s i, client_hash s child) of (Some f, Some c) \<Rightarrow>
        (case alloc_fd ra s c of None \<Rightarrow> None
         | Some None \<Rightarrow> Some (- ENOMEM, s)
         | Some (Some n) \<Rightarrow>
             map_option (\<lambda>s. (int n, s)) (link_fd s n (f\<lparr>orig_fd := i, fd_owner := child,
               fd_flags := (fd_flags f AND NOT IOD_TRANSFER) OR IOD_SHADOW\<rparr>)))
      | _ \<Rightarrow> None)"

text \<open>The common body of the two loops of \<open>fork_client\<close>.\<close>

definition fork_one :: "allocator \<Rightarrow> u16 \<Rightarrow> 's io \<Rightarrow> nat \<Rightarrow> 's io option" where
  "fork_one ra child s i =
     (case fork_handle ra s i child of None \<Rightarrow> None
      | Some (n, s) \<Rightarrow>
          if n < 0 then None
          else (case client_hash s child of None \<Rightarrow> None
            | Some c \<Rightarrow> if i < length (fd_table c) \<and> fd_table c ! i = 0
                then Some (upd_client child (\<lambda>c. c\<lparr>fd_table := (fd_table c)[i := nat n]\<rparr>) s) else None))"

fun fork_handles :: "allocator \<Rightarrow> u16 \<Rightarrow> 's io \<Rightarrow> nat list \<Rightarrow> 's io option" where
  "fork_handles ra child s [] = Some s"
| "fork_handles ra child s (i # is) =
     (case fds s i of None \<Rightarrow> None
      | Some f \<Rightarrow>
          if has_flag (fd_flags f) IOD_SHADOW then fork_handles ra child s is
          else (case fork_one ra child s i of None \<Rightarrow> None | Some s \<Rightarrow> fork_handles ra child s is))"

fun fork_shadows :: "allocator \<Rightarrow> u16 \<Rightarrow> nat list \<Rightarrow> 's io \<Rightarrow> nat list \<Rightarrow> 's io option" where
  "fork_shadows ra child ptbl s [] = Some s"
| "fork_shadows ra child ptbl s (i # is) =
     (if ptbl ! i = 0 then fork_shadows ra child ptbl s is
      else case fds s i of None \<Rightarrow> fork_shadows ra child ptbl s is
      | Some f \<Rightarrow>
          if has_flag (fd_flags f) IOD_SHADOW then None
          else (case fork_one ra child s i of None \<Rightarrow> None | Some s \<Rightarrow> fork_shadows ra child ptbl s is))"

definition not_shadow :: "'s io \<Rightarrow> nat \<Rightarrow> bool" where
  "not_shadow s i \<longleftrightarrow> (case fds s i of None \<Rightarrow> False | Some f \<Rightarrow> \<not> has_flag (fd_flags f) IOD_SHADOW)"

definition max_fd_1 :: "'s io \<Rightarrow> client \<Rightarrow> nat" where
  "max_fd_1 s c =
     fold max (map Suc (filter (not_shadow s) (chandles c))
       @ map Suc (filter (\<lambda>i. fd_table c ! i > 0) [0..<length (fd_table c)])) 0"

definition new_client :: "nat \<Rightarrow> client" where
  "new_client len = \<lparr>chandles = [], blocker = nil_tid, cflags = 0, fd_table = replicate len 0\<rparr>"

definition fork_client :: "allocator \<Rightarrow> 's io \<Rightarrow> u16 \<Rightarrow> u16 \<Rightarrow> (int \<times> 's io) option" where
  "fork_client ra s parent child =
     (case client_hash s child of Some _ \<Rightarrow> Some (- EEXIST, s)
      | None \<Rightarrow>
      (case client_hash s parent of None \<Rightarrow> None
       | Some p \<Rightarrow>
         let len = max_fd_1 s p; (ok, s) = res_ok s in
         if \<not> ok then None
         else let (ok, s) = res_ok s in
         if \<not> ok then Some (- ENOMEM, s)
         else (case fork_handles ra child (s\<lparr>client_hash := (client_hash s)(child \<mapsto> new_client len)\<rparr>) (chandles p) of
             None \<Rightarrow> None
           | Some s \<Rightarrow>
         (case fork_shadows ra child (fd_table p) s [0..<min len (length (fd_table p))] of
             None \<Rightarrow> None
           | Some s \<Rightarrow>
               if map_option (length \<circ> chandles) (client_hash s child) = Some (length (chandles p))
               then Some (0, s) else None))))"

text \<open>The exec loop: index \<open>k\<close> advances over kept handles; a closed handle's slot is revisited.\<close>

fun exec_loop :: "'s io_callbacks \<Rightarrow> 's io \<Rightarrow> u16 \<Rightarrow> nat \<Rightarrow> nat \<Rightarrow> 's io option" where
  "exec_loop cb s p k n =
     (case client_hash s p of None \<Rightarrow> None
      | Some c \<Rightarrow>
          if k \<ge> length (chandles c) then Some s
          else (case n of 0 \<Rightarrow> None
            | Suc n \<Rightarrow>
              (case fds s (chandles c ! k) of None \<Rightarrow> None
               | Some f \<Rightarrow>
                   if has_flag (fd_flags f) IOD_CLOEXEC
                   then (case late_close_fd cb s (chandles c ! k) of None \<Rightarrow> None
                     | Some s \<Rightarrow> exec_loop cb s p k n)
                   else exec_loop cb s p (Suc k) n)))"

declare client_dtor_loop.simps [simp del] exec_loop.simps [simp del]

text \<open>
  The exit branch reads the process ID out of the client's record after it has been freed;
  \<open>freed_pid\<close> is what the memory shows there, which the allocator decides.
\<close>

definition lifecycle_event :: "'s io_callbacks \<Rightarrow> allocator \<Rightarrow> 's io \<Rightarrow> lc_event \<Rightarrow> 's io option" where
  "lifecycle_event cb ra s ev =
     (let p = primary ev in
      case client_hash s p of None \<Rightarrow> Some s
      | Some c \<Rightarrow>
          (case lc_tag ev of
             MPL_FORK child \<Rightarrow>
               map_option (\<lambda>(_, s). s\<lparr>impl := cb_lifecycle cb p (CLIENT_FORK child) (impl s)\<rparr>) (fork_client ra s p child)
           | MPL_EXEC \<Rightarrow>
               map_option (\<lambda>s. s\<lparr>impl := cb_lifecycle cb p CLIENT_EXEC (impl s)\<rparr>)
                 (exec_loop cb s p 0 (length (chandles c)))
           | MPL_EXIT _ _ _ \<Rightarrow>
               map_option (\<lambda>s. s\<lparr>impl := cb_lifecycle cb (freed_pid cb p) CLIENT_EXIT (impl s), lc_filter := remove1 p (lc_filter s)\<rparr>)
                 (client_dtor cb s p)
           | MPL_other _ \<Rightarrow> Some s))"

fun lifecycle_events :: "'s io_callbacks \<Rightarrow> allocator \<Rightarrow> 's io \<Rightarrow> lc_event list \<Rightarrow> 's io option" where
  "lifecycle_events cb ra s [] = Some s"
| "lifecycle_events cb ra s (e # es) =
     (case lifecycle_event cb ra s e of None \<Rightarrow> None | Some s \<Rightarrow> lifecycle_events cb ra s es)"

definition lifecycle_sync :: "'s io_callbacks \<Rightarrow> allocator \<Rightarrow> 's io \<Rightarrow> 's io option" where
  "lifecycle_sync cb ra s =
     (case lc_load (lce_ctrl (ring s)) of None \<Rightarrow> None
      | Some (first, cnt) \<Rightarrow>
          if cnt = 0 then Some s
          else (case lifecycle_events cb ra s (lc_events (ring s) first cnt) of None \<Rightarrow> None
            | Some s \<Rightarrow> map_option (\<lambda>r. s\<lparr>ring := r\<rparr>) (lc_commit (ring s) first cnt)))"

end
