(* ===== verification/Io_Ops.thy ===== *)
theory Io_Ops
  imports Io_Core
begin

text \<open>
  The operations of \<^verbatim>\<open>sys/io/io.c\<close> on top of \<open>Io_Core\<close>: client and handle lookup, the
  implementor's interface (\<open>iof_new\<close>, \<open>io_add_fd\<close>, \<dots>) and the \<^verbatim>\<open>Sneks::IO\<close> calls.  A call takes
  the sender and tag of the message.
\<close>

section \<open>Lookup\<close>

text \<open>
  The first client with an ordinary PID makes the server subscribe to lifecycle messages; the
  subscription's failure aborts.
\<close>

definition io_get_client :: "'s io_callbacks \<Rightarrow> allocator \<Rightarrow> 's io \<Rightarrow> u16 \<Rightarrow> bool \<Rightarrow> (bool \<times> 's io) option" where
  "io_get_client cb ra s pid create =
     (case lifecycle_sync cb ra s of None \<Rightarrow> None
      | Some s \<Rightarrow>
          if client_hash s pid \<noteq> None then Some (True, s)
          else if \<not> create then Some (False, s)
          else let (ok, s) = res_ok s in
          if \<not> ok then None
          else let (ok, s) = res_ok s;
                   s = (if ok then s\<lparr>client_hash := (client_hash s)(pid \<mapsto> new_client 0)\<rparr> else s)
          in if unat pid \<le> 32767
             then (let (lok, s) = (if listening s then (True, s) else res_ok (s\<lparr>listening := True\<rparr>))
                   in if lok then Some (ok, s\<lparr>lc_filter := lc_filter s @ [pid]\<rparr>) else None)
             else Some (ok, s))"

definition get_fd_nosync :: "'s io \<Rightarrow> u16 \<Rightarrow> int \<Rightarrow> nat option option" where
  "get_fd_nosync s pid fd =
     (if fd \<le> 0 \<or> fd > int MAX_FD then None
      else let i = nat fd in
      case (case fds s i of None \<Rightarrow> None | Some f \<Rightarrow> if fd_owner f = pid then Some f else None) of
        Some f \<Rightarrow> Some (if has_flag (fd_flags f) IOD_SHADOW then None else Some i)
      | None \<Rightarrow>
          (case client_hash s pid of None \<Rightarrow> None
           | Some c \<Rightarrow>
               if i < length (fd_table c) \<and> fd_table c ! i > 0
               then (case fds s (fd_table c ! i) of None \<Rightarrow> None
                     | Some f \<Rightarrow> if has_flag (fd_flags f) IOD_SHADOW then Some (Some (fd_table c ! i)) else None)
               else Some None))"

definition get_fd :: "'s io_callbacks \<Rightarrow> allocator \<Rightarrow> 's io \<Rightarrow> u16 \<Rightarrow> int \<Rightarrow> (nat option \<times> 's io) option" where
  "get_fd cb ra s pid fd =
     (case lifecycle_sync cb ra s of None \<Rightarrow> None
      | Some s \<Rightarrow> map_option (\<lambda>r. (r, s)) (get_fd_nosync s pid fd))"

section \<open>The implementor's interface\<close>

definition iof_new :: "'s io \<Rightarrow> u32 \<Rightarrow> nat option \<times> 's io" where
  "iof_new s flags =
     (if flags AND NOT IOF_NONBLOCK \<noteq> 0 then (None, s)
      else let (ok, s) = res_ok s in
      if \<not> ok then (None, s)
      else (Some (next_file s), s\<lparr>io_files := (io_files s)(next_file s \<mapsto> \<lparr>fhandles = [], fflags = 0\<rparr>),
              next_file := Suc (next_file s)\<rparr>))"

fun iof_undo_loop :: "'s io_callbacks \<Rightarrow> 's io \<Rightarrow> nat \<Rightarrow> nat \<Rightarrow> 's io option" where
  "iof_undo_loop cb s file n =
     (case io_files s file of None \<Rightarrow> None
      | Some p \<Rightarrow> (case fhandles p of [] \<Rightarrow> Some s
          | h # _ \<Rightarrow> (case n of 0 \<Rightarrow> None
              | Suc n \<Rightarrow> (case fd_dtor cb s h False of None \<Rightarrow> None
                  | Some (_, s) \<Rightarrow> iof_undo_loop cb s file n))))"

declare iof_undo_loop.simps [simp del]

definition iof_undo_new :: "'s io_callbacks \<Rightarrow> 's io \<Rightarrow> nat option \<Rightarrow> 's io option" where
  "iof_undo_new cb s iof =
     (case iof of None \<Rightarrow> Some s
      | Some file \<Rightarrow>
          (case io_files s file of None \<Rightarrow> None
           | Some p \<Rightarrow> (case iof_undo_loop cb s file (length (fhandles p)) of None \<Rightarrow> None
               | Some s \<Rightarrow> file_dtor s file)))"

definition io_add_fd ::
  "'s io_callbacks \<Rightarrow> allocator \<Rightarrow> 's io \<Rightarrow> u16 \<Rightarrow> nat \<Rightarrow> u32 \<Rightarrow> (int \<times> 's io) option" where
  "io_add_fd cb ra s pid file flags =
     (if flags AND NOT IOD_CLOEXEC \<noteq> 0 then Some (- EINVAL, s)
      else case io_get_client cb ra s pid True of None \<Rightarrow> None
      | Some (False, s) \<Rightarrow> Some (- ENOMEM, s)
      | Some (True, s) \<Rightarrow>
          (case (client_hash s pid, io_files s file) of (Some c, Some p) \<Rightarrow>
             if length (chandles c) = MAX_FD then Some (- EMFILE, s)
             else if length (fhandles p) = MAX_FD then Some (- ENFILE, s)
             else (case alloc_fd ra s c of None \<Rightarrow> None
               | Some None \<Rightarrow> Some (- ENFILE, s)
               | Some (Some i) \<Rightarrow>
                   map_option (\<lambda>s. (int i, s)) (link_fd s i \<lparr>fd_file = file, fd_owner = pid, fd_flags = flags,
                     orig_fd = 0, file_ix = 0, client_ix = 0\<rparr>))
           | _ \<Rightarrow> None))"

text \<open>The special PID -1 returns an arbitrary handle's file; \<open>first\<close> is the allocator's iteration.\<close>

definition io_get_file ::
  "'s io_callbacks \<Rightarrow> allocator \<Rightarrow> ('s io \<Rightarrow> nat option) \<Rightarrow> 's io \<Rightarrow> u16 option \<Rightarrow> int \<Rightarrow> (nat option \<times> 's io) option" where
  "io_get_file cb ra first s pid fd =
     (case (case pid of Some p \<Rightarrow> get_fd cb ra s p fd | None \<Rightarrow> Some (first s, s)) of None \<Rightarrow> None
      | Some (None, s) \<Rightarrow> Some (None, s)
      | Some (Some i, s) \<Rightarrow> (case fds s i of None \<Rightarrow> None | Some f \<Rightarrow> Some (Some (fd_file f), s)))"

section \<open>Confirmation\<close>

definition io_confirm :: "'s io_callbacks \<Rightarrow> 's io \<Rightarrow> bool \<Rightarrow> u16 \<Rightarrow> int \<Rightarrow> nat \<Rightarrow> int \<Rightarrow> 's io option" where
  "io_confirm cb s writing pid fd cnt offset =
     (case cb_confirm cb of None \<Rightarrow> None
      | Some conf \<Rightarrow>
          (case get_fd_nosync s pid fd of
             Some (Some i) \<Rightarrow>
               (case fds s i of None \<Rightarrow> None
                | Some f \<Rightarrow> Some (s\<lparr>impl := conf (fd_file f) cnt offset writing (impl s)\<rparr>))
           | _ \<Rightarrow> None))"

definition run_action :: "'s io_callbacks \<Rightarrow> io_action \<Rightarrow> 's io \<Rightarrow> 's io option" where
  "run_action cb a s =
     (case a of Io_Confirm writing pid fd cnt offset \<Rightarrow> io_confirm cb s writing pid fd cnt offset
      | Late_Close i \<Rightarrow> late_close_fd cb s i)"

definition io_sync :: "'s io_callbacks \<Rightarrow> 's io \<Rightarrow> 's io option" where
  "io_sync cb s = map_option (\<lambda>(ctx, s). s\<lparr>rb := ctx\<rparr>) (sync_confirm (run_action cb) (rb s, s))"

definition wr_confirm :: "'s io_callbacks \<Rightarrow> 's io \<Rightarrow> l4_tid \<Rightarrow> u32 \<Rightarrow> bool \<Rightarrow> int \<Rightarrow> nat \<Rightarrow> int \<Rightarrow> 's io" where
  "wr_confirm cb s sender tag writing fd cnt offset =
     (case cb_confirm cb of None \<Rightarrow> s
      | Some _ \<Rightarrow> s\<lparr>rb := set_confirm (Io_Confirm writing (sender_pid s sender) fd cnt offset) sender tag (rb s)\<rparr>)"

definition io_set_fast_confirm :: "'s io \<Rightarrow> 's io" where
  "io_set_fast_confirm s = s\<lparr>pokes := Suc (pokes s)\<rparr>"

definition nopoll_add_blocker :: "'s io \<Rightarrow> nat \<Rightarrow> l4_tid \<Rightarrow> bool \<Rightarrow> (int \<times> 's io) option" where
  "nopoll_add_blocker s i tid writing =
     (case fds s i of None \<Rightarrow> None
      | Some f \<Rightarrow>
          (case client_hash s (fd_owner f) of None \<Rightarrow> None
           | Some c \<Rightarrow>
               if has_flag (cflags c) CF_NOTIFY then None
               else Some (0, upd_client (fd_owner f) (\<lambda>c. c\<lparr>blocker := tid,
                      cflags := (if writing then cflags c OR CF_WRITE_BLOCKED
                                 else cflags c AND NOT CF_WRITE_BLOCKED)\<rparr>) s)))"

definition add_blocker :: "'s io_callbacks \<Rightarrow> 's io \<Rightarrow> nat \<Rightarrow> l4_tid \<Rightarrow> bool \<Rightarrow> (int \<times> 's io) option" where
  "add_blocker cb s i tid writing =
     (case cb_add_blocker cb of None \<Rightarrow> nopoll_add_blocker s i tid writing
      | Some ab \<Rightarrow> (let (n, t) = ab i tid writing (impl s) in Some (n, s\<lparr>impl := t\<rparr>)))"

section \<open>The calls of \<^verbatim>\<open>Sneks::IO\<close>\<close>

text \<open>The flag arithmetic of the two flag calls: the old set reported and the flags stored.\<close>

definition new_file_flags :: "u32 \<Rightarrow> u32 \<Rightarrow> u32 \<Rightarrow> u32 \<times> u32" where
  "new_file_flags flags or_mask and_mask =
     (let permitted = IOF_NONBLOCK;
          and_mask = and_mask OR NOT permitted; or_mask = or_mask AND permitted;
          old = flags AND IOF_NONBLOCK
      in (old, (old AND and_mask) OR or_mask OR (old AND NOT permitted)))"

definition new_handle_flags :: "u32 \<Rightarrow> u32 \<Rightarrow> u32 \<Rightarrow> u32 \<times> u32" where
  "new_handle_flags flags or_mask and_mask =
     (let permitted = 1;
          and_mask = and_mask OR NOT permitted; or_mask = or_mask AND permitted;
          old = drop_bit 16 (flags AND IOD_CLOEXEC);
          new_set = (old AND and_mask) OR or_mask OR (old AND NOT permitted)
      in (old, (flags AND NOT IOD_CLOEXEC) OR (push_bit 16 new_set AND IOD_CLOEXEC)))"

definition io_impl_set_file_flags ::
  "'s io_callbacks \<Rightarrow> allocator \<Rightarrow> 's io \<Rightarrow> l4_tid \<Rightarrow> int \<Rightarrow> u32 \<Rightarrow> u32 \<Rightarrow> (int \<times> u32 \<times> 's io) option" where
  "io_impl_set_file_flags cb ra s sender fd or_mask and_mask =
     (case io_sync cb s of None \<Rightarrow> None
      | Some s \<Rightarrow>
      (case get_fd cb ra s (sender_pid s sender) fd of None \<Rightarrow> None
       | Some (None, s) \<Rightarrow> Some (- EBADF, 0, s)
       | Some (Some i, s) \<Rightarrow>
           (case fds s i of None \<Rightarrow> None
            | Some f \<Rightarrow> (case io_files s (fd_file f) of None \<Rightarrow> None
               | Some p \<Rightarrow>
                   let (old, fl) = new_file_flags (fflags p) or_mask and_mask
                   in Some (0, old, upd_file (fd_file f) (\<lambda>p. p\<lparr>fflags := fl\<rparr>) s)))))"

definition io_impl_set_handle_flags ::
  "'s io_callbacks \<Rightarrow> allocator \<Rightarrow> 's io \<Rightarrow> l4_tid \<Rightarrow> int \<Rightarrow> u32 \<Rightarrow> u32 \<Rightarrow> (int \<times> u32 \<times> 's io) option" where
  "io_impl_set_handle_flags cb ra s sender fd or_mask and_mask =
     (case io_sync cb s of None \<Rightarrow> None
      | Some s \<Rightarrow>
      (case get_fd cb ra s (sender_pid s sender) fd of None \<Rightarrow> None
       | Some (None, s) \<Rightarrow> Some (- EBADF, 0, s)
       | Some (Some i, s) \<Rightarrow>
           (case fds s i of None \<Rightarrow> None
            | Some f \<Rightarrow>
                let (old, fl) = new_handle_flags (fd_flags f) or_mask and_mask
                in Some (0, old, upd_fd i (\<lambda>f. f\<lparr>fd_flags := fl\<rparr>) s))))"

definition blocked_result :: "(int \<times> 's io) option \<Rightarrow> (io_reply \<times> 's io) option" where
  "blocked_result r = map_option (\<lambda>(n, s). (if n < 0 then Reply n [] else No_Reply, s)) r"

definition io_impl_write ::
  "'s io_callbacks \<Rightarrow> allocator \<Rightarrow> 's io \<Rightarrow> l4_tid \<Rightarrow> u32 \<Rightarrow> int \<Rightarrow> int \<Rightarrow> u8 list \<Rightarrow> u32 \<Rightarrow> (io_reply \<times> 's io) option" where
  "io_impl_write cb ra s sender tag fd offset buf cnt =
     (case io_sync cb s of None \<Rightarrow> None
      | Some s \<Rightarrow>
      (case get_fd cb ra s (sender_pid s sender) fd of None \<Rightarrow> None
       | Some (None, s) \<Rightarrow> Some (Reply (- EBADF) [], s)
       | Some (Some i, s) \<Rightarrow>
           (case fds s i of None \<Rightarrow> None
            | Some f \<Rightarrow> (case io_files s (fd_file f) of None \<Rightarrow> None
               | Some p \<Rightarrow>
                   let (n, t) = cb_write cb (fd_file f) buf (min 0xffff cnt) offset (impl s);
                       s = s\<lparr>impl := t\<rparr>
                   in if n = - EWOULDBLOCK \<and> \<not> has_flag (fflags p) IOF_NONBLOCK
                      then blocked_result (add_blocker cb s i sender True)
                      else let s = (if n > 0 then
                               (let s = wr_confirm cb s sender tag True fd (nat n) offset
                                in if has_flag (fast_confirm_flags s) IO_CONFIRM_WRITE then io_set_fast_confirm s else s)
                             else s)
                      in Some (Reply n [], s)))))"

definition io_impl_read ::
  "'s io_callbacks \<Rightarrow> allocator \<Rightarrow> 's io \<Rightarrow> l4_tid \<Rightarrow> u32 \<Rightarrow> int \<Rightarrow> int \<Rightarrow> int \<Rightarrow> (io_reply \<times> 's io) option" where
  "io_impl_read cb ra s sender tag fd len offset =
     (case io_sync cb s of None \<Rightarrow> None
      | Some s \<Rightarrow>
      (case get_fd cb ra s (sender_pid s sender) fd of None \<Rightarrow> None
       | Some (None, s) \<Rightarrow> Some (Reply (- EBADF) [], s)
       | Some (Some i, s) \<Rightarrow>
           (case fds s i of None \<Rightarrow> None
            | Some f \<Rightarrow> (case io_files s (fd_file f) of None \<Rightarrow> None
               | Some p \<Rightarrow>
                   let (n, buf, t) = cb_read cb (fd_file f) (word_of_int (max 0 len)) offset (impl s);
                       s = s\<lparr>impl := t\<rparr>
                   in if n = - EWOULDBLOCK \<and> \<not> has_flag (fflags p) IOF_NONBLOCK
                      then blocked_result (add_blocker cb s i sender False)
                      else let buf_len = nat (max n 0);
                               s = (if buf_len > 0 then
                                 (let s = wr_confirm cb s sender tag False fd buf_len offset
                                  in if has_flag (fast_confirm_flags s) IO_CONFIRM_READ then io_set_fast_confirm s else s)
                               else s)
                      in Some (Reply (min n 0) (take buf_len buf), s)))))"

definition io_impl_close ::
  "'s io_callbacks \<Rightarrow> allocator \<Rightarrow> 's io \<Rightarrow> l4_tid \<Rightarrow> u32 \<Rightarrow> int \<Rightarrow> (int \<times> 's io) option" where
  "io_impl_close cb ra s sender tag fd =
     (case io_sync cb s of None \<Rightarrow> None
      | Some s \<Rightarrow>
          if fd \<le> 0 then Some (- EBADF, s)
          else (case get_fd cb ra s (sender_pid s sender) fd of None \<Rightarrow> None
            | Some (None, s) \<Rightarrow> Some (- EBADF, s)
            | Some (Some i, s) \<Rightarrow>
                let s = s\<lparr>rb := set_confirm (Late_Close i) sender tag (rb s)\<rparr>
                in Some (0, if has_flag (fast_confirm_flags s) IO_CONFIRM_CLOSE then io_set_fast_confirm s else s)))"

text \<open>
  \<open>internal_dup\<close>: a negative receiver means no transfer; 0x10000 means any system task.  The
  assertion compares the copy's owner with a second, synchronising client lookup.
\<close>

definition dup_handle_flags :: "u32 \<Rightarrow> u32 \<Rightarrow> u32" where
  "dup_handle_flags fl flags =
     (let h_flags = fl AND NOT (IOD_PRIVATE_MASK OR IOD_CLOEXEC)
      in if flags AND 1 \<noteq> 0 then h_flags OR IOD_CLOEXEC else h_flags)"

text \<open>Its last part: record the transfer, mark the copy, set the rollback.\<close>

definition dup_finish ::
  "'s io_callbacks \<Rightarrow> 's io \<Rightarrow> l4_tid \<Rightarrow> u32 \<Rightarrow> int \<Rightarrow> int \<Rightarrow> (int \<times> int \<times> 's io) option" where
  "dup_finish cb s sender tag n receiver_pid =
     (let (ok, s) = (if receiver_pid \<ge> 0 then res_ok s else (True, s)) in
      if \<not> ok then map_option (\<lambda>(_, s). (- ENOMEM, n, s)) (fd_dtor cb s (nat n) False)
      else let s = (if receiver_pid \<ge> 0
             then upd_fd (nat n) (\<lambda>g. g\<lparr>fd_flags := fd_flags g OR IOD_TRANSFER\<rparr>)
               (s\<lparr>transfer_hash := transfer_hash s @ [(nat n, receiver_pid)]\<rparr>) else s)
      in Some (0, n, s\<lparr>rb := set_rollback (Late_Close (nat n)) sender tag (rb s)\<rparr>))"

definition dup_add ::
  "'s io_callbacks \<Rightarrow> allocator \<Rightarrow> 's io \<Rightarrow> l4_tid \<Rightarrow> u32 \<Rightarrow> u16 \<Rightarrow> nat \<Rightarrow> u32 \<Rightarrow> int \<Rightarrow> (int \<times> int \<times> 's io) option" where
  "dup_add cb ra s sender tag pid file h_flags receiver_pid =
     (case io_add_fd cb ra s pid file h_flags of None \<Rightarrow> None
      | Some (n, s) \<Rightarrow>
          if n < 0 then Some (n, 0, s)
          else (case io_get_client cb ra s pid False of None \<Rightarrow> None
            | Some (_, s) \<Rightarrow>
            (case fds s (nat n) of None \<Rightarrow> None
             | Some copy \<Rightarrow>
                 if fd_owner copy \<noteq> pid \<or> client_hash s pid = None then None
                 else dup_finish cb s sender tag n receiver_pid)))"

definition internal_dup ::
  "'s io_callbacks \<Rightarrow> allocator \<Rightarrow> 's io \<Rightarrow> l4_tid \<Rightarrow> u32 \<Rightarrow> int \<Rightarrow> int \<Rightarrow> u32 \<Rightarrow> (int \<times> int \<times> 's io) option" where
  "internal_dup cb ra s sender tag oldfd receiver_pid flags =
     (if flags AND NOT 1 \<noteq> 0 then Some (- EINVAL, 0, s)
      else let pid = sender_pid s sender in
      case get_fd cb ra s pid oldfd of None \<Rightarrow> None
      | Some (None, s) \<Rightarrow> Some (- EBADF, 0, s)
      | Some (Some i, s) \<Rightarrow>
      (case fds s i of None \<Rightarrow> None
       | Some f \<Rightarrow>
         if receiver_pid = 0x10000 \<and> unat pid < 50000 then Some (- EINVAL, 0, s)
         else let (ok, s) = (if receiver_pid \<ge> 0 then res_ok s else (True, s)) in
         if \<not> ok then Some (- ENOMEM, 0, s)
         else dup_add cb ra s sender tag pid (fd_file f) (dup_handle_flags (fd_flags f) flags) receiver_pid))"

definition io_impl_dup ::
  "'s io_callbacks \<Rightarrow> allocator \<Rightarrow> 's io \<Rightarrow> l4_tid \<Rightarrow> u32 \<Rightarrow> int \<Rightarrow> u32 \<Rightarrow> (int \<times> int \<times> 's io) option" where
  "io_impl_dup cb ra s sender tag oldfd flags =
     (case io_sync cb s of None \<Rightarrow> None | Some s \<Rightarrow> internal_dup cb ra s sender tag oldfd (-1) flags)"

definition io_impl_dup_to ::
  "'s io_callbacks \<Rightarrow> allocator \<Rightarrow> 's io \<Rightarrow> l4_tid \<Rightarrow> u32 \<Rightarrow> int \<Rightarrow> int \<Rightarrow> (int \<times> int \<times> 's io) option" where
  "io_impl_dup_to cb ra s sender tag oldfd receiver_pid =
     (case io_sync cb s of None \<Rightarrow> None | Some s \<Rightarrow> internal_dup cb ra s sender tag oldfd receiver_pid 0)"

definition transfer_match :: "nat \<times> int \<Rightarrow> u16 \<Rightarrow> bool" where
  "transfer_match xf pid \<longleftrightarrow> snd xf = uint pid \<or> (snd xf = 0x10000 \<and> unat pid \<ge> 50000)"

text \<open>Its last part: leave the previous owner's array and join the new one's.\<close>

definition touch_move :: "'s io \<Rightarrow> u16 \<Rightarrow> nat \<Rightarrow> fd \<Rightarrow> (int \<times> 's io) option" where
  "touch_move s pid i f =
     (case detach_client s f of None \<Rightarrow> None
      | Some s \<Rightarrow>
          (case client_hash s pid of None \<Rightarrow> None
           | Some c \<Rightarrow>
               Some (0, upd_client pid (\<lambda>c. c\<lparr>chandles := chandles c @ [i]\<rparr>)
                 (upd_fd i (\<lambda>g. g\<lparr>fd_owner := pid, client_ix := length (chandles c),
                    fd_flags := fd_flags g AND NOT IOD_TRANSFER\<rparr>) s))))"

definition io_impl_touch ::
  "'s io_callbacks \<Rightarrow> allocator \<Rightarrow> 's io \<Rightarrow> l4_tid \<Rightarrow> int \<Rightarrow> (int \<times> 's io) option" where
  "io_impl_touch cb ra s sender newfd =
     (case io_sync cb s of None \<Rightarrow> None
      | Some s \<Rightarrow>
      let pid = sender_pid s sender in
      case io_get_client cb ra s pid True of None \<Rightarrow> None
      | Some (False, s) \<Rightarrow> Some (- ENOMEM, s)
      | Some (True, s) \<Rightarrow>
      (case find (\<lambda>xf. int (fst xf) = newfd \<and> transfer_match xf pid) (transfer_hash s) of
         None \<Rightarrow> Some (- EBADF, s)
       | Some xf \<Rightarrow>
           let s = s\<lparr>transfer_hash := remove1 xf (transfer_hash s)\<rparr>; i = fst xf in
           (case fds s i of None \<Rightarrow> None
            | Some f \<Rightarrow>
                if \<not> has_flag (fd_flags f) IOD_TRANSFER then Some (- EBADF, s)
                else touch_move s pid i f)))"

definition io_impl_isatty :: "'s io_callbacks \<Rightarrow> allocator \<Rightarrow> 's io \<Rightarrow> l4_tid \<Rightarrow> int \<Rightarrow> (int \<times> 's io) option" where
  "io_impl_isatty cb ra s sender fd =
     (case io_sync cb s of None \<Rightarrow> None
      | Some s \<Rightarrow>
          (case get_fd cb ra s (sender_pid s sender) fd of None \<Rightarrow> None
           | Some (None, s) \<Rightarrow> Some (- EBADF, s)
           | Some (Some _, s) \<Rightarrow> Some (0, s)))"

text \<open>The initial state of \<open>io_run\<close>; index 0 of the range allocator is disabled there.\<close>

definition io_init :: "l4_tid \<Rightarrow> lc_event list \<Rightarrow> 's \<Rightarrow> 's io" where
  "io_init tid q impl0 = \<lparr>client_hash = Map.empty, io_files = Map.empty, fds = Map.empty, transfer_hash = [],
     next_file = 0, res_oracle = [], ring = lc_init q, listening = False, lc_filter = [],
     fast_confirm_flags = 0, pokes = 0, my_tid = tid, rb = None, impl = impl0\<rparr>"

text \<open>
  One return of the dispatcher in the loop of \<open>io_run\<close>; \<open>Inr rc\<close> leaves the loop.  Whether a status
  requested self-tests is an argument.
\<close>

definition io_run_step ::
  "(u32 \<Rightarrow> bool) \<Rightarrow> (u32 \<Rightarrow> bool) \<Rightarrow> 's io_callbacks \<Rightarrow> allocator \<Rightarrow> 's io \<Rightarrow> l4_tid \<Rightarrow> u32 \<Rightarrow> u32 \<Rightarrow> u32
     \<Rightarrow> ('s io + u32) option" where
  "io_run_step is_l4_error selftest cb ra s sender tag label status =
     (case (if status \<noteq> 0 then check_rollback is_l4_error (run_action cb) status sender tag (rb s, s)
            else Some (False, rb s, s)) of None \<Rightarrow> None
      | Some (yep, ctx, s) \<Rightarrow>
          let s = s\<lparr>rb := ctx\<rparr> in
          if yep then Some (Inl s)
          else if status \<noteq> 0 \<and> \<not> is_l4_error status \<and> selftest status then Some (Inl s)
          else if is_local sender \<and> label = 0xbaab then
            (case io_sync cb s of None \<Rightarrow> None
             | Some s \<Rightarrow> map_option Inl (lifecycle_sync cb ra s))
          else if is_local sender \<and> label AND 0xff00 = 0xff00 then Some (Inr (label AND 0xff))
          else Some (Inl s))"

end
