(* ===== verification/Io_Inv.thy ===== *)
theory Io_Inv
  imports Io_Ops
begin

text \<open>
  The invariant of \<^verbatim>\<open>sys/io\<close>, the model of the debug routine \<open>invariants()\<close> of \<^verbatim>\<open>sys/io/io.c\<close>, and
  what the primitives do to it: handle arrays and back-indexes agree for clients and for
  files, indirection entries and shadow handles correspond, and transfers correspond to
  handles marked for transfer.
\<close>

section \<open>The invariant\<close>

definition client_arrays :: "'s io \<Rightarrow> u16 \<rightharpoonup> nat list" where
  "client_arrays s p = map_option chandles (client_hash s p)"

definition client_pos :: "'s io \<Rightarrow> nat \<rightharpoonup> u16 \<times> nat" where
  "client_pos s i = map_option (\<lambda>f. (fd_owner f, client_ix f)) (fds s i)"

definition file_arrays :: "'s io \<Rightarrow> nat \<rightharpoonup> nat list" where
  "file_arrays s n = map_option fhandles (io_files s n)"

definition file_pos :: "'s io \<Rightarrow> nat \<rightharpoonup> nat \<times> nat" where
  "file_pos s i = map_option (\<lambda>f. (fd_file f, file_ix f)) (fds s i)"

text \<open>A handle without its indexes, and a client's indirection table.\<close>

type_synonym fd_data = "nat \<times> u16 \<times> u32 \<times> nat"

definition core_of :: "fd \<Rightarrow> fd_data" where
  "core_of f = (fd_file f, fd_owner f, fd_flags f, orig_fd f)"

definition fd_core :: "'s io \<Rightarrow> nat \<rightharpoonup> fd_data" where
  "fd_core s i = map_option core_of (fds s i)"

definition tables :: "'s io \<Rightarrow> u16 \<rightharpoonup> nat list" where
  "tables s p = map_option fd_table (client_hash s p)"

definition shadow :: "fd_data \<Rightarrow> bool" where
  "shadow d \<longleftrightarrow> (case d of (_, _, fl, _) \<Rightarrow> has_flag fl IOD_SHADOW)"

definition in_transfer :: "fd_data \<Rightarrow> bool" where
  "in_transfer d \<longleftrightarrow> (case d of (_, _, fl, _) \<Rightarrow> has_flag fl IOD_TRANSFER)"

text \<open>The clients in \<open>X\<close> are being destroyed: their tables may point to handles already gone.\<close>

definition table_in :: "u16 set \<Rightarrow> (nat \<rightharpoonup> fd_data) \<Rightarrow> (u16 \<rightharpoonup> nat list) \<Rightarrow> bool" where
  "table_in X C T \<longleftrightarrow> (\<forall>p tbl j. p \<notin> X \<and> T p = Some tbl \<and> j < length tbl \<and> tbl ! j > 0 \<longrightarrow>
     (\<exists>n fl. C (tbl ! j) = Some (n, p, fl, j) \<and> has_flag fl IOD_SHADOW))"

definition table_out :: "(nat \<rightharpoonup> fd_data) \<Rightarrow> (u16 \<rightharpoonup> nat list) \<Rightarrow> bool" where
  "table_out C T \<longleftrightarrow> (\<forall>i n p fl j. C i = Some (n, p, fl, j) \<and> has_flag fl IOD_SHADOW \<longrightarrow>
     \<not> has_flag fl IOD_TRANSFER \<and> (\<exists>tbl. T p = Some tbl \<and> j < length tbl \<and> tbl ! j = i))"

definition xfer_ok :: "(nat \<rightharpoonup> fd_data) \<Rightarrow> (nat \<times> int) list \<Rightarrow> bool" where
  "xfer_ok C th \<longleftrightarrow> distinct (map fst th)
     \<and> (\<forall>i. i \<in> fst ` set th \<longleftrightarrow> (\<exists>d. C i = Some d \<and> in_transfer d))"

definition links_ok :: "'s io \<Rightarrow> bool" where
  "links_ok s \<longleftrightarrow> link_ok (client_arrays s) (client_pos s) \<and> link_ok (file_arrays s) (file_pos s)"

definition io_inv_ex :: "u16 set \<Rightarrow> 's io \<Rightarrow> bool" where
  "io_inv_ex X s \<longleftrightarrow> links_ok s \<and> (\<forall>i. fds s i \<noteq> None \<longrightarrow> 0 < i \<and> i \<le> MAX_FD)
     \<and> table_in X (fd_core s) (tables s) \<and> table_out (fd_core s) (tables s)
     \<and> xfer_ok (fd_core s) (transfer_hash s) \<and> (\<forall>n \<ge> next_file s. io_files s n = None)"

definition io_inv :: "'s io \<Rightarrow> bool" where
  "io_inv s \<longleftrightarrow> io_inv_ex {} s"

text \<open>What the handle operations never touch.\<close>

definition rest :: "'s io \<Rightarrow> nat \<times> bool list \<times> lc_ring \<times> bool \<times> u16 list \<times> u32 \<times> nat \<times> l4_tid \<times> io_action rbctx option" where
  "rest s = (next_file s, res_oracle s, ring s, listening s, lc_filter s, fast_confirm_flags s, pokes s, my_tid s, rb s)"

lemmas view_defs = client_arrays_def client_pos_def file_arrays_def file_pos_def fd_core_def tables_def

lemma view_cong:
  "client_hash s = client_hash t \<Longrightarrow> client_arrays s = client_arrays t"
  "client_hash s = client_hash t \<Longrightarrow> tables s = tables t"
  "io_files s = io_files t \<Longrightarrow> file_arrays s = file_arrays t"
  "fds s = fds t \<Longrightarrow> client_pos s = client_pos t"
  "fds s = fds t \<Longrightarrow> file_pos s = file_pos t"
  "fds s = fds t \<Longrightarrow> fd_core s = fd_core t"
  by (simp_all add: view_defs fun_eq_iff)

section \<open>Detaching\<close>

lemma client_arrays_nth:
  assumes "links_ok s" "fds s i = Some f"
  obtains c where "client_hash s (fd_owner f) = Some c" "client_ix f < length (chandles c)"
    "chandles c ! client_ix f = i"
  using link_okD1 [of "client_arrays s" "client_pos s" i "fd_owner f" "client_ix f"] assms
  by (auto simp: links_ok_def view_defs)

lemma file_arrays_nth:
  assumes "links_ok s" "fds s i = Some f"
  obtains p where "io_files s (fd_file f) = Some p" "file_ix f < length (fhandles p)"
    "fhandles p ! file_ix f = i"
  using link_okD1 [of "file_arrays s" "file_pos s" i "fd_file f" "file_ix f"] assms
  by (auto simp: links_ok_def view_defs)

lemma handle_exists:
  assumes "links_ok s" "client_hash s p = Some c" "k < length (chandles c)"
  obtains f where "fds s (chandles c ! k) = Some f" "fd_owner f = p" "client_ix f = k"
  using link_okD2 [of "client_arrays s" "client_pos s" p "chandles c" k] assms
  by (auto simp: links_ok_def view_defs)

lemma file_handle_exists:
  assumes "links_ok s" "io_files s n = Some p" "k < length (fhandles p)"
  obtains f where "fds s (fhandles p ! k) = Some f" "fd_file f = n" "file_ix f = k"
  using link_okD2 [of "file_arrays s" "file_pos s" n "fhandles p" k] assms
  by (auto simp: links_ok_def view_defs)

text \<open>
  After \<open>detach_client\<close> the owner's array and the indexes are those of \<open>link_remove\<close>, except that
  the detached handle itself still carries its old fields.
\<close>

lemma detach_client_ok:
  assumes ok: "links_ok s" and f: "fds s i = Some f"
  obtains s' c ys where "detach_client s f = Some s'"
    "client_hash s (fd_owner f) = Some c" "darray_remove_fast (chandles c) (client_ix f) = Some ys"
    "client_hash s' = (client_hash s)(fd_owner f \<mapsto> c\<lparr>chandles := ys\<rparr>)"
    "client_pos s' = (if last (chandles c) = i then client_pos s
       else (client_pos s)(last (chandles c) \<mapsto> (fd_owner f, client_ix f)))"
    "file_pos s' = file_pos s" "fd_core s' = fd_core s" "fds s' i = Some f"
    "io_files s' = io_files s" "transfer_hash s' = transfer_hash s" "impl s' = impl s" "rest s' = rest s"
proof -
  obtain c where c: "client_hash s (fd_owner f) = Some c" "client_ix f < length (chandles c)"
    "chandles c ! client_ix f = i" using ok f by (rule client_arrays_nth)
  obtain ys where ys: "darray_remove_fast (chandles c) (client_ix f) = Some ys"
    using remove_fast_Some [OF c(2)] by auto
  note nth = nth_remove_fast [OF ys]
  let ?last = "last (chandles c)" and ?k = "client_ix f"
  have last: "?last = chandles c ! (length (chandles c) - 1)" using c(2) by (intro last_conv_nth) auto
  have dist: "distinct (chandles c)"
    using ok link_distinct [of "client_arrays s" "client_pos s" "fd_owner f"] c(1)
    by (simp add: links_ok_def view_defs)
  have lt: "length (chandles c) - 1 < length (chandles c)" using c(2) by linarith
  have moved: "?k < length ys \<longleftrightarrow> ?last \<noteq> i"
    using nth(1) c(2,3) last lt dist by (metis Suc_pred' c(2) gr_implies_not0 less_antisym nat_neq_iff nth_eq_iff_index_eq zero_less_iff_neq_zero)
  obtain g where g: "fds s ?last = Some g" "fd_owner g = fd_owner f"
    using handle_exists [OF ok c(1) lt] last by metis
  let ?s = "upd_client (fd_owner f) (\<lambda>c. c\<lparr>chandles := ys\<rparr>) s"
  let ?s' = "if ?k < length ys then upd_fd (ys ! ?k) (\<lambda>g. g\<lparr>client_ix := ?k\<rparr>) ?s else ?s"
  have d: "detach_client s f = Some ?s'" using c ys by (simp add: detach_client_def Let_def)
  show thesis
  proof (rule that [OF d c(1) ys])
    show "client_hash ?s' = (client_hash s)(fd_owner f \<mapsto> c\<lparr>chandles := ys\<rparr>)"
      using c(1) by (simp add: upd_client_def upd_fd_def)
    show "client_pos ?s' = (if ?last = i then client_pos s else (client_pos s)(?last \<mapsto> (fd_owner f, ?k)))"
      using moved nth(2) [of ?k] g by (auto simp: client_pos_def upd_client_def upd_fd_def fun_eq_iff)
    show "file_pos ?s' = file_pos s" "fd_core ?s' = fd_core s"
      using moved nth(2) [of ?k] g
      by (auto simp: file_pos_def fd_core_def core_of_def upd_client_def upd_fd_def fun_eq_iff)
    show "fds ?s' i = Some f"
      using moved nth(2) [of ?k] f by (auto simp: upd_client_def upd_fd_def)
  qed (simp_all add: upd_client_def upd_fd_def rest_def)
qed

lemma detach_file_ok:
  assumes ok: "link_ok (file_arrays s) (file_pos s)" and f: "fds s i = Some f"
  obtains s' c ys where "detach_file s f = Some s'"
    "io_files s (fd_file f) = Some c" "darray_remove_fast (fhandles c) (file_ix f) = Some ys"
    "file_ix f < length (fhandles c)" "fhandles c ! file_ix f = i"
    "io_files s' = (io_files s)(fd_file f \<mapsto> c\<lparr>fhandles := ys\<rparr>)"
    "file_pos s' = (if last (fhandles c) = i then file_pos s
       else (file_pos s)(last (fhandles c) \<mapsto> (fd_file f, file_ix f)))"
    "client_pos s' = client_pos s" "fd_core s' = fd_core s" "fds s' i = Some f"
    "client_hash s' = client_hash s" "transfer_hash s' = transfer_hash s" "impl s' = impl s" "rest s' = rest s"
proof -
  obtain c where c: "io_files s (fd_file f) = Some c" "file_ix f < length (fhandles c)"
    "fhandles c ! file_ix f = i"
    using link_okD1 [OF ok, of i "fd_file f" "file_ix f"] f by (auto simp: view_defs)
  obtain ys where ys: "darray_remove_fast (fhandles c) (file_ix f) = Some ys"
    using remove_fast_Some [OF c(2)] by auto
  note nth = nth_remove_fast [OF ys]
  let ?last = "last (fhandles c)" and ?k = "file_ix f"
  have last: "?last = fhandles c ! (length (fhandles c) - 1)" using c(2) by (intro last_conv_nth) auto
  have dist: "distinct (fhandles c)"
    using link_distinct [OF ok, of "fd_file f"] c(1) by (simp add: view_defs)
  have lt: "length (fhandles c) - 1 < length (fhandles c)" using c(2) by linarith
  have moved: "?k < length ys \<longleftrightarrow> ?last \<noteq> i"
    using nth(1) c(2,3) last lt dist by (metis Suc_pred' c(2) gr_implies_not0 less_antisym nat_neq_iff nth_eq_iff_index_eq zero_less_iff_neq_zero)
  obtain g where g: "fds s ?last = Some g" "fd_file g = fd_file f"
    using link_okD2 [OF ok, of "fd_file f" "fhandles c", OF _ lt] last c(1) by (auto simp: view_defs)
  let ?s = "upd_file (fd_file f) (\<lambda>c. c\<lparr>fhandles := ys\<rparr>) s"
  let ?s' = "if ?k < length ys then upd_fd (ys ! ?k) (\<lambda>g. g\<lparr>file_ix := ?k\<rparr>) ?s else ?s"
  have d: "detach_file s f = Some ?s'" using c ys by (simp add: detach_file_def Let_def)
  show thesis
  proof (rule that [OF d c(1) ys c(2,3)])
    show "io_files ?s' = (io_files s)(fd_file f \<mapsto> c\<lparr>fhandles := ys\<rparr>)"
      using c(1) by (simp add: upd_file_def upd_fd_def)
    show "file_pos ?s' = (if ?last = i then file_pos s else (file_pos s)(?last \<mapsto> (fd_file f, ?k)))"
      using moved nth(2) [of ?k] g by (auto simp: file_pos_def upd_file_def upd_fd_def fun_eq_iff)
    show "client_pos ?s' = client_pos s" "fd_core ?s' = fd_core s"
      using moved nth(2) [of ?k] g
      by (auto simp: client_pos_def fd_core_def core_of_def upd_file_def upd_fd_def fun_eq_iff)
    show "fds ?s' i = Some f"
      using moved nth(2) [of ?k] f by (auto simp: upd_file_def upd_fd_def)
  qed (simp_all add: upd_file_def upd_fd_def rest_def)
qed

lemma fun_upd_last_idem:
  "((if l = i then P else P(l \<mapsto> y))(i := None)) = (P(l \<mapsto> y))(i := None)"
  by auto

section \<open>Destroying a handle\<close>

text \<open>
  Under the link invariant \<open>fd_dtor\<close> passes its assertions.  Its effect: the handle, and its
  transfer record if it had one, are gone; the owner's array is one shorter; the file goes
  with its last handle when \<open>destroy_file\<close> is set.
\<close>

definition dtor_effect :: "'s io \<Rightarrow> nat \<Rightarrow> bool \<Rightarrow> fd \<Rightarrow> 's io \<Rightarrow> bool" where
  "dtor_effect s i destroy f s' \<longleftrightarrow> links_ok s' \<and> fd_core s' = (fd_core s)(i := None) \<and> tables s' = tables s
     \<and> transfer_hash s' = (if has_flag (fd_flags f) IOD_TRANSFER
         then filter (\<lambda>t. fst t \<noteq> i) (transfer_hash s) else transfer_hash s)
     \<and> rest s' = rest s
     \<and> client_arrays s' = (client_arrays s)
         (fd_owner f := darray_remove_fast (the (client_arrays s (fd_owner f))) (client_ix f))
     \<and> map_option length \<circ> client_arrays s' = (map_option length \<circ> client_arrays s)
         (fd_owner f \<mapsto> length (the (client_arrays s (fd_owner f))) - 1)
     \<and> (\<forall>n. map_option fflags (io_files s' n) = map_option fflags (io_files s n)
           \<or> (n = fd_file f \<and> destroy \<and> file_arrays s n = Some [i] \<and> io_files s' n = None))
     \<and> (\<not> destroy \<longrightarrow> map_option length \<circ> file_arrays s' = (map_option length \<circ> file_arrays s)
         (fd_file f \<mapsto> length (the (file_arrays s (fd_file f))) - 1))"

lemma fd_dtor_ok:
  assumes ok: "links_ok s" and f: "fds s i = Some f"
  shows "\<exists>n s'. fd_dtor cb s i destroy = Some (n, s') \<and> dtor_effect s i destroy f s'"
proof -
  obtain s1 c ys where s1: "detach_client s f = Some s1"
    "client_hash s (fd_owner f) = Some c" "darray_remove_fast (chandles c) (client_ix f) = Some ys"
    "client_hash s1 = (client_hash s)(fd_owner f \<mapsto> c\<lparr>chandles := ys\<rparr>)"
    "client_pos s1 = (if last (chandles c) = i then client_pos s
       else (client_pos s)(last (chandles c) \<mapsto> (fd_owner f, client_ix f)))"
    "file_pos s1 = file_pos s" "fd_core s1 = fd_core s" "fds s1 i = Some f"
    "io_files s1 = io_files s" "transfer_hash s1 = transfer_hash s" "impl s1 = impl s" "rest s1 = rest s"
    using ok f by (rule detach_client_ok)
  have "link_ok (file_arrays s1) (file_pos s1)"
    using ok s1(6) view_cong(3) [OF s1(9)] by (simp add: links_ok_def)
  then obtain s2 p zs where s2: "detach_file s1 f = Some s2"
    "io_files s1 (fd_file f) = Some p" "darray_remove_fast (fhandles p) (file_ix f) = Some zs"
    "file_ix f < length (fhandles p)" "fhandles p ! file_ix f = i"
    "io_files s2 = (io_files s1)(fd_file f \<mapsto> p\<lparr>fhandles := zs\<rparr>)"
    "file_pos s2 = (if last (fhandles p) = i then file_pos s1
       else (file_pos s1)(last (fhandles p) \<mapsto> (fd_file f, file_ix f)))"
    "client_pos s2 = client_pos s1" "fd_core s2 = fd_core s1" "fds s2 i = Some f"
    "client_hash s2 = client_hash s1" "transfer_hash s2 = transfer_hash s1" "impl s2 = impl s1" "rest s2 = rest s1"
    using s1(8) by (rule detach_file_ok)
  let ?del = "zs = [] \<and> destroy"
  obtain n s3 where s3: "(if map_option fhandles (io_files s2 (fd_file f)) = Some [] \<and> destroy
        then (let (n, t) = cb_close cb (fd_file f) (impl s2)
              in map_option (\<lambda>s. (n, s)) (file_dtor (s2\<lparr>impl := t\<rparr>) (fd_file f)))
        else Some (0, s2)) = Some (n, s3)"
    "client_hash s3 = client_hash s2" "fds s3 = fds s2" "transfer_hash s3 = transfer_hash s2" "rest s3 = rest s2"
    "io_files s3 = (if ?del then (io_files s2)(fd_file f := None) else io_files s2)"
  proof (cases ?del)
    case True
    then show thesis
      using that [of "fst (cb_close cb (fd_file f) (impl s2))"
          "s2\<lparr>impl := snd (cb_close cb (fd_file f) (impl s2)), io_files := (io_files s2)(fd_file f := None)\<rparr>"]
      by (simp add: s2(6) split_beta file_dtor_def rest_def)
  next
    case False
    then show thesis using that [of 0 s2] by (auto simp: s2(6))
  qed
  let ?th = "if has_flag (fd_flags f) IOD_TRANSFER then filter (\<lambda>t. fst t \<noteq> i) (transfer_hash s) else transfer_hash s"
  let ?s' = "s3\<lparr>transfer_hash := ?th, fds := (fds s3)(i := None)\<rparr>"
  have cix: "client_ix f < length (chandles c)" "chandles c ! client_ix f = i"
    using client_arrays_nth [OF ok f] s1(2) by auto
  have res: "fd_dtor cb s i destroy = Some (n, ?s')"
    using f s1(1,2) s2(1-5) s1(9) s3(1,4) s2(12) s1(10) cix
    by (cases s3) (auto simp: fd_dtor_def at_index_def)
  have lc: "link_ok (client_arrays s) (client_pos s)" and lf: "link_ok (file_arrays s) (file_pos s)"
    using ok by (auto simp: links_ok_def)
  have Pi: "client_pos s i = Some (fd_owner f, client_ix f)" "file_pos s i = Some (fd_file f, file_ix f)"
    using f by (simp_all add: view_defs)
  have ca: "client_arrays ?s' = (client_arrays s)(fd_owner f \<mapsto> ys)"
    using s1(4) s2(11) s3(2) by (auto simp: client_arrays_def fun_eq_iff)
  have "client_pos ?s' = ((client_pos s)(last (chandles c) \<mapsto> (fd_owner f, client_ix f)))(i := None)"
  proof -
    have "client_pos ?s' = (client_pos s2)(i := None)" using s3(3) by (auto simp: client_pos_def fun_eq_iff)
    then show ?thesis using s1(5) s2(8) fun_upd_last_idem [of _ i "client_pos s"] by simp
  qed
  then have L1: "link_ok (client_arrays ?s') (client_pos ?s')"
    using link_remove [OF lc Pi(1) _ s1(3)] s1(2) unfolding ca by (simp add: client_arrays_def)
  have ca': "client_arrays ?s' = (client_arrays s)
      (fd_owner f := darray_remove_fast (the (client_arrays s (fd_owner f))) (client_ix f))"
    unfolding ca using s1(2,3) by (simp add: client_arrays_def)
  have fa2: "file_arrays s2 = (file_arrays s)(fd_file f \<mapsto> zs)"
    using s2(6) s1(9) by (auto simp: file_arrays_def fun_eq_iff)
  have "file_pos ?s' = ((file_pos s)(last (fhandles p) \<mapsto> (fd_file f, file_ix f)))(i := None)"
  proof -
    have "file_pos ?s' = (file_pos s2)(i := None)" using s3(3) by (auto simp: file_pos_def fun_eq_iff)
    then show ?thesis using s1(6) s2(7) fun_upd_last_idem [of _ i "file_pos s"] by simp
  qed
  then have L2: "link_ok (file_arrays s2) (file_pos ?s')"
    using link_remove [OF lf Pi(2) _ s2(3)] s2(2) s1(9) by (simp add: fa2 file_arrays_def)
  have L3: "link_ok (file_arrays ?s') (file_pos ?s')"
  proof (cases ?del)
    case True
    have "file_arrays ?s' = (file_arrays s2)(fd_file f := None)"
      using True s3(6) by (auto simp: file_arrays_def fun_eq_iff)
    with link_del_holder [OF L2, of "fd_file f"] True fa2 show ?thesis by simp
  next
    case False
    have "io_files ?s' = io_files s2" using False s3(6) by auto
    then have "file_arrays ?s' = file_arrays s2" by (rule view_cong)
    with L2 show ?thesis by simp
  qed
  have "fd_core ?s' = (fd_core s2)(i := None)" using s3(3) by (auto simp: fd_core_def fun_eq_iff)
  then have core: "fd_core ?s' = (fd_core s)(i := None)" using s1(7) s2(9) by simp
  have tab: "tables ?s' = tables s" using s1(2,4) s2(11) s3(2) by (auto simp: tables_def fun_eq_iff)
  have rst: "rest ?s' = rest s" using s3(5) s2(14) s1(12) by (simp add: rest_def)
  have len: "map_option length \<circ> client_arrays ?s' = (map_option length \<circ> client_arrays s)
      (fd_owner f \<mapsto> length (the (client_arrays s (fd_owner f))) - 1)"
    using s1(2,4) s2(11) s3(2) nth_remove_fast(1) [OF s1(3)] by (auto simp: client_arrays_def fun_eq_iff)
  have flen: "length zs = length (fhandles p) - 1" using nth_remove_fast(1) [OF s2(3)] .
  have "fhandles p = [i]" if "zs = []"
    using flen that s2(4,5) by (cases "fhandles p") auto
  then have fl: "map_option fflags (io_files ?s' n) = map_option fflags (io_files s n)
      \<or> (n = fd_file f \<and> destroy \<and> file_arrays s n = Some [i] \<and> io_files ?s' n = None)" for n
    using s3(6) s2(2,6) s1(9) by (auto simp: file_arrays_def)
  have "\<not> destroy \<Longrightarrow> map_option length \<circ> file_arrays ?s' = (map_option length \<circ> file_arrays s)
      (fd_file f \<mapsto> length (the (file_arrays s (fd_file f))) - 1)"
    using s3(6) s2(2,6) s1(9) flen by (auto simp: file_arrays_def fun_eq_iff)
  with res L1 L3 core tab rst ca' len fl show ?thesis
    unfolding dtor_effect_def links_ok_def by (intro exI [of _ n] exI [of _ ?s']) simp
qed

lemma fd_core_None [simp]: "fd_core s i = None \<longleftrightarrow> fds s i = None"
  by (simp add: fd_core_def)

lemma fd_core_Some: "fds s i = Some f \<Longrightarrow> fd_core s i = Some (fd_file f, fd_owner f, fd_flags f, orig_fd f)"
  by (simp add: fd_core_def core_of_def)

lemma dtor_xfer:
  assumes "xfer_ok (fd_core s) (transfer_hash s)" "fds s i = Some f" "dtor_effect s i d f s'"
  shows "xfer_ok (fd_core s') (transfer_hash s')"
proof (cases "has_flag (fd_flags f) IOD_TRANSFER")
  case True
  have "distinct (map fst (filter (\<lambda>t. fst t \<noteq> i) (transfer_hash s)))"
    using assms(1) by (simp add: xfer_ok_def distinct_map_filter)
  moreover have "j \<in> fst ` set (filter (\<lambda>t. fst t \<noteq> i) (transfer_hash s)) \<longleftrightarrow> j \<noteq> i \<and> j \<in> fst ` set (transfer_hash s)" for j
    by auto
  ultimately show ?thesis
    using assms True unfolding xfer_ok_def dtor_effect_def by auto
next
  case False
  then have "\<not> in_transfer (core_of f)" by (simp add: in_transfer_def core_of_def)
  then have "i \<notin> fst ` set (transfer_hash s)"
    using assms(1,2) by (auto simp: xfer_ok_def fd_core_def)
  then show ?thesis
    using assms False unfolding xfer_ok_def dtor_effect_def by auto
qed

lemma dtor_misc:
  assumes "dtor_effect s i d f s'" "io_inv_ex X s"
  shows "\<forall>j. fds s' j \<noteq> None \<longrightarrow> 0 < j \<and> j \<le> MAX_FD" "\<forall>n \<ge> next_file s'. io_files s' n = None"
proof -
  have "fds s' j \<noteq> None \<Longrightarrow> fds s j \<noteq> None" for j
    using assms(1) unfolding dtor_effect_def by (metis fd_core_None fun_upd_apply)
  then show "\<forall>j. fds s' j \<noteq> None \<longrightarrow> 0 < j \<and> j \<le> MAX_FD" using assms(2) by (auto simp: io_inv_ex_def)
  have "next_file s' = next_file s" using assms(1) by (simp add: dtor_effect_def rest_def)
  moreover have "io_files s n = None \<Longrightarrow> io_files s' n = None" for n
    using assms(1) unfolding dtor_effect_def by (metis option.map_disc_iff)
  ultimately show "\<forall>n \<ge> next_file s'. io_files s' n = None" using assms(2) by (simp add: io_inv_ex_def)
qed

text \<open>Destroying a handle to which no live client's table points keeps the invariant.\<close>

lemma dtor_inv:
  assumes inv: "io_inv_ex X s" and f: "fds s i = Some f" and e: "dtor_effect s i d f s'"
    and no: "\<And>p tbl j. p \<notin> X \<Longrightarrow> tables s p = Some tbl \<Longrightarrow> j < length tbl \<Longrightarrow> tbl ! j \<noteq> i"
  shows "io_inv_ex X s'"
proof -
  have C: "fd_core s' = (fd_core s)(i := None)" and T: "tables s' = tables s" and L: "links_ok s'"
    using e by (auto simp: dtor_effect_def)
  have ti: "table_in X (fd_core s) (tables s)" and to: "table_out (fd_core s) (tables s)"
    and x: "xfer_ok (fd_core s) (transfer_hash s)"
    using inv by (auto simp: io_inv_ex_def)
  have "table_in X (fd_core s') (tables s')"
    unfolding table_in_def C T
  proof (intro allI impI)
    fix p tbl j assume a: "p \<notin> X \<and> tables s p = Some tbl \<and> j < length tbl \<and> 0 < tbl ! j"
    then have "tbl ! j \<noteq> i" using no by blast
    with a ti show "\<exists>n fl. ((fd_core s)(i := None)) (tbl ! j) = Some (n, p, fl, j) \<and> has_flag fl IOD_SHADOW"
      unfolding table_in_def by simp
  qed
  moreover have "table_out (fd_core s') (tables s')"
    using to unfolding table_out_def C T by (auto split: if_splits)
  ultimately show ?thesis
    using L dtor_xfer [OF x f e] dtor_misc [OF e inv] by (simp add: io_inv_ex_def)
qed

lemma core_owner_unshadowed:
  assumes "io_inv_ex X s" "fds s i = Some f" "fd_owner f \<in> X \<or> \<not> has_flag (fd_flags f) IOD_SHADOW"
    "p \<notin> X" "tables s p = Some tbl" "j < length tbl"
  shows "tbl ! j \<noteq> i"
proof
  assume "tbl ! j = i"
  moreover have "0 < i" using assms(1,2) by (auto simp: io_inv_ex_def)
  ultimately obtain n fl where "fd_core s i = Some (n, p, fl, j)" "has_flag fl IOD_SHADOW"
    using assms(1,4-6) unfolding io_inv_ex_def table_in_def by metis
  then show False using fd_core_Some [OF assms(2)] assms(3,4) by auto
qed

text \<open>\<open>late_close_fd\<close> succeeds on every existing handle, shadow or not.\<close>

definition close_effect :: "'s io \<Rightarrow> nat \<Rightarrow> fd \<Rightarrow> 's io \<Rightarrow> bool" where
  "close_effect s i f s' \<longleftrightarrow> io_inv s' \<and> fd_core s' = (fd_core s)(i := None) \<and> rest s' = rest s
     \<and> dom (client_hash s') = dom (client_hash s)
     \<and> tables s' = (if has_flag (fd_flags f) IOD_SHADOW
         then (tables s)(fd_owner f := map_option (\<lambda>t. t[orig_fd f := 0]) (tables s (fd_owner f))) else tables s)
     \<and> client_arrays s' = (client_arrays s)
         (fd_owner f := darray_remove_fast (the (client_arrays s (fd_owner f))) (client_ix f))"

lemma dom_client_arrays: "dom (client_hash s) = dom (map_option length \<circ> client_arrays s)"
  by (auto simp: client_arrays_def dom_def)

lemma dtor_dom:
  assumes "dtor_effect s i d f s'" "client_hash s (fd_owner f) \<noteq> None"
  shows "dom (client_hash s') = dom (client_hash s)"
    "length (the (client_arrays s' (fd_owner f))) = length (the (client_arrays s (fd_owner f))) - 1"
proof -
  have m: "map_option length \<circ> client_arrays s' = (map_option length \<circ> client_arrays s)
         (fd_owner f \<mapsto> length (the (client_arrays s (fd_owner f))) - 1)"
    using assms(1) unfolding dtor_effect_def by blast
  show "dom (client_hash s') = dom (client_hash s)"
    using assms(2) unfolding dom_client_arrays m by (auto simp: client_arrays_def)
  from fun_cong [OF m, of "fd_owner f"]
  show "length (the (client_arrays s' (fd_owner f))) = length (the (client_arrays s (fd_owner f))) - 1"
    by (auto simp: map_option_case split: option.splits)
qed

lemma late_close_plain:
  assumes inv: "io_inv s" and f: "fds s i = Some f" "\<not> has_flag (fd_flags f) IOD_SHADOW"
  shows "\<exists>s'. late_close_fd cb s i = Some s' \<and> close_effect s i f s'"
proof -
  have L: "links_ok s" using inv by (simp add: io_inv_def io_inv_ex_def)
  obtain c where c: "client_hash s (fd_owner f) = Some c" using client_arrays_nth [OF L f(1)] by metis
  obtain n s' where s': "fd_dtor cb s i True = Some (n, s')" "dtor_effect s i True f s'"
    using fd_dtor_ok [OF L f(1)] by blast
  have "io_inv s'"
    unfolding io_inv_def
    by (rule dtor_inv [OF inv [unfolded io_inv_def] f(1) s'(2)])
      (rule core_owner_unshadowed [OF inv [unfolded io_inv_def] f(1)], use f(2) in auto)
  with s' c f dtor_dom [OF s'(2)] show ?thesis
    by (auto simp: late_close_fd_def close_effect_def dtor_effect_def)
qed

lemma late_close_shadow:
  assumes inv: "io_inv s" and f: "fds s i = Some f" "has_flag (fd_flags f) IOD_SHADOW"
  shows "\<exists>s'. late_close_fd cb s i = Some s' \<and> close_effect s i f s'"
proof -
  have L: "links_ok s" and ti: "table_in {} (fd_core s) (tables s)" and to: "table_out (fd_core s) (tables s)"
    and x: "xfer_ok (fd_core s) (transfer_hash s)" and i0: "0 < i"
    using inv f(1) by (auto simp: io_inv_def io_inv_ex_def)
  obtain c where c: "client_hash s (fd_owner f) = Some c" using client_arrays_nth [OF L f(1)] by metis
  have e: "orig_fd f < length (fd_table c)" "fd_table c ! orig_fd f = i"
    using to fd_core_Some [OF f(1)] f(2) c unfolding table_out_def tables_def by fastforce+
  let ?s = "upd_client (fd_owner f) (\<lambda>c. c\<lparr>fd_table := (fd_table c)[orig_fd f := 0]\<rparr>) s"
  have v: "client_arrays ?s = client_arrays s" "client_pos ?s = client_pos s" "file_arrays ?s = file_arrays s"
    "file_pos ?s = file_pos s" "fd_core ?s = fd_core s" "transfer_hash ?s = transfer_hash s" "rest ?s = rest s"
    "tables ?s = (tables s)(fd_owner f \<mapsto> (fd_table c)[orig_fd f := 0])" "dom (client_hash ?s) = dom (client_hash s)"
    "io_files ?s = io_files s" "fds ?s = fds s"
    using c by (auto simp: view_defs upd_client_def fun_eq_iff rest_def)
  obtain n s' where s': "fd_dtor cb ?s i True = Some (n, s')" "dtor_effect ?s i True f s'"
    using fd_dtor_ok [of ?s i f cb True] L f(1) v(1-4,11) by (auto simp: links_ok_def)
  have C: "fd_core s' = (fd_core s)(i := None)" and T: "tables s' = (tables s)(fd_owner f \<mapsto> (fd_table c)[orig_fd f := 0])"
    and L': "links_ok s'" using s'(2) v by (auto simp: dtor_effect_def)
  have Tc: "tables s (fd_owner f) = Some (fd_table c)" using c by (simp add: tables_def)
  have "table_in {} (fd_core s') (tables s')"
    unfolding table_in_def C T
  proof (intro allI impI)
    fix p tbl j assume a: "p \<notin> {} \<and> ((tables s)(fd_owner f \<mapsto> (fd_table c)[orig_fd f := 0])) p = Some tbl
      \<and> j < length tbl \<and> 0 < tbl ! j"
    then obtain tbl0 where t0: "tables s p = Some tbl0" "j < length tbl0" "tbl ! j = tbl0 ! j" "\<not> (p = fd_owner f \<and> j = orig_fd f)"
      using Tc e(1) by (auto simp: nth_list_update split: if_splits)
    then obtain m fl where m: "fd_core s (tbl ! j) = Some (m, p, fl, j)" "has_flag fl IOD_SHADOW"
      using ti [unfolded table_in_def, rule_format, of p tbl0 j] a by auto
    then have "tbl ! j \<noteq> i" using t0(4) fd_core_Some [OF f(1)] by auto
    with m show "\<exists>n fl. ((fd_core s)(i := None)) (tbl ! j) = Some (n, p, fl, j) \<and> has_flag fl IOD_SHADOW"
      by simp
  qed
  moreover have "table_out (fd_core s') (tables s')"
    unfolding table_out_def C T
  proof (intro allI impI)
    fix k m p fl j assume a: "((fd_core s)(i := None)) k = Some (m, p, fl, j) \<and> has_flag fl IOD_SHADOW"
    then have k: "k \<noteq> i" "fd_core s k = Some (m, p, fl, j)" by (auto split: if_splits)
    with a to obtain tbl where t: "\<not> has_flag fl IOD_TRANSFER" "tables s p = Some tbl" "j < length tbl" "tbl ! j = k"
      unfolding table_out_def by blast
    have "\<not> (p = fd_owner f \<and> j = orig_fd f)" using t Tc e k(1) by auto
    with t Tc show "\<not> has_flag fl IOD_TRANSFER \<and>
      (\<exists>tbl. ((tables s)(fd_owner f \<mapsto> (fd_table c)[orig_fd f := 0])) p = Some tbl \<and> j < length tbl \<and> tbl ! j = k)"
      by (auto simp: nth_list_update)
  qed
  moreover have "xfer_ok (fd_core s') (transfer_hash s')"
    using dtor_xfer [of ?s i f True s'] x f(1) s'(2) v by simp
  moreover have "\<forall>j. fds s' j \<noteq> None \<longrightarrow> 0 < j \<and> j \<le> MAX_FD"
    using inv C unfolding io_inv_def io_inv_ex_def by (metis fd_core_None fun_upd_apply)
  moreover have "\<forall>n \<ge> next_file s'. io_files s' n = None"
  proof -
    have "next_file s' = next_file s" using s'(2) v(7) by (simp add: dtor_effect_def rest_def)
    moreover have "io_files s n = None \<Longrightarrow> io_files s' n = None" for n
      using s'(2) v(10) unfolding dtor_effect_def by (metis option.map_disc_iff)
    ultimately show ?thesis using inv by (simp add: io_inv_def io_inv_ex_def)
  qed
  ultimately have "io_inv s'" using L' by (simp add: io_inv_def io_inv_ex_def)
  moreover have "late_close_fd cb s i = Some s'"
    using s'(1) c f e i0 by (simp add: late_close_fd_def)
  moreover have "client_hash ?s (fd_owner f) \<noteq> None" using c by (simp add: upd_client_def)
  note dtor_dom [OF s'(2) this]
  moreover have "rest s' = rest s" "client_arrays s' = (client_arrays s)
      (fd_owner f := darray_remove_fast (the (client_arrays s (fd_owner f))) (client_ix f))"
    using s'(2) v(1,7) by (simp_all add: dtor_effect_def)
  ultimately show ?thesis using C T Tc f(2) v(1,9) by (simp add: close_effect_def)
qed

lemma late_close_ok:
  assumes "io_inv s" "fds s i = Some f"
  shows "\<exists>s'. late_close_fd cb s i = Some s' \<and> close_effect s i f s'"
  using late_close_plain [OF assms] late_close_shadow [OF assms] by blast

end
