(* ===== verification/Io_Lifecycle.thy ===== *)
theory Io_Lifecycle
  imports Io_Inv
begin

text \<open>
  Exit, exec and fork of a client in \<^verbatim>\<open>sys/io\<close>.  Exit and exec succeed under the invariant and
  remove exactly the handles they should; a fork gives the child a handle on the same file
  under each of the parent's descriptor numbers.
\<close>

section \<open>Exit\<close>

definition owner_of :: "fd_data \<Rightarrow> u16" where "owner_of d = fst (snd d)"
definition flags_of :: "fd_data \<Rightarrow> u32" where "flags_of d = fst (snd (snd d))"

text \<open>The handles left when those satisfying \<open>Q\<close> are dropped.\<close>

definition drop_fds :: "(fd_data \<Rightarrow> bool) \<Rightarrow> (nat \<rightharpoonup> fd_data) \<Rightarrow> nat \<rightharpoonup> fd_data" where
  "drop_fds Q C i = (case C i of None \<Rightarrow> None | Some d \<Rightarrow> if Q d then None else Some d)"

lemma drop_fds_upd: "C i = Some d \<Longrightarrow> Q d \<Longrightarrow> drop_fds Q (C(i := None)) = drop_fds Q C"
  by (auto simp: drop_fds_def fun_eq_iff)

lemma drop_fds_id: "(\<And>i d. C i = Some d \<Longrightarrow> \<not> Q d) \<Longrightarrow> drop_fds Q C = C"
  by (auto simp: drop_fds_def fun_eq_iff split: option.splits)

lemma client_dtor_loop_ok:
  assumes "io_inv_ex {p} s" "client_hash s p = Some c" "length (chandles c) \<le> n"
  shows "\<exists>s' c'. client_dtor_loop cb s p n = Some s' \<and> io_inv_ex {p} s' \<and> client_hash s' p = Some c'
     \<and> chandles c' = [] \<and> fd_core s' = drop_fds (\<lambda>d. owner_of d = p) (fd_core s)
     \<and> tables s' = tables s \<and> rest s' = rest s \<and> dom (client_hash s') = dom (client_hash s)"
  using assms
proof (induction n arbitrary: s c)
  case 0
  have L: "link_ok (client_arrays s) (client_pos s)" using "0.prems"(1) by (auto simp: io_inv_ex_def links_ok_def)
  have "owner_of d \<noteq> p" if "fd_core s i = Some d" for i d
    using that link_mem [OF L, of p "[]" i] "0.prems" by (auto simp: view_defs owner_of_def core_of_def)
  then show ?case using "0.prems" by (auto simp: client_dtor_loop.simps [of _ s] drop_fds_id)
next
  case (Suc n)
  show ?case
  proof (cases "chandles c")
    case Nil
    have L: "link_ok (client_arrays s) (client_pos s)" using Suc.prems(1) by (auto simp: io_inv_ex_def links_ok_def)
    have "owner_of d \<noteq> p" if "fd_core s i = Some d" for i d
      using that link_mem [OF L, of p "[]" i] Suc.prems Nil by (auto simp: view_defs owner_of_def core_of_def)
    then show ?thesis using Suc.prems Nil by (auto simp: client_dtor_loop.simps [of _ s] drop_fds_id)
  next
    case (Cons h hs)
    have L: "links_ok s" using Suc.prems(1) by (simp add: io_inv_ex_def)
    obtain f where f: "fds s h = Some f" "fd_owner f = p"
      using handle_exists [OF L Suc.prems(2), of 0] Cons by auto
    obtain m t where t: "fd_dtor cb s h True = Some (m, t)" "dtor_effect s h True f t"
      using fd_dtor_ok [OF L f(1)] by blast
    have inv: "io_inv_ex {p} t"
      by (rule dtor_inv [OF Suc.prems(1) f(1) t(2)])
        (rule core_owner_unshadowed [OF Suc.prems(1) f(1)], use f(2) in auto)
    note d = dtor_dom [OF t(2)]
    obtain c' where c': "client_hash t p = Some c'" using d f(2) Suc.prems(2) by auto
    have "length (chandles c') \<le> n"
      using d(2) f(2) Suc.prems(2,3) c' by (simp add: client_arrays_def)
    from Suc.IH [OF inv c' this] obtain s' c'' where s': "client_dtor_loop cb t p n = Some s'"
      "io_inv_ex {p} s'" "client_hash s' p = Some c''" "chandles c'' = []"
      "fd_core s' = drop_fds (\<lambda>d. owner_of d = p) (fd_core t)" "tables s' = tables t" "rest s' = rest t"
      "dom (client_hash s') = dom (client_hash t)" by blast
    have "drop_fds (\<lambda>d. owner_of d = p) (fd_core t) = drop_fds (\<lambda>d. owner_of d = p) (fd_core s)"
      using t(2) drop_fds_upd [of "fd_core s" h] fd_core_Some [OF f(1)] f(2)
      by (simp add: dtor_effect_def owner_of_def)
    moreover have "client_dtor_loop cb s p (Suc n) = Some s'"
      using Suc.prems(2) Cons t(1) s'(1) by (simp add: client_dtor_loop.simps [of _ s])
    moreover have "tables t = tables s" "rest t = rest s" using t(2) by (auto simp: dtor_effect_def)
    ultimately show ?thesis using s' d(1) f(2) Suc.prems(2) by auto
  qed
qed

lemma client_dtor_ok:
  assumes inv: "io_inv s" and c: "client_hash s p = Some c"
  shows "\<exists>s'. client_dtor cb s p = Some s' \<and> io_inv s' \<and> fd_core s' = drop_fds (\<lambda>d. owner_of d = p) (fd_core s)
     \<and> tables s' = (tables s)(p := None) \<and> rest s' = rest s \<and> dom (client_hash s') = dom (client_hash s) - {p}"
proof -
  have "io_inv_ex {p} s" using inv by (auto simp: io_inv_def io_inv_ex_def table_in_def)
  from client_dtor_loop_ok [OF this c order_refl] obtain t c' where
    t: "client_dtor_loop cb s p (length (chandles c)) = Some t" "io_inv_ex {p} t"
    "client_hash t p = Some c'" "chandles c' = []"
    "fd_core t = drop_fds (\<lambda>d. owner_of d = p) (fd_core s)" "tables t = tables s" "rest t = rest s"
    "dom (client_hash t) = dom (client_hash s)" by blast
  let ?s = "t\<lparr>client_hash := (client_hash t)(p := None)\<rparr>"
  have v: "client_arrays ?s = (client_arrays t)(p := None)" "client_pos ?s = client_pos t" "file_arrays ?s = file_arrays t"
    "file_pos ?s = file_pos t" "fd_core ?s = fd_core t" "tables ?s = (tables t)(p := None)" "rest ?s = rest t"
    by (auto simp: view_defs fun_eq_iff rest_def)
  have "links_ok ?s"
    using t(2-4) link_del_holder [of "client_arrays t" "client_pos t" p]
    by (auto simp: links_ok_def io_inv_ex_def v client_arrays_def)
  moreover have "table_in {} (fd_core ?s) (tables ?s)"
    using t(2) unfolding io_inv_ex_def table_in_def v by auto
  moreover have "table_out (fd_core ?s) (tables ?s)"
  proof -
    have "q \<noteq> p" if "fd_core t i = Some (m, q, fl, j)" for i m q fl j
      using that unfolding t(5) by (auto simp: drop_fds_def owner_of_def split: option.splits if_splits)
    then show ?thesis using t(2) unfolding io_inv_ex_def table_out_def v by fastforce
  qed
  ultimately have "io_inv ?s" using t(2) by (simp add: io_inv_def io_inv_ex_def v)
  then show ?thesis using t c v by (auto simp: client_dtor_def)
qed

section \<open>Exec\<close>

definition cloexec_of :: "u16 \<Rightarrow> fd_data \<Rightarrow> bool" where
  "cloexec_of p d \<longleftrightarrow> owner_of d = p \<and> has_flag (flags_of d) IOD_CLOEXEC"

lemma exec_done:
  assumes "links_ok s" "client_hash s p = Some c"
    "\<And>j d. j < length (chandles c) \<Longrightarrow> fd_core s (chandles c ! j) = Some d \<Longrightarrow> \<not> has_flag (flags_of d) IOD_CLOEXEC"
  shows "drop_fds (cloexec_of p) (fd_core s) = fd_core s"
proof (rule drop_fds_id)
  fix i d assume d: "fd_core s i = Some d"
  then obtain f where f: "fds s i = Some f" "d = core_of f" by (auto simp: fd_core_def)
  show "\<not> cloexec_of p d"
  proof (cases "owner_of d = p")
    case True
    then have o: "fd_owner f = p" using f by (simp add: owner_of_def core_of_def)
    obtain c' where "client_hash s (fd_owner f) = Some c'" "client_ix f < length (chandles c')" "chandles c' ! client_ix f = i"
      using assms(1) f(1) by (rule client_arrays_nth)
    then show ?thesis using assms(2) assms(3) [of "client_ix f" d] d o by (simp add: cloexec_of_def)
  qed (simp add: cloexec_of_def)
qed

lemma exec_loop_ok:
  assumes "io_inv s" "client_hash s p = Some c" "length (chandles c) - k \<le> n"
    "\<And>j d. j < k \<Longrightarrow> j < length (chandles c) \<Longrightarrow> fd_core s (chandles c ! j) = Some d \<Longrightarrow> \<not> has_flag (flags_of d) IOD_CLOEXEC"
  shows "\<exists>s'. exec_loop cb s p k n = Some s' \<and> io_inv s' \<and> fd_core s' = drop_fds (cloexec_of p) (fd_core s)
     \<and> rest s' = rest s \<and> dom (client_hash s') = dom (client_hash s)"
  using assms
proof (induction n arbitrary: s c k)
  case 0
  have "links_ok s" using "0.prems"(1) by (simp add: io_inv_def io_inv_ex_def)
  from exec_done [OF this "0.prems"(2)] "0.prems" show ?case by (auto simp: exec_loop.simps [of _ s])
next
  case (Suc n)
  have L: "links_ok s" using Suc.prems(1) by (simp add: io_inv_def io_inv_ex_def)
  show ?case
  proof (cases "k < length (chandles c)")
    case False
    from exec_done [OF L Suc.prems(2)] Suc.prems False show ?thesis by (auto simp: exec_loop.simps [of _ s])
  next
    case True
    let ?h = "chandles c ! k"
    obtain f where f: "fds s ?h = Some f" "fd_owner f = p" "client_ix f = k"
      using handle_exists [OF L Suc.prems(2) True] by blast
    have core: "fd_core s ?h = Some (fd_file f, p, fd_flags f, orig_fd f)" using fd_core_Some [OF f(1)] f(2) by simp
    show ?thesis
    proof (cases "has_flag (fd_flags f) IOD_CLOEXEC")
      case False
      have "\<not> has_flag (flags_of d) IOD_CLOEXEC" if "j < Suc k" "j < length (chandles c)" "fd_core s (chandles c ! j) = Some d" for j d
      proof (cases "j = k")
        case True
        then show ?thesis using that core False by (auto simp: flags_of_def)
      next
        case False
        then show ?thesis using that Suc.prems(4) [of j d] by simp
      qed
      with Suc.IH [OF Suc.prems(1,2), of "Suc k"] Suc.prems(2,3) True f(1) False
      show ?thesis by (auto simp: exec_loop.simps [of _ s])
    next
      case cl: True
      obtain t where t: "late_close_fd cb s ?h = Some t" "close_effect s ?h f t"
        using late_close_ok [OF Suc.prems(1) f(1)] by blast
      obtain ys where ys: "darray_remove_fast (chandles c) k = Some ys" using remove_fast_Some [OF True] by auto
      obtain c' where c': "client_hash t p = Some c'" "chandles c' = ys"
        using t(2) ys Suc.prems(2) f(2,3) by (fastforce simp: close_effect_def client_arrays_def fun_eq_iff split: if_splits)
      note nth = nth_remove_fast [OF ys]
      have C: "fd_core t = (fd_core s)(?h := None)" using t(2) by (simp add: close_effect_def)
      have "\<not> has_flag (flags_of d) IOD_CLOEXEC" if "j < k" "j < length ys" "fd_core t (ys ! j) = Some d" for j d
        using that nth Suc.prems(4) [of j d] by (auto simp: C split: if_splits)
      moreover have "length ys - k \<le> n" using nth(1) Suc.prems(3) by simp
      ultimately obtain s' where s': "exec_loop cb t p k n = Some s'" "io_inv s'"
        "fd_core s' = drop_fds (cloexec_of p) (fd_core t)" "rest s' = rest t" "dom (client_hash s') = dom (client_hash t)"
        using Suc.IH [of t c' k] c' t(2) by (auto simp: close_effect_def)
      have "drop_fds (cloexec_of p) (fd_core t) = drop_fds (cloexec_of p) (fd_core s)"
        unfolding C using drop_fds_upd [of "fd_core s" ?h, OF core]
        by (simp add: cloexec_of_def owner_of_def flags_of_def cl)
      with s' t f(1) Suc.prems(2) True cl show ?thesis
        by (auto simp: exec_loop.simps [of _ s] close_effect_def)
    qed
  qed
qed

section \<open>Allocating and linking a handle\<close>

text \<open>
  What the range allocator promises: an index between 1 and \<open>MAX_FD\<close> that is not in use, or none
  when all are.
\<close>

definition ra_ok :: "allocator \<Rightarrow> bool" where
  "ra_ok ra \<longleftrightarrow> (\<forall>used. case ra used of None \<Rightarrow> \<forall>i. 0 < i \<and> i \<le> MAX_FD \<longrightarrow> used i
     | Some i \<Rightarrow> 0 < i \<and> i \<le> MAX_FD \<and> \<not> used i)"

definition indirect :: "nat list \<Rightarrow> nat \<Rightarrow> bool" where
  "indirect tbl i \<longleftrightarrow> i < length tbl \<and> tbl ! i > 0"

definition unused :: "(nat \<Rightarrow> bool) \<Rightarrow> nat set" where
  "unused used = {i. 0 < i \<and> i \<le> MAX_FD \<and> \<not> used i}"

lemma finite_unused [simp]: "finite (unused used)"
  by (rule finite_subset [of _ "{0..MAX_FD}"]) (auto simp: unused_def)

lemma alloc_fd_loop_ok:
  assumes "ra_ok ra" "card (unused used) < n"
  shows "\<exists>r. alloc_fd_loop ra used tbl n = Some r
     \<and> (case r of None \<Rightarrow> unused used \<subseteq> Collect (indirect tbl) | Some i \<Rightarrow> i \<in> unused used \<and> \<not> indirect tbl i)"
  using assms(2)
proof (induction n arbitrary: used)
  case 0
  then show ?case by simp
next
  case (Suc n)
  have ra: "case ra used of None \<Rightarrow> unused used = {} | Some i \<Rightarrow> i \<in> unused used"
    using assms(1) [unfolded ra_ok_def, THEN spec [of _ used]] by (cases "ra used") (auto simp: unused_def)
  show ?case
  proof (cases "ra used")
    case None
    with ra show ?thesis by auto
  next
    case (Some d)
    with ra have d: "d \<in> unused used" by simp
    show ?thesis
    proof (cases "indirect tbl d")
      case False
      with Some d show ?thesis by (auto simp: indirect_def)
    next
      case True
      have u: "unused (used(d := True)) = unused used - {d}" by (auto simp: unused_def)
      have "card (unused (used(d := True))) < n"
        using Suc.prems card_Diff1_less [OF finite_unused d] unfolding u by linarith
      from Suc.IH [OF this] obtain r where r: "alloc_fd_loop ra (used(d := True)) tbl n = Some r"
        "case r of None \<Rightarrow> unused (used(d := True)) \<subseteq> Collect (indirect tbl)
           | Some i \<Rightarrow> i \<in> unused (used(d := True)) \<and> \<not> indirect tbl i" by blast
      have "alloc_fd_loop ra used tbl (Suc n) = Some r" using Some True r(1) by (simp add: indirect_def)
      moreover have "case r of None \<Rightarrow> unused used \<subseteq> Collect (indirect tbl) | Some i \<Rightarrow> i \<in> unused used \<and> \<not> indirect tbl i"
        using r(2) True by (auto simp: u split: option.splits)
      ultimately show ?thesis by blast
    qed
  qed
qed

text \<open>The counter of \<open>alloc_fd\<close> is enough: there are fewer indexes than rounds.\<close>

definition free_ids :: "'s io \<Rightarrow> nat set" where
  "free_ids s = unused (\<lambda>i. fds s i \<noteq> None)"

lemma alloc_fd_ok:
  assumes "ra_ok ra"
  shows "\<exists>r. alloc_fd ra s c = Some r \<and> (case r of
      None \<Rightarrow> free_ids s \<subseteq> Collect (indirect (fd_table c))
    | Some i \<Rightarrow> i \<in> free_ids s \<and> \<not> indirect (fd_table c) i)"
proof -
  have "card (unused used) \<le> card {1..MAX_FD}" for used
    by (rule card_mono) (auto simp: unused_def)
  then have "card (unused (\<lambda>i. fds s i \<noteq> None)) < 65536" using le_less_trans by fastforce
  from alloc_fd_loop_ok [OF assms this, of "fd_table c"] show ?thesis
    unfolding alloc_fd_def free_ids_def .
qed

definition link_effect :: "'s io \<Rightarrow> nat \<Rightarrow> fd \<Rightarrow> 's io \<Rightarrow> bool" where
  "link_effect s i f s' \<longleftrightarrow> links_ok s' \<and> fd_core s' = (fd_core s)(i \<mapsto> core_of f) \<and> tables s' = tables s
     \<and> transfer_hash s' = transfer_hash s \<and> rest s' = rest s \<and> impl s' = impl s
     \<and> client_arrays s' = (client_arrays s)(fd_owner f \<mapsto> the (client_arrays s (fd_owner f)) @ [i])
     \<and> (\<forall>n. map_option fflags (io_files s' n) = map_option fflags (io_files s n))"

lemma link_fd_ok:
  assumes L: "links_ok s" and i: "fds s i = None" and c: "client_hash s (fd_owner f) = Some c"
    and p: "io_files s (fd_file f) = Some p"
  shows "\<exists>s'. link_fd s i f = Some s' \<and> link_effect s i f s'"
proof -
  let ?g = "f\<lparr>client_ix := length (chandles c), file_ix := length (fhandles p)\<rparr>"
  let ?s' = "upd_file (fd_file f) (\<lambda>p. p\<lparr>fhandles := fhandles p @ [i]\<rparr>)
    (upd_client (fd_owner f) (\<lambda>c. c\<lparr>chandles := chandles c @ [i]\<rparr>) (s\<lparr>fds := (fds s)(i \<mapsto> ?g)\<rparr>))"
  have r: "link_fd s i f = Some ?s'" using c p by (simp add: link_fd_def)
  have v: "client_arrays ?s' = (client_arrays s)(fd_owner f \<mapsto> chandles c @ [i])"
    "client_pos ?s' = (client_pos s)(i \<mapsto> (fd_owner f, length (chandles c)))"
    "file_arrays ?s' = (file_arrays s)(fd_file f \<mapsto> fhandles p @ [i])"
    "file_pos ?s' = (file_pos s)(i \<mapsto> (fd_file f, length (fhandles p)))"
    "fd_core ?s' = (fd_core s)(i \<mapsto> core_of f)" "tables ?s' = tables s"
    using c p by (auto simp: view_defs core_of_def upd_file_def upd_client_def fun_eq_iff)
  have "links_ok ?s'"
    using L link_push [of "client_arrays s" "client_pos s" "fd_owner f" "chandles c" i]
      link_push [of "file_arrays s" "file_pos s" "fd_file f" "fhandles p" i] i c p
    unfolding links_ok_def v by (simp add: view_defs)
  moreover have "transfer_hash ?s' = transfer_hash s" "rest ?s' = rest s" "impl ?s' = impl s"
    by (simp_all add: upd_file_def upd_client_def rest_def)
  moreover have "map_option fflags (io_files ?s' n) = map_option fflags (io_files s n)" for n
    using p by (simp add: upd_file_def upd_client_def)
  ultimately show ?thesis using r v c by (auto simp: link_effect_def client_arrays_def)
qed

section \<open>Fork\<close>

definition shadow_flags :: "u32 \<Rightarrow> u32" where
  "shadow_flags fl = (fl AND NOT IOD_TRANSFER) OR IOD_SHADOW"

lemma shadow_flags_bits: "has_flag (shadow_flags fl) IOD_SHADOW" "\<not> has_flag (shadow_flags fl) IOD_TRANSFER"
proof -
  have b: "(0x4000000 :: u32) = push_bit 26 1" "(0x8000000 :: u32) = push_bit 27 1" by simp_all
  have "bit ((fl AND NOT (push_bit 27 1)) OR push_bit 26 1) 26" for fl :: u32
    by (simp only: bit_or_iff bit_push_bit_iff bit_1_iff) simp
  then have "bit (shadow_flags fl AND push_bit 26 1) 26"
    unfolding shadow_flags_def b by (simp only: bit_and_iff [of _ "push_bit 26 1"] bit_push_bit_iff bit_1_iff) simp
  then show "has_flag (shadow_flags fl) IOD_SHADOW" unfolding has_flag_def b by (metis bit_0_eq bot_apply bot_bool_def)
  show "\<not> has_flag (shadow_flags fl) IOD_TRANSFER"
    unfolding has_flag_def shadow_flags_def b
    by (simp only: not_not, rule bit_word_eqI)
      (auto simp only: bit_and_iff bit_or_iff bit_not_iff bit_push_bit_iff bit_1_iff bit_0_eq bot_apply bot_bool_def)
qed

text \<open>
  The effect of forking handle \<open>i\<close> as \<open>n\<close>: the child's new shadow handle is on the same file and
  its indirection entry for \<open>i\<close> leads to it.
\<close>

definition fork_effect :: "'s io \<Rightarrow> u16 \<Rightarrow> nat \<Rightarrow> fd \<Rightarrow> nat \<Rightarrow> 's io \<Rightarrow> bool" where
  "fork_effect s child i f n s' \<longleftrightarrow> io_inv s' \<and> fds s n = None \<and> 0 < n
     \<and> fd_core s' = (fd_core s)(n \<mapsto> (fd_file f, child, shadow_flags (fd_flags f), i))
     \<and> tables s' = (tables s)(child \<mapsto> (the (tables s child))[i := n])
     \<and> client_arrays s' = (client_arrays s)(child \<mapsto> the (client_arrays s child) @ [n])
     \<and> transfer_hash s' = transfer_hash s \<and> rest s' = rest s"

lemma xfer_ok_upd:
  assumes "xfer_ok C th" "C n = None" "\<not> in_transfer d"
  shows "xfer_ok (C(n \<mapsto> d)) th"
  using assms by (auto simp: xfer_ok_def)

lemma fork_link_inv:
  assumes inv: "io_inv s" and f: "fds s i = Some f" and n: "n \<in> free_ids s"
    and c: "client_hash s child = Some c" "i < length (fd_table c)" "fd_table c ! i = 0"
    and e: "link_effect s n (f\<lparr>orig_fd := i, fd_owner := child, fd_flags := shadow_flags (fd_flags f)\<rparr>) t"
  shows "fork_effect s child i f n (upd_client child (\<lambda>c. c\<lparr>fd_table := (fd_table c)[i := n]\<rparr>) t)"
proof -
  let ?u = "upd_client child (\<lambda>c. c\<lparr>fd_table := (fd_table c)[i := n]\<rparr>) t"
  have inv': "table_in {} (fd_core s) (tables s)" "table_out (fd_core s) (tables s)"
    "xfer_ok (fd_core s) (transfer_hash s)" "\<forall>i. fds s i \<noteq> None \<longrightarrow> 0 < i \<and> i \<le> MAX_FD"
    "\<forall>n \<ge> next_file s. io_files s n = None" using inv by (auto simp: io_inv_def io_inv_ex_def)
  have n': "fds s n = None" "0 < n" "n \<le> MAX_FD" using n by (auto simp: free_ids_def unused_def)
  have Tc: "tables s child = Some (fd_table c)" using c(1) by (simp add: tables_def)
  let ?d = "(fd_file f, child, shadow_flags (fd_flags f), i)"
  have T: "tables t = tables s" and C: "fd_core t = (fd_core s)(n \<mapsto> ?d)"
    using e by (auto simp: link_effect_def core_of_def)
  have "tables t child = Some (fd_table c)" using T Tc by simp
  then obtain d where d: "client_hash t child = Some d" "fd_table d = fd_table c" by (auto simp: tables_def)
  have "tables ?u = (tables t)(child \<mapsto> (fd_table c)[i := n])"
    using d by (auto simp: tables_def upd_client_def fun_eq_iff)
  then have tc: "tables ?u = (tables s)(child \<mapsto> (fd_table c)[i := n])" using T by simp
  have v: "client_arrays ?u = client_arrays t" "client_pos ?u = client_pos t" "file_arrays ?u = file_arrays t"
    "file_pos ?u = file_pos t" "fd_core ?u = fd_core t" "rest ?u = rest t" "transfer_hash ?u = transfer_hash t"
    by (auto simp: view_defs upd_client_def fun_eq_iff rest_def option.map_comp comp_def)
  have "table_in {} (fd_core ?u) (tables ?u)"
    unfolding table_in_def tc v C
  proof (intro allI impI)
    fix p tbl j assume a: "p \<notin> {} \<and> ((tables s)(child \<mapsto> (fd_table c)[i := n])) p = Some tbl \<and> j < length tbl \<and> 0 < tbl ! j"
    show "\<exists>m fl. ((fd_core s)(n \<mapsto> ?d)) (tbl ! j) = Some (m, p, fl, j) \<and> has_flag fl IOD_SHADOW"
    proof (cases "p = child \<and> j = i")
      case True
      with a c(2) show ?thesis by (auto simp: shadow_flags_bits)
    next
      case False
      then obtain tbl0 where t0: "tables s p = Some tbl0" "j < length tbl0" "tbl ! j = tbl0 ! j"
        using a Tc by (auto simp: nth_list_update split: if_splits)
      from inv'(1) [unfolded table_in_def, rule_format, of p tbl0 j] a t0
      obtain m fl where m: "fd_core s (tbl ! j) = Some (m, p, fl, j)" "has_flag fl IOD_SHADOW" by auto
      then have "tbl ! j \<noteq> n" using n'(1) by (auto simp: fd_core_def)
      with m show ?thesis by simp
    qed
  qed
  moreover have "table_out (fd_core ?u) (tables ?u)"
    unfolding table_out_def tc v C
  proof (intro allI impI)
    fix k m p fl j assume a: "((fd_core s)(n \<mapsto> ?d)) k = Some (m, p, fl, j) \<and> has_flag fl IOD_SHADOW"
    show "\<not> has_flag fl IOD_TRANSFER \<and>
      (\<exists>tbl. ((tables s)(child \<mapsto> (fd_table c)[i := n])) p = Some tbl \<and> j < length tbl \<and> tbl ! j = k)"
    proof (cases "k = n")
      case True
      with a c(2) show ?thesis by (auto simp: shadow_flags_bits)
    next
      case False
      with a inv'(2) obtain tbl where t: "\<not> has_flag fl IOD_TRANSFER" "tables s p = Some tbl" "j < length tbl" "tbl ! j = k"
        unfolding table_out_def by fastforce
      have "0 < k" using False a inv'(4) [rule_format, of k] by (auto simp: fd_core_def)
      then have "\<not> (p = child \<and> j = i)" using t Tc c(3) by auto
      with t Tc show ?thesis by (auto simp: nth_list_update)
    qed
  qed
  moreover have "xfer_ok (fd_core ?u) (transfer_hash ?u)"
    using xfer_ok_upd [OF inv'(3), of n ?d] n'(1) e v C
    by (simp add: link_effect_def in_transfer_def shadow_flags_bits)
  moreover have "\<forall>k. fds ?u k \<noteq> None \<longrightarrow> 0 < k \<and> k \<le> MAX_FD"
  proof (intro allI impI)
    fix k assume "fds ?u k \<noteq> None"
    then have "fd_core ?u k \<noteq> None" by simp
    then have "k = n \<or> fd_core s k \<noteq> None" unfolding v C by (auto simp del: fd_core_None split: if_splits)
    then show "0 < k \<and> k \<le> MAX_FD" using inv'(4) n'(2,3) by auto
  qed
  moreover have "\<forall>n \<ge> next_file ?u. io_files ?u n = None"
  proof -
    have "next_file ?u = next_file s" "io_files ?u = io_files t"
      using e by (simp_all add: upd_client_def link_effect_def rest_def)
    moreover have "map_option fflags (io_files t n) = map_option fflags (io_files s n)" for n
      using e by (simp add: link_effect_def)
    ultimately show ?thesis using inv'(5) by (metis option.map_disc_iff)
  qed
  moreover have "links_ok t" using e unfolding link_effect_def by blast
  then have "links_ok ?u" unfolding links_ok_def v .
  ultimately have "io_inv ?u" by (simp add: io_inv_def io_inv_ex_def)
  then show ?thesis
    using n' v C tc Tc e by (simp add: fork_effect_def link_effect_def)
qed

lemma fork_one_Some:
  assumes inv: "io_inv s" and ra: "ra_ok ra" and f: "fds s i = Some f"
    and r: "fork_one ra child s i = Some s'"
  shows "\<exists>n. fork_effect s child i f n s'"
proof -
  have L: "links_ok s" using inv by (simp add: io_inv_def io_inv_ex_def)
  obtain n t where t: "fork_handle ra s i child = Some (n, t)" "0 \<le> n" using r
    by (auto simp: fork_one_def split: option.splits if_splits)
  obtain c where c: "client_hash s child = Some c" using t(1) f by (auto simp: fork_handle_def split: option.splits)
  obtain m where m: "alloc_fd ra s c = Some (Some m)" "n = int m"
    "link_fd s m (f\<lparr>orig_fd := i, fd_owner := child, fd_flags := shadow_flags (fd_flags f)\<rparr>) = Some t"
    using t f c by (auto simp: fork_handle_def shadow_flags_def split: option.splits)
  have mf: "m \<in> free_ids s" using alloc_fd_ok [OF ra, of s c] m(1) by auto
  obtain p where p: "io_files s (fd_file f) = Some p" using file_arrays_nth [OF L f] by metis
  have e: "link_effect s m (f\<lparr>orig_fd := i, fd_owner := child, fd_flags := shadow_flags (fd_flags f)\<rparr>) t"
    using link_fd_ok [OF L, of m "f\<lparr>orig_fd := i, fd_owner := child, fd_flags := shadow_flags (fd_flags f)\<rparr>" c p]
      mf c p m(3) by (auto simp: free_ids_def unused_def)
  then have "tables t child = Some (fd_table c)" using c by (simp add: link_effect_def tables_def)
  then obtain d where d: "client_hash t child = Some d" "fd_table d = fd_table c" by (auto simp: tables_def)
  have "i < length (fd_table c) \<and> fd_table c ! i = 0"
    "s' = upd_client child (\<lambda>c. c\<lparr>fd_table := (fd_table c)[i := m]\<rparr>) t"
    using r t(1) m(2) d by (auto simp: fork_one_def split: if_splits)
  with fork_link_inv [OF inv f mf c _ _ e] show ?thesis by auto
qed

lemma fork_one_total:
  assumes inv: "io_inv s" and ra: "ra_ok ra" and f: "fds s i = Some f"
    and c: "client_hash s child = Some c" "i < length (fd_table c)" "fd_table c ! i = 0"
    and free: "\<not> free_ids s \<subseteq> Collect (indirect (fd_table c))"
  shows "\<exists>s'. fork_one ra child s i = Some s'"
proof -
  have L: "links_ok s" using inv by (simp add: io_inv_def io_inv_ex_def)
  obtain m where m: "alloc_fd ra s c = Some (Some m)" "m \<in> free_ids s"
    using alloc_fd_ok [OF ra, of s c] free by (auto split: option.splits)
  obtain p where p: "io_files s (fd_file f) = Some p" using file_arrays_nth [OF L f] by metis
  let ?g = "f\<lparr>orig_fd := i, fd_owner := child, fd_flags := shadow_flags (fd_flags f)\<rparr>"
  obtain t where t: "link_fd s m ?g = Some t" "link_effect s m ?g t"
    using link_fd_ok [OF L, of m ?g c p] m(2) c p by (auto simp: free_ids_def unused_def)
  then have "tables t child = Some (fd_table c)" using c by (simp add: link_effect_def tables_def)
  then obtain d where "client_hash t child = Some d" "fd_table d = fd_table c" by (auto simp: tables_def)
  then show ?thesis
    using t(1) m(1) f c by (simp add: fork_one_def fork_handle_def shadow_flags_def)
qed

lemma fork_effect_fds:
  assumes "fork_effect s child i f n s'" "fds s j \<noteq> None"
  shows "fd_core s' j = fd_core s j" "fds s' j \<noteq> None"
proof -
  show "fd_core s' j = fd_core s j" using assms by (auto simp: fork_effect_def)
  then show "fds s' j \<noteq> None" using assms(2) fd_core_None by metis
qed

lemma fork_handles_Some:
  "io_inv s \<Longrightarrow> ra_ok ra \<Longrightarrow> fork_handles ra child s is = Some s' \<Longrightarrow> io_inv s' \<and> transfer_hash s' = transfer_hash s \<and> rest s' = rest s"
proof (induction "is" arbitrary: s)
  case Nil
  then show ?case by simp
next
  case (Cons i "is")
  obtain f where f: "fds s i = Some f" using Cons.prems(3) by (auto split: option.splits)
  show ?case
  proof (cases "has_flag (fd_flags f) IOD_SHADOW")
    case True
    then show ?thesis using Cons f by simp
  next
    case False
    then obtain t where t: "fork_one ra child s i = Some t" "fork_handles ra child t is = Some s'"
      using Cons.prems(3) f by (auto split: option.splits)
    obtain n where "fork_effect s child i f n t" using fork_one_Some [OF Cons.prems(1,2) f t(1)] ..
    then show ?thesis using Cons.IH [of t] Cons.prems(2) t(2) by (auto simp: fork_effect_def)
  qed
qed

lemma fork_shadows_Some:
  "io_inv s \<Longrightarrow> ra_ok ra \<Longrightarrow> fork_shadows ra child ptbl s is = Some s' \<Longrightarrow> io_inv s' \<and> transfer_hash s' = transfer_hash s \<and> rest s' = rest s"
proof (induction "is" arbitrary: s)
  case Nil
  then show ?case by simp
next
  case (Cons i "is")
  show ?case
  proof (cases "ptbl ! i = 0 \<or> fds s i = None")
    case True
    then show ?thesis using Cons by (auto split: if_splits)
  next
    case False
    then obtain f where f: "fds s i = Some f" by auto
    then obtain t where t: "fork_one ra child s i = Some t" "fork_shadows ra child ptbl t is = Some s'"
      using Cons.prems(3) False by (auto split: option.splits if_splits)
    obtain n where "fork_effect s child i f n t" using fork_one_Some [OF Cons.prems(1,2) f t(1)] ..
    then show ?thesis using Cons.IH [of t] Cons.prems(2) t(2) by (auto simp: fork_effect_def)
  qed
qed

lemma res_okE:
  assumes "res_ok s = (ok, t)"
  obtains m where "t = s\<lparr>res_oracle := m\<rparr>" "res_oracle s = [] \<Longrightarrow> ok \<and> m = []"
  using assms by (cases s) (auto simp: res_ok_def split: list.splits)

lemma views_oracle [simp]:
  "client_arrays (s\<lparr>res_oracle := m\<rparr>) = client_arrays s" "client_pos (s\<lparr>res_oracle := m\<rparr>) = client_pos s"
  "file_arrays (s\<lparr>res_oracle := m\<rparr>) = file_arrays s" "file_pos (s\<lparr>res_oracle := m\<rparr>) = file_pos s"
  "fd_core (s\<lparr>res_oracle := m\<rparr>) = fd_core s" "tables (s\<lparr>res_oracle := m\<rparr>) = tables s"
  "io_inv_ex X (s\<lparr>res_oracle := m\<rparr>) = io_inv_ex X s"
  by (simp_all add: view_defs fun_eq_iff io_inv_ex_def links_ok_def)
    (simp_all add: client_arrays_def [abs_def] client_pos_def [abs_def] file_arrays_def [abs_def]
      file_pos_def [abs_def] fd_core_def [abs_def] tables_def [abs_def])

text \<open>A fresh client has no handles and an empty table.\<close>

lemma new_client_inv:
  assumes "io_inv s" "client_hash s p = None"
  shows "io_inv (s\<lparr>client_hash := (client_hash s)(p \<mapsto> new_client len)\<rparr>)"
proof -
  let ?s = "s\<lparr>client_hash := (client_hash s)(p \<mapsto> new_client len)\<rparr>"
  have v: "client_arrays ?s = (client_arrays s)(p \<mapsto> [])" "client_pos ?s = client_pos s" "file_arrays ?s = file_arrays s"
    "file_pos ?s = file_pos s" "fd_core ?s = fd_core s" "tables ?s = (tables s)(p \<mapsto> replicate len 0)"
    by (auto simp: view_defs fun_eq_iff new_client_def)
  have Tp: "tables s p = None" using assms(2) by (simp add: tables_def)
  have "links_ok ?s"
    using assms link_new_holder [of "client_arrays s" "client_pos s" p]
    unfolding io_inv_def io_inv_ex_def links_ok_def v by (simp add: client_arrays_def)
  moreover have "table_in {} (fd_core ?s) (tables ?s)"
    using assms(1) unfolding io_inv_def io_inv_ex_def table_in_def v by (auto split: if_splits)
  moreover have "table_out (fd_core ?s) (tables ?s)"
    using assms(1) Tp unfolding io_inv_def io_inv_ex_def table_out_def v by fastforce
  ultimately show ?thesis
    using assms(1) by (simp add: io_inv_def io_inv_ex_def v)
qed

lemma fork_client_inv:
  assumes inv: "io_inv s" and ra: "ra_ok ra" and r: "fork_client ra s p child = Some (n, s')"
  shows "io_inv s'"
proof (cases "client_hash s child")
  case (Some c)
  then show ?thesis using r inv by (simp add: fork_client_def)
next
  case None
  then obtain c where c: "client_hash s p = Some c" using r by (auto simp: fork_client_def split: option.splits)
  obtain ok1 t ok2 u where tu: "res_ok s = (ok1, t)" "res_ok t = (ok2, u)" by (metis surj_pair)
  obtain m1 where "t = s\<lparr>res_oracle := m1\<rparr>" using tu(1) by (rule res_okE)
  moreover obtain m2 where "u = t\<lparr>res_oracle := m2\<rparr>" using tu(2) by (rule res_okE)
  ultimately have u: "u = s\<lparr>res_oracle := m2\<rparr>" by (cases s) simp
  have iu: "io_inv u" "client_hash u child = None" using inv None u by (simp_all add: io_inv_def)
  let ?v = "u\<lparr>client_hash := (client_hash u)(child \<mapsto> new_client (max_fd_1 s c))\<rparr>"
  have "s' = u \<or> (\<exists>w. fork_handles ra child ?v (chandles c) = Some w
      \<and> fork_shadows ra child (fd_table c) w [0..<min (max_fd_1 s c) (length (fd_table c))] = Some s')"
    using r c None tu by (auto simp: fork_client_def Let_def split: if_splits option.splits)
  then show ?thesis
    using iu(1) fork_handles_Some [OF new_client_inv [OF iu] ra] fork_shadows_Some [OF _ ra] by metis
qed

lemma fork_handles_ok:
  assumes "io_inv s" "ra_ok ra" "client_hash s child = Some c" "distinct is"
    "\<And>i. i \<in> set is \<Longrightarrow> \<exists>f. fds s i = Some f \<and> \<not> has_flag (fd_flags f) IOD_SHADOW"
    "\<And>i. i \<in> set is \<Longrightarrow> i < length (fd_table c) \<and> fd_table c ! i = 0"
    "\<And>j. indirect (fd_table c) j \<Longrightarrow> fds s j \<noteq> None" "length is \<le> card (free_ids s)"
  shows "\<exists>s' c'. fork_handles ra child s is = Some s' \<and> io_inv s' \<and> client_hash s' child = Some c'
     \<and> length (chandles c') = length (chandles c) + length is
     \<and> (\<forall>j. fds s j \<noteq> None \<longrightarrow> fd_core s' j = fd_core s j)
     \<and> (\<forall>j. j \<notin> set is \<longrightarrow> fd_table c' ! j = fd_table c ! j) \<and> length (fd_table c') = length (fd_table c)
     \<and> (\<forall>i \<in> set is. \<exists>f. fds s i = Some f \<and> fd_table c' ! i > 0
          \<and> fd_core s' (fd_table c' ! i) = Some (fd_file f, child, shadow_flags (fd_flags f), i))"
  using assms
proof (induction "is" arbitrary: s c)
  case Nil
  then show ?case by simp
next
  case (Cons i "is")
  obtain f where f: "fds s i = Some f" "\<not> has_flag (fd_flags f) IOD_SHADOW" using Cons.prems(5) by auto
  have i: "i < length (fd_table c)" "fd_table c ! i = 0" using Cons.prems(6) by auto
  have "free_ids s \<noteq> {}" using Cons.prems(8) by auto
  then have "\<not> free_ids s \<subseteq> Collect (indirect (fd_table c))"
    using Cons.prems(7) by (fastforce simp: free_ids_def unused_def)
  then obtain t where t: "fork_one ra child s i = Some t"
    using fork_one_total [OF Cons.prems(1,2) f(1) Cons.prems(3) i] by blast
  obtain n where e: "fork_effect s child i f n t" using fork_one_Some [OF Cons.prems(1,2) f(1) t] ..
  have C: "fd_core t = (fd_core s)(n \<mapsto> (fd_file f, child, shadow_flags (fd_flags f), i))" and n: "fds s n = None" "0 < n"
    and it: "io_inv t" using e by (auto simp: fork_effect_def)
  have "tables t child = Some ((fd_table c)[i := n])" "client_arrays t child = Some (chandles c @ [n])"
    using e Cons.prems(3) by (simp_all add: fork_effect_def tables_def client_arrays_def)
  then obtain d where d: "client_hash t child = Some d" "fd_table d = (fd_table c)[i := n]" "chandles d = chandles c @ [n]"
    by (auto simp: tables_def client_arrays_def)
  have n': "n \<le> MAX_FD" "fds t n \<noteq> None"
    using it C fd_core_None [of t n] by (auto simp: io_inv_def io_inv_ex_def)
  have fds_t: "fds t j = None \<longleftrightarrow> fds s j = None \<and> j \<noteq> n" for j
    using fd_core_None [of t j] fd_core_None [of s j] C by (cases "j = n") auto
  have "free_ids t = free_ids s - {n}" by (auto simp: free_ids_def unused_def fds_t)
  moreover have "n \<in> free_ids s" using n n' by (simp add: free_ids_def unused_def)
  ultimately have card: "length is \<le> card (free_ids t)"
    using Cons.prems(8) by (simp add: free_ids_def)
  have f': "\<exists>g. fds t j = Some g \<and> \<not> has_flag (fd_flags g) IOD_SHADOW \<and> core_of g = core_of (the (fds s j))" if j: "j \<in> set is" for j
  proof -
    obtain g where g: "fds s j = Some g" "\<not> has_flag (fd_flags g) IOD_SHADOW" using Cons.prems(5) [of j] j by auto
    have "fd_core t j = fd_core s j" using C g n by auto
    then show ?thesis using g by (auto simp: fd_core_def core_of_def)
  qed
  have tb: "j < length (fd_table d) \<and> fd_table d ! j = 0" if "j \<in> set is" for j
    using that Cons.prems(4) Cons.prems(6) [of j] d(2) by (cases "j = i") simp_all
  have ind: "fds t j \<noteq> None" if "indirect (fd_table d) j" for j
    using that Cons.prems(7) [of j] d(2) f(1) fds_t [of j] n(1)
    by (cases "j = i") (auto simp: indirect_def nth_list_update)
  obtain s' c' where s': "fork_handles ra child t is = Some s'" "io_inv s'" "client_hash s' child = Some c'"
    "length (chandles c') = length (chandles d) + length is" "\<forall>j. fds t j \<noteq> None \<longrightarrow> fd_core s' j = fd_core t j"
    "\<forall>j. j \<notin> set is \<longrightarrow> fd_table c' ! j = fd_table d ! j" "length (fd_table c') = length (fd_table d)"
    "\<forall>i \<in> set is. \<exists>f. fds t i = Some f \<and> fd_table c' ! i > 0
          \<and> fd_core s' (fd_table c' ! i) = Some (fd_file f, child, shadow_flags (fd_flags f), i)"
    using Cons.IH [OF it Cons.prems(2) d(1) _ _ tb ind card] Cons.prems(4) f' by fastforce
  have old: "fd_core s' j = fd_core s j" if "fds s j \<noteq> None" for j
  proof -
    have "j \<noteq> n" using that n(1) by auto
    moreover have "fds t j \<noteq> None" using fds_t [of j] that by (simp del: not_None_eq)
    then have "fd_core s' j = fd_core t j" using s'(5) by simp
    ultimately show ?thesis by (simp add: C)
  qed
  have new: "\<exists>f. fds s j = Some f \<and> fd_table c' ! j > 0
      \<and> fd_core s' (fd_table c' ! j) = Some (fd_file f, child, shadow_flags (fd_flags f), j)" if "j \<in> set (i # is)" for j
  proof (cases "j = i")
    case True
    have "fd_table c' ! i = n" using s'(6) Cons.prems(4) d(2) i(1) by simp
    moreover have "fd_core s' n = fd_core t n" using s'(5) n'(2) by simp
    ultimately show ?thesis using True f(1) C n(2) by simp
  next
    case False
    with that have j: "j \<in> set is" by simp
    from s'(8) f' [OF j] j Cons.prems(5) [of j] show ?thesis by (fastforce simp: core_of_def)
  qed
  have "fork_handles ra child s (i # is) = Some s'" using f t s'(1) by simp
  moreover have "fd_table c' ! j = fd_table c ! j" if "j \<notin> set (i # is)" for j
    using that s'(6) d(2) by simp
  ultimately show ?case using s'(2-4,7) d old new by auto
qed

lemma le_fold_max: "x \<in> set xs \<Longrightarrow> x \<le> fold max xs (a :: nat)"
proof (induction xs arbitrary: a)
  case (Cons y xs)
  have "b \<le> fold max xs b" for b :: nat
    by (induction xs arbitrary: b) (auto intro: order_trans [OF max.cobounded2])
  with Cons show ?case by (auto intro: order_trans [OF max.cobounded1])
qed simp

section \<open>Properties of the lifecycle operations\<close>

lemma get_fd_nosync_own:
  assumes "io_inv s" "fd_core s i = Some (n, p, fl, j)" "\<not> has_flag fl IOD_SHADOW"
  shows "get_fd_nosync s p (int i) = Some (Some i)"
proof -
  obtain f where f: "fds s i = Some f" "fd_owner f = p" "fd_flags f = fl"
    using assms(2) by (auto simp: fd_core_def core_of_def)
  have "0 < i \<and> i \<le> MAX_FD" using assms(1) f(1) by (auto simp: io_inv_def io_inv_ex_def)
  then show ?thesis using f assms(3) by (simp add: get_fd_nosync_def Let_def)
qed

lemma get_fd_nosync_shadow:
  assumes "io_inv s" "client_hash s p = Some c" "indirect (fd_table c) i" "0 < i" "i \<le> MAX_FD"
    "fd_core s i = Some (m, q, fl, k)" "q \<noteq> p"
  shows "get_fd_nosync s p (int i) = Some (Some (fd_table c ! i))"
proof -
  obtain f where f: "fds s i = Some f" "fd_owner f = q" using assms(6) by (auto simp: fd_core_def core_of_def)
  have "table_in {} (fd_core s) (tables s)" using assms(1) by (simp add: io_inv_def io_inv_ex_def)
  from this [unfolded table_in_def, rule_format, of p "fd_table c" i] obtain n fl where "fd_core s (fd_table c ! i) = Some (n, p, fl, i)" "has_flag fl IOD_SHADOW"
    using assms(2,3) by (auto simp: tables_def indirect_def)
  then obtain g where "fds s (fd_table c ! i) = Some g" "has_flag (fd_flags g) IOD_SHADOW"
    by (auto simp: fd_core_def core_of_def)
  then show ?thesis using assms f by (simp add: get_fd_nosync_def Let_def indirect_def)
qed

end
