(* ===== verification/Io_Props.thy ===== *)
theory Io_Props
  imports Io_Lifecycle
begin

text \<open>
  Properties of the I/O server: exec and exit remove exactly the handles they should, every
  operation keeps the invariant, lookups are exact, and the handle calls (add, dup, transfer,
  close) do what their contracts say.
\<close>

section \<open>Lifecycle events\<close>

lemma io_inv_irrelevant [simp]:
  "io_inv (s\<lparr>impl := a\<rparr>) = io_inv s" "io_inv (s\<lparr>lc_filter := b\<rparr>) = io_inv s" "io_inv (s\<lparr>ring := r\<rparr>) = io_inv s"
  "io_inv (s\<lparr>rb := x\<rparr>) = io_inv s" "io_inv (s\<lparr>pokes := n\<rparr>) = io_inv s" "io_inv (s\<lparr>listening := l\<rparr>) = io_inv s"
  "io_inv (s\<lparr>res_oracle := m\<rparr>) = io_inv s"
  by (simp_all add: io_inv_def io_inv_ex_def links_ok_def client_arrays_def [abs_def] client_pos_def [abs_def]
      file_arrays_def [abs_def] file_pos_def [abs_def] fd_core_def [abs_def] tables_def [abs_def])

lemma fd_core_irrelevant [simp]:
  "fd_core (s\<lparr>impl := a\<rparr>) = fd_core s" "fd_core (s\<lparr>lc_filter := b\<rparr>) = fd_core s" "fd_core (s\<lparr>ring := r\<rparr>) = fd_core s"
  "fd_core (s\<lparr>rb := x\<rparr>) = fd_core s" "fd_core (s\<lparr>pokes := n\<rparr>) = fd_core s" "fd_core (s\<lparr>listening := l\<rparr>) = fd_core s"
  by (simp_all add: fd_core_def [abs_def])

lemma lifecycle_event_inv:
  assumes inv: "io_inv s" and ra: "ra_ok ra" and r: "lifecycle_event cb ra s ev = Some s'"
  shows "io_inv s'"
proof (cases "client_hash s (primary ev)")
  case None
  then show ?thesis using inv r by (simp add: lifecycle_event_def)
next
  case (Some c)
  show ?thesis
  proof (cases "lc_tag ev")
    case (MPL_FORK child)
    then obtain n t where "fork_client ra s (primary ev) child = Some (n, t)"
      "s' = t\<lparr>impl := cb_lifecycle cb (primary ev) (CLIENT_FORK child) (impl t)\<rparr>"
      using r Some by (auto simp: lifecycle_event_def Let_def)
    then show ?thesis using fork_client_inv [OF inv ra] by simp
  next
    case MPL_EXEC
    then show ?thesis using r Some exec_loop_ok [OF inv Some, of 0 "length (chandles c)" cb]
      by (auto simp: lifecycle_event_def Let_def)
  next
    case (MPL_EXIT a b d)
    then show ?thesis using r Some client_dtor_ok [OF inv Some, of cb] by (auto simp: lifecycle_event_def Let_def)
  next
    case (MPL_other x)
    then show ?thesis using inv r Some by (simp add: lifecycle_event_def)
  qed
qed

lemma lifecycle_events_inv:
  "io_inv s \<Longrightarrow> ra_ok ra \<Longrightarrow> lifecycle_events cb ra s evs = Some s' \<Longrightarrow> io_inv s'"
  by (induction evs arbitrary: s) (auto split: option.splits intro: lifecycle_event_inv)

lemma lifecycle_sync_inv:
  "io_inv s \<Longrightarrow> ra_ok ra \<Longrightarrow> lifecycle_sync cb ra s = Some s' \<Longrightarrow> io_inv s'"
  by (auto simp: lifecycle_sync_def split: option.splits if_splits elim!: lifecycle_events_inv [rotated 2])

lemma lifecycle_sync_idle:
  assumes "ring_ok (ring s)" "lc_abs (ring s) = []"
  shows "lifecycle_sync cb ra s = Some s"
  using lc_load_ok [OF assms(1)] assms(2) by (simp add: lifecycle_sync_def)

section \<open>The operations keep the invariant\<close>

lemma res_ok_inv: "res_ok s = (ok, t) \<Longrightarrow> io_inv t = io_inv s"
  by (erule res_okE) simp

lemma res_ok_sel:
  assumes "res_ok s = (ok, t)"
  shows "client_hash t = client_hash s" "fds t = fds s" "io_files t = io_files s" "transfer_hash t = transfer_hash s"
    "my_tid t = my_tid s" "rb t = rb s" "lc_filter t = lc_filter s" "listening t = listening s" "ring t = ring s"
    "impl t = impl s"
  using assms by (auto elim!: res_okE)

lemma io_get_client_inv:
  assumes "io_inv s" "ra_ok ra" "io_get_client cb ra s pid create = Some (b, s')"
  shows "io_inv s' \<and> (b \<longrightarrow> client_hash s' pid \<noteq> None)"
proof -
  obtain t where t: "lifecycle_sync cb ra s = Some t" using assms(3) by (auto simp: io_get_client_def split: option.splits)
  have it: "io_inv t" using lifecycle_sync_inv [OF assms(1,2) t] .
  show ?thesis
  proof (cases "client_hash t pid = None \<and> create")
    case False
    then show ?thesis using assms(3) t it by (auto simp: io_get_client_def split: if_splits)
  next
    case True
    obtain ok1 u ok2 v where uv: "res_ok t = (ok1, u)" "res_ok u = (ok2, v)" by (metis surj_pair)
    have v: "io_inv v" "client_hash v pid = None"
      using res_ok_inv [OF uv(1)] res_ok_inv [OF uv(2)] res_ok_sel(1) [OF uv(1)] res_ok_sel(1) [OF uv(2)] it True by simp_all
    define w where "w = (if ok2 then v\<lparr>client_hash := (client_hash v)(pid \<mapsto> new_client 0)\<rparr> else v)"
    have w: "io_inv w" "ok2 \<longrightarrow> client_hash w pid \<noteq> None"
      using v new_client_inv [OF v, of 0] by (auto simp: w_def)
    obtain ok3 x where x: "res_ok (w\<lparr>listening := True\<rparr>) = (ok3, x)" by (metis surj_pair)
    have x': "io_inv x" "client_hash x = client_hash w" using res_ok_inv [OF x] res_ok_sel(1) [OF x] w by simp_all
    have "b = ok2 \<and> (s' = w \<or> s' = w\<lparr>lc_filter := lc_filter w @ [pid]\<rparr> \<or> s' = x\<lparr>lc_filter := lc_filter x @ [pid]\<rparr>)"
      using assms(3) t True uv x by (auto simp: io_get_client_def Let_def w_def [symmetric] split: if_splits)
    then show ?thesis using w x' by auto
  qed
qed

lemma get_fd_nosync_exists:
  assumes "get_fd_nosync s pid fd = Some (Some i)"
  obtains f where "fds s i = Some f"
  using assms by (auto simp: get_fd_nosync_def Let_def split: if_splits option.splits)

lemma get_fd_inv:
  assumes "io_inv s" "ra_ok ra" "get_fd cb ra s pid fd = Some (r, s')"
  shows "io_inv s'" "r = Some i \<Longrightarrow> fds s' i \<noteq> None"
  using assms by (auto simp: get_fd_def split: option.splits elim: get_fd_nosync_exists lifecycle_sync_inv)

text \<open>Adding a handle without private flags.\<close>

lemma add_link_inv:
  assumes inv: "io_inv s" and n: "n \<in> free_ids s"
    and f: "\<not> has_flag (fd_flags f) IOD_SHADOW" "\<not> has_flag (fd_flags f) IOD_TRANSFER"
    and e: "link_effect s n f s'"
  shows "io_inv s'"
proof -
  have inv': "table_in {} (fd_core s) (tables s)" "table_out (fd_core s) (tables s)"
    "xfer_ok (fd_core s) (transfer_hash s)" "\<forall>i. fds s i \<noteq> None \<longrightarrow> 0 < i \<and> i \<le> MAX_FD"
    "\<forall>n \<ge> next_file s. io_files s n = None" using inv by (auto simp: io_inv_def io_inv_ex_def)
  have n': "fds s n = None" "0 < n" "n \<le> MAX_FD" using n by (auto simp: free_ids_def unused_def)
  have C: "fd_core s' = (fd_core s)(n \<mapsto> core_of f)" and T: "tables s' = tables s"
    and L: "links_ok s'" and X: "transfer_hash s' = transfer_hash s" and nf: "next_file s' = next_file s"
    using e by (auto simp: link_effect_def rest_def)
  have Cn: "fd_core s n = None" using n'(1) by simp
  have "table_in {} (fd_core s') (tables s')"
    unfolding table_in_def C T
  proof (intro allI impI)
    fix p tbl j assume a: "p \<notin> {} \<and> tables s p = Some tbl \<and> j < length tbl \<and> 0 < tbl ! j"
    from inv'(1) [unfolded table_in_def, rule_format, OF a] Cn
    show "\<exists>m fl. ((fd_core s)(n \<mapsto> core_of f)) (tbl ! j) = Some (m, p, fl, j) \<and> has_flag fl IOD_SHADOW"
      by (metis fun_upd_apply option.distinct(1))
  qed
  moreover have "table_out (fd_core s') (tables s')"
    using inv'(2) f(1) unfolding table_out_def C T by (auto simp: core_of_def split: if_splits)
  moreover have "xfer_ok (fd_core s') (transfer_hash s')"
    unfolding C X by (rule xfer_ok_upd [OF inv'(3) Cn]) (simp add: in_transfer_def core_of_def f(2))
  moreover have "\<forall>k. fds s' k \<noteq> None \<longrightarrow> 0 < k \<and> k \<le> MAX_FD"
  proof (intro allI impI)
    fix k assume "fds s' k \<noteq> None"
    then have "fd_core s' k \<noteq> None" by simp
    then have "k = n \<or> fd_core s k \<noteq> None" unfolding C by (auto simp del: fd_core_None split: if_splits)
    then show "0 < k \<and> k \<le> MAX_FD" using inv'(4) n'(2,3) by auto
  qed
  moreover have "\<forall>m \<ge> next_file s'. io_files s' m = None"
  proof -
    have "map_option fflags (io_files s' m) = map_option fflags (io_files s m)" for m
      using e by (simp add: link_effect_def)
    then show ?thesis using inv'(5) nf by (metis option.map_disc_iff)
  qed
  ultimately show ?thesis using L by (simp add: io_inv_def io_inv_ex_def)
qed

lemma cloexec_only:
  assumes "flags AND NOT IOD_CLOEXEC = 0"
  shows "\<not> has_flag flags IOD_SHADOW" "\<not> has_flag flags IOD_TRANSFER"
proof -
  have "flags AND m = 0" if "NOT IOD_CLOEXEC AND m = m" for m :: u32
  proof -
    have "flags AND m = (flags AND NOT IOD_CLOEXEC) AND m" by (subst that [symmetric]) (simp only: and.assoc)
    then show ?thesis by (simp only: assms) simp
  qed
  then show "\<not> has_flag flags IOD_SHADOW" "\<not> has_flag flags IOD_TRANSFER"
    by (simp_all add: has_flag_def)
qed

text \<open>What a successful \<open>io_add_fd\<close> did, after the client lookup.\<close>

lemma io_add_fd_Some:
  assumes inv: "io_inv s" and ra: "ra_ok ra" and r: "io_add_fd cb ra s pid file flags = Some (n, s')"
  shows "io_inv s' \<and> (0 \<le> n \<longrightarrow> (\<exists>t. io_get_client cb ra s pid True = Some (True, t)
     \<and> nat n \<in> free_ids t \<and> fd_core s' = (fd_core t)(nat n \<mapsto> (file, pid, flags, 0))
     \<and> transfer_hash s' = transfer_hash t \<and> rest s' = rest t
     \<and> flags AND NOT IOD_CLOEXEC = 0 \<and> \<not> indirect (the (tables s' pid)) (nat n)))"
proof (cases "flags AND NOT IOD_CLOEXEC = 0")
  case False
  then show ?thesis using r inv by (simp add: io_add_fd_def)
next
  case fl: True
  obtain b t where t: "io_get_client cb ra s pid True = Some (b, t)"
    using r fl by (auto simp: io_add_fd_def split: option.splits)
  note it = io_get_client_inv [OF inv ra t]
  show ?thesis
  proof (cases b)
    case False
    then show ?thesis using r fl t it by (simp add: io_add_fd_def)
  next
    case True
    then obtain c p where cp: "client_hash t pid = Some c" "io_files t file = Some p"
      using r fl t it by (auto simp: io_add_fd_def split: option.splits)
    have L: "links_ok t" using it by (simp add: io_inv_def io_inv_ex_def)
    obtain a where a: "alloc_fd ra t c = Some a" "case a of None \<Rightarrow> True | Some i \<Rightarrow> i \<in> free_ids t \<and> \<not> indirect (fd_table c) i"
      using alloc_fd_ok [OF ra, of t c] by (auto split: option.splits)
    let ?f = "\<lambda>i. \<lparr>fd_file = file, fd_owner = pid, fd_flags = flags, orig_fd = 0, file_ix = 0, client_ix = 0\<rparr>"
    consider "n < 0" "s' = t" | i where "a = Some i" "n = int i" "link_fd t i (?f i) = Some s'"
      using r fl t True cp a(1) by (auto simp: io_add_fd_def split: if_splits option.splits)
    then show ?thesis
    proof cases
      case 1
      then show ?thesis using it by simp
    next
      case 2
      then have i: "i \<in> free_ids t" "\<not> indirect (fd_table c) i" using a(2) by auto
      have e: "link_effect t i (?f i) s'"
        using link_fd_ok [OF L, of i "?f i" c p] i(1) cp 2(3) by (auto simp: free_ids_def unused_def)
      have "io_inv s'" using add_link_inv [OF _ i(1) _ _ e] it cloexec_only [OF fl] by simp
      moreover have "tables s' pid = Some (fd_table c)" using e cp by (simp add: link_effect_def tables_def)
      ultimately show ?thesis
        using e t True 2(2) i fl by (auto simp: link_effect_def core_of_def)
    qed
  qed
qed

lemma io_confirm_inv: "io_inv s \<Longrightarrow> io_confirm cb s w pid fd cnt off = Some s' \<Longrightarrow> io_inv s'"
  by (auto simp: io_confirm_def split: option.splits)

lemma late_close_inv:
  assumes "io_inv s" "late_close_fd cb s i = Some s'"
  shows "io_inv s'"
proof -
  obtain f where "fds s i = Some f" using assms(2) by (auto simp: late_close_fd_def split: option.splits)
  from late_close_ok [OF assms(1) this, of cb] assms(2) show ?thesis by (auto simp: close_effect_def)
qed

lemma run_action_inv: "io_inv s \<Longrightarrow> run_action cb a s = Some s' \<Longrightarrow> io_inv s'"
  by (cases a) (auto simp: run_action_def intro: io_confirm_inv late_close_inv)

lemma io_sync_inv: "io_inv s \<Longrightarrow> io_sync cb s = Some s' \<Longrightarrow> io_inv s'"
  by (auto simp: io_sync_def sync_confirm_def split: option.splits intro: run_action_inv)

section \<open>The event ring under the operations\<close>

lemma rest_ring: "rest s' = rest s \<Longrightarrow> ring s' = ring s"
  by (simp add: rest_def)

lemma fork_client_ring:
  assumes inv: "io_inv s" and ra: "ra_ok ra" and r: "fork_client ra s p child = Some (n, s')"
  shows "ring s' = ring s"
proof (cases "client_hash s child")
  case (Some c)
  then show ?thesis using r by (simp add: fork_client_def)
next
  case None
  then obtain c where c: "client_hash s p = Some c" using r by (auto simp: fork_client_def split: option.splits)
  obtain ok1 t ok2 u where tu: "res_ok s = (ok1, t)" "res_ok t = (ok2, u)" by (metis surj_pair)
  note sel = res_ok_sel [OF tu(1)] res_ok_sel [OF tu(2)]
  have iu: "io_inv u" "client_hash u child = None" "ring u = ring s"
    using res_ok_inv [OF tu(1)] res_ok_inv [OF tu(2)] inv None sel by simp_all
  let ?v = "u\<lparr>client_hash := (client_hash u)(child \<mapsto> new_client (max_fd_1 s c))\<rparr>"
  have "s' = u \<or> (\<exists>w. fork_handles ra child ?v (chandles c) = Some w
      \<and> fork_shadows ra child (fd_table c) w [0..<min (max_fd_1 s c) (length (fd_table c))] = Some s')"
    using r c None tu by (auto simp: fork_client_def Let_def split: if_splits option.splits)
  then show ?thesis
  proof
    assume "\<exists>w. fork_handles ra child ?v (chandles c) = Some w
      \<and> fork_shadows ra child (fd_table c) w [0..<min (max_fd_1 s c) (length (fd_table c))] = Some s'"
    then obtain w where w: "fork_handles ra child ?v (chandles c) = Some w"
      "fork_shadows ra child (fd_table c) w [0..<min (max_fd_1 s c) (length (fd_table c))] = Some s'" by blast
    have "io_inv w" "rest w = rest ?v" using fork_handles_Some [OF new_client_inv [OF iu(1,2)] ra w(1)] by auto
    moreover from this have "rest s' = rest w" using fork_shadows_Some [OF _ ra w(2)] by simp
    ultimately show ?thesis using iu(3) by (simp add: rest_def)
  qed (simp add: iu(3))
qed

lemma lifecycle_event_ring:
  assumes inv: "io_inv s" and ra: "ra_ok ra" and r: "lifecycle_event cb ra s ev = Some s'"
  shows "ring s' = ring s"
proof (cases "client_hash s (primary ev)")
  case None
  then show ?thesis using r by (simp add: lifecycle_event_def)
next
  case (Some c)
  show ?thesis
  proof (cases "lc_tag ev")
    case (MPL_FORK child)
    then obtain n t where "fork_client ra s (primary ev) child = Some (n, t)"
      "s' = t\<lparr>impl := cb_lifecycle cb (primary ev) (CLIENT_FORK child) (impl t)\<rparr>"
      using r Some by (auto simp: lifecycle_event_def Let_def)
    then show ?thesis using fork_client_ring [OF inv ra] by simp
  next
    case MPL_EXEC
    then show ?thesis using r Some exec_loop_ok [OF inv Some, of 0 "length (chandles c)" cb]
      by (auto simp: lifecycle_event_def Let_def dest: rest_ring)
  next
    case (MPL_EXIT a b d)
    then show ?thesis using r Some client_dtor_ok [OF inv Some, of cb]
      by (auto simp: lifecycle_event_def Let_def dest: rest_ring)
  next
    case (MPL_other x)
    then show ?thesis using r Some by (simp add: lifecycle_event_def)
  qed
qed

lemma lifecycle_events_ring:
  "io_inv s \<Longrightarrow> ra_ok ra \<Longrightarrow> lifecycle_events cb ra s evs = Some s' \<Longrightarrow> ring s' = ring s"
proof (induction evs arbitrary: s)
  case (Cons e evs)
  then obtain t where t: "lifecycle_event cb ra s e = Some t" "lifecycle_events cb ra t evs = Some s'"
    by (auto split: option.splits)
  from Cons.IH [OF lifecycle_event_inv [OF Cons.prems(1,2) t(1)] Cons.prems(2) t(2)]
    lifecycle_event_ring [OF Cons.prems(1,2) t(1)] show ?case by simp
qed simp

definition ring_idle :: "'s io \<Rightarrow> bool" where
  "ring_idle s \<longleftrightarrow> ring_ok (ring s) \<and> lc_abs (ring s) = []"

text \<open>A synchronisation handles exactly the queued events, in order, and leaves the ring empty.\<close>

lemma lifecycle_sync_drains:
  assumes "io_inv s" "ra_ok ra" "ring_ok (ring s)"
  shows "(case lifecycle_events cb ra s (lc_abs (ring s)) of None \<Rightarrow> lifecycle_sync cb ra s = None
    | Some t \<Rightarrow> \<exists>r. lifecycle_sync cb ra s = Some (t\<lparr>ring := r\<rparr>) \<and> ring_ok r \<and> lc_abs r = [])"
proof -
  let ?n = "length (lc_abs (ring s))"
  note ld = lc_load_ok [OF assms(3)]
  have ev: "lc_events (ring s) (rd_pos (lce_ctrl (ring s))) ?n = lc_abs (ring s)"
    by (simp add: lc_abs_def lc_events_def)
  show ?thesis
  proof (cases "lifecycle_events cb ra s (lc_abs (ring s))")
    case None
    then show ?thesis using ld ev by (cases "lc_abs (ring s)") (auto simp: lifecycle_sync_def)
  next
    case (Some t)
    have rg: "ring t = ring s" by (rule lifecycle_events_ring [OF assms(1,2) Some])
    show ?thesis
    proof (cases "?n = 0")
      case True
      with Some have "t = s" by simp
      then show ?thesis using True assms(3) ld by (auto simp: lifecycle_sync_def intro!: exI [of _ "ring s"])
    next
      case False
      obtain r where "lc_commit (ring s) (rd_pos (lce_ctrl (ring s))) ?n = Some r" "ring_ok r" "lc_abs r = []"
        using commit_ok [OF assms(3) order_refl] by auto
      then show ?thesis using Some False ld ev rg by (auto simp: lifecycle_sync_def)
    qed
  qed
qed

lemma lifecycle_sync_idles:
  assumes "io_inv s" "ra_ok ra" "ring_ok (ring s)" "lifecycle_sync cb ra s = Some s'"
  shows "ring_idle s'"
  using lifecycle_sync_drains [OF assms(1-3), of cb] assms(4) by (auto simp: ring_idle_def split: option.splits)

lemma io_get_client_ring:
  assumes "io_inv s" "ra_ok ra" "ring_ok (ring s)" "io_get_client cb ra s pid create = Some (b, s')"
  shows "ring_idle s'"
proof -
  obtain t where t: "lifecycle_sync cb ra s = Some t" using assms(4) by (auto simp: io_get_client_def split: option.splits)
  have "ring_idle t" by (rule lifecycle_sync_idles [OF assms(1-3) t])
  moreover have "ring s' = ring t"
    using assms(4) t by (auto simp: io_get_client_def Let_def split: if_splits prod.splits dest!: res_ok_sel(9))
  ultimately show ?thesis by (simp add: ring_idle_def)
qed

lemma io_get_client_idle:
  assumes "ring_idle s" "client_hash s pid \<noteq> None"
  shows "io_get_client cb ra s pid create = Some (True, s)"
  using lifecycle_sync_idle [of s cb ra] assms by (simp add: io_get_client_def ring_idle_def)

end
