(* ===== verification/Io_Calls.thy ===== *)
theory Io_Calls
  imports Io_Props
begin

text \<open>
  The calls of \<^verbatim>\<open>Sneks::IO\<close> and the implementor's interface keep the invariant of the I/O
  server, for every allocator that keeps its promise and every set of callbacks; and what
  the handle calls achieve.
\<close>

section \<open>Steps that keep the server state well-formed\<close>

definition io_ok :: "'s io \<Rightarrow> bool" where
  "io_ok s \<longleftrightarrow> io_inv s \<and> ring_ok (ring s)"

lemma late_close_ring:
  assumes "io_inv s" "late_close_fd cb s i = Some s'"
  shows "rest s' = rest s"
proof -
  obtain f where "fds s i = Some f" using assms(2) by (auto simp: late_close_fd_def split: option.splits)
  from late_close_ok [OF assms(1) this, of cb] assms(2) show ?thesis by (auto simp: close_effect_def)
qed

lemma run_action_rest: "io_inv s \<Longrightarrow> run_action cb a s = Some s' \<Longrightarrow> rest s' = rest s"
  by (cases a) (auto simp: run_action_def io_confirm_def rest_def dest: late_close_ring split: option.splits)

lemma io_sync_ok: "io_ok s \<Longrightarrow> io_sync cb s = Some s' \<Longrightarrow> io_ok s' \<and> my_tid s' = my_tid s"
  by (auto simp: io_ok_def io_sync_def sync_confirm_def rest_def split: option.splits
      dest: run_action_inv run_action_rest)

lemma get_fd_ok:
  assumes "io_ok s" "ra_ok ra" "get_fd cb ra s pid fd = Some (r, s')"
  shows "io_ok s'" "ring_idle s'" "r = Some i \<Longrightarrow> fds s' i \<noteq> None" "get_fd_nosync s' pid fd = Some r"
proof -
  have s: "lifecycle_sync cb ra s = Some s'" "get_fd_nosync s' pid fd = Some r"
    using assms(3) by (auto simp: get_fd_def split: option.splits)
  have "ring_idle s'" using lifecycle_sync_idles [OF _ assms(2) _ s(1)] assms(1) by (simp add: io_ok_def)
  moreover have "io_inv s'" using lifecycle_sync_inv [OF _ assms(2) s(1)] assms(1) by (simp add: io_ok_def)
  ultimately show "io_ok s'" "ring_idle s'" by (simp_all add: io_ok_def ring_idle_def)
  show "r = Some i \<Longrightarrow> fds s' i \<noteq> None" using s(2) by (auto elim: get_fd_nosync_exists)
  show "get_fd_nosync s' pid fd = Some r" by (rule s(2))
qed

lemma upd_file_flags_inv: "io_inv s \<Longrightarrow> io_inv (upd_file n (\<lambda>p. p\<lparr>fflags := x\<rparr>) s)"
proof -
  have "file_arrays (upd_file n (\<lambda>p. p\<lparr>fflags := x\<rparr>) s) = file_arrays s"
    by (auto simp: file_arrays_def upd_file_def fun_eq_iff option.map_comp comp_def)
  then show "io_inv s \<Longrightarrow> io_inv (upd_file n (\<lambda>p. p\<lparr>fflags := x\<rparr>) s)"
    by (auto simp: io_inv_def io_inv_ex_def links_ok_def upd_file_def client_arrays_def [abs_def] client_pos_def [abs_def]
      file_pos_def [abs_def] fd_core_def [abs_def] tables_def [abs_def])
qed

lemma upd_client_misc_inv:
  assumes "\<And>c. chandles (g c) = chandles c" "\<And>c. fd_table (g c) = fd_table c"
  shows "io_inv (upd_client p g s) = io_inv s"
proof -
  have "client_arrays (upd_client p g s) = client_arrays s" "tables (upd_client p g s) = tables s"
    using assms by (auto simp: client_arrays_def tables_def upd_client_def fun_eq_iff option.map_comp comp_def)
  then show ?thesis
    by (simp add: io_inv_def io_inv_ex_def links_ok_def upd_client_def file_arrays_def [abs_def] client_pos_def [abs_def]
      file_pos_def [abs_def] fd_core_def [abs_def])
qed

text \<open>Changing the flags of a handle that keeps its private flags.\<close>

lemma upd_fd_flags_inv:
  assumes inv: "io_inv s" and f: "fds s i = Some f"
    and same: "has_flag fl IOD_SHADOW = has_flag (fd_flags f) IOD_SHADOW"
      "has_flag fl IOD_TRANSFER = has_flag (fd_flags f) IOD_TRANSFER"
  shows "io_inv (upd_fd i (\<lambda>f. f\<lparr>fd_flags := fl\<rparr>) s)"
proof -
  let ?s = "upd_fd i (\<lambda>f. f\<lparr>fd_flags := fl\<rparr>) s"
  have v: "client_arrays ?s = client_arrays s" "client_pos ?s = client_pos s" "file_arrays ?s = file_arrays s"
    "file_pos ?s = file_pos s" "tables ?s = tables s"
    "fd_core ?s = (fd_core s)(i \<mapsto> (fd_file f, fd_owner f, fl, orig_fd f))"
    using f by (auto simp: view_defs core_of_def upd_fd_def fun_eq_iff option.map_comp comp_def)
  have Ci: "fd_core s i = Some (fd_file f, fd_owner f, fd_flags f, orig_fd f)" by (rule fd_core_Some [OF f])
  have "table_in {} (fd_core ?s) (tables ?s)"
    unfolding table_in_def v
  proof (intro allI impI)
    fix p tbl j assume a: "p \<notin> {} \<and> tables s p = Some tbl \<and> j < length tbl \<and> 0 < tbl ! j"
    obtain m fl' where "fd_core s (tbl ! j) = Some (m, p, fl', j)" "has_flag fl' IOD_SHADOW"
      using inv [unfolded io_inv_def io_inv_ex_def table_in_def] a by blast
    then show "\<exists>n fl'. ((fd_core s)(i \<mapsto> (fd_file f, fd_owner f, fl, orig_fd f))) (tbl ! j) = Some (n, p, fl', j) \<and> has_flag fl' IOD_SHADOW"
      using Ci same(1) by (cases "tbl ! j = i") auto
  qed
  moreover have "table_out (fd_core ?s) (tables ?s)"
    using inv Ci same unfolding io_inv_def io_inv_ex_def table_out_def v by (auto split: if_splits)
  moreover have "xfer_ok (fd_core ?s) (transfer_hash s)"
    using inv Ci same(2) unfolding io_inv_def io_inv_ex_def xfer_ok_def v by (auto simp: in_transfer_def)
  ultimately show ?thesis
    using inv f unfolding io_inv_def io_inv_ex_def links_ok_def v by (auto simp: upd_fd_def)
qed

lemma has_flag_cloexec_upd:
  assumes "m AND 0x10000 = 0"
  shows "has_flag ((fl AND NOT IOD_CLOEXEC) OR (x AND IOD_CLOEXEC)) m = has_flag fl m"
proof -
  have "((fl AND NOT IOD_CLOEXEC) OR (x AND IOD_CLOEXEC)) AND m = fl AND m"
  proof (rule bit_word_eqI)
    fix n
    have "\<not> (bit m n \<and> bit (0x10000 :: u32) n)"
      using arg_cong [OF assms, of "\<lambda>w. bit w n"] by (simp only: bit_and_iff bit_0_eq bot_apply bot_bool_def not_False_eq_True simp_thms)
    then show "bit (((fl AND NOT IOD_CLOEXEC) OR (x AND IOD_CLOEXEC)) AND m) n = bit (fl AND m) n"
      by (auto simp only: bit_and_iff bit_or_iff bit_not_iff dest: bit_imp_possible_bit)
  qed
  then show ?thesis by (simp add: has_flag_def)
qed

lemma blocked_ok:
  assumes "io_ok s" "add_blocker cb s i tid w = Some (n, s')"
  shows "io_ok s'"
proof (cases "cb_add_blocker cb")
  case None
  then show ?thesis
    using assms by (auto simp: io_ok_def add_blocker_def nopoll_add_blocker_def upd_client_misc_inv split: option.splits if_splits)
      (auto simp: upd_client_def)
next
  case (Some ab)
  then show ?thesis using assms by (auto simp: io_ok_def add_blocker_def split: prod.splits)
qed

lemma io_ok_irrelevant [simp]:
  "io_ok (s\<lparr>impl := a\<rparr>) = io_ok s" "io_ok (s\<lparr>rb := x\<rparr>) = io_ok s" "io_ok (s\<lparr>pokes := n\<rparr>) = io_ok s"
  "io_ok (io_set_fast_confirm s) = io_ok s" "io_ok (wr_confirm cb s sender tag w fd cnt off) = io_ok s"
  by (simp_all add: io_ok_def io_set_fast_confirm_def wr_confirm_def split: option.splits)

lemma io_impl_set_file_flags_ok:
  assumes "io_ok s" "ra_ok ra" "io_impl_set_file_flags cb ra s sender fd orm andm = Some (n, old, s')"
  shows "io_ok s'"
proof -
  obtain t where t: "io_sync cb s = Some t" using assms(3) by (auto simp: io_impl_set_file_flags_def split: option.splits)
  obtain r u where u: "get_fd cb ra t (sender_pid t sender) fd = Some (r, u)"
    using assms(3) t by (auto simp: io_impl_set_file_flags_def split: option.splits)
  have iu: "io_ok u" using get_fd_ok(1) [OF _ assms(2) u] io_sync_ok [OF assms(1) t] by blast
  have "s' = u \<or> (\<exists>m x. s' = upd_file m (\<lambda>p. p\<lparr>fflags := x\<rparr>) u)"
    using assms(3) t u by (auto simp: io_impl_set_file_flags_def split: option.splits prod.splits)
  then show ?thesis using iu upd_file_flags_inv by (auto simp: io_ok_def upd_file_def)
qed

lemma io_impl_set_handle_flags_ok:
  assumes "io_ok s" "ra_ok ra" "io_impl_set_handle_flags cb ra s sender fd orm andm = Some (n, old, s')"
  shows "io_ok s'"
proof -
  obtain t where t: "io_sync cb s = Some t" using assms(3) by (auto simp: io_impl_set_handle_flags_def split: option.splits)
  obtain r u where u: "get_fd cb ra t (sender_pid t sender) fd = Some (r, u)"
    using assms(3) t by (auto simp: io_impl_set_handle_flags_def split: option.splits)
  have iu: "io_ok u" using get_fd_ok(1) [OF _ assms(2) u] io_sync_ok [OF assms(1) t] by blast
  show ?thesis
  proof (cases r)
    case None
    then show ?thesis using assms(3) t u iu by (simp add: io_impl_set_handle_flags_def)
  next
    case (Some i)
    then obtain f where f: "fds u i = Some f" using get_fd_ok(3) [OF _ assms(2) u] io_sync_ok [OF assms(1) t] by blast
    let ?fl = "snd (new_handle_flags (fd_flags f) orm andm)"
    have "s' = upd_fd i (\<lambda>f. f\<lparr>fd_flags := ?fl\<rparr>) u"
      using assms(3) t u Some f by (simp add: io_impl_set_handle_flags_def split_beta)
    moreover have "has_flag ?fl m = has_flag (fd_flags f) m" if "m AND 0x10000 = 0" for m
      unfolding new_handle_flags_def Let_def snd_conv by (rule has_flag_cloexec_upd [OF that])
    ultimately show ?thesis
      using upd_fd_flags_inv [OF _ f, of ?fl] iu by (simp add: io_ok_def) (simp add: upd_fd_def)
  qed
qed

lemma io_impl_write_ok:
  assumes "io_ok s" "ra_ok ra" "io_impl_write cb ra s sender tag fd off buf cnt = Some (r, s')"
  shows "io_ok s'"
proof -
  obtain t where t: "io_sync cb s = Some t" using assms(3) by (auto simp: io_impl_write_def split: option.splits)
  obtain r' u where u: "get_fd cb ra t (sender_pid t sender) fd = Some (r', u)"
    using assms(3) t by (auto simp: io_impl_write_def split: option.splits)
  have iu: "io_ok u" using get_fd_ok(1) [OF _ assms(2) u] io_sync_ok [OF assms(1) t] by blast
  consider "io_ok s'" | i x n v where "add_blocker cb (u\<lparr>impl := x\<rparr>) i sender True = Some (n, v)" "s' = v"
    using assms(3) t u iu
    by (auto simp: io_impl_write_def Let_def blocked_result_def split: option.splits prod.splits if_splits)
  then show ?thesis using blocked_ok [of "u\<lparr>impl := _\<rparr>"] iu by cases auto
qed

lemma io_impl_read_ok:
  assumes "io_ok s" "ra_ok ra" "io_impl_read cb ra s sender tag fd len off = Some (r, s')"
  shows "io_ok s'"
proof -
  obtain t where t: "io_sync cb s = Some t" using assms(3) by (auto simp: io_impl_read_def split: option.splits)
  obtain r' u where u: "get_fd cb ra t (sender_pid t sender) fd = Some (r', u)"
    using assms(3) t by (auto simp: io_impl_read_def split: option.splits)
  have iu: "io_ok u" using get_fd_ok(1) [OF _ assms(2) u] io_sync_ok [OF assms(1) t] by blast
  consider "io_ok s'" | i x n v where "add_blocker cb (u\<lparr>impl := x\<rparr>) i sender False = Some (n, v)" "s' = v"
    using assms(3) t u iu
    by (auto simp: io_impl_read_def Let_def blocked_result_def split: option.splits prod.splits if_splits)
  then show ?thesis using blocked_ok [of "u\<lparr>impl := _\<rparr>"] iu by cases auto
qed

lemma io_impl_close_ok:
  assumes "io_ok s" "ra_ok ra" "io_impl_close cb ra s sender tag fd = Some (n, s')"
  shows "io_ok s'"
proof -
  obtain t where t: "io_sync cb s = Some t" "io_ok t"
    using assms(1,3) io_sync_ok by (fastforce simp: io_impl_close_def split: option.splits)
  show ?thesis
  proof (cases "fd \<le> 0")
    case True
    then show ?thesis using assms(3) t by (simp add: io_impl_close_def)
  next
    case False
    then obtain r u where u: "get_fd cb ra t (sender_pid t sender) fd = Some (r, u)"
      using assms(3) t by (auto simp: io_impl_close_def split: option.splits)
    have "io_ok u" using get_fd_ok(1) [OF t(2) assms(2) u] .
    then show ?thesis using assms(3) t u False
      by (auto simp: io_impl_close_def Let_def split: option.splits if_splits)
  qed
qed

section \<open>Duplicating and transferring handles\<close>

lemma io_add_fd_ring:
  assumes "io_ok s" "ra_ok ra" "io_add_fd cb ra s pid file flags = Some (n, s')" "0 \<le> n"
  shows "io_ok s'" "ring_idle s'" "fd_core s' (nat n) = Some (file, pid, flags, 0)" "client_hash s' pid \<noteq> None"
    "flags AND NOT IOD_CLOEXEC = 0"
proof -
  have inv: "io_inv s" "ring_ok (ring s)" using assms(1) by (auto simp: io_ok_def)
  obtain t where t: "io_get_client cb ra s pid True = Some (True, t)"
      "fd_core s' = (fd_core t)(nat n \<mapsto> (file, pid, flags, 0))" "rest s' = rest t"
      "flags AND NOT IOD_CLOEXEC = 0" and iv: "io_inv s'"
    using io_add_fd_Some [OF inv(1) assms(2,3)] assms(4) by blast
  have "ring_idle t" by (rule io_get_client_ring [OF inv(1) assms(2) inv(2) t(1)])
  then show "ring_idle s'" using rest_ring [OF t(3)] by (simp add: ring_idle_def)
  then show "io_ok s'" using iv by (simp add: io_ok_def ring_idle_def)
  show c: "fd_core s' (nat n) = Some (file, pid, flags, 0)" using t(2) by simp
  obtain f where f: "fds s' (nat n) = Some f" "fd_owner f = pid" using c by (auto simp: fd_core_def core_of_def)
  have "links_ok s'" using iv by (simp add: io_inv_def io_inv_ex_def)
  then show "client_hash s' pid \<noteq> None" using f by (auto elim: client_arrays_nth)
  show "flags AND NOT IOD_CLOEXEC = 0" by (rule t(4))
qed

lemma has_flag_or: "has_flag (a OR b) m \<longleftrightarrow> has_flag a m \<or> has_flag b m"
  unfolding has_flag_def bit.conj_disj_distrib2 by (simp add: or_eq_0_iff)

lemma has_flag_and: "has_flag (a AND b) m \<Longrightarrow> has_flag a m"
proof -
  have "(a AND b) AND m = (a AND m) AND b" by (simp only: and.assoc and.commute [of b])
  then show "has_flag (a AND b) m \<Longrightarrow> has_flag a m" unfolding has_flag_def by (metis and_zero_eq and.commute)
qed

text \<open>Marking a handle for transfer together with recording the transfer.\<close>

lemma mark_transfer_inv:
  assumes inv: "io_inv s" and f: "fds s n = Some f" "\<not> has_flag (fd_flags f) IOD_SHADOW" "\<not> has_flag (fd_flags f) IOD_TRANSFER"
  shows "io_inv (upd_fd n (\<lambda>g. g\<lparr>fd_flags := fd_flags g OR IOD_TRANSFER\<rparr>) (s\<lparr>transfer_hash := transfer_hash s @ [(n, q)]\<rparr>))"
    (is "io_inv ?s")
proof -
  let ?fl = "fd_flags f OR IOD_TRANSFER"
  have fl: "has_flag ?fl IOD_TRANSFER" "\<not> has_flag ?fl IOD_SHADOW"
    using f(2) unfolding has_flag_or by (simp_all add: has_flag_def)
  have v: "client_arrays ?s = client_arrays s" "client_pos ?s = client_pos s" "file_arrays ?s = file_arrays s"
    "file_pos ?s = file_pos s" "tables ?s = tables s" "transfer_hash ?s = transfer_hash s @ [(n, q)]"
    "fd_core ?s = (fd_core s)(n \<mapsto> (fd_file f, fd_owner f, ?fl, orig_fd f))"
    using f by (auto simp: view_defs core_of_def upd_fd_def fun_eq_iff option.map_comp comp_def)
  have Cn: "fd_core s n = Some (fd_file f, fd_owner f, fd_flags f, orig_fd f)" by (rule fd_core_Some [OF f(1)])
  have "table_in {} (fd_core ?s) (tables ?s)"
    unfolding table_in_def v
  proof (intro allI impI)
    fix p tbl j assume a: "p \<notin> {} \<and> tables s p = Some tbl \<and> j < length tbl \<and> 0 < tbl ! j"
    obtain m fl' where "fd_core s (tbl ! j) = Some (m, p, fl', j)" "has_flag fl' IOD_SHADOW"
      using inv [unfolded io_inv_def io_inv_ex_def table_in_def] a by blast
    then show "\<exists>m fl'. ((fd_core s)(n \<mapsto> (fd_file f, fd_owner f, ?fl, orig_fd f))) (tbl ! j) = Some (m, p, fl', j) \<and> has_flag fl' IOD_SHADOW"
      using Cn f(2) by (cases "tbl ! j = n") auto
  qed
  moreover have "table_out (fd_core ?s) (tables ?s)"
    using inv fl unfolding io_inv_def io_inv_ex_def table_out_def v by (auto split: if_splits)
  moreover have "xfer_ok (fd_core ?s) (transfer_hash ?s)"
  proof -
    have x: "xfer_ok (fd_core s) (transfer_hash s)" using inv by (simp add: io_inv_def io_inv_ex_def)
    have "n \<notin> fst ` set (transfer_hash s)" using x Cn f(3) by (simp add: xfer_ok_def in_transfer_def)
    then show ?thesis using x fl(1) unfolding v xfer_ok_def by (auto simp: in_transfer_def)
  qed
  ultimately show ?thesis
    using inv f unfolding io_inv_def io_inv_ex_def links_ok_def v by (auto simp: upd_fd_def)
qed

lemma res_if_ok:
  assumes "(if b then res_ok s else (True, s)) = (ok, t)" "io_ok s"
  shows "io_ok t" "fds t = fds s" "client_hash t = client_hash s" "io_files t = io_files s" "fd_core t = fd_core s"
    "ring t = ring s"
  using assms res_ok_inv [of s ok t] res_ok_sel [of s ok t]
  by (auto simp: io_ok_def fd_core_def fun_eq_iff split: if_splits)

text \<open>
  The outcome of a duplication: on success a new handle on the same file, marked for transfer
  exactly if there is a receiver; on failure the state is still well-formed.
\<close>

definition dup_result :: "'s io \<Rightarrow> u16 \<Rightarrow> nat \<Rightarrow> int \<Rightarrow> int \<Rightarrow> bool" where
  "dup_result s pid file newfd q \<longleftrightarrow> (\<exists>g. fds s (nat newfd) = Some g \<and> fd_file g = file \<and> fd_owner g = pid
     \<and> has_flag (fd_flags g) IOD_TRANSFER = (0 \<le> q) \<and> \<not> has_flag (fd_flags g) IOD_SHADOW
     \<and> (0 \<le> q \<longrightarrow> (nat newfd, q) \<in> set (transfer_hash s)))"

lemma dup_finish_ok:
  assumes ok: "io_ok s" and f: "fds s (nat n) = Some f" "\<not> has_flag (fd_flags f) IOD_SHADOW" "\<not> has_flag (fd_flags f) IOD_TRANSFER"
    and r: "dup_finish cb s sender tag n q = Some (m, newfd, s')"
  shows "io_ok s' \<and> (m = 0 \<longrightarrow> newfd = n \<and> dup_result s' (fd_owner f) (fd_file f) newfd q)"
proof -
  obtain ok1 t where t: "(if 0 \<le> q then res_ok s else (True, s)) = (ok1, t)" by (metis surj_pair)
  note t' = res_if_ok [OF t ok]
  have ft: "fds t (nat n) = Some f" using t'(2) f(1) by simp
  show ?thesis
  proof (cases ok1)
    case False
    then obtain k where k: "fd_dtor cb t (nat n) False = Some (k, s')" "m = - ENOMEM"
      using r t by (auto simp: dup_finish_def)
    have L: "links_ok t" and it: "io_inv_ex {} t" using t'(1) by (auto simp: io_ok_def io_inv_def io_inv_ex_def)
    have e: "dtor_effect t (nat n) False f s'" using fd_dtor_ok [OF L ft, of cb False] k(1) by auto
    have "io_inv_ex {} s'"
      by (rule dtor_inv [OF it ft e]) (rule core_owner_unshadowed [OF it ft], use f(2) in auto)
    moreover have "ring s' = ring t" using e by (simp add: dtor_effect_def rest_def)
    ultimately show ?thesis using t'(1) k(2) by (simp add: io_ok_def io_inv_def)
  next
    case True
    let ?u = "if 0 \<le> q then upd_fd (nat n) (\<lambda>g. g\<lparr>fd_flags := fd_flags g OR IOD_TRANSFER\<rparr>)
               (t\<lparr>transfer_hash := transfer_hash t @ [(nat n, q)]\<rparr>) else t"
    have s': "s' = ?u\<lparr>rb := set_rollback (Late_Close (nat n)) sender tag (rb ?u)\<rparr>" "m = 0" "newfd = n"
      using r t True by (auto simp: dup_finish_def Let_def)
    have "io_ok ?u"
      using mark_transfer_inv [OF _ ft f(2,3), of q] t'(1) by (simp add: io_ok_def) (simp add: upd_fd_def)
    moreover have "\<not> has_flag (fd_flags f OR IOD_TRANSFER) IOD_SHADOW" "has_flag (fd_flags f OR IOD_TRANSFER) IOD_TRANSFER"
      using f(2) unfolding has_flag_or by (simp_all add: has_flag_def)
    ultimately show ?thesis using s' f ft by (auto simp: dup_result_def upd_fd_def)
  qed
qed

lemma dup_add_ok:
  assumes ok: "io_ok s" and ra: "ra_ok ra" and r: "dup_add cb ra s sender tag pid file h q = Some (m, newfd, s')"
  shows "io_ok s' \<and> (m = 0 \<longrightarrow> dup_result s' pid file newfd q)"
proof -
  obtain n t where t: "io_add_fd cb ra s pid file h = Some (n, t)" using r by (auto simp: dup_add_def split: option.splits)
  have inv: "io_inv s" "ring_ok (ring s)" using ok by (auto simp: io_ok_def)
  show ?thesis
  proof (cases "n < 0")
    case True
    have "ring_ok (ring t)" using t inv True io_get_client_ring [OF inv(1) ra inv(2)]
      by (auto simp: io_add_fd_def ring_idle_def split: if_splits option.splits bool.splits)
    then show ?thesis using r t True io_add_fd_Some [OF inv(1) ra t] by (auto simp: dup_add_def io_ok_def)
  next
    case False
    note a = io_add_fd_ring [OF ok ra t]
    obtain f where f: "fds t (nat n) = Some f" "fd_file f = file" "fd_owner f = pid" "fd_flags f = h"
      using a(3) False by (auto simp: fd_core_def core_of_def)
    have "io_get_client cb ra t pid False = Some (True, t)" using a False by (intro io_get_client_idle) auto
    then have "dup_finish cb t sender tag n q = Some (m, newfd, s')" using r t False f by (auto simp: dup_add_def split: if_splits)
    from dup_finish_ok [OF a(1) f(1) _ _ this] a(5) False cloexec_only [of h] f show ?thesis by auto
  qed
qed

lemma internal_dup_ok:
  assumes ok: "io_ok s" and ra: "ra_ok ra"
    and r: "internal_dup cb ra s sender tag oldfd q flags = Some (m, newfd, s')"
  shows "io_ok s' \<and> (m = 0 \<longrightarrow> (\<exists>i f t. get_fd cb ra s (sender_pid s sender) oldfd = Some (Some i, t)
     \<and> fds t i = Some f \<and> dup_result s' (sender_pid s sender) (fd_file f) newfd q))"
proof (cases "flags AND NOT 1 = 0")
  case False
  then show ?thesis using r ok by (simp add: internal_dup_def)
next
  case fl: True
  let ?pid = "sender_pid s sender"
  obtain r0 t where t: "get_fd cb ra s ?pid oldfd = Some (r0, t)"
    using r fl by (auto simp: internal_dup_def Let_def split: option.splits)
  note tok = get_fd_ok [OF ok ra t]
  show ?thesis
  proof (cases r0)
    case None
    then show ?thesis using r fl t tok by (simp add: internal_dup_def)
  next
    case (Some i)
    then obtain f where f: "fds t i = Some f" using tok(3) by blast
    obtain ok1 u where u: "(if 0 \<le> q then res_ok t else (True, t)) = (ok1, u)" by (metis surj_pair)
    note uok = res_if_ok [OF u tok(1)]
    consider "m \<noteq> 0" "s' = t \<or> s' = u"
      | "dup_add cb ra u sender tag ?pid (fd_file f) (dup_handle_flags (fd_flags f) flags) q = Some (m, newfd, s')"
      using r fl t Some f u by (auto simp: internal_dup_def Let_def split: if_splits)
    then show ?thesis
    proof cases
      case 1
      then show ?thesis using tok uok by auto
    next
      case 2
      from dup_add_ok [OF uok(1) ra 2] t Some f show ?thesis by blast
    qed
  qed
qed

text \<open>Moving a handle marked for transfer to another client.\<close>

lemma touch_move_links:
  assumes L: "links_ok s" and f: "fds s i = Some f" and p: "client_hash s pid \<noteq> None"
  obtains s' where "touch_move s pid i f = Some (0, s')" "links_ok s'"
    "fd_core s' = (fd_core s)(i \<mapsto> (fd_file f, pid, fd_flags f AND NOT IOD_TRANSFER, orig_fd f))"
    "tables s' = tables s" "transfer_hash s' = transfer_hash s" "rest s' = rest s" "io_files s' = io_files s"
proof -
  obtain t c ys where t: "detach_client s f = Some t"
    "client_hash s (fd_owner f) = Some c" "darray_remove_fast (chandles c) (client_ix f) = Some ys"
    "client_hash t = (client_hash s)(fd_owner f \<mapsto> c\<lparr>chandles := ys\<rparr>)"
    "client_pos t = (if last (chandles c) = i then client_pos s
       else (client_pos s)(last (chandles c) \<mapsto> (fd_owner f, client_ix f)))"
    "file_pos t = file_pos s" "fd_core t = fd_core s" "fds t i = Some f"
    "io_files t = io_files s" "transfer_hash t = transfer_hash s" "impl t = impl s" "rest t = rest s"
    using L f by (rule detach_client_ok)
  obtain d where d: "client_hash t pid = Some d" using t(2,4) p by (cases "pid = fd_owner f") auto
  let ?g = "\<lambda>g. g\<lparr>fd_owner := pid, client_ix := length (chandles d), fd_flags := fd_flags g AND NOT IOD_TRANSFER\<rparr>"
  let ?s' = "upd_client pid (\<lambda>c. c\<lparr>chandles := chandles c @ [i]\<rparr>) (upd_fd i ?g t)"
  have lc: "link_ok (client_arrays s) (client_pos s)" and lf: "link_ok (file_arrays s) (file_pos s)"
    using L by (auto simp: links_ok_def)
  have Pi: "client_pos s i = Some (fd_owner f, client_ix f)" using f by (simp add: client_pos_def)
  have "link_ok ((client_arrays s)(fd_owner f \<mapsto> ys)) (((client_pos s)(last (chandles c) \<mapsto> (fd_owner f, client_ix f)))(i := None))"
    using link_remove [OF lc Pi _ t(3)] t(2) by (simp add: client_arrays_def)
  moreover have "client_arrays t = (client_arrays s)(fd_owner f \<mapsto> ys)"
    using t(4) by (auto simp: client_arrays_def fun_eq_iff)
  moreover have "(client_pos t)(i := None) = ((client_pos s)(last (chandles c) \<mapsto> (fd_owner f, client_ix f)))(i := None)"
    unfolding t(5) by auto
  ultimately have "link_ok (client_arrays t) ((client_pos t)(i := None))" by simp
  from link_push [OF this, of pid "chandles d" i] d
  have "link_ok ((client_arrays t)(pid \<mapsto> chandles d @ [i])) ((client_pos t)(i \<mapsto> (pid, length (chandles d))))"
    by (simp add: client_arrays_def)
  moreover have "client_arrays ?s' = (client_arrays t)(pid \<mapsto> chandles d @ [i])"
    "client_pos ?s' = (client_pos t)(i \<mapsto> (pid, length (chandles d)))" "file_pos ?s' = file_pos t"
    "file_arrays ?s' = file_arrays t"
    "fd_core ?s' = (fd_core t)(i \<mapsto> (fd_file f, pid, fd_flags f AND NOT IOD_TRANSFER, orig_fd f))"
    "tables ?s' = tables t"
    using d t(8) by (auto simp: view_defs core_of_def upd_client_def upd_fd_def fun_eq_iff)
  moreover have "tables t = tables s" using t(2,4) by (auto simp: tables_def fun_eq_iff)
  moreover have "file_arrays t = file_arrays s" by (rule view_cong(3) [OF t(9)])
  ultimately show thesis
    using t lf d by (intro that [of ?s']) (auto simp: touch_move_def links_ok_def upd_client_def upd_fd_def rest_def)
qed

lemma touch_move_inv:
  assumes inv: "io_inv (s\<lparr>transfer_hash := th\<rparr>)" and f: "fds s i = Some f" "has_flag (fd_flags f) IOD_TRANSFER"
    and th: "(i, q) \<in> set th" "transfer_hash s = remove1 (i, q) th" and p: "client_hash s pid \<noteq> None"
  shows "\<exists>s'. touch_move s pid i f = Some (0, s') \<and> io_inv s' \<and> rest s' = rest s
     \<and> fd_core s' = (fd_core s)(i \<mapsto> (fd_file f, pid, fd_flags f AND NOT IOD_TRANSFER, orig_fd f))"
proof -
  let ?s = "s\<lparr>transfer_hash := th\<rparr>"
  have v: "client_arrays ?s = client_arrays s" "client_pos ?s = client_pos s" "file_arrays ?s = file_arrays s"
    "file_pos ?s = file_pos s" "fd_core ?s = fd_core s" "tables ?s = tables s"
    by (simp_all add: view_defs fun_eq_iff)
  have inv': "links_ok s" "table_in {} (fd_core s) (tables s)" "table_out (fd_core s) (tables s)"
    "xfer_ok (fd_core s) th" "\<forall>i. fds s i \<noteq> None \<longrightarrow> 0 < i \<and> i \<le> MAX_FD"
    "\<forall>n \<ge> next_file s. io_files s n = None" using inv unfolding io_inv_def io_inv_ex_def links_ok_def v by auto
  have Ci: "fd_core s i = Some (fd_file f, fd_owner f, fd_flags f, orig_fd f)" by (rule fd_core_Some [OF f(1)])
  have ns: "\<not> has_flag (fd_flags f) IOD_SHADOW" using inv'(3) Ci f(2) unfolding table_out_def by blast
  let ?fl = "fd_flags f AND NOT IOD_TRANSFER"
  have fl: "\<not> has_flag ?fl IOD_TRANSFER" "\<not> has_flag ?fl IOD_SHADOW"
    using ns has_flag_and [of "fd_flags f" "NOT IOD_TRANSFER" IOD_SHADOW] by (auto simp: has_flag_def and.assoc)
  obtain s' where s': "touch_move s pid i f = Some (0, s')" "links_ok s'"
    "fd_core s' = (fd_core s)(i \<mapsto> (fd_file f, pid, ?fl, orig_fd f))"
    "tables s' = tables s" "transfer_hash s' = transfer_hash s" "rest s' = rest s" "io_files s' = io_files s"
    using inv'(1) f(1) p by (rule touch_move_links)
  have "table_in {} (fd_core s') (tables s')"
    unfolding table_in_def s'(3,4)
  proof (intro allI impI)
    fix p tbl j assume a: "p \<notin> {} \<and> tables s p = Some tbl \<and> j < length tbl \<and> 0 < tbl ! j"
    obtain m fl' where "fd_core s (tbl ! j) = Some (m, p, fl', j)" "has_flag fl' IOD_SHADOW"
      using inv'(2) [unfolded table_in_def] a by blast
    then show "\<exists>m fl'. ((fd_core s)(i \<mapsto> (fd_file f, pid, ?fl, orig_fd f))) (tbl ! j) = Some (m, p, fl', j) \<and> has_flag fl' IOD_SHADOW"
      using Ci ns by (cases "tbl ! j = i") auto
  qed
  moreover have "table_out (fd_core s') (tables s')"
    using inv'(3) fl(2) unfolding table_out_def s'(3,4) by (auto split: if_splits)
  moreover have "xfer_ok (fd_core s') (transfer_hash s')"
  proof -
    have d: "distinct (map fst th)" and x: "\<And>k. k \<in> fst ` set th \<longleftrightarrow> (\<exists>d. fd_core s k = Some d \<and> in_transfer d)"
      using inv'(4) by (auto simp: xfer_ok_def)
    have dth: "distinct th" using d by (simp add: distinct_map)
    have rm: "k \<in> fst ` set (remove1 (i, q) th) \<longleftrightarrow> k \<noteq> i \<and> k \<in> fst ` set th" for k
    proof -
      have "q' = q" if "(i, q') \<in> set th" for q'
        using d that th(1) by (metis eq_key_imp_eq_value)
      then show ?thesis using dth by (force simp: set_remove1_eq)
    qed
    have "distinct (map fst (remove1 (i, q) th))"
      using d by (metis distinct_map inj_on_subset set_remove1_subset dth distinct_remove1)
    then show ?thesis
      unfolding xfer_ok_def s'(3,5) th(2) using rm x fl(1) by (auto simp: in_transfer_def)
  qed
  moreover have "\<forall>k. fds s' k \<noteq> None \<longrightarrow> 0 < k \<and> k \<le> MAX_FD"
  proof (intro allI impI)
    fix k assume "fds s' k \<noteq> None"
    then have "fd_core s' k \<noteq> None" by simp
    then have "fds s k \<noteq> None" using f(1) unfolding s'(3) by (cases "k = i") auto
    then show "0 < k \<and> k \<le> MAX_FD" using inv'(5) by blast
  qed
  moreover have "next_file s' = next_file s" using s'(6) by (simp add: rest_def)
  ultimately show ?thesis using s' inv'(6) by (simp add: io_inv_def io_inv_ex_def)
qed

lemma io_impl_touch_ok:
  assumes ok: "io_ok s" and ra: "ra_ok ra" and r: "io_impl_touch cb ra s sender newfd = Some (n, s')"
  shows "io_ok s' \<and> (n = 0 \<longrightarrow> (\<exists>g. fds s' (nat newfd) = Some g \<and> fd_owner g = sender_pid s sender
     \<and> \<not> has_flag (fd_flags g) IOD_TRANSFER))"
proof -
  obtain t where t: "io_sync cb s = Some t" using r by (auto simp: io_impl_touch_def split: option.splits)
  have tok: "io_ok t" "sender_pid t sender = sender_pid s sender"
    using io_sync_ok [OF ok t] by (auto simp: sender_pid_def)
  let ?pid = "sender_pid s sender"
  obtain b u where u: "io_get_client cb ra t ?pid True = Some (b, u)"
    using r t tok by (auto simp: io_impl_touch_def Let_def split: option.splits)
  have uok: "io_inv u" "b \<longrightarrow> client_hash u ?pid \<noteq> None" "ring_ok (ring u)"
    using io_get_client_inv [OF _ ra u] io_get_client_ring [OF _ ra _ u] tok(1) by (auto simp: io_ok_def ring_idle_def)
  show ?thesis
  proof (cases "b \<and> find (\<lambda>xf. int (fst xf) = newfd \<and> transfer_match xf ?pid) (transfer_hash u) \<noteq> None")
    case False
    then have "s' = u \<and> n \<noteq> 0"
      using r t u tok(2)
      by (cases b; cases "find (\<lambda>xf. int (fst xf) = newfd \<and> transfer_match xf ?pid) (transfer_hash u)")
        (auto simp: io_impl_touch_def Let_def)
    then show ?thesis using uok by (simp add: io_ok_def)
  next
    case True
    then obtain i q where xf: "find (\<lambda>xf. int (fst xf) = newfd \<and> transfer_match xf ?pid) (transfer_hash u) = Some (i, q)"
      by auto
    then obtain k where k: "k < length (transfer_hash u)" "int (fst (transfer_hash u ! k)) = newfd" "(i, q) = transfer_hash u ! k"
      unfolding find_Some_iff by blast
    have iq: "(i, q) \<in> set (transfer_hash u)" "int i = newfd" using k by (metis nth_mem, metis fst_conv)
    let ?v = "u\<lparr>transfer_hash := remove1 (i, q) (transfer_hash u)\<rparr>"
    have "xfer_ok (fd_core u) (transfer_hash u)" using uok(1) by (simp add: io_inv_def io_inv_ex_def)
    moreover have "i \<in> fst ` set (transfer_hash u)" using iq(1) by force
    ultimately obtain d where "fd_core u i = Some d" "in_transfer d" by (auto simp: xfer_ok_def)
    then obtain f where f: "fds u i = Some f" "has_flag (fd_flags f) IOD_TRANSFER"
      by (auto simp: fd_core_def core_of_def in_transfer_def)
    have uv: "u = ?v\<lparr>transfer_hash := transfer_hash u\<rparr>" by simp
    obtain s'' where s'': "touch_move ?v ?pid i f = Some (0, s'')" "io_inv s''" "rest s'' = rest ?v"
      "fd_core s'' = (fd_core ?v)(i \<mapsto> (fd_file f, ?pid, fd_flags f AND NOT IOD_TRANSFER, orig_fd f))"
      using touch_move_inv [of "transfer_hash u" ?v i f q ?pid] uok f iq True by auto
    have "n = 0 \<and> s' = s''"
      using r t u tok(2) True xf f s''(1) by (auto simp: io_impl_touch_def Let_def)
    moreover have "ring s'' = ring u" using s''(3) by (simp add: rest_def)
    moreover have "\<not> has_flag (fd_flags f AND NOT IOD_TRANSFER) IOD_TRANSFER"
      by (simp add: has_flag_def and.assoc)
    ultimately show ?thesis
      using s''(2,4) uok(3) iq(2) by (auto simp: io_ok_def fd_core_def core_of_def dest!: fun_cong [of _ _ i])
  qed
qed

lemma iof_new_ok:
  assumes "io_ok s" "iof_new s flags = (n, s')"
  shows "io_ok s'"
proof -
  obtain b t where t: "res_ok s = (b, t)" by (metis surj_pair)
  have it: "io_inv t" "ring t = ring s" using res_ok_inv [OF t] res_ok_sel [OF t] assms(1) by (auto simp: io_ok_def)
  let ?u = "t\<lparr>io_files := (io_files t)(next_file t \<mapsto> \<lparr>fhandles = [], fflags = 0\<rparr>), next_file := Suc (next_file t)\<rparr>"
  have v: "client_arrays ?u = client_arrays t" "client_pos ?u = client_pos t"
    "file_arrays ?u = (file_arrays t)(next_file t \<mapsto> [])" "file_pos ?u = file_pos t"
    "fd_core ?u = fd_core t" "tables ?u = tables t"
    by (auto simp: view_defs fun_eq_iff)
  have nf: "file_arrays t (next_file t) = None" using it(1) by (simp add: io_inv_def io_inv_ex_def file_arrays_def)
  have "links_ok ?u"
    using it(1) link_new_holder [of "file_arrays t" "file_pos t" "next_file t"] nf unfolding io_inv_def io_inv_ex_def links_ok_def v by simp
  then have "io_inv ?u" using it(1) unfolding io_inv_def io_inv_ex_def v by auto
  then show ?thesis using assms it t by (auto simp: iof_new_def io_ok_def Let_def split: if_splits)
qed

text \<open>
  Undoing the creation of a file whose handles are all original ones: the loop destroys them
  and the file.
\<close>

lemma iof_undo_loop_ok:
  assumes "io_inv s" "io_files s file = Some p" "length (fhandles p) \<le> n"
    "\<And>i f. fds s i = Some f \<Longrightarrow> fd_file f = file \<Longrightarrow> \<not> has_flag (fd_flags f) IOD_SHADOW"
  shows "\<exists>s' p'. iof_undo_loop cb s file n = Some s' \<and> io_inv s' \<and> io_files s' file = Some p' \<and> fhandles p' = []
     \<and> rest s' = rest s \<and> (\<forall>i. fd_core s' i = (case fd_core s i of None \<Rightarrow> None
         | Some d \<Rightarrow> if fst d = file then None else Some d))"
  using assms
proof (induction n arbitrary: s p)
  case 0
  then have e: "fhandles p = []" by simp
  have "fd_file f \<noteq> file" if "fds s i = Some f" for i f
    using that e "0.prems"(1,2) by (auto simp: io_inv_def io_inv_ex_def elim: file_arrays_nth)
  then show ?case using "0.prems" e
    by (auto simp: iof_undo_loop.simps [of _ s] fd_core_def core_of_def split: option.splits)
next
  case (Suc n)
  have L: "links_ok s" and inv: "io_inv_ex {} s" using Suc.prems(1) by (auto simp: io_inv_def io_inv_ex_def)
  show ?case
  proof (cases "fhandles p")
    case Nil
    have "fd_file f \<noteq> file" if "fds s i = Some f" for i f
      using that Nil Suc.prems(2) L by (auto elim: file_arrays_nth)
    then show ?thesis using Suc.prems Nil
      by (auto simp: iof_undo_loop.simps [of _ s] fd_core_def core_of_def split: option.splits)
  next
    case (Cons h hs)
    obtain f where f: "fds s h = Some f" "fd_file f = file"
      using file_handle_exists [OF L Suc.prems(2), of 0] Cons by auto
    obtain m t where t: "fd_dtor cb s h False = Some (m, t)" "dtor_effect s h False f t"
      using fd_dtor_ok [OF L f(1)] by blast
    have it: "io_inv_ex {} t"
      by (rule dtor_inv [OF inv f(1) t(2)])
        (rule core_owner_unshadowed [OF inv f(1)], use Suc.prems(4) [OF f] in auto)
    have C: "fd_core t = (fd_core s)(h := None)" "rest t = rest s" using t(2) by (auto simp: dtor_effect_def)
    have "map_option length (file_arrays t file) = Some (length (fhandles p) - 1)"
      using t(2) f(2) Suc.prems(2) by (auto simp: dtor_effect_def file_arrays_def fun_eq_iff comp_def)
    then obtain p' where p': "io_files t file = Some p'" "length (fhandles p') = length (fhandles p) - 1"
      by (auto simp: file_arrays_def)
    have ns: "\<not> has_flag (fd_flags g) IOD_SHADOW" if g: "fds t i = Some g" "fd_file g = file" for i g
    proof -
      have "fd_core s i = Some (core_of g)" using g(1) C(1) fd_core_Some [OF g(1)]
        by (cases "i = h") (auto simp: core_of_def)
      then obtain g' where "fds s i = Some g'" "core_of g' = core_of g" by (auto simp: fd_core_def)
      then show ?thesis using Suc.prems(4) [of i g'] g(2) by (auto simp: core_of_def)
    qed
    have "length (fhandles p') \<le> n" using p'(2) Suc.prems(3) by simp
    then have "\<exists>s' p''. iof_undo_loop cb t file n = Some s' \<and> io_inv s' \<and> io_files s' file = Some p'' \<and> fhandles p'' = []
       \<and> rest s' = rest t \<and> (\<forall>i. fd_core s' i = (case fd_core t i of None \<Rightarrow> None
           | Some d \<Rightarrow> if fst d = file then None else Some d))"
      by (intro Suc.IH) (use it p'(1) ns in \<open>auto simp: io_inv_def\<close>)
    then obtain s' p'' where s': "iof_undo_loop cb t file n = Some s'" "io_inv s'"
      "io_files s' file = Some p''" "fhandles p'' = []" "rest s' = rest t"
      "\<forall>i. fd_core s' i = (case fd_core t i of None \<Rightarrow> None | Some d \<Rightarrow> if fst d = file then None else Some d)"
      by blast
    have "iof_undo_loop cb s file (Suc n) = Some s'"
      using Suc.prems(2) Cons t(1) s'(1) by (simp add: iof_undo_loop.simps [of _ s])
    moreover have "fd_core s' i = (case fd_core s i of None \<Rightarrow> None | Some d \<Rightarrow> if fst d = file then None else Some d)" for i
      using s'(6) C(1) fd_core_Some [OF f(1)] f(2) by (cases "i = h") auto
    ultimately show ?thesis using s'(2-5) C(2) by auto
  qed
qed

lemma iof_undo_new_ok:
  assumes "io_ok s" "io_files s file = Some p"
    "\<And>i f. fds s i = Some f \<Longrightarrow> fd_file f = file \<Longrightarrow> \<not> has_flag (fd_flags f) IOD_SHADOW"
  shows "\<exists>s'. iof_undo_new cb s (Some file) = Some s' \<and> io_ok s' \<and> io_files s' file = None
     \<and> (\<forall>i. fd_core s' i = (case fd_core s i of None \<Rightarrow> None | Some d \<Rightarrow> if fst d = file then None else Some d))"
proof -
  have inv: "io_inv s" using assms(1) by (simp add: io_ok_def)
  have "\<exists>t p'. iof_undo_loop cb s file (length (fhandles p)) = Some t \<and> io_inv t \<and> io_files t file = Some p' \<and> fhandles p' = []
     \<and> rest t = rest s \<and> (\<forall>i. fd_core t i = (case fd_core s i of None \<Rightarrow> None
         | Some d \<Rightarrow> if fst d = file then None else Some d))"
    by (rule iof_undo_loop_ok [OF inv assms(2) order_refl assms(3)])
  then obtain t p' where t: "iof_undo_loop cb s file (length (fhandles p)) = Some t" "io_inv t"
    "io_files t file = Some p'" "fhandles p' = []" "rest t = rest s"
    "\<forall>i. fd_core t i = (case fd_core s i of None \<Rightarrow> None | Some d \<Rightarrow> if fst d = file then None else Some d)"
    by blast
  let ?s' = "t\<lparr>io_files := (io_files t)(file := None)\<rparr>"
  have v: "client_arrays ?s' = client_arrays t" "client_pos ?s' = client_pos t"
    "file_arrays ?s' = (file_arrays t)(file := None)" "file_pos ?s' = file_pos t"
    "fd_core ?s' = fd_core t" "tables ?s' = tables t"
    by (auto simp: view_defs fun_eq_iff)
  have "links_ok ?s'"
    using t(2-4) link_del_holder [of "file_arrays t" "file_pos t" "file"]
    unfolding io_inv_def io_inv_ex_def links_ok_def v by (simp add: file_arrays_def)
  then have "io_inv ?s'" using t(2) unfolding io_inv_def io_inv_ex_def v by auto
  moreover have "ring ?s' = ring s" using t(5) by (simp add: rest_def)
  ultimately show ?thesis
    using t assms(1,2) v by (auto simp: iof_undo_new_def file_dtor_def io_ok_def)
qed

section \<open>Reachable states\<close>

text \<open>
  The steps of a server: the calls of clients, what an implementation does through the
  implementor's interface, event arrival and returns of the dispatcher.  Two things the code
  allows are not steps: an event that arrives when the ring is full, after which the next lookup
  aborts or, if another event comes first, the ring looks empty (\<open>lifecycle_overflow_forgotten\<close>); and the undoing
  of a new file that a child has inherited already, through a fork event handled since the file was
  made, which leaves the child's indirection entry behind.
\<close>

inductive io_step :: "'s io_callbacks \<Rightarrow> allocator \<Rightarrow> 's io \<Rightarrow> 's io \<Rightarrow> bool" for cb ra where
  step_set_file_flags: "io_impl_set_file_flags cb ra s sender fd om am = Some (n, old, s') \<Longrightarrow> io_step cb ra s s'"
| step_set_handle_flags: "io_impl_set_handle_flags cb ra s sender fd om am = Some (n, old, s') \<Longrightarrow> io_step cb ra s s'"
| step_write: "io_impl_write cb ra s sender tag fd off buf cnt = Some (r, s') \<Longrightarrow> io_step cb ra s s'"
| step_read: "io_impl_read cb ra s sender tag fd len off = Some (r, s') \<Longrightarrow> io_step cb ra s s'"
| step_close: "io_impl_close cb ra s sender tag fd = Some (n, s') \<Longrightarrow> io_step cb ra s s'"
| step_dup: "io_impl_dup cb ra s sender tag fd flags = Some (n, fd', s') \<Longrightarrow> io_step cb ra s s'"
| step_dup_to: "io_impl_dup_to cb ra s sender tag fd q = Some (n, fd', s') \<Longrightarrow> io_step cb ra s s'"
| step_touch: "io_impl_touch cb ra s sender fd = Some (n, s') \<Longrightarrow> io_step cb ra s s'"
| step_isatty: "io_impl_isatty cb ra s sender fd = Some (n, s') \<Longrightarrow> io_step cb ra s s'"
| step_add_fd: "io_add_fd cb ra s pid file flags = Some (n, s') \<Longrightarrow> io_step cb ra s s'"
| step_iof_new: "iof_new s flags = (n, s') \<Longrightarrow> io_step cb ra s s'"
| step_iof_undo: "(\<And>i f. fds s i = Some f \<Longrightarrow> fd_file f = file \<Longrightarrow> \<not> has_flag (fd_flags f) IOD_SHADOW) \<Longrightarrow>
    iof_undo_new cb s (Some file) = Some s' \<Longrightarrow> io_step cb ra s s'"
| step_run: "io_run_step err selftest cb ra s sender tag label status = Some (Inl s') \<Longrightarrow> io_step cb ra s s'"
| step_event: "length (lc_abs (ring s)) < 127 \<Longrightarrow> io_step cb ra s (s\<lparr>ring := snd (lifecycle_handler_fn (ring s) body)\<rparr>)"

inductive io_reachable :: "'s io_callbacks \<Rightarrow> allocator \<Rightarrow> 's io \<Rightarrow> bool" for cb ra where
  io_reach_init: "length q = 128 \<Longrightarrow> io_reachable cb ra (io_init tid q a)"
| io_reach_step: "io_reachable cb ra s \<Longrightarrow> io_step cb ra s s' \<Longrightarrow> io_reachable cb ra s'"

lemma check_rollback_ok:
  assumes "io_ok s" "check_rollback err (run_action cb) status sender tag (rb s, s) = Some (y, ctx, s')"
  shows "io_ok s'"
proof -
  have run: "io_ok t" if "run_action cb a s = Some t" for a t
    using that assms(1) run_action_inv [of s cb a t] run_action_rest [of s cb a t] by (auto simp: io_ok_def rest_def)
  show ?thesis
    using assms run
    by (auto simp: check_rollback_def sync_confirm_def split: if_splits option.splits)
qed

lemma io_run_step_ok:
  assumes ok: "io_ok s" and ra: "ra_ok ra"
    and r: "io_run_step err selftest cb ra s sender tag label status = Some (Inl s')"
  shows "io_ok s'"
proof -
  obtain y ctx t where t: "(if status \<noteq> 0 then check_rollback err (run_action cb) status sender tag (rb s, s)
      else Some (False, rb s, s)) = Some (y, ctx, t)"
    using r by (auto simp: io_run_step_def split: option.splits)
  have tok: "io_ok (t\<lparr>rb := ctx\<rparr>)"
    using check_rollback_ok [OF ok] t ok by (auto split: if_splits)
  consider "s' = t\<lparr>rb := ctx\<rparr>" | u where "io_sync cb (t\<lparr>rb := ctx\<rparr>) = Some u" "lifecycle_sync cb ra u = Some s'"
    using r t by (auto simp: io_run_step_def Let_def split: if_splits option.splits)
  then show ?thesis
  proof cases
    case 2
    have "io_ok u" using io_sync_ok [OF tok 2(1)] by simp
    then show ?thesis
      using lifecycle_sync_inv [OF _ ra 2(2)] lifecycle_sync_idles [OF _ ra _ 2(2)] by (auto simp: io_ok_def ring_idle_def)
  qed (use tok in simp)
qed

lemma io_add_fd_ok:
  assumes ok: "io_ok s" and ra: "ra_ok ra" and r: "io_add_fd cb ra s pid file flags = Some (n, s')"
  shows "io_ok s'"
proof (cases "0 \<le> n")
  case True
  then show ?thesis using io_add_fd_ring [OF ok ra r] by simp
next
  case False
  have inv: "io_inv s" "ring_ok (ring s)" using ok by (auto simp: io_ok_def)
  have "ring_ok (ring s')" using r inv False io_get_client_ring [OF inv(1) ra inv(2)]
    by (auto simp: io_add_fd_def ring_idle_def split: if_splits option.splits bool.splits)
  then show ?thesis using io_add_fd_Some [OF inv(1) ra r] by (simp add: io_ok_def)
qed

lemma dup_calls_ok:
  assumes "io_ok s" "ra_ok ra"
  shows "io_impl_dup cb ra s sender tag fd flags = Some (n, fd', s') \<Longrightarrow> io_ok s'"
    "io_impl_dup_to cb ra s sender tag fd q = Some (n, fd', s') \<Longrightarrow> io_ok s'"
    "io_impl_isatty cb ra s sender fd = Some (n, s') \<Longrightarrow> io_ok s'"
proof -
  note sync = io_sync_ok [OF assms(1), of cb, THEN conjunct1]
  show "io_impl_dup cb ra s sender tag fd flags = Some (n, fd', s') \<Longrightarrow> io_ok s'"
    using internal_dup_ok [OF sync assms(2)] by (auto simp: io_impl_dup_def split: option.splits)
  show "io_impl_dup_to cb ra s sender tag fd q = Some (n, fd', s') \<Longrightarrow> io_ok s'"
    using internal_dup_ok [OF sync assms(2)] by (auto simp: io_impl_dup_to_def split: option.splits)
  show "io_impl_isatty cb ra s sender fd = Some (n, s') \<Longrightarrow> io_ok s'"
    using get_fd_ok(1) [OF sync assms(2)] by (auto simp: io_impl_isatty_def split: option.splits)
qed

lemma io_step_ok:
  assumes ra: "ra_ok ra" and st: "io_step cb ra s s'" and ok: "io_ok s"
  shows "io_ok s'"
  using st
proof cases
  case (step_iof_undo m)
  then obtain p where "io_files s m = Some p" by (auto simp: iof_undo_new_def split: option.splits)
  then have "\<exists>t. iof_undo_new cb s (Some m) = Some t \<and> io_ok t \<and> io_files t m = None
     \<and> (\<forall>i. fd_core t i = (case fd_core s i of None \<Rightarrow> None | Some d \<Rightarrow> if fst d = m then None else Some d))"
    by (rule iof_undo_new_ok [OF ok]) (rule step_iof_undo(1))
  then show ?thesis using step_iof_undo(2) by auto
next
  case (step_event body)
  then show ?thesis using ok push_ok(1) [of "ring s" body] by (simp add: io_ok_def)
next
  case step_set_file_flags
  then show ?thesis using io_impl_set_file_flags_ok [OF ok ra] by blast
next
  case step_set_handle_flags
  then show ?thesis using io_impl_set_handle_flags_ok [OF ok ra] by blast
next
  case step_write
  then show ?thesis using io_impl_write_ok [OF ok ra] by blast
next
  case step_read
  then show ?thesis using io_impl_read_ok [OF ok ra] by blast
next
  case step_close
  then show ?thesis using io_impl_close_ok [OF ok ra] by blast
next
  case step_dup
  then show ?thesis using dup_calls_ok(1) [OF ok ra] by blast
next
  case step_dup_to
  then show ?thesis using dup_calls_ok(2) [OF ok ra] by blast
next
  case step_touch
  then show ?thesis using io_impl_touch_ok [OF ok ra] by blast
next
  case step_isatty
  then show ?thesis using dup_calls_ok(3) [OF ok ra] by blast
next
  case step_add_fd
  then show ?thesis using io_add_fd_ok [OF ok ra] by blast
next
  case step_iof_new
  then show ?thesis using iof_new_ok [OF ok] by blast
next
  case step_run
  then show ?thesis using io_run_step_ok [OF ok ra] by blast
qed

lemma io_init_ok: "length q = 128 \<Longrightarrow> io_ok (io_init tid q a)"
  using lc_init_ok [of q]
  by (auto simp: io_ok_def io_init_def io_inv_def io_inv_ex_def links_ok_def link_ok_def view_defs
      table_in_def table_out_def xfer_ok_def)

end
