(* ===== verification/Io_Contracts.thy ===== *)
theory Io_Contracts
  imports Io_Calls
begin

text \<open>
  What the I/O server promises: the invariant of every reachable state, the effect of fork, exec
  and exit on a process's handles, and the contracts of lookup, duplication, transfer and
  closing.  The witnesses run the calls on a server with one process that holds two handles
  of one file.
\<close>

section \<open>A small server\<close>

text \<open>The least free index, an allocator for the witnesses.\<close>

definition least_ra :: allocator where
  "least_ra used = find (\<lambda>i. \<not> used i) [1..<Suc MAX_FD]"

lemma least_ra_ok: "ra_ok least_ra"
  unfolding ra_ok_def
proof
  fix used
  show "case least_ra used of None \<Rightarrow> \<forall>i. 0 < i \<and> i \<le> MAX_FD \<longrightarrow> used i
     | Some i \<Rightarrow> 0 < i \<and> i \<le> MAX_FD \<and> \<not> used i"
  proof (cases "least_ra used")
    case None
    then show ?thesis using find_upt_None [of "\<lambda>i. \<not> used i" 1 "Suc MAX_FD"] by (auto simp: least_ra_def simp del: upt_Suc)
  next
    case (Some i)
    then show ?thesis using find_upt_Some [of "\<lambda>i. \<not> used i" 1 "Suc MAX_FD" i] by (auto simp: least_ra_def simp del: upt_Suc)
  qed
qed

definition demo_io :: "nat io" where
  "demo_io = (io_init nil_tid (replicate 128 \<lparr>primary = 0, lc_tag = MPL_EXEC\<rparr>) 0)
     \<lparr>client_hash := [7 \<mapsto> (new_client 0)\<lparr>chandles := [1, 2]\<rparr>],
      io_files := [0 \<mapsto> \<lparr>fhandles = [1, 2], fflags = 0\<rparr>],
      fds := [1 \<mapsto> \<lparr>fd_file = 0, fd_owner = 7, fd_flags = 0, orig_fd = 0, file_ix = 0, client_ix = 0\<rparr>,
              2 \<mapsto> \<lparr>fd_file = 0, fd_owner = 7, fd_flags = IOD_CLOEXEC, orig_fd = 0, file_ix = 1, client_ix = 1\<rparr>],
      next_file := 1\<rparr>"

definition demo_callbacks :: "nat io_callbacks" where
  "demo_callbacks = \<lparr>cb_read = (\<lambda>_ _ _ t. (0, [], t)), cb_write = (\<lambda>_ _ n _ t. (uint n, t + unat n)),
     cb_close = (\<lambda>_ t. (0, t)), cb_lifecycle = (\<lambda>_ _ t. t), cb_confirm = None, cb_add_blocker = None, freed_pid = (\<lambda>p. p)\<rparr>"

lemma demo_links:
  "link_ok (client_arrays demo_io) (client_pos demo_io)" "link_ok (file_arrays demo_io) (file_pos demo_io)"
  by (auto simp: link_ok_def demo_io_def io_init_def client_arrays_def client_pos_def file_arrays_def file_pos_def
      new_client_def less_Suc_eq split: if_splits)

lemma demo_inv: "io_inv demo_io"
  using demo_links
  by (auto simp: io_inv_def io_inv_ex_def links_ok_def table_in_def table_out_def xfer_ok_def tables_def fd_core_def
      core_of_def in_transfer_def has_flag_def demo_io_def io_init_def new_client_def split: if_splits)

lemma demo_ok: "io_ok demo_io"
  using demo_inv lc_init_ok [of "replicate 128 \<lparr>primary = 0, lc_tag = MPL_EXEC\<rparr>"]
  by (simp add: io_ok_def demo_io_def io_init_def)

section \<open>Reachable states\<close>


section \<open>Fork, exec and exit\<close>

text \<open>
  C10. Forking a client that was not itself created by a fork succeeds while memory and handle
  numbers last, and keeps the invariant: under each of the parent's descriptor numbers the
  child finds a handle of its own on the same file, the parent still finds its own, and no
  other handle changes.
\<close>

theorem fork_shares_files:
  assumes inv: "io_inv s" and ra: "ra_ok ra" and p: "client_hash s p = Some c" and ch: "client_hash s child = None"
    and tbl: "\<forall>j < length (fd_table c). fd_table c ! j = 0" and free: "length (chandles c) \<le> card (free_ids s)"
    and mem: "res_oracle s = []"
  shows "\<exists>s'. fork_client ra s p child = Some (0, s') \<and> io_inv s'
     \<and> (\<forall>i f. fds s i = Some f \<longrightarrow> fd_core s' i = fd_core s i)
     \<and> (\<forall>i f. fds s i = Some f \<and> fd_owner f = p \<longrightarrow> get_fd_nosync s' p (int i) = Some (Some i)
          \<and> (\<exists>n g. get_fd_nosync s' child (int i) = Some (Some n) \<and> fds s' n = Some g
               \<and> fd_owner g = child \<and> fd_file g = fd_file f))"
proof -
  have L: "links_ok s" and to: "table_out (fd_core s) (tables s)"
    and rng: "\<And>i. fds s i \<noteq> None \<Longrightarrow> 0 < i \<and> i \<le> MAX_FD" using inv by (auto simp: io_inv_def io_inv_ex_def)
  have plain: "\<not> has_flag (fd_flags f) IOD_SHADOW" if f: "fds s i = Some f" "fd_owner f = p" for i f
  proof
    assume "has_flag (fd_flags f) IOD_SHADOW"
    then have "orig_fd f < length (fd_table c) \<and> fd_table c ! orig_fd f = i"
      using to fd_core_Some [OF f(1)] f(2) p unfolding table_out_def by (fastforce simp: tables_def)
    then show False using tbl rng [of i] f(1) by auto
  qed
  have mine: "\<exists>f. fds s i = Some f \<and> fd_owner f = p" if "i \<in> set (chandles c)" for i
    using that handle_exists [OF L p] by (metis in_set_conv_nth)
  let ?len = "max_fd_1 s c"
  let ?v = "s\<lparr>client_hash := (client_hash s)(child \<mapsto> new_client ?len)\<rparr>"
  have in_len: "i < ?len" if i: "i \<in> set (chandles c)" for i
  proof -
    have "not_shadow s i" using mine [OF i] plain by (auto simp: not_shadow_def)
    then have "Suc i \<le> ?len" unfolding max_fd_1_def using i by (intro le_fold_max) auto
    then show ?thesis by simp
  qed
  have vc: "fds ?v = fds s" "free_ids ?v = free_ids s" "client_hash ?v child = Some (new_client ?len)"
    "fd_core ?v = fd_core s" by (simp_all add: free_ids_def fd_core_def fun_eq_iff)
  have dist: "distinct (chandles c)"
    using L link_distinct [of "client_arrays s" "client_pos s" p] p by (simp add: links_ok_def client_arrays_def)
  have "\<exists>s' c'. fork_handles ra child ?v (chandles c) = Some s' \<and> io_inv s' \<and> client_hash s' child = Some c'
     \<and> length (chandles c') = length (chandles (new_client ?len)) + length (chandles c)
     \<and> (\<forall>j. fds ?v j \<noteq> None \<longrightarrow> fd_core s' j = fd_core ?v j)
     \<and> (\<forall>j. j \<notin> set (chandles c) \<longrightarrow> fd_table c' ! j = fd_table (new_client ?len) ! j)
     \<and> length (fd_table c') = length (fd_table (new_client ?len))
     \<and> (\<forall>i \<in> set (chandles c). \<exists>f. fds ?v i = Some f \<and> fd_table c' ! i > 0
          \<and> fd_core s' (fd_table c' ! i) = Some (fd_file f, child, shadow_flags (fd_flags f), i))"
    using mine plain in_len free vc dist
    by (intro fork_handles_ok [OF new_client_inv [OF inv ch] ra])
      (fastforce simp: new_client_def indirect_def)+
  then obtain s' c' where s': "fork_handles ra child ?v (chandles c) = Some s'" "io_inv s'" "client_hash s' child = Some c'"
    "length (chandles c') = length (chandles c)" "\<And>j. fds s j \<noteq> None \<Longrightarrow> fd_core s' j = fd_core s j"
    "length (fd_table c') = ?len"
    "\<And>i. i \<in> set (chandles c) \<Longrightarrow> \<exists>f. fds s i = Some f \<and> fd_table c' ! i > 0
          \<and> fd_core s' (fd_table c' ! i) = Some (fd_file f, child, shadow_flags (fd_flags f), i)"
    using vc by (auto simp: new_client_def)
  have "fork_shadows ra child (fd_table c) t is = Some t" if "\<forall>i \<in> set is. i < length (fd_table c)" for t "is"
    using that tbl by (induction "is") simp_all
  from this [of "[0..<min ?len (length (fd_table c))]" s']
  have "fork_shadows ra child (fd_table c) s' [0..<min ?len (length (fd_table c))] = Some s'" by simp
  then have "fork_client ra s p child = Some (0, s')"
    using s'(1,3,4) p ch mem by (simp add: fork_client_def res_ok_def Let_def)
  moreover have "get_fd_nosync s' p (int i) = Some (Some i)
      \<and> (\<exists>n g. get_fd_nosync s' child (int i) = Some (Some n) \<and> fds s' n = Some g \<and> fd_owner g = child \<and> fd_file g = fd_file f)"
    if f: "fds s i = Some f" "fd_owner f = p" for i f
  proof -
    have i: "i \<in> set (chandles c)" using client_arrays_nth [OF L f(1)] f(2) p by (metis nth_mem option.inject)
    have core: "fd_core s' i = Some (fd_file f, p, fd_flags f, orig_fd f)"
      using s'(5) [of i] f fd_core_Some [OF f(1)] by simp
    have ind: "indirect (fd_table c') i" using s'(6,7) i in_len [OF i] by (auto simp: indirect_def)
    have ne: "p \<noteq> child" using p ch by auto
    obtain g where "fds s' (fd_table c' ! i) = Some g" "fd_owner g = child" "fd_file g = fd_file f"
      using s'(7) [OF i] f(1) by (auto simp: fd_core_def core_of_def)
    then show ?thesis
      using get_fd_nosync_own [OF s'(2) core plain [OF f]]
        get_fd_nosync_shadow [OF s'(2,3) ind _ _ core ne] rng [of i] f(1) by auto
  qed
  ultimately show ?thesis using s'(2,5) by auto
qed

lemma demo_client:
  "client_hash demo_io 7 = Some ((new_client 0)\<lparr>chandles := [1, 2]\<rparr>)" "client_hash demo_io 8 = None"
  "res_oracle demo_io = []"
  by (simp_all add: demo_io_def io_init_def)

lemma demo_free: "2 \<le> card (free_ids demo_io)"
proof -
  have "{3, 4} \<subseteq> free_ids demo_io" by (auto simp: free_ids_def unused_def demo_io_def io_init_def)
  moreover have "finite (free_ids demo_io)" by (auto simp: free_ids_def)
  ultimately have "card {3 :: nat, 4} \<le> card (free_ids demo_io)" by (rule card_mono [rotated])
  then show ?thesis by simp
qed

theorem fork_shares_files_witness:
  "\<exists>s' n g. fork_client least_ra demo_io 7 8 = Some (0, s') \<and> get_fd_nosync s' 8 1 = Some (Some n)
     \<and> fds s' n = Some g \<and> fd_file g = 0"
proof -
  have "\<exists>s'. fork_client least_ra demo_io 7 8 = Some (0, s') \<and> io_inv s'
     \<and> (\<forall>i f. fds demo_io i = Some f \<longrightarrow> fd_core s' i = fd_core demo_io i)
     \<and> (\<forall>i f. fds demo_io i = Some f \<and> fd_owner f = 7 \<longrightarrow> get_fd_nosync s' 7 (int i) = Some (Some i)
          \<and> (\<exists>n g. get_fd_nosync s' 8 (int i) = Some (Some n) \<and> fds s' n = Some g
               \<and> fd_owner g = 8 \<and> fd_file g = fd_file f))"
    by (rule fork_shares_files [OF demo_inv least_ra_ok demo_client(1,2)])
      (use demo_client demo_free in \<open>simp_all add: new_client_def\<close>)
  moreover have "\<exists>f. fds demo_io 1 = Some f \<and> fd_owner f = 7 \<and> fd_file f = 0" by (simp add: demo_io_def)
  ultimately show ?thesis by fastforce
qed

text \<open>
  An exec event closes exactly the handles of the process that carry the close-on-exec flag:
  the loop that closes while it iterates over the shrinking array misses none, closes nobody
  else's and fails no assertion.
\<close>

theorem exec_closes_cloexec:
  assumes "io_inv s" "client_hash s p = Some c"
  shows "\<exists>s'. lifecycle_event cb ra s \<lparr>primary = p, lc_tag = MPL_EXEC\<rparr> = Some s' \<and> io_inv s'
     \<and> fd_core s' = drop_fds (cloexec_of p) (fd_core s)"
proof -
  obtain s' where "exec_loop cb s p 0 (length (chandles c)) = Some s'" "io_inv s'"
    "fd_core s' = drop_fds (cloexec_of p) (fd_core s)"
    using exec_loop_ok [OF assms, of 0 "length (chandles c)" cb] by auto
  then show ?thesis using assms(2) by (simp add: lifecycle_event_def)
qed

theorem exec_closes_cloexec_witness:
  "\<exists>s'. lifecycle_event demo_callbacks least_ra demo_io \<lparr>primary = 7, lc_tag = MPL_EXEC\<rparr> = Some s'
     \<and> fds s' 1 \<noteq> None \<and> fds s' 2 = None"
proof -
  obtain s' where s': "lifecycle_event demo_callbacks least_ra demo_io \<lparr>primary = 7, lc_tag = MPL_EXEC\<rparr> = Some s'"
    "fd_core s' = drop_fds (cloexec_of 7) (fd_core demo_io)"
    using exec_closes_cloexec [OF demo_inv demo_client(1)] by blast
  have "fd_core s' 1 \<noteq> None" "fd_core s' 2 = None"
    unfolding s'(2) by (simp_all add: drop_fds_def cloexec_of_def owner_of_def flags_of_def fd_core_def core_of_def demo_io_def has_flag_def)
  then have "fds s' 1 \<noteq> None" "fds s' 2 = None" by (simp_all add: fd_core_def)
  then show ?thesis using s'(1) by blast
qed

text \<open>
  An exit event destroys exactly the handles of the process, the client record and its
  indirection table, and keeps the invariant, whatever process ID the freed record shows.
\<close>

theorem exit_destroys_client:
  assumes "io_inv s" "client_hash s p = Some c"
  shows "\<exists>s'. lifecycle_event cb ra s \<lparr>primary = p, lc_tag = MPL_EXIT sig st ec\<rparr> = Some s' \<and> io_inv s'
     \<and> fd_core s' = drop_fds (\<lambda>d. owner_of d = p) (fd_core s) \<and> dom (client_hash s') = dom (client_hash s) - {p}"
proof -
  obtain s' where "client_dtor cb s p = Some s'" "io_inv s'"
    "fd_core s' = drop_fds (\<lambda>d. owner_of d = p) (fd_core s)" "dom (client_hash s') = dom (client_hash s) - {p}"
    using client_dtor_ok [OF assms] by blast
  then show ?thesis using assms(2) by (simp add: lifecycle_event_def)
qed

theorem exit_destroys_client_witness:
  "\<exists>s'. lifecycle_event demo_callbacks least_ra demo_io \<lparr>primary = 7, lc_tag = MPL_EXIT 0 0 0\<rparr> = Some s'
     \<and> fds s' 1 = None \<and> client_hash s' 7 = None"
proof -
  obtain s' where s': "lifecycle_event demo_callbacks least_ra demo_io \<lparr>primary = 7, lc_tag = MPL_EXIT 0 0 0\<rparr> = Some s'"
    "fd_core s' = drop_fds (\<lambda>d. owner_of d = 7) (fd_core demo_io)" "dom (client_hash s') = dom (client_hash demo_io) - {7}"
    using exit_destroys_client [OF demo_inv demo_client(1)] by blast
  have "fd_core s' 1 = None"
    unfolding s'(2) by (simp add: drop_fds_def owner_of_def fd_core_def core_of_def demo_io_def del: fd_core_None)
  moreover have "7 \<notin> dom (client_hash s')" using s'(3) by simp
  ultimately show ?thesis using s'(1) by (auto simp: domIff)
qed

section \<open>Handles\<close>

lemma lookup_cases:
  assumes "get_fd_nosync s pid fd = Some (Some i)"
  shows "(\<exists>f. fds s i = Some f \<and> fd_owner f = pid)
    \<or> (\<exists>c. client_hash s pid = Some c \<and> nat fd < length (fd_table c) \<and> fd_table c ! nat fd > 0 \<and> i = fd_table c ! nat fd)"
proof (cases "\<exists>f. fds s (nat fd) = Some f \<and> fd_owner f = pid")
  case True
  then obtain f where "fds s (nat fd) = Some f" "fd_owner f = pid" by blast
  then show ?thesis using assms by (simp add: get_fd_nosync_def Let_def split: if_splits)
next
  case False
  then have n: "(case fds s (nat fd) of None \<Rightarrow> None | Some f \<Rightarrow> if fd_owner f = pid then Some f else None) = None"
    by (auto split: option.split)
  obtain c where c: "client_hash s pid = Some c"
    using assms unfolding get_fd_nosync_def Let_def n by (simp split: if_splits option.splits)
  then show ?thesis
    using assms unfolding get_fd_nosync_def Let_def n by (simp split: if_splits option.splits)
qed

text \<open>
  Handles are isolated: a lookup made for a process yields only handles that the process owns,
  by their own number or through its indirection table.
\<close>

theorem lookup_isolated:
  assumes "io_inv s" "get_fd_nosync s pid fd = Some (Some i)"
  shows "\<exists>f. fds s i = Some f \<and> fd_owner f = pid"
  using lookup_cases [OF assms(2)]
proof (elim disjE exE conjE)
  fix c assume "client_hash s pid = Some c" "nat fd < length (fd_table c)" "fd_table c ! nat fd > 0" "i = fd_table c ! nat fd"
  moreover have "table_in {} (fd_core s) (tables s)" using assms(1) by (simp add: io_inv_def io_inv_ex_def)
  ultimately obtain n fl where "fd_core s i = Some (n, pid, fl, nat fd)"
    unfolding table_in_def by (metis empty_iff option.simps(9) tables_def)
  then show ?thesis by (auto simp: fd_core_def core_of_def)
qed blast

theorem lookup_isolated_witness:
  "get_fd_nosync demo_io 7 2 = Some (Some 2) \<and> (\<exists>f. fds demo_io 2 = Some f \<and> fd_owner f = 7)"
proof
  show l: "get_fd_nosync demo_io 7 2 = Some (Some 2)" by (simp add: get_fd_nosync_def demo_io_def has_flag_def)
  show "\<exists>f. fds demo_io 2 = Some f \<and> fd_owner f = 7" by (rule lookup_isolated [OF demo_inv l])
qed

text \<open>
  A successful dup gives the caller a new descriptor of its own that leads to the file of the
  descriptor it named, and is neither a shadow nor marked for transfer.
\<close>

theorem dup_shares_file:
  assumes "io_ok s" "ra_ok ra" "io_impl_dup cb ra s sender tag oldfd flags = Some (0, newfd, s')"
  shows "\<exists>t i f u g. io_sync cb s = Some t \<and> get_fd cb ra t (sender_pid s sender) oldfd = Some (Some i, u) \<and> fds u i = Some f
     \<and> get_fd_nosync s' (sender_pid s sender) newfd = Some (Some (nat newfd)) \<and> fds s' (nat newfd) = Some g
     \<and> fd_file g = fd_file f \<and> \<not> has_flag (fd_flags g) (IOD_SHADOW OR IOD_TRANSFER)"
proof -
  obtain t where t: "io_sync cb s = Some t" "internal_dup cb ra t sender tag oldfd (-1) flags = Some (0, newfd, s')"
    using assms(3) by (auto simp: io_impl_dup_def split: option.splits)
  have tok: "io_ok t" "sender_pid t sender = sender_pid s sender"
    using io_sync_ok [OF assms(1) t(1)] by (auto simp: sender_pid_def)
  obtain i f u where u: "get_fd cb ra t (sender_pid s sender) oldfd = Some (Some i, u)" "fds u i = Some f"
    "io_ok s'" "dup_result s' (sender_pid s sender) (fd_file f) newfd (-1)"
    using internal_dup_ok [OF tok(1) assms(2) t(2)] tok(2) by auto
  then obtain g where g: "fds s' (nat newfd) = Some g" "fd_file g = fd_file f" "fd_owner g = sender_pid s sender"
    "\<not> has_flag (fd_flags g) IOD_TRANSFER" "\<not> has_flag (fd_flags g) IOD_SHADOW"
    by (auto simp: dup_result_def)
  have "0 < nat newfd" "nat newfd \<le> MAX_FD" using u(3) g(1) by (auto simp: io_ok_def io_inv_def io_inv_ex_def)
  then have "get_fd_nosync s' (sender_pid s sender) newfd = Some (Some (nat newfd))"
    using g by (simp add: get_fd_nosync_def)
  moreover have "\<not> has_flag (fd_flags g) (IOD_SHADOW OR IOD_TRANSFER)"
    using g(4,5) unfolding has_flag_def bit.conj_disj_distrib by simp
  ultimately show ?thesis using t(1) u g by blast
qed

lemma find_Some_mem: "find P xs = Some x \<Longrightarrow> x \<in> set xs \<and> P x"
  by (induction xs) (auto split: if_splits)

text \<open>
  C24. A touch first handles the pending lifecycle events and makes a record for a caller that has
  none, failing with ENOMEM if it cannot.  In the state after that it succeeds exactly if a transfer of that
  handle to the caller is on record: then the handle moves to the caller with its file, the
  mark and the record are gone and every other handle is unchanged; otherwise it fails with
  EBADF and changes nothing more.
\<close>

theorem touch_claims_transfer:
  assumes "io_ok s" "ra_ok ra" "io_sync cb s = Some t" "io_get_client cb ra t (sender_pid s sender) True = Some (ok, u)"
  shows "if \<not> ok then io_impl_touch cb ra s sender newfd = Some (- ENOMEM, u)
    else if \<exists>q. (nat newfd, q) \<in> set (transfer_hash u) \<and> 0 \<le> newfd \<and> transfer_match (nat newfd, q) (sender_pid s sender)
    then \<exists>s' f. io_impl_touch cb ra s sender newfd = Some (0, s') \<and> io_inv s' \<and> fds u (nat newfd) = Some f
      \<and> fd_core s' = (fd_core u)(nat newfd \<mapsto> (fd_file f, sender_pid s sender, fd_flags f AND NOT IOD_TRANSFER, orig_fd f))
      \<and> nat newfd \<notin> fst ` set (transfer_hash s')
    else io_impl_touch cb ra s sender newfd = Some (- EBADF, u)"
proof (cases ok)
  case False
  have "sender_pid t sender = sender_pid s sender" using io_sync_ok [OF assms(1,3)] by (simp add: sender_pid_def)
  then show ?thesis using assms(3,4) False by (simp add: io_impl_touch_def Let_def)
next
  case True
  let ?pid = "sender_pid s sender"
  let ?P = "\<lambda>xf. int (fst xf) = newfd \<and> transfer_match xf ?pid"
  have tok: "io_ok t" "sender_pid t sender = ?pid"
    using io_sync_ok [OF assms(1,3)] by (auto simp: sender_pid_def)
  have inv: "io_inv u" "client_hash u ?pid \<noteq> None" using io_get_client_inv [OF _ assms(2,4)] tok(1) True by (simp_all add: io_ok_def)
  have run: "io_impl_touch cb ra s sender newfd = (case find ?P (transfer_hash u) of None \<Rightarrow> Some (- EBADF, u)
       | Some xf \<Rightarrow> let s = u\<lparr>transfer_hash := remove1 xf (transfer_hash u)\<rparr>; i = fst xf in
           (case fds s i of None \<Rightarrow> None
            | Some f \<Rightarrow> if \<not> has_flag (fd_flags f) IOD_TRANSFER then Some (- EBADF, s) else touch_move s ?pid i f))"
    using assms(3,4) tok(2) True by (simp add: io_impl_touch_def Let_def)
  show ?thesis
  proof (cases "find ?P (transfer_hash u)")
    case None
    then have "\<not> (\<exists>q. (nat newfd, q) \<in> set (transfer_hash u) \<and> 0 \<le> newfd \<and> transfer_match (nat newfd, q) ?pid)"
      unfolding find_None_iff by fastforce
    then show ?thesis using run None True by simp
  next
    case (Some xf)
    then obtain i q where xf: "xf = (i, q)" "(i, q) \<in> set (transfer_hash u)" "int i = newfd" "transfer_match (i, q) ?pid"
      using find_Some_mem [OF Some] by (cases xf) auto
    have x: "xfer_ok (fd_core u) (transfer_hash u)" using inv(1) by (simp add: io_inv_def io_inv_ex_def)
    moreover have "i \<in> fst ` set (transfer_hash u)" using xf(2) by force
    ultimately obtain d where "fd_core u i = Some d" "in_transfer d" by (auto simp: xfer_ok_def)
    then obtain f where f: "fds u i = Some f" "has_flag (fd_flags f) IOD_TRANSFER"
      by (auto simp: fd_core_def core_of_def in_transfer_def)
    let ?v = "u\<lparr>transfer_hash := remove1 (i, q) (transfer_hash u)\<rparr>"
    obtain s' where s': "touch_move ?v ?pid i f = Some (0, s')" "io_inv s'"
      "fd_core s' = (fd_core ?v)(i \<mapsto> (fd_file f, ?pid, fd_flags f AND NOT IOD_TRANSFER, orig_fd f))"
      using touch_move_inv [of "transfer_hash u" ?v i f q ?pid] inv f xf by auto
    have "io_impl_touch cb ra s sender newfd = Some (0, s')" using run Some xf(1) f s'(1) by (simp add: Let_def)
    moreover have "fd_core ?v = fd_core u" by (simp add: fd_core_def [abs_def])
    moreover have "i \<notin> fst ` set (transfer_hash s')"
    proof
      assume "i \<in> fst ` set (transfer_hash s')"
      moreover have "xfer_ok (fd_core s') (transfer_hash s')" using s'(2) by (simp add: io_inv_def io_inv_ex_def)
      ultimately show False using s'(3) by (auto simp: xfer_ok_def in_transfer_def has_flag_def and.assoc)
    qed
    moreover have "nat newfd = i" "0 \<le> newfd" using xf(3) by auto
    ultimately show ?thesis using True xf s'(2,3) f(1) by auto
  qed
qed

text \<open>
  C25. Closing is two-phase.  Of a successful close, the handles, clients and files are those left by
  the confirmed reply of the call before it and the pending lifecycle events: the close itself
  changes none of them.  When its own reply is confirmed exactly the caller's handle behind that
  descriptor disappears.
\<close>

theorem close_on_confirm:
  assumes "io_ok s" "ra_ok ra" "io_impl_close cb ra s sender tag fd = Some (0, s')"
  shows "\<exists>t v i f u. io_sync cb s = Some t \<and> lifecycle_sync cb ra t = Some v
     \<and> fds s' = fds v \<and> client_hash s' = client_hash v \<and> io_files s' = io_files v \<and> transfer_hash s' = transfer_hash v
     \<and> get_fd_nosync s' (sender_pid s sender) fd = Some (Some i) \<and> fds s' i = Some f
     \<and> io_sync cb s' = Some u \<and> io_inv u \<and> fd_core u = (fd_core s')(i := None)"
proof -
  obtain t where t: "io_sync cb s = Some t" "0 < fd" using assms(3) by (auto simp: io_impl_close_def split: option.splits if_splits)
  have tok: "io_ok t" "sender_pid t sender = sender_pid s sender"
    using io_sync_ok [OF assms(1) t(1)] by (auto simp: sender_pid_def)
  obtain i v where v: "get_fd cb ra t (sender_pid s sender) fd = Some (Some i, v)"
    using assms(3) t tok(2) by (auto simp: io_impl_close_def split: option.splits)
  note vok = get_fd_ok [OF tok(1) assms(2) v]
  have s': "\<exists>k. s' = v\<lparr>rb := set_confirm (Late_Close i) sender tag (rb v), pokes := k\<rparr>"
  proof (cases "has_flag (fast_confirm_flags v) IO_CONFIRM_CLOSE")
    case True
    then show ?thesis using assms(3) t tok(2) v
      by (auto simp: io_impl_close_def Let_def io_set_fast_confirm_def intro!: exI [of _ "Suc (pokes v)"])
  next
    case False
    then show ?thesis using assms(3) t tok(2) v
      by (auto simp: io_impl_close_def Let_def intro!: exI [of _ "pokes v"])
  qed
  then have more: "io_files s' = io_files v" "transfer_hash s' = transfer_hash v" by auto
  have ls: "lifecycle_sync cb ra t = Some v" using v by (auto simp: get_fd_def split: option.splits)
  from s' have same: "fds s' = fds v" "client_hash s' = client_hash v" "io_inv s'" "rb s' = set_confirm (Late_Close i) sender tag (rb v)"
    using vok(1) by (auto simp: io_ok_def)
  obtain f where f: "fds s' i = Some f" using vok(3) same(1) by fastforce
  obtain u where u: "late_close_fd cb s' i = Some u" "close_effect s' i f u" using late_close_ok [OF same(3) f] by blast
  have "get_fd_nosync s' (sender_pid s sender) fd = Some (Some i)"
    using vok(4) unfolding get_fd_nosync_def same(1,2) .
  moreover have "\<exists>ctx. io_sync cb s' = Some (u\<lparr>rb := ctx\<rparr>)"
    using u(1) same(4) by (auto simp: io_sync_def sync_confirm_def set_confirm_def run_action_def)
  ultimately show ?thesis using u(2) f t(1) ls same(1,2) more by (auto simp: close_effect_def)
qed

section \<open>Runs of the calls on the small server\<close>

text \<open>A thread of process 7, and the small server with a transfer of handle 2 on record.\<close>

definition demo_tid :: l4_tid where
  "demo_tid = \<lparr>is_local = False, tid_version = 15, tid_threadno = 100\<rparr>"

definition demo_io_xfer :: "nat io" where
  "demo_io_xfer = upd_fd 2 (\<lambda>g. g\<lparr>fd_flags := fd_flags g OR IOD_TRANSFER\<rparr>)
     (demo_io\<lparr>transfer_hash := transfer_hash demo_io @ [(2, 7)]\<rparr>)"

lemma demo_sender: "my_tid s = nil_tid \<Longrightarrow> sender_pid s demo_tid = 7"
  by (simp add: sender_pid_def pidof_NP_def demo_tid_def Let_def)

lemma demo_idle: "ring s = ring demo_io \<Longrightarrow> ring_idle s" "lifecycle_sync cb ra demo_io = Some demo_io"
proof -
  have r: "ring demo_io = lc_init (replicate 128 \<lparr>primary = 0, lc_tag = MPL_EXEC\<rparr>)" by (simp add: demo_io_def io_init_def)
  have "ring_idle demo_io" using lc_init_ok [of "replicate 128 \<lparr>primary = 0, lc_tag = MPL_EXEC\<rparr>"] r by (simp add: ring_idle_def)
  then show "ring s = ring demo_io \<Longrightarrow> ring_idle s" "lifecycle_sync cb ra demo_io = Some demo_io"
    using lifecycle_sync_idle [of demo_io cb ra] by (simp_all add: ring_idle_def)
qed

lemma demo_sync: "rb s = None \<Longrightarrow> io_sync cb s = Some s"
  by (simp add: io_sync_def sync_confirm_def)

lemma demo_get_fd: "get_fd cb ra demo_io 7 1 = Some (Some 1, demo_io)"
  using demo_idle(2) [of cb ra] by (simp add: get_fd_def) (simp add: get_fd_nosync_def demo_io_def has_flag_def)

lemma demo_alloc: "alloc_fd least_ra demo_io ((new_client 0)\<lparr>chandles := [1, 2]\<rparr>) = Some (Some 3)"
proof -
  have "fds demo_io i \<noteq> None \<longleftrightarrow> i = 1 \<or> i = 2" for i by (simp add: demo_io_def)
  then have "least_ra (\<lambda>i. fds demo_io i \<noteq> None) = Some 3"
    unfolding least_ra_def find_upt_Some by auto
  then have "alloc_fd_loop least_ra (\<lambda>i. fds demo_io i \<noteq> None) [] (Suc n) = Some (Some 3)" for n
    by simp
  from this [of 65535] show ?thesis by (simp add: alloc_fd_def new_client_def del: alloc_fd_loop.simps)
qed

lemma demo_add: "\<exists>t. io_add_fd cb least_ra demo_io 7 0 0 = Some (3, t) \<and> ring t = ring demo_io \<and> client_hash t 7 \<noteq> None
   \<and> (\<exists>g. fds t 3 = Some g \<and> fd_owner g = 7)"
proof -
  have "client_hash demo_io 7 \<noteq> None" using demo_client(1) by simp
  from io_get_client_idle [OF demo_idle(1) this, of cb least_ra True]
  have g: "io_get_client cb least_ra demo_io 7 True = Some (True, demo_io)" by simp
  have "io_files demo_io 0 = Some \<lparr>fhandles = [1, 2], fflags = 0\<rparr>" by (simp add: demo_io_def)
  then show ?thesis
    using g demo_client(1) demo_alloc
    by (simp add: io_add_fd_def link_fd_def upd_file_def upd_client_def)
qed

lemma demo_dup: "\<exists>s'. io_impl_dup cb least_ra demo_io demo_tid 0 1 0 = Some (0, 3, s')"
proof -
  obtain t where t: "io_add_fd cb least_ra demo_io 7 0 0 = Some (3, t)" "ring t = ring demo_io" "client_hash t 7 \<noteq> None"
    "\<exists>g. fds t 3 = Some g \<and> fd_owner g = 7" using demo_add by blast
  have "io_get_client cb least_ra t 7 False = Some (True, t)" by (rule io_get_client_idle [OF demo_idle(1) [OF t(2)] t(3)])
  then have a: "\<exists>s'. dup_add cb least_ra demo_io demo_tid 0 7 0 0 (-1) = Some (0, 3, s')"
    using t by (auto simp: dup_add_def dup_finish_def)
  have r: "rb demo_io = None" "my_tid demo_io = nil_tid" by (simp_all add: demo_io_def io_init_def)
  have f: "fds demo_io 1 = Some \<lparr>fd_file = 0, fd_owner = 7, fd_flags = 0, orig_fd = 0, file_ix = 0, client_ix = 0\<rparr>"
    by (simp add: demo_io_def)
  show ?thesis
    using a f demo_get_fd [of cb least_ra] demo_sync [OF r(1), of cb] demo_sender [OF r(2)]
    by (simp add: io_impl_dup_def internal_dup_def dup_handle_flags_def)
qed

theorem dup_shares_file_witness:
  "\<exists>s' g. io_impl_dup demo_callbacks least_ra demo_io demo_tid 0 1 0 = Some (0, 3, s') \<and> fds s' 3 = Some g \<and> fd_file g = 0"
proof -
  have r: "rb demo_io = None" "my_tid demo_io = nil_tid" by (simp_all add: demo_io_def io_init_def)
  obtain s' where s': "io_impl_dup demo_callbacks least_ra demo_io demo_tid 0 1 0 = Some (0, 3, s')" using demo_dup by blast
  from dup_shares_file [OF demo_ok least_ra_ok s'] demo_sync [OF r(1)] demo_get_fd demo_sender [OF r(2)]
  obtain f g where "fds demo_io 1 = Some f" "fds s' 3 = Some g" "fd_file g = fd_file f" by auto
  then show ?thesis using s' by (auto simp: demo_io_def)
qed

theorem touch_claims_transfer_witness:
  "\<exists>s'. io_impl_touch demo_callbacks least_ra demo_io_xfer demo_tid 2 = Some (0, s') \<and> 2 \<notin> fst ` set (transfer_hash s')"
proof -
  have f: "fds demo_io 2 = Some \<lparr>fd_file = 0, fd_owner = 7, fd_flags = IOD_CLOEXEC, orig_fd = 0, file_ix = 1, client_ix = 1\<rparr>"
    by (simp add: demo_io_def)
  have "io_inv demo_io_xfer" unfolding demo_io_xfer_def
    by (rule mark_transfer_inv [OF demo_inv f]) (simp_all add: has_flag_def)
  moreover have x: "ring demo_io_xfer = ring demo_io" "my_tid demo_io_xfer = nil_tid" "rb demo_io_xfer = None"
    "client_hash demo_io_xfer = client_hash demo_io" "transfer_hash demo_io_xfer = [(2, 7)]"
    by (simp_all add: demo_io_xfer_def upd_fd_def demo_io_def io_init_def)
  ultimately have ok: "io_ok demo_io_xfer" using demo_ok by (simp add: io_ok_def)
  have sy: "io_sync demo_callbacks demo_io_xfer = Some demo_io_xfer" using x(3) by (simp add: io_sync_def sync_confirm_def)
  have "client_hash demo_io_xfer (sender_pid demo_io_xfer demo_tid) \<noteq> None" using x demo_sender [OF x(2)] demo_client by simp
  from io_get_client_idle [OF demo_idle(1) [OF x(1)] this, of demo_callbacks least_ra True]
  have "io_get_client demo_callbacks least_ra demo_io_xfer (sender_pid demo_io_xfer demo_tid) True = Some (True, demo_io_xfer)" .
  from touch_claims_transfer [OF ok least_ra_ok sy this, of 2] show ?thesis
    using x demo_sender [OF x(2)] by (auto simp: transfer_match_def)
qed

theorem close_on_confirm_witness:
  "\<exists>s' u. io_impl_close demo_callbacks least_ra demo_io demo_tid 0 1 = Some (0, s') \<and> fds s' 1 \<noteq> None
     \<and> fds s' = fds demo_io \<and> io_sync demo_callbacks s' = Some u \<and> fds u 1 = None"
proof -
  have r: "rb demo_io = None" "my_tid demo_io = nil_tid" "fast_confirm_flags demo_io = 0" by (simp_all add: demo_io_def io_init_def)
  have "io_impl_close demo_callbacks least_ra demo_io demo_tid 0 1
      = Some (0, demo_io\<lparr>rb := set_confirm (Late_Close 1) demo_tid 0 None\<rparr>)" (is "_ = Some (0, ?s')")
    using r demo_get_fd [of demo_callbacks least_ra] demo_sync [OF r(1), of demo_callbacks] demo_sender [OF r(2)]
    by (simp add: io_impl_close_def has_flag_def)
  moreover from close_on_confirm [OF demo_ok least_ra_ok this] obtain i f u where
    u: "get_fd_nosync ?s' 7 1 = Some (Some i)" "fds ?s' i = Some f" "io_sync demo_callbacks ?s' = Some u"
      "fd_core u = (fd_core ?s')(i := None)"
    using demo_sender [OF r(2)] by auto
  have "i = 1" using u(1) by (simp add: get_fd_nosync_def demo_io_def has_flag_def)
  then have "fds u 1 = None" using fun_cong [OF u(4), of 1] by (simp add: fd_core_def)
  ultimately show ?thesis using u \<open>i = 1\<close> by auto
qed


end
