(* ===== verification/Nibbles.thy ===== *)
theory Nibbles
  imports Prelude
begin

text \<open>
  Four-bit fields packed into 32-bit words: reading, writing, and adding or subtracting one
  in a field without touching its neighbours.  Shared by the counting Bloom filter of
  \<^verbatim>\<open>sys/msg/sysmsg.c\<close>.
\<close>

definition nib :: "u32 \<Rightarrow> nat \<Rightarrow> u32" where
  "nib w j = take_bit 4 (drop_bit (4 * j) w)"

definition set_nib :: "u32 \<Rightarrow> nat \<Rightarrow> u32 \<Rightarrow> u32" where
  "set_nib w j v = (w AND NOT (push_bit (4 * j) (mask 4))) OR push_bit (4 * j) (take_bit 4 v)"

lemma bit_nib [word_bits]: "bit (nib w j) i \<longleftrightarrow> i < 4 \<and> bit w (4 * j + i)"
  by (auto simp: nib_def bit_simps)

lemma bit_set_nib [word_bits]:
  "bit (set_nib w j v) i \<longleftrightarrow> i < 32 \<and>
     (if 4 * j \<le> i \<and> i < 4 * j + 4 then bit v (i - 4 * j) else bit w i)"
  by (auto simp: set_nib_def bit_simps dest: bit_imp_le_length)

lemma nib_cong_div: "i < 4 \<Longrightarrow> 4 * j \<le> 4 * k + i \<and> 4 * k + i < 4 * j + 4 \<longleftrightarrow> k = (j :: nat)"
  by auto

lemma nib_set_nib:
  "j < 8 \<Longrightarrow> k < 8 \<Longrightarrow> nib (set_nib w j v) k = (if k = j then take_bit 4 v else nib w k)"
  by (rule bit_word_eqI) (auto simp: word_bits bit_take_bit_iff)

lemma set_nib_nib: "set_nib w j (nib w j) = w"
  by (rule bit_word_eqI) (auto simp: word_bits dest: bit_imp_le_length)

lemma unat_nib: "unat (nib w j) < 16"
  using unat_lt_bits [of "nib w j" 4] by (simp add: bit_nib)

lemma set_nib_add:
  "set_nib w j v = (w AND NOT (push_bit (4 * j) (mask 4))) + push_bit (4 * j) (take_bit 4 v)"
  unfolding set_nib_def
  by (rule disjunctive_add [symmetric]) (auto simp: bit_simps)

lemma take_bit_4_self: "unat v < 16 \<Longrightarrow> take_bit 4 v = v" for v :: u32
  using unat_lt_bits [of v 4]
  by (intro bit_word_eqI) (simp add: bit_take_bit_iff, meson not_less)

lemma nib_plus_one:
  assumes "nib w j < 15" shows "w + push_bit (4 * j) 1 = set_nib w j (nib w j + 1)"
proof -
  let ?rest = "w AND NOT (push_bit (4 * j) (mask 4))"
  have n: "take_bit 4 (nib w j) = nib w j" by (simp add: nib_def)
  have "unat (nib w j + 1) < 16"
    using assms by (simp add: word_less_nat_alt unat_word_ariths)
  then have n1: "take_bit 4 (nib w j + 1) = nib w j + 1" by (rule take_bit_4_self)
  have "w + push_bit (4 * j) 1 = ?rest + push_bit (4 * j) (nib w j) + push_bit (4 * j) 1"
    by (subst (1) set_nib_nib [of w j, symmetric]) (simp only: set_nib_add n)
  also have "\<dots> = ?rest + push_bit (4 * j) (nib w j + 1)"
    by (simp add: push_bit_add)
  finally show ?thesis by (simp only: set_nib_add n1)
qed

lemma nib_minus_one:
  assumes "nib w j \<noteq> 0" shows "w - push_bit (4 * j) 1 = set_nib w j (nib w j - 1)"
proof -
  let ?rest = "w AND NOT (push_bit (4 * j) (mask 4))"
  have n: "take_bit 4 (nib w j) = nib w j" by (simp add: nib_def)
  have "unat (nib w j - 1) < 16"
    using unat_nib [of w j] assms by (simp add: unat_sub word_le_nat_alt unat_gt_0 Suc_leI)
  then have n1: "take_bit 4 (nib w j - 1) = nib w j - 1" by (rule take_bit_4_self)
  have "w - push_bit (4 * j) 1 = ?rest + push_bit (4 * j) (nib w j) - push_bit (4 * j) 1"
    by (subst (1) set_nib_nib [of w j, symmetric]) (simp only: set_nib_add n)
  also have "\<dots> = ?rest + push_bit (4 * j) (nib w j - 1)"
    by (simp add: push_bit_eq_mult algebra_simps)
  finally show ?thesis by (simp only: set_nib_add n1)
qed

end
