(* ===== verification/Sysmsg_Filter.thy ===== *)
theory Sysmsg_Filter
  imports Nibbles Lib_Codes
begin

text \<open>
  The counting Bloom filter of \<^verbatim>\<open>sys/msg/sysmsg.c\<close>: sixteen 32-bit limbs of eight 4-bit
  counters each, three counters per key, increments that saturate and decrements that keep
  a saturated counter.  The locale \<open>counting_filter\<close> is the contract between the filter and
  the label loops of \<open>add_filter\<close> and \<open>rm_filter\<close>: a filter represents a multiset of keys
  and never denies a member.  It is interpreted on the filter operations of the source.
\<close>

section \<open>The filter operations\<close>

abbreviation (input) FILTER_SIZE :: nat where "FILTER_SIZE \<equiv> 16"
abbreviation (input) SLOTS_PER_LIMB :: nat where "SLOTS_PER_LIMB \<equiv> 8"
abbreviation (input) n_slots :: nat where "n_slots \<equiv> 128"

type_synonym bfilter = "u32 list"

definition filter_inc :: "bfilter \<Rightarrow> nat \<Rightarrow> bool \<times> bfilter" where
  "filter_inc flt slot =
     (let limb = slot div SLOTS_PER_LIMB; offs = (slot mod SLOTS_PER_LIMB) * 4;
          sat = (drop_bit offs (flt ! limb) AND 0xf) = 0xe;
          flt = (if drop_bit offs (flt ! limb) AND 0xf < 0xf
                 then flt[limb := flt ! limb + push_bit offs 1] else flt)
      in (sat, flt))"

definition filter_dec :: "bfilter \<Rightarrow> nat \<Rightarrow> bfilter" where
  "filter_dec flt slot =
     (let limb = slot div SLOTS_PER_LIMB; offs = (slot mod SLOTS_PER_LIMB) * 4
      in if (drop_bit offs (flt ! limb) + 1) AND 0xf > 1
         then flt[limb := flt ! limb - push_bit offs 1] else flt)"

definition get_slots :: "u32 \<Rightarrow> nat list" where
  "get_slots hash0 =
     (let s0 = hash0 AND 127; hash1 = hash0 div 128;
          s1 = hash1 AND 127; hash2 = hash1 div 128;
          s2 = hash2 AND 127
      in map unat [s0, s1, s2])"

definition filter_query :: "bfilter \<Rightarrow> nat list \<Rightarrow> bool" where
  "filter_query flt slots =
     foldl (\<lambda>ret slot.
        (let limb = slot div SLOTS_PER_LIMB; offs = (slot mod SLOTS_PER_LIMB) * 4
         in ret \<and> flt ! limb AND push_bit offs 0xf \<noteq> 0)) True slots"

text \<open>A client without a filter passes every label.\<close>

definition filter_pass :: "u32 list \<Rightarrow> bfilter option \<Rightarrow> u32 \<Rightarrow> u32 \<Rightarrow> bool" where
  "filter_pass salt flt maskp hash =
     (case flt of None \<Rightarrow> True
      | Some f \<Rightarrow> list_ex (\<lambda>b. filter_query f (get_slots (hash XOR salt ! b))) (bit_loop maskp))"

text \<open>The inner loops of \<open>add_filter\<close> and \<open>rm_filter\<close> over the three slots of a key.\<close>

definition filter_add_key :: "bfilter \<Rightarrow> u32 \<Rightarrow> bfilter" where
  "filter_add_key flt key = foldl (\<lambda>f slot. snd (filter_inc f slot)) flt (get_slots key)"

definition filter_rm_key :: "bfilter \<Rightarrow> u32 \<Rightarrow> bfilter" where
  "filter_rm_key flt key = foldl filter_dec flt (get_slots key)"

definition filter_query_key :: "bfilter \<Rightarrow> u32 \<Rightarrow> bool" where
  "filter_query_key flt key = filter_query flt (get_slots key)"

text \<open>The keys a label stands for: one per bit of the mask, salted by the bit.\<close>

definition label_keys :: "u32 list \<Rightarrow> u32 \<Rightarrow> u32 \<Rightarrow> u32 list" where
  "label_keys salt msk label = map (\<lambda>b. int_hash label XOR salt ! b) (bit_loop msk)"

section \<open>Counters\<close>

definition counter :: "bfilter \<Rightarrow> nat \<Rightarrow> nat" where
  "counter flt slot = unat (nib (flt ! (slot div 8)) (slot mod 8))"

lemma counter_le: "counter flt slot \<le> 15"
  using unat_nib [of "flt ! (slot div 8)" "slot mod 8"] by (simp add: counter_def)

lemma field_is_nib: "drop_bit (4 * j) w AND 0xf = nib w j" for w :: u32
  by (simp add: nib_def take_bit_eq_mask mask_eq_decr_exp)

lemma slot_limb: "slot < 128 \<Longrightarrow> slot div 8 < 16" "slot mod 8 < (8 :: nat)"
  by auto

lemma slot_neq: "slot \<noteq> slot' \<Longrightarrow> slot div 8 = slot' div 8 \<Longrightarrow> slot mod 8 \<noteq> slot' mod (8 :: nat)"
  by (metis mod_div_decomp)

lemma counter_set_nib:
  assumes "length flt = 16" "slot < 128" "slot' < 128"
  shows "counter (flt[slot div 8 := set_nib (flt ! (slot div 8)) (slot mod 8) v]) slot'
    = (if slot' = slot then unat (take_bit 4 v) else counter flt slot')"
  using assms slot_limb [of slot] slot_limb [of slot'] slot_neq [of slot slot']
  by (auto simp: counter_def nth_list_update nib_set_nib)

text \<open>The increment is the saturating increment of one counter.\<close>

lemma filter_inc_counter:
  assumes "length flt = 16" "slot < 128"
  shows "length (snd (filter_inc flt slot)) = 16"
    and "slot' < 128 \<Longrightarrow> counter (snd (filter_inc flt slot)) slot'
      = (if slot' = slot then min 15 (Suc (counter flt slot)) else counter flt slot')"
    and "fst (filter_inc flt slot) \<longleftrightarrow> counter flt slot = 14"
proof -
  let ?w = "flt ! (slot div 8)" and ?j = "slot mod 8"
  let ?n = "nib ?w ?j"
  have inc: "snd (filter_inc flt slot) =
      (if ?n < 15 then flt[slot div 8 := set_nib ?w ?j (?n + 1)] else flt)"
    using nib_plus_one [of ?w ?j] by (simp add: filter_inc_def Let_def field_is_nib mult.commute [of _ 4])
  have lt: "?n < 15 \<longleftrightarrow> counter flt slot < 15" by (simp add: counter_def word_less_nat_alt)
  have "unat (take_bit 4 (?n + 1)) = Suc (counter flt slot)" if "counter flt slot < 15"
    using that by (subst take_bit_4_self) (simp_all add: counter_def unat_word_ariths)
  then show "slot' < 128 \<Longrightarrow> counter (snd (filter_inc flt slot)) slot'
      = (if slot' = slot then min 15 (Suc (counter flt slot)) else counter flt slot')"
    using counter_le [of flt slot] by (auto simp: inc lt counter_set_nib [OF assms])
  show "length (snd (filter_inc flt slot)) = 16" using assms by (simp add: inc)
  show "fst (filter_inc flt slot) \<longleftrightarrow> counter flt slot = 14"
    by (simp add: filter_inc_def Let_def field_is_nib mult.commute [of _ 4] counter_def word_unat_eq_iff)
qed

text \<open>The decrement leaves 0 and the saturated value alone.\<close>

lemma nib_dec_guard: "(drop_bit (4 * j) w + 1) AND 0xf > 1 \<longleftrightarrow> 0 < unat (nib w j) \<and> unat (nib w j) < 15"
  for w :: u32
proof -
  have m: "x AND 0xf = take_bit 4 x" for x :: u32 by (simp add: take_bit_eq_mask mask_eq_decr_exp)
  have "unat (take_bit 4 (drop_bit (4 * j) w + 1)) = (unat (nib w j) + 1) mod 16"
    by (simp add: nib_def unsigned_take_bit_eq take_bit_eq_mod unat_word_ariths mod_mod_cancel mod_Suc_eq)
  then show ?thesis
    using unat_nib [of w j] by (simp add: m word_less_nat_alt mod_Suc)
qed

lemma filter_dec_counter:
  assumes "length flt = 16" "slot < 128"
  shows "length (filter_dec flt slot) = 16"
    and "slot' < 128 \<Longrightarrow> counter (filter_dec flt slot) slot'
      = (if slot' = slot \<and> counter flt slot < 15 then counter flt slot - 1 else counter flt slot')"
proof -
  let ?w = "flt ! (slot div 8)" and ?j = "slot mod 8"
  let ?n = "nib ?w ?j"
  have dec: "filter_dec flt slot =
      (if 0 < unat ?n \<and> unat ?n < 15 then flt[slot div 8 := set_nib ?w ?j (?n - 1)] else flt)"
    using nib_minus_one [of ?w ?j]
    by (simp add: filter_dec_def Let_def mult.commute [of _ 4] nib_dec_guard unat_gt_0)
  have "unat (take_bit 4 (?n - 1)) = counter flt slot - 1" if "0 < counter flt slot"
    using that unat_nib [of ?w ?j]
    by (subst take_bit_4_self) (simp_all add: counter_def unat_sub word_le_nat_alt Suc_le_eq)
  then show "slot' < 128 \<Longrightarrow> counter (filter_dec flt slot) slot'
      = (if slot' = slot \<and> counter flt slot < 15 then counter flt slot - 1 else counter flt slot')"
    by (auto simp: dec counter_set_nib [OF assms] counter_def [symmetric])
  show "length (filter_dec flt slot) = 16" using assms by (simp add: dec)
qed

lemma and_field_nonzero: "w AND push_bit (4 * j) 0xf \<noteq> 0 \<longleftrightarrow> nib w j \<noteq> 0" for w :: u32
proof -
  have m: "(0xf :: u32) = mask 4" by (simp add: mask_eq_decr_exp)
  have "w AND push_bit (4 * j) (mask 4) = push_bit (4 * j) (nib w j)"
    by (rule bit_word_eqI) (auto simp: bit_simps nib_def)
  moreover have "nib w j = drop_bit (4 * j) (w AND push_bit (4 * j) (mask 4))"
    by (rule bit_word_eqI) (auto simp: bit_simps nib_def dest: bit_imp_le_length)
  ultimately show ?thesis unfolding m by (metis drop_bit_of_0 push_bit_of_0)
qed

lemma filter_query_iff: "filter_query flt slots \<longleftrightarrow> (\<forall>s \<in> set slots. counter flt s \<noteq> 0)"
proof -
  have "foldl (\<lambda>ret s. ret \<and> P s) b slots \<longleftrightarrow> b \<and> (\<forall>s \<in> set slots. P s)" for b and P :: "nat \<Rightarrow> bool"
    by (induction slots arbitrary: b) auto
  then show ?thesis
    by (simp add: filter_query_def Let_def counter_def mult.commute [of _ 4] and_field_nonzero unat_eq_0)
qed

lemma get_slots_lt: "s \<in> set (get_slots key) \<Longrightarrow> s < 128"
proof -
  have "unat (a AND 127) < 128" for a :: u32
    using unat_and_le [of a 127] by simp
  then show "s \<in> set (get_slots key) \<Longrightarrow> s < 128" by (auto simp: get_slots_def Let_def)
qed

section \<open>The counting filter contract\<close>

text \<open>
  \<open>insert_all\<close> and \<open>remove_all\<close> are the loops over keys: the removal loop asks the filter
  first, skips what it denies and counts what it removed.
\<close>

fun insert_all :: "('f \<Rightarrow> 'k \<Rightarrow> 'f) \<Rightarrow> 'f \<Rightarrow> 'k list \<Rightarrow> 'f" where
  "insert_all ins f [] = f"
| "insert_all ins f (k # ks) = insert_all ins (ins f k) ks"

fun remove_all :: "('f \<Rightarrow> 'k \<Rightarrow> bool) \<Rightarrow> ('f \<Rightarrow> 'k \<Rightarrow> 'f) \<Rightarrow> 'f \<Rightarrow> 'k list \<Rightarrow> 'f \<times> nat" where
  "remove_all qry rmv f [] = (f, 0)"
| "remove_all qry rmv f (k # ks) =
     (if qry f k then (let (f', n) = remove_all qry rmv (rmv f k) ks in (f', Suc n))
      else remove_all qry rmv f ks)"

locale counting_filter =
  fixes repr :: "'f \<Rightarrow> 'k multiset \<Rightarrow> bool"
    and ins :: "'f \<Rightarrow> 'k \<Rightarrow> 'f"
    and rmv :: "'f \<Rightarrow> 'k \<Rightarrow> 'f"
    and qry :: "'f \<Rightarrow> 'k \<Rightarrow> bool"
  assumes repr_ins: "repr f M \<Longrightarrow> repr (ins f k) (add_mset k M)"
    and repr_rmv: "repr f M \<Longrightarrow> k \<in># M \<Longrightarrow> repr (rmv f k) (M - {#k#})"
    and qry_member: "repr f M \<Longrightarrow> k \<in># M \<Longrightarrow> qry f k"
begin

lemma repr_insert_all: "repr f M \<Longrightarrow> repr (insert_all ins f ks) (M + mset ks)"
proof (induction ks arbitrary: f M)
  case Nil
  then show ?case by simp
next
  case (Cons k ks)
  from Cons.IH [OF repr_ins [OF Cons.prems, of k]] show ?case by (simp add: ac_simps)
qed

lemma repr_remove_all:
  "repr f M \<Longrightarrow> mset ks \<subseteq># M \<Longrightarrow>
   repr (fst (remove_all qry rmv f ks)) (M - mset ks) \<and> snd (remove_all qry rmv f ks) = length ks"
proof (induction ks arbitrary: f M)
  case Nil
  then show ?case by simp
next
  case (Cons k ks)
  from Cons.prems(2) have k: "k \<in># M" and ks: "mset ks \<subseteq># M - {#k#}"
    by (auto simp: insert_subset_eq_iff)
  from Cons.IH [OF repr_rmv [OF Cons.prems(1) k] ks] qry_member [OF Cons.prems(1) k]
  show ?case by (auto simp: split_beta)
qed

lemma never_denies_outstanding:
  "repr f M \<Longrightarrow> mset out \<subseteq># M \<Longrightarrow> k \<in># M - mset out \<Longrightarrow>
   qry (fst (remove_all qry rmv f out)) k"
  using repr_remove_all qry_member by blast

end

section \<open>The filter represents the outstanding keys\<close>

text \<open>
  A counter either is saturated or is exactly the number of slots the outstanding keys put
  into it.
\<close>

definition slot_load :: "u32 multiset \<Rightarrow> nat \<Rightarrow> nat" where
  "slot_load M slot = (\<Sum>k \<in># M. count_list (get_slots k) slot)"

definition filter_repr :: "bfilter \<Rightarrow> u32 multiset \<Rightarrow> bool" where
  "filter_repr flt M \<longleftrightarrow> length flt = 16 \<and>
     (\<forall>slot < 128. counter flt slot = 15 \<or> counter flt slot = slot_load M slot)"

definition counters_plus :: "bfilter \<Rightarrow> (nat \<Rightarrow> nat) \<Rightarrow> bool" where
  "counters_plus flt load \<longleftrightarrow> length flt = 16 \<and>
     (\<forall>slot < 128. counter flt slot = 15 \<or> counter flt slot = load slot)"

lemma filter_repr_plus: "filter_repr flt M = counters_plus flt (slot_load M)"
  by (simp add: filter_repr_def counters_plus_def)

lemma inc_loop_counters:
  "counters_plus flt load \<Longrightarrow> \<forall>s \<in> set slots. s < 128 \<Longrightarrow>
   counters_plus (foldl (\<lambda>f s. snd (filter_inc f s)) flt slots) (\<lambda>s. load s + count_list slots s)"
proof (induction slots arbitrary: flt load)
  case Nil
  then show ?case by simp
next
  case (Cons s slots)
  have "counters_plus (snd (filter_inc flt s)) (\<lambda>s'. load s' + (if s' = s then 1 else 0))"
    using Cons.prems by (auto simp: counters_plus_def filter_inc_counter min_def)
  from Cons.IH [OF this] Cons.prems show ?case
    by (auto simp: counters_plus_def split: if_splits)
qed

lemma dec_loop_counters:
  "counters_plus flt (\<lambda>s. load s + count_list slots s) \<Longrightarrow> \<forall>s \<in> set slots. s < 128 \<Longrightarrow>
   counters_plus (foldl filter_dec flt slots) load"
proof (induction slots arbitrary: flt)
  case Nil
  then show ?case by simp
next
  case (Cons s slots)
  have len: "length flt = 16" and s: "s < 128" using Cons.prems by (auto simp: counters_plus_def)
  have "counter (filter_dec flt s) s' = 15 \<or> counter (filter_dec flt s) s' = load s' + count_list slots s'"
    if "s' < 128" for s'
    using Cons.prems that counter_le [of flt s]
    by (cases "s' = s") (auto simp: counters_plus_def filter_dec_counter [OF len s] dest!: spec [of _ s'])
  then have "counters_plus (filter_dec flt s) (\<lambda>s'. load s' + count_list slots s')"
    by (simp add: counters_plus_def filter_dec_counter [OF len s])
  from Cons.IH [OF this] Cons.prems show ?case by simp
qed

lemma slot_load_add: "slot_load (add_mset k M) = (\<lambda>s. slot_load M s + count_list (get_slots k) s)"
  by (simp add: slot_load_def fun_eq_iff)

interpretation bloom: counting_filter filter_repr filter_add_key filter_rm_key filter_query_key
proof unfold_locales
  fix f M k
  assume "filter_repr f M"
  then show "filter_repr (filter_add_key f k) (add_mset k M)"
    unfolding filter_repr_plus filter_add_key_def slot_load_add
    by (rule inc_loop_counters) (simp add: get_slots_lt)
next
  fix f M k
  assume r: "filter_repr f M" and "k \<in># M"
  then obtain N where N: "M = add_mset k N" by (metis insert_DiffM)
  show "filter_repr (filter_rm_key f k) (M - {#k#})"
    using r unfolding filter_repr_plus filter_rm_key_def N slot_load_add
    by (simp add: dec_loop_counters get_slots_lt)
next
  fix f M k
  assume r: "filter_repr f M" and "k \<in># M"
  then obtain N where N: "M = add_mset k N" by (metis insert_DiffM)
  have "0 < slot_load M s" if "s \<in> set (get_slots k)" for s
    using that count_list_0_iff [of "get_slots k" s] by (simp add: N slot_load_add)
  moreover have "s < 128" if "s \<in> set (get_slots k)" for s using that by (rule get_slots_lt)
  ultimately show "filter_query_key f k"
    using r by (fastforce simp: filter_query_key_def filter_query_iff filter_repr_def)
qed

lemma filter_repr_empty: "filter_repr (replicate 16 0) {#}"
  by (auto simp: filter_repr_def counter_def slot_load_def nib_def slot_limb)

end
