(* ===== verification/Sort.thy ===== *)
theory Sort
  imports Prelude "HOL-Library.Monad_Syntax"
begin

text \<open>
  \<^verbatim>\<open>lib/sort.c\<close> (the heap sort behind \<open>qsort\<close>) and \<^verbatim>\<open>lib/bsearch.c\<close>.  The array of
  equally sized elements is a list and the comparison callback a function into \<open>int\<close>.  Both
  loops may run forever for a callback that is not an ordering, so they are partial
  functions into \<open>option\<close>; the locale \<open>comparator\<close> states what C requires of a callback,
  and under it both routines return.  Other components interpret it on their own callbacks.
\<close>

section \<open>The routines\<close>

text \<open>The static function \<open>swap\<close> of \<^verbatim>\<open>lib/sort.c\<close>.\<close>

definition swap :: "'a list \<Rightarrow> nat \<Rightarrow> nat \<Rightarrow> 'a list" where
  "swap data i j = (if i = j then data else list_swap data i j)"

partial_function (option) downheap ::
  "('a \<Rightarrow> 'a \<Rightarrow> int) \<Rightarrow> 'a list \<Rightarrow> nat \<Rightarrow> nat \<Rightarrow> 'a list option" where
  "downheap compare data N k =
     (if k \<le> N div 2 then
        (let j = 2 * k;
             j = (if j < N \<and> compare (data ! j) (data ! (j + 1)) < 0 then j + 1 else j)
         in if compare (data ! k) (data ! j) \<ge> 0 then Some data
            else downheap compare (swap data j k) N j)
      else Some data)"

text \<open>The two loops of \<open>qsort\<close>: building the heap and extracting the maximum.\<close>

fun qsort_build :: "('a \<Rightarrow> 'a \<Rightarrow> int) \<Rightarrow> 'a list \<Rightarrow> nat \<Rightarrow> nat \<Rightarrow> 'a list option" where
  "qsort_build compare data N 0 = Some data"
| "qsort_build compare data N (Suc k) =
     do { data \<leftarrow> downheap compare data N k; qsort_build compare data N k }"

fun qsort_extract :: "('a \<Rightarrow> 'a \<Rightarrow> int) \<Rightarrow> 'a list \<Rightarrow> nat \<Rightarrow> 'a list option" where
  "qsort_extract compare data 0 = Some data"
| "qsort_extract compare data (Suc N) =
     do { data \<leftarrow> downheap compare (swap data 0 (Suc N)) N 0; qsort_extract compare data N }"

definition qsort :: "('a \<Rightarrow> 'a \<Rightarrow> int) \<Rightarrow> 'a list \<Rightarrow> 'a list option" where
  "qsort compare data =
     (if length data = 0 then Some data
      else (let N = length data - 1; k = N div 2 + 1
            in do { data \<leftarrow> qsort_build compare data N k; qsort_extract compare data N }))"

text \<open>
  \<open>bsearch\<close> returns the index of the element instead of its address; \<open>l + u\<close> is a 32-bit
  sum.
\<close>

partial_function (option) bsearch_loop ::
  "('k \<Rightarrow> 'a \<Rightarrow> int) \<Rightarrow> 'k \<Rightarrow> 'a list \<Rightarrow> nat \<Rightarrow> nat \<Rightarrow> nat option option" where
  "bsearch_loop compar key base l u =
     (if l < u then
        (let idx = (l + u) mod 2 ^ 32 div 2; comparison = compar key (base ! idx)
         in if comparison < 0 then bsearch_loop compar key base l idx
            else if comparison > 0 then bsearch_loop compar key base (idx + 1) u
            else Some (Some idx))
      else Some None)"

definition bsearch :: "('k \<Rightarrow> 'a \<Rightarrow> int) \<Rightarrow> 'k \<Rightarrow> 'a list \<Rightarrow> nat option option" where
  "bsearch compar key base = bsearch_loop compar key base 0 (length base)"

section \<open>Heap order\<close>

text \<open>
  \<open>heap_ok cmp lo N xs k\<close>: every edge from a parent \<open>c div 2 \<ge> lo\<close> to \<open>c \<le> N\<close> is in order,
  except those leaving \<open>k\<close>; the elements below \<open>k\<close> are in order with the parent of \<open>k\<close>.
\<close>

definition heap_edge :: "('a \<Rightarrow> 'a \<Rightarrow> int) \<Rightarrow> 'a list \<Rightarrow> nat \<Rightarrow> nat \<Rightarrow> bool" where
  "heap_edge cmp xs p c \<longleftrightarrow> cmp (xs ! p) (xs ! c) \<ge> 0"

definition heap_from :: "('a \<Rightarrow> 'a \<Rightarrow> int) \<Rightarrow> 'a list \<Rightarrow> nat \<Rightarrow> nat \<Rightarrow> bool" where
  "heap_from cmp xs lo N \<longleftrightarrow> (\<forall>c. 1 \<le> c \<and> c \<le> N \<and> lo \<le> c div 2 \<longrightarrow> heap_edge cmp xs (c div 2) c)"

definition heap_hole :: "('a \<Rightarrow> 'a \<Rightarrow> int) \<Rightarrow> 'a list \<Rightarrow> nat \<Rightarrow> nat \<Rightarrow> nat \<Rightarrow> bool" where
  "heap_hole cmp xs lo N k \<longleftrightarrow> lo \<le> k
     \<and> (\<forall>c. 1 \<le> c \<and> c \<le> N \<and> lo \<le> c div 2 \<and> c div 2 \<noteq> k \<longrightarrow> heap_edge cmp xs (c div 2) c)
     \<and> (\<forall>c. 1 \<le> c \<and> c \<le> N \<and> c div 2 = k \<and> 1 \<le> k \<and> lo \<le> k div 2 \<longrightarrow> heap_edge cmp xs (k div 2) c)"

text \<open>The child \<open>downheap\<close> compares with: the larger of \<open>2k\<close> and \<open>2k + 1\<close> within \<open>N\<close>.\<close>

definition down_child :: "('a \<Rightarrow> 'a \<Rightarrow> int) \<Rightarrow> 'a list \<Rightarrow> nat \<Rightarrow> nat \<Rightarrow> nat" where
  "down_child cmp xs N k =
     (if 2 * k < N \<and> cmp (xs ! (2 * k)) (xs ! (2 * k + 1)) < 0 then 2 * k + 1 else 2 * k)"

lemma downheap_unfold:
  "downheap cmp xs N k =
     (if k \<le> N div 2 then
        (let j = down_child cmp xs N k
         in if cmp (xs ! k) (xs ! j) \<ge> 0 then Some xs else downheap cmp (swap xs j k) N j)
      else Some xs)"
  by (subst downheap.simps) (simp add: Let_def down_child_def)

lemma down_child_bounds:
  "k \<le> N div 2 \<Longrightarrow> down_child cmp xs N k \<le> N \<and> down_child cmp xs N k div 2 = k"
  by (auto simp: down_child_def)

text \<open>The extraction loop keeps a heap in front of a sorted suffix that bounds it.\<close>

definition extract_inv :: "('a \<Rightarrow> 'a \<Rightarrow> int) \<Rightarrow> 'a list \<Rightarrow> nat \<Rightarrow> bool" where
  "extract_inv cmp xs N \<longleftrightarrow> N < length xs \<and> heap_from cmp xs 0 N
     \<and> sorted_wrt (\<lambda>x y. cmp x y \<le> 0) (drop (Suc N) xs)
     \<and> (\<forall>a \<in> set (take (Suc N) xs). \<forall>b \<in> set (drop (Suc N) xs). cmp a b \<le> 0)"

section \<open>Binary search\<close>

text \<open>The sign of the comparison with the key never increases along the array.\<close>

definition key_mono :: "('k \<Rightarrow> 'a \<Rightarrow> int) \<Rightarrow> 'k \<Rightarrow> 'a list \<Rightarrow> bool" where
  "key_mono compar key base \<longleftrightarrow> (\<forall>i j. i \<le> j \<and> j < length base \<longrightarrow>
     (compar key (base ! i) < 0 \<longrightarrow> compar key (base ! j) < 0)
     \<and> (compar key (base ! j) > 0 \<longrightarrow> compar key (base ! i) > 0))"

lemma bsearch_loop_spec:
  assumes "key_mono compar key base" and "length base \<le> 2 ^ 31" and "u \<le> length base"
    and "\<forall>i < l. compar key (base ! i) > 0"
    and "\<forall>i. u \<le> i \<and> i < length base \<longrightarrow> compar key (base ! i) < 0"
  shows "\<exists>r. bsearch_loop compar key base l u = Some r \<and>
    (case r of None \<Rightarrow> \<forall>i < length base. compar key (base ! i) \<noteq> 0
     | Some i \<Rightarrow> i < length base \<and> compar key (base ! i) = 0)"
  using assms(3-)
proof (induction "u - l" arbitrary: l u rule: less_induct)
  case less
  show ?case
  proof (cases "l < u")
    case False
    then have "compar key (base ! i) \<noteq> 0" if "i < length base" for i
      using less.prems that by (metis leI less_le_trans less_irrefl)
    with False show ?thesis by (simp add: bsearch_loop.simps)
  next
    case True
    let ?idx = "(l + u) div 2"
    have idx: "l \<le> ?idx" "?idx < u" using True by auto
    have "(l + u) mod 2 ^ 32 = l + u" using True less.prems(1) assms(2) by simp
    then have unf: "bsearch_loop compar key base l u =
        (if compar key (base ! ?idx) < 0 then bsearch_loop compar key base l ?idx
         else if compar key (base ! ?idx) > 0 then bsearch_loop compar key base (?idx + 1) u
         else Some (Some ?idx))"
      using True by (subst bsearch_loop.simps) (simp add: Let_def)
    have mono: "compar key (base ! ?idx) < 0 \<Longrightarrow> ?idx \<le> i \<Longrightarrow> i < length base \<Longrightarrow> compar key (base ! i) < 0"
      "compar key (base ! ?idx) > 0 \<Longrightarrow> i < ?idx + 1 \<Longrightarrow> compar key (base ! i) > 0" for i
      using assms(1) idx(2) less.prems(1) unfolding key_mono_def
      by (metis, metis add.commute less_Suc_eq_le plus_1_eq_Suc less_le_trans)
    consider "compar key (base ! ?idx) < 0" | "compar key (base ! ?idx) > 0"
      | "compar key (base ! ?idx) = 0" by linarith
    then show ?thesis
    proof cases
      case 1
      with unf less.hyps [of ?idx l] idx less.prems mono(1) show ?thesis by simp
    next
      case 2
      with unf less.hyps [of u "?idx + 1"] idx less.prems mono(2) show ?thesis by simp
    next
      case 3
      with unf idx less.prems(1) show ?thesis by simp
    qed
  qed
qed

lemma bsearch_spec:
  assumes "key_mono compar key base" and "length base \<le> 2 ^ 31"
  shows "\<exists>r. bsearch compar key base = Some r \<and>
    (case r of None \<Rightarrow> \<forall>i < length base. compar key (base ! i) \<noteq> 0
     | Some i \<Rightarrow> i < length base \<and> compar key (base ! i) = 0)"
  using bsearch_loop_spec [OF assms, of "length base" 0] by (simp add: bsearch_def)

section \<open>The comparator contract\<close>

locale comparator =
  fixes cmp :: "'a \<Rightarrow> 'a \<Rightarrow> int"
  assumes cmp_refl: "cmp x x = 0"
    and cmp_anti: "cmp x y < 0 \<longleftrightarrow> cmp y x > 0"
    and cmp_trans: "cmp x y \<le> 0 \<Longrightarrow> cmp y z \<le> 0 \<Longrightarrow> cmp x z \<le> 0"
begin

lemma cmp_total: "cmp x y \<le> 0 \<or> cmp y x \<le> 0"
  using cmp_anti [of x y] cmp_anti [of y x] by linarith

lemma cmp_ge_flip: "cmp x y \<ge> 0 \<longleftrightarrow> cmp y x \<le> 0"
  using cmp_anti [of x y] by linarith

lemma cmp_ge_trans: "cmp x y \<ge> 0 \<Longrightarrow> cmp y z \<ge> 0 \<Longrightarrow> cmp x z \<ge> 0"
  using cmp_trans by (meson cmp_ge_flip)

lemma down_child_top:
  assumes "c div 2 = k" "c \<le> N"
  shows "heap_edge cmp xs (down_child cmp xs N k) c"
proof (cases "c = down_child cmp xs N k")
  case True
  then show ?thesis by (simp add: heap_edge_def cmp_refl)
next
  case False
  let ?j = "down_child cmp xs N k"
  from assms(1) have "c = 2 * k \<or> c = 2 * k + 1" by auto
  with False assms(2) have "cmp (xs ! c) (xs ! ?j) < 0 \<or> cmp (xs ! ?j) (xs ! c) \<ge> 0"
    by (auto simp: down_child_def split: if_splits)
  then show ?thesis using cmp_anti [of "xs ! c" "xs ! ?j"] by (auto simp: heap_edge_def)
qed

lemma heap_hole_stop:
  assumes hole: "heap_hole cmp xs lo N k"
    and ge: "cmp (xs ! k) (xs ! down_child cmp xs N k) \<ge> 0"
  shows "heap_from cmp xs lo N"
  unfolding heap_from_def
proof (intro allI impI)
  fix c assume c: "1 \<le> c \<and> c \<le> N \<and> lo \<le> c div 2"
  show "heap_edge cmp xs (c div 2) c"
  proof (cases "c div 2 = k")
    case False
    with c hole show ?thesis by (simp add: heap_hole_def)
  next
    case True
    with c down_child_top [of c k N xs] ge show ?thesis
      by (auto simp: heap_edge_def intro: cmp_ge_trans)
  qed
qed

lemma heap_hole_swap:
  assumes hole: "heap_hole cmp xs lo N k" and N: "N < length xs" and k: "k \<le> N div 2"
    and j_def: "j = down_child cmp xs N k" and lt: "cmp (xs ! k) (xs ! j) < 0"
  shows "heap_hole cmp (list_swap xs j k) lo N j"
proof -
  have j: "j \<le> N" "j div 2 = k" using down_child_bounds [OF k] by (auto simp: j_def)
  have jk: "j \<noteq> k" using lt cmp_refl by auto
  then have kj: "k < j" using j by auto
  have len: "j < length xs" "k < length xs" using j N kj by auto
  note nth = nth_list_swap [OF len]
  have top: "c div 2 = k \<Longrightarrow> c \<le> N \<Longrightarrow> heap_edge cmp xs j c" for c
    using down_child_top by (simp add: j_def)
  have up: "heap_edge cmp xs j k" using lt cmp_anti [of "xs ! k"] by (auto simp: heap_edge_def)
  show ?thesis
    unfolding heap_hole_def
  proof (intro conjI allI impI)
    show "lo \<le> j" using hole kj by (simp add: heap_hole_def)
  next
    fix c assume c: "1 \<le> c \<and> c \<le> N \<and> lo \<le> c div 2 \<and> c div 2 \<noteq> j"
    then have cl: "c < length xs" "c div 2 < length xs" using N by auto
    consider "c div 2 = k" "c \<noteq> k" | "c = k" "c div 2 \<noteq> k" | "c \<noteq> k" "c div 2 \<noteq> k" "c \<noteq> j"
      using c j by force
    then show "heap_edge cmp (list_swap xs j k) (c div 2) c"
    proof cases
      case 1
      with c top [of c] up jk len show ?thesis by (simp add: heap_edge_def nth cl)
    next
      case 2
      then have "heap_edge cmp xs (k div 2) j" using c j hole kj by (simp add: heap_hole_def)
      with 2 c jk len show ?thesis by (simp add: heap_edge_def nth cl)
    next
      case 3
      with c hole show ?thesis by (simp add: heap_edge_def heap_hole_def nth cl)
    qed
  next
    fix c assume c: "1 \<le> c \<and> c \<le> N \<and> c div 2 = j \<and> 1 \<le> j \<and> lo \<le> j div 2"
    then have cl: "c < length xs" "c \<noteq> j" "c \<noteq> k" using N kj by auto
    have "heap_edge cmp xs j c" using c hole jk kj by (auto simp: heap_hole_def)
    then show "heap_edge cmp (list_swap xs j k) (j div 2) c"
      using j jk cl len by (simp add: heap_edge_def nth)
  qed
qed

lemma downheap_spec:
  assumes "heap_hole cmp xs lo N k" and "N < length xs"
  shows "\<exists>ys. downheap cmp xs N k = Some ys \<and> heap_from cmp ys lo N \<and> mset ys = mset xs
    \<and> (\<forall>i. (i < k \<or> N < i) \<and> i < length xs \<longrightarrow> ys ! i = xs ! i)"
  using assms
proof (induction "Suc N - k" arbitrary: xs k rule: less_induct)
  case less
  let ?j = "down_child cmp xs N k"
  show ?case
  proof (cases "k \<le> N div 2 \<and> cmp (xs ! k) (xs ! ?j) < 0")
    case False
    then have "downheap cmp xs N k = Some xs" by (auto simp: downheap_unfold [of cmp xs N k] Let_def)
    moreover have "heap_from cmp xs lo N"
      using False less.prems(1) heap_hole_stop [OF less.prems(1)]
      by (cases "k \<le> N div 2") (auto simp: heap_hole_def heap_from_def)
    ultimately show ?thesis by simp
  next
    case True
    have j: "?j \<le> N" "?j div 2 = k" using down_child_bounds True by blast+
    have jk: "?j \<noteq> k" using True cmp_refl by auto
    then have kj: "k < ?j" using j by auto
    have sw: "swap xs ?j k = list_swap xs ?j k" using jk by (simp add: swap_def)
    have dh: "downheap cmp xs N k = downheap cmp (list_swap xs ?j k) N ?j"
      using True sw by (simp add: downheap_unfold [of cmp xs N k] Let_def)
    have len: "?j < length xs" "k < length xs" using j less.prems(2) kj by auto
    have "heap_hole cmp (list_swap xs ?j k) lo N ?j"
      using heap_hole_swap less.prems True by blast
    then obtain zs where zs: "downheap cmp (list_swap xs ?j k) N ?j = Some zs"
      "heap_from cmp zs lo N" "mset zs = mset (list_swap xs ?j k)"
      "\<forall>i. (i < ?j \<or> N < i) \<and> i < length xs \<longrightarrow> zs ! i = list_swap xs ?j k ! i"
      using less.hyps [of ?j "list_swap xs ?j k"] diff_less_mono2 [of k ?j "Suc N"] kj j
        less.prems(2) by (auto simp del: diff_Suc_Suc)
    have "zs ! i = xs ! i" if "i < k \<or> N < i" "i < length xs" for i
      using that zs(4) nth_list_swap [OF len that(2)] kj j by auto
    with zs show ?thesis by (simp add: dh mset_list_swap len)
  qed
qed

lemma downheap_split:
  assumes "heap_hole cmp xs lo N k" and "N < length xs"
  shows "\<exists>ys. downheap cmp xs N k = Some ys \<and> heap_from cmp ys lo N
    \<and> mset (take (Suc N) ys) = mset (take (Suc N) xs) \<and> drop (Suc N) ys = drop (Suc N) xs"
proof -
  obtain ys where ys: "downheap cmp xs N k = Some ys" "heap_from cmp ys lo N" "mset ys = mset xs"
    "\<forall>i. (i < k \<or> N < i) \<and> i < length xs \<longrightarrow> ys ! i = xs ! i"
    using downheap_spec [OF assms] by blast
  have len: "length ys = length xs" using ys(3) by (rule mset_eq_length)
  have d: "drop (Suc N) ys = drop (Suc N) xs"
    by (rule nth_equalityI) (use ys(4) len in auto)
  have "mset (take (Suc N) ys) + mset (drop (Suc N) ys) = mset (take (Suc N) xs) + mset (drop (Suc N) xs)"
    using ys(3) by (metis append_take_drop_id mset_append)
  with ys d show ?thesis by simp
qed

lemma qsort_build_spec:
  "heap_from cmp xs k N \<Longrightarrow> N < length xs \<Longrightarrow>
   \<exists>ys. qsort_build cmp xs N k = Some ys \<and> heap_from cmp ys 0 N \<and> mset ys = mset xs"
proof (induction k arbitrary: xs)
  case 0
  then show ?case by simp
next
  case (Suc k)
  have "heap_hole cmp xs k N k"
    using Suc.prems(1) by (auto simp: heap_from_def heap_hole_def)
  then obtain ys where "downheap cmp xs N k = Some ys" "heap_from cmp ys k N" "mset ys = mset xs"
    using downheap_spec Suc.prems(2) by blast
  with Suc.IH [of ys] Suc.prems(2) show ?case by (auto dest: mset_eq_length)
qed

lemma heap_root_max: "heap_from cmp xs 0 N \<Longrightarrow> i \<le> N \<Longrightarrow> cmp (xs ! 0) (xs ! i) \<ge> 0"
proof (induction i rule: less_induct)
  case (less i)
  show ?case
  proof (cases "i = 0")
    case True
    then show ?thesis by (simp add: cmp_refl)
  next
    case False
    then have "cmp (xs ! 0) (xs ! (i div 2)) \<ge> 0" "heap_edge cmp xs (i div 2) i"
      using less by (auto simp: heap_from_def)
    then show ?thesis by (auto simp: heap_edge_def intro: cmp_ge_trans)
  qed
qed

lemma extract_inv_step:
  assumes inv: "extract_inv cmp xs (Suc N)"
  shows "\<exists>ys. downheap cmp (swap xs 0 (Suc N)) N 0 = Some ys \<and> extract_inv cmp ys N \<and> mset ys = mset xs"
proof -
  let ?ys = "list_swap xs 0 (Suc N)"
  have len: "Suc N < length xs" "0 < length xs" using inv by (auto simp: extract_inv_def)
  note nth = nth_list_swap [OF len(2,1)]
  have "heap_hole cmp ?ys 0 N 0"
    using inv len by (auto simp: heap_hole_def extract_inv_def heap_from_def heap_edge_def nth)
  then obtain zs where zs: "downheap cmp ?ys N 0 = Some zs" "heap_from cmp zs 0 N"
    "mset (take (Suc N) zs) = mset (take (Suc N) ?ys)" "drop (Suc N) zs = drop (Suc N) ?ys"
    using downheap_split len by (metis Suc_lessD length_list_swap)
  have m: "mset zs = mset xs"
    using zs(3,4) mset_list_swap [OF len(2,1)] by (metis append_take_drop_id mset_append)
  have dr: "drop (Suc N) ?ys = xs ! 0 # drop (Suc (Suc N)) xs"
    using len by (simp add: Cons_nth_drop_Suc [symmetric] nth) (simp add: list_swap_def)
  have "?ys ! i \<in> set (take (Suc (Suc N)) xs)" if "i < Suc N" for i
    using that len by (simp add: nth nth_in_take)
  then have tk: "set (take (Suc N) ?ys) \<subseteq> set (take (Suc (Suc N)) xs)"
    by (auto simp: in_set_conv_nth [of _ "take (Suc N) ?ys"])
  have top: "cmp a (xs ! 0) \<le> 0" if "a \<in> set (take (Suc (Suc N)) xs)" for a
    using that inv heap_root_max [of xs "Suc N"]
    by (auto simp: in_set_conv_nth extract_inv_def cmp_ge_flip)
  have bound: "cmp a b \<le> 0" if "a \<in> set (take (Suc (Suc N)) xs)" "b \<in> set (drop (Suc (Suc N)) xs)"
    for a b using that inv by (auto simp: extract_inv_def)
  have x0: "xs ! 0 \<in> set (take (Suc (Suc N)) xs)" using len by (cases xs) auto
  have zset: "set (take (Suc N) zs) \<subseteq> set (take (Suc (Suc N)) xs)"
    using zs(3) tk by (metis set_mset_mset)
  have "extract_inv cmp zs N"
    using inv zs(2,4) dr zset top bound x0 m len
    by (auto simp: extract_inv_def dest!: mset_eq_length)
  with zs m show ?thesis by (auto simp: swap_def)
qed

lemma qsort_extract_spec:
  "extract_inv cmp xs N \<Longrightarrow>
   \<exists>ys. qsort_extract cmp xs N = Some ys \<and> sorted_wrt (\<lambda>x y. cmp x y \<le> 0) ys \<and> mset ys = mset xs"
proof (induction N arbitrary: xs)
  case 0
  then have "sorted_wrt (\<lambda>x y. cmp x y \<le> 0) (take 1 xs @ drop 1 xs)"
    by (subst sorted_wrt_append) (cases xs; auto simp: extract_inv_def)
  then show ?case by simp
next
  case (Suc N)
  then show ?case using extract_inv_step [OF Suc.prems] by fastforce
qed

theorem qsort_sorts:
  "\<exists>ys. qsort cmp xs = Some ys \<and> sorted_wrt (\<lambda>x y. cmp x y \<le> 0) ys \<and> mset ys = mset xs"
proof (cases "xs = []")
  case True
  then show ?thesis by (simp add: qsort_def)
next
  case False
  let ?N = "length xs - 1"
  have "heap_from cmp xs (?N div 2 + 1) ?N" by (auto simp: heap_from_def)
  then obtain ys where ys: "qsort_build cmp xs ?N (?N div 2 + 1) = Some ys"
    "heap_from cmp ys 0 ?N" "mset ys = mset xs"
    using qsort_build_spec False by (metis diff_less length_greater_0_conv zero_less_one)
  have "extract_inv cmp ys ?N"
    using ys(2) mset_eq_length [OF ys(3)] False by (cases xs) (auto simp: extract_inv_def)
  with ys show ?thesis
    using qsort_extract_spec [of ys ?N] False
    by (auto simp: qsort_def Let_def simp del: qsort_build.simps)
qed

lemma sorted_key_mono:
  assumes "sorted_wrt (\<lambda>x y. cmp x y \<le> 0) xs"
  shows "key_mono cmp key xs"
  unfolding key_mono_def
proof (intro allI impI)
  fix i j assume ij: "i \<le> j \<and> j < length xs"
  have le: "cmp (xs ! i) (xs ! j) \<le> 0"
    using assms ij by (cases "i = j") (auto simp: cmp_refl sorted_wrt_iff_nth_less)
  show "(cmp key (xs ! i) < 0 \<longrightarrow> cmp key (xs ! j) < 0) \<and> (cmp key (xs ! j) > 0 \<longrightarrow> cmp key (xs ! i) > 0)"
    using le cmp_trans [of "xs ! j" key "xs ! i"] cmp_trans [of "xs ! i" "xs ! j" key]
      cmp_trans [of key "xs ! i" "xs ! j"] by (meson cmp_ge_flip cmp_anti cmp_ge_trans not_le)
qed

text \<open>Searching what \<open>qsort\<close> returned decides membership up to the comparison.\<close>

lemma qsort_bsearch:
  assumes "length xs \<le> 2 ^ 31"
  shows "\<exists>ys r. qsort cmp xs = Some ys \<and> bsearch cmp key ys = Some r
    \<and> (r \<noteq> None \<longleftrightarrow> (\<exists>x \<in> set xs. cmp key x = 0))
    \<and> (\<forall>i. r = Some i \<longrightarrow> i < length ys \<and> cmp key (ys ! i) = 0)"
proof -
  obtain ys where ys: "qsort cmp xs = Some ys" "sorted_wrt (\<lambda>x y. cmp x y \<le> 0) ys" "mset ys = mset xs"
    using qsort_sorts by blast
  have set: "set ys = set xs" using ys(3) by (rule mset_eq_setD)
  have len: "length ys \<le> 2 ^ 31" using assms mset_eq_length [OF ys(3)] by simp
  obtain r where r: "bsearch cmp key ys = Some r"
    "case r of None \<Rightarrow> \<forall>i < length ys. cmp key (ys ! i) \<noteq> 0 | Some i \<Rightarrow> i < length ys \<and> cmp key (ys ! i) = 0"
    using bsearch_spec [OF sorted_key_mono [OF ys(2)] len] by blast
  have "r \<noteq> None \<longleftrightarrow> (\<exists>x \<in> set ys. cmp key x = 0)"
    using r(2) by (cases r) (auto simp: in_set_conv_nth intro: nth_mem)
  with ys(1) r show ?thesis by (auto simp: set)
qed

end

section \<open>Properties\<close>

interpretation int_order: comparator "\<lambda>a b :: int. a - b"
  by unfold_locales simp_all

text \<open>
  C19. For every comparison function that is a total preorder, \<open>qsort\<close> terminates within the
  array's bounds and returns a sorted permutation of its input.
\<close>

theorem qsort_correct:
  assumes "comparator cmp"
  shows "\<exists>ys. qsort cmp xs = Some ys \<and> sorted_wrt (\<lambda>x y. cmp x y \<le> 0) ys \<and> mset ys = mset xs"
  using comparator.qsort_sorts [OF assms] .

theorem qsort_correct_witness:
  "\<exists>ys. qsort (\<lambda>a b :: int. a - b) [3, 1, 2] = Some ys \<and> sorted ys \<and> mset ys = {#1, 2, 3#}"
  using qsort_correct [OF int_order.comparator_axioms, of "[3, 1, 2]"] by (auto simp: add_mset_commute)

text \<open>
  On an array of at most \<open>2^31\<close> elements sorted by \<open>qsort\<close>, \<open>bsearch\<close> terminates and finds
  an element equal to the key exactly when the original array holds one.
\<close>

theorem bsearch_finds_sorted:
  assumes "comparator cmp" "length xs \<le> 2 ^ 31"
  shows "\<exists>ys r. qsort cmp xs = Some ys \<and> bsearch cmp key ys = Some r
    \<and> (r \<noteq> None \<longleftrightarrow> (\<exists>x \<in> set xs. cmp key x = 0))
    \<and> (\<forall>i. r = Some i \<longrightarrow> i < length ys \<and> cmp key (ys ! i) = 0)"
  using comparator.qsort_bsearch [OF assms] .

theorem bsearch_finds_sorted_witness:
  "\<exists>ys i. qsort (\<lambda>a b :: int. a - b) [3, 1, 2] = Some ys
     \<and> bsearch (\<lambda>a b. a - b) 2 ys = Some (Some i) \<and> ys ! i = 2"
  using bsearch_finds_sorted [OF int_order.comparator_axioms, of "[3, 1, 2]" 2] by auto

end
