(* ===== verification/Sysmsg.thy ===== *)
theory Sysmsg
  imports Sysmsg_Filter Sort
begin

text \<open>
  The system message server \<^verbatim>\<open>sys/msg/sysmsg.c\<close>: per-process clients with a subscription
  mask and a label filter, the subscription index, and \<open>broadcast\<close>.  \<open>None\<close> is
  \<^verbatim>\<open>abort()\<close>, a failed assertion or a buffer overrun.  A client pointer is identified with
  the client's PID, the key of the client table; \<open>mem\<close> is the oracle for the allocations to
  come (an exhausted oracle means success).  The IPC to a client is described by an
  argument that says which recursive calls its handler makes and what it replies.
\<close>

section \<open>State\<close>

text \<open>\<open>n_filters\<close> is a signed \<^verbatim>\<open>int\<close>; the sum that is stored in it wraps around.\<close>

record msgclient =
  recv_tid :: l4_tid
  subs_mask :: u32
  filter_mask :: u32
  n_filters :: u32
  flt :: "bfilter option"
  csubs :: "nat list"

record sysmsg =
  clients :: "u16 \<rightharpoonup> msgclient"
  subs_ht :: "(nat \<times> u16) list"
  filter_salt :: "u32 list"
  main_tid :: l4_tid
  mem :: "bool list"
  sent :: "(u16 \<times> u32 \<times> u32 list) list"

definition malloc_ok :: "sysmsg \<Rightarrow> bool \<times> sysmsg" where
  "malloc_ok s = (case mem s of [] \<Rightarrow> (True, s) | b # bs \<Rightarrow> (b, s\<lparr>mem := bs\<rparr>))"

definition client_pid :: "sysmsg \<Rightarrow> l4_tid \<Rightarrow> u16" where
  "client_pid s tid = ucast (pidof_NP (main_tid s) tid)"

definition get_client :: "sysmsg \<Rightarrow> l4_tid \<Rightarrow> msgclient option" where
  "get_client s tid = clients s (client_pid s tid)"

definition upd_client :: "sysmsg \<Rightarrow> u16 \<Rightarrow> (msgclient \<Rightarrow> msgclient) \<Rightarrow> sysmsg" where
  "upd_client s pid f = s\<lparr>clients := (clients s)(pid := map_option f (clients s pid))\<rparr>"

section \<open>Subscriptions\<close>

definition rmsub :: "u16 \<Rightarrow> sysmsg \<Rightarrow> nat \<Rightarrow> sysmsg" where
  "rmsub pid s b =
     (let s = upd_client s pid (\<lambda>c. c\<lparr>csubs := removeAll b (csubs c)\<rparr>)
      in s\<lparr>subs_ht := removeAll (b, pid) (subs_ht s)\<rparr>)"

definition addsub :: "u16 \<Rightarrow> sysmsg \<Rightarrow> nat \<Rightarrow> sysmsg option" where
  "addsub pid s b =
     (let (ok, s) = malloc_ok s in
      if \<not> ok then None
      else let (ok, s) = malloc_ok s in
      if \<not> ok then None
      else (let s = s\<lparr>subs_ht := subs_ht s @ [(b, pid)]\<rparr>
            in Some (upd_client s pid (\<lambda>c. c\<lparr>csubs := csubs c @ [b]\<rparr>))))"

fun addsubs :: "u16 \<Rightarrow> sysmsg \<Rightarrow> nat list \<Rightarrow> sysmsg option" where
  "addsubs pid s [] = Some s"
| "addsubs pid s (b # bs) = (case addsub pid s b of None \<Rightarrow> None | Some s \<Rightarrow> addsubs pid s bs)"

definition new_msgclient :: "l4_tid \<Rightarrow> msgclient" where
  "new_msgclient tid = \<lparr>recv_tid = tid, subs_mask = 0, filter_mask = 0, n_filters = 0,
     flt = None, csubs = []\<rparr>"

text \<open>The lookup-or-create head of \<open>setmask\<close>: the allocation and the table insertion abort.\<close>

definition setmask_client :: "sysmsg \<Rightarrow> l4_tid \<Rightarrow> sysmsg option" where
  "setmask_client s tid =
     (case get_client s tid of Some _ \<Rightarrow> Some s
      | None \<Rightarrow>
          let (ok, s) = malloc_ok s in
          if \<not> ok then None
          else let (ok, s) = malloc_ok s in
          if \<not> ok then None
          else Some (s\<lparr>clients := (clients s)(client_pid s tid \<mapsto> new_msgclient tid)\<rparr>))"

definition setmask_apply :: "sysmsg \<Rightarrow> u16 \<Rightarrow> msgclient \<Rightarrow> u32 \<Rightarrow> u32 \<Rightarrow> (u32 \<times> sysmsg) option" where
  "setmask_apply s pid c orm andm =
     (let old_mask = subs_mask c;
          new_mask = (old_mask AND andm) OR orm;
          removed = old_mask AND NOT new_mask;
          added = NOT old_mask AND new_mask;
          s = upd_client s pid (\<lambda>c. c\<lparr>subs_mask := new_mask,
                filter_mask := filter_mask c AND NOT removed\<rparr>);
          s = foldl (rmsub pid) s (bit_loop removed)
      in case addsubs pid s (bit_loop added) of None \<Rightarrow> None
         | Some s \<Rightarrow> Some (old_mask, s))"

definition setmask :: "sysmsg \<Rightarrow> l4_tid \<Rightarrow> u32 \<Rightarrow> u32 \<Rightarrow> (u32 \<times> sysmsg) option" where
  "setmask s tid orm andm =
     (if get_client s tid = None \<and> andm = 0 \<and> orm = 0 then Some (0, s)
      else case setmask_client s tid of None \<Rightarrow> None
      | Some s \<Rightarrow>
          (case get_client s tid of None \<Rightarrow> None
           | Some c \<Rightarrow> setmask_apply s (client_pid s tid) c orm andm))"

section \<open>Label filters\<close>

text \<open>\<open>add_filter\<close> without a client, or when the filter cannot be allocated, only logs.\<close>

definition label_list_keys :: "sysmsg \<Rightarrow> u32 \<Rightarrow> u32 list \<Rightarrow> u32 list" where
  "label_list_keys s msk labels = concat (map (label_keys (filter_salt s) msk) labels)"

definition add_filter :: "sysmsg \<Rightarrow> l4_tid \<Rightarrow> u32 \<Rightarrow> u32 list \<Rightarrow> sysmsg option" where
  "add_filter s tid msk labels =
     (case get_client s tid of None \<Rightarrow> Some s
      | Some c \<Rightarrow>
          let (f, s) = (case flt c of Some f \<Rightarrow> (Some f, s)
                | None \<Rightarrow> let (ok, s) = malloc_ok s
                          in (if ok then Some (replicate FILTER_SIZE 0) else None, s))
          in if flt c = None \<and> n_filters c \<noteq> 0 then None
             else case f of None \<Rightarrow> Some s
             | Some f \<Rightarrow> Some (upd_client s (client_pid s tid) (\<lambda>c. c\<lparr>
                  flt := Some (insert_all filter_add_key f (label_list_keys s msk labels)),
                  filter_mask := (if labels = [] then filter_mask c else filter_mask c OR msk),
                  n_filters := n_filters c + of_nat (length labels) * of_nat (length (bit_loop msk))\<rparr>)))"

definition rm_filter :: "sysmsg \<Rightarrow> l4_tid \<Rightarrow> u32 \<Rightarrow> u32 list \<Rightarrow> sysmsg option" where
  "rm_filter s tid msk labels =
     (case get_client s tid of None \<Rightarrow> Some s
      | Some c \<Rightarrow>
          (case flt c of None \<Rightarrow> Some s
           | Some f \<Rightarrow>
               let (f, removed) = remove_all filter_query_key filter_rm_key f
                     (label_list_keys s msk labels)
               in if int removed > sint (n_filters c) then None
                  else Some (upd_client s (client_pid s tid) (\<lambda>c.
                    let n = n_filters c - of_nat removed
                    in c\<lparr>n_filters := n, flt := (if n = 0 then None else Some f)\<rparr>))))"

section \<open>Broadcast\<close>

text \<open>
  A message from a handler: the number of its words, and the message registers, which hold something beyond the last word too; the reply is an
  error number or a list of words.  The labels of a filter call are the words after the second one; a message with fewer than two makes the
  count negative, and more than sixty run past the buffer.
\<close>

type_synonym message = "nat \<times> (nat \<Rightarrow> u32)"

definition recursive_sysmsg_call :: "sysmsg \<Rightarrow> l4_tid \<Rightarrow> message \<Rightarrow> ((int + u32 list) \<times> sysmsg) option" where
  "recursive_sysmsg_call s sender msg =
     (let (n_words, mr) = msg; oplabel = mr 1 in
      if oplabel = 1 then
        (let orm = mr 1; andm = mr 2
         in map_option (\<lambda>(old, s). (Inr [old], s)) (setmask s sender orm andm))
      else if oplabel = 2 then Some (Inl EAGAIN, s)
      else if oplabel = 3 \<or> oplabel = 4 then
        (let n_labels = int n_words - 2; msk = mr 2; labels = map mr [3..<Suc n_words]
         in if n_labels < 0 \<or> n_labels > 60 then None
            else map_option (\<lambda>s. (Inr [], s))
              ((if oplabel = 3 then add_filter else rm_filter) s sender msk labels))
      else Some (Inl ENOSYS, s))"

fun handler_calls :: "sysmsg \<Rightarrow> l4_tid \<Rightarrow> message list \<Rightarrow> sysmsg option" where
  "handler_calls s tid [] = Some s"
| "handler_calls s tid (m # ms) =
     (case recursive_sysmsg_call s tid m of None \<Rightarrow> None
      | Some (_, s) \<Rightarrow> handler_calls s tid ms)"

type_synonym handler_env = "u16 \<Rightarrow> message list \<times> int"

definition send_to_client ::
  "handler_env \<Rightarrow> sysmsg \<Rightarrow> l4_tid \<Rightarrow> u16 \<Rightarrow> msgclient \<Rightarrow> u32 \<Rightarrow> u32 list \<Rightarrow> (int \<times> sysmsg) option" where
  "send_to_client env s sender pid c bits body =
     (if recv_tid c = sender then None
      else let s = s\<lparr>sent := sent s @ [(pid, bits, body)]\<rparr>
           in map_option (\<lambda>s. (snd (env pid), s)) (handler_calls s (recv_tid c) (fst (env pid))))"

definition order_msgclientptr_by_pid :: "u16 \<Rightarrow> u16 \<Rightarrow> int" where
  "order_msgclientptr_by_pid l r = sint (ucast l - ucast r :: u32)"

text \<open>The receivers in the order of \<^verbatim>\<open>for_each_bit\<close>, then of the index.\<close>

definition candidates :: "sysmsg \<Rightarrow> u32 \<Rightarrow> u32 \<Rightarrow> u16 list" where
  "candidates s maskp maskn =
     concat (map (\<lambda>b. map snd (List.filter (\<lambda>(sb, pid). sb = b
        \<and> (case clients s pid of None \<Rightarrow> False | Some c \<Rightarrow> subs_mask c AND maskn = 0)) (subs_ht s)))
       (bit_loop maskp))"

text \<open>
  Filling \<open>recs\<close>: when the array is full it moves to the heap once and is then resized to
  twice its capacity.
\<close>

fun push_recs :: "sysmsg \<Rightarrow> nat \<Rightarrow> bool \<Rightarrow> u16 list \<Rightarrow> u16 list \<Rightarrow> (u16 list \<times> sysmsg) option" where
  "push_recs s alloc heap recs [] = Some (recs, s)"
| "push_recs s alloc heap recs (p # ps) =
     (if length recs = alloc then
        (let (ok1, s) = (if heap then (True, s) else malloc_ok s) in
         if \<not> ok1 then None
         else let alloc = max 16 (alloc * 2); (ok2, s) = malloc_ok s in
         if \<not> ok2 then None
         else push_recs s alloc True (recs @ [p]) ps)
      else push_recs s alloc heap (recs @ [p]) ps)"

text \<open>The in-place removal of adjacent duplicates.\<close>

function uniq_loop :: "u16 list \<Rightarrow> nat \<Rightarrow> nat \<Rightarrow> u16 list" where
  "uniq_loop recs i cnt =
     (if i < length recs then
        (if order_msgclientptr_by_pid (recs ! (i - 1)) (recs ! i) \<noteq> 0
         then uniq_loop (recs[cnt := recs ! i]) (Suc i) (Suc cnt)
         else uniq_loop recs (Suc i) cnt)
      else take cnt recs)"
  by pat_completeness auto
termination
  by (relation "measure (\<lambda>(recs, i, cnt). length recs - i)") auto

definition uniq_recs :: "u16 list \<Rightarrow> u16 list" where
  "uniq_recs recs = uniq_loop recs 1 (if length recs > 0 then 1 else 0)"

fun deliver_loop ::
  "handler_env \<Rightarrow> sysmsg \<Rightarrow> l4_tid \<Rightarrow> u32 \<Rightarrow> u32 list \<Rightarrow> u16 option \<Rightarrow> u16 list \<Rightarrow> bool \<Rightarrow> (bool \<times> sysmsg) option" where
  "deliver_loop env s sender maskp body prev [] immediate = Some (immediate, s)"
| "deliver_loop env s sender maskp body prev (p # ps) immediate =
     (if prev = Some p then None
      else case clients s p of None \<Rightarrow> None
      | Some c \<Rightarrow>
          (let f = filter_mask c in
           if f AND maskp = maskp
              \<and> \<not> filter_pass (filter_salt s) (flt c) (maskp AND f) (int_hash (hd body))
           then deliver_loop env s sender maskp body (Some p) ps immediate
           else (case send_to_client env s sender p c maskp body of None \<Rightarrow> None
                 | Some (n, s) \<Rightarrow>
                     deliver_loop env s sender maskp body (Some p) ps (if n = 1 then False else immediate))))"

text \<open>The message body of a broadcast is never empty: its first word is the label.\<close>

definition impl_broadcast ::
  "handler_env \<Rightarrow> sysmsg \<Rightarrow> l4_tid \<Rightarrow> u32 \<Rightarrow> u32 \<Rightarrow> u32 \<Rightarrow> u32 list \<Rightarrow> (bool \<times> sysmsg) option" where
  "impl_broadcast env s sender maskp maskn label rest =
     (if maskp = 0 \<or> maskn = NOT 0 then Some (True, s)
      else case push_recs s 64 False [] (candidates s maskp maskn) of None \<Rightarrow> None
      | Some (recs, s) \<Rightarrow>
          (case qsort order_msgclientptr_by_pid recs of None \<Rightarrow> None
           | Some recs \<Rightarrow>
               deliver_loop env s sender maskp (label # rest) None (uniq_recs recs) True))"

text \<open>The salts \<open>main\<close> derives by iterating the keyed hash, whose key is fixed there.\<close>

fun salt_chain :: "(u64 \<Rightarrow> u64) \<Rightarrow> nat \<Rightarrow> u64 \<Rightarrow> u32 list" where
  "salt_chain siphash 0 salt = []"
| "salt_chain siphash (Suc n) salt = (let salt = siphash salt in ucast salt # salt_chain siphash n salt)"

definition sysmsg_init :: "(u64 \<Rightarrow> u64) \<Rightarrow> l4_tid \<Rightarrow> sysmsg" where
  "sysmsg_init siphash tid = \<lparr>clients = Map.empty, subs_ht = [],
     filter_salt = salt_chain siphash 32 (siphash 0xBADC0FFEE0DDF00D), main_tid = tid,
     mem = [], sent = []\<rparr>"

section \<open>The receiver order\<close>

lemma order_by_pid_eq: "order_msgclientptr_by_pid l r = uint l - uint r"
proof -
  have "0 \<le> uint l" "uint l < 65536" "0 \<le> uint r" "uint r < 65536"
    using uint_bounded [of l] uint_bounded [of r] by simp_all
  then have "- 2147483648 \<le> uint l - uint r" "uint l - uint r < 2147483648" by linarith+
  then have "signed_take_bit 31 (uint l - uint r) = uint l - uint r"
    by (simp add: signed_take_bit_int_eq_self)
  moreover have "ucast l - ucast r = (word_of_int (uint l - uint r) :: u32)"
    by simp
  moreover have "sint (word_of_int (uint l - uint r) :: u32) = signed_take_bit 31 (uint l - uint r)"
    using signed_of_int [where ?'b = 32 and ?'a = int, of "uint l - uint r"] by simp
  ultimately show ?thesis
    by (simp only: order_msgclientptr_by_pid_def)
qed

interpretation pid_order: comparator order_msgclientptr_by_pid
  by unfold_locales (simp_all add: order_by_pid_eq)

lemma order_by_pid_0: "order_msgclientptr_by_pid l r = 0 \<longleftrightarrow> l = r"
  by (auto simp: order_by_pid_eq word_uint_eq_iff)

lemma order_by_pid_le: "order_msgclientptr_by_pid l r \<le> 0 \<longleftrightarrow> l \<le> r"
  by (simp add: order_by_pid_eq word_le_def)

text \<open>The in-place loop computes \<open>remdups_adj\<close>.\<close>

declare uniq_loop.simps [simp del]

lemma uniq_loop_spec:
  "1 \<le> i \<Longrightarrow> i \<le> length recs \<Longrightarrow> cnt \<le> i \<Longrightarrow> length orig = length recs \<Longrightarrow>
   take cnt recs = remdups_adj (take i orig) \<Longrightarrow> drop (i - 1) recs = drop (i - 1) orig \<Longrightarrow>
   uniq_loop recs i cnt = remdups_adj orig"
proof (induction recs i cnt rule: uniq_loop.induct)
  case (1 recs i cnt)
  show ?case
  proof (cases "i < length recs")
    case False
    with "1.prems" show ?thesis by (simp add: uniq_loop.simps)
  next
    case True
    have nth: "recs ! j = orig ! j" if "i - 1 \<le> j" "j < length recs" for j
    proof -
      have "drop (i - 1) recs ! (j - (i - 1)) = drop (i - 1) orig ! (j - (i - 1))"
        by (simp only: "1.prems"(6))
      then show ?thesis using that "1.prems"(4) by (simp add: nth_drop)
    qed
    have snoc: "take (Suc i) orig = take i orig @ [recs ! i]"
      using True "1.prems" nth [of i] by (simp add: take_Suc_conv_app_nth)
    have ne: "take i orig \<noteq> []" using True "1.prems" by auto
    have lst: "last (take i orig) = recs ! (i - 1)"
    proof -
      have "length (take i orig) = i" using True "1.prems" by simp
      then have "last (take i orig) = take i orig ! (i - 1)" using ne by (simp add: last_conv_nth)
      also have "\<dots> = orig ! (i - 1)" using "1.prems"(1) by simp
      also have "\<dots> = recs ! (i - 1)" using nth [of "i - 1"] True by simp
      finally show ?thesis .
    qed
    have dr: "drop i recs' = drop i orig" if "recs' = recs \<or> recs' = recs[cnt := recs ! i]" for recs'
      using that True "1.prems" nth
      by (intro nth_equalityI) (auto simp: nth_list_update)
    show ?thesis
    proof (cases "recs ! (i - 1) = recs ! i")
      case eq: True
      have "uniq_loop recs i cnt = uniq_loop recs (Suc i) cnt"
        using True eq by (subst uniq_loop.simps) (simp add: order_by_pid_0)
      also have "\<dots> = remdups_adj orig"
        using True eq "1.prems" snoc lst
        by (intro "1.IH"(2)) (auto simp: order_by_pid_0 remdups_adj_snoc [OF ne] dr)
      finally show ?thesis .
    next
      case False
      have upd: "take (Suc cnt) (recs[cnt := recs ! i]) = take cnt recs @ [recs ! i]"
        using True "1.prems" by (simp add: take_Suc_conv_app_nth)
      have "uniq_loop recs i cnt = uniq_loop (recs[cnt := recs ! i]) (Suc i) (Suc cnt)"
        using True False by (subst uniq_loop.simps) (simp add: order_by_pid_0)
      also have "\<dots> = remdups_adj orig"
        using True False "1.prems" snoc lst upd
        by (intro "1.IH"(1)) (auto simp: order_by_pid_0 remdups_adj_snoc [OF ne] dr)
      finally show ?thesis .
    qed
  qed
qed

lemma uniq_recs_eq: "uniq_recs recs = remdups_adj recs"
proof (cases recs)
  case Nil
  then show ?thesis by (simp add: uniq_recs_def uniq_loop.simps)
next
  case (Cons x xs)
  then show ?thesis using uniq_loop_spec [of 1 recs 1 recs] by (simp add: uniq_recs_def)
qed

text \<open>Sorting and removing duplicates leaves the strictly ascending list of the members.\<close>

lemma sort_uniq_recs:
  "\<exists>ys. qsort order_msgclientptr_by_pid recs = Some ys \<and> uniq_recs ys = sorted_list_of_set (set recs)"
proof -
  obtain ys where ys: "qsort order_msgclientptr_by_pid recs = Some ys"
    "sorted_wrt (\<lambda>x y. order_msgclientptr_by_pid x y \<le> 0) ys" "mset ys = mset recs"
    using pid_order.qsort_sorts by blast
  have "sorted ys" using ys(2) by (simp add: order_by_pid_le)
  then have "sorted (remdups_adj ys)" "distinct (remdups_adj ys)"
    using sorted_distinct_remdups_adj by blast+
  moreover have "set (remdups_adj ys) = set recs" using mset_eq_setD [OF ys(3)] by simp
  ultimately show ?thesis
    using ys(1) by (metis uniq_recs_eq sorted_list_of_set.idem_if_sorted_distinct)
qed

section \<open>The subscription index\<close>

text \<open>
  The invariant: the index \<open>subs_ht\<close> and the clients' own lists hold exactly one record per
  set bit of each subscription mask, a client is stored under the PID of its receiver, a
  filter has its full length and a client without one counts no filtered labels.
\<close>

definition client_ok :: "sysmsg \<Rightarrow> u16 \<Rightarrow> msgclient \<Rightarrow> bool" where
  "client_ok s pid c \<longleftrightarrow> pid = client_pid s (recv_tid c)
     \<and> distinct (csubs c) \<and> set (csubs c) = {b. bit (subs_mask c) b}
     \<and> (case flt c of None \<Rightarrow> n_filters c = 0 | Some f \<Rightarrow> length f = FILTER_SIZE)"

definition subscribed :: "sysmsg \<Rightarrow> nat \<Rightarrow> u16 \<Rightarrow> bool" where
  "subscribed s b pid \<longleftrightarrow> (case clients s pid of None \<Rightarrow> False | Some c \<Rightarrow> bit (subs_mask c) b)"

definition sysmsg_inv :: "sysmsg \<Rightarrow> bool" where
  "sysmsg_inv s \<longleftrightarrow> distinct (subs_ht s)
     \<and> (\<forall>b pid. (b, pid) \<in> set (subs_ht s) \<longleftrightarrow> subscribed s b pid)
     \<and> (\<forall>pid c. clients s pid = Some c \<longrightarrow> client_ok s pid c)"

lemma malloc_okE:
  assumes "malloc_ok s = (ok, s')"
  obtains m where "s' = s\<lparr>mem := m\<rparr>" "False \<notin> set (mem s) \<longrightarrow> ok \<and> False \<notin> set m"
  using assms by (cases s) (auto simp: malloc_ok_def split: list.splits)

lemma malloc_ok_good:
  "malloc_ok s = (ok, s') \<Longrightarrow> False \<notin> set (mem s) \<Longrightarrow> ok \<and> False \<notin> set (mem s')"
  by (cases s) (auto simp: malloc_ok_def split: list.splits)

lemma upd_client_sel [simp]:
  "clients (upd_client s pid f) = (clients s)(pid := map_option f (clients s pid))"
  "subs_ht (upd_client s pid f) = subs_ht s" "filter_salt (upd_client s pid f) = filter_salt s"
  "main_tid (upd_client s pid f) = main_tid s" "mem (upd_client s pid f) = mem s"
  "sent (upd_client s pid f) = sent s"
  by (simp_all add: upd_client_def)

lemma rmsub_sel [simp]:
  "clients (rmsub pid s b) = (clients s)(pid := map_option (\<lambda>c. c\<lparr>csubs := removeAll b (csubs c)\<rparr>) (clients s pid))"
  "subs_ht (rmsub pid s b) = removeAll (b, pid) (subs_ht s)"
  "filter_salt (rmsub pid s b) = filter_salt s" "main_tid (rmsub pid s b) = main_tid s"
  "mem (rmsub pid s b) = mem s" "sent (rmsub pid s b) = sent s"
  by (simp_all add: rmsub_def)

lemma rmsub_loop:
  fixes s :: sysmsg
  shows "clients (foldl (rmsub pid) s bs) = (clients s)(pid := map_option
      (\<lambda>c. c\<lparr>csubs := filter (\<lambda>b. b \<notin> set bs) (csubs c)\<rparr>) (clients s pid))"
    and "subs_ht (foldl (rmsub pid) s bs) = filter (\<lambda>(b, p). p = pid \<longrightarrow> b \<notin> set bs) (subs_ht s)"
    and "filter_salt (foldl (rmsub pid) s bs) = filter_salt s"
    and "main_tid (foldl (rmsub pid) s bs) = main_tid s"
    and "mem (foldl (rmsub pid) s bs) = mem s" and "sent (foldl (rmsub pid) s bs) = sent s"
proof -
  have f: "filter (\<lambda>c. c \<notin> set bs) (removeAll b xs) = filter (\<lambda>c. c \<noteq> b \<and> c \<notin> set bs) xs" for xs b bs
    by (auto simp: removeAll_filter_not_eq filter_filter intro!: filter_cong)
  show "clients (foldl (rmsub pid) s bs) = (clients s)(pid := map_option
      (\<lambda>c. c\<lparr>csubs := filter (\<lambda>b. b \<notin> set bs) (csubs c)\<rparr>) (clients s pid))"
    by (induction bs arbitrary: s) (simp_all add: f option.map_ident fun_upd_idem option.map_comp comp_def)
  have g: "filter (\<lambda>(c, p). p = pid \<longrightarrow> c \<notin> set bs) (removeAll (b, pid) xs)
    = filter (\<lambda>(c, p). p = pid \<longrightarrow> c \<noteq> b \<and> c \<notin> set bs) xs" for xs b bs
    by (auto simp: removeAll_filter_not_eq filter_filter intro!: filter_cong)
  show "subs_ht (foldl (rmsub pid) s bs) = filter (\<lambda>(b, p). p = pid \<longrightarrow> b \<notin> set bs) (subs_ht s)"
    by (induction bs arbitrary: s) (simp add: split_def, simp add: g)
qed (induction bs arbitrary: s, simp_all)+

lemma addsub_Some:
  assumes "addsub pid s b = Some s'"
  obtains m where "s' = (upd_client s pid (\<lambda>c. c\<lparr>csubs := csubs c @ [b]\<rparr>))
    \<lparr>subs_ht := subs_ht s @ [(b, pid)], mem := m\<rparr>"
proof -
  obtain ok t ok' u where m: "malloc_ok s = (ok, t)" "malloc_ok t = (ok', u)"
    by (metis surj_pair)
  obtain m1 where "t = s\<lparr>mem := m1\<rparr>" using m(1) by (rule malloc_okE)
  moreover obtain m2 where "u = t\<lparr>mem := m2\<rparr>" using m(2) by (rule malloc_okE)
  moreover have "s' = upd_client (u\<lparr>subs_ht := subs_ht u @ [(b, pid)]\<rparr>) pid (\<lambda>c. c\<lparr>csubs := csubs c @ [b]\<rparr>)"
    using assms by (auto simp: addsub_def m Let_def split: if_splits)
  ultimately show ?thesis by (intro that [of m2], cases s) (simp add: upd_client_def)
qed

lemma addsubs_Some:
  "addsubs pid s bs = Some s' \<Longrightarrow>
   \<exists>m. s' = (upd_client s pid (\<lambda>c. c\<lparr>csubs := csubs c @ bs\<rparr>))
     \<lparr>subs_ht := subs_ht s @ map (\<lambda>b. (b, pid)) bs, mem := m\<rparr>"
proof (induction bs arbitrary: s)
  case Nil
  then show ?case
    by (intro exI [of _ "mem s"]) (cases s; cases "clients s pid"; simp add: upd_client_def fun_upd_idem)
next
  case (Cons b bs)
  then obtain t where t: "addsub pid s b = Some t" "addsubs pid t bs = Some s'"
    by (auto split: option.splits)
  from t(1) obtain m where m: "t = (upd_client s pid (\<lambda>c. c\<lparr>csubs := csubs c @ [b]\<rparr>))
      \<lparr>subs_ht := subs_ht s @ [(b, pid)], mem := m\<rparr>" by (rule addsub_Some)
  from Cons.IH [OF t(2)] show ?case
    unfolding m by (cases s; cases "clients s pid") (simp_all add: upd_client_def fun_upd_idem)
qed

lemma addsubs_total:
  "False \<notin> set (mem s) \<Longrightarrow> \<exists>s'. addsubs pid s bs = Some s' \<and> False \<notin> set (mem s')"
proof (induction bs arbitrary: s)
  case Nil
  then show ?case by simp
next
  case (Cons b bs)
  have "\<exists>t. addsub pid s b = Some t \<and> False \<notin> set (mem t)"
    using Cons.prems by (fastforce simp: addsub_def Let_def split: prod.splits elim!: malloc_okE)
  then show ?case using Cons.IH by auto
qed

section \<open>Changing the subscription mask\<close>

definition setmask_to :: "msgclient \<Rightarrow> u32 \<Rightarrow> msgclient" where
  "setmask_to c new_mask =
     c\<lparr>subs_mask := new_mask, filter_mask := filter_mask c AND NOT (subs_mask c AND NOT new_mask),
       csubs := filter (\<lambda>b. \<not> bit (subs_mask c AND NOT new_mask) b) (csubs c)
         @ bit_loop (NOT (subs_mask c) AND new_mask)\<rparr>"

lemma setmask_apply_Some:
  fixes s s' :: sysmsg
  assumes "setmask_apply s pid c orm andm = Some (old, s')" "clients s pid = Some c"
  defines "new_mask \<equiv> (subs_mask c AND andm) OR orm"
  shows "old = subs_mask c" "clients s' = (clients s)(pid \<mapsto> setmask_to c new_mask)"
    "subs_ht s' = filter (\<lambda>(b, p). p = pid \<longrightarrow> \<not> bit (subs_mask c AND NOT new_mask) b) (subs_ht s)
       @ map (\<lambda>b. (b, pid)) (bit_loop (NOT (subs_mask c) AND new_mask))"
    "filter_salt s' = filter_salt s" "main_tid s' = main_tid s" "sent s' = sent s"
proof -
  let ?t = "foldl (rmsub pid) (upd_client s pid (\<lambda>c. c\<lparr>subs_mask := new_mask,
      filter_mask := filter_mask c AND NOT (subs_mask (the (clients s pid)) AND NOT new_mask)\<rparr>))
      (bit_loop (subs_mask c AND NOT new_mask))"
  have "addsubs pid ?t (bit_loop (NOT (subs_mask c) AND new_mask)) = Some s' \<and> old = subs_mask c"
    using assms(1,2) by (simp add: setmask_apply_def Let_def new_mask_def split: option.splits)
  then have a: "addsubs pid ?t (bit_loop (NOT (subs_mask c) AND new_mask)) = Some s'" and o: "old = subs_mask c"
    by auto
  show "old = subs_mask c" by (rule o)
  from addsubs_Some [OF a] obtain m where m: "s' = (upd_client ?t pid
      (\<lambda>d. d\<lparr>csubs := csubs d @ bit_loop (NOT (subs_mask c) AND new_mask)\<rparr>))
      \<lparr>subs_ht := subs_ht ?t @ map (\<lambda>b. (b, pid)) (bit_loop (NOT (subs_mask c) AND new_mask)), mem := m\<rparr>" ..
  show "clients s' = (clients s)(pid \<mapsto> setmask_to c new_mask)"
    unfolding m using assms(2) by (simp add: rmsub_loop setmask_to_def)
  show "subs_ht s' = filter (\<lambda>(b, p). p = pid \<longrightarrow> \<not> bit (subs_mask c AND NOT new_mask) b) (subs_ht s)
       @ map (\<lambda>b. (b, pid)) (bit_loop (NOT (subs_mask c) AND new_mask))"
    unfolding m by (simp add: rmsub_loop)
  show "filter_salt s' = filter_salt s" "main_tid s' = main_tid s" "sent s' = sent s"
    unfolding m by (simp_all add: rmsub_loop)
qed

lemma setmask_apply_inv:
  assumes "sysmsg_inv s" "setmask_apply s pid c orm andm = Some (old, s')" "clients s pid = Some c"
  shows "sysmsg_inv s'"
proof -
  note res = setmask_apply_Some [OF assms(2,3)]
  define new_mask where "new_mask = (subs_mask c AND andm) OR orm"
  note res = res [folded new_mask_def]
  have bits: "bit (NOT w) b \<longleftrightarrow> b < 32 \<and> \<not> bit w b" for w :: u32 and b
    by (simp add: bit_not_iff)
  have le: "bit w b \<Longrightarrow> b < 32" for w :: u32 and b using bit_imp_le_length [of w b] by simp
  from assms(1) have d: "distinct (subs_ht s)" and
    ix: "\<And>b p. (b, p) \<in> set (subs_ht s) \<longleftrightarrow> subscribed s b p" and
    ok: "\<And>p d. clients s p = Some d \<Longrightarrow> client_ok s p d" by (auto simp: sysmsg_inv_def)
  have "distinct (subs_ht s')"
    using d assms(3) by (auto simp: res(3) ix subscribed_def distinct_map bit_and_iff bits inj_on_def)
  moreover have "(b, p) \<in> set (subs_ht s') \<longleftrightarrow> subscribed s' b p" for b p
    using assms(3) le by (auto simp: res(2,3) ix subscribed_def setmask_to_def bit_and_iff bits)
  moreover have "client_ok s' pid (setmask_to c new_mask)"
    using ok [OF assms(3)] le
    by (auto simp: client_ok_def setmask_to_def client_pid_def res(5) bit_and_iff bits split: option.splits)
  ultimately show ?thesis
    using ok by (auto simp: sysmsg_inv_def res(2,5) client_ok_def client_pid_def)
qed

definition mask_of :: "sysmsg \<Rightarrow> u16 \<Rightarrow> u32" where
  "mask_of s pid = (case clients s pid of None \<Rightarrow> 0 | Some c \<Rightarrow> subs_mask c)"

lemma setmask_client_Some:
  assumes "setmask_client s tid = Some t"
  obtains m where "get_client s tid = None" "t = s\<lparr>clients := (clients s)(client_pid s tid \<mapsto> new_msgclient tid), mem := m\<rparr>"
  | "t = s" "get_client s tid \<noteq> None"
  using assms
  by (cases s) (auto simp: setmask_client_def Let_def client_pid_def
      split: option.splits prod.splits if_splits elim!: malloc_okE)

lemma setmask_client_inv:
  assumes "sysmsg_inv s" "setmask_client s tid = Some t"
  shows "sysmsg_inv t" "main_tid t = main_tid s" "filter_salt t = filter_salt s" "sent t = sent s"
    "clients t (client_pid s tid) \<noteq> None"
    "mask_of t = mask_of s" "q \<noteq> client_pid s tid \<Longrightarrow> clients t q = clients s q"
  using assms(2)
  by (rule setmask_client_Some; use assms(1) in \<open>force simp: sysmsg_inv_def subscribed_def client_ok_def
      client_pid_def get_client_def new_msgclient_def mask_of_def fun_eq_iff split: option.splits\<close>)+

lemma setmask_client_total:
  "False \<notin> set (mem s) \<Longrightarrow> \<exists>t. setmask_client s tid = Some t \<and> False \<notin> set (mem t)"
  by (fastforce simp: setmask_client_def Let_def split: option.splits prod.splits elim!: malloc_okE)

lemma setmask_Some:
  assumes "sysmsg_inv s" "setmask s tid orm andm = Some (old, s')"
  shows "sysmsg_inv s'" "main_tid s' = main_tid s" "filter_salt s' = filter_salt s" "sent s' = sent s"
    "old = mask_of s (client_pid s tid)"
    "mask_of s' = (mask_of s)(client_pid s tid := (mask_of s (client_pid s tid) AND andm) OR orm)"
    "q \<noteq> client_pid s tid \<Longrightarrow> clients s' q = clients s q"
proof -
  let ?p = "client_pid s tid"
  have "sysmsg_inv s' \<and> main_tid s' = main_tid s \<and> filter_salt s' = filter_salt s \<and> sent s' = sent s
    \<and> old = mask_of s ?p \<and> mask_of s' = (mask_of s)(?p := (mask_of s ?p AND andm) OR orm)
    \<and> (\<forall>q. q \<noteq> ?p \<longrightarrow> clients s' q = clients s q)"
  proof (cases "get_client s tid = None \<and> andm = 0 \<and> orm = 0")
    case True
    then show ?thesis
      using assms by (auto simp: setmask_def mask_of_def get_client_def)
  next
    case False
    obtain t where t: "setmask_client s tid = Some t"
      using assms(2) False by (auto simp: setmask_def split: option.splits if_splits)
    note tinv = setmask_client_inv [OF assms(1) t]
    have pid: "client_pid t tid = ?p" using tinv(2) by (simp add: client_pid_def)
    obtain c where c: "clients t ?p = Some c" using tinv(5) by auto
    have a: "setmask_apply t ?p c orm andm = Some (old, s')"
      using assms(2) False t c pid by (simp add: setmask_def get_client_def split: if_splits)
    have m: "subs_mask c = mask_of s ?p" using tinv(6) c by (metis mask_of_def option.simps(5))
    have "mask_of s' = (mask_of t)(?p := (subs_mask c AND andm) OR orm)"
      by (rule ext) (simp add: mask_of_def setmask_apply_Some(2) [OF a c] setmask_to_def)
    then show ?thesis
      using setmask_apply_inv [OF tinv(1) a c] setmask_apply_Some [OF a c] tinv m by auto
  qed
  then show "sysmsg_inv s'" "main_tid s' = main_tid s" "filter_salt s' = filter_salt s" "sent s' = sent s"
    "old = mask_of s ?p" "mask_of s' = (mask_of s)(?p := (mask_of s ?p AND andm) OR orm)"
    "q \<noteq> ?p \<Longrightarrow> clients s' q = clients s q" by blast+
qed

lemma setmask_total:
  assumes "False \<notin> set (mem s)"
  shows "\<exists>old s'. setmask s tid orm andm = Some (old, s')"
proof (cases "get_client s tid = None \<and> andm = 0 \<and> orm = 0")
  case True
  then show ?thesis by (simp add: setmask_def)
next
  case False
  obtain t where t: "setmask_client s tid = Some t" "False \<notin> set (mem t)"
    using setmask_client_total [OF assms] by blast
  have "get_client t tid \<noteq> None"
    using t(1) by (rule setmask_client_Some) (auto simp: get_client_def client_pid_def)
  then obtain c where c: "get_client t tid = Some c" by auto
  have "addsubs p (foldl (rmsub p) (upd_client t p f) bs) bs' \<noteq> None" for p f bs bs'
    using addsubs_total [of "foldl (rmsub p) (upd_client t p f) bs" p bs'] t(2) by (auto simp: rmsub_loop)
  then have "\<exists>old s'. setmask_apply t p c orm andm = Some (old, s')" for p
    by (simp add: setmask_apply_def Let_def split: option.split)
  then show ?thesis using False t(1) c by (simp add: setmask_def)
qed

section \<open>Label filters\<close>

lemma length_filter_inc [simp]: "length (snd (filter_inc f slot)) = length f"
  by (simp add: filter_inc_def Let_def)

lemma length_filter_dec [simp]: "length (filter_dec f slot) = length f"
  by (simp add: filter_dec_def Let_def)

lemma length_foldl: "(\<And>f x. length (g f x) = length f) \<Longrightarrow> length (foldl g f xs) = length f"
  by (induction xs arbitrary: f) simp_all

lemma length_insert_all [simp]: "length (insert_all filter_add_key f ks) = length f"
  by (induction ks arbitrary: f) (simp_all add: filter_add_key_def length_foldl)

lemma length_remove_all [simp]:
  "length (fst (remove_all filter_query_key filter_rm_key f ks)) = length f"
  by (induction ks arbitrary: f) (simp_all add: filter_rm_key_def length_foldl split_beta)

lemma length_label_keys:
  "length (concat (map (label_keys salt msk) labels)) = length labels * length (bit_loop msk)"
  by (induction labels) (simp_all add: label_keys_def)

text \<open>Updating a client's filter fields touches neither the index nor the receiver.\<close>

lemma filter_update_inv:
  assumes "sysmsg_inv s" "clients s pid = Some c" "recv_tid c' = recv_tid c" "subs_mask c' = subs_mask c"
    "csubs c' = csubs c" "case flt c' of None \<Rightarrow> n_filters c' = 0 | Some f \<Rightarrow> length f = 16"
    "clients s' = (clients s)(pid \<mapsto> c')" "subs_ht s' = subs_ht s" "main_tid s' = main_tid s"
  shows "sysmsg_inv s'" "mask_of s' = mask_of s"
proof -
  have "subscribed s' b p = subscribed s b p" for b p
    using assms(2,4,7) by (simp add: subscribed_def)
  moreover have "client_ok s' p d" if "clients s' p = Some d" for p d
    using that assms by (auto simp: sysmsg_inv_def client_ok_def client_pid_def split: if_splits)
  ultimately show "sysmsg_inv s'" using assms(1,8) by (simp add: sysmsg_inv_def)
  show "mask_of s' = mask_of s" using assms(2,4,7) by (simp add: mask_of_def fun_eq_iff)
qed

definition add_filter_to :: "u32 list \<Rightarrow> msgclient \<Rightarrow> u32 \<Rightarrow> nat \<Rightarrow> msgclient" where
  "add_filter_to keys c msk n = c\<lparr>
     flt := Some (insert_all filter_add_key (case flt c of None \<Rightarrow> replicate FILTER_SIZE 0 | Some f \<Rightarrow> f) keys),
     filter_mask := (if n = 0 then filter_mask c else filter_mask c OR msk),
     n_filters := n_filters c + of_nat (length keys)\<rparr>"

lemma add_filter_cases:
  assumes "sysmsg_inv s"
  obtains m where "add_filter s tid msk labels = Some (s\<lparr>mem := m\<rparr>)"
      "get_client s tid = None \<or> False \<in> set (mem s)"
  | c m where "get_client s tid = Some c" "add_filter s tid msk labels = Some (s\<lparr>clients := (clients s)
       (client_pid s tid \<mapsto> add_filter_to (label_list_keys s msk labels) c msk (length labels)), mem := m\<rparr>)"
proof (cases "get_client s tid")
  case None
  show thesis by (rule that(1) [of "mem s"]) (simp_all add: add_filter_def None)
next
  case (Some c)
  have ok: "client_ok s (client_pid s tid) c"
    using assms Some by (simp add: sysmsg_inv_def get_client_def)
  obtain ok' t where mo: "malloc_ok s = (ok', t)" by (metis surj_pair)
  obtain m where t: "t = s\<lparr>mem := m\<rparr>" "False \<notin> set (mem s) \<longrightarrow> ok'" using mo by (rule malloc_okE) blast
  show thesis
  proof (cases "flt c = None \<and> \<not> ok'")
    case True
    with ok Some mo t show thesis
      by (intro that(1) [of m]) (auto simp: add_filter_def client_ok_def)
  next
    case False
    then show thesis
      using ok Some mo t
      by (intro that(2) [of c "if flt c = None then m else mem s"], simp, cases s; cases "flt c")
        (auto simp: add_filter_def client_ok_def upd_client_def get_client_def add_filter_to_def
          length_label_keys label_list_keys_def client_pid_def)
  qed
qed

definition rm_filter_to :: "bfilter \<Rightarrow> nat \<Rightarrow> msgclient \<Rightarrow> msgclient" where
  "rm_filter_to f removed c = c\<lparr>n_filters := n_filters c - of_nat removed,
     flt := (if n_filters c - of_nat removed = 0 then None else Some f)\<rparr>"

lemma rm_filter_Some:
  assumes "rm_filter s tid msk labels = Some s'"
  obtains "s' = s"
  | c f where "get_client s tid = Some c" "flt c = Some f" "s' = s\<lparr>clients := (clients s)(client_pid s tid \<mapsto>
      rm_filter_to (fst (remove_all filter_query_key filter_rm_key f (label_list_keys s msk labels)))
        (snd (remove_all filter_query_key filter_rm_key f (label_list_keys s msk labels))) c)\<rparr>"
  using assms
  by (auto simp: rm_filter_def split_beta upd_client_def get_client_def rm_filter_to_def Let_def
      split: option.splits if_splits)

lemma add_filter_inv:
  assumes "sysmsg_inv s" "add_filter s tid msk labels = Some s'"
  shows "sysmsg_inv s'" "main_tid s' = main_tid s" "filter_salt s' = filter_salt s" "sent s' = sent s"
    "mask_of s' = mask_of s"
  using assms(1)
proof (atomize (full), rule add_filter_cases [of s tid msk labels], goal_cases)
  case (1 m)
  then show ?case
    using assms by (simp add: sysmsg_inv_def subscribed_def client_ok_def client_pid_def mask_of_def fun_eq_iff)
next
  case (2 c m)
  have ok: "client_ok s (client_pid s tid) c"
    using assms 2(1) by (simp add: sysmsg_inv_def get_client_def)
  have "sysmsg_inv s'" "mask_of s' = mask_of s"
    using assms ok 2 filter_update_inv [OF assms(1), of "client_pid s tid" c
      "add_filter_to (label_list_keys s msk labels) c msk (length labels)" s']
    by (auto simp: add_filter_to_def get_client_def client_ok_def split: option.splits)
  then show ?case using assms 2 by auto
qed

lemma rm_filter_inv:
  assumes "sysmsg_inv s" "rm_filter s tid msk labels = Some s'"
  shows "sysmsg_inv s'" "main_tid s' = main_tid s" "filter_salt s' = filter_salt s" "sent s' = sent s"
    "mask_of s' = mask_of s"
  using assms(2)
proof (atomize (full), rule rm_filter_Some, goal_cases)
  case 1
  then show ?case using assms by simp
next
  case (2 c f)
  have ok: "client_ok s (client_pid s tid) c"
    using assms 2(1) by (simp add: sysmsg_inv_def get_client_def)
  let ?r = "remove_all filter_query_key filter_rm_key f (label_list_keys s msk labels)"
  have "sysmsg_inv s'" "mask_of s' = mask_of s"
    using ok 2 filter_update_inv [OF assms(1), of "client_pid s tid" c "rm_filter_to (fst ?r) (snd ?r) c" s']
    by (simp_all add: rm_filter_to_def get_client_def client_ok_def)
  then show ?case using 2 by simp
qed

section \<open>Handlers and broadcast keep the invariant\<close>

text \<open>What an operation on behalf of one process leaves alone.\<close>

definition inv_frame :: "sysmsg \<Rightarrow> l4_tid \<Rightarrow> sysmsg \<Rightarrow> bool" where
  "inv_frame s tid s' \<longleftrightarrow> sysmsg_inv s' \<and> main_tid s' = main_tid s \<and> filter_salt s' = filter_salt s
     \<and> sent s' = sent s \<and> (\<forall>q. q \<noteq> client_pid s tid \<longrightarrow> clients s' q = clients s q)"

lemma filter_ops_others:
  assumes "sysmsg_inv s" "q \<noteq> client_pid s tid"
  shows "add_filter s tid msk labels = Some s' \<Longrightarrow> clients s' q = clients s q"
    and "rm_filter s tid msk labels = Some s' \<Longrightarrow> clients s' q = clients s q"
proof -
  show "clients s' q = clients s q" if "add_filter s tid msk labels = Some s'"
    by (rule add_filter_cases [OF assms(1), of tid msk labels]) (use that assms(2) in auto)
  show "clients s' q = clients s q" if "rm_filter s tid msk labels = Some s'"
    using that by (rule rm_filter_Some) (use assms(2) in auto)
qed

lemma op_frames:
  assumes "sysmsg_inv s"
  shows "setmask s tid orm andm = Some (old, s') \<Longrightarrow> inv_frame s tid s'"
    and "add_filter s tid msk labels = Some s' \<Longrightarrow> inv_frame s tid s'"
    and "rm_filter s tid msk labels = Some s' \<Longrightarrow> inv_frame s tid s'"
  unfolding inv_frame_def
  by (blast dest: setmask_Some [OF assms])
    (blast dest: add_filter_inv [OF assms] rm_filter_inv [OF assms] filter_ops_others [OF assms])+

lemma recursive_sysmsg_call_inv:
  assumes "sysmsg_inv s" "recursive_sysmsg_call s tid msg = Some (r, s')"
  shows "inv_frame s tid s'"
proof -
  consider "r = Inl EAGAIN \<or> r = Inl ENOSYS" "s' = s"
    | orm andm old where "setmask s tid orm andm = Some (old, s')"
    | msk labels where "add_filter s tid msk labels = Some s'"
    | msk labels where "rm_filter s tid msk labels = Some s'"
    using assms(2) by (cases msg) (auto simp: recursive_sysmsg_call_def Let_def split: if_splits)
  then show ?thesis
    using op_frames [OF assms(1)] assms(1) by cases (auto simp: inv_frame_def)
qed

lemma handler_calls_inv:
  "sysmsg_inv s \<Longrightarrow> handler_calls s tid msgs = Some s' \<Longrightarrow> inv_frame s tid s'"
proof (induction msgs arbitrary: s)
  case Nil
  then show ?case by (simp add: inv_frame_def)
next
  case (Cons m ms)
  then obtain r t where t: "recursive_sysmsg_call s tid m = Some (r, t)" "handler_calls t tid ms = Some s'"
    by (auto split: option.splits)
  from Cons.IH [OF _ t(2)] recursive_sysmsg_call_inv [OF Cons.prems(1) t(1)] show ?case
    by (simp add: inv_frame_def client_pid_def)
qed

lemma sysmsg_inv_mem [simp]: "sysmsg_inv (s\<lparr>mem := m\<rparr>) = sysmsg_inv s"
  and sysmsg_inv_sent [simp]: "sysmsg_inv (s\<lparr>sent := t\<rparr>) = sysmsg_inv s"
  by (simp_all add: sysmsg_inv_def subscribed_def client_ok_def client_pid_def)

lemma send_to_client_Some:
  assumes "sysmsg_inv s" "clients s p = Some c" "send_to_client env s sender p c bits body = Some (n, t)"
  shows "sysmsg_inv t" "sent t = sent s @ [(p, bits, body)]" "filter_salt t = filter_salt s"
    "n = snd (env p)" "q \<noteq> p \<Longrightarrow> clients t q = clients s q"
proof -
  let ?s = "s\<lparr>sent := sent s @ [(p, bits, body)]\<rparr>"
  have p: "client_pid ?s (recv_tid c) = p"
    using assms(1,2) by (simp add: sysmsg_inv_def client_ok_def client_pid_def)
  have "handler_calls ?s (recv_tid c) (fst (env p)) = Some t" "n = snd (env p)"
    using assms(3) by (auto simp: send_to_client_def Let_def split: if_splits)
  moreover from this have "inv_frame ?s (recv_tid c) t"
    by (intro handler_calls_inv) (use assms(1) in simp_all)
  ultimately show "sysmsg_inv t" "sent t = sent s @ [(p, bits, body)]" "filter_salt t = filter_salt s"
    "n = snd (env p)" "q \<noteq> p \<Longrightarrow> clients t q = clients s q"
    by (simp_all add: inv_frame_def p)
qed

lemma push_recs_Some:
  "push_recs s alloc heap recs ps = Some (recs', s') \<Longrightarrow> recs' = recs @ ps \<and> (\<exists>m. s' = s\<lparr>mem := m\<rparr>)"
proof (induction s alloc heap recs ps arbitrary: recs' s' rule: push_recs.induct)
  case (1 s alloc heap recs)
  then show ?case by (auto intro: exI [of _ "mem s"])
next
  case (2 s alloc heap recs p ps)
  show ?case
  proof (cases "length recs = alloc")
    case False
    then show ?thesis using "2.prems" "2.IH"(2) [of recs' s'] by simp
  next
    case True
    obtain ok1 t where t: "(if heap then (True, s) else malloc_ok s) = (ok1, t)" by (metis surj_pair)
    obtain ok2 u where u: "malloc_ok t = (ok2, u)" by (metis surj_pair)
    have *: "push_recs u (max 16 (alloc * 2)) True (recs @ [p]) ps = Some (recs', s')" and ok: "ok1" "ok2"
      using "2.prems" True t u by (auto simp: Let_def split: if_splits)
    obtain m1 where "t = s\<lparr>mem := m1\<rparr>" using t by (cases s) (auto split: if_splits elim!: malloc_okE)
    moreover obtain m2 where "u = t\<lparr>mem := m2\<rparr>" using u by (rule malloc_okE)
    ultimately show ?thesis
      using "2.IH"(1) [OF True t [symmetric] refl _ refl u [symmetric] refl] ok * by auto
  qed
qed

lemma push_recs_total:
  assumes "False \<notin> set (mem s)"
  obtains m where "push_recs s alloc heap recs ps = Some (recs @ ps, s\<lparr>mem := m\<rparr>)"
proof -
  have "False \<notin> set (mem s) \<Longrightarrow> push_recs s alloc heap recs ps \<noteq> None"
  proof (induction ps arbitrary: s alloc heap recs)
    case Nil
    then show ?case by simp
  next
    case (Cons p ps)
    obtain ok1 t where t: "(if heap then (True, s) else malloc_ok s) = (ok1, t)" by (metis surj_pair)
    obtain ok2 u where u: "malloc_ok t = (ok2, u)" by (metis surj_pair)
    have 1: "ok1 \<and> False \<notin> set (mem t)"
      using t Cons.prems malloc_ok_good [of s ok1 t] by (cases heap) auto
    have 2: "ok2 \<and> False \<notin> set (mem u)" using malloc_ok_good [OF u] 1 by blast
    show ?case
    proof (cases "length recs = alloc")
      case True
      then show ?thesis using Cons.IH [of u "max 16 (alloc * 2)" True "recs @ [p]"] 1 2
        by (simp add: t u Let_def)
    next
      case False
      then show ?thesis using Cons.IH [of s alloc heap "recs @ [p]"] Cons.prems by simp
    qed
  qed
  then obtain r s' where r: "push_recs s alloc heap recs ps = Some (r, s')" using assms by auto
  with push_recs_Some [OF r] that show thesis by blast
qed

text \<open>
  Who a broadcast is for: a client subscribed to a bit of \<open>maskp\<close> and none of \<open>maskn\<close>, unless it
  filters all of \<open>maskp\<close> and its filter denies the label.
\<close>

definition passes :: "sysmsg \<Rightarrow> u32 \<Rightarrow> u32 \<Rightarrow> u16 \<Rightarrow> bool" where
  "passes s maskp label p = (case clients s p of None \<Rightarrow> False
     | Some c \<Rightarrow> filter_mask c AND maskp = maskp \<longrightarrow>
         filter_pass (filter_salt s) (flt c) (maskp AND filter_mask c) (int_hash label))"

definition receivers :: "sysmsg \<Rightarrow> u32 \<Rightarrow> u32 \<Rightarrow> u32 \<Rightarrow> u16 set" where
  "receivers s maskp maskn label =
     {p. mask_of s p AND maskp \<noteq> 0 \<and> mask_of s p AND maskn = 0 \<and> passes s maskp label p}"

lemma and_nonzero_iff: "a AND b \<noteq> 0 \<longleftrightarrow> (\<exists>n. bit a n \<and> bit b n)" for a b :: "'a::len word"
  by (auto simp: bit_eq_iff bit_and_iff dest: bit_imp_le_length)

lemma set_candidates:
  assumes "sysmsg_inv s"
  shows "set (candidates s maskp maskn) =
    {p. mask_of s p AND maskp \<noteq> 0 \<and> mask_of s p AND maskn = 0}"
proof -
  have ix: "(b, p) \<in> set (subs_ht s) \<longleftrightarrow> bit (mask_of s p) b" for b p
    using assms by (auto simp: sysmsg_inv_def subscribed_def mask_of_def split: option.splits)
  have ok: "bit (mask_of s p) b \<Longrightarrow>
    (case clients s p of None \<Rightarrow> False | Some c \<Rightarrow> subs_mask c AND maskn = 0) \<longleftrightarrow> mask_of s p AND maskn = 0" for b p
    by (auto simp: mask_of_def split: option.splits)
  have "p \<in> set (candidates s maskp maskn) \<longleftrightarrow>
    (\<exists>b. bit maskp b \<and> bit (mask_of s p) b \<and> mask_of s p AND maskn = 0)" for p
    using ok by (auto simp: candidates_def ix image_iff)
  then show ?thesis by (auto simp: and_nonzero_iff)
qed

lemma deliver_loop_Some:
  assumes "deliver_loop env s sender maskp (label # rest) prev ps imm = Some (r, s')"
    "sysmsg_inv s" "distinct ps" "\<forall>p \<in> set ps. clients s p = clients s0 p" "filter_salt s = filter_salt s0"
  defines "qs \<equiv> filter (passes s0 maskp label) ps"
  shows "sysmsg_inv s' \<and> sent s' = sent s @ map (\<lambda>p. (p, maskp, label # rest)) qs
     \<and> r = (imm \<and> (\<forall>p \<in> set qs. snd (env p) \<noteq> 1))"
  using assms(1-5) unfolding qs_def
proof (induction ps arbitrary: s prev imm)
  case Nil
  then show ?case by simp
next
  case (Cons p ps)
  have "clients s p \<noteq> None" using Cons.prems(1) by (cases "clients s p") (auto split: if_splits)
  then obtain c where c: "clients s p = Some c" "clients s0 p = Some c" using Cons.prems(4) by auto
  show ?case
  proof (cases "passes s0 maskp label p")
    case False
    have "deliver_loop env s sender maskp (label # rest) (Some p) ps imm = Some (r, s')"
      using Cons.prems(1,5) c False by (auto simp: passes_def Let_def split: if_splits)
    from Cons.IH [OF this] Cons.prems False show ?thesis by simp
  next
    case True
    obtain n t where t: "send_to_client env s sender p c maskp (label # rest) = Some (n, t)"
      and d: "deliver_loop env t sender maskp (label # rest) (Some p) ps (if n = 1 then False else imm) = Some (r, s')"
      using Cons.prems(1,5) c True by (auto simp: passes_def Let_def split: if_splits option.splits)
    note snt = send_to_client_Some [OF Cons.prems(2) c(1) t]
    have "\<forall>q \<in> set ps. clients t q = clients s0 q"
      using snt(5) Cons.prems(3,4) by (metis distinct.simps(2) list.set_intros(2))
    from Cons.IH [OF d snt(1) _ this] Cons.prems(3,5) snt True show ?thesis by auto
  qed
qed

lemma impl_broadcast_Some:
  assumes "sysmsg_inv s" "impl_broadcast env s sender maskp maskn label rest = Some (r, s')"
    "maskp \<noteq> 0" "maskn \<noteq> NOT 0"
  defines "R \<equiv> sorted_list_of_set (receivers s maskp maskn label)"
  shows "sysmsg_inv s' \<and> sent s' = sent s @ map (\<lambda>p. (p, maskp, label # rest)) R
     \<and> r = (\<forall>p \<in> set R. snd (env p) \<noteq> 1)"
proof -
  obtain recs t where t: "push_recs s 64 False [] (candidates s maskp maskn) = Some (recs, t)"
    using assms(2-4) by (auto simp: impl_broadcast_def split: option.splits if_splits)
  from push_recs_Some [OF t] obtain m where m: "recs = candidates s maskp maskn" "t = s\<lparr>mem := m\<rparr>" by auto
  obtain ys where ys: "qsort order_msgclientptr_by_pid recs = Some ys" "uniq_recs ys = sorted_list_of_set (set recs)"
    using sort_uniq_recs by blast
  have d: "deliver_loop env t sender maskp (label # rest) None (sorted_list_of_set (set recs)) True = Some (r, s')"
    using assms(2-4) t ys by (simp add: impl_broadcast_def)
  have "filter (passes s maskp label) (sorted_list_of_set (set recs)) = R"
    unfolding R_def receivers_def m(1) set_candidates [OF assms(1)]
    by (subst sorted_list_of_set.idem_if_sorted_distinct [symmetric])
      (auto simp: sorted_wrt_filter intro!: arg_cong [where f = sorted_list_of_set])
  with deliver_loop_Some [OF d, of s] assms(1) m(2) show ?thesis by simp
qed

lemma impl_broadcast_inv:
  assumes "sysmsg_inv s" "impl_broadcast env s sender maskp maskn label rest = Some (r, s')"
  shows "sysmsg_inv s'"
  using impl_broadcast_Some [OF assms] assms by (auto simp: impl_broadcast_def split: if_splits)

lemma deliver_loop_quiet:
  assumes "distinct ps" "prev \<notin> Some ` set ps" "\<forall>p. fst (env p) = []"
    "\<forall>p \<in> set ps. \<exists>c. clients s p = Some c \<and> recv_tid c \<noteq> sender"
  shows "deliver_loop env s sender maskp body prev ps imm \<noteq> None"
  using assms
proof (induction ps arbitrary: s prev imm)
  case Nil
  then show ?case by simp
next
  case (Cons p ps)
  then obtain c where c: "clients s p = Some c" "recv_tid c \<noteq> sender" by auto
  let ?s = "s\<lparr>sent := sent s @ [(p, maskp, body)]\<rparr>"
  have "send_to_client env s sender p c maskp body = Some (snd (env p), ?s)"
    using c(2) Cons.prems(3) by (simp add: send_to_client_def Let_def)
  moreover have "deliver_loop env t sender maskp body (Some p) ps i \<noteq> None" if "t = s \<or> t = ?s" for t i
    using that Cons.prems by (intro Cons.IH) auto
  ultimately show ?case using c Cons.prems(2) by (auto simp: Let_def)
qed

section \<open>Filter histories\<close>

text \<open>
  The multiset of keys a client has outstanding.  \<open>outstanding\<close> follows a history of
  registrations and withdrawals that withdraws only what is registered, with fewer keys outstanding than an \<^verbatim>\<open>int\<close> can count.
\<close>

datatype filter_op = Add u32 "u32 list" | Rm u32 "u32 list"

fun run_filter_ops :: "sysmsg \<Rightarrow> l4_tid \<Rightarrow> filter_op list \<Rightarrow> sysmsg option" where
  "run_filter_ops s tid [] = Some s"
| "run_filter_ops s tid (Add msk ls # ops) =
     (case add_filter s tid msk ls of None \<Rightarrow> None | Some s \<Rightarrow> run_filter_ops s tid ops)"
| "run_filter_ops s tid (Rm msk ls # ops) =
     (case rm_filter s tid msk ls of None \<Rightarrow> None | Some s \<Rightarrow> run_filter_ops s tid ops)"

fun outstanding :: "u32 list \<Rightarrow> u32 multiset \<Rightarrow> filter_op list \<Rightarrow> u32 multiset option" where
  "outstanding salt M [] = Some M"
| "outstanding salt M (Add msk ls # ops) =
     (let K = mset (concat (map (label_keys salt msk) ls))
      in if size M + size K < 2 ^ 31 then outstanding salt (M + K) ops else None)"
| "outstanding salt M (Rm msk ls # ops) =
     (let K = mset (concat (map (label_keys salt msk) ls))
      in if K \<subseteq># M then outstanding salt (M - K) ops else None)"

definition client_repr :: "msgclient \<Rightarrow> u32 multiset \<Rightarrow> bool" where
  "client_repr c M \<longleftrightarrow> n_filters c = of_nat (size M) \<and> size M < 2 ^ 31
     \<and> (case flt c of None \<Rightarrow> M = {#} | Some f \<Rightarrow> filter_repr f M)"

lemma add_filter_repr:
  assumes "sysmsg_inv s" "mem s = []" "get_client s tid = Some c" "client_repr c M"
    and few: "size M + size (mset (concat (map (label_keys (filter_salt s) msk) labels))) < 2 ^ 31"
  obtains s' c' where "add_filter s tid msk labels = Some s'" "mem s' = []" "get_client s' tid = Some c'"
    "client_repr c' (M + mset (concat (map (label_keys (filter_salt s) msk) labels)))"
proof -
  let ?ks = "label_list_keys s msk labels"
  let ?c = "add_filter_to ?ks c msk (length labels)"
  have "add_filter s tid msk labels = Some (upd_client s (client_pid s tid) (\<lambda>_. ?c))"
    using assms
    by (cases "flt c") (simp_all add: add_filter_def malloc_ok_def client_repr_def upd_client_def
        get_client_def add_filter_to_def length_label_keys label_list_keys_def)
  moreover have "client_repr ?c (M + mset ?ks)"
    using assms(4) few bloom.repr_insert_all [OF filter_repr_empty] bloom.repr_insert_all [of "the (flt c)" M]
    by (cases "flt c") (simp_all add: client_repr_def add_filter_to_def label_list_keys_def)
  ultimately show thesis
    using assms(2,3) that by (simp add: get_client_def client_pid_def label_list_keys_def)
qed

lemma sint_of_nat_small: "n < 2 ^ 31 \<Longrightarrow> sint (of_nat n :: u32) = int n"
  by (simp add: signed_of_nat signed_take_bit_int_eq_self)

lemma rm_filter_repr:
  assumes "mem s = []" "get_client s tid = Some c" "client_repr c M"
    and sub: "mset (concat (map (label_keys (filter_salt s) msk) labels)) \<subseteq># M"
  obtains s' c' where "rm_filter s tid msk labels = Some s'" "mem s' = []" "get_client s' tid = Some c'"
    "client_repr c' (M - mset (concat (map (label_keys (filter_salt s) msk) labels)))"
proof (cases "flt c")
  case None
  with assms have "M = {#}" by (simp add: client_repr_def)
  with assms None that [of s c] show thesis by (simp add: rm_filter_def)
next
  case (Some f)
  let ?ks = "label_list_keys s msk labels"
  let ?r = "remove_all filter_query_key filter_rm_key f ?ks"
  let ?c = "rm_filter_to (fst ?r) (snd ?r) c"
  have r: "filter_repr (fst ?r) (M - mset ?ks)" "snd ?r = length ?ks"
    using bloom.repr_remove_all [of f M ?ks] assms Some by (simp_all add: client_repr_def label_list_keys_def)
  have le: "length ?ks \<le> size M" "size (M - mset ?ks) = size M - length ?ks"
    using sub size_mset_mono [OF sub] size_Diff_submset [OF sub] by (simp_all add: label_list_keys_def)
  have "rm_filter s tid msk labels = Some (upd_client s (client_pid s tid) (\<lambda>_. ?c))"
    using assms(2,3) Some r le sint_of_nat_small [of "size M"]
    by (simp add: rm_filter_def split_beta Let_def client_repr_def upd_client_def get_client_def rm_filter_to_def)
  moreover have "client_repr ?c (M - mset ?ks)"
  proof -
    have n: "of_nat (size M) - of_nat (length ?ks) = (of_nat (size M - length ?ks) :: u32)" using le(1) by (simp add: of_nat_diff)
    have lt: "size M < 2 ^ 31" using assms(3) by (simp add: client_repr_def)
    have "unat (of_nat (size M - length ?ks) :: u32) = size M - length ?ks" using lt by (simp add: unat_of_nat)
    then have z: "(of_nat (size M - length ?ks) :: u32) = 0 \<longleftrightarrow> size (M - mset ?ks) = 0" unfolding le(2) by (metis unat_eq_zero)
    have c: "n_filters ?c = of_nat (size (M - mset ?ks))" "flt ?c = (if size (M - mset ?ks) = 0 then None else Some (fst ?r))"
      using assms(3) by (simp_all only: rm_filter_to_def msgclient.simps msgclient.select_convs msgclient.update_convs r(2) client_repr_def n z le(2), simp_all)
    have "size (M - mset ?ks) < 2 ^ 31" unfolding le(2) using lt by linarith
    then show ?thesis unfolding client_repr_def c using r(1) by (cases "M - mset ?ks = {#}") simp_all
  qed
  ultimately show thesis
    using assms(1,2) that by (simp add: get_client_def client_pid_def label_list_keys_def)
qed

lemma run_filter_ops_repr:
  assumes "sysmsg_inv s" "mem s = []" "get_client s tid = Some c" "client_repr c M"
    "outstanding (filter_salt s) M ops = Some N"
  shows "\<exists>s' c'. run_filter_ops s tid ops = Some s' \<and> get_client s' tid = Some c'
     \<and> client_repr c' N \<and> filter_salt s' = filter_salt s"
  using assms
proof (induction "filter_salt s" M ops arbitrary: s c rule: outstanding.induct)
  case (1 M)
  then show ?case by simp
next
  case (2 M msk ls ops)
  let ?K = "mset (concat (map (label_keys (filter_salt s) msk) ls))"
  have K: "size M + size ?K < 2 ^ 31" using "2.prems"(5) by (simp only: outstanding.simps Let_def option.distinct split: if_splits)
  obtain t d where t: "add_filter s tid msk ls = Some t" "mem t = []" "get_client t tid = Some d"
    "client_repr d (M + mset (concat (map (label_keys (filter_salt s) msk) ls)))"
    using add_filter_repr [OF "2.prems"(1-4) K] by blast
  note inv = add_filter_inv [OF "2.prems"(1) t(1)]
  from "2.hyps" [OF refl K, of t d] t inv "2.prems"(5) K show ?case by (simp add: Let_def)
next
  case (3 M msk ls ops)
  let ?K = "mset (concat (map (label_keys (filter_salt s) msk) ls))"
  have K: "?K \<subseteq># M" using "3.prems"(5) by (auto simp: Let_def split: if_splits)
  obtain t d where t: "rm_filter s tid msk ls = Some t" "mem t = []" "get_client t tid = Some d"
    "client_repr d (M - ?K)"
    using rm_filter_repr [OF "3.prems"(2-4) K] by blast
  note inv = rm_filter_inv [OF "3.prems"(1) t(1)]
  from "3.hyps" [OF refl K, of t d] t inv "3.prems"(5) K show ?case by (simp add: Let_def)
qed

lemma client_repr_pass:
  assumes "client_repr c M" "bit maskp b" "int_hash label XOR salt ! b \<in># M"
  shows "filter_pass salt (flt c) maskp (int_hash label)"
proof (cases "flt c")
  case None
  then show ?thesis by (simp add: filter_pass_def)
next
  case (Some f)
  have "filter_query_key f (int_hash label XOR salt ! b)"
    using bloom.qry_member assms Some by (auto simp: client_repr_def)
  then show ?thesis using assms(2) Some
    by (auto simp: filter_pass_def list_ex_iff filter_query_key_def)
qed

section \<open>Properties\<close>

text \<open>The server's transitions: the calls of the interface, each from an arbitrary sender.\<close>

inductive sysmsg_step :: "sysmsg \<Rightarrow> sysmsg \<Rightarrow> bool" where
  step_setmask: "setmask s tid orm andm = Some (old, s') \<Longrightarrow> sysmsg_step s s'"
| step_add_filter: "add_filter s tid msk labels = Some s' \<Longrightarrow> sysmsg_step s s'"
| step_rm_filter: "rm_filter s tid msk labels = Some s' \<Longrightarrow> sysmsg_step s s'"
| step_broadcast: "impl_broadcast env s tid maskp maskn label rest = Some (r, s') \<Longrightarrow> sysmsg_step s s'"

inductive_cases sysmsg_stepE: "sysmsg_step s s'"

inductive sysmsg_reachable :: "sysmsg \<Rightarrow> bool" where
  reach_init: "sysmsg_reachable (sysmsg_init siphash tid)"
| reach_step: "sysmsg_reachable s \<Longrightarrow> sysmsg_step s s' \<Longrightarrow> sysmsg_reachable s'"

lemma sysmsg_inv_init: "sysmsg_inv (sysmsg_init siphash tid)"
  by (simp add: sysmsg_inv_def sysmsg_init_def subscribed_def)

lemma sysmsg_step_inv:
  assumes "sysmsg_inv s" "sysmsg_step s s'"
  shows "sysmsg_inv s'"
  using assms(2)
  by (rule sysmsg_stepE) (use op_frames [OF assms(1)] impl_broadcast_inv [OF assms(1)] in \<open>auto simp: inv_frame_def\<close>)

text \<open>
  In every reachable state of the message server the subscription index, the clients'
  subscription lists and their masks agree, without duplicates, a client is stored under its PID, a filter has its full length and a client
  without one counts no filtered labels; this holds across nested calls from handlers.  The counters of a filter are not part of it.
\<close>

theorem sysmsg_reachable_inv:
  assumes "sysmsg_reachable s"
  shows "sysmsg_inv s"
  using assms by induction (simp_all add: sysmsg_inv_init sysmsg_step_inv)

theorem sysmsg_reachable_inv_witness:
  "\<exists>s' u. setmask (sysmsg_init (\<lambda>x. x) \<lparr>is_local = False, tid_version = 2, tid_threadno = 0\<rparr>)
       \<lparr>is_local = False, tid_version = 15, tid_threadno = 9\<rparr> 5 0 = Some (0, s')
     \<and> add_filter s' \<lparr>is_local = False, tid_version = 15, tid_threadno = 9\<rparr> 1 [42] = Some u \<and> mask_of u 7 = 5 \<and> sysmsg_inv u"
proof -
  let ?s = "sysmsg_init (\<lambda>x. x) \<lparr>is_local = False, tid_version = 2, tid_threadno = 0\<rparr>" and ?t = "\<lparr>is_local = False, tid_version = 15, tid_threadno = 9\<rparr> :: l4_tid"
  have c: "client_pid ?s ?t = 7" "mask_of ?s 7 = 0" "False \<notin> set (mem ?s)"
    by (simp_all add: client_pid_def sysmsg_init_def pidof_NP_def mask_of_def)
  note inv = sysmsg_inv_init [of "\<lambda>x. x" "\<lparr>is_local = False, tid_version = 2, tid_threadno = 0\<rparr>"]
  obtain old s' where s': "setmask ?s ?t 5 0 = Some (old, s')" using setmask_total [OF c(3)] by blast
  note sm = setmask_Some [OF inv s', unfolded c]
  have "\<exists>u. add_filter s' ?t 1 [42] = Some u" by (rule add_filter_cases [OF sm(1), of ?t 1 "[42]"]) auto
  then obtain u where u: "add_filter s' ?t 1 [42] = Some u" by blast
  have "sysmsg_reachable u"
    by (rule reach_step [OF reach_step [OF reach_init step_setmask [OF s']] step_add_filter [OF u]])
  then show ?thesis using s' u sm(5,6) c(2) add_filter_inv(5) [OF sm(1) u] sysmsg_reachable_inv [of u] by auto
qed

text \<open>
  While memory lasts, \<open>setmask\<close> succeeds for any sender: it returns the old mask, installs
  \<open>(old & and) | or\<close>, keeps the invariant and touches no other client.
\<close>

theorem setmask_correct:
  fixes s tid
  assumes "sysmsg_inv s" "False \<notin> set (mem s)"
  defines "p \<equiv> client_pid s tid"
  shows "\<exists>s'. setmask s tid orm andm = Some (mask_of s p, s') \<and> sysmsg_inv s'
     \<and> mask_of s' = (mask_of s)(p := (mask_of s p AND andm) OR orm)
     \<and> (\<forall>b q. (b, q) \<in> set (subs_ht s') \<longleftrightarrow> bit (mask_of s' q) b)
     \<and> (\<forall>q. q \<noteq> p \<longrightarrow> clients s' q = clients s q)"
proof -
  obtain old s' where r: "setmask s tid orm andm = Some (old, s')" using setmask_total [OF assms(2)] by blast
  note res = setmask_Some [OF assms(1) r]
  have "(b, q) \<in> set (subs_ht s') \<longleftrightarrow> bit (mask_of s' q) b" for b q
    using res(1) by (auto simp: sysmsg_inv_def subscribed_def mask_of_def split: option.splits)
  then show ?thesis using r res unfolding p_def by auto
qed

text \<open>A state with one subscribed client, PID 7, for the witnesses.\<close>

definition one_client :: sysmsg where
  "one_client = (sysmsg_init (\<lambda>x. x) \<lparr>is_local = False, tid_version = 2, tid_threadno = 0\<rparr>)
     \<lparr>clients := [7 \<mapsto> (new_msgclient \<lparr>is_local = False, tid_version = 15, tid_threadno = 9\<rparr>)
        \<lparr>subs_mask := 5, csubs := [0, 2]\<rparr>], subs_ht := [(0, 7), (2, 7)]\<rparr>"

lemma one_client_inv: "sysmsg_inv one_client"
proof -
  have b: "bit (5 :: int) b \<longleftrightarrow> b = 0 \<or> b = 2" for b
    by (auto simp: bit_numeral_rec bit_1_iff split: nat.splits)
  show ?thesis
    by (auto simp: sysmsg_inv_def one_client_def sysmsg_init_def subscribed_def b client_ok_def
        new_msgclient_def client_pid_def pidof_NP_def split: if_splits)
qed

theorem setmask_correct_witness:
  "\<exists>s'. setmask one_client \<lparr>is_local = False, tid_version = 15, tid_threadno = 9\<rparr> 8 0xffffffff = Some (5, s')
     \<and> mask_of s' 7 = 13"
proof -
  let ?t = "\<lparr>is_local = False, tid_version = 15, tid_threadno = 9\<rparr>"
  have "client_pid one_client ?t = 7" "mask_of one_client 7 = 5" "mem one_client = []"
    by (simp_all add: client_pid_def one_client_def sysmsg_init_def pidof_NP_def mask_of_def new_msgclient_def)
  then show ?thesis
    using setmask_correct [OF one_client_inv, of ?t 8 "0xffffffff"] by auto
qed

text \<open>
  C3. Whatever the handlers do, a broadcast that completes has sent exactly one message to each
  receiver determined by the state at its start and to nobody else, in ascending PID order,
  and reports immediate delivery exactly if no receiver answered 1: a handler that changes its
  own mask or filters in the middle cannot add, drop or repeat a delivery.
\<close>

theorem broadcast_exact:
  assumes "sysmsg_inv s" "impl_broadcast env s sender maskp maskn label rest = Some (r, s')"
    "maskp \<noteq> 0" "maskn \<noteq> NOT 0"
  defines "R \<equiv> sorted_list_of_set (receivers s maskp maskn label)"
  shows "sent s' = sent s @ map (\<lambda>p. (p, maskp, label # rest)) R
     \<and> r = (\<forall>p \<in> set R. snd (env p) \<noteq> 1) \<and> sysmsg_inv s'"
  using impl_broadcast_Some [OF assms(1-4)] unfolding R_def by blast

lemma impl_broadcast_total:
  assumes "sysmsg_inv s" "False \<notin> set (mem s)" "\<forall>p. fst (env p) = []"
    "\<forall>p c. clients s p = Some c \<longrightarrow> mask_of s p AND maskp \<noteq> 0 \<longrightarrow> recv_tid c \<noteq> sender"
  shows "\<exists>r s'. impl_broadcast env s sender maskp maskn label rest = Some (r, s')"
proof (cases "maskp = 0 \<or> maskn = NOT 0")
  case True
  then show ?thesis by (intro exI [of _ True]) (simp add: impl_broadcast_def)
next
  case False
  let ?cs = "candidates s maskp maskn"
  obtain m where m: "push_recs s 64 False [] ?cs = Some (?cs, s\<lparr>mem := m\<rparr>)"
    using push_recs_total [OF assms(2), of 64 False "[]" ?cs] by auto
  obtain ys where ys: "qsort order_msgclientptr_by_pid ?cs = Some ys" "uniq_recs ys = sorted_list_of_set (set ?cs)"
    using sort_uniq_recs by blast
  have "\<exists>c. clients s p = Some c \<and> recv_tid c \<noteq> sender" if "p \<in> set ?cs" for p
    using that assms(4) by (auto simp: set_candidates [OF assms(1)] mask_of_def split: option.splits)
  then have "deliver_loop env (s\<lparr>mem := m\<rparr>) sender maskp (label # rest) None (sorted_list_of_set (set ?cs)) True \<noteq> None"
    using assms(3) by (intro deliver_loop_quiet) auto
  then show ?thesis using False m ys by (simp add: impl_broadcast_def)
qed

text \<open>
  While memory lasts and no receiver is the broadcasting thread itself, a broadcast to
  handlers that make no nested calls completes (sorting terminates and no assertion fires)
  and reaches exactly its receivers.
\<close>

theorem broadcast_completes:
  assumes "sysmsg_inv s" "False \<notin> set (mem s)" "\<forall>p. fst (env p) = []" "maskp \<noteq> 0" "maskn \<noteq> NOT 0"
    "\<forall>p c. clients s p = Some c \<longrightarrow> mask_of s p AND maskp \<noteq> 0 \<longrightarrow> recv_tid c \<noteq> sender"
  shows "\<exists>r s'. impl_broadcast env s sender maskp maskn label rest = Some (r, s')
     \<and> set (map fst (drop (length (sent s)) (sent s'))) = receivers s maskp maskn label"
proof -
  obtain r s' where r: "impl_broadcast env s sender maskp maskn label rest = Some (r, s')"
    using impl_broadcast_total [OF assms(1-3) assms(6)] by blast
  moreover have "set (map fst (drop (length (sent s)) (sent s'))) = receivers s maskp maskn label"
    using impl_broadcast_Some [OF assms(1) r assms(4,5)] by (simp add: comp_def)
  ultimately show ?thesis by blast
qed

lemma one_client_others:
  "mem one_client = []"
  "clients one_client p = Some c \<Longrightarrow> recv_tid c \<noteq> \<lparr>is_local = False, tid_version = 6, tid_threadno = 1\<rparr>"
  by (auto simp: one_client_def sysmsg_init_def new_msgclient_def split: if_splits)

lemma one_client_receivers: "receivers one_client 1 8 42 = {7}"
  by (auto simp: receivers_def mask_of_def passes_def one_client_def new_msgclient_def filter_pass_def
      split: if_splits)

theorem broadcast_completes_witness:
  "\<exists>r s'. impl_broadcast (\<lambda>_. ([], 1)) one_client \<lparr>is_local = False, tid_version = 6, tid_threadno = 1\<rparr> 1 8 42 []
       = Some (r, s') \<and> set (map fst (sent s')) = {7}"
  using broadcast_completes [OF one_client_inv, of "\<lambda>_. ([], 1)" 1 8
      "\<lparr>is_local = False, tid_version = 6, tid_threadno = 1\<rparr>" 42 "[]"]
    one_client_others
  unfolding one_client_receivers by (auto simp: one_client_def sysmsg_init_def)

theorem broadcast_exact_witness:
  "\<exists>s'. impl_broadcast (\<lambda>_. ([], 1)) one_client \<lparr>is_local = False, tid_version = 6, tid_threadno = 1\<rparr> 1 8 42 [43]
     = Some (False, s') \<and> sent s' = [(7, 1, [42, 43])]"
proof -
  let ?snd = "\<lparr>is_local = False, tid_version = 6, tid_threadno = 1\<rparr>"
  obtain r s' where r: "impl_broadcast (\<lambda>_. ([], 1)) one_client ?snd 1 8 42 [43] = Some (r, s')"
    using impl_broadcast_total [OF one_client_inv, of "\<lambda>_. ([], 1)" 1 ?snd 8 42 "[43]"] one_client_others
    by auto
  have "sent one_client = []" by (simp add: one_client_def sysmsg_init_def)
  with broadcast_exact [OF one_client_inv r] r one_client_receivers show ?thesis by simp
qed

text \<open>
  C18. A label filter never hides a registered label: after any history of \<open>add_filter\<close> and
  \<open>rm_filter\<close> calls that withdraws only what was registered and has fewer than 2^31 keys registered at a time, starting from a client without a
  filter, and while allocations succeed, none of the calls aborts and \<open>filter_pass\<close> accepts every label and mask bit still
  outstanding, saturated counters and hash collisions notwithstanding.
\<close>

theorem filter_no_false_negative:
  assumes "sysmsg_inv s" "mem s = []" "get_client s tid = Some c" "flt c = None"
    "outstanding (filter_salt s) {#} ops = Some N" "bit maskp b" "int_hash label XOR filter_salt s ! b \<in># N"
  shows "\<exists>s' c'. run_filter_ops s tid ops = Some s' \<and> get_client s' tid = Some c'
     \<and> filter_pass (filter_salt s') (flt c') maskp (int_hash label)"
proof -
  have "client_ok s (client_pid s tid) c" using assms(1,3) by (simp add: sysmsg_inv_def get_client_def)
  then have "client_repr c {#}" using assms(4) by (simp add: client_repr_def client_ok_def)
  from run_filter_ops_repr [OF assms(1-3) this assms(5)] client_repr_pass assms(6,7)
  show ?thesis by metis
qed

theorem filter_no_false_negative_witness:
  "\<exists>s' c'. run_filter_ops one_client \<lparr>is_local = False, tid_version = 15, tid_threadno = 9\<rparr>
       [Add 1 [42, 43], Rm 1 [43]] = Some s'
     \<and> get_client s' \<lparr>is_local = False, tid_version = 15, tid_threadno = 9\<rparr> = Some c'
     \<and> filter_pass (filter_salt s') (flt c') 1 (int_hash 42)"
proof -
  let ?t = "\<lparr>is_local = False, tid_version = 15, tid_threadno = 9\<rparr>"
  let ?k = "\<lambda>l. int_hash l XOR filter_salt one_client ! 0"
  obtain c where c: "get_client one_client ?t = Some c" "flt c = None" "mem one_client = []"
    by (simp add: get_client_def client_pid_def one_client_def sysmsg_init_def pidof_NP_def new_msgclient_def)
  have "bit_loop (1 :: u32) = [0]" by (simp add: bit_loop_eq upt_rec bit_1_iff)
  then have k: "label_keys (filter_salt one_client) 1 l = [?k l]" for l
    by (simp add: label_keys_def)
  have "outstanding (filter_salt one_client) {#} [Add 1 [42, 43], Rm 1 [43]] = Some {#?k 42#}"
    by (simp add: k Let_def)
  from filter_no_false_negative [OF one_client_inv c(3) c(1) c(2) this, of 1 0 42] show ?thesis by simp
qed

text \<open>
  \<open>filter_inc\<close> is a saturating increment of one 4-bit counter, reports exactly the step into
  saturation, and \<open>filter_dec\<close> undoes it unless the counter saturated; no other counter changes.
\<close>

theorem filter_counters:
  assumes "length f = FILTER_SIZE" "slot < n_slots" "slot' < n_slots"
  shows "counter (snd (filter_inc f slot)) slot' =
      (if slot' = slot then min 15 (Suc (counter f slot)) else counter f slot')
    \<and> (fst (filter_inc f slot) \<longleftrightarrow> counter f slot = 14)
    \<and> counter (filter_dec f slot) slot' =
      (if slot' = slot \<and> counter f slot < 15 then counter f slot - 1 else counter f slot')
    \<and> (counter f slot < 14 \<longrightarrow> counter (filter_dec (snd (filter_inc f slot)) slot) slot' = counter f slot')"
  using assms filter_inc_counter [of f slot] filter_dec_counter [of f slot]
    filter_dec_counter [of "snd (filter_inc f slot)" slot]
  by auto

theorem filter_counters_witness:
  "counter (snd (filter_inc (replicate 16 0xe0) 1)) 1 = 15 \<and> fst (filter_inc (replicate 16 0xe0) 1)"
  using filter_counters [of "replicate 16 0xe0" 1 1] by (simp add: counter_def nib_def take_bit_eq_mod)

end
