(* ===== verification/Io_Poll.thy ===== *)
theory Io_Poll
  imports Io_Contracts
begin

text \<open>
  Readiness notification, \<^verbatim>\<open>sys/io/pollimpl.c\<close>, and the callback setters of \<^verbatim>\<open>sys/io/func.c\<close>.
  The outgoing IPC of a notification is a list of messages; the argument \<open>reply\<close> gives the
  kernel's error code for a reply to a thread (0 is success) after the messages already sent.
  \<^verbatim>\<open>struct client\<close> keeps the blocked thread and the notification thread in a union, hence in
  the one field \<open>blocker\<close>.
\<close>

section \<open>Callbacks\<close>

definition enosys_callbacks :: "'s io_callbacks" where
  "enosys_callbacks = \<lparr>cb_read = (\<lambda>_ _ _ t. (- ENOSYS, [], t)), cb_write = (\<lambda>_ _ _ _ t. (- ENOSYS, t)),
     cb_close = (\<lambda>_ t. (- ENOSYS, t)), cb_lifecycle = (\<lambda>_ _ t. t), cb_confirm = None, cb_add_blocker = None, freed_pid = (\<lambda>p. p)\<rparr>"

definition io_read_func ::
  "(nat \<Rightarrow> u32 \<Rightarrow> int \<Rightarrow> 's \<Rightarrow> int \<times> u8 list \<times> 's) option \<Rightarrow> 's io_callbacks \<Rightarrow> 's io_callbacks" where
  "io_read_func fn cb = cb\<lparr>cb_read := (case fn of None \<Rightarrow> \<lambda>_ _ _ t. (- ENOSYS, [], t) | Some f \<Rightarrow> f)\<rparr>"

definition io_write_func ::
  "(nat \<Rightarrow> u8 list \<Rightarrow> u32 \<Rightarrow> int \<Rightarrow> 's \<Rightarrow> int \<times> 's) option \<Rightarrow> 's io_callbacks \<Rightarrow> 's io_callbacks" where
  "io_write_func fn cb = cb\<lparr>cb_write := (case fn of None \<Rightarrow> \<lambda>_ _ _ _ t. (- ENOSYS, t) | Some f \<Rightarrow> f)\<rparr>"

definition io_close_func :: "(nat \<Rightarrow> 's \<Rightarrow> int \<times> 's) option \<Rightarrow> 's io_callbacks \<Rightarrow> 's io_callbacks" where
  "io_close_func fn cb = cb\<lparr>cb_close := (case fn of None \<Rightarrow> \<lambda>_ t. (- ENOSYS, t) | Some f \<Rightarrow> f)\<rparr>"

definition io_lifecycle_func ::
  "(u16 \<Rightarrow> lifecycle_tag \<Rightarrow> 's \<Rightarrow> 's) option \<Rightarrow> 's io_callbacks \<Rightarrow> 's io_callbacks" where
  "io_lifecycle_func fn cb = cb\<lparr>cb_lifecycle := (case fn of None \<Rightarrow> \<lambda>_ _ t. t | Some f \<Rightarrow> f)\<rparr>"

definition io_confirm_func ::
  "(nat \<Rightarrow> nat \<Rightarrow> int \<Rightarrow> bool \<Rightarrow> 's \<Rightarrow> 's) option \<Rightarrow> 's io_callbacks \<Rightarrow> 's io_callbacks" where
  "io_confirm_func fn cb = cb\<lparr>cb_confirm := fn\<rparr>"

section \<open>Polling calls\<close>

abbreviation (input) EPOLLIN :: u32 where "EPOLLIN \<equiv> 1"
abbreviation (input) EPOLLOUT :: u32 where "EPOLLOUT \<equiv> 4"
abbreviation (input) EPOLLERR :: u32 where "EPOLLERR \<equiv> 8"
abbreviation (input) EPOLLHUP :: u32 where "EPOLLHUP \<equiv> 0x10"
abbreviation (input) IOD_EPOLL_MASK :: u32 where "IOD_EPOLL_MASK \<equiv> 0xF000201F"

text \<open>The override of the weak symbol \<open>add_blocker\<close>.\<close>

definition poll_add_blocker :: "'s io \<Rightarrow> nat \<Rightarrow> l4_tid \<Rightarrow> bool \<Rightarrow> (int \<times> 's io) option" where
  "poll_add_blocker s i tid writing =
     (case fds s i of None \<Rightarrow> None
      | Some f \<Rightarrow>
          (case client_hash s (fd_owner f) of None \<Rightarrow> None
           | Some c \<Rightarrow>
               if \<not> has_flag (cflags c) CF_NOTIFY then nopoll_add_blocker s i tid writing else None))"

text \<open>
  The status callback may change the implementation's state.  The last part of \<open>set_notify\<close>
  registers the notification thread: with a blocked thread on record the blocker is moved to
  a table that the code does not have, and aborts.
\<close>

type_synonym 's status_fn = "nat \<Rightarrow> 's \<Rightarrow> u32 \<times> 's"

definition set_notify_tid :: "'s io \<Rightarrow> nat \<Rightarrow> u16 \<Rightarrow> l4_tid \<Rightarrow> 's io option" where
  "set_notify_tid s i p tid =
     (case client_hash s p of None \<Rightarrow> None
      | Some c \<Rightarrow>
          let s1 = upd_client p (\<lambda>c. c\<lparr>cflags := cflags c OR CF_NOTIFY\<rparr>) s in
          case (if \<not> has_flag (cflags c) CF_NOTIFY \<and> blocker c \<noteq> nil_tid
                then map_option snd (poll_add_blocker s1 i (blocker c) (has_flag (cflags c) CF_WRITE_BLOCKED))
                else Some s1) of None \<Rightarrow> None
          | Some s2 \<Rightarrow> Some (upd_client p (\<lambda>c. c\<lparr>blocker := tid\<rparr>) s2))"

definition io_impl_set_notify ::
  "'s status_fn option \<Rightarrow> 's io_callbacks \<Rightarrow> allocator \<Rightarrow> 's io \<Rightarrow> l4_tid \<Rightarrow> int \<Rightarrow> u32 \<Rightarrow> l4_tid
     \<Rightarrow> (int \<times> u32 \<times> 's io) option" where
  "io_impl_set_notify st cb ra s sender fd events tid =
     (case io_sync cb s of None \<Rightarrow> None
      | Some s \<Rightarrow>
      (case get_fd cb ra s (sender_pid s sender) fd of None \<Rightarrow> None
       | Some (None, s) \<Rightarrow> Some (- EBADF, 0, s)
       | Some (Some i, s) \<Rightarrow>
       (case fds s i of None \<Rightarrow> None
        | Some f \<Rightarrow>
            let s = upd_fd i (\<lambda>f. f\<lparr>fd_flags := (fd_flags f AND NOT IOD_EPOLL_MASK) OR (events AND IOD_EPOLL_MASK)\<rparr>) s in
            if tid \<noteq> nil_tid \<and> is_local tid then Some (- EINVAL, 0, s)
            else (case (if tid \<noteq> nil_tid then set_notify_tid s i (fd_owner f) tid else Some s) of None \<Rightarrow> None
              | Some s \<Rightarrow>
                  (case st of None \<Rightarrow> Some (0, 0, s)
                   | Some g \<Rightarrow> let (m, t) = g (fd_file f) (impl s)
                              in Some (0, (events OR EPOLLHUP) AND m, s\<lparr>impl := t\<rparr>))))))"

fun get_status_loop ::
  "'s status_fn \<Rightarrow> 's io_callbacks \<Rightarrow> allocator \<Rightarrow> 's io \<Rightarrow> u16 \<Rightarrow> int list \<Rightarrow> u16 list \<Rightarrow> (u32 list \<times> 's io) option" where
  "get_status_loop g cb ra s caller [] notif = Some ([], s)"
| "get_status_loop g cb ra s caller (h # hs) notif =
     (case get_fd cb ra s caller h of None \<Rightarrow> None
      | Some (None, s) \<Rightarrow> map_option (\<lambda>(sts, s). (0 # sts, s)) (get_status_loop g cb ra s caller hs (tl notif))
      | Some (Some i, s) \<Rightarrow>
      (case fds s i of None \<Rightarrow> None
       | Some f \<Rightarrow>
           let (m, t) = g (fd_file f) (impl s); s = s\<lparr>impl := t\<rparr>;
               s = (case notif of [] \<Rightarrow> s
                    | v # _ \<Rightarrow> upd_fd i (\<lambda>f. f\<lparr>fd_flags := (fd_flags f AND NOT IOD_EPOLL_MASK)
                                    OR (ucast v AND IOD_EPOLL_MASK)\<rparr>) s)
           in map_option (\<lambda>(sts, s). (m # sts, s)) (get_status_loop g cb ra s caller hs (tl notif))))"

definition io_impl_get_status ::
  "'s status_fn option \<Rightarrow> 's io_callbacks \<Rightarrow> allocator \<Rightarrow> 's io \<Rightarrow> l4_tid \<Rightarrow> int list \<Rightarrow> u16 list \<Rightarrow> (u32 list \<times> 's io) option" where
  "io_impl_get_status st cb ra s sender handles notif =
     (case io_sync cb s of None \<Rightarrow> None
      | Some s \<Rightarrow> (case st of None \<Rightarrow> None
         | Some g \<Rightarrow> get_status_loop g cb ra s (sender_pid s sender) handles notif))"

section \<open>Notification\<close>

datatype io_msg = Poll_Event l4_tid u32 nat | Sigio u16 | Wake l4_tid

type_synonym replies = "io_msg list \<Rightarrow> l4_tid \<Rightarrow> nat"

definition send_poll_event :: "replies \<Rightarrow> io_msg list \<Rightarrow> nat \<Rightarrow> fd \<Rightarrow> client \<Rightarrow> u32 \<Rightarrow> io_msg list" where
  "send_poll_event reply msgs i f c events =
     (let events = events AND IOD_EPOLL_MASK in
      if fd_flags f AND events = 0 \<or> blocker c = nil_tid then msgs
      else let ec = reply msgs (blocker c); msgs = msgs @ [Poll_Event (blocker c) events i]
      in if ec = 2 then msgs @ [Sigio (fd_owner f)] else msgs)"

definition wants :: "u32 \<Rightarrow> bool \<Rightarrow> bool" where
  "wants m writing \<longleftrightarrow> writing \<and> has_flag m EPOLLOUT \<or> \<not> writing \<and> has_flag m (EPOLLIN OR EPOLLHUP)"

definition maybe_unblock :: "replies \<Rightarrow> io_msg list \<Rightarrow> l4_tid \<Rightarrow> u32 \<Rightarrow> bool \<Rightarrow> io_msg list \<times> l4_tid" where
  "maybe_unblock reply msgs tid m writing =
     (if wants m writing then (msgs @ [Wake tid], if reply msgs tid = 0 then nil_tid else tid)
      else (msgs, tid))"

fun notify_loop :: "replies \<Rightarrow> u32 \<Rightarrow> io_msg list \<Rightarrow> 's io \<Rightarrow> nat list \<Rightarrow> (io_msg list \<times> 's io) option" where
  "notify_loop reply m msgs s [] = Some (msgs, s)"
| "notify_loop reply m msgs s (i # is) =
     (case fds s i of None \<Rightarrow> None
      | Some f \<Rightarrow>
      (case client_hash s (fd_owner f) of None \<Rightarrow> None
       | Some c \<Rightarrow>
           let msgs = send_poll_event reply msgs i f c m in
           if \<not> has_flag (cflags c) CF_NOTIFY \<and> blocker c \<noteq> nil_tid
           then (let (msgs, tid) = maybe_unblock reply msgs (blocker c) m (has_flag (cflags c) CF_WRITE_BLOCKED)
                 in notify_loop reply m msgs (upd_client (fd_owner f) (\<lambda>c. c\<lparr>blocker := tid\<rparr>) s) is)
           else notify_loop reply m msgs s is))"

definition io_notify :: "replies \<Rightarrow> 's io \<Rightarrow> nat \<Rightarrow> u32 \<Rightarrow> (io_msg list \<times> 's io) option" where
  "io_notify reply s iof m =
     (case io_files s iof of None \<Rightarrow> None | Some p \<Rightarrow> notify_loop reply m [] s (fhandles p))"

section \<open>Wake-ups\<close>

text \<open>The override of \<open>add_blocker\<close> behaves as the default it replaces: both fail for polling clients.\<close>

lemma poll_add_blocker_eq: "poll_add_blocker s i tid w = nopoll_add_blocker s i tid w"
  by (simp add: poll_add_blocker_def nopoll_add_blocker_def split: option.split)

definition owners :: "'s io \<Rightarrow> nat list \<Rightarrow> u16 set" where
  "owners s is = {q. \<exists>i f. i \<in> set is \<and> fds s i = Some f \<and> fd_owner f = q}"

definition woken :: "'s io \<Rightarrow> u32 \<Rightarrow> u16 \<Rightarrow> bool" where
  "woken s m q \<longleftrightarrow> (case client_hash s q of None \<Rightarrow> False
     | Some c \<Rightarrow> \<not> has_flag (cflags c) CF_NOTIFY \<and> blocker c \<noteq> nil_tid \<and> wants m (has_flag (cflags c) CF_WRITE_BLOCKED))"

definition blocked_thread :: "'s io \<Rightarrow> u16 \<Rightarrow> l4_tid" where
  "blocked_thread s q = (case client_hash s q of None \<Rightarrow> nil_tid | Some c \<Rightarrow> blocker c)"

fun wakes :: "io_msg list \<Rightarrow> l4_tid list" where
  "wakes [] = []"
| "wakes (Wake t # ms) = t # wakes ms"
| "wakes (_ # ms) = wakes ms"

definition unblock :: "u16 set \<Rightarrow> 's io \<Rightarrow> 's io" where
  "unblock Q s = s\<lparr>client_hash := (\<lambda>q. map_option (\<lambda>c. if q \<in> Q then c\<lparr>blocker := nil_tid\<rparr> else c) (client_hash s q))\<rparr>"

lemma wakes_append [simp]: "wakes (xs @ ys) = wakes xs @ wakes ys"
  by (induction xs rule: wakes.induct) auto

lemma wakes_send_poll [simp]: "wakes (send_poll_event reply msgs i f c ev) = wakes msgs"
  by (simp add: send_poll_event_def Let_def)

lemma unblock_empty [simp]: "unblock {} s = s"
proof -
  have "(\<lambda>q. map_option (\<lambda>c. c) (client_hash s q)) = client_hash s" by (simp add: option.map_ident)
  then show ?thesis by (simp add: unblock_def)
qed

lemma unblock_insert:
  "unblock Q (upd_client p (\<lambda>c. c\<lparr>blocker := nil_tid\<rparr>) s) = unblock (insert p Q) s"
proof -
  have "map_option (\<lambda>c. if q \<in> Q then c\<lparr>blocker := nil_tid\<rparr> else c)
      (if q = p then map_option (\<lambda>c. c\<lparr>blocker := nil_tid\<rparr>) (client_hash s p) else client_hash s q)
    = map_option (\<lambda>c. if q \<in> insert p Q then c\<lparr>blocker := nil_tid\<rparr> else c) (client_hash s q)" for q
    by (cases "client_hash s q") auto
  then show ?thesis by (simp add: unblock_def upd_client_def fun_upd_def)
qed

lemma notify_loop_wakes:
  assumes "\<And>ms t. reply ms t = 0" "\<forall>i \<in> set is. \<exists>f. fds s i = Some f \<and> client_hash s (fd_owner f) \<noteq> None"
  shows "\<exists>msgs' qs. notify_loop reply m msgs s is = Some (msgs', unblock {q \<in> owners s is. woken s m q} s)
     \<and> distinct qs \<and> set qs = {q \<in> owners s is. woken s m q} \<and> wakes msgs' = wakes msgs @ map (blocked_thread s) qs"
  using assms(2)
proof (induction "is" arbitrary: s msgs)
  case Nil
  then show ?case by (simp add: owners_def)
next
  case (Cons i "is")
  obtain f c where f: "fds s i = Some f" "client_hash s (fd_owner f) = Some c" using Cons.prems by auto
  let ?p = "fd_owner f" and ?msgs = "send_poll_event reply msgs i f c m"
  have o: "owners s (i # is) = insert ?p (owners s is)" using f(1) by (auto simp: owners_def)
  show ?case
  proof (cases "woken s m ?p")
    case False
    then have eq: "notify_loop reply m msgs s (i # is) = notify_loop reply m ?msgs s is"
    proof (cases "\<not> has_flag (cflags c) CF_NOTIFY \<and> blocker c \<noteq> nil_tid")
      case True
      then have "\<not> wants m (has_flag (cflags c) CF_WRITE_BLOCKED)" using False f by (simp add: woken_def)
      moreover have "upd_client ?p (\<lambda>c'. c'\<lparr>blocker := blocker c\<rparr>) s = s"
        using f(2) by (simp add: upd_client_def fun_upd_idem)
      ultimately show ?thesis using f True by (simp add: maybe_unblock_def)
    qed (use f in auto)
    have s: "{q \<in> owners s (i # is). woken s m q} = {q \<in> owners s is. woken s m q}" using False o by auto
    show ?thesis unfolding eq s using Cons.IH [of s ?msgs] Cons.prems by simp
  next
    case True
    let ?t = "upd_client ?p (\<lambda>c. c\<lparr>blocker := nil_tid\<rparr>) s"
    have w: "\<not> has_flag (cflags c) CF_NOTIFY" "blocker c \<noteq> nil_tid" "wants m (has_flag (cflags c) CF_WRITE_BLOCKED)"
      using True f by (simp_all add: woken_def)
    have eq: "notify_loop reply m msgs s (i # is) = notify_loop reply m (?msgs @ [Wake (blocker c)]) ?t is"
      using f w assms(1) by (simp add: maybe_unblock_def)
    have ot: "owners ?t is = owners s is" by (simp add: owners_def upd_client_def)
    have wt: "woken ?t m q \<longleftrightarrow> woken s m q \<and> q \<noteq> ?p" for q
      using f(2) by (auto simp: woken_def upd_client_def split: option.split)
    have bt: "blocked_thread ?t q = blocked_thread s q" if "q \<noteq> ?p" for q
      using that by (simp add: blocked_thread_def upd_client_def)
    have "\<forall>j \<in> set is. \<exists>f. fds ?t j = Some f \<and> client_hash ?t (fd_owner f) \<noteq> None"
    proof
      fix j assume "j \<in> set is"
      then obtain g where "fds s j = Some g" "client_hash s (fd_owner g) \<noteq> None" using Cons.prems by auto
      then show "\<exists>f. fds ?t j = Some f \<and> client_hash ?t (fd_owner f) \<noteq> None"
        by (intro exI [of _ g]) (auto simp: upd_client_def)
    qed
    from Cons.IH [OF this, of "?msgs @ [Wake (blocker c)]"] obtain msgs' qs where
      r: "notify_loop reply m (?msgs @ [Wake (blocker c)]) ?t is = Some (msgs', unblock {q \<in> owners ?t is. woken ?t m q} ?t)"
        "distinct qs" "set qs = {q \<in> owners ?t is. woken ?t m q}"
        "wakes msgs' = wakes (?msgs @ [Wake (blocker c)]) @ map (blocked_thread ?t) qs" by blast
    have st: "insert ?p {q \<in> owners ?t is. woken ?t m q} = {q \<in> owners s (i # is). woken s m q}"
      using True o ot wt by auto
    have "unblock {q \<in> owners ?t is. woken ?t m q} ?t = unblock {q \<in> owners s (i # is). woken s m q} s"
      unfolding unblock_insert st ..
    moreover have "distinct (?p # qs)" "set (?p # qs) = {q \<in> owners s (i # is). woken s m q}"
      using r(2,3) wt st by auto
    moreover have "map (blocked_thread ?t) qs = map (blocked_thread s) qs" using r(3) wt bt by auto
    then have "wakes msgs' = wakes msgs @ map (blocked_thread s) (?p # qs)"
      using r(4) f(2) by (simp add: blocked_thread_def)
    ultimately show ?thesis using eq r(1) by (intro exI [of _ msgs'] exI [of _ "?p # qs"]) simp
  qed
qed

lemma unblock_inv: "io_inv (unblock Q s) = io_inv s"
proof -
  have "client_arrays (unblock Q s) = client_arrays s" "tables (unblock Q s) = tables s"
    by (auto simp: client_arrays_def tables_def unblock_def fun_eq_iff option.map_comp comp_def if_distrib cong: if_cong)
  then show ?thesis
    by (simp add: io_inv_def io_inv_ex_def links_ok_def unblock_def file_arrays_def [abs_def] client_pos_def [abs_def]
      file_pos_def [abs_def] fd_core_def [abs_def])
qed

section \<open>The polling calls keep the invariant\<close>

lemma has_flag_upd:
  fixes M :: u32
  assumes "m AND M = 0"
  shows "has_flag ((fl AND NOT M) OR (x AND M)) m = has_flag fl m"
proof -
  have "((fl AND NOT M) OR (x AND M)) AND m = fl AND m"
  proof (rule bit_word_eqI)
    fix n
    have "\<not> (bit m n \<and> bit M n)"
      using arg_cong [OF assms, of "\<lambda>w. bit w n"] by (simp only: bit_and_iff bit_0_eq bot_apply bot_bool_def not_False_eq_True simp_thms)
    then show "bit (((fl AND NOT M) OR (x AND M)) AND m) n = bit (fl AND m) n"
      by (auto simp only: bit_and_iff bit_or_iff bit_not_iff dest: bit_imp_possible_bit)
  qed
  then show ?thesis by (simp add: has_flag_def)
qed

lemma epoll_flags_ok:
  assumes ok: "io_ok s" and f: "fds s i = Some f"
  shows "io_ok (upd_fd i (\<lambda>f. f\<lparr>fd_flags := (fd_flags f AND NOT IOD_EPOLL_MASK) OR (ev AND IOD_EPOLL_MASK)\<rparr>) s)"
proof -
  let ?fl = "(fd_flags f AND NOT IOD_EPOLL_MASK) OR (ev AND IOD_EPOLL_MASK)"
  have "io_inv (upd_fd i (\<lambda>f. f\<lparr>fd_flags := ?fl\<rparr>) s)"
    using ok f by (intro upd_fd_flags_inv [of s i f] has_flag_upd) (simp_all add: io_ok_def)
  moreover have "upd_fd i (\<lambda>f. f\<lparr>fd_flags := (fd_flags f AND NOT IOD_EPOLL_MASK) OR (ev AND IOD_EPOLL_MASK)\<rparr>) s
    = upd_fd i (\<lambda>f. f\<lparr>fd_flags := ?fl\<rparr>) s" using f by (simp add: upd_fd_def)
  ultimately show ?thesis using ok by (simp add: io_ok_def) (simp add: upd_fd_def)
qed

lemma set_notify_tid_ok: "io_ok s \<Longrightarrow> set_notify_tid s i p tid = Some t \<Longrightarrow> io_ok t"
  by (auto simp: io_ok_def set_notify_tid_def poll_add_blocker_eq nopoll_add_blocker_def Let_def upd_client_misc_inv
      split: option.splits if_splits)
    (auto simp: upd_client_def)

lemma io_impl_set_notify_ok:
  assumes "io_ok s" "ra_ok ra" "io_impl_set_notify st cb ra s sender fd ev tid = Some (n, m, s')"
  shows "io_ok s'"
proof -
  obtain t where t: "io_sync cb s = Some t" using assms(3) by (auto simp: io_impl_set_notify_def split: option.splits)
  have tok: "io_ok t" using io_sync_ok [OF assms(1) t] by simp
  obtain r u where u: "get_fd cb ra t (sender_pid t sender) fd = Some (r, u)"
    using assms(3) t by (auto simp: io_impl_set_notify_def split: option.splits)
  note uok = get_fd_ok [OF tok assms(2) u]
  show ?thesis
  proof (cases r)
    case None
    then show ?thesis using assms(3) t u uok(1) by (simp add: io_impl_set_notify_def)
  next
    case (Some i)
    then obtain f where f: "fds u i = Some f" using uok(3) by blast
    let ?v = "upd_fd i (\<lambda>f. f\<lparr>fd_flags := (fd_flags f AND NOT IOD_EPOLL_MASK) OR (ev AND IOD_EPOLL_MASK)\<rparr>) u"
    have v: "io_ok ?v" by (rule epoll_flags_ok [OF uok(1) f])
    show ?thesis
      using assms(3) t u Some f v set_notify_tid_ok [OF v]
      by (auto simp: io_impl_set_notify_def Let_def split: if_splits option.splits prod.splits)
  qed
qed

lemma get_status_loop_ok:
  assumes "ra_ok ra"
  shows "io_ok s \<Longrightarrow> get_status_loop g cb ra s caller hs notif = Some (sts, s') \<Longrightarrow> io_ok s' \<and> length sts = length hs"
proof (induction hs arbitrary: s notif sts)
  case (Cons h hs)
  obtain r u where u: "get_fd cb ra s caller h = Some (r, u)" using Cons.prems(2) by (auto split: option.splits)
  note uok = get_fd_ok [OF Cons.prems(1) assms u]
  show ?case
  proof (cases r)
    case None
    then show ?thesis using Cons.prems(2) u Cons.IH [OF uok(1)] by auto
  next
    case (Some i)
    then obtain f where f: "fds u i = Some f" using uok(3) by blast
    obtain m t where mt: "g (fd_file f) (impl u) = (m, t)" by fastforce
    have "io_ok (u\<lparr>impl := t\<rparr>)" "fds (u\<lparr>impl := t\<rparr>) i = Some f" using uok(1) f by simp_all
    note e = epoll_flags_ok [OF this]
    show ?thesis
      using Cons.prems(2) u Some f mt Cons.IH [OF \<open>io_ok (u\<lparr>impl := t\<rparr>)\<close>] Cons.IH [OF e]
      by (auto simp: Let_def split: list.splits)
  qed
qed simp

section \<open>Notifications wake the blocked\<close>

text \<open>
  C27. When replies go through, a notification on a file completes and wakes exactly the processes that
  hold a handle on the file and have a thread blocked in a direction the event mask covers:
  each such thread gets one wake-up reply and is then no longer on record as blocked; no other
  client changes and the invariant is kept.
\<close>

theorem io_notify_wakes:
  assumes "io_inv s" "io_files s iof = Some p" "\<And>ms t. reply ms t = 0"
  shows "\<exists>msgs qs. io_notify reply s iof m = Some (msgs, unblock (set qs) s) \<and> io_inv (unblock (set qs) s)
     \<and> distinct qs \<and> set qs = {q \<in> owners s (fhandles p). woken s m q} \<and> wakes msgs = map (blocked_thread s) qs"
proof -
  have L: "links_ok s" using assms(1) by (simp add: io_inv_def io_inv_ex_def)
  have "\<exists>f. fds s i = Some f \<and> client_hash s (fd_owner f) \<noteq> None" if i: "i \<in> set (fhandles p)" for i
  proof -
    obtain k where "k < length (fhandles p)" "fhandles p ! k = i" using i by (auto simp: in_set_conv_nth)
    then obtain f where f: "fds s i = Some f" using file_handle_exists [OF L assms(2)] by blast
    then show ?thesis using client_arrays_nth [OF L f] by fastforce
  qed
  then obtain msgs qs where "notify_loop reply m [] s (fhandles p) = Some (msgs, unblock {q \<in> owners s (fhandles p). woken s m q} s)"
    "distinct qs" "set qs = {q \<in> owners s (fhandles p). woken s m q}" "wakes msgs = map (blocked_thread s) qs"
    using notify_loop_wakes [of reply "fhandles p" s m "[]"] assms(3) by auto
  then show ?thesis using assms(1,2) by (intro exI [of _ msgs] exI [of _ qs]) (simp add: io_notify_def unblock_inv)
qed

theorem io_notify_wakes_witness:
  "\<exists>msgs qs. io_notify (\<lambda>_ _. 0) (upd_client 7 (\<lambda>c. c\<lparr>blocker := demo_tid\<rparr>) demo_io) 0 EPOLLIN
       = Some (msgs, unblock (set qs) (upd_client 7 (\<lambda>c. c\<lparr>blocker := demo_tid\<rparr>) demo_io)) \<and> wakes msgs = [demo_tid]"
proof -
  let ?s = "upd_client 7 (\<lambda>c. c\<lparr>blocker := demo_tid\<rparr>) demo_io"
  have inv: "io_inv ?s" using demo_inv by (simp add: upd_client_misc_inv)
  have f: "io_files ?s 0 = Some \<lparr>fhandles = [1, 2], fflags = 0\<rparr>" by (simp add: demo_io_def upd_client_def)
  have "{q \<in> owners ?s [1, 2]. woken ?s EPOLLIN q} = {7}"
    by (auto simp: owners_def woken_def upd_client_def demo_io_def new_client_def has_flag_def wants_def demo_tid_def nil_tid_def)
  moreover obtain msgs qs where r: "io_notify (\<lambda>_ _. 0) ?s 0 EPOLLIN = Some (msgs, unblock (set qs) ?s)" "distinct qs"
    "set qs = {q \<in> owners ?s [1, 2]. woken ?s EPOLLIN q}" "wakes msgs = map (blocked_thread ?s) qs"
    using io_notify_wakes [OF inv f, of "\<lambda>_ _. 0" EPOLLIN] by auto
  ultimately have "qs = [7]" using r(2) by (cases qs rule: remdups_adj.cases) auto
  moreover have "blocked_thread ?s 7 = demo_tid" by (simp add: blocked_thread_def upd_client_def demo_io_def)
  ultimately have "wakes msgs = [demo_tid]" using r(4) by simp
  with r(1) show ?thesis by blast
qed

end
