(* ===== verification/Chrdev.thy ===== *)
theory Chrdev
  imports Io_Poll
begin

text \<open>
  The character device library \<^verbatim>\<open>sys/chrdev\<close> on top of the I/O server: pipes and device nodes
  are files of the I/O library, made in two steps (the implementation's constructor, then a
  handle) that are undone when the reply cannot be sent.  The constructors are arguments.  A
  call returns the files its rollback would undo along with its results.
\<close>

abbreviation (input) O_NONBLOCK :: u32 where "O_NONBLOCK \<equiv> 0x800"
abbreviation (input) O_CLOEXEC :: u32 where "O_CLOEXEC \<equiv> 0x80000"

record 's chrdev_callbacks =
  cc_pipe :: "nat \<Rightarrow> nat \<Rightarrow> u32 \<Rightarrow> 's \<Rightarrow> int \<times> 's"
  cc_dev_open :: "nat \<Rightarrow> char \<Rightarrow> u32 \<Rightarrow> u32 \<Rightarrow> u32 \<Rightarrow> 's \<Rightarrow> int \<times> 's"
  cc_close :: "nat \<Rightarrow> 's \<Rightarrow> int \<times> 's"

definition default_chrdev_callbacks :: "'s chrdev_callbacks" where
  "default_chrdev_callbacks = \<lparr>cc_pipe = (\<lambda>_ _ _ t. (- ENOSYS, t)),
     cc_dev_open = (\<lambda>_ _ _ _ _ t. (- ENODEV, t)), cc_close = (\<lambda>_ t. (- ENOSYS, t))\<rparr>"

text \<open>Setting the close callback also sets the I/O library's.\<close>

definition chrdev_close_func ::
  "(nat \<Rightarrow> 's \<Rightarrow> int \<times> 's) \<Rightarrow> 's chrdev_callbacks \<times> 's io_callbacks \<Rightarrow> 's chrdev_callbacks \<times> 's io_callbacks" where
  "chrdev_close_func fn c = ((fst c)\<lparr>cc_close := fn\<rparr>, io_close_func (Some fn) (snd c))"

definition undo_files :: "'s io_callbacks \<Rightarrow> 's io \<Rightarrow> nat option list \<Rightarrow> 's io option" where
  "undo_files cb s fs = foldl (\<lambda>r f. Option.bind r (\<lambda>s. iof_undo_new cb s f)) (Some s) fs"

text \<open>The rollback of a reply that was not delivered: close through the implementation, then undo.\<close>

fun chrdev_rollback :: "'s chrdev_callbacks \<Rightarrow> 's io_callbacks \<Rightarrow> 's io \<Rightarrow> nat list \<Rightarrow> 's io option" where
  "chrdev_rollback cc cb s [] = Some s"
| "chrdev_rollback cc cb s (f # fs) =
     (case iof_undo_new cb (s\<lparr>impl := snd (cc_close cc f (impl s))\<rparr>) (Some f) of None \<Rightarrow> None
      | Some s \<Rightarrow> chrdev_rollback cc cb s fs)"

definition pipe_handles ::
  "'s io_callbacks \<Rightarrow> allocator \<Rightarrow> 's io \<Rightarrow> u16 \<Rightarrow> nat \<Rightarrow> nat \<Rightarrow> u32 \<Rightarrow> (int \<times> int \<times> 's io) option" where
  "pipe_handles cb ra s caller r w h_flags =
     (case io_add_fd cb ra s caller r h_flags of None \<Rightarrow> None
      | Some (rd, s) \<Rightarrow> map_option (\<lambda>(wr, s). (rd, wr, s)) (io_add_fd cb ra s caller w h_flags))"

definition chrdev_pipe ::
  "'s chrdev_callbacks \<Rightarrow> 's io_callbacks \<Rightarrow> allocator \<Rightarrow> 's io \<Rightarrow> l4_tid \<Rightarrow> u32 \<Rightarrow> (int \<times> (int \<times> int) \<times> nat list \<times> 's io) option" where
  "chrdev_pipe cc cb ra s sender flags =
     (case io_sync cb s of None \<Rightarrow> None
      | Some s \<Rightarrow>
      let h_flags = (if flags AND O_CLOEXEC \<noteq> 0 then IOD_CLOEXEC else 0);
          f_flags = (if flags AND O_NONBLOCK \<noteq> 0 then IOF_NONBLOCK else 0);
          (readf, s) = iof_new s f_flags; (writef, s) = iof_new s f_flags;
          fail = (\<lambda>n s. map_option (\<lambda>s. (n, (0, 0), [], s)) (undo_files cb s [readf, writef]))
      in case (readf, writef) of (Some r, Some w) \<Rightarrow>
           (let (n, t) = cc_pipe cc r w flags (impl s); s = s\<lparr>impl := t\<rparr> in
            if n < 0 then fail n s
            else (case pipe_handles cb ra s (sender_pid s sender) r w h_flags of None \<Rightarrow> None
              | Some (rd, wr, s) \<Rightarrow>
                  if rd < 0 \<or> wr < 0 then fail (min rd wr) s else Some (0, (rd, wr), [r, w], s)))
         | _ \<Rightarrow> fail (- ENOMEM) s)"

text \<open>
  \<open>open\<close> takes the sender the kernel vouches for (\<open>origin\<close>: the propagating thread, if the
  message was propagated); only system tasks may open device nodes.
\<close>

definition chrdev_open ::
  "'s chrdev_callbacks \<Rightarrow> 's io_callbacks \<Rightarrow> allocator \<Rightarrow> 's io \<Rightarrow> l4_tid \<Rightarrow> l4_tid \<Rightarrow> u32 \<Rightarrow> u32 \<Rightarrow> (int \<times> int \<times> nat list \<times> 's io) option" where
  "chrdev_open cc cb ra s sender origin obj flags =
     (case io_sync cb s of None \<Rightarrow> None
      | Some s \<Rightarrow>
      if flags AND NOT (3 OR O_CLOEXEC OR O_NONBLOCK) \<noteq> 0 then Some (- EINVAL, 0, [], s)
      else if unat (sender_pid s origin) < 50000 then Some (- EINVAL, 0, [], s)
      else let (nf, s) = iof_new s (if flags AND O_NONBLOCK \<noteq> 0 then IOF_NONBLOCK else 0) in
      case nf of None \<Rightarrow> Some (- ENOMEM, 0, [], s)
      | Some f \<Rightarrow>
          let (n, t) = cc_dev_open cc f (''..c.'' ! unat (drop_bit 30 obj AND 3)) (sneks_major obj) (sneks_minor obj) flags (impl s);
              s = s\<lparr>impl := t\<rparr> in
          case (if n = 0 then io_add_fd cb ra s (sender_pid s sender) f (if flags AND O_CLOEXEC \<noteq> 0 then IOD_CLOEXEC else 0)
                else Some (n, s)) of None \<Rightarrow> None
          | Some (n, s) \<Rightarrow>
              if n < 0 then map_option (\<lambda>s. (n, 0, [], s)) (iof_undo_new cb s (Some f))
              else Some (0, n, [f], s))"

section \<open>Pipes get two endpoints\<close>

lemma pipe_handles_ok:
  assumes ok: "io_ok s" and ra: "ra_ok ra" and r: "pipe_handles cb ra s p a b fl = Some (rd, wr, s')"
    and ge: "0 \<le> rd" "0 \<le> wr"
  shows "io_ok s' \<and> rd \<noteq> wr \<and> fd_core s' (nat rd) = Some (a, p, fl, 0) \<and> fd_core s' (nat wr) = Some (b, p, fl, 0)"
proof -
  obtain t where t: "io_add_fd cb ra s p a fl = Some (rd, t)" "io_add_fd cb ra t p b fl = Some (wr, s')"
    using r by (auto simp: pipe_handles_def split: option.splits)
  note t1 = io_add_fd_ring [OF ok ra t(1) ge(1)]
  note t2 = io_add_fd_ring [OF t1(1) ra t(2) ge(2)]
  have g: "io_get_client cb ra t p True = Some (True, t)" by (rule io_get_client_idle [OF t1(2,4)])
  have "io_inv t" using t1(1) by (simp add: io_ok_def)
  from io_add_fd_Some [OF this ra t(2)] ge(2) g
  have n: "nat wr \<in> free_ids t" "fd_core s' = (fd_core t)(nat wr \<mapsto> (b, p, fl, 0))" by auto
  have "nat wr \<noteq> nat rd" using n(1) t1(3) by (auto simp: free_ids_def unused_def fd_core_def)
  then show ?thesis using n t1 t2 ge by auto
qed

text \<open>
  A successful pipe call hands its caller two different descriptors, both found by the caller's
  lookup, on two different files that did not exist before, with close-on-exec exactly as asked
  for; the files are the ones its rollback undoes.
\<close>

theorem pipe_makes_endpoints:
  assumes "io_ok s" "ra_ok ra" "chrdev_pipe cc cb ra s sender flags = Some (0, (rd, wr), undo, s')"
  shows "\<exists>r w fl. io_ok s' \<and> undo = [r, w] \<and> r \<noteq> w \<and> next_file s \<le> r \<and> next_file s \<le> w \<and> rd \<noteq> wr
     \<and> fd_core s' (nat rd) = Some (r, sender_pid s sender, fl, 0) \<and> fd_core s' (nat wr) = Some (w, sender_pid s sender, fl, 0)
     \<and> fl = (if flags AND O_CLOEXEC \<noteq> 0 then IOD_CLOEXEC else 0)
     \<and> get_fd_nosync s' (sender_pid s sender) rd = Some (Some (nat rd))
     \<and> get_fd_nosync s' (sender_pid s sender) wr = Some (Some (nat wr))"
proof -
  let ?fl = "if flags AND O_CLOEXEC \<noteq> 0 then IOD_CLOEXEC else 0"
  let ?ff = "if flags AND O_NONBLOCK \<noteq> 0 then IOF_NONBLOCK else 0"
  obtain t where t: "io_sync cb s = Some t" using assms(3) by (auto simp: chrdev_pipe_def split: option.splits)
  have tok: "io_ok t" "my_tid t = my_tid s" using io_sync_ok [OF assms(1) t] by auto
  have tn: "next_file t = next_file s"
    using t assms(1) by (auto simp: io_sync_def sync_confirm_def io_ok_def rest_def split: option.splits dest!: run_action_rest)
  obtain rf u where u: "iof_new t ?ff = (rf, u)" by fastforce
  obtain wf v where v: "iof_new u ?ff = (wf, v)" by fastforce
  obtain r w where rw: "rf = Some r" "wf = Some w"
    using assms(3) t u v by (cases rf; cases wf) (auto simp: chrdev_pipe_def Let_def)
  have "r = next_file t" "next_file u = Suc r" "w = next_file u" "my_tid v = my_tid t"
    using u v rw by (auto simp: iof_new_def res_ok_def Let_def split: if_splits list.splits)
  note new = this
  have vok: "io_ok v" using iof_new_ok [OF iof_new_ok [OF tok(1) u] v] .
  obtain n x where nx: "cc_pipe cc r w flags (impl v) = (n, x)" by fastforce
  have sp: "sender_pid (v\<lparr>impl := x\<rparr>) sender = sender_pid s sender" using new tok(2) by (simp add: sender_pid_def)
  have n0: "0 \<le> n"
  proof (rule ccontr)
    assume "\<not> 0 \<le> n"
    then show False using assms(3) t u v rw nx by (auto simp: chrdev_pipe_def Let_def)
  qed
  obtain rd' wr' y where y: "pipe_handles cb ra (v\<lparr>impl := x\<rparr>) (sender_pid s sender) r w ?fl = Some (rd', wr', y)"
    using assms(3) t u v rw nx n0 sp by (auto simp: chrdev_pipe_def Let_def split: option.splits)
  have ge: "0 \<le> rd'" "0 \<le> wr'" and res: "rd' = rd" "wr' = wr" "y = s'" "undo = [r, w]"
    using assms(3) t u v rw nx n0 sp y by (auto simp: chrdev_pipe_def Let_def split: if_splits)
  have "io_ok (v\<lparr>impl := x\<rparr>)" using vok by simp
  from pipe_handles_ok [OF this assms(2) y ge]
  have h: "io_ok s'" "rd \<noteq> wr" "fd_core s' (nat rd) = Some (r, sender_pid s sender, ?fl, 0)"
    "fd_core s' (nat wr) = Some (w, sender_pid s sender, ?fl, 0)" using res by auto
  have ns: "\<not> has_flag ?fl IOD_SHADOW" by (simp add: has_flag_def)
  have inv: "io_inv s'" using h(1) by (simp add: io_ok_def)
  have "get_fd_nosync s' (sender_pid s sender) (int (nat rd)) = Some (Some (nat rd))"
    "get_fd_nosync s' (sender_pid s sender) (int (nat wr)) = Some (Some (nat wr))"
    using get_fd_nosync_own [OF inv h(3) ns] get_fd_nosync_own [OF inv h(4) ns] by simp_all
  then show ?thesis using h res new tn ge by (intro exI [of _ r] exI [of _ w] exI [of _ ?fl]) auto
qed

text \<open>Adding a handle succeeds for a known client that has no indirection table, while indexes last.\<close>

lemma io_add_fd_succeeds:
  assumes "ra_ok ra" "ring_idle s" "client_hash s p = Some c" "fd_table c = []" "io_files s a = Some q"
    "length (chandles c) < MAX_FD" "length (fhandles q) < MAX_FD" "i \<in> free_ids s" "fl AND NOT IOD_CLOEXEC = 0"
  shows "\<exists>n s' c'. io_add_fd cb ra s p a fl = Some (int n, s') \<and> n \<in> free_ids s \<and> free_ids s' = free_ids s - {n}
     \<and> ring s' = ring s \<and> client_hash s' p = Some c' \<and> fd_table c' = [] \<and> length (chandles c') = Suc (length (chandles c))
     \<and> (\<forall>b. b \<noteq> a \<longrightarrow> io_files s' b = io_files s b)"
proof -
  have g: "io_get_client cb ra s p True = Some (True, s)" using io_get_client_idle [OF assms(2)] assms(3) by simp
  obtain n where n: "alloc_fd ra s c = Some (Some n)" "n \<in> free_ids s"
    using alloc_fd_ok [OF assms(1), of s c] assms(4,8) by (auto simp: indirect_def split: option.splits)
  then have "fds s n = None" by (simp add: free_ids_def unused_def)
  then show ?thesis
    using assms g n
    by (simp add: io_add_fd_def link_fd_def upd_file_def upd_client_def free_ids_def unused_def) (auto simp: free_ids_def unused_def)
qed

theorem pipe_makes_endpoints_witness:
  "\<exists>rd wr undo s'. chrdev_pipe (default_chrdev_callbacks\<lparr>cc_pipe := \<lambda>_ _ _ t. (0, t)\<rparr>) demo_callbacks least_ra demo_io demo_tid 0
       = Some (0, (rd, wr), undo, s') \<and> rd \<noteq> wr \<and> get_fd_nosync s' 7 rd = Some (Some (nat rd))"
proof -
  let ?cc = "default_chrdev_callbacks\<lparr>cc_pipe := \<lambda>_ _ _ t. (0, t)\<rparr> :: nat chrdev_callbacks"
  define v where "v = demo_io\<lparr>io_files := (io_files demo_io)(1 \<mapsto> \<lparr>fhandles = [], fflags = 0\<rparr>, 2 \<mapsto> \<lparr>fhandles = [], fflags = 0\<rparr>), next_file := 3\<rparr>"
  have d: "rb demo_io = None" "my_tid demo_io = nil_tid" "next_file demo_io = 1" "res_oracle demo_io = []"
    by (simp_all add: demo_io_def io_init_def)
  have vf: "ring_idle v" "free_ids v = free_ids demo_io" "client_hash v = client_hash demo_io" "sender_pid v demo_tid = 7"
    using demo_idle(1) [of v] demo_sender [of v] d by (simp_all add: v_def free_ids_def)
  have fr: "3 \<in> free_ids demo_io" "4 \<in> free_ids demo_io" by (simp_all add: free_ids_def unused_def demo_io_def)
  obtain n s1 c1 where s1: "io_add_fd demo_callbacks least_ra v 7 1 0 = Some (int n, s1)" "free_ids s1 = free_ids v - {n}"
    "ring s1 = ring v" "client_hash s1 7 = Some c1" "fd_table c1 = []" "length (chandles c1) = 3" "io_files s1 2 = io_files v 2"
    using io_add_fd_succeeds [OF least_ra_ok vf(1), of 7 "(new_client 0)\<lparr>chandles := [1, 2]\<rparr>" 1 "\<lparr>fhandles = [], fflags = 0\<rparr>" 3 0 demo_callbacks]
      vf fr demo_client(1) by (auto simp: v_def new_client_def)
  have "\<exists>i. i \<in> free_ids s1" using s1(2) vf(2) fr by (cases "n = 3") auto
  then obtain i where i: "i \<in> free_ids s1" ..
  have "ring_idle s1" using vf(1) s1(3) by (simp add: ring_idle_def)
  from io_add_fd_succeeds [OF least_ra_ok this s1(4,5), of 2 "\<lparr>fhandles = [], fflags = 0\<rparr>" i 0 demo_callbacks] i s1(6,7)
  obtain m s2 where s2: "io_add_fd demo_callbacks least_ra s1 7 2 0 = Some (int m, s2)" by (auto simp: v_def)
  have "pipe_handles demo_callbacks least_ra v 7 1 2 0 = Some (int n, int m, s2)"
    using s1(1) s2 by (simp add: pipe_handles_def)
  moreover have "iof_new demo_io 0 = (Some 1, demo_io\<lparr>io_files := (io_files demo_io)(1 \<mapsto> \<lparr>fhandles = [], fflags = 0\<rparr>), next_file := 2\<rparr>)"
    using d by (simp add: iof_new_def res_ok_def)
  moreover have "iof_new (demo_io\<lparr>io_files := (io_files demo_io)(1 \<mapsto> \<lparr>fhandles = [], fflags = 0\<rparr>), next_file := 2\<rparr>) 0 = (Some 2, v)"
    using d by (simp add: iof_new_def res_ok_def v_def)
  moreover have "v\<lparr>impl := impl v\<rparr> = v" by simp
  ultimately have r: "chrdev_pipe ?cc demo_callbacks least_ra demo_io demo_tid 0 = Some (0, (int n, int m), [1, 2], s2)"
    using demo_sync [OF d(1), of demo_callbacks] vf(4) by (simp add: chrdev_pipe_def Let_def)
  from pipe_makes_endpoints [OF demo_ok least_ra_ok r] r demo_sender [OF d(2)] show ?thesis by auto
qed

end
