(* ===== verification/Pipe.thy ===== *)
theory Pipe
  imports Chrdev
begin

text \<open>
  The pipe server \<^verbatim>\<open>sys/pipe/pipeserv.c\<close> and the null devices of \<^verbatim>\<open>sys/null/nullserv.c\<close>: the
  callbacks the two give to the character device library.  The byte buffer is CCAN's membuf,
  which is not part of the repository: \<open>membuf_ops\<close> holds its operations and \<open>membuf_ok\<close> what
  its documentation promises.  A write puts bytes into the buffer's space and a read copies
  elements out; the buffer changes only when the reply is confirmed.  Notifications are
  recorded in order, as pairs of a file and an event mask.
\<close>

section \<open>The buffer\<close>

record 'm membuf_ops =
  mb_new :: 'm
  mb_elems :: "'m \<Rightarrow> u8 list"
  mb_spare :: "'m \<Rightarrow> u8 list"
  mb_prepare :: "nat \<Rightarrow> 'm \<Rightarrow> 'm"
  mb_poke :: "u8 list \<Rightarrow> 'm \<Rightarrow> 'm"
  mb_added :: "nat \<Rightarrow> 'm \<Rightarrow> 'm"
  mb_consume :: "nat \<Rightarrow> 'm \<Rightarrow> 'm"

definition membuf_ok :: "'m membuf_ops \<Rightarrow> bool" where
  "membuf_ok mb \<longleftrightarrow> mb_elems mb (mb_new mb) = []
     \<and> (\<forall>n m. mb_elems mb (mb_prepare mb n m) = mb_elems mb m)
     \<and> (\<forall>bs m. length bs \<le> length (mb_spare mb m) \<longrightarrow> mb_elems mb (mb_poke mb bs m) = mb_elems mb m
          \<and> length (mb_spare mb (mb_poke mb bs m)) = length (mb_spare mb m)
          \<and> take (length bs) (mb_spare mb (mb_poke mb bs m)) = bs)
     \<and> (\<forall>n m. n \<le> length (mb_spare mb m) \<longrightarrow> mb_elems mb (mb_added mb n m) = mb_elems mb m @ take n (mb_spare mb m))
     \<and> (\<forall>n m. n \<le> length (mb_elems mb m) \<longrightarrow> mb_elems mb (mb_consume mb n m) = drop n (mb_elems mb m))"

section \<open>The pipe server\<close>

record 'm pipehead =
  pbuf :: 'm
  readf :: "nat option"
  writef :: "nat option"

record 'm pipe =
  heads :: "nat \<rightharpoonup> 'm pipehead"
  pfiles :: "nat \<rightharpoonup> nat \<times> bool"
  next_head :: nat
  pnotes :: "(nat \<times> u32) list"

definition upd_buf :: "nat \<Rightarrow> ('m \<Rightarrow> 'm) \<Rightarrow> 'm pipe \<Rightarrow> 'm pipe" where
  "upd_buf h g s = s\<lparr>heads := (heads s)(h := map_option (\<lambda>ph. ph\<lparr>pbuf := g (pbuf ph)\<rparr>) (heads s h))\<rparr>"

definition note_to :: "nat option \<Rightarrow> u32 \<Rightarrow> 'm pipe \<Rightarrow> 'm pipe" where
  "note_to f m s = (case f of None \<Rightarrow> s | Some f \<Rightarrow> s\<lparr>pnotes := pnotes s @ [(f, m)]\<rparr>)"

text \<open>The head and the direction of a file.\<close>

definition head_of :: "'m pipe \<Rightarrow> nat \<Rightarrow> (nat \<times> 'm pipehead \<times> bool) option" where
  "head_of s f = (case pfiles s f of None \<Rightarrow> None
     | Some (h, w) \<Rightarrow> map_option (\<lambda>ph. (h, ph, w)) (heads s h))"

definition pipe_pipe :: "'m membuf_ops \<Rightarrow> bool \<Rightarrow> nat \<Rightarrow> nat \<Rightarrow> 'm pipe \<Rightarrow> int \<times> 'm pipe" where
  "pipe_pipe mb mem_ok r w s =
     (if \<not> mem_ok then (- ENOMEM, s)
      else (0, s\<lparr>heads := (heads s)(next_head s \<mapsto> \<lparr>pbuf = mb_new mb, readf = Some r, writef = Some w\<rparr>),
              pfiles := (pfiles s)(r \<mapsto> (next_head s, False), w \<mapsto> (next_head s, True)),
              next_head := Suc (next_head s)\<rparr>))"

definition pipe_close :: "nat \<Rightarrow> 'm pipe \<Rightarrow> 'm pipe option" where
  "pipe_close f s =
     (case head_of s f of None \<Rightarrow> None
      | Some (h, ph, w) \<Rightarrow>
          if (if w then writef ph else readf ph) \<noteq> Some f then None
          else let ph = (if w then ph\<lparr>writef := None\<rparr> else ph\<lparr>readf := None\<rparr>) in
          if writef ph = None \<and> readf ph = None then Some (s\<lparr>heads := (heads s)(h := None)\<rparr>)
          else let s = s\<lparr>heads := (heads s)(h \<mapsto> ph)\<rparr>
               in Some (if writef ph = None then note_to (readf ph) EPOLLHUP s else s))"

definition pipe_get_status :: "'m membuf_ops \<Rightarrow> nat \<Rightarrow> 'm pipe \<Rightarrow> (u32 \<times> 'm pipe) option" where
  "pipe_get_status mb f s =
     (case head_of s f of None \<Rightarrow> None
      | Some (h, ph, w) \<Rightarrow>
          Some (if w then
                  (if readf ph = None then (EPOLLERR, s)
                   else (if mb_spare mb (mb_prepare mb 1 (pbuf ph)) = [] then 0 else EPOLLOUT, upd_buf h (mb_prepare mb 1) s))
                else if mb_elems mb (pbuf ph) \<noteq> [] then (EPOLLIN, s)
                else if writef ph = None then (EPOLLHUP, s) else (0, s)))"

definition pipe_write :: "'m membuf_ops \<Rightarrow> nat \<Rightarrow> u8 list \<Rightarrow> int \<Rightarrow> 'm pipe \<Rightarrow> (int \<times> 'm pipe) option" where
  "pipe_write mb f buf offset s =
     (case head_of s f of None \<Rightarrow> None
      | Some (h, ph, w) \<Rightarrow>
          if offset \<ge> 0 then Some (- ESPIPE, s)
          else if readf ph = None then Some (- EPIPE, s)
          else if buf = [] then Some (0, s)
          else let s = upd_buf h (mb_prepare mb (length buf)) s; b = mb_prepare mb (length buf) (pbuf ph);
                   was_empty = (mb_elems mb b = []) in
          if mb_spare mb b = [] then Some (- EWOULDBLOCK, s)
          else let written = min (length buf) (length (mb_spare mb b));
                   s = upd_buf h (mb_poke mb (take written buf)) s
               in Some (int written, if was_empty then note_to (readf ph) EPOLLIN s else s))"

definition pipe_read :: "'m membuf_ops \<Rightarrow> nat \<Rightarrow> nat \<Rightarrow> int \<Rightarrow> 'm pipe \<Rightarrow> (int \<times> u8 list \<times> 'm pipe) option" where
  "pipe_read mb f cnt offset s =
     (case head_of s f of None \<Rightarrow> None
      | Some (h, ph, w) \<Rightarrow>
          if offset \<ge> 0 then Some (- ESPIPE, [], s)
          else if mb_elems mb (pbuf ph) = [] then Some (if writef ph \<noteq> None then - EWOULDBLOCK else 0, [], s)
          else let s = upd_buf h (mb_prepare mb 1) s; b = mb_prepare mb 1 (pbuf ph);
                   was_full = (mb_spare mb b = []);
                   got = min cnt (length (mb_elems mb b))
               in Some (int got, take got (mb_elems mb b),
                    if writef ph \<noteq> None \<and> got > 0 \<and> was_full then note_to (writef ph) EPOLLOUT s else s))"

text \<open>The buffer's assertions on the counts are part of the model.\<close>

definition pipe_confirm :: "'m membuf_ops \<Rightarrow> nat \<Rightarrow> nat \<Rightarrow> int \<Rightarrow> bool \<Rightarrow> 'm pipe \<Rightarrow> 'm pipe option" where
  "pipe_confirm mb f cnt offset writing s =
     (case head_of s f of None \<Rightarrow> None
      | Some (h, ph, w) \<Rightarrow>
          if offset \<ge> 0 \<or> writing \<noteq> w then None
          else if w then (if cnt \<le> length (mb_spare mb (pbuf ph)) then Some (upd_buf h (mb_added mb cnt) s) else None)
          else (if cnt \<le> length (mb_elems mb (pbuf ph)) then Some (upd_buf h (mb_consume mb cnt) s) else None))"

section \<open>The null devices\<close>

datatype null_dev = DEV_NULL | DEV_ZERO | DEV_FULL

definition null_get_status :: "null_dev \<Rightarrow> u32" where
  "null_get_status d = (case d of DEV_NULL \<Rightarrow> EPOLLOUT | _ \<Rightarrow> EPOLLIN OR EPOLLOUT)"

definition null_read :: "null_dev \<Rightarrow> nat \<Rightarrow> int \<times> u8 list" where
  "null_read d cnt = (case d of DEV_NULL \<Rightarrow> (0, []) | _ \<Rightarrow> (int cnt, replicate cnt 0))"

definition null_write :: "null_dev \<Rightarrow> u8 list \<Rightarrow> int" where
  "null_write d buf = (case d of DEV_FULL \<Rightarrow> - ENOSPC | _ \<Rightarrow> int (length buf))"

definition null_open :: "char \<Rightarrow> u32 \<Rightarrow> u32 \<Rightarrow> int \<times> null_dev option" where
  "null_open type maj mnr =
     (if type = CHR ''c'' \<and> maj = 1 then
        (if mnr = 3 then (0, Some DEV_NULL) else if mnr = 5 then (0, Some DEV_ZERO)
         else if mnr = 7 then (0, Some DEV_FULL) else (- ENODEV, None))
      else (- ENODEV, None))"

section \<open>Pipes carry bytes in order\<close>

text \<open>
  Transactions on one pipe as the I/O library runs them: a call on the writer's or the reader's
  file, confirmed if its reply was delivered.  The run collects the bytes of the confirmed writes
  and of the confirmed reads.
\<close>

datatype pipe_op = P_Write "u8 list" bool | P_Read nat bool

fun pipe_run :: "'m membuf_ops \<Rightarrow> nat \<Rightarrow> nat \<Rightarrow> pipe_op list \<Rightarrow> 'm pipe \<Rightarrow> (u8 list \<times> u8 list \<times> 'm pipe) option" where
  "pipe_run mb r w [] s = Some ([], [], s)"
| "pipe_run mb r w (P_Write buf ok # xs) s =
     (case pipe_write mb w buf (-1) s of None \<Rightarrow> None
      | Some (n, s) \<Rightarrow>
          if n > 0 \<and> ok then
            (case pipe_confirm mb w (nat n) (-1) True s of None \<Rightarrow> None
             | Some s \<Rightarrow> map_option (\<lambda>(i, out, s). (take (nat n) buf @ i, out, s)) (pipe_run mb r w xs s))
          else pipe_run mb r w xs s)"
| "pipe_run mb r w (P_Read cnt ok # xs) s =
     (case pipe_read mb r cnt (-1) s of None \<Rightarrow> None
      | Some (n, bs, s) \<Rightarrow>
          if n > 0 \<and> ok then
            (case pipe_confirm mb r (nat n) (-1) False s of None \<Rightarrow> None
             | Some s \<Rightarrow> map_option (\<lambda>(i, out, s). (i, bs @ out, s)) (pipe_run mb r w xs s))
          else pipe_run mb r w xs s)"

text \<open>The pipe with files \<open>r\<close> and \<open>w\<close> holds the bytes \<open>bs\<close>.\<close>

definition pipe_holds :: "'m membuf_ops \<Rightarrow> 'm pipe \<Rightarrow> nat \<Rightarrow> nat \<Rightarrow> u8 list \<Rightarrow> bool" where
  "pipe_holds mb s r w bs \<longleftrightarrow> (\<exists>h ph. pfiles s r = Some (h, False) \<and> pfiles s w = Some (h, True) \<and> heads s h = Some ph
     \<and> mb_elems mb (pbuf ph) = bs)"

lemma note_to_sel [simp]:
  "heads (note_to f m s) = heads s" "pfiles (note_to f m s) = pfiles s"
  by (simp_all add: note_to_def split: option.split)

lemma membuf_okD:
  assumes "membuf_ok mb"
  shows "mb_elems mb (mb_prepare mb n m) = mb_elems mb m"
    "length bs \<le> length (mb_spare mb m) \<Longrightarrow> mb_elems mb (mb_poke mb bs m) = mb_elems mb m"
    "length bs \<le> length (mb_spare mb m) \<Longrightarrow> length (mb_spare mb (mb_poke mb bs m)) = length (mb_spare mb m)"
    "length bs \<le> length (mb_spare mb m) \<Longrightarrow> take (length bs) (mb_spare mb (mb_poke mb bs m)) = bs"
    "n \<le> length (mb_spare mb m) \<Longrightarrow> mb_elems mb (mb_added mb n m) = mb_elems mb m @ take n (mb_spare mb m)"
    "n \<le> length (mb_elems mb m) \<Longrightarrow> mb_elems mb (mb_consume mb n m) = drop n (mb_elems mb m)"
  using assms by (simp_all add: membuf_ok_def)

lemma write_confirm:
  assumes mb: "membuf_ok mb" and p: "pipe_holds mb s r w bs" and wr: "pipe_write mb w buf (-1) s = Some (n, s1)"
  shows "pipe_holds mb s1 r w bs"
    "n > 0 \<Longrightarrow> \<exists>s2. pipe_confirm mb w (nat n) (-1) True s1 = Some s2 \<and> pipe_holds mb s2 r w (bs @ take (nat n) buf)"
proof -
  obtain h ph where p': "pfiles s r = Some (h, False)" "pfiles s w = Some (h, True)" "heads s h = Some ph"
    "mb_elems mb (pbuf ph) = bs" using p by (auto simp: pipe_holds_def)
  let ?b = "mb_prepare mb (length buf) (pbuf ph)"
  let ?k = "min (length buf) (length (mb_spare mb ?b))"
  let ?c = "mb_poke mb (take ?k buf) ?b"
  have e: "mb_elems mb ?b = bs" using membuf_okD(1) [OF mb] p'(4) by simp
  have len: "length (take ?k buf) \<le> length (mb_spare mb ?b)" by simp
  have c: "mb_elems mb ?c = bs" "length (mb_spare mb ?c) = length (mb_spare mb ?b)" "take ?k (mb_spare mb ?c) = take ?k buf"
    using membuf_okD(2-4) [OF mb len] e by (simp_all add: min.absorb2)
  show "pipe_holds mb s1 r w bs"
    using wr p' e c by (auto simp: pipe_write_def head_of_def pipe_holds_def upd_buf_def Let_def split: if_splits)
  show "\<exists>s2. pipe_confirm mb w (nat n) (-1) True s1 = Some s2 \<and> pipe_holds mb s2 r w (bs @ take (nat n) buf)" if "n > 0"
  proof -
    have s1: "nat n = ?k" "pfiles s1 = pfiles s" "heads s1 h = Some (ph\<lparr>pbuf := ?c\<rparr>)"
      using wr p' that by (auto simp: pipe_write_def head_of_def upd_buf_def Let_def split: if_splits)
    have "mb_elems mb (mb_added mb ?k ?c) = bs @ take ?k buf"
      using membuf_okD(5) [OF mb, of ?k ?c] c by simp
    then show ?thesis
      using s1 p' c(2) by (simp add: pipe_confirm_def head_of_def pipe_holds_def upd_buf_def)
  qed
qed

lemma read_confirm:
  assumes mb: "membuf_ok mb" and p: "pipe_holds mb s r w bs" and rd: "pipe_read mb r cnt (-1) s = Some (n, out, s1)"
  shows "pipe_holds mb s1 r w bs"
    "n > 0 \<Longrightarrow> out = take (nat n) bs \<and> (\<exists>s2. pipe_confirm mb r (nat n) (-1) False s1 = Some s2 \<and> pipe_holds mb s2 r w (drop (nat n) bs))"
proof -
  obtain h ph where p': "pfiles s r = Some (h, False)" "pfiles s w = Some (h, True)" "heads s h = Some ph"
    "mb_elems mb (pbuf ph) = bs" using p by (auto simp: pipe_holds_def)
  let ?b = "mb_prepare mb 1 (pbuf ph)"
  have e: "mb_elems mb ?b = bs" using membuf_okD(1) [OF mb] p'(4) by simp
  show "pipe_holds mb s1 r w bs"
    using rd p' e by (auto simp: pipe_read_def head_of_def pipe_holds_def upd_buf_def Let_def split: if_splits)
  show "out = take (nat n) bs \<and> (\<exists>s2. pipe_confirm mb r (nat n) (-1) False s1 = Some s2 \<and> pipe_holds mb s2 r w (drop (nat n) bs))"
    if "n > 0"
  proof -
    have s1: "nat n = min cnt (length bs)" "out = take (nat n) bs" "pfiles s1 = pfiles s" "heads s1 h = Some (ph\<lparr>pbuf := ?b\<rparr>)"
      using rd p' e that by (auto simp: pipe_read_def head_of_def upd_buf_def Let_def split: if_splits)
    have "mb_elems mb (mb_consume mb (nat n) ?b) = drop (nat n) bs"
      using membuf_okD(6) [OF mb, of "nat n" ?b] e s1(1) by simp
    then show ?thesis
      using s1 p' e by (simp add: pipe_confirm_def head_of_def pipe_holds_def upd_buf_def)
  qed
qed

text \<open>
  C12. A pipe is a FIFO of bytes: whatever sequence of reads and writes is run on its two ends, and
  whichever of their replies are delivered, every call completes, and the bytes that were in the
  pipe followed by those of the delivered writes are the bytes of the delivered reads followed by
  those now in the pipe.  A read or write whose reply fails loses and duplicates nothing.
\<close>

theorem pipe_fifo:
  assumes "membuf_ok mb" "pipe_holds mb s r w bs"
  shows "\<exists>i out s' bs'. pipe_run mb r w xs s = Some (i, out, s') \<and> pipe_holds mb s' r w bs' \<and> bs @ i = out @ bs'"
  using assms(2)
proof (induction xs arbitrary: s bs)
  case (Cons x xs)
  show ?case
  proof (cases x)
    case (P_Write buf ok)
    obtain n s1 where n: "pipe_write mb w buf (-1) s = Some (n, s1)"
      using Cons.prems by (force simp: pipe_holds_def pipe_write_def head_of_def Let_def)
    note wc = write_confirm [OF assms(1) Cons.prems n]
    show ?thesis
    proof (cases "n > 0 \<and> ok")
      case True
      then obtain s2 where "pipe_confirm mb w (nat n) (-1) True s1 = Some s2" "pipe_holds mb s2 r w (bs @ take (nat n) buf)"
        using wc(2) by blast
      then show ?thesis using Cons.IH [of s2 "bs @ take (nat n) buf"] P_Write n True by fastforce
    next
      case False
      then show ?thesis using Cons.IH [OF wc(1)] P_Write n by auto
    qed
  next
    case (P_Read cnt ok)
    obtain n out s1 where n: "pipe_read mb r cnt (-1) s = Some (n, out, s1)"
      using Cons.prems by (force simp: pipe_holds_def pipe_read_def head_of_def Let_def)
    note rc = read_confirm [OF assms(1) Cons.prems n]
    show ?thesis
    proof (cases "n > 0 \<and> ok")
      case True
      then obtain s2 where s2: "out = take (nat n) bs" "pipe_confirm mb r (nat n) (-1) False s1 = Some s2"
          "pipe_holds mb s2 r w (drop (nat n) bs)" using rc(2) by blast
      from Cons.IH [OF s2(3)] obtain i out' s' bs' where
        ih: "pipe_run mb r w xs s2 = Some (i, out', s')" "pipe_holds mb s' r w bs'" "drop (nat n) bs @ i = out' @ bs'" by blast
      have "bs @ i = take (nat n) bs @ drop (nat n) bs @ i" by (simp only: append_assoc [symmetric] append_take_drop_id)
      then have "bs @ i = (out @ out') @ bs'" using ih(3) s2(1) by simp
      moreover have "pipe_run mb r w (x # xs) s = Some (i, out @ out', s')" using P_Read n True s2(2) ih(1) by simp
      ultimately show ?thesis using ih(2) by blast
    next
      case False
      then show ?thesis using Cons.IH [OF rc(1)] P_Read n by auto
    qed
  qed
qed simp

text \<open>
  C31. When the last writer goes, the reader is notified of the hangup and reads the bytes still in the
  pipe, then end of file, and never blocks; when the reader goes, a write fails with EPIPE.
\<close>

theorem pipe_hangup:
  assumes "membuf_ok mb" "head_of s w = Some (h, ph, True)" "head_of s r = Some (h, ph, False)" "w \<noteq> r"
    "readf ph = Some r" "writef ph = Some w"
  shows "(\<exists>s'. pipe_close w s = Some s' \<and> pnotes s' = pnotes s @ [(r, EPOLLHUP)]
       \<and> (\<exists>out t. pipe_read mb r cnt (-1) s' = Some (int (min cnt (length (mb_elems mb (pbuf ph)))), out, t)
            \<and> out = take cnt (mb_elems mb (pbuf ph))))
     \<and> (\<exists>s'. pipe_close r s = Some s' \<and> pipe_write mb w buf (-1) s' = Some (- EPIPE, s'))"
proof -
  have f: "pfiles s w = Some (h, True)" "pfiles s r = Some (h, False)" "heads s h = Some ph"
    using assms(2,3) by (auto simp: head_of_def split: option.splits)
  have "mb_elems mb (mb_prepare mb 1 (pbuf ph)) = mb_elems mb (pbuf ph)" using assms(1) by (simp add: membuf_ok_def)
  then show ?thesis
    using f assms(5,6) by (simp add: pipe_close_def pipe_read_def pipe_write_def head_of_def Let_def note_to_def min_def)
qed

text \<open>A buffer of eight bytes that is never compacted, for the witnesses.\<close>

definition list_membuf :: "(u8 list \<times> u8 list) membuf_ops" where
  "list_membuf = \<lparr>mb_new = ([], replicate 8 0), mb_elems = fst, mb_spare = snd, mb_prepare = (\<lambda>_ m. m),
     mb_poke = (\<lambda>bs m. (fst m, bs @ drop (length bs) (snd m))),
     mb_added = (\<lambda>n m. (fst m @ take n (snd m), drop n (snd m))), mb_consume = (\<lambda>n m. (drop n (fst m), snd m))\<rparr>"

lemma list_membuf_ok: "membuf_ok list_membuf"
  by (auto simp: membuf_ok_def list_membuf_def)

definition demo_pipe :: "(u8 list \<times> u8 list) pipe" where
  "demo_pipe = snd (pipe_pipe list_membuf True 1 2 \<lparr>heads = Map.empty, pfiles = Map.empty, next_head = 0, pnotes = []\<rparr>)"

theorem pipe_fifo_witness:
  "\<exists>i out s' bs'. pipe_run list_membuf 1 2 [P_Write [10, 20, 30] True, P_Read 2 False, P_Read 2 True] demo_pipe = Some (i, out, s')
     \<and> i = [10, 20, 30] \<and> out = [10, 20] \<and> pipe_holds list_membuf s' 1 2 bs' \<and> i = out @ bs'"
proof -
  have p: "pipe_holds list_membuf demo_pipe 1 2 []"
    by (simp add: pipe_holds_def demo_pipe_def pipe_pipe_def list_membuf_def)
  from pipe_fifo [OF list_membuf_ok p, of "[P_Write [10, 20, 30] True, P_Read 2 False, P_Read 2 True]"] obtain i out s' bs' where
    r: "pipe_run list_membuf 1 2 [P_Write [10, 20, 30] True, P_Read 2 False, P_Read 2 True] demo_pipe = Some (i, out, s')"
    "pipe_holds list_membuf s' 1 2 bs'" "i = out @ bs'" by auto
  have "i = [10, 20, 30] \<and> out = [10, 20]"
    using r(1) by (simp add: demo_pipe_def pipe_pipe_def list_membuf_def pipe_write_def pipe_read_def pipe_confirm_def
        head_of_def upd_buf_def note_to_def Let_def)
  then show ?thesis using r by blast
qed

theorem pipe_hangup_witness:
  "\<exists>s' t. pipe_close 2 demo_pipe = Some s' \<and> pipe_read list_membuf 1 5 (-1) s' = Some (0, [], t)"
proof -
  have h: "head_of demo_pipe 2 = Some (0, \<lparr>pbuf = ([], replicate 8 0), readf = Some 1, writef = Some 2\<rparr>, True)"
    "head_of demo_pipe 1 = Some (0, \<lparr>pbuf = ([], replicate 8 0), readf = Some 1, writef = Some 2\<rparr>, False)"
    by (simp_all add: head_of_def demo_pipe_def pipe_pipe_def list_membuf_def)
  from pipe_hangup [OF list_membuf_ok h, of 5 "[]"] show ?thesis by (auto simp: list_membuf_def)
qed

end
