(* ===== verification/Proc_Threads.thy ===== *)
theory Proc_Threads
  imports Rollback
begin

text \<open>
  Tasks and threads of the root task's process server, \<^verbatim>\<open>root/uapi.c\<close>: processes and system
  tasks, the thread-number bitmaps, and the allocation of threads and UTCB slots.  \<open>None\<close> is
  \<^verbatim>\<open>abort()\<close> or a failed assertion.  \<open>oks\<close> is the oracle for the outcomes of fallible kernel,
  allocator and server calls to come (an exhausted oracle means success).  The nil flexpage
  that marks an unused process or task is \<open>utcb_area = None\<close>; an area is its address and the
  logarithm of its size.
\<close>

section \<open>State\<close>

record task_common =
  kip_area :: u32
  utcb_area :: "(u32 \<times> nat) option"
  utcb_free :: "bool list"
  threads :: "l4_tid list"

record process =
  task :: task_common
  pflags :: u32
  ppid :: nat
  real_uid :: u32
  eff_uid :: u32
  saved_uid :: u32
  wait_tid :: l4_tid
  signo :: int
  status :: int
  code :: int
  sigpage_addr :: u32
  ign_set :: u64
  dfl_set :: u64
  mask_set :: u64
  pending_set :: u64
  saved_mask_set :: u64
  sighelper_tid :: l4_tid
  sighelper_utcb :: u32
  dead_list :: "nat list"
  limits :: "(u64 \<times> u64) list"

datatype reap = Call_Destroy_Process nat nat

record root =
  procs :: "nat \<rightharpoonup> process"
  systasks :: "nat \<rightharpoonup> task_common"
  tno_free :: "nat \<Rightarrow> bool"
  tno_free_counts :: "nat \<Rightarrow> nat"
  next_user_pid :: nat
  pid_to_child_hash :: "(u32 \<times> nat) list"
  waitany_hash :: "l4_tid list"
  utcb_size_log2 :: nat
  prb :: "reap rbctx option"
  oks :: "bool list"
  bcasts :: "u32 list list"
  wait_replies :: "(l4_tid \<times> nat \<times> int \<times> int \<times> int) list"
  no_reply :: bool

abbreviation (input) TNOS_PER_BITMAP :: nat where "TNOS_PER_BITMAP \<equiv> 65536"
abbreviation (input) NUM_SYSTASK_IDS :: nat where "NUM_SYSTASK_IDS \<equiv> 16384"
abbreviation (input) SNEKS_MAX_PID :: nat where "SNEKS_MAX_PID \<equiv> 32767"
abbreviation (input) SNEKS_MIN_SYSID :: nat where "SNEKS_MIN_SYSID \<equiv> 50000"

definition IS_SYSTASK :: "nat \<Rightarrow> bool" where "IS_SYSTASK pid \<longleftrightarrow> SNEKS_MIN_SYSID \<le> pid"

definition next_ok :: "root \<Rightarrow> bool \<times> root" where
  "next_ok s = (case oks s of [] \<Rightarrow> (True, s) | b # bs \<Rightarrow> (b, s\<lparr>oks := bs\<rparr>))"

definition upd_proc :: "nat \<Rightarrow> (process \<Rightarrow> process) \<Rightarrow> root \<Rightarrow> root" where
  "upd_proc pid f s = s\<lparr>procs := (procs s)(pid := map_option f (procs s pid))\<rparr>"

definition upd_task :: "nat \<Rightarrow> (task_common \<Rightarrow> task_common) \<Rightarrow> root \<Rightarrow> root" where
  "upd_task pid f s =
     (if IS_SYSTASK pid then s\<lparr>systasks := (systasks s)(pid - SNEKS_MIN_SYSID := map_option f (systasks s (pid - SNEKS_MIN_SYSID)))\<rparr>
      else upd_proc pid (\<lambda>p. p\<lparr>task := f (task p)\<rparr>) s)"

section \<open>Lookup\<close>

definition destroy_process :: "root \<Rightarrow> nat \<Rightarrow> root option" where
  "destroy_process s pid =
     (case procs s pid of None \<Rightarrow> None
      | Some p \<Rightarrow> Some (s\<lparr>pid_to_child_hash := remove1 (int_hash (of_nat (ppid p)), pid) (pid_to_child_hash s),
          procs := (procs s)(pid := None)\<rparr>))"

definition call_destroy_process :: "reap \<Rightarrow> root \<Rightarrow> root option" where
  "call_destroy_process a s = (case a of Call_Destroy_Process dead self \<Rightarrow>
     destroy_process (upd_proc self (\<lambda>p. p\<lparr>dead_list := remove1 dead (dead_list p)\<rparr>) s) dead)"

definition root_sync :: "root \<Rightarrow> root option" where
  "root_sync s = map_option (\<lambda>(ctx, s). s\<lparr>prb := ctx\<rparr>) (sync_confirm call_destroy_process (prb s, s))"

definition proc_at :: "root \<Rightarrow> nat \<Rightarrow> process option" where
  "proc_at s pid = (case procs s pid of None \<Rightarrow> None | Some p \<Rightarrow> if utcb_area (task p) = None then None else Some p)"

text \<open>A lookup first runs the confirmation of an earlier reply.\<close>

definition get_process :: "root \<Rightarrow> int \<Rightarrow> (process option \<times> root) option" where
  "get_process s pid =
     (if pid \<le> 0 \<or> pid > int SNEKS_MAX_PID then Some (None, s)
      else map_option (\<lambda>s. (proc_at s (nat pid), s)) (root_sync s))"

definition systask_at :: "root \<Rightarrow> nat \<Rightarrow> task_common option" where
  "systask_at s pid = (case systasks s (pid - SNEKS_MIN_SYSID) of None \<Rightarrow> None
     | Some t \<Rightarrow> if utcb_area t = None then None else Some t)"

definition get_systask :: "root \<Rightarrow> nat \<Rightarrow> (task_common option \<times> root) option" where
  "get_systask s pid =
     (if pid < SNEKS_MIN_SYSID \<or> pid - SNEKS_MIN_SYSID \<ge> NUM_SYSTASK_IDS then Some (None, s)
      else map_option (\<lambda>s. (systask_at s pid, s)) (root_sync s))"

definition get_task :: "root \<Rightarrow> nat \<Rightarrow> (task_common option \<times> root) option" where
  "get_task s pid =
     (if IS_SYSTASK pid then get_systask s pid
      else map_option (\<lambda>(p, s). (map_option task p, s)) (get_process s (int pid)))"

section \<open>Thread numbers\<close>

definition tno :: "l4_tid \<Rightarrow> nat" where "tno t = unat (tid_threadno t)"

definition free_threadno :: "root \<Rightarrow> l4_tid \<Rightarrow> root option" where
  "free_threadno s tid =
     (let n = tno tid; m = n div TNOS_PER_BITMAP in
      if tno_free s n \<or> tno_free_counts s m \<ge> TNOS_PER_BITMAP then None
      else Some (s\<lparr>tno_free := (tno_free s)(n := True), tno_free_counts := (tno_free_counts s)(m := Suc (tno_free_counts s m))\<rparr>))"

definition alloc_utcb_bitmap :: "root \<Rightarrow> nat \<Rightarrow> bool list option \<times> root" where
  "alloc_utcb_bitmap s size_log2 =
     (let (ok, s) = next_ok s in (if ok then Some (replicate (2 ^ (size_log2 - utcb_size_log2 s)) True) else None, s))"

fun dtor_threads :: "root \<Rightarrow> l4_tid list \<Rightarrow> root option" where
  "dtor_threads s [] = Some s"
| "dtor_threads s (t # ts) =
     (let (ok, s) = next_ok s in
      if \<not> ok then None
      else case free_threadno s t of None \<Rightarrow> None | Some s \<Rightarrow> dtor_threads s ts)"

text \<open>The destructor of the part that processes and system tasks share.\<close>

definition task_common_dtor :: "root \<Rightarrow> nat \<Rightarrow> task_common \<Rightarrow> root option" where
  "task_common_dtor s pid t =
     (case dtor_threads s (threads t) of None \<Rightarrow> None
      | Some s \<Rightarrow> if utcb_area t = None then None
          else Some (upd_task pid (\<lambda>t. t\<lparr>threads := [], utcb_free := []\<rparr>) s))"

definition tid_remove_fast :: "l4_tid list \<Rightarrow> nat \<Rightarrow> l4_tid list" where
  "tid_remove_fast tids ix = (if ix < length tids - 1 then (butlast tids)[ix := last tids] else butlast tids)"

definition tidlist_remove_from :: "l4_tid list \<Rightarrow> l4_tid \<Rightarrow> l4_tid list option" where
  "tidlist_remove_from tids tid =
     (case find (\<lambda>i. tids ! i = tid) [0..<length tids] of None \<Rightarrow> None | Some i \<Rightarrow> Some (tid_remove_fast tids i))"

text \<open>The microkernel's constructor of global thread IDs keeps 14 bits of the version and 18 of the number.\<close>

definition global_id :: "nat \<Rightarrow> nat \<Rightarrow> l4_tid" where
  "global_id n v = \<lparr>is_local = False, tid_version = of_nat (v mod 2 ^ 14), tid_threadno = of_nat (n mod 2 ^ 18)\<rparr>"

definition thread_version :: "nat \<Rightarrow> nat" where
  "thread_version pid = (if IS_SYSTASK pid then (pid - SNEKS_MIN_SYSID) * 4 + 2 else pid mod 8192 * 2 + 1)"

text \<open>
  The bitmap to allocate from: a process has one, system tasks take the first that is not empty.  When all four are empty, the loop
  reads a fifth count, past the end of the array; whatever it reads, no map is left.
\<close>

definition tno_map :: "root \<Rightarrow> nat \<Rightarrow> nat option" where
  "tno_map s pid =
     (if IS_SYSTASK pid then find (\<lambda>m. tno_free_counts s m \<noteq> 0) [0..<4]
      else let m = pid div 8192 mod 4 in if tno_free_counts s m = 0 then None else Some m)"

text \<open>The bitmap of UTCB slots of a task that was destroyed is a null pointer (\<open>[]\<close>), which the code reads through.\<close>

definition claim_slot :: "root \<Rightarrow> nat \<Rightarrow> task_common \<Rightarrow> l4_tid \<Rightarrow> nat \<Rightarrow> ((l4_tid \<times> u32) option \<times> root) option" where
  "claim_slot s pid t tid m =
     (case utcb_area t of None \<Rightarrow> None
      | Some (addr, sz) \<Rightarrow>
          if utcb_free t = [] then None
          else (case find (\<lambda>i. utcb_free t ! i) [0..<min (length (utcb_free t)) (2 ^ (sz - utcb_size_log2 s))] of
             None \<Rightarrow> Some (None, s\<lparr>tno_free := (tno_free s)(tno tid := True),
                       tno_free_counts := (tno_free_counts s)(m := Suc (tno_free_counts s m))\<rparr>)
           | Some slot \<Rightarrow>
               Some (Some (tid, addr + of_nat (slot * 2 ^ utcb_size_log2 s)),
                 upd_task pid (\<lambda>t. t\<lparr>utcb_free := (utcb_free t)[slot := False], threads := threads t @ [tid]\<rparr>) s)))"

definition allocate_thread :: "root \<Rightarrow> nat \<Rightarrow> ((l4_tid \<times> u32) option \<times> root) option" where
  "allocate_thread s pid =
     (case tno_map s pid of None \<Rightarrow> Some (None, s)
      | Some m \<Rightarrow>
      (case get_task s pid of None \<Rightarrow> None
       | Some (None, s) \<Rightarrow> Some (None, s)
       | Some (Some t, s) \<Rightarrow>
       (case find (\<lambda>b. tno_free s (m * TNOS_PER_BITMAP + b)) [0..<TNOS_PER_BITMAP] of None \<Rightarrow> None
        | Some b \<Rightarrow>
            let n = m * TNOS_PER_BITMAP + b;
                s = s\<lparr>tno_free := (tno_free s)(n := False), tno_free_counts := (tno_free_counts s)(m := tno_free_counts s m - 1)\<rparr>;
                tid = global_id n (thread_version pid)
            in if unat (pidof_NP nil_tid tid) \<noteq> pid then None else claim_slot s pid t tid m)))"

text \<open>The slot of a UTCB address, with the assertions on it; \<open>free_thread\<close> leaves the number in use.\<close>

definition release_slot :: "root \<Rightarrow> nat \<Rightarrow> task_common \<Rightarrow> u32 \<Rightarrow> root option" where
  "release_slot s pid t loc =
     (case utcb_area t of None \<Rightarrow> None
      | Some (addr, sz) \<Rightarrow>
          let pos = unat (loc - addr); slot = pos div 2 ^ utcb_size_log2 s in
          if loc < addr \<or> pos \<ge> 2 ^ sz \<or> slot \<ge> length (utcb_free t) \<or> utcb_free t ! slot then None
          else Some (upd_task pid (\<lambda>t. t\<lparr>utcb_free := (utcb_free t)[slot := True]\<rparr>) s))"

definition free_thread :: "root \<Rightarrow> nat \<Rightarrow> task_common \<Rightarrow> l4_tid \<Rightarrow> u32 \<Rightarrow> root option" where
  "free_thread s pid t tid loc =
     map_option (upd_task pid (\<lambda>t. t\<lparr>threads := (case tidlist_remove_from (threads t) tid of None \<Rightarrow> threads t | Some ts \<Rightarrow> ts)\<rparr>))
       (release_slot s pid t loc)"

text \<open>\<open>make_space\<close> and \<open>ThreadControl\<close> abort on failure.\<close>

definition must :: "root \<Rightarrow> root option" where
  "must s = (let (ok, s) = next_ok s in if ok then Some s else None)"

definition make_space :: "root \<Rightarrow> root option" where
  "make_space s = Option.bind (must s) must"

definition uapi_create_thread :: "root \<Rightarrow> nat \<Rightarrow> (int \<times> l4_tid \<times> root) option" where
  "uapi_create_thread s pid =
     (if pid = 0 then Some (- EINVAL, nil_tid, s)
      else case get_task s pid of None \<Rightarrow> None
      | Some (None, s) \<Rightarrow> Some (- EINVAL, nil_tid, s)
      | Some (Some ta, s) \<Rightarrow>
      (case allocate_thread s pid of None \<Rightarrow> None
       | Some (None, s) \<Rightarrow> Some (- ENOMEM, nil_tid, s)
       | Some (Some (tid, loc), s) \<Rightarrow>
           if tno tid < 500 then None
           else case (if threads ta = [] then make_space s else Some s) of None \<Rightarrow> None
           | Some s \<Rightarrow> map_option (\<lambda>s. (0, tid, s)) (must s)))"

definition uapi_remove_thread :: "root \<Rightarrow> l4_tid \<Rightarrow> nat \<Rightarrow> l4_tid \<Rightarrow> u32 \<Rightarrow> (int \<times> root) option" where
  "uapi_remove_thread s sender pid tid loc =
     (if is_local tid \<or> pid = 0 then Some (- EINVAL, s)
      else case get_task s pid of None \<Rightarrow> None
      | Some (None, s) \<Rightarrow> Some (- EINVAL, s)
      | Some (Some ta, s) \<Rightarrow>
      (case tidlist_remove_from (threads ta) tid of None \<Rightarrow> Some (- EINVAL, s)
       | Some ts \<Rightarrow>
       (case free_threadno (upd_task pid (\<lambda>t. t\<lparr>threads := ts\<rparr>) s) tid of None \<Rightarrow> None
        | Some s \<Rightarrow> (case release_slot s pid ta loc of None \<Rightarrow> None
           | Some s \<Rightarrow> map_option (\<lambda>s. (0, if tid = sender then s\<lparr>no_reply := True\<rparr> else s)) (must s)))))"

definition uapi_init :: "nat \<Rightarrow> root" where
  "uapi_init log2 = \<lparr>procs = Map.empty, systasks = Map.empty, tno_free = (\<lambda>n. 512 \<le> n \<and> n < 4 * TNOS_PER_BITMAP),
     tno_free_counts = (\<lambda>m. if m = 0 then TNOS_PER_BITMAP - 512 else TNOS_PER_BITMAP), next_user_pid = 1,
     pid_to_child_hash = [], waitany_hash = [], utcb_size_log2 = log2, prb = None, oks = [], bcasts = [],
     wait_replies = [], no_reply = False\<rparr>"

section \<open>Thread names\<close>

lemma nat_and_high: "(n :: nat) AND 0x30000 = push_bit 16 (n div 65536 mod 4)"
proof -
  have "n AND 0x30000 = n AND push_bit 16 (mask 2)" by (simp add: mask_eq_exp_minus_1 push_bit_eq_mult)
  also have "\<dots> = push_bit 16 (take_bit 2 (drop_bit 16 n))"
    by (rule bit_eqI) (auto simp: bit_simps)
  finally show ?thesis by (simp add: take_bit_eq_mod drop_bit_eq_div)
qed

lemma unat_drop: "unat (drop_bit k x) = unat x div 2 ^ k" for x :: u32
  by (rule unat_drop_bit_eq [THEN trans]) (simp add: drop_bit_eq_div)

lemma user_pid_of_tid:
  assumes "m < 4" "b < TNOS_PER_BITMAP" "pid \<le> SNEKS_MAX_PID" "m = pid div 8192 mod 4"
  shows "unat (pidof_NP my (global_id (m * TNOS_PER_BITMAP + b) (thread_version pid))) = pid"
proof -
  let ?n = "m * TNOS_PER_BITMAP + b"
  have n: "?n < 2 ^ 18" "?n div 65536 mod 4 = m" using assms(1,2) by auto
  have v: "thread_version pid = pid mod 8192 * 2 + 1" "thread_version pid < 2 ^ 14"
    using assms(3) by (auto simp: thread_version_def IS_SYSTASK_def)
  define v' w :: u32 where "v' = of_nat (thread_version pid)" and "w = of_nat ?n"
  have uv: "unat v' = thread_version pid" "unat w = ?n"
    unfolding v'_def w_def using v(2) n(1) by (simp_all only: unat_of_nat) simp_all
  have "(k * 2 + 1) AND 1 = (1 :: nat)" for k by (simp add: and_one_eq) presburger
  then have "unat (v' AND 1) = 1" unfolding unsigned_and_eq uv(1) v(1) by simp
  then have odd: "v' AND 1 = 1" by (metis unsigned_1 unsigned_word_eqI)
  have "unat (w AND 0x30000) = m * 65536"
    unfolding unsigned_and_eq uv(2) using n(2) nat_and_high [of ?n] by (simp add: push_bit_eq_mult)
  then have hi: "unat (drop_bit 3 (w AND 0x30000)) = m * 8192" unfolding unat_drop by simp
  have lo: "unat (drop_bit 1 v') = pid mod 8192" unfolding unat_drop uv(1) v(1) by simp
  have "pid mod 8192 AND m * 8192 = 0"
  proof (rule bit_eqI)
    fix i
    have "bit (m * 8192) i \<longleftrightarrow> 13 \<le> i \<and> bit m (i - 13)" using bit_push_bit_iff_nat [of 13 m i] by (simp add: push_bit_eq_mult)
    moreover have "bit (pid mod 8192) i \<longleftrightarrow> i < 13 \<and> bit pid i" using bit_take_bit_iff [of 13 pid i] by (simp add: take_bit_eq_mod)
    ultimately show "bit (pid mod 8192 AND m * 8192) i = bit (0 :: nat) i" by (auto simp: bit_and_iff)
  qed
  then have "unat (drop_bit 1 v' OR drop_bit 3 (w AND 0x30000)) = pid mod 8192 + m * 8192"
    using lo hi by (simp add: unsigned_or_eq disjunctive_add_eq_or)
  moreover have "pid mod 8192 + m * 8192 = pid" using assms(3,4) by (simp add: div_less_iff_less_mult mod_less)
  moreover have "global_id ?n (thread_version pid) = \<lparr>is_local = False, tid_version = v', tid_threadno = w\<rparr>"
    using v(2) n(1) by (simp only: global_id_def v'_def w_def mod_less)
  ultimately show ?thesis using odd by (simp add: pidof_NP_def)
qed


text \<open>For a system task the version holds the low twelve bits of its number.\<close>

lemma sys_pid_of_tid:
  assumes "SNEKS_MIN_SYSID \<le> pid"
  shows "unat (pidof_NP my (global_id n (thread_version pid))) = SNEKS_MIN_SYSID + (pid - SNEKS_MIN_SYSID) mod 4096"
proof -
  let ?k = "(pid - SNEKS_MIN_SYSID) mod 4096"
  have "(x * 4 + 2) mod 16384 = x mod 4096 * 4 + 2" for x :: nat
  proof -
    have "(x * 4 + 2) div 4 = x" "(x * 4 + 2) mod 4 = 2" by presburger+
    then show ?thesis using mod_mult2_eq [of "x * 4 + 2" 4 4096] by simp
  qed
  then have tv: "thread_version pid mod 2 ^ 14 = ?k * 4 + 2" using assms by (simp add: thread_version_def IS_SYSTASK_def)
  define v :: u32 where "v = of_nat (?k * 4 + 2)"
  have "?k < 4096" by simp
  then have uv: "unat v = ?k * 4 + 2" unfolding v_def unat_of_nat by simp
  have "(k * 4 + 2) AND 1 = (0 :: nat)" "(k * 4 + 2) AND 3 = (2 :: nat)" for k
  proof -
    show "(k * 4 + 2) AND 1 = (0 :: nat)" by (simp add: and_one_eq)
    have "(k * 4 + 2) mod 4 = (2 :: nat)" by presburger
    then have "(k * 4 + 2) AND mask 2 = (2 :: nat)" unfolding take_bit_eq_mask [symmetric] by (simp add: take_bit_eq_mod)
    then show "(k * 4 + 2) AND 3 = (2 :: nat)" by (simp add: mask_eq_exp_minus_1)
  qed
  then have "unat (v AND 1) = 0" "unat (v AND 3) = 2" unfolding unsigned_and_eq uv by simp_all
  then have e: "v AND 1 \<noteq> 1" "v AND 3 = 2" by (auto intro: unsigned_word_eqI)
  have "(x * 4 + 2) div 4 = x" for x :: nat by presburger
  then have "unat (drop_bit 2 v) = ?k" unfolding unat_drop uv by simp
  then have "unat (50000 + drop_bit 2 v) = 50000 + ?k" using \<open>?k < 4096\<close> by (simp add: unat_word_ariths)
  moreover have "global_id n (thread_version pid) = \<lparr>is_local = False, tid_version = v, tid_threadno = of_nat (n mod 2 ^ 18)\<rparr>"
    using tv by (simp add: global_id_def v_def)
  ultimately show ?thesis using e by (simp add: pidof_NP_def)
qed

section \<open>The thread allocator\<close>

definition threads_of :: "root \<Rightarrow> nat \<Rightarrow> l4_tid list" where
  "threads_of s pid =
     (if IS_SYSTASK pid then (case systasks s (pid - SNEKS_MIN_SYSID) of None \<Rightarrow> [] | Some t \<Rightarrow> threads t)
      else (case procs s pid of None \<Rightarrow> [] | Some p \<Rightarrow> threads (task p)))"

definition counts_ok :: "root \<Rightarrow> bool" where
  "counts_ok s \<longleftrightarrow> (\<forall>m < 4. tno_free_counts s m = card {b. b < TNOS_PER_BITMAP \<and> tno_free s (m * TNOS_PER_BITMAP + b)})"

definition threads_inv :: "root \<Rightarrow> bool" where
  "threads_inv s \<longleftrightarrow> counts_ok s \<and> (\<forall>pid. distinct (map tno (threads_of s pid)))
     \<and> (\<forall>pid t. t \<in> set (threads_of s pid) \<longrightarrow> \<not> tno_free s (tno t) \<and> tno t < 2 ^ 18)
     \<and> (\<forall>p q t u. t \<in> set (threads_of s p) \<and> u \<in> set (threads_of s q) \<and> tno t = tno u \<longrightarrow> p = q)"

lemma threads_invD: "threads_inv s \<Longrightarrow> t \<in> set (threads_of s q) \<Longrightarrow> \<not> tno_free s (tno t)"
  and threads_inv_bound: "threads_inv s \<Longrightarrow> t \<in> set (threads_of s q) \<Longrightarrow> tno t < 2 ^ 18"
  and threads_inv_distinct: "threads_inv s \<Longrightarrow> distinct (map tno (threads_of s q))"
  and threads_inv_counts: "threads_inv s \<Longrightarrow> counts_ok s"
  unfolding threads_inv_def by blast+

lemma threads_inv_mono:
  assumes "threads_inv s" "\<And>pid. threads_of s' pid = threads_of s pid \<or> threads_of s' pid = []"
    "tno_free s' = tno_free s" "tno_free_counts s' = tno_free_counts s"
  shows "threads_inv s'"
proof -
  have sub: "set (threads_of s' pid) \<subseteq> set (threads_of s pid)" "distinct (map tno (threads_of s' pid))" for pid
    using assms(1) assms(2) [of pid] by (auto simp: threads_inv_def)
  have "\<not> tno_free s' (tno t) \<and> tno t < 2 ^ 18" if "t \<in> set (threads_of s' pid)" for pid t
    using threads_invD [OF assms(1)] threads_inv_bound [OF assms(1)] sub(1) [of pid] that assms(3) by auto
  moreover have "p = q" if "t \<in> set (threads_of s' p)" "u \<in> set (threads_of s' q)" "tno t = tno u" for p q t u
    using sub(1) [of p] sub(1) [of q] that assms(1) unfolding threads_inv_def by blast
  moreover have "counts_ok s'" using assms(1,3,4) by (simp add: threads_inv_def counts_ok_def)
  ultimately show ?thesis unfolding threads_inv_def using sub(2) by blast
qed

lemma root_sync_threads:
  assumes "threads_inv s" "root_sync s = Some s'"
  shows "threads_inv s'" "tno_free s' = tno_free s" "tno_free_counts s' = tno_free_counts s" "utcb_size_log2 s' = utcb_size_log2 s"
proof -
  have e: "(\<forall>pid. threads_of s' pid = threads_of s pid \<or> threads_of s' pid = []) \<and> tno_free s' = tno_free s
     \<and> tno_free_counts s' = tno_free_counts s \<and> utcb_size_log2 s' = utcb_size_log2 s"
    using assms(2)
    by (auto simp: root_sync_def sync_confirm_def call_destroy_process_def destroy_process_def upd_proc_def threads_of_def
        split: option.splits reap.splits if_splits)
  then show "threads_inv s'" "tno_free s' = tno_free s" "tno_free_counts s' = tno_free_counts s" "utcb_size_log2 s' = utcb_size_log2 s"
    using threads_inv_mono [OF assms(1)] by auto
qed


lemma get_task_threads:
  assumes "threads_inv s" "get_task s pid = Some (Some t, s')"
  shows "threads_inv s'" "tno_free s' = tno_free s" "tno_free_counts s' = tno_free_counts s"
    "threads_of s' pid = threads t" "utcb_area t \<noteq> None"
proof -
  have s: "root_sync s = Some s'" and t: "(if IS_SYSTASK pid then systasks s' (pid - SNEKS_MIN_SYSID) else map_option task (procs s' pid)) = Some t"
    and a: "utcb_area t \<noteq> None"
    using assms(2)
    by (auto simp: get_task_def get_systask_def get_process_def systask_at_def proc_at_def split: if_splits option.splits)
  show "threads_inv s'" "tno_free s' = tno_free s" "tno_free_counts s' = tno_free_counts s"
    using root_sync_threads [OF assms(1) s] by auto
  show "threads_of s' pid = threads t" using t by (auto simp: threads_of_def split: if_splits)
  show "utcb_area t \<noteq> None" by (rule a)
qed

lemma counts_take:
  assumes "counts_ok s" "m < 4" "b < TNOS_PER_BITMAP" "tno_free s (m * TNOS_PER_BITMAP + b)"
  shows "counts_ok (s\<lparr>tno_free := (tno_free s)(m * TNOS_PER_BITMAP + b := False),
    tno_free_counts := (tno_free_counts s)(m := tno_free_counts s m - 1)\<rparr>)"
  unfolding counts_ok_def
proof (intro allI impI)
  fix k :: nat assume k: "k < 4"
  let ?F = "\<lambda>f k. {c. c < TNOS_PER_BITMAP \<and> f (k * TNOS_PER_BITMAP + c)}"
  let ?f = "(tno_free s)(m * TNOS_PER_BITMAP + b := False)"
  have "k * TNOS_PER_BITMAP + c = m * TNOS_PER_BITMAP + b \<longleftrightarrow> k = m \<and> c = b" if "c < TNOS_PER_BITMAP" for c
    using that assms(3) by (metis add_right_cancel div_mult_self3 mod_less mod_mult_self3 div_less add_0 zero_neq_numeral)
  then have "?F ?f k = (if k = m then ?F (tno_free s) m - {b} else ?F (tno_free s) k)" by auto
  then have "card (?F ?f k) = (if k = m then card (?F (tno_free s) m) - 1 else card (?F (tno_free s) k))"
    using assms(3,4) by (simp add: card_Diff_singleton)
  then show "tno_free_counts (s\<lparr>tno_free := ?f, tno_free_counts := (tno_free_counts s)(m := tno_free_counts s m - 1)\<rparr>) k
     = card {c. c < TNOS_PER_BITMAP \<and> tno_free (s\<lparr>tno_free := ?f, tno_free_counts := (tno_free_counts s)(m := tno_free_counts s m - 1)\<rparr>) (k * TNOS_PER_BITMAP + c)}"
    using assms(1,2) k by (simp add: counts_ok_def)
qed


lemma tno_global_id: "n < 2 ^ 18 \<Longrightarrow> tno (global_id n v) = n"
  unfolding tno_def global_id_def by (simp add: unat_of_nat)

lemma threads_of_push:
  assumes "(if IS_SYSTASK pid then systasks s (pid - SNEKS_MIN_SYSID) else map_option task (procs s pid)) = Some t"
  shows "threads_of (upd_task pid (\<lambda>t. t\<lparr>utcb_free := f t, threads := threads t @ [tid]\<rparr>) s) q
    = (if q = pid then threads_of s pid @ [tid] else threads_of s q)"
proof -
  have "q - SNEKS_MIN_SYSID \<noteq> pid - SNEKS_MIN_SYSID" if "IS_SYSTASK pid" "IS_SYSTASK q" "q \<noteq> pid"
    using that by (auto simp: IS_SYSTASK_def)
  then show ?thesis using assms by (auto simp: threads_of_def upd_task_def upd_proc_def split: if_splits)
qed

lemma threads_inv_push:
  assumes inv: "threads_inv s" and n: "\<not> tno_free s (tno tid)" "tno tid < 2 ^ 18"
    and fresh: "\<And>q t. t \<in> set (threads_of s q) \<Longrightarrow> tno t \<noteq> tno tid"
    and s': "\<And>q. threads_of s' q = (if q = pid then threads_of s pid @ [tid] else threads_of s q)"
      "tno_free s' = tno_free s" "tno_free_counts s' = tno_free_counts s"
  shows "threads_inv s'"
proof -
  have d: "distinct (map tno (threads_of s q))" for q using inv by (simp add: threads_inv_def)
  have "tno tid \<notin> tno ` set (threads_of s pid)" using fresh by fastforce
  then have "distinct (map tno (threads_of s' q))" for q using d s'(1) [of q] by simp
  moreover have "\<not> tno_free s' (tno t) \<and> tno t < 2 ^ 18" if "t \<in> set (threads_of s' q)" for q t
    using that inv n s'(1) [of q] s'(2) by (auto simp: threads_inv_def split: if_splits)
  moreover have "p = q" if a: "t \<in> set (threads_of s' p)" "u \<in> set (threads_of s' q)" "tno t = tno u" for p q t u
  proof -
    have "t \<in> set (threads_of s p) \<or> p = pid \<and> t = tid" "u \<in> set (threads_of s q) \<or> q = pid \<and> u = tid"
      using a(1,2) s'(1) [of p] s'(1) [of q] by (auto split: if_splits)
    then show ?thesis using inv a(3) fresh unfolding threads_inv_def by metis
  qed
  moreover have "counts_ok s'" using inv s'(2,3) by (simp add: threads_inv_def counts_ok_def)
  ultimately show ?thesis unfolding threads_inv_def by blast
qed

lemma claim_slot_ok:
  assumes inv: "threads_inv s" and tk: "(if IS_SYSTASK pid then systasks s (pid - SNEKS_MIN_SYSID) else map_option task (procs s pid)) = Some t"
    and area: "utcb_area t \<noteq> None" "utcb_free t \<noteq> []" and n: "n < 2 ^ 18" "tno_free s n" "m = n div TNOS_PER_BITMAP"
    and s1: "s1 = s\<lparr>tno_free := (tno_free s)(n := False), tno_free_counts := (tno_free_counts s)(m := tno_free_counts s m - 1)\<rparr>"
  shows "\<exists>r s'. claim_slot s1 pid t (global_id n v) m = Some (r, s') \<and> threads_inv s'
     \<and> (\<forall>tid loc. r = Some (tid, loc) \<longrightarrow> tid = global_id n v \<and> tid \<in> set (threads_of s' pid))"
proof -
  let ?tid = "global_id n v"
  have tn: "tno ?tid = n" by (rule tno_global_id [OF n(1)])
  have m: "m < 4" "n = m * TNOS_PER_BITMAP + n mod TNOS_PER_BITMAP" using n by auto
  have co: "counts_ok s" using inv by (simp add: threads_inv_def)
  have "n mod TNOS_PER_BITMAP \<in> {b. b < TNOS_PER_BITMAP \<and> tno_free s (m * TNOS_PER_BITMAP + b)}" (is "_ \<in> ?B")
    using n(2) m(2) by simp
  moreover have "finite ?B" by simp
  ultimately have "0 < card ?B" unfolding card_gt_0_iff by (metis empty_iff)
  then have pos: "0 < tno_free_counts s m" using co m(1) by (simp add: counts_ok_def)
  obtain addr sz where a: "utcb_area t = Some (addr, sz)" using area(1) by auto
  have same: "threads_of s1 q = threads_of s q" for q by (simp add: s1 threads_of_def)
  show ?thesis
  proof (cases "find (\<lambda>i. utcb_free t ! i) [0..<min (length (utcb_free t)) (2 ^ (sz - utcb_size_log2 s1))]")
    case None
    let ?s' = "s1\<lparr>tno_free := (tno_free s1)(n := True), tno_free_counts := (tno_free_counts s1)(m := Suc (tno_free_counts s1 m))\<rparr>"
    have "claim_slot s1 pid t ?tid m = Some (None, ?s')" using None a tn area(2) by (simp add: claim_slot_def)
    moreover have "threads_inv ?s'"
      using inv n(2) pos by (intro threads_inv_mono [OF inv]) (auto simp: s1 threads_of_def fun_eq_iff)
    ultimately show ?thesis by blast
  next
    case (Some slot)
    let ?s' = "upd_task pid (\<lambda>t. t\<lparr>utcb_free := (utcb_free t)[slot := False], threads := threads t @ [?tid]\<rparr>) s1"
    have "claim_slot s1 pid t ?tid m = Some (Some (?tid, addr + of_nat (slot * 2 ^ utcb_size_log2 s1)), ?s')"
      using Some a area(2) by (simp add: claim_slot_def)
    moreover have th: "threads_of ?s' q = (if q = pid then threads_of s1 pid @ [?tid] else threads_of s1 q)" for q
      using tk by (intro threads_of_push [where t = t]) (simp add: s1 split: if_splits)
    moreover have i1: "threads_inv s1"
    proof -
      have "counts_ok s1" using counts_take [OF co m(1), of "n mod TNOS_PER_BITMAP"] n(2) m(2) by (simp add: s1)
      then show ?thesis using inv unfolding threads_inv_def same by (auto simp: s1)
    qed
    moreover have "tno u \<noteq> tno ?tid" if "u \<in> set (threads_of s1 q)" for q u
    proof -
      have "u \<in> set (threads_of s q)" using that unfolding same .
      then show ?thesis using threads_invD [OF inv] n(2) tn by metis
    qed
    moreover have "\<not> tno_free s1 (tno ?tid)" "tno ?tid < 2 ^ 18" using n(1) by (simp_all add: s1 tn)
    ultimately have "threads_inv ?s'"
      by (intro threads_inv_push [OF i1, of ?tid ?s' pid]) (auto simp: upd_task_def upd_proc_def)
    then show ?thesis using th [of pid] \<open>claim_slot _ _ _ _ _ = _\<close> by auto
  qed
qed


lemma allocate_thread_ok:
  assumes inv: "threads_inv s" and pid: "pid \<le> SNEKS_MAX_PID \<or> SNEKS_MIN_SYSID \<le> pid \<and> pid < SNEKS_MIN_SYSID + 4096"
    and sy: "root_sync s \<noteq> None" and live: "\<And>t s1. get_task s pid = Some (Some t, s1) \<Longrightarrow> utcb_free t \<noteq> []"
  shows "\<exists>r s'. allocate_thread s pid = Some (r, s') \<and> threads_inv s' \<and> (\<forall>tid loc. r = Some (tid, loc) \<longrightarrow>
     unat (pidof_NP my tid) = pid \<and> tid \<in> set (threads_of s' pid) \<and> (\<forall>q. \<forall>t \<in> set (threads_of s q). tno t \<noteq> tno tid))"
proof (cases "tno_map s pid")
  case None
  then show ?thesis using inv by (simp add: allocate_thread_def)
next
  case (Some m)
  have m: "m < 4" "tno_free_counts s m \<noteq> 0" "\<not> IS_SYSTASK pid \<Longrightarrow> m = pid div 8192 mod 4"
    using Some by (auto simp: tno_map_def Let_def find_upt_Some split: if_splits)
  obtain s0 where s0: "root_sync s = Some s0" using sy by auto
  have gt: "\<exists>r s1. get_task s pid = Some (r, s1) \<and> (s1 = s \<or> s1 = s0) \<and> (r \<noteq> None \<longrightarrow> s1 = s0)"
    using s0 by (auto simp: get_task_def get_systask_def get_process_def)
  then obtain r s1 where g: "get_task s pid = Some (r, s1)" "s1 = s \<or> s1 = s0" by blast
  have i0: "threads_inv s0" by (rule root_sync_threads [OF inv s0])
  show ?thesis
  proof (cases r)
    case None
    then show ?thesis using Some g inv i0 by (auto simp: allocate_thread_def)
  next
    case (Some t)
    note gt = get_task_threads [OF inv g(1) [unfolded Some]]
    have tk: "(if IS_SYSTASK pid then systasks s1 (pid - SNEKS_MIN_SYSID) else map_option task (procs s1 pid)) = Some t"
      using g(1) Some by (auto simp: get_task_def get_systask_def get_process_def systask_at_def proc_at_def split: if_splits option.splits)
    have "card {b. b < TNOS_PER_BITMAP \<and> tno_free s1 (m * TNOS_PER_BITMAP + b)} \<noteq> 0"
      using gt(1-3) m(1,2) by (simp add: threads_inv_def counts_ok_def)
    then have "{b. b < TNOS_PER_BITMAP \<and> tno_free s1 (m * TNOS_PER_BITMAP + b)} \<noteq> {}" by (metis card.empty)
    then obtain b where b: "find (\<lambda>b. tno_free s1 (m * TNOS_PER_BITMAP + b)) [0..<TNOS_PER_BITMAP] = Some b"
      using find_upt_None [of "\<lambda>b. tno_free s1 (m * TNOS_PER_BITMAP + b)" 0 TNOS_PER_BITMAP]
      by (cases "find (\<lambda>b. tno_free s1 (m * TNOS_PER_BITMAP + b)) [0..<TNOS_PER_BITMAP]") auto
    have bb: "b < TNOS_PER_BITMAP" "tno_free s1 (m * TNOS_PER_BITMAP + b)" using b unfolding find_upt_Some by auto
    let ?n = "m * TNOS_PER_BITMAP + b"
    let ?s2 = "s1\<lparr>tno_free := (tno_free s1)(?n := False), tno_free_counts := (tno_free_counts s1)(m := tno_free_counts s1 m - 1)\<rparr>"
    let ?tid = "global_id ?n (thread_version pid)"
    have n: "?n < 2 ^ 18" "m = ?n div TNOS_PER_BITMAP" using m(1) bb(1) by auto
    have pf: "unat (pidof_NP my' ?tid) = pid" for my'
    proof (cases "IS_SYSTASK pid")
      case True
      then show ?thesis using sys_pid_of_tid [of pid my' ?n] pid by (auto simp: IS_SYSTASK_def)
    next
      case False
      then show ?thesis using user_pid_of_tid [OF m(1) bb(1) _ m(3)] pid by (auto simp: IS_SYSTASK_def)
    qed
    obtain r' s' where c: "claim_slot ?s2 pid t ?tid m = Some (r', s')" "threads_inv s'"
      "\<forall>tid loc. r' = Some (tid, loc) \<longrightarrow> tid = ?tid \<and> tid \<in> set (threads_of s' pid)"
      using claim_slot_ok [OF gt(1) tk gt(5) live [OF g(1) [unfolded Some]] n(1) bb(2) n(2) refl] by blast
    have "allocate_thread s pid = Some (r', s')"
      using \<open>tno_map s pid = Some m\<close> g(1) Some b c(1) pf by (simp add: allocate_thread_def Let_def)
    moreover have "tno u \<noteq> tno ?tid" if "u \<in> set (threads_of s q)" for q u
    proof -
      have "\<not> tno_free s (tno u)" by (rule threads_invD [OF inv that])
      then show ?thesis using bb(2) gt(2) tno_global_id [OF n(1)] by metis
    qed
    ultimately show ?thesis using c(2,3) pf by (intro exI [of _ r'] exI [of _ s']) auto
  qed
qed

lemma allocate_thread_dead:
  assumes "get_task s pid = Some (Some t, s1)" "utcb_free t = []"
  shows "allocate_thread s pid = (if tno_map s pid = None then Some (None, s) else None)"
  using assms by (auto simp: allocate_thread_def claim_slot_def Let_def split: option.split)

text \<open>
  C17. Allocating a thread never fails an assertion for a process or one of the first 4096 system tasks, unless the task has been destroyed
  and the record is still there, as for a zombie: then it reads through a null pointer if there is a thread number left.  Otherwise it returns
  and keeps the allocator's invariant: bitmap counts are exact, threads in use have distinct numbers
  that are not free.  A thread it returns belongs to the task under the system's thread naming, is
  on the task's list, and its number was not in use.
\<close>

theorem allocate_thread_fresh:
  assumes inv: "threads_inv s" and pid: "pid \<le> SNEKS_MAX_PID \<or> SNEKS_MIN_SYSID \<le> pid \<and> pid < SNEKS_MIN_SYSID + 4096"
    and sy: "root_sync s \<noteq> None"
  shows "if \<exists>t s1. get_task s pid = Some (Some t, s1) \<and> utcb_free t = []
    then allocate_thread s pid = (if tno_map s pid = None then Some (None, s) else None)
    else \<exists>r s'. allocate_thread s pid = Some (r, s') \<and> threads_inv s' \<and> (\<forall>tid loc. r = Some (tid, loc) \<longrightarrow>
     unat (pidof_NP my tid) = pid \<and> tid \<in> set (threads_of s' pid) \<and> (\<forall>q. \<forall>t \<in> set (threads_of s q). tno t \<noteq> tno tid))"
proof (cases "\<exists>t s1. get_task s pid = Some (Some t, s1) \<and> utcb_free t = []")
  case True
  then show ?thesis using allocate_thread_dead [of s pid] by auto
next
  case False
  then have "\<exists>r s'. allocate_thread s pid = Some (r, s') \<and> threads_inv s' \<and> (\<forall>tid loc. r = Some (tid, loc) \<longrightarrow>
     unat (pidof_NP my tid) = pid \<and> tid \<in> set (threads_of s' pid) \<and> (\<forall>q. \<forall>t \<in> set (threads_of s q). tno t \<noteq> tno tid))"
    by (intro allocate_thread_ok [OF assms]) blast
  then show ?thesis unfolding if_not_P [OF False] .
qed

text \<open>A root task with one process, PID 7.\<close>

definition demo_process :: process where
  "demo_process = \<lparr>task = \<lparr>kip_area = 0, utcb_area = Some (0x10000, 12), utcb_free = replicate 8 True, threads = []\<rparr>,
     pflags = 0, ppid = 1, real_uid = 1000, eff_uid = 1000, saved_uid = 1000, wait_tid = nil_tid, signo = 0, status = 0,
     code = 0, sigpage_addr = 0, ign_set = 0, dfl_set = NOT 0, mask_set = 0, pending_set = 0, saved_mask_set = 0,
     sighelper_tid = nil_tid, sighelper_utcb = 0, dead_list = [], limits = []\<rparr>"

definition demo_root :: root where
  "demo_root = (uapi_init 9)\<lparr>procs := [7 \<mapsto> demo_process], systasks := [5000 \<mapsto> task demo_process]\<rparr>"

lemma uapi_init_counts: "counts_ok (uapi_init k)"
proof -
  have "{b. b < TNOS_PER_BITMAP \<and> tno_free (uapi_init k) (m * TNOS_PER_BITMAP + b)} = (if m = 0 then {512..<TNOS_PER_BITMAP} else {0..<TNOS_PER_BITMAP})"
    if "m < 4" for m using that by (auto simp: uapi_init_def)
  then show ?thesis by (simp add: counts_ok_def) (simp add: uapi_init_def)
qed

lemma demo_root_inv: "threads_inv demo_root" "root_sync demo_root = Some demo_root"
proof -
  have "threads_of demo_root q = []" for q by (simp add: threads_of_def demo_root_def demo_process_def uapi_init_def)
  then show "threads_inv demo_root"
    using uapi_init_counts [of 9] by (simp add: threads_inv_def counts_ok_def) (simp add: demo_root_def)
  show "root_sync demo_root = Some demo_root" by (simp add: root_sync_def sync_confirm_def demo_root_def uapi_init_def)
qed

theorem allocate_thread_fresh_witness:
  "\<exists>r s'. allocate_thread demo_root 7 = Some (r, s') \<and> threads_inv s'"
proof -
  have "get_task demo_root 7 = Some (Some (task demo_process), demo_root)"
    using demo_root_inv(2) by (simp add: get_task_def IS_SYSTASK_def get_process_def) (simp add: proc_at_def demo_root_def demo_process_def)
  moreover have "utcb_free (task demo_process) \<noteq> []" by (simp add: demo_process_def)
  ultimately show ?thesis using allocate_thread_fresh [OF demo_root_inv(1), of 7 nil_tid] demo_root_inv(2) by auto
qed

text \<open>
  The range of system task IDs is larger than the thread naming can express: for every system task
  from ID 54096 on, an allocation that finds a free thread number fails the assertion that the new
  thread belongs to the task, and the root task aborts.
\<close>

theorem late_systasks_abort:
  assumes "SNEKS_MIN_SYSID + 4096 \<le> pid" "tno_map s pid = Some m" "get_task s pid = Some (Some t, s')"
  shows "allocate_thread s pid = None"
proof -
  have "IS_SYSTASK pid" using assms(1) by (simp add: IS_SYSTASK_def)
  have "SNEKS_MIN_SYSID + (pid - SNEKS_MIN_SYSID) mod 4096 < SNEKS_MIN_SYSID + 4096" by simp
  then have "unat (pidof_NP nil_tid (global_id n (thread_version pid))) \<noteq> pid" for n
    using sys_pid_of_tid [of pid nil_tid n] assms(1) by simp
  then show ?thesis using assms(2,3) by (simp add: allocate_thread_def Let_def split: option.split)
qed

theorem late_systasks_abort_witness: "allocate_thread demo_root 55000 = None"
proof (rule late_systasks_abort)
  show "tno_map demo_root 55000 = Some 0"
    by (simp add: tno_map_def IS_SYSTASK_def demo_root_def uapi_init_def find_upt_Some)
  show "get_task demo_root 55000 = Some (Some (task demo_process), demo_root)"
    using demo_root_inv(2) by (simp add: get_task_def IS_SYSTASK_def get_systask_def) (simp add: systask_at_def demo_root_def demo_process_def)
qed simp

end
