(* ===== verification/Proc_Signals.thy ===== *)
theory Proc_Signals
  imports Proc_Threads
begin

text \<open>
  Signals and the end of processes: \<^verbatim>\<open>root/sig.c\<close> and the exit and wait part of \<^verbatim>\<open>root/uapi.c\<close>.
  \<open>sig_send\<close>, \<open>sig_default\<close> and \<open>zombify\<close> call each other; the cycle ends because the signal that
  \<open>zombify\<close> sends, SIGCHLD, is ignored by default.  So \<open>sig_send_with\<close> takes the default action
  as an argument: \<open>zombify\<close> uses it with the ignoring one and \<open>sig_send\<close> with the full one.  The
  process's parent and target are PIDs; \<open>procs\<close> of a PID is what the pointer in the code refers to.
\<close>

abbreviation (input) SIGCHLD :: nat where "SIGCHLD \<equiv> 17"
abbreviation (input) SIGABRT :: nat where "SIGABRT \<equiv> 6"
abbreviation (input) SIGKILL :: nat where "SIGKILL \<equiv> 9"
abbreviation (input) SIGSEGV :: nat where "SIGSEGV \<equiv> 11"
abbreviation (input) SIGTERM :: nat where "SIGTERM \<equiv> 15"
abbreviation (input) CLD_EXITED :: int where "CLD_EXITED \<equiv> 1"
abbreviation (input) CLD_KILLED :: int where "CLD_KILLED \<equiv> 2"
abbreviation (input) PF_WAIT_ANY :: u32 where "PF_WAIT_ANY \<equiv> 1"
abbreviation (input) PF_SAVED_MASK :: u32 where "PF_SAVED_MASK \<equiv> 2"
abbreviation (input) ECHILD :: int where "ECHILD \<equiv> 10"

definition sig_bit :: "nat \<Rightarrow> u64" where "sig_bit sig = push_bit (sig - 1) 1"

text \<open>\<^verbatim>\<open>signo\<close> and \<^verbatim>\<open>status\<close> of \<^verbatim>\<open>struct process\<close> are shorts.\<close>

definition to_short :: "int \<Rightarrow> int" where "to_short i = sint (of_int i :: 16 word)"

definition tid_pid :: "l4_tid \<Rightarrow> nat" where "tid_pid t = unat (pidof_NP nil_tid t)"

section \<open>Delivery\<close>

definition sig_remove_helper :: "root \<Rightarrow> nat \<Rightarrow> root option" where
  "sig_remove_helper s pid =
     (case must s of None \<Rightarrow> None
      | Some s \<Rightarrow> (case procs s pid of None \<Rightarrow> None
         | Some p \<Rightarrow> (case free_thread s pid (task p) (sighelper_tid p) (sighelper_utcb p) of None \<Rightarrow> None
            | Some s \<Rightarrow> map_option (upd_proc pid (\<lambda>p. p\<lparr>sighelper_tid := nil_tid\<rparr>)) (free_threadno s (sighelper_tid p)))))"

definition add_pending :: "nat \<Rightarrow> nat \<Rightarrow> root \<Rightarrow> root" where
  "add_pending pid sig s = upd_proc pid (\<lambda>p. p\<lparr>pending_set := pending_set p OR sig_bit sig\<rparr>) s"

text \<open>A signal from outside starts the helper thread; if that has no thread ID left, the signal is dropped.\<close>

definition sig_deliver :: "root \<Rightarrow> nat \<Rightarrow> nat \<Rightarrow> bool \<Rightarrow> root option" where
  "sig_deliver s pid sig self =
     (case procs s pid of None \<Rightarrow> None
      | Some p \<Rightarrow>
          if sighelper_tid p \<noteq> nil_tid \<or> self then Some (add_pending pid sig s)
          else if threads (task p) = [] then None
          else (case allocate_thread s pid of None \<Rightarrow> None
            | Some (None, s) \<Rightarrow> Some s
            | Some (Some (tid, loc), s) \<Rightarrow>
                map_option (add_pending pid sig)
                  (Option.bind (must (upd_proc pid (\<lambda>p. p\<lparr>sighelper_tid := tid, sighelper_utcb := loc\<rparr>) s)) must)))"

definition sig_send_with :: "(root \<Rightarrow> nat \<Rightarrow> nat \<Rightarrow> (bool \<times> root) option) \<Rightarrow> root \<Rightarrow> nat \<Rightarrow> nat \<Rightarrow> bool \<Rightarrow> root option" where
  "sig_send_with dflt s pid sig self =
     (if sig < 1 \<or> sig > 64 then None
      else case procs s pid of None \<Rightarrow> None
      | Some p \<Rightarrow>
          if mask_set p AND sig_bit sig \<noteq> 0 then Some (add_pending pid sig s)
          else if pending_set p AND sig_bit sig \<noteq> 0 then Some s
          else if dfl_set p AND sig_bit sig \<noteq> 0 then
            (if ign_set p AND sig_bit sig \<noteq> 0 then None
             else map_option (\<lambda>(d, s). if d \<and> self then s\<lparr>no_reply := True\<rparr> else s) (dflt s pid sig))
          else if ign_set p AND sig_bit sig = 0 then sig_deliver s pid sig self
          else Some s)"

text \<open>The default action of ignored signals; its assertion looks at the bit after the signal's, which for signal 64 is an undefined shift.\<close>

definition sig_default_ign :: "root \<Rightarrow> nat \<Rightarrow> nat \<Rightarrow> (bool \<times> root) option" where
  "sig_default_ign s pid sig =
     (case procs s pid of None \<Rightarrow> None
      | Some p \<Rightarrow> if sig \<ge> 64 \<or> bit (pending_set p) sig then None else Some (False, s))"

section \<open>The end of a process\<close>

definition process_dtor :: "root \<Rightarrow> nat \<Rightarrow> root option" where
  "process_dtor s pid = (case procs s pid of None \<Rightarrow> None | Some p \<Rightarrow> task_common_dtor s pid (task p))"

text \<open>The parent, or init for an orphan; init itself and an orphan without init cause a panic.\<close>

definition find_parent :: "root \<Rightarrow> nat \<Rightarrow> (nat \<times> root) option" where
  "find_parent s pid =
     (case procs s pid of None \<Rightarrow> None
      | Some p \<Rightarrow>
      (case get_process s (int (ppid p)) of None \<Rightarrow> None
       | Some (Some _, s) \<Rightarrow> Some (ppid p, s)
       | Some (None, s) \<Rightarrow>
           if pid = 1 then None
           else (case get_process (upd_proc pid (\<lambda>p. p\<lparr>ppid := 1\<rparr>) s) 1 of
                   Some (Some _, s) \<Rightarrow> Some (1, s) | _ \<Rightarrow> None)))"

text \<open>The thread to wake: one that waits for this process, else one of the parent's that waits for any.\<close>

definition find_waiter :: "root \<Rightarrow> nat \<Rightarrow> nat \<Rightarrow> l4_tid \<times> root" where
  "find_waiter s pid parent =
     (case (procs s pid, procs s parent) of (Some p, Some par) \<Rightarrow>
        if wait_tid p \<noteq> nil_tid then (wait_tid p, s)
        else if pflags par AND PF_WAIT_ANY \<noteq> 0 then
          (let ws = filter (\<lambda>t. tid_pid t = ppid p) (waitany_hash s);
               s = (case ws of [] \<Rightarrow> s | w # _ \<Rightarrow> s\<lparr>waitany_hash := remove1 w (waitany_hash s)\<rparr>);
               s = (if length ws < 2 then upd_proc parent (\<lambda>p. p\<lparr>pflags := pflags p AND NOT PF_WAIT_ANY\<rparr>) s else s)
           in (case ws of [] \<Rightarrow> nil_tid | w # _ \<Rightarrow> w, s))
        else (nil_tid, s)
      | _ \<Rightarrow> (nil_tid, s))"

definition exit_msg :: "nat \<Rightarrow> process \<Rightarrow> u32 list" where
  "exit_msg pid p = [of_nat pid, 2 OR push_bit 8 (of_int (signo p)), of_int (status p), of_int (code p)]"

definition zombify :: "root \<Rightarrow> nat \<Rightarrow> root option" where
  "zombify s pid =
     (case procs s pid of None \<Rightarrow> None
      | Some p \<Rightarrow>
      (case (if sighelper_tid p \<noteq> nil_tid then sig_remove_helper s pid else Some s) of None \<Rightarrow> None
       | Some s \<Rightarrow>
      (case process_dtor s pid of None \<Rightarrow> None
       | Some s \<Rightarrow>
      (case find_parent s pid of None \<Rightarrow> None
       | Some (parent, s) \<Rightarrow>
      (case sig_send_with sig_default_ign s parent SIGCHLD False of None \<Rightarrow> None
       | Some s \<Rightarrow>
           let (waiter, s) = find_waiter s pid parent;
               s = s\<lparr>bcasts := bcasts s @ [exit_msg pid p]\<rparr>;
               (ok, s) = (if waiter \<noteq> nil_tid then next_ok s else (False, s))
           in if ok then destroy_process (s\<lparr>wait_replies := wait_replies s @ [(waiter, pid, signo p, status p, code p)]\<rparr>) pid
              else Some (upd_proc parent (\<lambda>p. p\<lparr>dead_list := dead_list p @ [pid]\<rparr>) s))))))"

definition sig_default :: "root \<Rightarrow> nat \<Rightarrow> nat \<Rightarrow> (bool \<times> root) option" where
  "sig_default s pid sig =
     (if sig \<in> {SIGSEGV, SIGABRT, SIGKILL, SIGTERM}
      then map_option (\<lambda>s. (True, s)) (zombify (upd_proc pid (\<lambda>p. p\<lparr>code := CLD_KILLED, signo := int sig, status := 0\<rparr>) s) pid)
      else sig_default_ign s pid sig)"

definition sig_send :: "root \<Rightarrow> nat \<Rightarrow> nat \<Rightarrow> bool \<Rightarrow> root option" where
  "sig_send = sig_send_with sig_default"

section \<open>The signal calls\<close>

definition may_signal :: "process \<Rightarrow> process \<Rightarrow> bool" where
  "may_signal sender p \<longleftrightarrow> eff_uid sender = 0 \<or> real_uid sender = real_uid p \<or> real_uid sender = saved_uid p
     \<or> eff_uid sender = real_uid p \<or> eff_uid sender = saved_uid p"

text \<open>Calls of the memory server \<open>vm_pid\<close> are answered before the signal is sent.\<close>

definition root_uapi_kill :: "nat \<Rightarrow> root \<Rightarrow> nat \<Rightarrow> int \<Rightarrow> int \<Rightarrow> (int \<times> root) option" where
  "root_uapi_kill vm_pid s sender_pid pid sig =
     (case get_process s pid of None \<Rightarrow> None
      | Some (None, s) \<Rightarrow> Some (- ESRCH, s)
      | Some (Some p, s) \<Rightarrow>
      (case get_process s (int sender_pid) of None \<Rightarrow> None
       | Some (sender, s) \<Rightarrow>
           if \<not> IS_SYSTASK sender_pid \<and> sender = None then None
           else if \<not> IS_SYSTASK sender_pid \<and> \<not> may_signal (the sender) p then Some (- EPERM, s)
           else if sig < 0 \<or> sig > 64 then Some (- EINVAL, s)
           else let (ok, s) = (if sender_pid = vm_pid then next_ok s else (True, s));
                    s = (if sender_pid = vm_pid \<and> ok then s\<lparr>no_reply := True\<rparr> else s)
           in if \<not> ok then Some (- EAGAIN, s)
              else if sig = 0 then Some (0, s)
              else map_option (\<lambda>s. (0, s)) (sig_send s (nat pid) (nat sig) (pid = int sender_pid))))"

definition sigpage_tail_code :: "u8 list" where
  "sigpage_tail_code = [0xe8, 0x08, 0x00, 0x00, 0x00, 0xff, 0x93, 0x0c, 0x00, 0x00, 0x00, 0xeb, 0xf8,
     0x8b, 0x1c, 0x24, 0xc3, 0x00, 0x00, 0x00, 0x00]"

definition root_uapi_sigconfig :: "root \<Rightarrow> nat \<Rightarrow> u32 \<Rightarrow> (u8 list \<times> int \<times> root) option" where
  "root_uapi_sigconfig s pid addr =
     (if IS_SYSTASK pid then Some (replicate 1024 0, 1020, s)
      else case get_process s (int pid) of
        Some (Some _, s) \<Rightarrow>
          Some (replicate (1024 - length sigpage_tail_code) 0 @ sigpage_tail_code, 4092, upd_proc pid (\<lambda>p. p\<lparr>sigpage_addr := addr\<rparr>) s)
      | _ \<Rightarrow> None)"

fun trigger :: "root \<Rightarrow> nat \<Rightarrow> nat list \<Rightarrow> root option" where
  "trigger s pid [] = Some s"
| "trigger s pid (b # bs) = (case sig_send s pid (Suc b) True of None \<Rightarrow> None | Some s \<Rightarrow> trigger s pid bs)"

text \<open>Setting the mask also triggers what became unmasked, lowest signal first.\<close>

definition sigset_mask :: "root \<Rightarrow> nat \<Rightarrow> process \<Rightarrow> u64 \<Rightarrow> u64 \<Rightarrow> (u64 \<times> root) option" where
  "sigset_mask s pid p or_bits and_bits =
     (let old = mask_set p; trig = pending_set p AND (old AND NOT and_bits);
          s = upd_proc pid (\<lambda>p. p\<lparr>mask_set := (mask_set p AND and_bits) OR or_bits, pending_set := pending_set p AND NOT trig\<rparr>) s
      in if ign_set p AND dfl_set p \<noteq> 0 then None
         else map_option (\<lambda>s. (old, s)) (trigger s pid (bit_loop (trig AND NOT (ign_set p)))))"

text \<open>
  Reading the pending set, all of it or what is not masked (\<open>conceal\<close>).  In sigsuspend mode one
  signal is taken; the assertion uses the 32-bit \<open>ffsl\<close>, so it fails from signal 33 on.
\<close>

definition sigset_pending :: "root \<Rightarrow> nat \<Rightarrow> process \<Rightarrow> bool \<Rightarrow> u64 \<Rightarrow> (u64 \<times> root) option" where
  "sigset_pending s pid p conceal and_bits =
     (let old = (if conceal then pending_set p AND NOT (mask_set p) else pending_set p);
          new = pending_set p AND (if conceal then and_bits OR mask_set p else and_bits) in
      if old \<noteq> 0 \<and> pflags p AND PF_SAVED_MASK \<noteq> 0 then
        (let low = ffs old - 1 in
         if low \<ge> 32 then None
         else Some (push_bit low 1, upd_proc pid (\<lambda>p. p\<lparr>pending_set := new OR (old AND NOT (push_bit low 1)),
                pflags := pflags p AND NOT PF_SAVED_MASK, mask_set := saved_mask_set p\<rparr>) s))
      else Some (old, upd_proc pid (\<lambda>p. p\<lparr>pending_set := new\<rparr>) s))"

definition root_uapi_sigset :: "root \<Rightarrow> l4_tid \<Rightarrow> nat \<Rightarrow> nat \<Rightarrow> u64 \<Rightarrow> u64 \<Rightarrow> (u64 \<times> root) option" where
  "root_uapi_sigset s sender pid set_name or_bits and_bits =
     (case get_process s (int pid) of
        Some (Some p, s) \<Rightarrow>
          if set_name = 4 \<and> (pending_set p OR and_bits) = 0 \<and> sighelper_tid p \<noteq> nil_tid \<and> sender = sighelper_tid p then
            map_option (\<lambda>s. (0, s\<lparr>no_reply := True\<rparr>)) (sig_remove_helper s pid)
          else if set_name = 0 then
            (let ign = (ign_set p AND and_bits) OR or_bits; dfl = dfl_set p AND NOT (ign_set p XOR ign)
             in if ign AND dfl \<noteq> 0 then None else Some (ign_set p, upd_proc pid (\<lambda>p. p\<lparr>ign_set := ign, dfl_set := dfl\<rparr>) s))
          else if set_name = 1 then
            (let dfl = (dfl_set p AND and_bits) OR or_bits; ign = ign_set p AND NOT (dfl_set p XOR dfl)
             in if ign AND dfl \<noteq> 0 then None else Some (dfl_set p, upd_proc pid (\<lambda>p. p\<lparr>ign_set := ign, dfl_set := dfl\<rparr>) s))
          else if set_name = 2 then sigset_mask s pid p or_bits and_bits
          else if set_name = 3 \<or> set_name = 4 then sigset_pending s pid p (set_name = 4) and_bits
          else Some (0, s)
      | _ \<Rightarrow> None)"

text \<open>
  The bit is cleared with a shift of a 32-bit \<open>int\<close>: for signal 32 the complement has no high
  bits, for higher ones the shift is undefined.
\<close>

definition suspend_clear :: "nat \<Rightarrow> u64 \<Rightarrow> u64 option" where
  "suspend_clear trig pend =
     (if trig \<le> 31 then Some (pend AND NOT (push_bit (trig - 1) 1))
      else if trig = 32 then Some (pend AND 0x7fffffff) else None)"

definition root_uapi_sigsuspend :: "root \<Rightarrow> nat \<Rightarrow> u64 \<Rightarrow> (int \<times> root) option" where
  "root_uapi_sigsuspend s pid msk =
     (case get_process s (int pid) of None \<Rightarrow> None
      | Some (None, s) \<Rightarrow> Some (- EINVAL, s)
      | Some (Some p, s) \<Rightarrow>
          if pflags p AND PF_SAVED_MASK \<noteq> 0 then Some (- EAGAIN, s)
          else let trig = ffs (pending_set p AND NOT msk) in
          if trig > 0 then
            map_option (\<lambda>x. (int trig, upd_proc pid (\<lambda>p. p\<lparr>pending_set := x\<rparr>) s)) (suspend_clear trig (pending_set p))
          else Some (0, (upd_proc pid (\<lambda>p. p\<lparr>saved_mask_set := mask_set p, mask_set := msk,
                 pflags := pflags p OR PF_SAVED_MASK\<rparr>) s)\<lparr>no_reply := True\<rparr>))"

section \<open>Exit and wait\<close>

text \<open>
  Unlike the destruction of a process this does not clear the UTCB area, by which a lookup recognizes
  a record in use; returning the record to the range allocator leaves its contents.
\<close>

definition destroy_systask :: "root \<Rightarrow> nat \<Rightarrow> task_common \<Rightarrow> root option" where
  "destroy_systask s pid t = task_common_dtor s pid t"

definition uapi_exit :: "root \<Rightarrow> nat \<Rightarrow> int \<Rightarrow> root option" where
  "uapi_exit s pid st =
     map_option (\<lambda>s. s\<lparr>no_reply := True\<rparr>)
      (if IS_SYSTASK pid then
         (case get_systask s pid of Some (Some t, s) \<Rightarrow> destroy_systask s pid t | _ \<Rightarrow> None)
       else
         (case get_process s (int pid) of
            Some (Some _, s) \<Rightarrow> zombify (upd_proc pid (\<lambda>p. p\<lparr>code := CLD_EXITED, status := to_short st, signo := 0\<rparr>) s) pid
          | _ \<Rightarrow> None))"

definition has_children :: "root \<Rightarrow> nat \<Rightarrow> bool" where
  "has_children s pid \<longleftrightarrow> (\<exists>(h, c) \<in> set (pid_to_child_hash s). h = int_hash (of_nat pid)
     \<and> (case procs s c of None \<Rightarrow> False | Some p \<Rightarrow> ppid p = pid))"

datatype wait_result = W_Err int | W_Reap nat int int int | W_Sleep | W_None

text \<open>The child a wait looks at: \<open>Inl\<close> an error, else a dead one or a live one to wait for.\<close>

definition wait_target :: "root \<Rightarrow> nat \<Rightarrow> nat \<Rightarrow> int \<Rightarrow> ((int + nat option \<times> nat option) \<times> root) option" where
  "wait_target s caller idtype i =
     (if idtype = 1 then
        (case get_process s i of None \<Rightarrow> None
         | Some (None, s) \<Rightarrow> Some (Inl (- ECHILD), s)
         | Some (Some d, s) \<Rightarrow>
             if ppid d \<noteq> caller then Some (Inl (- ECHILD), s)
             else Some (Inr (if threads (task d) \<noteq> [] then (None, Some (nat i)) else (Some (nat i), None)), s))
      else if idtype = 0 then
        (case procs s caller of None \<Rightarrow> None
         | Some self \<Rightarrow>
             (case dead_list self of [] \<Rightarrow> Some (if has_children s caller then Inr (None, None) else Inl (- ECHILD), s)
              | d # _ \<Rightarrow> if map_option ppid (procs s d) = Some caller then Some (Inr (Some d, None), s) else None))
      else Some (Inl (- EINVAL), s))"

definition uapi_wait :: "root \<Rightarrow> l4_tid \<Rightarrow> u32 \<Rightarrow> nat \<Rightarrow> nat \<Rightarrow> int \<Rightarrow> u32 \<Rightarrow> (wait_result \<times> root) option" where
  "uapi_wait s sender tag caller idtype i options =
     (if IS_SYSTASK caller then Some (W_Err (- EINVAL), s)
      else case get_process s (int caller) of None \<Rightarrow> None
      | Some (_, s) \<Rightarrow>
      (case wait_target s caller idtype i of None \<Rightarrow> None
       | Some (Inl e, s) \<Rightarrow> Some (W_Err e, s)
       | Some (Inr (Some d, _), s) \<Rightarrow>
           (case procs s d of None \<Rightarrow> None
            | Some p \<Rightarrow> Some (W_Reap d (signo p) (status p) (code p),
                s\<lparr>prb := set_confirm (Call_Destroy_Process d caller) sender tag (prb s)\<rparr>))
       | Some (Inr (None, Some l), s) \<Rightarrow>
           if options AND 1 \<noteq> 0 then Some (W_None, s)
           else Some (W_Sleep, (upd_proc l (\<lambda>p. p\<lparr>wait_tid := sender\<rparr>) s)\<lparr>no_reply := True\<rparr>)
       | Some (Inr (None, None), s) \<Rightarrow>
           if options AND 1 \<noteq> 0 then Some (W_None, s)
           else map_option (\<lambda>s. (W_Sleep, s\<lparr>waitany_hash := waitany_hash s @ [sender], no_reply := True\<rparr>))
             (must (upd_proc caller (\<lambda>p. p\<lparr>pflags := pflags p OR PF_WAIT_ANY\<rparr>) s))))"

end
