(* ===== verification/Proc_Life.thy ===== *)
theory Proc_Life
  imports Proc_Signals
begin

text \<open>
  Creation of processes and the credential and limit calls of \<^verbatim>\<open>root/uapi.c\<close>.  The range
  allocator is outside the repository: \<open>raw\<close> gives the contents of the record it hands out for a PID.
\<close>

section \<open>Processes\<close>

definition process_ctor :: "process \<Rightarrow> process" where
  "process_ctor p = p\<lparr>dead_list := [], wait_tid := nil_tid, sigpage_addr := 0, ign_set := 0, dfl_set := NOT 0, mask_set := 0,
     pending_set := 0, sighelper_tid := nil_tid, limits := replicate 4 (0, 0)\<rparr>"

text \<open>
  The counter is advanced by an atomic add; past the last PID a compare-and-swap is to reset it
  to 2, with the value from before the add as the expected one.
\<close>

definition next_pid :: "root \<Rightarrow> (nat \<times> root) option" where
  "next_pid s =
     (let maybe = next_user_pid s; s = s\<lparr>next_user_pid := Suc (next_user_pid s)\<rparr> in
      if maybe \<le> SNEKS_MAX_PID then Some (maybe, s)
      else if next_user_pid s = maybe then Some (1, s\<lparr>next_user_pid := 2\<rparr>)
      else if next_user_pid s \<le> SNEKS_MAX_PID then Some (next_user_pid s, s)
      else None)"

definition ra_alloc :: "(nat \<Rightarrow> process) \<Rightarrow> root \<Rightarrow> nat \<Rightarrow> bool \<times> root" where
  "ra_alloc raw s pid =
     (if procs s pid \<noteq> None then (False, s)
      else let (ok, s) = next_ok s in (ok, if ok then s\<lparr>procs := (procs s)(pid \<mapsto> raw pid)\<rparr> else s))"

fun alloc_process_loop :: "(nat \<Rightarrow> process) \<Rightarrow> nat \<Rightarrow> root \<Rightarrow> (nat option \<times> root) option" where
  "alloc_process_loop raw 0 s = Some (None, s)"
| "alloc_process_loop raw (Suc n) s =
     (case next_pid s of None \<Rightarrow> None
      | Some (pid, s) \<Rightarrow> (case ra_alloc raw s pid of
            (True, s) \<Rightarrow> Some (Some pid, upd_proc pid process_ctor s)
          | (False, s) \<Rightarrow> alloc_process_loop raw n s))"

definition alloc_process :: "(nat \<Rightarrow> process) \<Rightarrow> root \<Rightarrow> (nat option \<times> root) option" where
  "alloc_process raw s = alloc_process_loop raw SNEKS_MAX_PID s"

section \<open>Fork\<close>

text \<open>What the child has of its parent once its UTCB bitmap is allocated.\<close>

definition fork_copy :: "nat \<Rightarrow> process \<Rightarrow> process \<Rightarrow> process" where
  "fork_copy pid src dst = dst\<lparr>ppid := pid, real_uid := real_uid src, eff_uid := eff_uid src, saved_uid := saved_uid src,
     sigpage_addr := sigpage_addr src, ign_set := ign_set src, dfl_set := dfl_set src, mask_set := mask_set src,
     pending_set := 0, limits := limits src\<rparr>"

definition fork_msg :: "nat \<Rightarrow> nat \<Rightarrow> u32 list" where
  "fork_msg pid newpid = [of_nat pid, push_bit 8 (of_nat newpid)]"

text \<open>The first thread of the child; every failure here aborts.\<close>

definition fork_start :: "root \<Rightarrow> nat \<Rightarrow> (l4_tid \<times> root) option" where
  "fork_start s newpid =
     (case allocate_thread s newpid of
        Some (Some (tid, _), s) \<Rightarrow>
          map_option (Pair tid) (Option.bind (Option.bind (make_space s) must) must)
      | _ \<Rightarrow> None)"

text \<open>\<open>vm_n\<close> is the return value of the memory server's fork.\<close>

definition uapi_fork :: "(nat \<Rightarrow> process) \<Rightarrow> int \<Rightarrow> root \<Rightarrow> nat \<Rightarrow> (int \<times> l4_tid \<times> root) option" where
  "uapi_fork raw vm_n s pid =
     (if IS_SYSTASK pid then Some (- EINVAL, nil_tid, s)
      else case get_process s (int pid) of
        Some (Some src, s) \<Rightarrow>
      (case alloc_process raw s of None \<Rightarrow> None
       | Some (None, s) \<Rightarrow> Some (- EAGAIN, nil_tid, s)
       | Some (Some newpid, s) \<Rightarrow>
           let s = upd_proc newpid (\<lambda>p. p\<lparr>task := \<lparr>kip_area = kip_area (task src), utcb_area = utcb_area (task src),
                     utcb_free = [], threads = []\<rparr>\<rparr>) s;
               (bm, s) = alloc_utcb_bitmap s (case utcb_area (task src) of None \<Rightarrow> 0 | Some (_, sz) \<Rightarrow> sz)
           in (case bm of None \<Rightarrow> Some (- ENOMEM, nil_tid, s)
             | Some bm \<Rightarrow>
                 let s = upd_proc newpid (\<lambda>p. fork_copy pid src (p\<lparr>task := (task p)\<lparr>utcb_free := bm\<rparr>\<rparr>)) s;
                     (ok, s) = next_ok s
                 in if \<not> ok then Some (- ENOMEM, nil_tid, s)
                    else let s = s\<lparr>pid_to_child_hash := (int_hash (of_nat pid), newpid) # pid_to_child_hash s\<rparr>
                    in if vm_n \<noteq> 0 then Some (if vm_n > 0 then - EIO else vm_n, nil_tid, s)
                       else map_option (\<lambda>(tid, s). (int newpid, tid, s))
                              (fork_start (s\<lparr>bcasts := bcasts s @ [fork_msg pid newpid]\<rparr>) newpid)))
      | _ \<Rightarrow> None)"

section \<open>Credentials and limits\<close>

definition uapi_getresugid :: "root \<Rightarrow> nat \<Rightarrow> ((u32 \<times> u32 \<times> u32) \<times> (u32 \<times> u32 \<times> u32) \<times> root) option" where
  "uapi_getresugid s pid =
     map_option (\<lambda>(p, s). (case p of None \<Rightarrow> (-1, -1, -1) | Some p \<Rightarrow> (real_uid p, eff_uid p, saved_uid p), (-1, -1, -1), s))
       (get_process s (int pid))"

text \<open>The new real, effective and saved IDs (-1 for no change) of the three modes, or an error; \<open>None\<close> is the failed assertion.\<close>

definition ugid_args :: "process \<Rightarrow> int \<Rightarrow> u32 \<Rightarrow> u32 \<Rightarrow> u32 \<Rightarrow> (int + u32 \<times> u32 \<times> u32) option" where
  "ugid_args p mode r e sv =
     (if mode < 1 \<or> mode > 3 then Some (Inl (- EINVAL))
      else if mode = 1 then
        (if eff_uid p = 0 then Some (Inr (r, r, r))
         else if r = eff_uid p \<or> r = saved_uid p then (if sv = -1 then Some (Inr (-1, r, sv)) else None)
         else Some (Inl (- EPERM)))
      else if mode = 2 then Some (Inl (- ENOSYS))
      else if eff_uid p \<noteq> 0 \<and> \<not> list_all (\<lambda>c. c = -1 \<or> c = real_uid p \<or> c = eff_uid p \<or> c = saved_uid p) [r, e, sv]
      then Some (Inl (- EPERM))
      else Some (Inr (r, e, sv)))"

definition set_uids :: "u32 \<Rightarrow> u32 \<Rightarrow> u32 \<Rightarrow> process \<Rightarrow> process" where
  "set_uids r e sv p = p\<lparr>real_uid := (if r = -1 then real_uid p else r), eff_uid := (if e = -1 then eff_uid p else e),
     saved_uid := (if sv = -1 then saved_uid p else sv)\<rparr>"

definition uapi_setresugid :: "root \<Rightarrow> nat \<Rightarrow> int \<Rightarrow> u32 \<Rightarrow> u32 \<Rightarrow> u32 \<Rightarrow> (int \<times> root) option" where
  "uapi_setresugid s pid mode r e sv =
     (case get_process s (int pid) of None \<Rightarrow> None
      | Some (None, s) \<Rightarrow> Some (- ESRCH, s)
      | Some (Some p, s) \<Rightarrow>
          (case ugid_args p mode r e sv of None \<Rightarrow> None
           | Some (Inl err) \<Rightarrow> Some (err, s)
           | Some (Inr (r, e, sv)) \<Rightarrow> Some (0, upd_proc pid (set_uids r e sv) s)))"

definition uapi_prlimit :: "root \<Rightarrow> nat \<Rightarrow> int \<Rightarrow> u32 \<Rightarrow> u64 \<times> u64 \<Rightarrow> (int \<times> (u64 \<times> u64) option \<times> root) option" where
  "uapi_prlimit s sender pid resource new =
     (let wr = (resource AND 0x80000000 = 0); res = unat (resource AND NOT 0x80000000) in
      if pid \<noteq> 0 then Some (- EPERM, None, s)
      else case get_process s (int sender) of None \<Rightarrow> None
      | Some (None, s) \<Rightarrow> Some (- ESRCH, None, s)
      | Some (Some p, s) \<Rightarrow>
          if res \<ge> length (limits p) then Some (- EINVAL, None, s)
          else if wr \<and> fst new > Product_Type.snd new then Some (- EINVAL, Some (limits p ! res), s)
          else Some (0, Some (limits p ! res),
            if wr then upd_proc sender (\<lambda>p. p\<lparr>limits := (limits p)[res := new]\<rparr>) s else s))"

end
