(* ===== verification/Proc_Props.thy ===== *)
theory Proc_Props
  imports Proc_Life
begin

text \<open>Properties of the process server that span its calls.\<close>

section \<open>Lookup without a pending confirmation\<close>

definition idle :: "root \<Rightarrow> bool" where
  "idle s \<longleftrightarrow> (case prb s of None \<Rightarrow> True | Some c \<Rightarrow> rb_c c = None)"

lemma root_sync_idle: "idle s \<Longrightarrow> root_sync s = Some s"
  by (auto simp: idle_def root_sync_def sync_confirm_def split: option.splits)

lemma root_sync_makes_idle: "root_sync s = Some s' \<Longrightarrow> idle s'"
  by (auto simp: idle_def root_sync_def sync_confirm_def split: option.splits)

lemma idle_cong: "prb s' = prb s \<Longrightarrow> idle s' = idle s"
  by (simp add: idle_def)

lemma get_process_idle:
  assumes "idle s" "0 < pid" "pid \<le> SNEKS_MAX_PID"
  shows "get_process s (int pid) = Some (proc_at s pid, s)"
  using assms by (simp add: get_process_def root_sync_idle)

section \<open>Credentials\<close>

text \<open>
  C26. Without privilege no call of setresugid gives a process an ID it does not have: the new real,
  effective and saved user IDs are among the three old ones, and no other process and nothing else of
  the process changes, whatever the mode and the arguments are.
\<close>

theorem setresugid_safe:
  assumes "idle s" "0 < pid" "pid \<le> SNEKS_MAX_PID" "proc_at s pid = Some p" "eff_uid p \<noteq> 0"
    and "uapi_setresugid s pid mode r e sv = Some (n, s')"
  shows "\<exists>r' e' s''. {r', e', s''} \<subseteq> {real_uid p, eff_uid p, saved_uid p}
     \<and> s' = s\<lparr>procs := (procs s)(pid \<mapsto> p\<lparr>real_uid := r', eff_uid := e', saved_uid := s''\<rparr>)\<rparr>
     \<and> (n \<noteq> 0 \<longrightarrow> s' = s)"
proof -
  have g: "get_process s (int pid) = Some (Some p, s)" and p: "procs s pid = Some p"
    using assms get_process_idle [of s pid] by (auto simp: proc_at_def split: option.splits if_splits)
  have same: "s = s\<lparr>procs := (procs s)(pid \<mapsto> p\<lparr>real_uid := real_uid p, eff_uid := eff_uid p, saved_uid := saved_uid p\<rparr>)\<rparr>"
    using p by (simp add: fun_upd_idem)
  obtain x where x: "ugid_args p mode r e sv = Some x" using assms(6) g by (auto simp: uapi_setresugid_def split: option.splits)
  show ?thesis
  proof (cases x)
    case (Inl err)
    then have "s' = s" using assms(6) g x by (simp add: uapi_setresugid_def)
    then show ?thesis using same by (intro exI [of _ "real_uid p"] exI [of _ "eff_uid p"] exI [of _ "saved_uid p"]) simp
  next
    case (Inr y)
    obtain r1 e1 s1 where y: "y = (r1, e1, s1)" by (cases y)
    have c: "c = -1 \<or> c = real_uid p \<or> c = eff_uid p \<or> c = saved_uid p" if "c \<in> {r1, e1, s1}" for c
      using that x assms(5) unfolding Inr y by (auto simp: ugid_args_def split: if_splits)
    let ?q = "set_uids r1 e1 s1 p"
    have "{real_uid ?q, eff_uid ?q, saved_uid ?q} \<subseteq> {real_uid p, eff_uid p, saved_uid p}"
      using c [of r1] c [of e1] c [of s1] by (simp add: set_uids_def) blast
    moreover have "n = 0 \<and> s' = upd_proc pid (set_uids r1 e1 s1) s" using assms(6) g x Inr y by (simp add: uapi_setresugid_def)
    moreover have "upd_proc pid (set_uids r1 e1 s1) s
        = s\<lparr>procs := (procs s)(pid \<mapsto> p\<lparr>real_uid := real_uid ?q, eff_uid := eff_uid ?q, saved_uid := saved_uid ?q\<rparr>)\<rparr>"
      using p by (simp add: upd_proc_def set_uids_def)
    ultimately show ?thesis by blast
  qed
qed

lemma demo_root_idle: "idle demo_root" "proc_at demo_root 7 = Some demo_process" "procs demo_root 7 = Some demo_process"
  by (simp_all add: idle_def demo_root_def demo_process_def uapi_init_def proc_at_def)

theorem setresugid_safe_witness:
  "\<exists>r' e' s'' s'. uapi_setresugid demo_root 7 3 1000 (-1) 1000 = Some (0, s') \<and> {r', e', s''} \<subseteq> {1000}
     \<and> procs s' 7 = Some (demo_process\<lparr>real_uid := r', eff_uid := e', saved_uid := s''\<rparr>)"
proof -
  let ?s' = "upd_proc 7 (set_uids 1000 (-1) 1000) demo_root"
  have c: "uapi_setresugid demo_root 7 3 1000 (-1) 1000 = Some (0, ?s')"
    using get_process_idle [of demo_root 7] demo_root_idle by (simp add: uapi_setresugid_def ugid_args_def demo_process_def)
  have u: "real_uid demo_process = 1000" "eff_uid demo_process = 1000" "saved_uid demo_process = 1000"
    by (simp_all add: demo_process_def)
  obtain r' e' s'' where "{r', e', s''} \<subseteq> {1000 :: u32}"
    "?s' = demo_root\<lparr>procs := (procs demo_root)(7 \<mapsto> demo_process\<lparr>real_uid := r', eff_uid := e', saved_uid := s''\<rparr>)\<rparr>"
    using setresugid_safe [OF demo_root_idle(1) _ _ demo_root_idle(2) _ c] by (auto simp: u)
  then show ?thesis using c by (intro exI [of _ r'] exI [of _ e'] exI [of _ s''] exI [of _ ?s']) simp
qed

section \<open>Process IDs\<close>

lemma alloc_process_unfold: "alloc_process raw s = (case next_pid s of None \<Rightarrow> None
      | Some (pid, s) \<Rightarrow> (case ra_alloc raw s pid of
            (True, s) \<Rightarrow> Some (Some pid, upd_proc pid process_ctor s)
          | (False, s) \<Rightarrow> alloc_process_loop raw 32766 s))"
proof -
  have "alloc_process raw s = alloc_process_loop raw (Suc 32766) s"
    by (simp add: alloc_process_def del: alloc_process_loop.simps)
  then show ?thesis by (simp only: alloc_process_loop.simps)
qed

lemma next_pid_within: "next_user_pid s \<le> SNEKS_MAX_PID \<Longrightarrow> next_pid s = Some (next_user_pid s, s\<lparr>next_user_pid := Suc (next_user_pid s)\<rparr>)"
  by (simp add: next_pid_def Let_def)

lemma next_pid_past: "SNEKS_MAX_PID < next_user_pid s \<Longrightarrow> next_pid s = None"
  by (simp add: next_pid_def)

text \<open>
  C33. Once the last process ID has been handed out, every fork aborts the root task: the reset of the
  counter expects the value it had before the increment, so the exchange fails, and so does the
  assertion after it.  IDs that are free again are never reused.
\<close>

theorem fork_past_last_pid_aborts:
  assumes "SNEKS_MAX_PID < next_user_pid s" "idle s" "0 < pid" "pid \<le> SNEKS_MAX_PID" "proc_at s pid = Some p"
  shows "uapi_fork raw vm_n s pid = None"
proof -
  have "alloc_process raw s = None" using next_pid_past [OF assms(1)] by (simp add: alloc_process_unfold)
  moreover have "get_process s (int pid) = Some (Some p, s)" using get_process_idle assms by simp
  ultimately show ?thesis using assms(4) by (simp add: uapi_fork_def IS_SYSTASK_def)
qed

theorem fork_past_last_pid_aborts_witness:
  "uapi_fork (\<lambda>_. demo_process) 0 (demo_root\<lparr>next_user_pid := 32768\<rparr>) 7 = None"
proof (rule fork_past_last_pid_aborts)
  show "proc_at (demo_root\<lparr>next_user_pid := 32768\<rparr>) 7 = Some demo_process"
    using demo_root_idle(2) by (simp add: proc_at_def)
  show "idle (demo_root\<lparr>next_user_pid := 32768\<rparr>)" using demo_root_idle(1) by (simp add: idle_def)
qed simp_all

text \<open>The allocator only hands out unused IDs of the range, and changes nothing but that record and the counter.\<close>

lemma next_ok_eq: "next_ok s = (ok, s') \<Longrightarrow> \<exists>bs. s' = s\<lparr>oks := bs\<rparr>"
  by (auto simp: next_ok_def split: list.splits) (metis root.surjective root.update_convs(10))

lemma ra_alloc_eq:
  assumes "ra_alloc raw s pid = (ok, s')"
  shows "\<exists>bs. s' = (if ok then s\<lparr>procs := (procs s)(pid \<mapsto> raw pid), oks := bs\<rparr> else s\<lparr>oks := bs\<rparr>)"
    and "ok \<Longrightarrow> procs s pid = None"
proof -
  obtain b s1 where n: "next_ok s = (b, s1)" by fastforce
  obtain bs where s1: "s1 = s\<lparr>oks := bs\<rparr>" using next_ok_eq [OF n] by blast
  show "ok \<Longrightarrow> procs s pid = None" using assms by (simp add: ra_alloc_def split: if_splits)
  show "\<exists>bs. s' = (if ok then s\<lparr>procs := (procs s)(pid \<mapsto> raw pid), oks := bs\<rparr> else s\<lparr>oks := bs\<rparr>)"
  proof (cases "procs s pid = None")
    case True
    then show ?thesis using assms n s1 by (intro exI [of _ bs]) (auto simp: ra_alloc_def)
  next
    case False
    then show ?thesis using assms by (intro exI [of _ "oks s"]) (auto simp: ra_alloc_def)
  qed
qed

lemma upd_proc_new: "upd_proc pid f (s\<lparr>procs := m(pid \<mapsto> p), oks := bs\<rparr>) = s\<lparr>procs := m(pid \<mapsto> f p), oks := bs\<rparr>"
  by (cases s) (simp add: upd_proc_def)

lemma alloc_process_loop_fresh:
  assumes "alloc_process_loop raw n s = Some (Some pid, s')" "0 < next_user_pid s"
  shows "0 < pid \<and> pid \<le> SNEKS_MAX_PID \<and> next_user_pid s \<le> pid \<and> procs s pid = None
    \<and> (\<exists>bs. s' = s\<lparr>next_user_pid := Suc pid, procs := (procs s)(pid \<mapsto> process_ctor (raw pid)), oks := bs\<rparr>)"
  using assms
proof (induction n arbitrary: s)
  case (Suc n)
  have le: "next_user_pid s \<le> SNEKS_MAX_PID" using Suc.prems(1) next_pid_past [of s] by (cases "next_user_pid s \<le> SNEKS_MAX_PID") auto
  let ?s = "s\<lparr>next_user_pid := Suc (next_user_pid s)\<rparr>"
  obtain ok s1 where ra: "ra_alloc raw ?s (next_user_pid s) = (ok, s1)" by fastforce
  show ?case
  proof (cases ok)
    case True
    then have "pid = next_user_pid s" "s' = upd_proc pid process_ctor s1"
      using Suc.prems(1) ra next_pid_within [OF le] by auto
    moreover have "procs s (next_user_pid s) = None" using ra_alloc_eq(2) [OF ra] True by simp
    moreover obtain bs where "s1 = ?s\<lparr>procs := (procs s)(next_user_pid s \<mapsto> raw (next_user_pid s)), oks := bs\<rparr>"
      using ra_alloc_eq(1) [OF ra] True by auto
    ultimately show ?thesis using le Suc.prems(2) by (intro conjI exI [of _ bs]) (simp_all only: upd_proc_new order.refl)
  next
    case False
    then have l: "alloc_process_loop raw n s1 = Some (Some pid, s')" using Suc.prems(1) ra next_pid_within [OF le] by auto
    obtain bs where s1: "s1 = ?s\<lparr>oks := bs\<rparr>"
      using ra_alloc_eq(1) [OF ra] False by auto
    have "0 < next_user_pid s1" by (simp add: s1)
    from Suc.IH [OF l this] show ?thesis by (auto simp: s1)
  qed
qed simp

section \<open>Fork\<close>

lemma allocate_thread_frame:
  assumes "allocate_thread s pid = Some (Some (tid, loc), s')" "idle s" "\<not> IS_SYSTASK pid"
  shows "\<exists>p f. procs s pid = Some p
     \<and> procs s' = (procs s)(pid \<mapsto> p\<lparr>task := (task p)\<lparr>utcb_free := f, threads := threads (task p) @ [tid]\<rparr>\<rparr>)
     \<and> oks s' = oks s \<and> prb s' = prb s \<and> bcasts s' = bcasts s \<and> pid_to_child_hash s' = pid_to_child_hash s \<and> next_user_pid s' = next_user_pid s"
proof -
  obtain m t b where a: "tno_map s pid = Some m" "get_task s pid = Some (Some t, s)"
    and c: "claim_slot (s\<lparr>tno_free := (tno_free s)(m * TNOS_PER_BITMAP + b := False),
        tno_free_counts := (tno_free_counts s)(m := tno_free_counts s m - 1)\<rparr>) pid t
        (global_id (m * TNOS_PER_BITMAP + b) (thread_version pid)) m = Some (Some (tid, loc), s')"
    using assms(1) root_sync_idle [OF assms(2)]
    by (auto simp: allocate_thread_def get_task_def get_systask_def get_process_def Let_def split: option.splits if_splits)
  obtain p where p: "procs s pid = Some p" "task p = t"
    using a(2) assms(2,3) by (auto simp: get_task_def get_process_def proc_at_def root_sync_idle split: if_splits option.splits)
  show ?thesis
    using c assms(2,3) p
    by (auto simp: claim_slot_def upd_task_def upd_proc_def split: option.splits prod.splits if_splits)
qed

lemma allocate_thread_slot:
  assumes "allocate_thread s pid = Some (None, s')" "tno_map s pid = Some m" "get_task s pid = Some (Some t, s1)"
    "utcb_area t = Some (addr, sz)" "0 < length (utcb_free t)"
  shows "\<not> utcb_free t ! 0"
proof -
  have "find (\<lambda>i. utcb_free t ! i) [0..<min (length (utcb_free t)) (2 ^ (sz - utcb_size_log2 s1))] = None"
    using assms(1-4) by (auto simp: allocate_thread_def claim_slot_def Let_def split: option.splits if_splits)
  then show ?thesis using assms(5) by (simp add: find_upt_None)
qed

definition fork_child :: "process \<Rightarrow> nat \<Rightarrow> nat \<Rightarrow> process \<Rightarrow> process" where
  "fork_child r k pid src = fork_copy pid src ((process_ctor r)\<lparr>task := \<lparr>kip_area = kip_area (task src), utcb_area = utcb_area (task src),
     utcb_free = replicate (2 ^ k) True, threads = []\<rparr>\<rparr>)"

lemma fork_prepare:
  assumes idle: "idle s" "oks s = []" and pid: "0 < pid" "pid \<le> SNEKS_MAX_PID" "procs s pid = Some src"
    and area: "utcb_area (task src) = Some (addr, sz)"
    and new: "new = next_user_pid s" "new \<le> SNEKS_MAX_PID" "procs s new = None"
  shows "uapi_fork raw 0 s pid = map_option (\<lambda>(tid, s). (int new, tid, s))
    (fork_start (s\<lparr>next_user_pid := Suc new, procs := (procs s)(new \<mapsto> fork_child (raw new) (sz - utcb_size_log2 s) pid src),
      pid_to_child_hash := (int_hash (of_nat pid), new) # pid_to_child_hash s, bcasts := bcasts s @ [fork_msg pid new]\<rparr>) new)"
proof -
  let ?s = "s\<lparr>next_user_pid := Suc new\<rparr>"
  have g: "get_process s (int pid) = Some (Some src, s)"
    using get_process_idle [OF idle(1) pid(1,2)] pid(3) area by (simp add: proc_at_def)
  have "ra_alloc raw ?s new = (True, ?s\<lparr>procs := (procs s)(new \<mapsto> raw new)\<rparr>)"
    using new(3) idle(2) by (simp add: ra_alloc_def next_ok_def)
  then have al: "alloc_process raw s = Some (Some new, ?s\<lparr>procs := (procs s)(new \<mapsto> process_ctor (raw new))\<rparr>)"
    using next_pid_within [of s] new(1,2) by (simp add: alloc_process_unfold upd_proc_def)
  have u: "\<not> IS_SYSTASK pid" using pid(2) by (simp add: IS_SYSTASK_def)
  show ?thesis
    using idle(2) area u g al
    by (simp add: uapi_fork_def upd_proc_def alloc_utcb_bitmap_def next_ok_def fork_child_def)
qed

lemma threads_of_new:
  assumes "procs s new = None" "threads (task c) = []" "new \<le> SNEKS_MAX_PID"
  shows "threads_of (s\<lparr>next_user_pid := k, procs := (procs s)(new \<mapsto> c), pid_to_child_hash := h, bcasts := b\<rparr>) q = threads_of s q"
  using assms by (auto simp: threads_of_def)

text \<open>
  C6. While the next process ID is free, its thread bitmap is not full and the calls of other servers
  succeed, a fork returns that ID.  The child has the caller as parent, its credentials, signal
  dispositions and mask and limits, no pending signals, and exactly one thread, which belongs to it by
  the naming of threads and is on no other task's list.  No other process changes, the caller has a
  child to wait for, and the fork is announced once.
\<close>

theorem fork_makes_child:
  assumes inv: "threads_inv s" and idle: "idle s" "oks s = []"
    and pid: "0 < pid" "pid \<le> SNEKS_MAX_PID" "procs s pid = Some src" "utcb_area (task src) = Some (addr, sz)"
    and new: "new = next_user_pid s" "0 < new" "new \<le> SNEKS_MAX_PID" "procs s new = None" "tno_free_counts s (new div 8192 mod 4) \<noteq> 0"
  shows "\<exists>tid s' c. uapi_fork raw 0 s pid = Some (int new, tid, s') \<and> threads_inv s' \<and> procs s' = (procs s)(new \<mapsto> c)
     \<and> ppid c = pid \<and> (real_uid c, eff_uid c, saved_uid c) = (real_uid src, eff_uid src, saved_uid src)
     \<and> (ign_set c, dfl_set c, mask_set c, pending_set c) = (ign_set src, dfl_set src, mask_set src, 0) \<and> limits c = limits src
     \<and> threads (task c) = [tid] \<and> unat (pidof_NP my tid) = new \<and> (\<forall>q. \<forall>t \<in> set (threads_of s q). tno t \<noteq> tno tid)
     \<and> has_children s' pid \<and> bcasts s' = bcasts s @ [fork_msg pid new]"
proof -
  let ?c = "fork_child (raw new) (sz - utcb_size_log2 s) pid src"
  let ?s = "s\<lparr>next_user_pid := Suc new, procs := (procs s)(new \<mapsto> ?c), pid_to_child_hash := (int_hash (of_nat pid), new) # pid_to_child_hash s,
    bcasts := bcasts s @ [fork_msg pid new]\<rparr>"
  have c: "threads (task ?c) = []" "utcb_area (task ?c) = Some (addr, sz)" "utcb_free (task ?c) = replicate (2 ^ (sz - utcb_size_log2 s)) True"
    by (simp_all add: fork_child_def fork_copy_def pid(4))
  have th: "threads_of ?s q = threads_of s q" for q by (rule threads_of_new [OF new(4) c(1) new(3)])
  have inv': "threads_inv ?s" by (rule threads_inv_mono [OF inv]) (simp_all add: th)
  have idle': "idle ?s" using idle(1) by (simp add: idle_def)
  have user: "\<not> IS_SYSTASK new" using new(3) by (simp add: IS_SYSTASK_def)
  have g: "get_task ?s new = Some (Some (task ?c), ?s)"
    using get_process_idle [OF idle' new(2,3)] c(2) user by (simp add: get_task_def proc_at_def)
  have tm: "tno_map ?s new = Some (new div 8192 mod 4)" using user new(5) by (simp add: tno_map_def Let_def)
  have sync: "root_sync ?s \<noteq> None" using root_sync_idle [OF idle'] by simp
  obtain r s' where r: "allocate_thread ?s new = Some (r, s')" "threads_inv s'"
    and fresh: "\<And>tid loc. r = Some (tid, loc) \<Longrightarrow> unat (pidof_NP my tid) = new \<and> (\<forall>q. \<forall>t \<in> set (threads_of ?s q). tno t \<noteq> tno tid)"
    using allocate_thread_ok [OF inv' _ sync, of new my] new(3) g c(3) by auto
  have "r \<noteq> None"
    using allocate_thread_slot [OF _ tm g c(2), of s'] r(1) c(3) by (cases r) auto
  then obtain tid loc where rt: "r = Some (tid, loc)" by auto
  obtain f where f: "procs s' = (procs ?s)(new \<mapsto> ?c\<lparr>task := (task ?c)\<lparr>utcb_free := f, threads := [tid]\<rparr>\<rparr>)"
    "oks s' = []" "bcasts s' = bcasts ?s" "pid_to_child_hash s' = pid_to_child_hash ?s"
    using allocate_thread_frame [OF r(1) [unfolded rt] idle' user] c(1) idle(2) by auto
  let ?d = "?c\<lparr>task := (task ?c)\<lparr>utcb_free := f, threads := [tid]\<rparr>\<rparr>"
  have "fork_start ?s new = Some (tid, s')"
    using r(1) rt f(2) by (simp add: fork_start_def make_space_def must_def next_ok_def)
  then have "uapi_fork raw 0 s pid = Some (int new, tid, s')"
    using fork_prepare [OF idle pid new(1,3,4), of raw] by simp
  moreover have pr: "procs s' = (procs s)(new \<mapsto> ?d)" using f(1) by simp
  moreover have "ppid ?d = pid" by (simp add: fork_child_def fork_copy_def)
  moreover have "has_children s' pid" using f(4) pr \<open>ppid ?d = pid\<close> by (simp add: has_children_def)
  ultimately show ?thesis
    using r(2) fresh [OF rt] f(3) unfolding th
    by (intro exI [of _ tid] exI [of _ s'] exI [of _ ?d]) (simp add: fork_child_def fork_copy_def)
qed

theorem fork_makes_child_witness:
  "\<exists>tid s' c. uapi_fork (\<lambda>_. demo_process) 0 demo_root 7 = Some (1, tid, s') \<and> procs s' 1 = Some c \<and> ppid c = 7 \<and> threads (task c) = [tid]"
proof -
  have d: "oks demo_root = []" "next_user_pid demo_root = 1" "procs demo_root 1 = None" "tno_free_counts demo_root 0 \<noteq> 0"
    "utcb_area (task demo_process) = Some (0x10000, 12)"
    by (simp_all add: demo_root_def uapi_init_def demo_process_def)
  then show ?thesis
    using fork_makes_child [OF demo_root_inv(1) demo_root_idle(1) d(1) _ _ demo_root_idle(3) d(5), of 1] by fastforce
qed

end
