(* ===== verification/Proc_Exit.thy ===== *)
theory Proc_Exit
  imports Proc_Props
begin

text \<open>Exit and wait: a process that exits becomes a zombie, and a wait reaps it once.\<close>

section \<open>Releasing threads\<close>

lemma counts_release:
  assumes "counts_ok s" "n < 2 ^ 18" "\<not> tno_free s n"
  shows "tno_free_counts s (n div TNOS_PER_BITMAP) < TNOS_PER_BITMAP"
    and "counts_ok (s\<lparr>tno_free := (tno_free s)(n := True),
      tno_free_counts := (tno_free_counts s)(n div TNOS_PER_BITMAP := Suc (tno_free_counts s (n div TNOS_PER_BITMAP)))\<rparr>)"
proof -
  let ?F = "\<lambda>f k. {c. c < TNOS_PER_BITMAP \<and> f (k * TNOS_PER_BITMAP + c)}"
  let ?m = "n div TNOS_PER_BITMAP" and ?b = "n mod TNOS_PER_BITMAP" and ?f = "(tno_free s)(n := True)"
  have m: "?m < 4" and nb: "n = ?m * TNOS_PER_BITMAP + ?b" using assms(2) by auto
  have sub: "?F (tno_free s) ?m \<subseteq> {0..<TNOS_PER_BITMAP} - {?b}" using assms(3) nb by auto
  have "card (?F (tno_free s) ?m) \<le> card ({0..<TNOS_PER_BITMAP} - {?b})" by (rule card_mono [OF _ sub]) simp
  also have "\<dots> < TNOS_PER_BITMAP" by simp
  finally show "tno_free_counts s ?m < TNOS_PER_BITMAP" using assms(1) m by (simp add: counts_ok_def)
  have "k * TNOS_PER_BITMAP + c = n \<longleftrightarrow> k = ?m \<and> c = ?b" if "c < TNOS_PER_BITMAP" for c k using that nb by auto
  then have "?F ?f k = (if k = ?m then insert ?b (?F (tno_free s) k) else ?F (tno_free s) k)" for k by auto
  moreover have "?b \<notin> ?F (tno_free s) ?m" using sub by blast
  ultimately have "card (?F ?f k) = (if k = ?m then Suc (card (?F (tno_free s) k)) else card (?F (tno_free s) k))" for k by simp
  then show "counts_ok (s\<lparr>tno_free := ?f, tno_free_counts := (tno_free_counts s)(?m := Suc (tno_free_counts s ?m))\<rparr>)"
    using assms(1) m by (simp add: counts_ok_def)
qed

lemma dtor_threads_ok:
  assumes "counts_ok s" "oks s = []" "distinct (map tno ts)" "\<forall>t \<in> set ts. \<not> tno_free s (tno t) \<and> tno t < 2 ^ 18"
  shows "\<exists>c. dtor_threads s ts = Some (s\<lparr>tno_free := \<lambda>n. tno_free s n \<or> n \<in> tno ` set ts, tno_free_counts := c\<rparr>)
     \<and> counts_ok (s\<lparr>tno_free := \<lambda>n. tno_free s n \<or> n \<in> tno ` set ts, tno_free_counts := c\<rparr>)"
  using assms
proof (induction ts arbitrary: s)
  case Nil
  have "s\<lparr>tno_free_counts := tno_free_counts s\<rparr> = s" by simp
  then show ?case using Nil.prems(1) by (intro exI [of _ "tno_free_counts s"]) simp
next
  case (Cons t ts)
  let ?s = "s\<lparr>tno_free := (tno_free s)(tno t := True),
      tno_free_counts := (tno_free_counts s)(tno t div TNOS_PER_BITMAP := Suc (tno_free_counts s (tno t div TNOS_PER_BITMAP)))\<rparr>"
  have t: "tno t < 2 ^ 18" "\<not> tno_free s (tno t)" using Cons.prems(4) by auto
  note cr = counts_release [OF Cons.prems(1) t]
  have d: "dtor_threads s (t # ts) = dtor_threads ?s ts"
    using Cons.prems(2) t(2) cr(1) by (simp add: next_ok_def free_threadno_def Let_def)
  have "\<forall>u \<in> set ts. tno u \<noteq> tno t" using Cons.prems(3) by (auto simp: image_iff)
  then have "\<exists>c. dtor_threads ?s ts = Some (?s\<lparr>tno_free := \<lambda>n. tno_free ?s n \<or> n \<in> tno ` set ts, tno_free_counts := c\<rparr>)
     \<and> counts_ok (?s\<lparr>tno_free := \<lambda>n. tno_free ?s n \<or> n \<in> tno ` set ts, tno_free_counts := c\<rparr>)"
    using Cons.prems by (intro Cons.IH [OF cr(2)]) auto
  moreover have "(\<lambda>n. tno_free ?s n \<or> n \<in> tno ` set ts) = (\<lambda>n. tno_free s n \<or> n \<in> tno ` set (t # ts))" by auto
  ultimately show ?case unfolding d by simp
qed

section \<open>Exit\<close>

definition zombie :: "process \<Rightarrow> process" where
  "zombie p = p\<lparr>task := (task p)\<lparr>threads := [], utcb_free := []\<rparr>\<rparr>"

text \<open>A parent for which SIGCHLD has its default disposition, is not masked, and whose neighbour, signal 18, is not pending.\<close>

definition chld_default :: "process \<Rightarrow> bool" where
  "chld_default p \<longleftrightarrow> mask_set p AND sig_bit SIGCHLD = 0 \<and> dfl_set p AND sig_bit SIGCHLD \<noteq> 0
     \<and> ign_set p AND sig_bit SIGCHLD = 0 \<and> \<not> bit (pending_set p) SIGCHLD"

lemma sigchld_ignored:
  assumes "procs s parent = Some par" "chld_default par"
  shows "sig_send_with sig_default_ign s parent SIGCHLD False = Some s"
  using assms by (simp add: sig_send_with_def sig_default_ign_def chld_default_def)

lemma process_dtor_ok:
  assumes inv: "threads_inv s" and "oks s = []" "procs s pid = Some p" "utcb_area (task p) \<noteq> None" "pid \<le> SNEKS_MAX_PID"
  shows "\<exists>c. process_dtor s pid = Some (s\<lparr>tno_free := \<lambda>n. tno_free s n \<or> n \<in> tno ` set (threads_of s pid), tno_free_counts := c,
       procs := (procs s)(pid \<mapsto> zombie p)\<rparr>)
     \<and> threads_inv (s\<lparr>tno_free := \<lambda>n. tno_free s n \<or> n \<in> tno ` set (threads_of s pid), tno_free_counts := c,
       procs := (procs s)(pid \<mapsto> zombie p)\<rparr>)"
proof -
  have u: "\<not> IS_SYSTASK pid" using assms(5) by (simp add: IS_SYSTASK_def)
  have ts: "threads_of s pid = threads (task p)" using assms(3) u by (simp add: threads_of_def)
  let ?f = "\<lambda>n. tno_free s n \<or> n \<in> tno ` set (threads_of s pid)"
  obtain c where c: "dtor_threads s (threads_of s pid) = Some (s\<lparr>tno_free := ?f, tno_free_counts := c\<rparr>)"
    and co: "counts_ok (s\<lparr>tno_free := ?f, tno_free_counts := c\<rparr>)"
    using dtor_threads_ok [OF threads_inv_counts [OF inv] assms(2) threads_inv_distinct [OF inv, of pid]]
      threads_invD [OF inv, of _ pid] threads_inv_bound [OF inv, of _ pid] by auto
  let ?s = "s\<lparr>tno_free := ?f, tno_free_counts := c, procs := (procs s)(pid \<mapsto> zombie p)\<rparr>"
  have th: "threads_of ?s q = (if q = pid then [] else threads_of s q)" for q
    using u by (auto simp: threads_of_def zombie_def)
  have "process_dtor s pid = Some ?s"
    using assms(3,4) c u ts
    by (auto simp: process_dtor_def task_common_dtor_def upd_task_def upd_proc_def zombie_def)
  moreover have "threads_inv ?s"
    unfolding threads_inv_def
  proof (intro conjI allI impI)
    show "counts_ok ?s" using co by (simp add: counts_ok_def)
    show "distinct (map tno (threads_of ?s q))" for q using threads_inv_distinct [OF inv] by (simp add: th)
    show "tno t < 2 ^ 18" if "t \<in> set (threads_of ?s q)" for q t
      using that threads_inv_bound [OF inv] by (auto simp: th split: if_splits)
    show "\<not> tno_free ?s (tno t)" if "t \<in> set (threads_of ?s q)" for q t
      using that inv unfolding threads_inv_def by (fastforce simp: th split: if_splits)
    show "a = b" if "t \<in> set (threads_of ?s a) \<and> v \<in> set (threads_of ?s b) \<and> tno t = tno v" for a b t v
      using that inv unfolding threads_inv_def th by (metis empty_iff empty_set)
  qed
  ultimately show ?thesis by blast
qed

definition exited :: "int \<Rightarrow> process \<Rightarrow> process" where
  "exited st p = p\<lparr>code := CLD_EXITED, status := to_short st, signo := 0\<rparr>"

text \<open>The state after the exit of a process that no thread waits for.\<close>

definition after_exit :: "root \<Rightarrow> nat \<Rightarrow> process \<Rightarrow> process \<Rightarrow> int \<Rightarrow> (nat \<Rightarrow> nat) \<Rightarrow> root" where
  "after_exit s pid p par st c = s\<lparr>tno_free := \<lambda>n. tno_free s n \<or> n \<in> tno ` set (threads_of s pid), tno_free_counts := c,
     procs := (procs s)(pid \<mapsto> zombie (exited st p), ppid p \<mapsto> par\<lparr>dead_list := dead_list par @ [pid]\<rparr>),
     bcasts := bcasts s @ [exit_msg pid (exited st p)], no_reply := True\<rparr>"

lemma zombify_unwaited:
  assumes inv: "threads_inv s" and s: "idle s" "oks s = []" and pid: "procs s pid = Some p" "utcb_area (task p) \<noteq> None" "pid \<le> SNEKS_MAX_PID"
      "sighelper_tid p = nil_tid" "wait_tid p = nil_tid"
    and par: "0 < ppid p" "ppid p \<le> SNEKS_MAX_PID" "ppid p \<noteq> pid" "proc_at s (ppid p) = Some par" "chld_default par" "pflags par AND PF_WAIT_ANY = 0"
  shows "\<exists>c. zombify s pid = Some (s\<lparr>tno_free := \<lambda>n. tno_free s n \<or> n \<in> tno ` set (threads_of s pid), tno_free_counts := c,
       procs := (procs s)(pid \<mapsto> zombie p, ppid p \<mapsto> par\<lparr>dead_list := dead_list par @ [pid]\<rparr>), bcasts := bcasts s @ [exit_msg pid p]\<rparr>)
     \<and> threads_inv (s\<lparr>tno_free := \<lambda>n. tno_free s n \<or> n \<in> tno ` set (threads_of s pid), tno_free_counts := c, procs := (procs s)(pid \<mapsto> zombie p)\<rparr>)"
proof -
  let ?f = "\<lambda>n. tno_free s n \<or> n \<in> tno ` set (threads_of s pid)"
  obtain c where d: "process_dtor s pid = Some (s\<lparr>tno_free := ?f, tno_free_counts := c, procs := (procs s)(pid \<mapsto> zombie p)\<rparr>)"
    and i: "threads_inv (s\<lparr>tno_free := ?f, tno_free_counts := c, procs := (procs s)(pid \<mapsto> zombie p)\<rparr>)"
    using process_dtor_ok [OF inv s(2) pid(1,2,3)] by blast
  let ?s = "s\<lparr>tno_free := ?f, tno_free_counts := c, procs := (procs s)(pid \<mapsto> zombie p)\<rparr>"
  have z: "ppid (zombie p) = ppid p" "wait_tid (zombie p) = nil_tid" by (simp_all add: zombie_def pid(5))
  have par': "procs ?s (ppid p) = Some par" "proc_at ?s (ppid p) = Some par"
    using par(3,4) by (auto simp: proc_at_def split: option.splits if_splits)
  have "idle ?s" using s(1) by (simp add: idle_def)
  then have fp: "find_parent ?s pid = Some (ppid p, ?s)"
    using get_process_idle [of ?s "ppid p"] par(1,2) par'(2) z(1) by (simp add: find_parent_def)
  have sg: "sig_send_with sig_default_ign ?s (ppid p) SIGCHLD False = Some ?s"
    by (rule sigchld_ignored [OF par'(1) par(5)])
  have fw: "find_waiter ?s pid (ppid p) = (nil_tid, ?s)"
    using par'(1) z par(6) by (simp add: find_waiter_def)
  have "zombify s pid = Some (upd_proc (ppid p) (\<lambda>p. p\<lparr>dead_list := dead_list p @ [pid]\<rparr>) (?s\<lparr>bcasts := bcasts s @ [exit_msg pid p]\<rparr>))"
    using pid(1,4) d fp sg fw by (simp add: zombify_def Let_def)
  then show ?thesis using i par'(1) par(3) by (intro exI [of _ c]) (simp add: upd_proc_def)
qed

lemma exit_unwaited:
  assumes inv: "threads_inv s" and s: "idle s" "oks s = []"
    and pid: "procs s pid = Some p" "utcb_area (task p) \<noteq> None" "pid \<le> SNEKS_MAX_PID" "sighelper_tid p = nil_tid" "wait_tid p = nil_tid" "0 < pid"
    and par: "0 < ppid p" "ppid p \<le> SNEKS_MAX_PID" "ppid p \<noteq> pid" "proc_at s (ppid p) = Some par" "chld_default par" "pflags par AND PF_WAIT_ANY = 0"
  shows "\<exists>c. uapi_exit s pid st = Some (after_exit s pid p par st c) \<and> threads_inv (after_exit s pid p par st c)"
proof -
  let ?p = "exited st p"
  let ?s = "s\<lparr>procs := (procs s)(pid \<mapsto> ?p)\<rparr>"
  have u: "\<not> IS_SYSTASK pid" using pid(3) by (simp add: IS_SYSTASK_def)
  have sv: "procs ?s pid = Some ?p" "ppid ?p = ppid p" "utcb_area (task ?p) \<noteq> None" "sighelper_tid ?p = nil_tid" "wait_tid ?p = nil_tid"
    using pid by (simp_all add: exited_def)
  have th: "threads_of ?s q = threads_of s q" for q using pid(1) by (auto simp: threads_of_def exited_def)
  have inv': "threads_inv ?s" by (rule threads_inv_mono [OF inv]) (simp_all add: th)
  have par': "proc_at ?s (ppid p) = Some par" using par(3,4) by (auto simp: proc_at_def)
  have idle': "idle ?s" using s(1) by (simp add: idle_def)
  obtain c where z: "zombify ?s pid = Some (?s\<lparr>tno_free := \<lambda>n. tno_free s n \<or> n \<in> tno ` set (threads_of s pid), tno_free_counts := c,
       procs := (procs s)(pid \<mapsto> zombie ?p, ppid p \<mapsto> par\<lparr>dead_list := dead_list par @ [pid]\<rparr>), bcasts := bcasts s @ [exit_msg pid ?p]\<rparr>)"
    and i: "threads_inv (?s\<lparr>tno_free := \<lambda>n. tno_free s n \<or> n \<in> tno ` set (threads_of s pid), tno_free_counts := c, procs := (procs s)(pid \<mapsto> zombie ?p)\<rparr>)"
    using zombify_unwaited [OF inv' idle' _ sv(1,3) pid(3) sv(4,5), of par] s(2) par(1-3,5,6) par' unfolding sv(2) th by auto
  have "get_process s (int pid) = Some (Some p, s)"
    using get_process_idle [OF s(1) pid(6,3)] pid(1,2) by (simp add: proc_at_def)
  then have "uapi_exit s pid st = map_option (\<lambda>s. s\<lparr>no_reply := True\<rparr>) (zombify ?s pid)"
    using u pid(1) by (simp add: uapi_exit_def upd_proc_def exited_def)
  then have "uapi_exit s pid st = Some (after_exit s pid p par st c)" using z by (simp add: after_exit_def)
  moreover have "threads_inv (after_exit s pid p par st c)"
    using par(3,4) by (intro threads_inv_mono [OF i]) (auto simp: after_exit_def threads_of_def proc_at_def split: option.splits if_splits)
  ultimately show ?thesis by blast
qed

lemma wait_reaps:
  assumes "idle s" "procs s pid = Some p" "utcb_area (task p) \<noteq> None" "threads (task p) = []" "0 < pid" "pid \<le> SNEKS_MAX_PID"
    and "ppid p \<le> SNEKS_MAX_PID" "0 < ppid p"
  shows "uapi_wait s sender tag (ppid p) 1 (int pid) opts
     = Some (W_Reap pid (signo p) (status p) (code p), s\<lparr>prb := set_confirm (Call_Destroy_Process pid (ppid p)) sender tag (prb s)\<rparr>)"
proof -
  have "get_process s (int pid) = Some (Some p, s)"
    using get_process_idle [OF assms(1,5,6)] assms(2,3) by (simp add: proc_at_def)
  then show ?thesis
    using get_process_idle [OF assms(1,8,7)] assms(2,4,7) by (simp add: uapi_wait_def wait_target_def IS_SYSTASK_def)
qed

lemma sync_destroys:
  assumes "procs s pid = Some p" "procs s self = Some q" "self \<noteq> pid"
  shows "\<exists>s'. root_sync (s\<lparr>prb := set_confirm (Call_Destroy_Process pid self) sender tag ctx\<rparr>) = Some s'
     \<and> procs s' = (procs s)(pid := None, self \<mapsto> q\<lparr>dead_list := remove1 pid (dead_list q)\<rparr>) \<and> idle s'"
  using assms
  by (simp add: root_sync_def sync_confirm_def set_confirm_def call_destroy_process_def destroy_process_def upd_proc_def
      idle_def fun_upd_twist)

lemma wait_gone:
  assumes "idle s" "procs s pid = None" "0 < pid" "pid \<le> SNEKS_MAX_PID" "caller \<le> SNEKS_MAX_PID" "0 < caller"
  shows "uapi_wait s sender tag caller 1 (int pid) opts = Some (W_Err (- ECHILD), s)"
  using get_process_idle [OF assms(1,3,4)] get_process_idle [OF assms(1,6,5)] assms(2,5)
  by (simp add: uapi_wait_def wait_target_def IS_SYSTASK_def proc_at_def)


text \<open>PID 7 of the example and its parent, init.\<close>

definition demo_family :: root where
  "demo_family = demo_root\<lparr>procs := [7 \<mapsto> demo_process, 1 \<mapsto> demo_process\<lparr>ppid := 0\<rparr>]\<rparr>"

lemma sigchld_bit: "NOT 0 AND sig_bit SIGCHLD \<noteq> 0" "\<not> bit (0 :: u64) SIGCHLD"
  by (simp_all add: sig_bit_def push_bit_eq_mult)

lemma demo_family_inv: "threads_inv demo_family"
  using demo_root_inv(1)
  by (rule threads_inv_mono) (auto simp: demo_family_def threads_of_def demo_root_def demo_process_def)


end
