(* ===== verification/Proc_Spawn.thy ===== *)
theory Proc_Spawn
  imports Proc_Exit
begin

text \<open>
  Starting programs, \<open>uapi_spawn\<close> and \<open>uapi_exec\<close> of \<^verbatim>\<open>root/uapi.c\<close>: what they do to the process table, the
  threads and the layout of the address space.  The reading of the program file is in \<open>Elf_Image\<close> and the startup stack in
  \<open>Startup\<close>; here the results of these and of the calls of other servers are fields of \<open>exec_env\<close>, 0 for success.
\<close>

section \<open>Layout\<close>

abbreviation (input) ua_size :: u32 where "ua_size \<equiv> 0x80000"
abbreviation (input) stkresv :: u32 where "stkresv \<equiv> 0x14000"

text \<open>
  Addresses of the UTCB and the kernel interface page for a program in \<open>lo\<close> to \<open>hi\<close>: below the program if they fit there, else after it.
  The outcome of a failed assertion is \<open>None\<close>.  Addresses wrap around.
\<close>

definition configure_areas :: "u32 \<Rightarrow> u32 \<Rightarrow> u32 \<Rightarrow> (u32 \<times> u32) option" where
  "configure_areas lo hi kip_size =
     (let align = (\<lambda>a. a AND NOT (ua_size - 1)); resv_size = ua_size + kip_size + 0x1000;
          low = align (lo - resv_size); resv_start = (if low < stkresv then align (hi + ua_size - 1) else low) in
      if (if low < stkresv then \<not> resv_start > hi else \<not> resv_start + resv_size \<le> lo) then None
      else if resv_start > hi \<or> align lo \<ge> resv_size - ua_size then Some (resv_start, resv_start + ua_size)
      else Some (align lo - ua_size, align lo - ua_size - kip_size - 0x1000))"

record exec_env =
  ex_open :: int
  ex_image :: "int + u32 \<times> u32"
  ex_kip_size :: u32
  ex_vm_fork :: int
  ex_load :: int
  ex_configure :: "int \<times> u32"
  ex_upload :: int
  ex_fdlist :: int
  ex_notify :: int

definition neg_errno :: "int \<Rightarrow> int" where "neg_errno n = (if n < 0 then n else - EIO)"

text \<open>The first part of the result is the return value.\<close>

definition configure :: "exec_env \<Rightarrow> root \<Rightarrow> nat \<Rightarrow> u32 \<Rightarrow> u32 \<Rightarrow> (int \<times> root) option" where
  "configure e s pid lo hi =
     (case configure_areas lo hi (ex_kip_size e) of None \<Rightarrow> None
      | Some (utcb, kip) \<Rightarrow>
          let s = upd_proc pid (\<lambda>p. p\<lparr>task := \<lparr>kip_area = kip, utcb_area = Some (utcb, 19), utcb_free = [], threads = []\<rparr>\<rparr>) s;
              (bm, s) = alloc_utcb_bitmap s 19
          in (case bm of None \<Rightarrow> Some (- ENOMEM, s)
            | Some bm \<Rightarrow>
                let s = upd_proc pid (\<lambda>p. p\<lparr>task := (task p)\<lparr>utcb_free := bm\<rparr>\<rparr>) s; (n, resvhi) = ex_configure e in
                if n \<noteq> 0 then Some (neg_errno n, s)
                else if resvhi > 0x7fffffff \<or> hi AND 0xfff \<noteq> 0 \<or> min lo (min utcb kip) < stkresv then None
                else Some (0, s)))"

definition launch_process :: "root \<Rightarrow> nat \<Rightarrow> (int \<times> root) option" where
  "launch_process s pid =
     (case allocate_thread s pid of None \<Rightarrow> None
      | Some (None, s) \<Rightarrow> Some (- ENOMEM, s)
      | Some (Some (tid, loc), s) \<Rightarrow> map_option (Pair 0) (Option.bind (Option.bind (make_space s) must) must))"

definition exec_msg :: "nat \<Rightarrow> u32 list" where "exec_msg pid = [of_nat pid, 1]"

text \<open>From loading the program to its first thread; \<open>tell\<close> for exec, which announces itself.\<close>

definition start_program :: "exec_env \<Rightarrow> bool \<Rightarrow> root \<Rightarrow> nat \<Rightarrow> u32 \<Rightarrow> u32 \<Rightarrow> (int \<times> root) option" where
  "start_program e tell s pid lo hi =
     (if ex_load e \<noteq> 0 then Some (neg_errno (ex_load e), s)
      else case configure e s pid lo hi of None \<Rightarrow> None
      | Some (n, s) \<Rightarrow>
          if n \<noteq> 0 then Some (n, s)
          else if ex_upload e \<noteq> 0 then Some (neg_errno (ex_upload e), s)
          else if ex_fdlist e \<noteq> 0 then Some (neg_errno (ex_fdlist e), s)
          else if tell \<and> ex_notify e \<noteq> 0 then Some (neg_errno (ex_notify e), s)
          else launch_process (if tell then s\<lparr>bcasts := bcasts s @ [exec_msg pid]\<rparr> else s) pid)"

section \<open>The calls\<close>

definition spawn_owner :: "root \<Rightarrow> nat \<Rightarrow> nat \<Rightarrow> (bool \<times> root) option" where
  "spawn_owner s caller newpid =
     (if IS_SYSTASK caller then Some (True, upd_proc newpid (\<lambda>p. p\<lparr>real_uid := 0, eff_uid := 0, saved_uid := 0, ppid := 0\<rparr>) s)
      else case get_process s (int caller) of None \<Rightarrow> None
      | Some (None, s) \<Rightarrow> Some (False, s)
      | Some (Some parent, s) \<Rightarrow> Some (True, upd_proc newpid (\<lambda>p. p\<lparr>real_uid := real_uid parent, eff_uid := eff_uid parent, ppid := caller\<rparr>) s))"

definition uapi_spawn :: "exec_env \<Rightarrow> (nat \<Rightarrow> process) \<Rightarrow> root \<Rightarrow> nat \<Rightarrow> (int \<times> root) option" where
  "uapi_spawn e raw s caller =
     (if ex_open e \<noteq> 0 then Some (- ENOENT, s)
      else case ex_image e of Inl n \<Rightarrow> Some (n, s)
      | Inr (lo, hi) \<Rightarrow>
      (case alloc_process raw s of None \<Rightarrow> None
       | Some (None, s) \<Rightarrow> Some (- ENOMEM, s)
       | Some (Some newpid, s) \<Rightarrow>
           let fail = (\<lambda>n s. Some (neg_errno n, s\<lparr>procs := (procs s)(newpid := None)\<rparr>)) in
           (case spawn_owner s caller newpid of None \<Rightarrow> None
            | Some (False, s) \<Rightarrow> fail (- EINVAL) s
            | Some (True, s) \<Rightarrow>
                if ex_vm_fork e \<noteq> 0 then fail (ex_vm_fork e) s
                else (case start_program e False s newpid lo hi of None \<Rightarrow> None
                  | Some (n, s) \<Rightarrow> if n < 0 then fail n s else Some (int newpid, s)))))"

text \<open>Once the old program is gone a failure has no one to report to: the call ends without a reply.\<close>

definition uapi_exec :: "exec_env \<Rightarrow> root \<Rightarrow> nat \<Rightarrow> (int \<times> root) option" where
  "uapi_exec e s caller =
     (if IS_SYSTASK caller then Some (- EINVAL, s)
      else case get_process s (int caller) of
        Some (Some _, s) \<Rightarrow>
          if ex_open e < 0 then Some (ex_open e, s)
          else (case ex_image e of Inl n \<Rightarrow> Some (n, s)
            | Inr (lo, hi) \<Rightarrow>
            (case process_dtor s caller of None \<Rightarrow> None
             | Some s \<Rightarrow>
                 let s = s\<lparr>no_reply := True\<rparr> in
                 if ex_vm_fork e \<noteq> 0 then Some (0, s)
                 else map_option (\<lambda>(n, s). (0, s)) (start_program e True s caller lo hi)))
      | _ \<Rightarrow> None)"

section \<open>A program starts\<close>

definition env_ok :: "exec_env \<Rightarrow> u32 \<Rightarrow> u32 \<Rightarrow> u32 \<Rightarrow> u32 \<Rightarrow> bool" where
  "env_ok e lo hi utcb kip \<longleftrightarrow> ex_open e = 0 \<and> ex_image e = Inr (lo, hi) \<and> ex_vm_fork e = 0 \<and> ex_load e = 0 \<and> fst (ex_configure e) = 0
     \<and> ex_upload e = 0 \<and> ex_fdlist e = 0 \<and> ex_notify e = 0 \<and> configure_areas lo hi (ex_kip_size e) = Some (utcb, kip)
     \<and> Product_Type.snd (ex_configure e) \<le> 0x7fffffff \<and> hi AND 0xfff = 0 \<and> stkresv \<le> min lo (min utcb kip)"

lemma allocate_thread_number:
  assumes "allocate_thread s pid = Some (Some (tid, loc), s')" "idle s" "\<not> IS_SYSTASK pid"
  shows "tno_free s' = (tno_free s)(tno tid := False) \<and> tno tid div TNOS_PER_BITMAP = pid div 8192 mod 4"
proof -
  obtain m t b where m: "tno_map s pid = Some m" and b: "find (\<lambda>b. tno_free s (m * TNOS_PER_BITMAP + b)) [0..<TNOS_PER_BITMAP] = Some b"
    and c: "claim_slot (s\<lparr>tno_free := (tno_free s)(m * TNOS_PER_BITMAP + b := False), tno_free_counts := (tno_free_counts s)(m := tno_free_counts s m - 1)\<rparr>) pid t
        (global_id (m * TNOS_PER_BITMAP + b) (thread_version pid)) m = Some (Some (tid, loc), s')"
    using assms(1) root_sync_idle [OF assms(2)]
    by (auto simp: allocate_thread_def get_task_def get_systask_def get_process_def Let_def split: option.splits if_splits)
  have mb: "m < 4" "b < TNOS_PER_BITMAP" "m = pid div 8192 mod 4" using m b assms(3) by (auto simp: tno_map_def Let_def find_upt_Some split: if_splits)
  have "tno (global_id (m * TNOS_PER_BITMAP + b) (thread_version pid)) = m * TNOS_PER_BITMAP + b" by (intro tno_global_id) (use mb in simp)
  then show ?thesis using c assms(3) mb by (auto simp: claim_slot_def upd_task_def upd_proc_def split: option.splits if_splits)
qed

lemma launch_ok:
  assumes inv: "threads_inv s" and idle: "idle s" "oks s = []"
    and pid: "0 < pid" "pid \<le> SNEKS_MAX_PID" "procs s pid = Some p" "tno_free_counts s (pid div 8192 mod 4) \<noteq> 0"
    and task: "utcb_area (task p) = Some (addr, sz)" "utcb_free (task p) = replicate (2 ^ k) True" "threads (task p) = []"
  shows "\<exists>tid f s'. launch_process s pid = Some (0, s') \<and> threads_inv s'
     \<and> procs s' = (procs s)(pid \<mapsto> p\<lparr>task := (task p)\<lparr>utcb_free := f, threads := [tid]\<rparr>\<rparr>) \<and> unat (pidof_NP my tid) = pid
     \<and> (\<forall>q. \<forall>t \<in> set (threads_of s q). tno t \<noteq> tno tid) \<and> bcasts s' = bcasts s \<and> pid_to_child_hash s' = pid_to_child_hash s
     \<and> idle s' \<and> oks s' = [] \<and> next_user_pid s' = next_user_pid s \<and> tno_free s' = (tno_free s)(tno tid := False) \<and> no_reply s' = no_reply s
     \<and> tno tid div TNOS_PER_BITMAP = pid div 8192 mod 4"
proof -
  have user: "\<not> IS_SYSTASK pid" using pid(2) by (simp add: IS_SYSTASK_def)
  have g: "get_task s pid = Some (Some (task p), s)"
    using get_process_idle [OF idle(1) pid(1,2)] task(1) user pid(3) by (simp add: get_task_def proc_at_def)
  have tm: "tno_map s pid = Some (pid div 8192 mod 4)" using user pid(4) by (simp add: tno_map_def Let_def)
  have sync: "root_sync s \<noteq> None" using root_sync_idle [OF idle(1)] by simp
  have live: "utcb_free t \<noteq> []" if "get_task s pid = Some (Some t, s1)" for t s1 using that g task(2) by simp
  obtain r s' where r: "allocate_thread s pid = Some (r, s')" "threads_inv s'"
    and fresh: "\<And>tid loc. r = Some (tid, loc) \<Longrightarrow> unat (pidof_NP my tid) = pid \<and> (\<forall>q. \<forall>t \<in> set (threads_of s q). tno t \<noteq> tno tid)"
    using allocate_thread_ok [where my = my and pid = pid, OF inv _ sync] live pid(2) by auto
  have "r \<noteq> None" using allocate_thread_slot [OF _ tm g task(1), of s'] r(1) task(2) by (cases r) auto
  then obtain tid loc where rt: "r = Some (tid, loc)" by auto
  obtain f where f: "procs s' = (procs s)(pid \<mapsto> p\<lparr>task := (task p)\<lparr>utcb_free := f, threads := [tid]\<rparr>\<rparr>)"
    "oks s' = []" "bcasts s' = bcasts s" "pid_to_child_hash s' = pid_to_child_hash s" "prb s' = prb s" "next_user_pid s' = next_user_pid s"
    using allocate_thread_frame [OF r(1) [unfolded rt] idle(1) user] pid(3) task(3) idle(2) by auto
  have "launch_process s pid = Some (0, s')"
    using r(1) rt f(2) by (simp add: launch_process_def make_space_def must_def next_ok_def)
  moreover have "idle s'" using idle(1) idle_cong [OF f(5)] by simp
  moreover have "no_reply s' = no_reply s"
    using r(1) rt idle(1) user by (auto simp: allocate_thread_def claim_slot_def Let_def get_task_def get_process_def root_sync_idle upd_task_def upd_proc_def
        split: option.splits if_splits)
  ultimately show ?thesis using f r(2) fresh [OF rt] allocate_thread_number [OF r(1) [unfolded rt] idle(1) user] by blast
qed

lemma start_program_ok:
  assumes inv: "threads_inv (s\<lparr>procs := (procs s)(pid := None)\<rparr>)" and idle: "idle s" "oks s = []"
    and pid: "0 < pid" "pid \<le> SNEKS_MAX_PID" "procs s pid = Some p" "tno_free_counts s (pid div 8192 mod 4) \<noteq> 0"
    and e: "env_ok e lo hi utcb kip"
  shows "\<exists>tid f s'. start_program e tell s pid lo hi = Some (0, s') \<and> threads_inv s'
     \<and> procs s' = (procs s)(pid \<mapsto> p\<lparr>task := \<lparr>kip_area = kip, utcb_area = Some (utcb, 19), utcb_free = f, threads = [tid]\<rparr>\<rparr>)
     \<and> unat (pidof_NP my tid) = pid \<and> (\<forall>q. \<forall>t \<in> set (threads_of (s\<lparr>procs := (procs s)(pid := None)\<rparr>) q). tno t \<noteq> tno tid)
     \<and> bcasts s' = bcasts s @ (if tell then [exec_msg pid] else []) \<and> pid_to_child_hash s' = pid_to_child_hash s
     \<and> idle s' \<and> oks s' = [] \<and> next_user_pid s' = next_user_pid s \<and> tno_free s' = (tno_free s)(tno tid := False) \<and> no_reply s' = no_reply s"
proof -
  let ?k = "19 - utcb_size_log2 s"
  let ?p = "p\<lparr>task := \<lparr>kip_area = kip, utcb_area = Some (utcb, 19), utcb_free = replicate (2 ^ ?k) True, threads = []\<rparr>\<rparr>"
  let ?s = "s\<lparr>procs := (procs s)(pid \<mapsto> ?p), bcasts := bcasts s @ (if tell then [exec_msg pid] else [])\<rparr>"
  have th: "threads_of ?s q = threads_of (s\<lparr>procs := (procs s)(pid := None)\<rparr>) q" for q by (simp add: threads_of_def)
  have inv': "threads_inv ?s" by (rule threads_inv_mono [OF inv]) (simp_all add: th)
  have idle': "idle ?s" using idle(1) by (simp add: idle_def)
  have "configure e s pid lo hi = Some (0, s\<lparr>procs := (procs s)(pid \<mapsto> ?p)\<rparr>)"
    using e pid(3) idle(2)
    by (cases "ex_configure e") (simp add: configure_def env_ok_def upd_proc_def alloc_utcb_bitmap_def next_ok_def not_less [symmetric] del: min_less_iff_disj)
  then have st: "start_program e tell s pid lo hi = launch_process ?s pid"
    using e by (simp add: start_program_def env_ok_def)
  obtain tid f s' where l: "launch_process ?s pid = Some (0, s')" "threads_inv s'"
    "procs s' = (procs ?s)(pid \<mapsto> ?p\<lparr>task := (task ?p)\<lparr>utcb_free := f, threads := [tid]\<rparr>\<rparr>)" "unat (pidof_NP my tid) = pid"
    "\<forall>q. \<forall>t \<in> set (threads_of ?s q). tno t \<noteq> tno tid" "bcasts s' = bcasts ?s" "pid_to_child_hash s' = pid_to_child_hash ?s"
    "idle s'" "oks s' = []" "next_user_pid s' = next_user_pid ?s" "tno_free s' = (tno_free ?s)(tno tid := False)" "no_reply s' = no_reply ?s"
    using launch_ok [OF inv' idle' _ pid(1,2), of ?p utcb 19 ?k my] idle(2) pid(4) by auto
  show ?thesis using l(2-12) unfolding st l(1) th by (intro exI [of _ tid] exI [of _ f] exI [of _ s']) simp
qed


definition demo_exec_env :: exec_env where
  "demo_exec_env = \<lparr>ex_open = 0, ex_image = Inr (0x8048000, 0x8060000), ex_kip_size = 0x1000, ex_vm_fork = 0, ex_load = 0, ex_configure = (0, 0),
     ex_upload = 0, ex_fdlist = 0, ex_notify = 0\<rparr>"

lemma demo_exec_env_ok: "env_ok demo_exec_env 0x8048000 0x8060000 0x7f80000 0x8000000"
  by (simp add: env_ok_def demo_exec_env_def configure_areas_def Let_def)




end
