(* ===== verification/Proc_Dispositions.thy ===== *)
theory Proc_Dispositions
  imports Proc_Spawn
begin

text \<open>
  Signal dispositions: no signal of a process is both ignored and default.  Most operations
  keep the dispositions of every process (\<open>disp_le\<close>); the calls that set them keep them disjoint.
\<close>

definition disp_le :: "root \<Rightarrow> root \<Rightarrow> bool" where
  "disp_le s s' \<longleftrightarrow> (\<forall>pid p'. procs s' pid = Some p' \<longrightarrow>
     (\<exists>p. procs s pid = Some p \<and> ign_set p' = ign_set p \<and> dfl_set p' = dfl_set p))"

definition disp_ok :: "root \<Rightarrow> bool" where
  "disp_ok s \<longleftrightarrow> (\<forall>pid p. procs s pid = Some p \<longrightarrow> ign_set p AND dfl_set p = 0)"


lemma disp_le_refl [simp]: "disp_le s s"
  by (auto simp: disp_le_def)

lemma disp_le_trans [trans]: "disp_le s s' \<Longrightarrow> disp_le s' s'' \<Longrightarrow> disp_le s s''"
  unfolding disp_le_def by metis

lemma disp_le_ok: "disp_le s s' \<Longrightarrow> disp_ok s \<Longrightarrow> disp_ok s'"
  unfolding disp_le_def disp_ok_def by metis

lemma disp_le_procs: "procs s' = procs s \<Longrightarrow> disp_le s s'"
  by (auto simp: disp_le_def)

lemma disp_le_frame [simp]:
  "disp_le s (s'\<lparr>systasks := x0\<rparr>) = disp_le s s'" "disp_le (s\<lparr>systasks := x0\<rparr>) s' = disp_le s s'"
  "disp_le s (s'\<lparr>tno_free := x1\<rparr>) = disp_le s s'" "disp_le (s\<lparr>tno_free := x1\<rparr>) s' = disp_le s s'"
  "disp_le s (s'\<lparr>tno_free_counts := x2\<rparr>) = disp_le s s'" "disp_le (s\<lparr>tno_free_counts := x2\<rparr>) s' = disp_le s s'"
  "disp_le s (s'\<lparr>next_user_pid := x3\<rparr>) = disp_le s s'" "disp_le (s\<lparr>next_user_pid := x3\<rparr>) s' = disp_le s s'"
  "disp_le s (s'\<lparr>pid_to_child_hash := x4\<rparr>) = disp_le s s'" "disp_le (s\<lparr>pid_to_child_hash := x4\<rparr>) s' = disp_le s s'"
  "disp_le s (s'\<lparr>waitany_hash := x5\<rparr>) = disp_le s s'" "disp_le (s\<lparr>waitany_hash := x5\<rparr>) s' = disp_le s s'"
  "disp_le s (s'\<lparr>prb := x6\<rparr>) = disp_le s s'" "disp_le (s\<lparr>prb := x6\<rparr>) s' = disp_le s s'"
  "disp_le s (s'\<lparr>oks := x7\<rparr>) = disp_le s s'" "disp_le (s\<lparr>oks := x7\<rparr>) s' = disp_le s s'"
  "disp_le s (s'\<lparr>bcasts := x8\<rparr>) = disp_le s s'" "disp_le (s\<lparr>bcasts := x8\<rparr>) s' = disp_le s s'"
  "disp_le s (s'\<lparr>wait_replies := x9\<rparr>) = disp_le s s'" "disp_le (s\<lparr>wait_replies := x9\<rparr>) s' = disp_le s s'"
  "disp_le s (s'\<lparr>no_reply := x10\<rparr>) = disp_le s s'" "disp_le (s\<lparr>no_reply := x10\<rparr>) s' = disp_le s s'"
  by (simp_all add: disp_le_def)

lemma disp_le_upd_proc:
  "(\<And>p. ign_set (f p) = ign_set p \<and> dfl_set (f p) = dfl_set p) \<Longrightarrow> disp_le s (upd_proc pid f s)"
  by (auto simp: disp_le_def upd_proc_def)

lemma disp_le_step: "disp_le s s' \<Longrightarrow> (\<And>p. ign_set (f p) = ign_set p \<and> dfl_set (f p) = dfl_set p) \<Longrightarrow> disp_le s (upd_proc pid f s')"
  using disp_le_trans disp_le_upd_proc by blast

lemma disp_le_upd_task [simp]: "disp_le s (upd_task pid f s)"
  by (auto simp: upd_task_def intro: disp_le_upd_proc disp_le_procs)

lemma disp_le_next_ok: "next_ok s = (b, s') \<Longrightarrow> disp_le s s'"
  by (auto simp: next_ok_def intro!: disp_le_procs split: list.splits)

lemma disp_le_must: "must s = Some s' \<Longrightarrow> disp_le s s'"
  by (auto simp: must_def split: prod.splits if_splits dest: disp_le_next_ok)

lemma disp_le_destroy_process: "destroy_process s pid = Some s' \<Longrightarrow> disp_le s s'"
  by (auto simp: destroy_process_def disp_le_def split: option.splits if_splits)

lemma disp_le_root_sync: "root_sync s = Some s' \<Longrightarrow> disp_le s s'"
  by (auto simp: root_sync_def sync_confirm_def call_destroy_process_def destroy_process_def upd_proc_def disp_le_def
      split: option.splits reap.splits if_splits)

lemma disp_le_get_process: "get_process s pid = Some (r, s') \<Longrightarrow> disp_le s s'"
  by (auto simp: get_process_def split: if_splits intro: disp_le_root_sync)

lemma disp_le_get_task: "get_task s pid = Some (r, s') \<Longrightarrow> disp_le s s'"
  by (auto simp: get_task_def get_systask_def split: if_splits intro: disp_le_root_sync disp_le_get_process)

lemma disp_le_free_threadno: "free_threadno s t = Some s' \<Longrightarrow> disp_le s s'"
  by (auto simp: free_threadno_def Let_def split: if_splits intro!: disp_le_procs)

lemma disp_le_release_slot: "release_slot s pid t loc = Some s' \<Longrightarrow> disp_le s s'"
  by (auto simp: release_slot_def Let_def split: if_splits option.splits intro!: disp_le_upd_task)

lemma disp_le_free_thread: "free_thread s pid t tid loc = Some s' \<Longrightarrow> disp_le s s'"
  by (auto simp: free_thread_def intro: disp_le_trans [OF disp_le_release_slot disp_le_upd_task])

lemma disp_le_dtor_threads: "dtor_threads s ts = Some s' \<Longrightarrow> disp_le s s'"
proof (induction s ts rule: dtor_threads.induct)
  case (2 s t ts)
  then obtain s1 s2 where "next_ok s = (True, s1)" "free_threadno s1 t = Some s2" "dtor_threads s2 ts = Some s'" "disp_le s2 s'"
    by (auto split: prod.splits option.splits if_splits)
  then show ?case using disp_le_trans disp_le_next_ok disp_le_free_threadno by metis
qed simp

lemma disp_le_task_common_dtor: "task_common_dtor s pid t = Some s' \<Longrightarrow> disp_le s s'"
  by (auto simp: task_common_dtor_def split: option.splits if_splits intro: disp_le_trans [OF disp_le_dtor_threads disp_le_upd_task])

lemma disp_le_claim_slot: "claim_slot s pid t tid m = Some (r, s') \<Longrightarrow> disp_le s s'"
  by (auto simp: claim_slot_def split: option.splits if_splits)

lemma disp_le_allocate_thread:
  assumes "allocate_thread s pid = Some (r, s')"
  shows "disp_le s s'"
proof -
  have a: "disp_le s1 s'" if "claim_slot (s1\<lparr>tno_free := f, tno_free_counts := c\<rparr>) pid t tid m = Some (r, s')" for s1 f c t tid m
    using disp_le_claim_slot [OF that] disp_le_procs [of "s1\<lparr>tno_free := f, tno_free_counts := c\<rparr>" s1] disp_le_trans by simp
  show ?thesis using assms
    by (auto simp: allocate_thread_def Let_def split: option.splits if_splits dest!: a disp_le_get_task intro: disp_le_trans)
qed

section \<open>Signals\<close>

lemma disp_le_sig_remove_helper: "sig_remove_helper s pid = Some s' \<Longrightarrow> disp_le s s'"
proof -
  assume "sig_remove_helper s pid = Some s'"
  then show ?thesis
    by (auto simp: sig_remove_helper_def split: option.splits dest!: disp_le_must disp_le_free_thread disp_le_free_threadno
        intro!: disp_le_step intro: disp_le_trans)
qed

lemma disp_le_add_pending [simp]: "disp_le s (add_pending pid sig s)"
  unfolding add_pending_def by (rule disp_le_upd_proc) simp

lemma disp_le_sig_deliver:
  assumes "sig_deliver s pid sig self = Some s'"
  shows "disp_le s s'"
proof -
  have *: "disp_le s0 s'" if h: "Option.bind (must (upd_proc pid (\<lambda>p. p\<lparr>sighelper_tid := tid, sighelper_utcb := loc\<rparr>) s0)) must = Some s1"
    "s' = add_pending pid sig s1" for tid loc s0 s1
  proof -
    obtain s2 where "must (upd_proc pid (\<lambda>p. p\<lparr>sighelper_tid := tid, sighelper_utcb := loc\<rparr>) s0) = Some s2" "must s2 = Some s1"
      using h(1) by (cases "must (upd_proc pid (\<lambda>p. p\<lparr>sighelper_tid := tid, sighelper_utcb := loc\<rparr>) s0)") auto
    moreover have "disp_le s0 (upd_proc pid (\<lambda>p. p\<lparr>sighelper_tid := tid, sighelper_utcb := loc\<rparr>) s0)"
      by (rule disp_le_upd_proc) simp
    ultimately show ?thesis unfolding h(2) using disp_le_must disp_le_add_pending disp_le_trans by metis
  qed
  show ?thesis using assms
    by (auto simp: sig_deliver_def split: option.splits if_splits dest!: * disp_le_allocate_thread
        intro: disp_le_add_pending disp_le_trans)
qed

lemma disp_le_sig_send_with:
  assumes "sig_send_with d s pid sig self = Some s'" "\<And>b s1. d s pid sig = Some (b, s1) \<Longrightarrow> disp_le s s1"
  shows "disp_le s s'"
  using assms(1)
  by (auto simp: sig_send_with_def split: option.splits if_splits dest!: assms(2) disp_le_sig_deliver)

lemma disp_le_sig_default_ign: "sig_default_ign s pid sig = Some (b, s') \<Longrightarrow> disp_le s s'"
  by (auto simp: sig_default_ign_def split: option.splits if_splits)

lemma disp_le_find_parent: "find_parent s pid = Some (q, s') \<Longrightarrow> disp_le s s'"
proof -
  assume a: "find_parent s pid = Some (q, s')"
  have "disp_le s s'" if "disp_le (upd_proc pid (ppid_update (\<lambda>_. Suc 0)) b) s'" "disp_le s b" for b
    using that disp_le_trans [OF disp_le_step [OF that(2), of "ppid_update (\<lambda>_. Suc 0)"]] by simp
  then show ?thesis using a
    by (auto simp: find_parent_def split: option.splits if_splits dest!: disp_le_get_process)
qed

lemma disp_le_find_waiter: "find_waiter s pid q = (w, s') \<Longrightarrow> disp_le s s'"
  by (auto simp: find_waiter_def Let_def split: option.splits if_splits list.splits intro!: disp_le_step)

lemma disp_le_zombify:
  assumes "zombify s pid = Some s'"
  shows "disp_le s s'"
proof -
  obtain p s1 s2 q s3 s4 where st: "procs s pid = Some p"
    "(if sighelper_tid p \<noteq> nil_tid then sig_remove_helper s pid else Some s) = Some s1"
    "process_dtor s1 pid = Some s2" "find_parent s2 pid = Some (q, s3)" "sig_send_with sig_default_ign s3 q SIGCHLD False = Some s4"
    using assms by (auto simp: zombify_def split: option.splits)
  have "disp_le s s1" using st(2) by (auto split: if_splits dest: disp_le_sig_remove_helper)
  also have "disp_le s1 s2" using st(3) by (auto simp: process_dtor_def split: option.splits dest: disp_le_task_common_dtor)
  also have "disp_le s2 s3" by (rule disp_le_find_parent [OF st(4)])
  also have "disp_le s3 s4" by (rule disp_le_sig_send_with [OF st(5)]) (rule disp_le_sig_default_ign)
  finally have s4: "disp_le s s4" .
  obtain w s5 where w: "find_waiter s4 pid q = (w, s5)" by fastforce
  have s5: "disp_le s s5" using disp_le_trans [OF s4 disp_le_find_waiter [OF w]] .
  obtain b s6 where o: "(if w \<noteq> nil_tid then next_ok (s5\<lparr>bcasts := bcasts s5 @ [exit_msg pid p]\<rparr>)
      else (False, s5\<lparr>bcasts := bcasts s5 @ [exit_msg pid p]\<rparr>)) = (b, s6)" by fastforce
  have s6: "disp_le s s6" using o s5 disp_le_next_ok disp_le_trans by (auto split: if_splits) fastforce
  have z: "(if b then destroy_process (s6\<lparr>wait_replies := wait_replies s6 @ [(w, pid, signo p, status p, code p)]\<rparr>) pid
      else Some (upd_proc q (\<lambda>p. p\<lparr>dead_list := dead_list p @ [pid]\<rparr>) s6)) = Some s'"
    using assms unfolding zombify_def st(1) option.case st(2-5) prod.case w Let_def o by simp
  show ?thesis
    using z s6 by (auto split: if_splits dest!: disp_le_destroy_process intro: disp_le_trans intro!: disp_le_step)
qed

lemma disp_le_sig_default: "sig_default s pid sig = Some (b, s') \<Longrightarrow> disp_le s s'"
proof -
  assume a: "sig_default s pid sig = Some (b, s')"
  let ?u = "\<lambda>p. p\<lparr>code := CLD_KILLED, signo := int sig, status := 0\<rparr>"
  have "disp_le s (upd_proc pid ?u s)" by (rule disp_le_upd_proc) simp
  then have "zombify (upd_proc pid ?u s) pid = Some s' \<Longrightarrow> disp_le s s'" using disp_le_zombify disp_le_trans by blast
  then show ?thesis using a by (auto simp: sig_default_def split: if_splits dest: disp_le_sig_default_ign)
qed

lemma disp_le_sig_send: "sig_send s pid sig self = Some s' \<Longrightarrow> disp_le s s'"
  unfolding sig_send_def by (erule disp_le_sig_send_with) (rule disp_le_sig_default)

lemma disp_le_trigger: "trigger s pid bs = Some s' \<Longrightarrow> disp_le s s'"
proof (induction s pid bs rule: trigger.induct)
  case (2 s pid b bs)
  then show ?case by (auto split: option.splits dest!: disp_le_sig_send intro: disp_le_trans)
qed simp

section \<open>The calls\<close>

lemma disp_ok_frame [simp]:
  "disp_ok (s\<lparr>systasks := x0\<rparr>) = disp_ok s"
  "disp_ok (s\<lparr>tno_free := x1\<rparr>) = disp_ok s"
  "disp_ok (s\<lparr>tno_free_counts := x2\<rparr>) = disp_ok s"
  "disp_ok (s\<lparr>next_user_pid := x3\<rparr>) = disp_ok s"
  "disp_ok (s\<lparr>pid_to_child_hash := x4\<rparr>) = disp_ok s"
  "disp_ok (s\<lparr>waitany_hash := x5\<rparr>) = disp_ok s"
  "disp_ok (s\<lparr>prb := x6\<rparr>) = disp_ok s"
  "disp_ok (s\<lparr>oks := x7\<rparr>) = disp_ok s"
  "disp_ok (s\<lparr>bcasts := x8\<rparr>) = disp_ok s"
  "disp_ok (s\<lparr>wait_replies := x9\<rparr>) = disp_ok s"
  "disp_ok (s\<lparr>no_reply := x10\<rparr>) = disp_ok s"
  by (simp_all add: disp_ok_def)

lemma disp_ok_upd_proc:
  "disp_ok s \<Longrightarrow> (\<And>p. procs s pid = Some p \<Longrightarrow> ign_set (f p) AND dfl_set (f p) = 0) \<Longrightarrow> disp_ok (upd_proc pid f s)"
  by (auto simp: disp_ok_def upd_proc_def)

lemma disp_okD: "disp_ok s \<Longrightarrow> procs s pid = Some p \<Longrightarrow> ign_set p AND dfl_set p = 0"
  by (auto simp: disp_ok_def)

lemma get_process_Some:
  assumes "get_process s (int pid) = Some (Some p, s')"
  shows "procs s' pid = Some p" "proc_at s' pid = Some p"
  using assms by (auto simp: get_process_def proc_at_def split: if_splits option.splits)

lemma disp_le_kill: "root_uapi_kill vm s sender pid sig = Some (n, s') \<Longrightarrow> disp_le s s'"
  by (auto simp: root_uapi_kill_def Let_def split: option.splits if_splits prod.splits
      dest!: disp_le_get_process disp_le_next_ok disp_le_sig_send) (meson disp_le_trans)+

lemma disp_le_sigconfig: "root_uapi_sigconfig s pid addr = Some (d, n, s') \<Longrightarrow> disp_le s s'"
  by (auto simp: root_uapi_sigconfig_def split: option.splits if_splits dest!: disp_le_get_process intro!: disp_le_step)

lemma disp_le_sigsuspend: "root_uapi_sigsuspend s pid m = Some (n, s') \<Longrightarrow> disp_le s s'"
  by (auto simp: root_uapi_sigsuspend_def Let_def split: option.splits if_splits dest!: disp_le_get_process intro!: disp_le_step)

lemma disp_le_exit: "uapi_exit s pid st = Some s' \<Longrightarrow> disp_le s s'"
proof -
  assume a: "uapi_exit s pid st = Some s'"
  let ?u = "\<lambda>p. p\<lparr>code := CLD_EXITED, status := to_short st, signo := 0\<rparr>"
  have z: "disp_le s0 s1" if "zombify (upd_proc pid ?u s0) pid = Some s1" for s0 s1
    using disp_le_trans [OF disp_le_upd_proc disp_le_zombify [OF that]] by simp
  have "disp_le s0 s1" if "destroy_systask s0 pid t = Some s1" for s0 s1 t
    using that by (auto simp: destroy_systask_def dest: disp_le_task_common_dtor)
  then show ?thesis using a
    by (auto simp: uapi_exit_def get_systask_def split: option.splits if_splits dest!: z disp_le_get_process disp_le_root_sync intro: disp_le_trans)
qed

lemma disp_le_wait_target: "wait_target s c k i = Some (r, s') \<Longrightarrow> disp_le s s'"
  by (auto simp: wait_target_def split: option.splits if_splits list.splits dest!: disp_le_get_process)

lemma disp_le_wait:
  assumes "uapi_wait s sender tag c k i opts = Some (r, s')"
  shows "disp_le s s'"
proof -
  have u: "disp_le s0 s1" if "must (upd_proc c (\<lambda>p. p\<lparr>pflags := pflags p OR PF_WAIT_ANY\<rparr>) s0) = Some s1" for s0 s1
    using disp_le_trans [OF disp_le_upd_proc disp_le_must [OF that]] by simp
  show ?thesis using assms
    by (auto simp: uapi_wait_def split: option.splits if_splits sum.splits
        dest!: disp_le_get_process disp_le_wait_target u intro!: disp_le_step) (meson disp_le_trans)+
qed

lemma disp_le_create_thread: "uapi_create_thread s pid = Some (n, tid, s') \<Longrightarrow> disp_le s s'"
proof -
  assume a: "uapi_create_thread s pid = Some (n, tid, s')"
  have "disp_le s0 s1" if "make_space s0 = Some s1" for s0 s1
    using that disp_le_must disp_le_trans by (cases "must s0") (auto simp: make_space_def, blast)
  then show ?thesis using a
    by (auto simp: uapi_create_thread_def split: option.splits if_splits dest!: disp_le_get_task disp_le_allocate_thread disp_le_must)
      (meson disp_le_trans)+
qed

lemma disp_le_remove_thread: "uapi_remove_thread s sender pid tid loc = Some (n, s') \<Longrightarrow> disp_le s s'"
proof -
  assume a: "uapi_remove_thread s sender pid tid loc = Some (n, s')"
  have "disp_le s0 s1" if "free_threadno (upd_task pid f s0) tid = Some s1" for s0 s1 f
    using disp_le_trans [OF disp_le_upd_task disp_le_free_threadno [OF that]] .
  then show ?thesis using a
    by (auto simp: uapi_remove_thread_def split: option.splits if_splits dest!: disp_le_get_task disp_le_release_slot disp_le_must)
      (meson disp_le_trans)+
qed

lemma disp_le_setresugid: "uapi_setresugid s pid mode r e sv = Some (n, s') \<Longrightarrow> disp_le s s'"
  by (auto simp: uapi_setresugid_def set_uids_def split: option.splits sum.splits dest!: disp_le_get_process intro!: disp_le_step)

lemma disp_le_prlimit: "uapi_prlimit s sender pid res new = Some (n, r, s') \<Longrightarrow> disp_le s s'"
  by (auto simp: uapi_prlimit_def Let_def split: option.splits if_splits dest!: disp_le_get_process intro!: disp_le_step)

lemma disp_le_getresugid: "uapi_getresugid s pid = Some (u, g, s') \<Longrightarrow> disp_le s s'"
  by (auto simp: uapi_getresugid_def dest!: disp_le_get_process)

text \<open>A change of one set clears what changed from the other, so the two stay disjoint.\<close>

lemma toggled_disjoint:
  fixes a b c :: u64
  assumes "a AND b = 0"
  shows "c AND (b AND NOT (a XOR c)) = 0"
proof (rule bit_word_eqI)
  fix n :: nat
  have "\<not> (bit a n \<and> bit b n)" using assms by (metis bit_0_eq bot_apply bot_bool_def bit_and_iff)
  then show "bit (c AND (b AND NOT (a XOR c))) n = bit (0 :: u64) n" by (auto simp: bit_simps)
qed

lemma disp_ok_sigset:
  assumes "root_uapi_sigset s sender pid k or_bits and_bits = Some (r, s')" "disp_ok s"
  shows "disp_ok s'"
proof -
  obtain p s1 where g: "get_process s (int pid) = Some (Some p, s1)"
    using assms(1) by (auto simp: root_uapi_sigset_def split: option.splits)
  have ok: "disp_ok s1" by (rule disp_le_ok [OF disp_le_get_process [OF g] assms(2)])
  have m: "disp_le s1 s'" if h: "sigset_mask s1 pid p or_bits and_bits = Some (r, s')"
  proof -
    let ?u = "\<lambda>q. q\<lparr>mask_set := (mask_set q AND and_bits) OR or_bits, pending_set := pending_set q AND NOT (pending_set p AND (mask_set p AND NOT and_bits))\<rparr>"
    obtain bs where "trigger (upd_proc pid ?u s1) pid bs = Some s'"
      using h unfolding sigset_mask_def Let_def by (auto split: if_splits)
    then show ?thesis using disp_le_trans [OF disp_le_upd_proc [of ?u s1 pid] disp_le_trigger] by simp
  qed
  have q: "disp_le s1 s'" if "sigset_pending s1 pid p c and_bits = Some (r, s')" for c
    using that by (auto simp: sigset_pending_def Let_def split: if_splits intro!: disp_le_upd_proc)
  have h: "disp_le s1 s2" if "sig_remove_helper s1 pid = Some s2" for s2 by (rule disp_le_sig_remove_helper [OF that])
  show ?thesis
    using assms(1) g ok
    by (auto simp: root_uapi_sigset_def Let_def split: if_splits intro!: disp_ok_upd_proc
        dest: m [THEN disp_le_ok] q [THEN disp_le_ok] h [THEN disp_le_ok])
qed

lemma disp_ok_alloc_process_loop: "alloc_process_loop raw n s = Some (r, s') \<Longrightarrow> disp_ok s \<Longrightarrow> disp_ok s'"
proof (induction n arbitrary: s)
  case (Suc n)
  obtain pid s1 where n: "next_pid s = Some (pid, s1)" using Suc.prems(1) by (auto split: option.splits)
  have ok1: "disp_ok s1" using n Suc.prems(2) by (auto simp: next_pid_def Let_def split: if_splits)
  obtain ok s2 where ra: "ra_alloc raw s1 pid = (ok, s2)" by fastforce
  obtain bs where s2: "s2 = (if ok then s1\<lparr>procs := (procs s1)(pid \<mapsto> raw pid), oks := bs\<rparr> else s1\<lparr>oks := bs\<rparr>)"
    using ra_alloc_eq(1) [OF ra] by blast
  show ?case
  proof (cases ok)
    case True
    then have "s' = s1\<lparr>procs := (procs s1)(pid \<mapsto> process_ctor (raw pid)), oks := bs\<rparr>"
      using Suc.prems(1) n ra s2 by (simp add: upd_proc_new)
    then show ?thesis using ok1 by (simp add: disp_ok_def process_ctor_def)
  next
    case False
    then show ?thesis using Suc n ra s2 ok1 by simp
  qed
qed simp

lemma disp_ok_fork:
  assumes "uapi_fork raw vm_n s pid = Some (n, tid, s')" "disp_ok s"
  shows "disp_ok s'"
proof (cases "IS_SYSTASK pid")
  case True
  then show ?thesis using assms by (simp add: uapi_fork_def)
next
  case False
  obtain src s1 where g: "get_process s (int pid) = Some (Some src, s1)"
    using assms(1) False by (auto simp: uapi_fork_def split: option.splits)
  have ok1: "disp_ok s1" by (rule disp_le_ok [OF disp_le_get_process [OF g] assms(2)])
  obtain r s2 where a: "alloc_process raw s1 = Some (r, s2)"
    using assms(1) False g by (auto simp: uapi_fork_def split: option.splits)
  have ok2: "disp_ok s2" using disp_ok_alloc_process_loop a ok1 unfolding alloc_process_def by blast
  have src: "ign_set src AND dfl_set src = 0" by (rule disp_okD [OF ok1 get_process_Some(1) [OF g]])
  have bm: "disp_ok s4" if "alloc_utcb_bitmap s3 k = (b, s4)" "disp_ok s3" for s3 s4 k b
    using that disp_le_ok [OF disp_le_next_ok] by (auto simp: alloc_utcb_bitmap_def split: prod.splits)
  have st: "disp_ok s4" if h: "fork_start s3 q = Some (u, s4)" "disp_ok s3" for s3 s4 q u
  proof -
    obtain s5 r where "allocate_thread s3 q = Some (r, s5)" "Option.bind (Option.bind (make_space s5) must) must = Some s4"
      using h(1) by (auto simp: fork_start_def split: option.splits)
    then show ?thesis
      using disp_le_ok [OF disp_le_allocate_thread] disp_le_ok [OF disp_le_must] h(2)
      by (auto simp: make_space_def bind_eq_Some_conv)
  qed
  show ?thesis
  proof (cases r)
    case None
    then show ?thesis using assms(1) False g a ok2 by (simp add: uapi_fork_def)
  next
    case (Some new)
    let ?t = "\<lparr>kip_area = kip_area (task src), utcb_area = utcb_area (task src), utcb_free = [], threads = []\<rparr>"
    let ?s3 = "upd_proc new (\<lambda>p. p\<lparr>task := ?t\<rparr>) s2"
    have ok3: "disp_ok ?s3" using ok2 disp_le_ok [OF disp_le_upd_proc] by simp
    obtain b s4 where b: "alloc_utcb_bitmap ?s3 (case utcb_area (task src) of None \<Rightarrow> 0 | Some (_, sz) \<Rightarrow> sz) = (b, s4)" by fastforce
    note ok4 = bm [OF b ok3]
    show ?thesis
    proof (cases b)
      case None
      then show ?thesis using assms(1) False g a Some b ok4 by (simp add: uapi_fork_def Let_def)
    next
      case (Some m)
      let ?s5 = "upd_proc new (\<lambda>p. fork_copy pid src (p\<lparr>task := (task p)\<lparr>utcb_free := m\<rparr>\<rparr>)) s4"
      have ok5: "disp_ok ?s5" using src by (intro disp_ok_upd_proc [OF ok4]) (simp add: fork_copy_def)
      obtain ok s6 where n: "next_ok ?s5 = (ok, s6)" by fastforce
      have ok6: "disp_ok s6" by (rule disp_le_ok [OF disp_le_next_ok [OF n] ok5])
      show ?thesis
        using assms(1) False g a \<open>r = Some new\<close> b Some n ok6
        by (auto simp: uapi_fork_def Let_def split: if_splits dest!: st)
    qed
  qed
qed

lemma disp_le_alloc_utcb: "alloc_utcb_bitmap s k = (b, s') \<Longrightarrow> disp_le s s'"
  by (auto simp: alloc_utcb_bitmap_def split: prod.splits dest: disp_le_next_ok)

lemma disp_le_launch: "launch_process s pid = Some (n, s') \<Longrightarrow> disp_le s s'"
proof -
  assume a: "launch_process s pid = Some (n, s')"
  then obtain r s1 where r: "allocate_thread s pid = Some (r, s1)" by (auto simp: launch_process_def split: option.splits)
  have "disp_le s1 s'" using a r disp_le_must disp_le_trans
    by (auto simp: launch_process_def make_space_def bind_eq_Some_conv split: option.splits) metis
  then show ?thesis using disp_le_allocate_thread [OF r] disp_le_trans by blast
qed

lemma disp_le_configure:
  assumes "configure e s pid lo hi = Some (n, s')"
  shows "disp_le s s'"
proof -
  obtain utcb kip where a: "configure_areas lo hi (ex_kip_size e) = Some (utcb, kip)" using assms by (auto simp: configure_def split: option.splits)
  let ?t = "\<lparr>kip_area = kip, utcb_area = Some (utcb, 19), utcb_free = [], threads = []\<rparr>"
  obtain b s1 where b: "alloc_utcb_bitmap (upd_proc pid (\<lambda>p. p\<lparr>task := ?t\<rparr>) s) 19 = (b, s1)" by fastforce
  have s1: "disp_le s s1" using disp_le_trans [OF disp_le_upd_proc disp_le_alloc_utcb [OF b]] by simp
  show ?thesis
  proof (cases b)
    case None
    then show ?thesis using assms a b s1 by (simp add: configure_def)
  next
    case (Some bm)
    have "disp_le s (upd_proc pid (\<lambda>p. p\<lparr>task := (task p)\<lparr>utcb_free := bm\<rparr>\<rparr>) s1)" by (rule disp_le_step [OF s1]) simp
    then show ?thesis using assms a b Some by (auto simp: configure_def Let_def split: if_splits prod.splits)
  qed
qed

lemma disp_le_start_program:
  assumes "start_program e tell s pid lo hi = Some (n, s')"
  shows "disp_le s s'"
proof (cases "ex_load e = 0")
  case True
  obtain k s1 where c: "configure e s pid lo hi = Some (k, s1)" using assms True by (auto simp: start_program_def split: option.splits)
  have "disp_le s1 s'"
    using assms True c by (auto simp: start_program_def split: if_splits dest!: disp_le_launch)
  then show ?thesis using disp_le_configure [OF c] disp_le_trans by blast
qed (use assms in \<open>simp add: start_program_def\<close>)

lemma disp_le_exec:
  assumes "uapi_exec e s pid = Some (n, s')"
  shows "disp_le s s'"
proof (cases "IS_SYSTASK pid")
  case False
  obtain p s1 where g: "get_process s (int pid) = Some (Some p, s1)" using assms False by (auto simp: uapi_exec_def split: option.splits)
  have d: "disp_le s1 s2" if "process_dtor s1 pid = Some s2" for s2
    using that by (auto simp: process_dtor_def split: option.splits dest: disp_le_task_common_dtor)
  have "disp_le s1 s'" using assms False g
    by (auto simp: uapi_exec_def Let_def split: if_splits sum.splits option.splits dest!: d disp_le_start_program) (meson disp_le_trans)+
  then show ?thesis using disp_le_get_process [OF g] disp_le_trans by blast
qed (use assms in \<open>simp add: uapi_exec_def\<close>)

lemma disp_ok_drop: "disp_ok s \<Longrightarrow> disp_ok (s\<lparr>procs := (procs s)(pid := None)\<rparr>)"
  by (auto simp: disp_ok_def)

lemma disp_ok_spawn:
  assumes "uapi_spawn e raw s pid = Some (n, s')" "disp_ok s"
  shows "disp_ok s'"
proof (cases "ex_open e = 0 \<and> (\<exists>x. ex_image e = Inr x)")
  case False
  then show ?thesis using assms by (cases "ex_image e") (auto simp: uapi_spawn_def split: if_splits)
next
  case True
  then obtain lo hi where x: "ex_open e = 0" "ex_image e = Inr (lo, hi)" by auto
  obtain r s2 where a: "alloc_process raw s = Some (r, s2)" using assms(1) x by (auto simp: uapi_spawn_def split: option.splits)
  have ok2: "disp_ok s2" using disp_ok_alloc_process_loop a assms(2) unfolding alloc_process_def by blast
  show ?thesis
  proof (cases r)
    case None
    then show ?thesis using assms(1) x a ok2 by (simp add: uapi_spawn_def)
  next
    case (Some new)
    obtain b s3 where o: "spawn_owner s2 pid new = Some (b, s3)" using assms(1) x a Some by (auto simp: uapi_spawn_def split: option.splits)
    have "disp_le s2 s3" using o
      by (auto simp: spawn_owner_def split: if_splits option.splits dest!: disp_le_get_process intro!: disp_le_step)
    then have ok3: "disp_ok s3" using ok2 by (rule disp_le_ok)
    show ?thesis
      using assms(1) x a Some o ok3
      by (auto simp: uapi_spawn_def Let_def split: bool.splits if_splits option.splits intro!: disp_ok_drop
          dest!: disp_le_start_program [THEN disp_le_ok])
  qed
qed

section \<open>All calls\<close>

inductive root_step :: "root \<Rightarrow> root \<Rightarrow> bool" where
  step_kill: "root_uapi_kill vm s sender pid sig = Some (n, s') \<Longrightarrow> root_step s s'"
| step_sigconfig: "root_uapi_sigconfig s caller addr = Some (d, k, s') \<Longrightarrow> root_step s s'"
| step_sigset: "root_uapi_sigset s tid caller j or_bits and_bits = Some (w, s') \<Longrightarrow> root_step s s'"
| step_sigsuspend: "root_uapi_sigsuspend s caller m = Some (n, s') \<Longrightarrow> root_step s s'"
| step_exit: "uapi_exit s caller st = Some s' \<Longrightarrow> root_step s s'"
| step_wait: "uapi_wait s tid tag caller j i opts = Some (r, s') \<Longrightarrow> root_step s s'"
| step_fork: "uapi_fork raw vm_n s caller = Some (n, tid, s') \<Longrightarrow> root_step s s'"
| step_spawn: "uapi_spawn e raw s caller = Some (n, s') \<Longrightarrow> root_step s s'"
| step_exec: "uapi_exec e s caller = Some (n, s') \<Longrightarrow> root_step s s'"
| step_create: "uapi_create_thread s caller = Some (n, tid, s') \<Longrightarrow> root_step s s'"
| step_remove: "uapi_remove_thread s tid caller u loc = Some (n, s') \<Longrightarrow> root_step s s'"
| step_getresugid: "uapi_getresugid s caller = Some (us, gs, s') \<Longrightarrow> root_step s s'"
| step_setresugid: "uapi_setresugid s caller mode r1 e1 v1 = Some (n, s') \<Longrightarrow> root_step s s'"
| step_prlimit: "uapi_prlimit s caller target res lim = Some (n, old, s') \<Longrightarrow> root_step s s'"

lemma root_step_disp_ok: "root_step s s' \<Longrightarrow> disp_ok s \<Longrightarrow> disp_ok s'"
  by (induction rule: root_step.induct)
    (blast intro: disp_ok_sigset disp_ok_fork disp_ok_spawn disp_le_exec disp_le_ok disp_le_kill disp_le_sigconfig disp_le_sigsuspend disp_le_exit disp_le_wait
      disp_le_create_thread disp_le_remove_thread disp_le_getresugid disp_le_setresugid disp_le_prlimit)+

text \<open>
  C23. No sequence of calls to the process server makes a signal both ignored and default for a process,
  and the assertion to that effect in sigset never fails: setting the ignored or the default set of
  any live process always returns.
\<close>

theorem dispositions_disjoint:
  assumes "root_step\<^sup>*\<^sup>* s s'" "disp_ok s"
  shows "(\<forall>pid p. procs s' pid = Some p \<longrightarrow> ign_set p AND dfl_set p = 0)
    \<and> (\<forall>pid p s'' tid j or_bits and_bits. get_process s' (int pid) = Some (Some p, s'') \<and> j < 2
        \<longrightarrow> root_uapi_sigset s' tid pid j or_bits and_bits \<noteq> None)"
proof -
  have ok: "disp_ok s'" using assms by (induction rule: rtranclp_induct) (auto intro: root_step_disp_ok)
  have "root_uapi_sigset s' tid pid j or_bits and_bits \<noteq> None"
    if g: "get_process s' (int pid) = Some (Some p, s'')" and j: "j < 2" for pid p s'' j tid or_bits and_bits
  proof -
    have d: "ign_set p AND dfl_set p = 0"
      using disp_okD [OF disp_le_ok [OF disp_le_get_process [OF g] ok] get_process_Some(1) [OF g]] .
    have "j = 0 \<or> j = 1" using j by auto
    moreover have "dfl_set p AND ign_set p = 0" using d by (simp add: and.commute)
    ultimately show ?thesis using g toggled_disjoint [OF d] toggled_disjoint [of "dfl_set p" "ign_set p"]
      by (auto simp: root_uapi_sigset_def Let_def and.commute)
  qed
  then show ?thesis using ok unfolding disp_ok_def by blast
qed

theorem dispositions_disjoint_witness:
  "root_uapi_sigset demo_root nil_tid 7 0 5 0 \<noteq> None"
proof -
  have "disp_ok demo_root" by (simp add: disp_ok_def demo_root_def demo_process_def)
  moreover have "get_process demo_root 7 = Some (Some demo_process, demo_root)"
    using get_process_idle [of demo_root 7] demo_root_idle by simp
  ultimately show ?thesis using dispositions_disjoint [of demo_root demo_root] by force
qed

end
