(* ===== verification/Proc_Kill.thy ===== *)
theory Proc_Kill
  imports Proc_Exit
begin

text \<open>Sending signals: who may, and what the signals that end a process do.\<close>

definition killed :: "nat \<Rightarrow> process \<Rightarrow> process" where
  "killed sig p = p\<lparr>code := CLD_KILLED, signo := int sig, status := 0\<rparr>"

lemma kill_permitted:
  assumes "idle s" "0 < pid" "pid \<le> SNEKS_MAX_PID" "proc_at s pid = Some p"
    and "0 < sender" "sender \<le> SNEKS_MAX_PID" "proc_at s sender = Some q" "sender \<noteq> vm" "may_signal q p" "0 < sig" "sig \<le> 64"
  shows "root_uapi_kill vm s sender (int pid) (int sig) = map_option (\<lambda>s. (0, s)) (sig_send s pid sig (pid = sender))"
  using assms get_process_idle [of s pid] get_process_idle [of s sender]
  by (simp add: root_uapi_kill_def IS_SYSTASK_def)

lemma sig_send_fatal:
  assumes "procs s pid = Some p" "sig \<in> {SIGSEGV, SIGABRT, SIGKILL, SIGTERM}" "(mask_set p OR pending_set p) AND sig_bit sig = 0"
    "dfl_set p AND sig_bit sig \<noteq> 0" "ign_set p AND sig_bit sig = 0"
  shows "sig_send s pid sig False = zombify (s\<lparr>procs := (procs s)(pid \<mapsto> killed sig p)\<rparr>) pid"
proof -
  have "mask_set p AND sig_bit sig = 0 \<and> pending_set p AND sig_bit sig = 0"
    using assms(3) by (simp add: bit_eq_iff bit_simps) blast
  moreover have "1 \<le> sig \<and> sig \<le> 64" using assms(2) by auto
  ultimately show ?thesis
    using assms(1,2,4,5)
    by (simp add: sig_send_def sig_send_with_def sig_default_def upd_proc_def killed_def option.map_comp o_def
        option.map_ident del: insert_iff)
qed

lemma kill_ends:
  assumes inv: "threads_inv s" and s: "idle s" "oks s = []"
    and snd: "0 < sender" "sender \<le> SNEKS_MAX_PID" "proc_at s sender = Some q" "sender \<noteq> vm" "sender \<noteq> pid"
    and pid: "0 < pid" "pid \<le> SNEKS_MAX_PID" "proc_at s pid = Some p" "sighelper_tid p = nil_tid" "wait_tid p = nil_tid"
    and par: "0 < ppid p" "ppid p \<le> SNEKS_MAX_PID" "ppid p \<noteq> pid" "proc_at s (ppid p) = Some par" "chld_default par" "pflags par AND PF_WAIT_ANY = 0"
    and sig: "sig \<in> {SIGSEGV, SIGABRT, SIGKILL, SIGTERM}" "(mask_set p OR pending_set p) AND sig_bit sig = 0"
      "dfl_set p AND sig_bit sig \<noteq> 0" "ign_set p AND sig_bit sig = 0" and True: "may_signal q p"
  shows "\<exists>s1 s2. root_uapi_kill vm s sender (int pid) (int sig) = Some (0, s1) \<and> threads_of s1 pid = []
       \<and> (\<forall>t \<in> set (threads_of s pid). tno_free s1 (tno t))
       \<and> uapi_wait s1 tid tag (ppid p) 1 (int pid) opts = Some (W_Reap pid (int sig) 0 CLD_KILLED, s2)"
proof -
  have p: "procs s pid = Some p" "utcb_area (task p) \<noteq> None" using pid(3) by (auto simp: proc_at_def split: option.splits if_splits)
  let ?k = "killed sig p" and ?s = "s\<lparr>procs := (procs s)(pid \<mapsto> killed sig p)\<rparr>"
  have k: "procs ?s pid = Some ?k" "utcb_area (task ?k) \<noteq> None" "sighelper_tid ?k = nil_tid" "wait_tid ?k = nil_tid" "ppid ?k = ppid p"
    using p(2) pid(4,5) by (simp_all add: killed_def)
  have th: "threads_of ?s r = threads_of s r" for r using p(1) by (auto simp: threads_of_def killed_def)
  have inv': "threads_inv ?s" by (rule threads_inv_mono [OF inv]) (simp_all add: th)
  have s': "idle ?s" "oks ?s = []" "proc_at ?s (ppid p) = Some par"
    using s par(3,4) by (simp_all add: idle_def proc_at_def)
  obtain c where z: "zombify ?s pid = Some (?s\<lparr>tno_free := \<lambda>n. tno_free s n \<or> n \<in> tno ` set (threads_of s pid), tno_free_counts := c,
       procs := (procs ?s)(pid \<mapsto> zombie ?k, ppid p \<mapsto> par\<lparr>dead_list := dead_list par @ [pid]\<rparr>), bcasts := bcasts s @ [exit_msg pid ?k]\<rparr>)"
    (is "_ = Some ?s1")
    using zombify_unwaited [OF inv' s'(1,2) k(1,2) pid(2) k(3,4), of par] par s'(3) unfolding k(5) th by auto
  have "0 < sig \<and> sig \<le> 64" using sig(1) by auto
  then have "root_uapi_kill vm s sender (int pid) (int sig) = Some (0, ?s1)"
    using kill_permitted [OF s(1) pid(1-3) snd(1-4) True, of sig] sig_send_fatal [OF p(1) sig] z snd(5) by simp
  moreover have "idle ?s1" using s(1) by (simp add: idle_def)
  moreover have zk: "procs ?s1 pid = Some (zombie ?k)" using par(3) by simp
  moreover have "threads_of ?s1 pid = []" using zk pid(2) by (simp add: threads_of_def IS_SYSTASK_def zombie_def)
  moreover have "ppid (zombie ?k) = ppid p" "signo (zombie ?k) = int sig" "status (zombie ?k) = 0" "code (zombie ?k) = CLD_KILLED"
    "utcb_area (task (zombie ?k)) \<noteq> None" "threads (task (zombie ?k)) = []"
    using k(2) by (simp_all add: zombie_def killed_def)
  ultimately show ?thesis
    using wait_reaps [of ?s1 pid "zombie ?k" tid tag opts] pid(1,2) par(1,2) True by simp
qed


lemma demo_family_procs:
  "idle demo_family" "oks demo_family = []" "proc_at demo_family 1 = Some (demo_process\<lparr>ppid := 0\<rparr>)" "proc_at demo_family 7 = Some demo_process"
  by (simp_all add: demo_family_def demo_root_def uapi_init_def idle_def proc_at_def demo_process_def)


text \<open>
  C34. A process can shield itself from SIGKILL: while the signal is in its mask or its ignored set,
  a permitted kill returns success and no thread of any task is removed.
\<close>

theorem sigkill_can_be_blocked:
  assumes "idle s" "0 < pid" "pid \<le> SNEKS_MAX_PID" "proc_at s pid = Some p"
    and "0 < sender" "sender \<le> SNEKS_MAX_PID" "proc_at s sender = Some q" "sender \<noteq> vm" "may_signal q p"
    and blocked: "mask_set p AND sig_bit SIGKILL \<noteq> 0 \<or> ign_set p AND sig_bit SIGKILL \<noteq> 0 \<and> dfl_set p AND sig_bit SIGKILL = 0"
  shows "\<exists>s'. root_uapi_kill vm s sender (int pid) (int SIGKILL) = Some (0, s') \<and> (\<forall>r. threads_of s' r = threads_of s r)"
proof -
  have p: "procs s pid = Some p" using assms(4) by (auto simp: proc_at_def split: option.splits if_splits)
  have "\<exists>s'. sig_send s pid SIGKILL (pid = sender) = Some s' \<and> (\<forall>r. threads_of s' r = threads_of s r)"
    using blocked p by (auto simp: sig_send_def sig_send_with_def add_pending_def upd_proc_def threads_of_def)
  then show ?thesis using kill_permitted [OF assms(1-9), of SIGKILL] by auto
qed

theorem sigkill_can_be_blocked_witness:
  "\<exists>s'. root_uapi_kill 0 (upd_proc 7 (\<lambda>p. p\<lparr>mask_set := NOT 0\<rparr>) demo_family) 1 7 9 = Some (0, s') \<and> threads_of s' 7 = []"
proof -
  let ?s = "upd_proc 7 (\<lambda>p. p\<lparr>mask_set := NOT 0\<rparr>) demo_family"
  have f: "idle ?s" "proc_at ?s 7 = Some (demo_process\<lparr>mask_set := NOT 0\<rparr>)" "proc_at ?s 1 = Some (demo_process\<lparr>ppid := 0\<rparr>)"
    "may_signal (demo_process\<lparr>ppid := 0\<rparr>) (demo_process\<lparr>mask_set := NOT 0\<rparr>)" "threads_of ?s 7 = []"
    by (simp_all add: upd_proc_def demo_family_def demo_root_def uapi_init_def idle_def proc_at_def demo_process_def may_signal_def
        threads_of_def IS_SYSTASK_def)
  have "NOT 0 AND sig_bit SIGKILL \<noteq> 0" by (simp add: sig_bit_def push_bit_eq_mult)
  then show ?thesis using sigkill_can_be_blocked [OF f(1) _ _ f(2) _ _ f(3) _ f(4), of 0] f(5) by auto
qed

text \<open>
  A parent that signals its exited child before it has waited for it can bring the process server down: if the child had caught the signal and did not
  mask it, delivery fails an assertion on the child's threads, and the root task aborts.
\<close>

theorem kill_zombie_aborts:
  assumes inv: "threads_inv s" and s: "idle s" "oks s = []"
    and pid: "procs s pid = Some p" "utcb_area (task p) \<noteq> None" "pid \<le> SNEKS_MAX_PID" "sighelper_tid p = nil_tid" "wait_tid p = nil_tid" "0 < pid"
    and par: "0 < ppid p" "ppid p \<le> SNEKS_MAX_PID" "ppid p \<noteq> pid" "proc_at s (ppid p) = Some par" "chld_default par" "pflags par AND PF_WAIT_ANY = 0"
    and sig: "0 < sig" "sig \<le> 64" "mask_set p AND sig_bit sig = 0" "pending_set p AND sig_bit sig = 0" "dfl_set p AND sig_bit sig = 0" "ign_set p AND sig_bit sig = 0"
    and may: "may_signal par p" "ppid p \<noteq> vm"
  shows "\<exists>s1. uapi_exit s pid st = Some s1 \<and> root_uapi_kill vm s1 (ppid p) (int pid) (int sig) = None"
proof -
  obtain c where x: "uapi_exit s pid st = Some (after_exit s pid p par st c)" using exit_unwaited [OF inv s pid par] by blast
  let ?s1 = "after_exit s pid p par st c" and ?z = "zombie (exited st p)" and ?par = "par\<lparr>dead_list := dead_list par @ [pid]\<rparr>"
  have z: "procs ?s1 pid = Some ?z" "proc_at ?s1 pid = Some ?z" "proc_at ?s1 (ppid p) = Some ?par"
    using pid(2) par(3,4) by (auto simp: after_exit_def proc_at_def zombie_def exited_def split: option.splits if_splits)
  have i: "idle ?s1" using s(1) by (simp add: idle_def after_exit_def)
  have m: "may_signal ?par ?z" using may(1) by (simp add: may_signal_def zombie_def exited_def)
  have "sig_send ?s1 pid sig (pid = ppid p) = None"
    using z(1) sig par(3) pid(4)
    by (simp add: sig_send_def sig_send_with_def sig_deliver_def zombie_def exited_def)
  then have "root_uapi_kill vm ?s1 (ppid p) (int pid) (int sig) = None"
    using kill_permitted [OF i pid(6,3) z(2) par(1,2) z(3) may(2) m sig(1,2)] by simp
  then show ?thesis using x by blast
qed

theorem kill_zombie_aborts_witness:
  "\<exists>s1. uapi_exit (upd_proc 7 (\<lambda>p. p\<lparr>dfl_set := 0\<rparr>) demo_family) 7 0 = Some s1 \<and> root_uapi_kill 0 s1 1 7 10 = None"
proof -
  let ?s = "upd_proc 7 (\<lambda>p. p\<lparr>dfl_set := 0\<rparr>) demo_family" and ?p = "demo_process\<lparr>dfl_set := 0\<rparr>"
  have th: "threads_of ?s q = threads_of demo_family q" for q
    by (auto simp: upd_proc_def threads_of_def split: option.splits)
  have inv: "threads_inv ?s" by (rule threads_inv_mono [OF demo_family_inv]) (simp_all only: th, simp_all add: upd_proc_def)
  have f: "idle ?s" "oks ?s = []" "procs ?s 7 = Some ?p" "utcb_area (task ?p) \<noteq> None" "sighelper_tid ?p = nil_tid" "wait_tid ?p = nil_tid" "ppid ?p = 1"
    "proc_at ?s 1 = Some (demo_process\<lparr>ppid := 0\<rparr>)" "chld_default (demo_process\<lparr>ppid := 0\<rparr>)" "pflags (demo_process\<lparr>ppid := 0\<rparr>) = 0"
    "may_signal (demo_process\<lparr>ppid := 0\<rparr>) ?p" "mask_set ?p = 0" "pending_set ?p = 0" "dfl_set ?p = 0" "ign_set ?p = 0"
    using sigchld_bit
    by (simp_all add: upd_proc_def demo_family_def demo_root_def uapi_init_def idle_def proc_at_def demo_process_def may_signal_def chld_default_def)
  show ?thesis using kill_zombie_aborts [OF inv f(1-4) _ f(5,6), of _ 10 0 0] f(7-15) by simp
qed

end
