(* ===== verification/Startup.thy ===== *)
theory Startup
  imports Prelude
begin

text \<open>
  How a program gets its arguments: \<^verbatim>\<open>user/crt/exec.c\<close> packs them into a buffer, \<^verbatim>\<open>root/uapi.c\<close>
  splits the buffer and builds the startup stack of the new program, and \<^verbatim>\<open>user/crt/crt1.c\<close>
  reads them from there.  A buffer is the list of its bytes before the terminating NUL.
  Memory that comes from \<^verbatim>\<open>malloc\<close> has arbitrary contents, given as arguments (\<open>junk\<close>, \<open>gap\<close>).
\<close>

abbreviation (input) RECSEP :: u8 where "RECSEP \<equiv> 0x1e"
abbreviation (input) PAGE_SIZE :: nat where "PAGE_SIZE \<equiv> 4096"
abbreviation (input) AT_IGNORE :: u32 where "AT_IGNORE \<equiv> 1"
abbreviation (input) AT_RANDOM :: u32 where "AT_RANDOM \<equiv> 25"
abbreviation (input) AT_EXECFN :: u32 where "AT_EXECFN \<equiv> 31"

section \<open>Packing in the caller\<close>

fun pack_argbuf_loop :: "u8 list \<Rightarrow> u8 list list \<Rightarrow> u8 list" where
  "pack_argbuf_loop buf [] = buf"
| "pack_argbuf_loop buf (x # xs) = pack_argbuf_loop (buf @ x @ [RECSEP]) xs"

text \<open>
  The last separator becomes the terminator; with no string it is written before the buffer, which is the outer \<open>None\<close>.
  The inner one is the null pointer; \<open>mem_ok\<close> says whether every allocation succeeds.
\<close>

definition pack_argbuf :: "bool \<Rightarrow> u8 list list \<Rightarrow> u8 list option option" where
  "pack_argbuf mem_ok strp =
     (if \<not> mem_ok then Some None
      else let buf = pack_argbuf_loop [] strp in if buf = [] then None else Some (Some (butlast buf)))"

section \<open>The startup stack\<close>

text \<open>The offsets of the strings and the buffer with its separators overwritten.\<close>

function strsplit_offsets :: "nat \<Rightarrow> u8 list \<Rightarrow> nat list \<times> u8 list" where
  "strsplit_offsets pos buf =
     (if buf = [] then ([], [])
      else let seg = takeWhile (\<lambda>b. b \<noteq> RECSEP) buf in
      case dropWhile (\<lambda>b. b \<noteq> RECSEP) buf of [] \<Rightarrow> ([pos], seg)
      | _ # rest \<Rightarrow> let (offs, out) = strsplit_offsets (pos + length seg + 1) rest in (pos # offs, seg @ 0 # out))"
  by pat_completeness auto
termination
proof (relation "measure (length \<circ> Product_Type.snd)", simp, goal_cases)
  case (1 pos buf seg x rest)
  have "length (dropWhile (\<lambda>b. b \<noteq> RECSEP) buf) \<le> length buf" by (rule length_dropWhile_le)
  then show ?case using 1 by simp
qed

declare strsplit_offsets.simps [simp del]

text \<open>
  The auxiliary vector from a variable argument list of names and values; running off the list and
  the failed assertion are \<open>None\<close>.  An ignored name does not take its value off the list.
\<close>

fun auxv_args :: "u32 list \<Rightarrow> (nat \<Rightarrow> u32) \<Rightarrow> u64 \<Rightarrow> ((nat \<Rightarrow> u32) \<times> u64) option" where
  "auxv_args [] vals present = None"
| "auxv_args (name # al) vals present =
     (if name = 0 then Some (vals, present)
      else if unat name \<ge> 64 then None
      else if name = AT_IGNORE then auxv_args al vals present
      else case al of [] \<Rightarrow> None
        | v # al \<Rightarrow> auxv_args al (vals(unat name := v)) (present OR push_bit (unat name) 1))"

definition build_auxv :: "u32 list \<Rightarrow> (u32 \<times> u32) list option" where
  "build_auxv al =
     map_option (\<lambda>(vals, present). map (\<lambda>n. (of_nat n, vals n)) (bit_loop present))
       (auxv_args al ((\<lambda>_. 0)(6 := of_nat PAGE_SIZE)) (push_bit 6 1 OR push_bit 8 1))"

definition str_attrs :: "u32 \<Rightarrow> bool" where
  "str_attrs typ \<longleftrightarrow> typ \<in> {15, 24, AT_RANDOM, AT_EXECFN}"

text \<open>The size of the buffer once \<open>need\<close> bytes fit in it.\<close>

function grow :: "nat \<Rightarrow> nat \<Rightarrow> nat" where
  "grow alloc need = (if alloc = 0 \<or> need \<le> alloc then alloc else grow (alloc * 2) need)"
  by pat_completeness auto
termination by (relation "measure (\<lambda>(alloc, need). need - alloc)") auto

declare grow.simps [simp del]

text \<open>
  Strings move to a buffer (\<open>mem\<close> is the memory behind a pointer); their entries get the offset there and a mark.
  16 bytes of the buffer are kept for random bytes.  After these fewer may be left, and the space computed for another
  string wraps around: a string that runs past the end is \<open>None\<close>, as is the byte after the random ones when it is not in the buffer.
\<close>

fun pack_auxv_loop :: "(u32 \<Rightarrow> u8 list) \<Rightarrow> u8 \<Rightarrow> nat \<Rightarrow> u8 list \<Rightarrow> (u32 \<times> u32) list \<Rightarrow> ((u32 \<times> u32) list \<times> u8 list) option" where
  "pack_auxv_loop mem gap alloc buf [] = Some ([], buf)"
| "pack_auxv_loop mem gap alloc buf ((typ, v) # xs) =
     (if \<not> str_attrs typ then map_option (\<lambda>(ys, b). ((typ, v) # ys, b)) (pack_auxv_loop mem gap alloc buf xs)
      else let bs = (if typ = AT_RANDOM then take 16 (mem v) @ [gap] else takeWhile (\<lambda>b. b \<noteq> 0) (mem v) @ [0]) in
        if (typ = AT_RANDOM \<or> length buf + 16 > alloc) \<and> length buf + length bs > alloc then None
        else map_option (\<lambda>(ys, b). ((typ OR 0x80000000, of_nat (length buf)) # ys, b))
          (pack_auxv_loop mem gap (if typ = AT_RANDOM \<or> length buf + 16 > alloc then alloc else grow alloc (length buf + length bs + 16)) (buf @ bs) xs))"

text \<open>The buffer with its last byte, the one after its size.\<close>

definition pack_auxv :: "(u32 \<Rightarrow> u8 list) \<Rightarrow> u8 \<Rightarrow> (u32 \<times> u32) list \<Rightarrow> ((u32 \<times> u32) list \<times> u8 list) option" where
  "pack_auxv mem gap auxv = map_option (\<lambda>(ys, b). (ys, if b = [] then [0] else b)) (pack_auxv_loop mem gap 128 [] auxv)"

definition le_bytes :: "u32 \<Rightarrow> u8 list" where
  "le_bytes w = [ucast w, ucast (drop_bit 8 w), ucast (drop_bit 16 w), ucast (drop_bit 24 w)]"

definition put :: "nat \<Rightarrow> u8 list \<Rightarrow> u8 list \<Rightarrow> u8 list" where
  "put off bs img = take off img @ bs @ drop (off + length bs) img"

definition align16 :: "nat \<Rightarrow> nat" where "align16 n = (n + 15) div 16 * 16"

definition aux_words :: "u32 \<Rightarrow> (u32 \<times> u32) list \<Rightarrow> u32 list" where
  "aux_words strs auxv = concat (map (\<lambda>(typ, v).
     [typ AND NOT 0x80000000, if typ AND 0x80000000 \<noteq> 0 then v + strs else v]) auxv)"

text \<open>The words at the new stack pointer.\<close>

definition meta_words :: "u32 \<Rightarrow> u64 \<Rightarrow> nat list \<Rightarrow> nat \<Rightarrow> nat list \<Rightarrow> nat \<Rightarrow> (u32 \<times> u32) list \<Rightarrow> u32 list" where
  "meta_words body_sp stklim argv argsiz envp envsiz auxv =
     [ucast stklim, of_nat (length argv)] @ map (\<lambda>i. of_nat i + body_sp) argv @ [0]
     @ map (\<lambda>i. of_nat i + body_sp + of_nat argsiz + 1) envp @ [0]
     @ aux_words (body_sp + of_nat argsiz + of_nat envsiz + 2) auxv @ [0, 0]"

text \<open>
  The result, the upload (address and contents) and the new stack pointer.  \<open>mem_ok\<close> says whether the
  allocations succeed, \<open>vm_n\<close> is the memory server's answer to the upload.
\<close>

definition upload_startup_stack ::
  "bool \<Rightarrow> int \<Rightarrow> (u32 \<Rightarrow> u8 list) \<Rightarrow> u8 \<Rightarrow> (nat \<Rightarrow> u8) \<Rightarrow> u32 \<Rightarrow> u64 \<Rightarrow> u8 list \<Rightarrow> u8 list \<Rightarrow> u32 list
     \<Rightarrow> (int \<times> (u32 \<times> u8 list) option \<times> u32) option" where
  "upload_startup_stack mem_ok vm_n mem gap junk sp stklim argbuf envbuf al =
     (if sp AND 4095 \<noteq> 0 then None
      else if \<not> mem_ok then Some (- ENOMEM, None, sp)
      else case Option.bind (build_auxv al) (pack_auxv mem gap) of None \<Rightarrow> None
      | Some (auxv, auxbuf) \<Rightarrow>
          let (argv, args) = strsplit_offsets 0 argbuf; (envp, envs) = strsplit_offsets 0 envbuf;
              argsiz = length args; envsiz = length envs; auxsiz = length auxbuf - 1;
              body_space = align16 (argsiz + envsiz + auxsiz + 3);
              meta_len = 1 + 1 + length argv + 1 + length envp + 1 + (length auxv + 1) * 2;
              meta_space = align16 (4 * meta_len);
              n_pages = (body_space + meta_space + PAGE_SIZE - 1) div PAGE_SIZE;
              meta = meta_words (sp - of_nat body_space) stklim argv argsiz envp envsiz auxv;
              body = args @ [0] @ envs @ [0] @ auxbuf;
              image = put (n_pages * PAGE_SIZE - body_space) body
                (put (n_pages * PAGE_SIZE - body_space - meta_space) (concat (map le_bytes meta)) (map junk [0..<n_pages * PAGE_SIZE]))
          in Some (if vm_n > 0 then - EIO else vm_n, Some (sp - of_nat (n_pages * PAGE_SIZE), image),
               sp - of_nat (body_space + meta_space)))"

section \<open>Reading in the program\<close>

definition peek :: "u32 \<times> u8 list \<Rightarrow> u32 \<Rightarrow> u8" where
  "peek m a = Product_Type.snd m ! unat (a - fst m)"

definition peek_word :: "u32 \<times> u8 list \<Rightarrow> u32 \<Rightarrow> u32" where
  "peek_word m a = ucast (peek m a) OR push_bit 8 (ucast (peek m (a + 1)))
     OR push_bit 16 (ucast (peek m (a + 2))) OR push_bit 24 (ucast (peek m (a + 3)))"

definition cstr_at :: "u32 \<times> u8 list \<Rightarrow> u32 \<Rightarrow> u8 list" where
  "cstr_at m a = takeWhile (\<lambda>b. b \<noteq> 0) (drop (unat (a - fst m)) (Product_Type.snd m))"

text \<open>The pointers before the next null one; \<open>None\<close> if there is none within the fuel.\<close>

fun ptrs_at :: "nat \<Rightarrow> u32 \<times> u8 list \<Rightarrow> u32 \<Rightarrow> u32 list option" where
  "ptrs_at 0 m a = None"
| "ptrs_at (Suc n) m a = (if peek_word m a = 0 then Some [] else map_option (Cons (peek_word m a)) (ptrs_at n m (a + 4)))"

fun init_auxv :: "nat \<Rightarrow> u32 \<times> u8 list \<Rightarrow> u32 \<Rightarrow> (nat \<rightharpoonup> u32) \<Rightarrow> (nat \<rightharpoonup> u32) option" where
  "init_auxv 0 m a flat = None"
| "init_auxv (Suc n) m a flat =
     (let name = peek_word m a in
      if name = 0 then Some flat
      else if name = AT_IGNORE then init_auxv n m (a + 8) flat
      else if unat name \<ge> 64 then None
      else init_auxv n m (a + 8) (flat(unat name \<mapsto> peek_word m (a + 4))))"

record crt =
  crt_argv :: "u32 list"
  crt_envp :: "u32 list"
  crt_auxv :: "nat \<rightharpoonup> u32"

text \<open>
  Program start at the stack pointer: the first word is the wanted stack size, then follow \<open>argc\<close>, the
  arguments, the environment, and the auxiliary vector.
\<close>

definition start_crt :: "nat \<Rightarrow> u32 \<times> u8 list \<Rightarrow> u32 \<Rightarrow> crt option" where
  "start_crt fuel m sp =
     (let p = sp + 4; argc = peek_word m p; argv = p + 4; envp = argv + 4 * (argc + 1) in
      case ptrs_at fuel m envp of None \<Rightarrow> None
      | Some es \<Rightarrow> map_option (\<lambda>flat. \<lparr>crt_argv = map (\<lambda>i. peek_word m (argv + 4 * of_nat i)) [0..<unat argc],
            crt_envp = es, crt_auxv = flat\<rparr>)
          (init_auxv fuel m (envp + 4 * of_nat (length es + 1)) Map.empty))"

definition getauxval :: "crt \<Rightarrow> u32 \<Rightarrow> u32" where
  "getauxval c name = (if unat name < 64 then (case crt_auxv c (unat name) of None \<Rightarrow> 0 | Some v \<Rightarrow> v) else 0)"

section \<open>Packing and splitting\<close>

function split_segs :: "u8 list \<Rightarrow> u8 list list" where
  "split_segs buf = (if buf = [] then [] else takeWhile (\<lambda>b. b \<noteq> RECSEP) buf #
     (case dropWhile (\<lambda>b. b \<noteq> RECSEP) buf of [] \<Rightarrow> [] | _ # rest \<Rightarrow> split_segs rest))"
  by pat_completeness auto
termination
proof (relation "measure length", simp, goal_cases)
  case (1 buf x rest)
  have "length (dropWhile (\<lambda>b. b \<noteq> RECSEP) buf) \<le> length buf" by (rule length_dropWhile_le)
  then show ?case using 1 by simp
qed

declare split_segs.simps [simp del]

lemma split_segs_sep: "RECSEP \<notin> set x \<Longrightarrow> split_segs (x @ RECSEP # rest) = x # split_segs rest"
  by (subst split_segs.simps, auto simp: takeWhile_append dropWhile_append takeWhile_eq_all_conv dropWhile_eq_Nil_conv)

lemma split_segs_last: "RECSEP \<notin> set x \<Longrightarrow> split_segs x = (if x = [] then [] else [x])"
proof -
  assume a: "RECSEP \<notin> set x"
  have d: "takeWhile (\<lambda>b. b \<noteq> RECSEP) x = x" "dropWhile (\<lambda>b. b \<noteq> RECSEP) x = []"
    using a by (auto simp: takeWhile_eq_all_conv dropWhile_eq_Nil_conv)
  show ?thesis unfolding split_segs.simps [of x] d by simp
qed

definition seen :: "u8 list list \<Rightarrow> u8 list list" where
  "seen xs = (if last xs = [] then butlast xs else xs)"

lemma pack_argbuf_loop_concat: "pack_argbuf_loop buf xs = buf @ concat (map (\<lambda>x. x @ [RECSEP]) xs)"
  by (induction xs arbitrary: buf) simp_all

text \<open>The last string is lost if it is empty.\<close>

lemma split_pack:
  assumes "pack_argbuf mem_ok xs = Some (Some buf)" "\<forall>x \<in> set xs. RECSEP \<notin> set x"
  shows "split_segs buf = seen xs"
proof -
  have "xs \<noteq> [] \<and> buf = butlast (concat (map (\<lambda>x. x @ [RECSEP]) xs))"
    using assms(1) by (cases xs) (auto simp: pack_argbuf_def pack_argbuf_loop_concat Let_def split: if_splits)
  then show ?thesis using assms(2)
  proof (induction xs arbitrary: buf)
    case (Cons x xs)
    show ?case
    proof (cases xs)
      case Nil
      then show ?thesis using Cons.prems split_segs_last [of x] by (simp add: seen_def butlast_append)
    next
      case (Cons y ys)
      let ?b = "butlast (concat (map (\<lambda>x. x @ [RECSEP]) xs))"
      have "concat (map (\<lambda>x. x @ [RECSEP]) xs) \<noteq> []" using Cons by simp
      then have "buf = x @ RECSEP # ?b" using Cons.prems by (simp add: butlast_append)
      then show ?thesis
        using split_segs_sep [of x ?b] Cons.IH [of ?b] Cons.prems Cons by (simp add: seen_def)
    qed
  qed simp
qed

lemma drop_length_plus: "drop (length xs + k) (xs @ ys) = drop k ys"
  by simp

lemma strsplit_offsets_correct:
  assumes "strsplit_offsets pos buf = (offs, out)" "0 \<notin> set buf"
  shows "length out = length buf \<and> (\<forall>i \<in> set offs. pos \<le> i \<and> i < pos + length buf)
     \<and> map (\<lambda>i. takeWhile (\<lambda>b. b \<noteq> 0) (drop (i - pos) (out @ 0 # z))) offs = split_segs buf"
  using assms
proof (induction pos buf arbitrary: offs out rule: strsplit_offsets.induct)
  case (1 pos buf)
  show ?case
  proof (cases "buf = []")
    case True
    then show ?thesis using 1(2) by (simp add: strsplit_offsets.simps split_segs.simps)
  next
    case False
    let ?seg = "takeWhile (\<lambda>b. b \<noteq> RECSEP) buf"
    have nz: "0 \<notin> set ?seg" using 1(3) by (meson set_takeWhileD)
    show ?thesis
    proof (cases "dropWhile (\<lambda>b. b \<noteq> RECSEP) buf")
      case Nil
      then have e: "?seg = buf" by (simp add: dropWhile_eq_Nil_conv takeWhile_eq_all_conv)
      have "offs = [pos]" "out = buf" using 1(2) False Nil e by (simp_all add: strsplit_offsets.simps)
      moreover have "split_segs buf = [buf]" unfolding split_segs.simps [of buf] Nil e using False by simp
      moreover have "takeWhile (\<lambda>b. b \<noteq> 0) (buf @ 0 # z) = buf" using 1(3) by (simp add: takeWhile_append takeWhile_eq_all_conv)
      ultimately show ?thesis using False by simp
    next
      case (Cons x rest)
      obtain os b where r: "strsplit_offsets (pos + length ?seg + 1) rest = (os, b)" by fastforce
      have eq: "offs = pos # os" "out = ?seg @ 0 # b"
        using 1(2) False Cons r by (subst (asm) strsplit_offsets.simps, simp)+
      have bl: "buf = ?seg @ x # rest" using Cons takeWhile_dropWhile_id by metis
      then have len: "length buf = length ?seg + Suc (length rest)" by (metis length_Cons length_append)
      have "0 \<notin> set rest" using 1(3) bl by (metis UnCI list.set_intros(2) set_append)
      then have ih: "length b = length rest" "\<forall>i \<in> set os. pos + length ?seg + 1 \<le> i \<and> i < pos + length ?seg + 1 + length rest"
        "map (\<lambda>i. takeWhile (\<lambda>b. b \<noteq> 0) (drop (i - (pos + length ?seg + 1)) (b @ 0 # z))) os = split_segs rest"
        using 1(1) [OF False refl Cons r] by auto
      have "drop (i - pos) (out @ 0 # z) = drop (i - (pos + length ?seg + 1)) (b @ 0 # z)" if "i \<in> set os" for i
      proof -
        have "i - pos = length (?seg @ [0 :: u8]) + (i - (pos + length ?seg + 1))" using ih(2) that by auto
        moreover have "out @ 0 # z = (?seg @ [0]) @ (b @ 0 # z)" by (simp add: eq(2))
        ultimately show ?thesis by (simp only: drop_length_plus)
      qed
      then have "map (\<lambda>i. takeWhile (\<lambda>b. b \<noteq> 0) (drop (i - pos) (out @ 0 # z))) os = split_segs rest"
        unfolding ih(3) [symmetric] by (intro map_cong refl) simp
      moreover have "takeWhile (\<lambda>b. b \<noteq> 0) (out @ 0 # z) = ?seg" using nz by (simp add: eq(2) takeWhile_append takeWhile_eq_all_conv)
      ultimately show ?thesis
        using ih(1,2) len eq False Cons by (subst split_segs.simps) auto
    qed
  qed
qed

section \<open>The image\<close>

lemma le_bytes_word:
  "ucast (le_bytes w ! 0) OR push_bit 8 (ucast (le_bytes w ! 1)) OR push_bit 16 (ucast (le_bytes w ! 2)) OR push_bit 24 (ucast (le_bytes w ! 3)) = w"
  (is "?l = w")
proof (rule bit_word_eqI)
  fix n assume n: "n < LENGTH(32)"
  have b: "bit ?l n \<longleftrightarrow> n < 8 \<and> bit w n \<or> 8 \<le> n \<and> n - 8 < 8 \<and> bit w n \<or> 16 \<le> n \<and> n - 16 < 8 \<and> bit w n \<or> 24 \<le> n \<and> n - 24 < 8 \<and> bit w n"
    using n by (simp add: le_bytes_def numeral_3_eq_3 bit_or_iff bit_push_bit_iff bit_ucast_iff bit_drop_bit_eq
        cong: conj_cong) linarith
  have "n < 8 \<or> 8 \<le> n \<and> n - 8 < 8 \<or> 16 \<le> n \<and> n - 16 < 8 \<or> 24 \<le> n \<and> n - 24 < 8" using n by auto
  then show "bit ?l n = bit w n" unfolding b by blast
qed

lemma length_le_bytes [simp]: "length (le_bytes w) = 4"
  by (simp add: le_bytes_def)

lemma length_words [simp]: "length (concat (map le_bytes ws)) = 4 * length ws"
  by (induction ws) simp_all

fun reads :: "u32 \<times> u8 list \<Rightarrow> u32 \<Rightarrow> u32 list \<Rightarrow> bool" where
  "reads m a [] \<longleftrightarrow> True"
| "reads m a (w # ws) \<longleftrightarrow> peek_word m a = w \<and> reads m (a + 4) ws"

lemma reads_append: "reads m a (xs @ ys) \<longleftrightarrow> reads m a xs \<and> reads m (a + 4 * of_nat (length xs)) ys"
  by (induction xs arbitrary: a) (auto simp: algebra_simps)

lemma reads_nth: "reads m a ws \<Longrightarrow> i < length ws \<Longrightarrow> peek_word m (a + 4 * of_nat i) = ws ! i"
proof (induction ws arbitrary: a i)
  case (Cons w ws)
  show ?case
  proof (cases i)
    case (Suc j)
    then show ?thesis using Cons.IH [of "a + 4" j] Cons.prems by (simp add: distrib_left add.assoc)
  qed (use Cons.prems in simp)
qed simp

lemma peek_at: "k < 2 ^ 32 \<Longrightarrow> peek (base, img) (base + of_nat k) = img ! k"
  by (simp add: peek_def unat_of_nat)

lemma peek_word_at:
  assumes "length P + 3 < 2 ^ 32"
  shows "peek_word (base, P @ le_bytes w @ R) (base + of_nat (length P)) = w"
proof -
  have *: "peek (base, P @ le_bytes w @ R) (base + of_nat (length P) + of_nat j) = le_bytes w ! j" if "j < 4" for j
    using peek_at [of "length P + j" base "P @ le_bytes w @ R"] assms that by (simp add: nth_append add.assoc)
  show ?thesis
    unfolding peek_word_def using *[of 0] *[of 1] *[of 2] *[of 3] le_bytes_word [of w] by simp
qed

lemma reads_image:
  assumes "length P + 4 * length ws < 2 ^ 32"
  shows "reads (base, P @ concat (map le_bytes ws) @ R) (base + of_nat (length P)) ws"
  using assms
proof (induction ws arbitrary: P)
  case (Cons w ws)
  have "reads (base, (P @ le_bytes w) @ concat (map le_bytes ws) @ R) (base + of_nat (length (P @ le_bytes w))) ws"
    using Cons.prems by (intro Cons.IH) simp
  then show ?case using peek_word_at [of P base w "concat (map le_bytes ws) @ R"] Cons.prems by (simp add: add.assoc)
qed simp

lemma cstr_at_image:
  assumes "length P + k < 2 ^ 32" "k \<le> length B"
  shows "cstr_at (base, P @ B) (base + of_nat (length P + k)) = takeWhile (\<lambda>b. b \<noteq> 0) (drop k B)"
proof -
  have "unat (base + of_nat (length P + k) - base) = length P + k" using assms(1) by (simp add: unat_of_nat del: of_nat_add)
  then show ?thesis by (simp add: cstr_at_def)
qed

lemma ptrs_at_reads:
  "reads m a (ps @ [0]) \<Longrightarrow> 0 \<notin> set ps \<Longrightarrow> length ps < fuel \<Longrightarrow> ptrs_at fuel m a = Some ps"
proof (induction ps arbitrary: a fuel)
  case Nil
  then show ?case by (cases fuel) simp_all
next
  case (Cons p ps)
  then show ?case by (cases fuel) auto
qed

text \<open>The two writes into the fresh block, seen as a concatenation.\<close>

lemma put_put:
  assumes "mo + length W \<le> bo" "bo + length B \<le> length J"
  shows "put bo B (put mo W J) = take mo J @ W @ take (bo - mo - length W) (drop (mo + length W) J) @ B @ drop (bo + length B) J"
    "length (put bo B (put mo W J)) = length J"
proof -
  have l: "length (take mo J) = mo" using assms by simp
  have t: "take bo (take mo J @ W @ drop (mo + length W) J) = take mo J @ W @ take (bo - mo - length W) (drop (mo + length W) J)"
    using l assms by simp
  have d: "drop (bo + length B) (take mo J @ W @ drop (mo + length W) J) = drop (bo + length B) J"
    using l assms by simp
  show "put bo B (put mo W J) = take mo J @ W @ take (bo - mo - length W) (drop (mo + length W) J) @ B @ drop (bo + length B) J"
    unfolding put_def t d by simp
  then show "length (put bo B (put mo W J)) = length J" using assms by simp
qed

lemma align16_ge: "n \<le> align16 n"
  unfolding align16_def by linarith

lemma aux_words_length [simp]: "length (aux_words strs auxv) = 2 * length auxv"
  by (induction auxv) (auto simp: aux_words_def)

lemma pack_auxv_nonempty: "pack_auxv mem gap auxv = Some (ys, b) \<Longrightarrow> b \<noteq> []"
  by (auto simp: pack_auxv_def split: if_splits)

lemma upload_layout:
  assumes up: "upload_startup_stack True vm_n mem gap junk sp stklim argbuf envbuf al = Some (n, Some (base, img), sp')"
    and aux: "build_auxv al = Some auxv0" "pack_auxv mem gap auxv0 = Some (auxv, auxbuf)"
    and split: "strsplit_offsets 0 argbuf = (argv, args)" "strsplit_offsets 0 envbuf = (envp, envs)"
  shows "\<exists>P M Q body_sp meta. meta = meta_words body_sp stklim argv (length args) envp (length envs) auxv
     \<and> img = P @ concat (map le_bytes meta) @ M @ (args @ [0] @ envs @ [0] @ auxbuf) @ Q
     \<and> sp' = base + of_nat (length P) \<and> body_sp = base + of_nat (length P + 4 * length meta + length M) \<and> sp = base + of_nat (length img)
     \<and> 4 * length meta + 3 \<le> length img \<and> length img \<le> length args + length envs + length auxbuf + 4 * length meta + 4 * PAGE_SIZE"
proof -
  let ?bl = "length args + length envs + (length auxbuf - 1) + 3"
  define bs where "bs = align16 ?bl"
  define ml where "ml = 1 + 1 + length argv + 1 + length envp + 1 + (length auxv + 1) * 2"
  define ms where "ms = align16 (4 * ml)"
  define T where "T = (bs + ms + PAGE_SIZE - 1) div PAGE_SIZE * PAGE_SIZE"
  define J where "J = map junk [0..<T]"
  define meta where "meta = meta_words (sp - of_nat bs) stklim argv (length args) envp (length envs) auxv"
  let ?body = "args @ [0] @ envs @ [0] @ auxbuf" and ?W = "concat (map le_bytes meta)"
  have e: "base = sp - of_nat T" "img = put (T - bs) ?body (put (T - bs - ms) ?W J)" "sp' = sp - of_nat (bs + ms)"
    using up aux split
    by (simp_all add: upload_startup_stack_def Let_def bs_def ml_def ms_def T_def J_def meta_def split: if_splits)
  have len: "length meta = ml" by (simp add: meta_def meta_words_def ml_def)
  have bl: "length ?body = ?bl" using pack_auxv_nonempty [OF aux(2)] by (cases auxbuf) auto
  have ge: "length ?body \<le> bs" "4 * length meta \<le> ms" unfolding bl len bs_def ms_def by (rule align16_ge)+
  have T: "bs + ms \<le> T" unfolding T_def by linarith
  have J: "length J = T" by (simp add: J_def)
  have c: "(T - bs - ms) + length ?W \<le> T - bs" "(T - bs) + length ?body \<le> length J" using ge T J by auto
  note pp = put_put [OF c]
  let ?P = "take (T - bs - ms) J" and ?M = "take (T - bs - (T - bs - ms) - length ?W) (drop (T - bs - ms + length ?W) J)"
  have P: "length ?P = T - bs - ms" using J by simp
  have M: "length ?P + 4 * length meta + length ?M = T - bs" using c(1) J T by simp
  have s: "sp - of_nat bs = base + of_nat (T - bs)" "sp' = base + of_nat (T - bs - ms)" "sp = base + of_nat T"
    using T by (simp_all add: e(1,3) of_nat_diff algebra_simps)
  have f1: "img = ?P @ ?W @ ?M @ ?body @ drop (T - bs + length ?body) J" unfolding e(2) by (rule pp(1))
  have f2: "length img = T" using pp(2) J unfolding e(2) by simp
  have f3: "4 * length meta + 3 \<le> length img" using ge T bl f2 by linarith
  have "T \<le> bs + ms + PAGE_SIZE" "bs \<le> ?bl + 16" "ms \<le> 4 * length meta + 16" unfolding T_def bs_def ms_def len align16_def by linarith+
  then have f7: "length img \<le> length args + length envs + length auxbuf + 4 * length meta + 4 * PAGE_SIZE" using f2 by linarith
  have f4: "sp' = base + of_nat (length ?P)" unfolding P by (rule s(2))
  have f5: "sp - of_nat bs = base + of_nat (length ?P + 4 * length meta + length ?M)" unfolding M by (rule s(1))
  have f6: "sp = base + of_nat (length img)" unfolding f2 by (rule s(3))
  show ?thesis
    by (intro exI [of _ ?P] exI [of _ ?M] exI [of _ "drop (T - bs + length ?body) J"] exI [of _ "sp - of_nat bs"] exI [of _ meta]
        conjI meta_def f1 f3 f4 f5 f6 f7)
qed

section \<open>The auxiliary vector\<close>

abbreviation (input) MARK :: u32 where "MARK \<equiv> 0x80000000"

definition aux_name :: "u32 \<Rightarrow> bool" where
  "aux_name typ \<longleftrightarrow> typ \<noteq> 0 \<and> typ \<noteq> AT_IGNORE \<and> unat typ < 64"

lemma small_mark:
  assumes "unat typ < 64"
  shows "typ AND MARK = 0" "(typ OR MARK) AND MARK \<noteq> 0" "(typ OR MARK) AND NOT MARK = typ" "typ AND NOT MARK = typ"
proof -
  define M :: u32 where "M = MARK"
  have "M = push_bit 31 1" by (simp add: M_def push_bit_eq_mult)
  then have bm: "bit M n \<longleftrightarrow> n = 31" for n by (auto simp: bit_push_bit_iff bit_1_iff simp del: push_bit_of_1)
  have "\<not> bit typ 31"
  proof
    assume "bit typ 31"
    then have "bit (unat typ) 31" by (simp add: bit_unsigned_iff)
    then have "odd (unat typ div 2 ^ 31)" using bit_iff_odd by blast
    moreover have "unat typ div 2 ^ 31 = 0" using assms by (intro div_less) simp
    ultimately show False by (metis even_zero)
  qed
  then have "bit typ n \<Longrightarrow> n \<noteq> 31" for n by auto
  then have e: "typ AND M = 0" "(typ OR M) AND NOT M = typ" "typ AND NOT M = typ"
    by (auto intro!: bit_word_eqI simp: bit_and_iff bit_or_iff bit_not_iff bm)
  then show "typ AND MARK = 0" "(typ OR MARK) AND NOT MARK = typ" "typ AND NOT MARK = typ" unfolding M_def .
  have "bit ((typ OR M) AND M) 31" by (simp add: bit_and_iff bit_or_iff bm)
  then show "(typ OR MARK) AND MARK \<noteq> 0" unfolding M_def by auto
qed

lemma auxv_args_names:
  "auxv_args al vals present = Some (vals', present') \<Longrightarrow> \<not> bit present 0 \<Longrightarrow> \<not> bit present 1 \<Longrightarrow> \<not> bit present' 0 \<and> \<not> bit present' 1"
proof (induction al vals present rule: auxv_args.induct)
  case (2 name al vals present)
  show ?case
  proof (cases "name = 0 \<or> unat name \<ge> 64 \<or> name = AT_IGNORE")
    case True
    then show ?thesis using 2 by (simp split: if_splits)
  next
    case False
    then obtain v al' where al: "al = v # al'" using "2.prems"(1) by (cases al) auto
    have n: "unat name \<noteq> 0" "unat name \<noteq> 1"
      using False by (metis unsigned_0 unsigned_word_eqI, metis unsigned_1 unsigned_word_eqI)
    have r: "auxv_args al' (vals(unat name := v)) (present OR push_bit (unat name) 1) = Some (vals', present')"
      using "2.prems"(1) False al by simp
    have nb: "\<not> bit (present OR push_bit (unat name) 1) 0" "\<not> bit (present OR push_bit (unat name) 1) 1"
      using "2.prems"(2,3) n by (auto simp: bit_or_iff bit_push_bit_iff simp del: push_bit_of_1)
    show ?thesis by (rule "2.IH"(2) [OF _ _ _ al r nb]) (use False in auto)
  qed
qed simp

lemma build_auxv_names:
  assumes "build_auxv al = Some auxv"
  shows "distinct (map fst auxv)" "\<forall>(typ, v) \<in> set auxv. aux_name typ"
proof -
  obtain vals present where a: "auxv_args al ((\<lambda>_. 0)(6 := of_nat PAGE_SIZE)) (push_bit 6 1 OR push_bit 8 1) = Some (vals, present)"
    and auxv: "auxv = map (\<lambda>n. (of_nat n, vals n)) (bit_loop present)"
    using assms by (auto simp: build_auxv_def)
  have nb: "\<not> bit present 0" "\<not> bit present 1"
    using auxv_args_names [OF a] by (auto simp: bit_or_iff bit_push_bit_iff)
  have u: "unat (of_nat n :: u32) = n" if "n < 64" for n using that by (simp add: unat_of_nat)
  have r: "n < 64 \<and> n \<noteq> 0 \<and> n \<noteq> 1" if "n \<in> set (bit_loop present)" for n
    using that nb by (auto simp: bit_loop_eq intro: gr0I)
  have "inj_on (of_nat :: nat \<Rightarrow> u32) (set (bit_loop present))"
    by (rule inj_on_inverseI [of _ unat]) (use r u in blast)
  then show "distinct (map fst auxv)" by (simp add: auxv distinct_map bit_loop_eq o_def)
  have "aux_name (of_nat n)" if n: "n \<in> set (bit_loop present)" for n
  proof -
    have "unat (of_nat n :: u32) = n" "n \<noteq> 0" "n \<noteq> 1" "n < 64" using r [OF n] u [of n] by auto
    then show ?thesis unfolding aux_name_def by (metis unsigned_0 unsigned_1)
  qed
  then show "\<forall>(typ, v) \<in> set auxv. aux_name typ" by (auto simp: auxv)
qed

definition entry_ok :: "(u32 \<Rightarrow> u8 list) \<Rightarrow> u8 list \<Rightarrow> u32 \<times> u32 \<Rightarrow> u32 \<times> u32 \<Rightarrow> bool" where
  "entry_ok mem b x y \<longleftrightarrow> (case (x, y) of ((typ, v), (typ', v')) \<Rightarrow>
     if \<not> str_attrs typ then typ' = typ \<and> v' = v
     else typ' = typ OR MARK \<and> (\<exists>k. v' = of_nat k \<and> k < length b
       \<and> (if typ = AT_RANDOM then 16 \<le> length (mem v) \<longrightarrow> (\<forall>z. take 16 (drop k b @ z) = take 16 (mem v))
          else \<forall>z. takeWhile (\<lambda>b. b \<noteq> 0) (drop k b @ z) = takeWhile (\<lambda>b. b \<noteq> 0) (mem v))))"

lemma takeWhile_zero: "takeWhile (\<lambda>b. b \<noteq> 0) (takeWhile (\<lambda>b. b \<noteq> 0) xs @ 0 # (ys :: u8 list)) = takeWhile (\<lambda>b. b \<noteq> 0) xs"
  by (induction xs) auto

lemma pack_auxv_loop_ok:
  "pack_auxv_loop mem gap alloc buf xs = Some (ys, b) \<Longrightarrow> (\<exists>c. b = buf @ c) \<and> list_all2 (entry_ok mem b) xs ys"
proof (induction mem gap alloc buf xs arbitrary: ys b rule: pack_auxv_loop.induct)
  case (2 mem gap alloc buf ty v xs)
  show ?case
  proof (cases "str_attrs ty")
    case False
    then obtain zs where "pack_auxv_loop mem gap alloc buf xs = Some (zs, b)" "ys = (ty, v) # zs"
      using "2.prems" by auto
    then show ?thesis using "2.IH"(1) [OF _ ] False by (auto simp: entry_ok_def)
  next
    case True
    let ?bs = "if ty = AT_RANDOM then take 16 (mem v) @ [gap] else takeWhile (\<lambda>b. b \<noteq> 0) (mem v) @ [0]"
    let ?al = "if ty = AT_RANDOM \<or> length buf + 16 > alloc then alloc else grow alloc (length buf + length ?bs + 16)"
    obtain zs where z: "\<not> ((ty = AT_RANDOM \<or> length buf + 16 > alloc) \<and> length buf + length ?bs > alloc)"
      "pack_auxv_loop mem gap ?al (buf @ ?bs) xs = Some (zs, b)" "ys = (ty OR MARK, of_nat (length buf)) # zs"
      using "2.prems" True by (auto simp: Let_def split: if_splits)
    obtain c where c: "b = (buf @ ?bs) @ c" "list_all2 (entry_ok mem b) xs zs"
      using "2.IH"(2) [OF _ refl z(1,2)] True by auto
    have "takeWhile (\<lambda>b. b \<noteq> 0) (drop (length buf) b @ z) = takeWhile (\<lambda>b. b \<noteq> 0) (mem v)" if "ty \<noteq> AT_RANDOM" for z
      using that takeWhile_zero [of "mem v" "c @ z"] by (simp add: c(1))
    then have "entry_ok mem b (ty, v) (ty OR MARK, of_nat (length buf))"
      using True by (auto simp: entry_ok_def c(1) intro!: exI [of _ "length buf"])
    then show ?thesis using c z(3) by auto
  qed
qed simp

lemma pack_auxv_ok: "pack_auxv mem gap xs = Some (ys, b) \<Longrightarrow> list_all2 (entry_ok mem b) xs ys"
proof -
  assume a: "pack_auxv mem gap xs = Some (ys, b)"
  obtain b0 where p: "pack_auxv_loop mem gap 128 [] xs = Some (ys, b0)" "b = (if b0 = [] then [0] else b0)"
    using a by (auto simp: pack_auxv_def)
  have "list_all2 (entry_ok mem b0) xs ys" using pack_auxv_loop_ok [OF p(1)] by simp
  then show ?thesis
    by (rule list_all2_mono) (auto simp: entry_ok_def p(2) split: if_splits)
qed

text \<open>What the program's scan of the vector leaves for a name.\<close>

definition aux_value :: "u32 \<Rightarrow> u32 \<times> u32 \<Rightarrow> u32" where
  "aux_value strs e = (if fst e AND MARK \<noteq> 0 then Product_Type.snd e + strs else Product_Type.snd e)"

definition aux_upd :: "u32 \<Rightarrow> (nat \<rightharpoonup> u32) \<Rightarrow> u32 \<times> u32 \<Rightarrow> nat \<rightharpoonup> u32" where
  "aux_upd strs f e = f(unat (fst e AND NOT MARK) \<mapsto> aux_value strs e)"

lemma init_auxv_reads:
  assumes "reads m a (aux_words strs xs @ [0, 0])" "\<forall>e \<in> set xs. aux_name (fst e AND NOT MARK)" "length xs < fuel"
  shows "init_auxv fuel m a flat = Some (foldl (aux_upd strs) flat xs)"
  using assms
proof (induction xs arbitrary: a fuel flat)
  case Nil
  then show ?case by (cases fuel) (auto simp: aux_words_def)
next
  case (Cons e xs)
  obtain n where fuel: "fuel = Suc n" using Cons.prems(3) by (cases fuel) auto
  have w: "aux_words strs (e # xs) = [fst e AND NOT MARK, aux_value strs e] @ aux_words strs xs"
    by (cases e) (simp add: aux_words_def aux_value_def)
  have "peek_word m a = fst e AND NOT MARK" "peek_word m (a + 4) = aux_value strs e" "reads m (a + 8) (aux_words strs xs @ [0, 0])"
    using Cons.prems(1) unfolding w by (simp_all add: reads_append add.assoc)
  then have "init_auxv (Suc n) m a flat = init_auxv n m (a + 8) (aux_upd strs flat e)" "reads m (a + 8) (aux_words strs xs @ [0, 0])"
    unfolding aux_upd_def using Cons.prems(2) by (simp_all add: aux_name_def Let_def not_le)
  then show ?case using Cons.IH [of "a + 8" n "aux_upd strs flat e"] Cons.prems(2,3) fuel by simp
qed

lemma foldl_aux_upd_other:
  "unat n \<notin> set (map (\<lambda>e. unat (fst e AND NOT MARK)) xs) \<Longrightarrow> foldl (aux_upd strs) flat xs (unat n) = flat (unat n)"
  by (induction xs arbitrary: flat) (auto simp: aux_upd_def)

lemma foldl_aux_upd:
  assumes "distinct (map (\<lambda>e. fst e AND NOT MARK) xs)" "e \<in> set xs"
  shows "foldl (aux_upd strs) flat xs (unat (fst e AND NOT MARK)) = Some (aux_value strs e)"
  using assms
proof (induction xs arbitrary: flat)
  case (Cons x xs)
  show ?case
  proof (cases "e \<in> set xs")
    case True
    then show ?thesis using Cons by simp
  next
    case False
    then have e: "e = x" using Cons.prems(2) by simp
    have "unat (fst x AND NOT MARK) \<notin> set (map (\<lambda>e. unat (fst e AND NOT MARK)) xs)"
      using Cons.prems(1) by (simp add: image_iff) (metis unsigned_word_eqI)
    moreover have "aux_upd strs flat x (unat (fst x AND NOT MARK)) = Some (aux_value strs x)" by (simp add: aux_upd_def)
    ultimately show ?thesis using foldl_aux_upd_other [of "fst x AND NOT MARK" xs strs "aux_upd strs flat x"] e by simp
  qed
qed simp

text \<open>Names survive the packing.\<close>

lemma packed_names:
  assumes "list_all2 (entry_ok mem b) xs ys" "\<forall>(typ, v) \<in> set xs. aux_name typ"
  shows "map (\<lambda>e. fst e AND NOT MARK) ys = map fst xs"
  using assms
proof (induction rule: list_all2_induct)
  case (Cons x xs y ys)
  obtain ty v where x: "x = (ty, v)" by (cases x)
  have "unat ty < 64" using Cons.prems x by (auto simp: aux_name_def)
  then have "fst y AND NOT MARK = ty"
    using Cons.hyps(1) small_mark(3,4) [of ty] by (auto simp: entry_ok_def x split: prod.splits if_splits)
  then show ?case using Cons x by auto
qed simp

lemma nonzero_below:
  assumes "sp = base + of_nat L" "L < unat sp" "k \<le> L"
  shows "base + of_nat k \<noteq> (0 :: u32)"
proof
  assume z: "base + of_nat k = 0"
  have "sp = of_nat (L - k)" using assms(1,3) z by (simp add: of_nat_diff eq_neg_iff_add_eq_0 [symmetric] algebra_simps)
  then have "unat sp \<le> L - k" using unat_of_nat [where 'a = 32, of "L - k"] by simp
  then show False using assms(2) by simp
qed

text \<open>The strings of the body, found through the pointers on the stack.\<close>

lemma strings_found:
  assumes "strsplit_offsets 0 buf = (offs, out)" "0 \<notin> set buf"
    and "length P + length B + length out < 2 ^ 32" "k = length P + length B"
  shows "map (\<lambda>i. cstr_at (base, P @ B @ out @ 0 # Z) (base + of_nat (k + i))) offs = split_segs buf"
proof -
  note c = strsplit_offsets_correct [OF assms(1,2), of Z]
  have "cstr_at (base, P @ B @ out @ 0 # Z) (base + of_nat (k + i)) = takeWhile (\<lambda>b. b \<noteq> 0) (drop (i - 0) (out @ 0 # Z))"
    if "i \<in> set offs" for i
  proof -
    have i: "i < length out" using c that by auto
    then show ?thesis using cstr_at_image [of "P @ B" i "out @ 0 # Z" base] assms(3,4) by simp
  qed
  then have "map (\<lambda>i. cstr_at (base, P @ B @ out @ 0 # Z) (base + of_nat (k + i))) offs
      = map (\<lambda>i. takeWhile (\<lambda>b. b \<noteq> 0) (drop (i - 0) (out @ 0 # Z))) offs" by (intro map_cong refl)
  also have "\<dots> = split_segs buf" using c by blast
  finally show ?thesis .
qed

lemma start_crt_reads:
  assumes "reads m sp (meta_words bsp stk argv la envp le auxv)" "length argv < 2 ^ 32 - 1"
    and "0 \<notin> set (map (\<lambda>i. of_nat i + bsp + of_nat la + 1 :: u32) envp)" "\<forall>e \<in> set auxv. aux_name (fst e AND NOT MARK)"
    and "length envp < fuel" "length auxv < fuel"
  shows "start_crt fuel m sp = Some \<lparr>crt_argv = map (\<lambda>i. of_nat i + bsp) argv, crt_envp = map (\<lambda>i. of_nat i + bsp + of_nat la + 1) envp,
     crt_auxv = foldl (aux_upd (bsp + of_nat la + of_nat le + 2)) Map.empty auxv\<rparr>"
proof -
  let ?A = "map (\<lambda>i. of_nat i + bsp) argv" and ?E = "map (\<lambda>i. of_nat i + bsp + of_nat la + 1) envp :: u32 list"
  let ?strs = "bsp + of_nat la + of_nat le + 2"
  let ?e = "sp + 8 + 4 * (of_nat (length argv) + 1)"
  have r: "peek_word m (sp + 4) = of_nat (length argv)" "reads m (sp + 8) ?A" "reads m ?e (?E @ [0])"
    "reads m (?e + 4 * of_nat (length envp + 1)) (aux_words ?strs auxv @ [0, 0])"
    using assms(1) unfolding meta_words_def by (simp_all add: reads_append algebra_simps)
  have u: "unat (of_nat (length argv) :: u32) = length argv" using assms(2) by (simp add: unat_of_nat)
  have a: "map (\<lambda>i. peek_word m (sp + 8 + 4 * of_nat i)) [0..<length argv] = ?A"
    using reads_nth [OF r(2)] by (intro nth_equalityI) auto
  have e: "ptrs_at fuel m ?e = Some ?E" using assms(3,5) by (intro ptrs_at_reads [OF r(3)]) simp_all
  have x: "init_auxv fuel m (?e + 4 * of_nat (length envp + 1)) Map.empty = Some (foldl (aux_upd ?strs) Map.empty auxv)"
    by (rule init_auxv_reads [OF r(4) assms(4,6)])
  have ad: "sp + 4 + 4 = sp + 8" by simp
  show ?thesis
    unfolding start_crt_def Let_def r(1) ad e option.case length_map x u a by simp
qed

definition bytes_at :: "u32 \<times> u8 list \<Rightarrow> u32 \<Rightarrow> nat \<Rightarrow> u8 list" where
  "bytes_at m a n = take n (drop (unat (a - fst m)) (Product_Type.snd m))"

lemma bytes_at_image:
  assumes "length P + k < 2 ^ 32"
  shows "bytes_at (base, P @ B) (base + of_nat (length P + k)) n = take n (drop k B)"
proof -
  have "unat (base + of_nat (length P + k) - base) = length P + k" using assms by (simp add: unat_of_nat del: of_nat_add)
  then show ?thesis by (simp add: bytes_at_def)
qed

text \<open>What a program finds for a name with value \<open>v\<close>: the value, the 16 random bytes or the string, behind a pointer of its own.\<close>

definition aux_given :: "u32 \<times> u8 list \<Rightarrow> (u32 \<Rightarrow> u8 list) \<Rightarrow> u32 \<Rightarrow> u32 \<Rightarrow> u32 \<Rightarrow> bool" where
  "aux_given m mem name v w \<longleftrightarrow>
     (if \<not> str_attrs name then w = v
      else if name = AT_RANDOM then 16 \<le> length (mem v) \<longrightarrow> bytes_at m w 16 = take 16 (mem v)
      else cstr_at m w = takeWhile (\<lambda>b. b \<noteq> 0) (mem v))"

text \<open>The list of names and values as it is passed, and what it means: the last value of a name counts, and two names have defaults.\<close>

definition aux_list :: "(u32 \<times> u32) list \<Rightarrow> u32 list" where "aux_list ps = concat (map (\<lambda>(name, v). [name, v]) ps) @ [0]"

definition aux_wanted :: "(u32 \<times> u32) list \<Rightarrow> u32 \<rightharpoonup> u32" where "aux_wanted ps = map_of (rev ps @ [(6, 4096), (8, 0)])"

lemma auxv_args_list:
  assumes "\<forall>(name, v) \<in> set ps. aux_name name"
  shows "\<exists>vals' present'. auxv_args (aux_list ps) vals present = Some (vals', present')
    \<and> (\<forall>name. unat name < 64 \<longrightarrow> (if bit present' (unat name) then Some (vals' (unat name)) else None)
         = (case map_of (rev ps) name of Some v \<Rightarrow> Some v | None \<Rightarrow> if bit present (unat name) then Some (vals (unat name)) else None))"
  using assms
proof (induction ps arbitrary: vals present)
  case Nil
  then show ?case by (simp add: aux_list_def)
next
  case (Cons p ps)
  obtain n v where p: "p = (n, v)" by (cases p)
  have n: "n \<noteq> 0" "n \<noteq> AT_IGNORE" "unat n < 64" using Cons.prems p by (auto simp: aux_name_def)
  have "auxv_args (aux_list (p # ps)) vals present = auxv_args (aux_list ps) (vals(unat n := v)) (present OR push_bit (unat n) 1)"
    using n by (simp add: aux_list_def p)
  moreover obtain vals' present' where "auxv_args (aux_list ps) (vals(unat n := v)) (present OR push_bit (unat n) 1) = Some (vals', present')"
    and ih: "\<And>name. unat name < 64 \<Longrightarrow> (if bit present' (unat name) then Some (vals' (unat name)) else None)
      = (case map_of (rev ps) name of Some v \<Rightarrow> Some v
         | None \<Rightarrow> if bit (present OR push_bit (unat n) 1) (unat name) then Some ((vals(unat n := v)) (unat name)) else None)"
    using Cons.IH [of "vals(unat n := v)" "present OR push_bit (unat n) 1"] Cons.prems by (auto simp del: push_bit_of_1 fun_upd_apply)
  moreover have "(case map_of (rev ps) name of Some v \<Rightarrow> Some v
         | None \<Rightarrow> if bit (present OR push_bit (unat n) 1) (unat name) then Some ((vals(unat n := v)) (unat name)) else None)
      = (case map_of (rev (p # ps)) name of Some v \<Rightarrow> Some v | None \<Rightarrow> if bit present (unat name) then Some (vals (unat name)) else None)"
    if "unat name < 64" for name
    using that by (auto simp: p map_add_def bit_or_iff bit_push_bit_iff bit_1_iff unsigned_word_eqI split: option.split simp del: push_bit_of_1)
  ultimately show ?case by simp
qed

lemma build_auxv_wanted:
  assumes ps: "\<forall>(name, v) \<in> set ps. aux_name name" and b: "build_auxv (aux_list ps) = Some auxv"
  shows "(name, v) \<in> set auxv \<longleftrightarrow> aux_wanted ps name = Some v"
proof -
  let ?v = "(\<lambda>_. 0)(6 := of_nat PAGE_SIZE)" and ?p = "push_bit 6 1 OR push_bit 8 1 :: u64"
  obtain vals present where a: "auxv_args (aux_list ps) ?v ?p = Some (vals, present)"
    and r: "\<And>name. unat name < 64 \<Longrightarrow> (if bit present (unat name) then Some (vals (unat name)) else None)
      = (case map_of (rev ps) name of Some v \<Rightarrow> Some v | None \<Rightarrow> if bit ?p (unat name) then Some (?v (unat name)) else None)"
    using auxv_args_list [OF ps, of ?v ?p] by blast
  have auxv: "auxv = map (\<lambda>n. (of_nat n, vals n)) (bit_loop present)" using b a by (simp add: build_auxv_def)
  have w: "aux_wanted ps name = (if bit present (unat name) then Some (vals (unat name)) else None)" if n: "unat name < 64"
  proof -
    have e: "name = 6 \<longleftrightarrow> unat name = 6" "name = 8 \<longleftrightarrow> unat name = 8" by (auto simp: word_unat_eq_iff)
    have "aux_wanted ps name = (case map_of (rev ps) name of Some v \<Rightarrow> Some v | None \<Rightarrow> if bit ?p (unat name) then Some (?v (unat name)) else None)"
      by (auto simp: aux_wanted_def map_add_def e bit_or_iff bit_push_bit_iff bit_1_iff split: option.split simp del: push_bit_of_1)
    then show ?thesis using r [OF n] by simp
  qed
  show ?thesis
  proof (cases "unat name < 64")
    case True
    have "(name, v) \<in> set auxv \<longleftrightarrow> bit present (unat name) \<and> v = vals (unat name)"
    proof
      assume "(name, v) \<in> set auxv"
      then obtain k where "k \<in> set (bit_loop present)" "name = of_nat k" "v = vals k" using auxv by auto
      then show "bit present (unat name) \<and> v = vals (unat name)" by (auto simp: bit_loop_eq unat_of_nat)
    next
      assume "bit present (unat name) \<and> v = vals (unat name)"
      then show "(name, v) \<in> set auxv" using True auxv by (auto simp: bit_loop_eq intro!: image_eqI [of _ _ "unat name"])
    qed
    then show ?thesis using w [OF True] by auto
  next
    case False
    have "(name, v) \<notin> set auxv" using build_auxv_names(2) [OF b] False by (auto simp: aux_name_def)
    moreover have "aux_wanted ps name = None"
    proof -
      have "name \<notin> fst ` set ps" using ps False by (auto simp: aux_name_def)
      moreover have "name \<noteq> 6" "name \<noteq> 8" using False by auto
      ultimately show ?thesis by (simp add: aux_wanted_def map_add_def map_of_eq_None_iff [THEN iffD2])
    qed
    ultimately show ?thesis by simp
  qed
qed

lemma build_auxv_list:
  assumes "\<forall>(name, v) \<in> set ps. aux_name name"
  shows "\<exists>auxv. build_auxv (aux_list ps) = Some auxv"
  using auxv_args_list [OF assms, of "(\<lambda>_. 0)(6 := of_nat PAGE_SIZE)" "push_bit 6 1 OR push_bit 8 1"] unfolding build_auxv_def by fastforce

text \<open>An entry of the vector, found through the stack.\<close>

lemma aux_entry_found:
  assumes b: "build_auxv al = Some auxv0" and x: "pack_auxv mem gap auxv0 = Some (auxv, auxbuf)" and nv: "(name, v) \<in> set auxv0"
    and small: "length P + length auxbuf < 2 ^ 32"
    and c: "crt_auxv c = foldl (aux_upd (base + of_nat (length P))) Map.empty auxv"
  shows "aux_given (base, P @ auxbuf @ Q) mem name v (getauxval c name)"
proof -
  let ?strs = "base + of_nat (length P)"
  note ok = pack_auxv_ok [OF x] and nm = build_auxv_names [OF b]
  obtain i where i: "i < length auxv0" "auxv0 ! i = (name, v)" using nv by (auto simp: in_set_conv_nth)
  obtain name' v' where y: "auxv ! i = (name', v')" by fastforce
  have il: "i < length auxv" using ok i(1) by (simp add: list_all2_lengthD)
  have en: "entry_ok mem auxbuf (name, v) (name', v')" using list_all2_nthD [OF ok i(1)] i(2) y by simp
  have u: "unat name < 64" using nm(2) nv by (auto simp: aux_name_def)
  note sm = small_mark [OF u]
  have nn: "name' AND NOT MARK = name" using en sm by (auto simp: entry_ok_def split: if_splits)
  have "(name', v') \<in> set auxv" using il y by (metis nth_mem)
  moreover have "distinct (map (\<lambda>e. fst e AND NOT MARK) auxv)" unfolding packed_names [OF ok nm(2)] by (rule nm(1))
  ultimately have "foldl (aux_upd ?strs) Map.empty auxv (unat (fst (name', v') AND NOT MARK)) = Some (aux_value ?strs (name', v'))"
    by (intro foldl_aux_upd)
  then have g: "getauxval c name = aux_value ?strs (name', v')" unfolding fst_conv nn using u c by (simp add: getauxval_def)
  show ?thesis
  proof (cases "str_attrs name")
    case False
    then show ?thesis using en g sm(1) by (simp add: entry_ok_def aux_value_def aux_given_def)
  next
    case True
    then obtain k where k: "name' = name OR MARK" "v' = of_nat k" "k < length auxbuf"
      "if name = AT_RANDOM then 16 \<le> length (mem v) \<longrightarrow> (\<forall>z. take 16 (drop k auxbuf @ z) = take 16 (mem v))
       else \<forall>z. takeWhile (\<lambda>b. b \<noteq> 0) (drop k auxbuf @ z) = takeWhile (\<lambda>b. b \<noteq> 0) (mem v)"
      using en by (auto simp: entry_ok_def)
    have "getauxval c name = base + of_nat (length P + k)"
      using g sm(2) by (simp add: aux_value_def k(1,2) algebra_simps)
    moreover have "cstr_at (base, P @ auxbuf @ Q) (base + of_nat (length P + k)) = takeWhile (\<lambda>b. b \<noteq> 0) (drop k auxbuf @ Q)"
      using small k(3) cstr_at_image [of P k "auxbuf @ Q" base] by simp
    moreover have "bytes_at (base, P @ auxbuf @ Q) (base + of_nat (length P + k)) 16 = take 16 (drop k auxbuf @ Q)"
      using small k(3) bytes_at_image [of P k base "auxbuf @ Q" 16] by (simp del: take_append)
    ultimately show ?thesis using True k(4) by (auto simp: aux_given_def simp del: take_append split: if_splits)
  qed
qed


text \<open>
  C5. Program start, from the caller of exec to the new program.  The arguments and the environment, none of them empty lists,
  packed by the C library, split and put on a stack by the root task, and found there by the start
  code, are the caller's, except that an empty last string is lost.  For every name of the auxiliary vector the program finds the last value
  the root task passed for it, or its default, or 0 if there is none; for the name of a string it finds a pointer to the string, and
  for the random bytes a pointer to the same 16 bytes.  It holds wherever the stack is, whatever uninitialized memory contains, as long
  as strings have no NUL and no record separator, allocations succeed and the image does not reach address 0.
\<close>

theorem startup_stack_roundtrip:
  assumes pack: "pack_argbuf True args = Some (Some argbuf)" "pack_argbuf True envs = Some (Some envbuf)"
    and clean: "\<forall>x \<in> set args \<union> set envs. 0 \<notin> set x \<and> RECSEP \<notin> set x"
    and ps: "\<forall>(name, v) \<in> set ps. name \<noteq> 0 \<and> name \<noteq> AT_IGNORE \<and> unat name < 64"
    and up: "upload_startup_stack True vm_n mem gap junk sp stklim argbuf envbuf (aux_list ps) = Some (n, Some (base, img), sp')"
    and small: "length img < unat sp"
  shows "\<exists>c. start_crt (length img) (base, img) sp' = Some c
     \<and> map (cstr_at (base, img)) (crt_argv c) = seen args \<and> map (cstr_at (base, img)) (crt_envp c) = seen envs
     \<and> (\<forall>name. case aux_wanted ps name of None \<Rightarrow> getauxval c name = 0 | Some v \<Rightarrow> aux_given (base, img) mem name v (getauxval c name))"
proof -
  have nz: "0 \<notin> set buf" if "pack_argbuf True xs = Some (Some buf)" "\<forall>x \<in> set xs. 0 \<notin> set x" for xs buf
    using that by (auto simp: pack_argbuf_def pack_argbuf_loop_concat Let_def split: if_splits dest!: in_set_butlastD)
  have ps': "\<forall>(name, v) \<in> set ps. aux_name name" using ps by (simp add: aux_name_def)
  obtain auxv0 where b: "build_auxv (aux_list ps) = Some auxv0" using build_auxv_list [OF ps'] by blast
  obtain auxv auxbuf where x: "pack_auxv mem gap auxv0 = Some (auxv, auxbuf)" using up b by (auto simp: upload_startup_stack_def split: if_splits option.splits)
  obtain argv as where a: "strsplit_offsets 0 argbuf = (argv, as)" by fastforce
  obtain envp es where e: "strsplit_offsets 0 envbuf = (envp, es)" by fastforce
  obtain P M Q bsp meta where meta: "meta = meta_words bsp stklim argv (length as) envp (length es) auxv"
    and img: "img = P @ concat (map le_bytes meta) @ M @ (as @ [0] @ es @ [0] @ auxbuf) @ Q"
    and ad: "sp' = base + of_nat (length P)" "bsp = base + of_nat (length P + 4 * length meta + length M)" "sp = base + of_nat (length img)"
    and ml: "4 * length meta + 3 \<le> length img"
    using upload_layout [OF up b x a e] by blast
  let ?m = "(base, img)" and ?bo = "length P + 4 * length meta + length M"
  have small': "length img < 2 ^ 32" by (rule less_trans [OF small]) (rule unsigned_less [THEN less_le_trans], simp)
  have li: "length img = ?bo + length as + 1 + length es + 1 + length auxbuf + length Q" using img by simp
  have lm: "length argv < length meta" "length envp < length meta" "length auxv < length meta"
    unfolding meta by (simp_all add: meta_words_def)
  have reads: "reads ?m sp' meta"
    unfolding ad(1) img using li small' by (intro reads_image) (simp add: img)
  have E: "of_nat i + bsp + of_nat (length as) + 1 = base + of_nat (?bo + length as + 1 + i)" for i
    by (simp add: ad(2) algebra_simps)
  have ei: "i < length es" if "i \<in> set envp" for i
    using strsplit_offsets_correct [OF e] nz [OF pack(2)] clean that by auto
  have "base + of_nat (?bo + length as + 1 + i) \<noteq> 0" if "i \<in> set envp" for i
    by (rule nonzero_below [OF ad(3) small]) (use ei [OF that] li in simp)
  then have nzE: "0 \<notin> set (map (\<lambda>i. of_nat i + bsp + of_nat (length as) + 1) envp)"
    unfolding E set_map by force
  note ok = pack_auxv_ok [OF x] and nm = build_auxv_names [OF b]
  note pn = packed_names [OF ok nm(2)]
  have names: "\<forall>e \<in> set auxv. aux_name (fst e AND NOT MARK)"
  proof
    fix e assume "e \<in> set auxv"
    then have "fst e AND NOT MARK \<in> set (map fst auxv0)" unfolding pn [symmetric] by simp
    then show "aux_name (fst e AND NOT MARK)" using nm(2) by auto
  qed
  let ?strs = "bsp + of_nat (length as) + of_nat (length es) + 2"
  let ?c = "\<lparr>crt_argv = map (\<lambda>i. of_nat i + bsp) argv, crt_envp = map (\<lambda>i. of_nat i + bsp + of_nat (length as) + 1) envp,
     crt_auxv = foldl (aux_upd ?strs) Map.empty auxv\<rparr>"
  have start: "start_crt (length img) ?m sp' = Some ?c"
    using lm ml small' by (intro start_crt_reads [OF reads [unfolded meta]] nzE names) simp_all
  have A: "map (cstr_at ?m) (crt_argv ?c) = seen args"
  proof -
    have "map (\<lambda>i. cstr_at (base, P @ (concat (map le_bytes meta) @ M) @ as @ 0 # es @ [0] @ auxbuf @ Q) (base + of_nat (?bo + i))) argv = split_segs argbuf"
      using li small' nz [OF pack(1)] clean by (intro strings_found [OF a]) auto
    moreover have "of_nat i + bsp = base + of_nat (?bo + i)" for i by (simp add: ad(2))
    ultimately show ?thesis using split_pack [OF pack(1)] clean by (simp add: img o_def del: of_nat_add)
  qed
  have B: "map (cstr_at ?m) (crt_envp ?c) = seen envs"
  proof -
    have "map (\<lambda>i. cstr_at (base, P @ (concat (map le_bytes meta) @ M @ as @ [0]) @ es @ 0 # auxbuf @ Q) (base + of_nat (?bo + length as + 1 + i))) envp
        = split_segs envbuf"
      using li small' nz [OF pack(2)] clean by (intro strings_found [OF e]) auto
    then show ?thesis using split_pack [OF pack(2)] clean unfolding crt.select_convs E by (simp add: img o_def del: of_nat_add)
  qed
  have C: "aux_given ?m mem name v (getauxval ?c name)" if nv: "(name, v) \<in> set auxv0" for name v
  proof -
    let ?P = "P @ concat (map le_bytes meta) @ M @ as @ [0] @ es @ [0]"
    have s: "?strs = base + of_nat (length ?P)" by (simp add: ad(2) algebra_simps)
    have i: "?P @ auxbuf @ Q = img" by (simp add: img)
    have "length ?P + length auxbuf < 2 ^ 32" using li small' by simp
    from aux_entry_found [OF b x nv this, of ?c base Q] show ?thesis unfolding i s by simp
  qed
  have D: "getauxval ?c name = 0" if "\<forall>v. (name, v) \<notin> set auxv0" for name
  proof -
    have "name \<notin> set (map (\<lambda>e. fst e AND NOT MARK) auxv)" using that unfolding pn by auto
    then have "unat name \<notin> set (map (\<lambda>e. unat (fst e AND NOT MARK)) auxv)" by (auto simp: image_iff unsigned_word_eqI)
    then show ?thesis using foldl_aux_upd_other [of name auxv ?strs Map.empty] by (simp add: getauxval_def)
  qed
  have W: "case aux_wanted ps name of None \<Rightarrow> getauxval ?c name = 0 | Some v \<Rightarrow> aux_given ?m mem name v (getauxval ?c name)" for name
    using C D build_auxv_wanted [OF ps' b] by (auto split: option.split)
  show ?thesis using start A B W by blast
qed

lemma upload_defined:
  assumes "sp AND 4095 = 0" "build_auxv al = Some auxv" "pack_auxv mem gap auxv = Some ab"
  shows "\<exists>base img sp'. upload_startup_stack True 0 mem gap junk sp stklim argbuf envbuf al = Some (0, Some (base, img), sp')"
  using assms by (cases ab) (simp add: upload_startup_stack_def Let_def split: prod.split)

theorem startup_stack_roundtrip_witness:
  "\<exists>base img sp' c. upload_startup_stack True 0 (\<lambda>p. if p = 9 then replicate 16 65 else [120, 0]) 0 (\<lambda>_. 0) 0xff000 0 [97, 30, 98] [99] [11, 5, 25, 9, 31, 7, 0]
         = Some (0, Some (base, img), sp')
     \<and> start_crt (length img) (base, img) sp' = Some c
     \<and> map (cstr_at (base, img)) (crt_argv c) = [[97], [98]] \<and> map (cstr_at (base, img)) (crt_envp c) = [[99]]
     \<and> getauxval c 11 = 5 \<and> getauxval c 6 = 4096 \<and> getauxval c 12 = 0 \<and> cstr_at (base, img) (getauxval c 31) = [120]
     \<and> bytes_at (base, img) (getauxval c 25) 16 = replicate 16 65"
proof -
  let ?mem = "\<lambda>p :: u32. if p = 9 then replicate 16 65 else [120, 0]"
  let ?ps = "[(11, 5), (25, 9), (31, 7)] :: (u32 \<times> u32) list"
  have p: "pack_argbuf True [[97], [98]] = Some (Some [97, 30, 98])" "pack_argbuf True [[99]] = Some (Some [99])" by (simp_all add: pack_argbuf_def)
  have l: "aux_list ?ps = [11, 5, 25, 9, 31, 7, 0]" by (simp add: aux_list_def)
  have b: "build_auxv (aux_list ?ps) = Some [(6, 4096), (8, 0), (11, 5), (25, 9), (31, 7)]" unfolding l by code_simp
  have x: "pack_auxv ?mem 0 [(6, 4096), (8, 0), (11, 5), (25, 9), (31, 7)]
      = Some ([(6, 4096), (8, 0), (11, 5), (0x80000019, 0), (0x8000001f, 17)], replicate 16 65 @ [0, 120, 0])"
    by (simp add: pack_auxv_def str_attrs_def)
  have s: "strsplit_offsets 0 [97, 30, 98] = ([0, 2], [97, 0, 98])" "strsplit_offsets 0 [99] = ([0], [99])"
    by (simp_all add: strsplit_offsets.simps)
  obtain base img sp' where up: "upload_startup_stack True 0 ?mem 0 (\<lambda>_. 0) 0xff000 0 [97, 30, 98] [99] (aux_list ?ps) = Some (0, Some (base, img), sp')"
    using upload_defined [OF _ b x] by force
  have "length img \<le> 20000" using upload_layout [OF up b x s] by (auto simp: meta_words_def)
  then have small: "length img < unat (0xff000 :: u32)" by simp
  obtain c where c: "start_crt (length img) (base, img) sp' = Some c" "map (cstr_at (base, img)) (crt_argv c) = seen [[97], [98]]"
    "map (cstr_at (base, img)) (crt_envp c) = seen [[99]]"
    and w: "\<And>name. case aux_wanted ?ps name of None \<Rightarrow> getauxval c name = 0 | Some v \<Rightarrow> aux_given (base, img) ?mem name v (getauxval c name)"
    using startup_stack_roundtrip [OF p _ _ up small] by auto
  have "getauxval c 11 = 5" "getauxval c 6 = 4096" "getauxval c 12 = 0" "cstr_at (base, img) (getauxval c 31) = [120]"
    "bytes_at (base, img) (getauxval c 25) 16 = replicate 16 65"
    using w [of 11] w [of 6] w [of 12] w [of 31] w [of 25] by (simp_all add: aux_wanted_def aux_given_def str_attrs_def)
  then show ?thesis using up c unfolding l by (auto simp: seen_def)
qed

end
