(* ===== verification/Elf_Image.thy ===== *)
theory Elf_Image
  imports Prelude
begin

text \<open>
  The reader of executable files, \<open>read_elf\<close> of \<^verbatim>\<open>root/uapi.c\<close>.  A file is the list of its bytes; a read
  past its end fails with the given \<open>errno\<close>, 0 for a plain end of file.  The program headers are
  read in chunks of at most sixteen from where the ELF header ends, whatever \<open>e_phoff\<close> and \<open>e_phentsize\<close> say, which is the same as one
  after the other.  \<open>None\<close> is the failed assertion.
\<close>

abbreviation (input) ENOEXEC :: int where "ENOEXEC \<equiv> 8"

record elf32_phdr =
  p_type :: u32
  p_offset :: u32
  p_vaddr :: u32
  p_paddr :: u32
  p_filesz :: u32
  p_memsz :: u32
  p_flags :: u32
  p_align :: u32

record loadseg =
  virt_addr :: u32
  fileoff :: u32
  filesz :: u32
  memsz :: u32
  prot :: nat
  sflags :: nat

record program_image =
  hi :: u32
  lo :: u32
  start :: u32
  segs :: "loadseg list"

definition le16_at :: "u8 list \<Rightarrow> nat \<Rightarrow> nat" where
  "le16_at fl i = unat (fl ! i) + 256 * unat (fl ! (i + 1))"

definition le32_at :: "u8 list \<Rightarrow> nat \<Rightarrow> u32" where
  "le32_at fl i = of_nat (le16_at fl i + 65536 * le16_at fl (i + 2))"

abbreviation (input) EHDR_SIZE :: nat where "EHDR_SIZE \<equiv> 52"
abbreviation (input) PHDR_SIZE :: nat where "PHDR_SIZE \<equiv> 32"

definition e_phnum :: "u8 list \<Rightarrow> nat" where "e_phnum fl = le16_at fl 44"

definition phdr_at :: "u8 list \<Rightarrow> nat \<Rightarrow> elf32_phdr" where
  "phdr_at fl h = (let o' = EHDR_SIZE + PHDR_SIZE * h in
     \<lparr>p_type = le32_at fl o', p_offset = le32_at fl (o' + 4), p_vaddr = le32_at fl (o' + 8),
      p_paddr = le32_at fl (o' + 12), p_filesz = le32_at fl (o' + 16), p_memsz = le32_at fl (o' + 20),
      p_flags = le32_at fl (o' + 24), p_align = le32_at fl (o' + 28)\<rparr>)"

definition page_ceil :: "u32 \<Rightarrow> u32" where "page_ceil x = (x + 0xfff) AND NOT 0xfff"

text \<open>One program header: \<open>Inl\<close> for a file that cannot be executed.\<close>

definition add_phdr :: "elf32_phdr \<Rightarrow> program_image \<Rightarrow> (unit + program_image) option" where
  "add_phdr ep img =
     (if p_type ep \<noteq> 1 then Some (Inr img)
      else if p_vaddr ep AND 0xfff \<noteq> 0 then Some (Inl ())
      else if p_filesz ep > 0 \<and> p_offset ep AND 0xfff \<noteq> 0 then Some (Inl ())
      else
        let fseg = \<lparr>virt_addr = p_vaddr ep, fileoff = p_offset ep, filesz = p_filesz ep, memsz = page_ceil (p_filesz ep),
              prot = 7, sflags = 0x12\<rparr>;
            tailsz = (if p_filesz ep > 0 then page_ceil (p_memsz ep) - memsz fseg else page_ceil (p_memsz ep));
            aseg = \<lparr>virt_addr = page_ceil (p_vaddr ep + p_filesz ep), fileoff = 0, filesz = 0, memsz = tailsz, prot = 3, sflags = 0x32\<rparr>
        in if p_filesz ep > 0 \<and> sint tailsz < 0 then None
           else Some (Inr (img\<lparr>segs := segs img @ (if p_filesz ep > 0 then [fseg] else []) @ (if sint tailsz > 0 then [aseg] else []),
                  lo := min (lo img) (p_vaddr ep), hi := max (hi img) (page_ceil (p_vaddr ep + p_memsz ep))\<rparr>)))"

fun read_phdrs :: "u8 list \<Rightarrow> int \<Rightarrow> nat list \<Rightarrow> program_image \<Rightarrow> (int + program_image) option" where
  "read_phdrs fl err [] img = Some (Inr img)"
| "read_phdrs fl err (h # hs) img =
     (if length fl < EHDR_SIZE + PHDR_SIZE * (h + 1) then Some (Inl (if err = 0 then - ENOEXEC else - err))
      else case add_phdr (phdr_at fl h) img of None \<Rightarrow> None
      | Some (Inl _) \<Rightarrow> Some (Inl (- ENOEXEC))
      | Some (Inr img) \<Rightarrow> read_phdrs fl err hs img)"

definition read_elf :: "bool \<Rightarrow> int \<Rightarrow> u8 list \<Rightarrow> (int + program_image) option" where
  "read_elf mem_ok err fl =
     (if length fl < EHDR_SIZE then Some (Inl (if err = 0 then - ENOEXEC else - err))
      else if take 4 fl \<noteq> [0x7f, 0x45, 0x4c, 0x46] then Some (Inl (- ENOEXEC))
      else if \<not> mem_ok then Some (Inl (- ENOMEM))
      else read_phdrs fl err [0..<e_phnum fl] \<lparr>hi = 0, lo = -1, start = le32_at fl 24, segs = []\<rparr>)"

section \<open>Segments cover the program\<close>

definition seg_pages :: "loadseg \<Rightarrow> nat list" where
  "seg_pages s = [unat (virt_addr s) div 4096 ..< (unat (virt_addr s) + unat (memsz s)) div 4096]"

definition phdr_pages :: "elf32_phdr \<Rightarrow> nat list" where
  "phdr_pages ep = (if p_type ep = 1 then [unat (p_vaddr ep) div 4096 ..< (unat (p_vaddr ep) + unat (p_memsz ep) + 4095) div 4096] else [])"

text \<open>What the format requires of a loadable header, with addresses below the kernel's half.\<close>

definition phdr_ok :: "elf32_phdr \<Rightarrow> bool" where
  "phdr_ok ep \<longleftrightarrow> p_type ep = 1 \<longrightarrow> p_vaddr ep AND 0xfff = 0 \<and> (p_filesz ep > 0 \<longrightarrow> p_offset ep AND 0xfff = 0)
     \<and> p_filesz ep \<le> p_memsz ep \<and> unat (p_vaddr ep) + unat (p_memsz ep) + 4095 < 2 ^ 31"

lemma unat_drop12: "unat (drop_bit 12 x) = unat x div 4096" for x :: u32
  by (rule unat_drop_bit_eq [THEN trans]) (simp add: drop_bit_eq_div)

lemma unat_page_ceil:
  assumes "unat x + 4095 < 2 ^ 32"
  shows "unat (page_ceil x) = (unat x + 4095) div 4096 * 4096"
proof -
  define y where "y = x + 0xfff"
  have y: "unat y = unat x + 4095" using assms by (simp add: y_def unat_word_ariths)
  have m: "(0xfff :: u32) = mask 12" by (simp add: mask_eq_exp_minus_1)
  have "y AND NOT 0xfff = push_bit 12 (drop_bit 12 y)" unfolding m by (rule bit_word_eqI) (auto simp: bit_simps)
  also have "unat \<dots> = unat (drop_bit 12 y) * 4096"
  proof -
    have "unat (drop_bit 12 y) * 4096 < 2 ^ 32" unfolding unat_drop12 using y assms by linarith
    then show ?thesis by (simp add: push_bit_eq_mult unat_word_ariths del: drop_bit_numeral_bit0 drop_bit_numeral_bit1)
  qed
  finally show ?thesis unfolding unat_drop12 y by (simp add: page_ceil_def y_def)
qed

lemma page_aligned: "x AND 0xfff = 0 \<Longrightarrow> 4096 dvd unat (x :: u32)"
proof -
  assume a: "x AND 0xfff = 0"
  have m: "(0xfff :: u32) = mask 12" by (simp add: mask_eq_exp_minus_1)
  have "take_bit 12 x = 0" using a unfolding m take_bit_eq_mask .
  then have "take_bit 12 (unat x) = 0" by (metis unsigned_0 unsigned_take_bit_eq)
  then show ?thesis by (simp add: take_bit_eq_mod dvd_eq_mod_eq_0)
qed

lemma add_phdr_pages:
  assumes ok: "phdr_ok ep"
  shows "\<exists>img'. add_phdr ep img = Some (Inr img') \<and> concat (map seg_pages (segs img')) = concat (map seg_pages (segs img)) @ phdr_pages ep
     \<and> start img' = start img \<and> lo img' \<le> lo img \<and> hi img \<le> hi img'
     \<and> (\<forall>n \<in> set (phdr_pages ep). unat (lo img') \<le> n * 4096 \<and> (n + 1) * 4096 \<le> unat (hi img'))"
proof (cases "p_type ep = 1")
  case False
  then show ?thesis by (simp add: add_phdr_def phdr_pages_def)
next
  case True
  let ?v = "unat (p_vaddr ep)" and ?f = "unat (p_filesz ep)" and ?m = "unat (p_memsz ep)"
  have o: "p_vaddr ep AND 0xfff = 0" "p_filesz ep > 0 \<Longrightarrow> p_offset ep AND 0xfff = 0" "?f \<le> ?m" "?v + ?m + 4095 < 2 ^ 31"
    using ok True by (auto simp: phdr_ok_def word_le_nat_alt)
  obtain k where k: "?v = 4096 * k" using page_aligned [OF o(1)] by (auto elim: dvdE)
  have cf: "unat (page_ceil (p_filesz ep)) = (?f + 4095) div 4096 * 4096" and cm: "unat (page_ceil (p_memsz ep)) = (?m + 4095) div 4096 * 4096"
    using o(3,4) by (auto intro!: unat_page_ceil)
  have vf: "unat (p_vaddr ep + p_filesz ep) = ?v + ?f" "unat (p_vaddr ep + p_memsz ep) = ?v + ?m"
    using o(3,4) by (auto simp: unat_word_ariths)
  have cvf: "unat (page_ceil (p_vaddr ep + p_filesz ep)) = (?v + ?f + 4095) div 4096 * 4096"
    and cvm: "unat (page_ceil (p_vaddr ep + p_memsz ep)) = (?v + ?m + 4095) div 4096 * 4096"
    using o(3,4) vf by (auto simp: unat_page_ceil)
  define a b where "a = (?f + 4095) div 4096" and "b = (?m + 4095) div 4096"
  have ab: "a \<le> b" unfolding a_def b_def by (rule div_le_mono) (use o(3) in simp)
  have vab: "(?v + ?f + 4095) div 4096 = k + a" "(?v + ?m + 4095) div 4096 = k + b" by (simp_all add: k a_def b_def add.assoc)
  have b31: "b * 4096 < 2 ^ 31" using o(4) unfolding b_def by linarith
  let ?t = "if p_filesz ep > 0 then page_ceil (p_memsz ep) - page_ceil (p_filesz ep) else page_ceil (p_memsz ep)"
  have ut: "unat ?t = (b - a) * 4096"
  proof (cases "p_filesz ep > 0")
    case True
    have "page_ceil (p_filesz ep) \<le> page_ceil (p_memsz ep)" using cf cm ab by (simp add: word_le_nat_alt a_def b_def)
    then show ?thesis using True cf cm by (simp add: unat_sub a_def b_def diff_mult_distrib)
  next
    case False
    then have "?f = 0" by (simp add: word_less_nat_alt)
    then show ?thesis using False cm by (simp add: a_def b_def)
  qed
  have "unat ?t < 2 ^ 31" using ut b31 by (simp add: diff_mult_distrib)
  moreover have "sint w = int (unat w)" if "unat w < 2 ^ 31" for w :: u32
  proof -
    have "int (unat w) < int (2 ^ 31)" using that by (simp only: of_nat_less_iff)
    then have "uint w < 2 ^ 31" by simp
    moreover have "- (2 ^ 31) \<le> uint w" by (rule order_trans [of _ 0]) simp_all
    ultimately have "signed_take_bit 31 (uint w) = uint w" by (intro signed_take_bit_int_eq_self)
    then show ?thesis by (simp add: sint_uint)
  qed
  ultimately have st: "sint ?t = int ((b - a) * 4096)" using ut by metis
  have f0: "p_filesz ep > 0 \<or> a = 0" by (auto simp: a_def word_less_nat_alt)
  let ?fs = "\<lparr>virt_addr = p_vaddr ep, fileoff = p_offset ep, filesz = p_filesz ep, memsz = page_ceil (p_filesz ep), prot = 7, sflags = 0x12\<rparr>"
  let ?as = "\<lparr>virt_addr = page_ceil (p_vaddr ep + p_filesz ep), fileoff = 0, filesz = 0, memsz = ?t, prot = 3, sflags = 0x32\<rparr>"
  let ?new = "(if p_filesz ep > 0 then [?fs] else []) @ (if sint ?t > 0 then [?as] else [])"
  let ?img = "img\<lparr>segs := segs img @ ?new, lo := min (lo img) (p_vaddr ep), hi := max (hi img) (page_ceil (p_vaddr ep + p_memsz ep))\<rparr>"
  have "add_phdr ep img = Some (Inr ?img)"
    using True o(1,2) st unfolding add_phdr_def by (cases "p_filesz ep > 0") (simp_all add: Let_def)
  moreover have "concat (map seg_pages ?new) = [k..<k + b]"
  proof -
    have fs: "seg_pages ?fs = [k..<k + a]" by (simp add: seg_pages_def k cf a_def)
    have "(k + a) * 4096 + (b - a) * 4096 = (k + b) * 4096" using ab by (auto simp: le_iff_add algebra_simps)
    then have "unat (virt_addr ?as) div 4096 = k + a" "(unat (virt_addr ?as) + unat (memsz ?as)) div 4096 = k + b"
      unfolding loadseg.select_convs cvf vab ut by simp_all
    then have as: "seg_pages ?as = [k + a..<k + b]" unfolding seg_pages_def by (simp only:)
    have "[k..<k + a] @ [k + a..<k + b] = [k..<k + b]" using ab upt_add_eq_append [of k "k + a" "b - a"] by simp
    moreover have "sint ?t > 0 \<longleftrightarrow> a < b" unfolding st by auto
    ultimately show ?thesis using f0 ab fs as by auto
  qed
  moreover have "phdr_pages ep = [k..<k + b]" using True by (simp add: phdr_pages_def vab) (simp add: k)
  moreover have "unat (lo ?img) \<le> n * 4096 \<and> (n + 1) * 4096 \<le> unat (hi ?img)" if "n \<in> set [k..<k + b]" for n
  proof -
    have "unat (lo ?img) \<le> ?v" "(k + b) * 4096 \<le> unat (hi ?img)" using cvm vab by (simp_all add: min_def max_def word_le_nat_alt)
    moreover have "?v \<le> n * 4096" "(n + 1) * 4096 \<le> (k + b) * 4096" using that k by auto
    ultimately show ?thesis by linarith
  qed
  ultimately show ?thesis by (intro exI [of _ ?img]) simp
qed

lemma read_phdrs_pages:
  assumes "\<forall>h \<in> set hs. phdr_ok (phdr_at fl h) \<and> EHDR_SIZE + PHDR_SIZE * (h + 1) \<le> length fl"
  shows "\<exists>img'. read_phdrs fl err hs img = Some (Inr img')
     \<and> concat (map seg_pages (segs img')) = concat (map seg_pages (segs img)) @ concat (map (phdr_pages \<circ> phdr_at fl) hs)
     \<and> start img' = start img \<and> lo img' \<le> lo img \<and> hi img \<le> hi img'
     \<and> (\<forall>n \<in> set (concat (map (phdr_pages \<circ> phdr_at fl) hs)). unat (lo img') \<le> n * 4096 \<and> (n + 1) * 4096 \<le> unat (hi img'))"
  using assms
proof (induction hs arbitrary: img)
  case (Cons h hs)
  let ?in = "\<lambda>i n. unat (lo i) \<le> n * 4096 \<and> (n + 1) * 4096 \<le> unat (hi i)"
  obtain i1 where i1: "add_phdr (phdr_at fl h) img = Some (Inr i1)"
    "concat (map seg_pages (segs i1)) = concat (map seg_pages (segs img)) @ phdr_pages (phdr_at fl h)"
    "start i1 = start img" "lo i1 \<le> lo img" "hi img \<le> hi i1" "\<forall>n \<in> set (phdr_pages (phdr_at fl h)). ?in i1 n"
    using add_phdr_pages [of "phdr_at fl h" img] Cons.prems by auto
  obtain i2 where i2: "read_phdrs fl err hs i1 = Some (Inr i2)"
    "concat (map seg_pages (segs i2)) = concat (map seg_pages (segs i1)) @ concat (map (phdr_pages \<circ> phdr_at fl) hs)"
    "start i2 = start i1" "lo i2 \<le> lo i1" "hi i1 \<le> hi i2" "\<forall>n \<in> set (concat (map (phdr_pages \<circ> phdr_at fl) hs)). ?in i2 n"
    using Cons.IH [of i1] Cons.prems by (metis (no_types, lifting) list.set_intros(2))
  have "?in i2 n" if "n \<in> set (phdr_pages (phdr_at fl h))" for n
  proof -
    have "?in i1 n" using i1(6) that by blast
    moreover have "unat (lo i2) \<le> unat (lo i1)" "unat (hi i1) \<le> unat (hi i2)" using i2(4,5) by (simp_all add: word_le_nat_alt)
    ultimately show ?thesis by linarith
  qed
  moreover have "\<not> length fl < EHDR_SIZE + PHDR_SIZE * (h + 1)" using Cons.prems by (simp add: not_less)
  moreover have "lo i2 \<le> lo img" "hi img \<le> hi i2" using i1(4,5) i2(4,5) by auto
  ultimately show ?case
    using i1(1-3) i2(1-3,6) by (intro exI [of _ i2]) (simp add: ball_Un comp_def)
qed simp

text \<open>
  What the format says, read independently of the loader: where the program header table is and how long its
  entries are stand in the ELF header, and an entry's fields follow each other in it.
\<close>

definition e_phoff :: "u8 list \<Rightarrow> nat" where "e_phoff fl = unat (le32_at fl 28)"

definition e_phentsize :: "u8 list \<Rightarrow> nat" where "e_phentsize fl = le16_at fl 42"

definition header_at :: "u8 list \<Rightarrow> nat \<Rightarrow> elf32_phdr" where
  "header_at fl h = (let f = \<lambda>i. le32_at (drop (e_phoff fl + e_phentsize fl * h) fl) (4 * i) in
     \<lparr>p_type = f 0, p_offset = f 1, p_vaddr = f 2, p_paddr = f 3, p_filesz = f 4, p_memsz = f 5, p_flags = f 6, p_align = f 7\<rparr>)"

lemma le32_at_drop: "n + i + 3 < length fl \<Longrightarrow> le32_at (drop n fl) i = le32_at fl (n + i)"
  by (simp add: le32_at_def le16_at_def add.assoc)

lemma header_at_phdr:
  assumes "e_phoff fl = EHDR_SIZE" "e_phentsize fl = PHDR_SIZE" "EHDR_SIZE + PHDR_SIZE * (h + 1) \<le> length fl"
  shows "header_at fl h = phdr_at fl h"
  using assms by (simp add: header_at_def phdr_at_def le32_at_drop Let_def)

text \<open>
  C35. For an executable with the ELF magic whose program header table follows the ELF header at once (\<open>e_phoff\<close> 52) with entries
  of the standard size (\<open>e_phentsize\<close> 32), whose headers are all there and whose loadable headers
  are page-aligned, have no more file bytes than memory and end below 2 GiB, reading succeeds, and the
  pages of the segments, in order, are exactly the pages asked for by the headers at the offset the file names, each once per
  header; all of them lie between the image's bounds, and the entry point is the file's.
\<close>

theorem read_elf_covers:
  assumes "e_phoff fl = EHDR_SIZE" "e_phentsize fl = PHDR_SIZE"
    and "EHDR_SIZE + PHDR_SIZE * e_phnum fl \<le> length fl" "take 4 fl = [0x7f, 0x45, 0x4c, 0x46]"
    and "\<forall>h < e_phnum fl. phdr_ok (header_at fl h)"
  shows "\<exists>img. read_elf True err fl = Some (Inr img) \<and> start img = le32_at fl 24
     \<and> concat (map seg_pages (segs img)) = concat (map (phdr_pages \<circ> header_at fl) [0..<e_phnum fl])
     \<and> (\<forall>n \<in> set (concat (map seg_pages (segs img))). unat (lo img) \<le> n * 4096 \<and> (n + 1) * 4096 \<le> unat (hi img))"
proof -
  let ?hs = "[0..<e_phnum fl]"
  have len: "EHDR_SIZE + PHDR_SIZE * (h + 1) \<le> length fl" if "h < e_phnum fl" for h
  proof -
    have "PHDR_SIZE * (h + 1) \<le> PHDR_SIZE * e_phnum fl" using that by (intro mult_le_mono) simp_all
    then show ?thesis using assms(3) by linarith
  qed
  have same: "header_at fl h = phdr_at fl h" if "h < e_phnum fl" for h
    using header_at_phdr [OF assms(1,2) len [OF that]] .
  then have eq: "map (phdr_pages \<circ> header_at fl) ?hs = map (phdr_pages \<circ> phdr_at fl) ?hs" by simp
  have "\<forall>h \<in> set ?hs. phdr_ok (phdr_at fl h) \<and> EHDR_SIZE + PHDR_SIZE * (h + 1) \<le> length fl"
    using assms(5) same len by auto
  from read_phdrs_pages [OF this, of err "\<lparr>hi = 0, lo = -1, start = le32_at fl 24, segs = []\<rparr>"]
  obtain img where r: "read_phdrs fl err ?hs \<lparr>hi = 0, lo = -1, start = le32_at fl 24, segs = []\<rparr> = Some (Inr img)"
    and s: "start img = le32_at fl 24" and c: "concat (map seg_pages (segs img)) = concat (map (phdr_pages \<circ> phdr_at fl) ?hs)"
    and b: "\<forall>n \<in> set (concat (map (phdr_pages \<circ> phdr_at fl) ?hs)). unat (lo img) \<le> n * 4096 \<and> (n + 1) * 4096 \<le> unat (hi img)"
    unfolding program_image.select_convs list.map concat.simps append_Nil by blast
  have "read_elf True err fl = Some (Inr img)" using assms(3,4) r by (simp add: read_elf_def)
  then show ?thesis using s b unfolding eq c [symmetric] by (intro exI [of _ img] conjI refl)
qed

text \<open>A file with one loadable header: 16 bytes of file, two pages of memory at address 0x10000.\<close>

definition demo_elf :: "u8 list" where
  "demo_elf = [0x7f, 0x45, 0x4c, 0x46] @ replicate 20 0 @ [0x20, 0, 1, 0] @ [52, 0, 0, 0] @ replicate 10 0 @ [32, 0] @ [1, 0] @ replicate 6 0
     @ [1, 0, 0, 0] @ [0, 0x10, 0, 0] @ [0, 0, 1, 0] @ [0, 0, 0, 0] @ [0x10, 0, 0, 0] @ [0, 0x20, 0, 0] @ replicate 8 0"

theorem read_elf_covers_witness:
  "\<exists>img. read_elf True 0 demo_elf = Some (Inr img) \<and> concat (map seg_pages (segs img)) = [16, 17]"
proof -
  have d: "demo_elf = [0x7f, 0x45, 0x4c, 0x46, 0, 0, 0, 0, 0, 0, 0, 0, 0, 0, 0, 0, 0, 0, 0, 0, 0, 0, 0, 0, 0x20, 0, 1, 0, 52, 0, 0, 0,
     0, 0, 0, 0, 0, 0, 0, 0, 0, 0, 32, 0, 1, 0, 0, 0, 0, 0, 0, 0, 1, 0, 0, 0, 0, 0x10, 0, 0, 0, 0, 1, 0, 0, 0, 0, 0,
     0x10, 0, 0, 0, 0, 0x20, 0, 0, 0, 0, 0, 0, 0, 0, 0, 0]" by (simp add: demo_elf_def eval_nat_numeral)
  have n: "e_phoff demo_elf = 52" "e_phentsize demo_elf = 32" "e_phnum demo_elf = 1" "length demo_elf = 84"
    "take 4 demo_elf = [0x7f, 0x45, 0x4c, 0x46]"
    by (simp_all add: d e_phoff_def e_phentsize_def e_phnum_def le32_at_def le16_at_def)
  have f: "le32_at demo_elf 52 = 1" "le32_at demo_elf 56 = 0x1000" "le32_at demo_elf 60 = 0x10000" "le32_at demo_elf 64 = 0"
    "le32_at demo_elf 68 = 16" "le32_at demo_elf 72 = 0x2000" "le32_at demo_elf 76 = 0" "le32_at demo_elf 80 = 0"
    by (simp_all add: d le32_at_def le16_at_def)
  have "phdr_at demo_elf 0 = \<lparr>p_type = 1, p_offset = 0x1000, p_vaddr = 0x10000, p_paddr = 0, p_filesz = 16, p_memsz = 0x2000,
      p_flags = 0, p_align = 0\<rparr>"
    using f by (simp add: phdr_at_def)
  then have p: "header_at demo_elf 0 = \<lparr>p_type = 1, p_offset = 0x1000, p_vaddr = 0x10000, p_paddr = 0, p_filesz = 16, p_memsz = 0x2000,
      p_flags = 0, p_align = 0\<rparr>" using header_at_phdr [of demo_elf 0] n by simp
  then have "phdr_ok (header_at demo_elf 0)" "phdr_pages (header_at demo_elf 0) = [16, 17]"
    by (simp_all add: phdr_ok_def phdr_pages_def upt_rec)
  then show ?thesis using read_elf_covers [of demo_elf 0] n by auto
qed

end
