(* ===== verification/Rbtree.thy ===== *)
theory Rbtree
  imports Prelude
begin

text \<open>
  The red-black trees of \<^verbatim>\<open>lib/rbtree.c\<close>, which index the mappings of an address space.  The code follows
  parent pointers; here a node is a subtree together with the path to the root, the parent first, and a
  link of the path says which child was taken and holds the parent's colour, key and other
  child.  \<open>None\<close> is the use of a null pointer.  A tree is well-formed if it has the same number
  of black nodes on all ways down and no red node has a red child; insertion and removal keep that
  and return.
\<close>

datatype rb_color = RB_RED | RB_BLACK

datatype 'a rb_node = RB_NULL | RB_NODE rb_color "'a rb_node" 'a "'a rb_node"

datatype 'a rb_parent = LEFT_OF rb_color 'a "'a rb_node" | RIGHT_OF rb_color "'a rb_node" 'a

type_synonym 'a rb_path = "'a rb_parent list"

fun rb_up :: "'a rb_node \<Rightarrow> 'a rb_parent \<Rightarrow> 'a rb_node" where
  "rb_up t (LEFT_OF c x r) = RB_NODE c t x r"
| "rb_up t (RIGHT_OF c l x) = RB_NODE c l x t"

fun rb_root :: "'a rb_node \<Rightarrow> 'a rb_path \<Rightarrow> 'a rb_node" where
  "rb_root t [] = t"
| "rb_root t (p # ps) = rb_root (rb_up t p) ps"

fun rb_is_red :: "'a rb_node \<Rightarrow> bool" where
  "rb_is_red RB_NULL = False"
| "rb_is_red (RB_NODE c _ _ _) = (c = RB_RED)"

fun rb_set_color :: "rb_color \<Rightarrow> 'a rb_node \<Rightarrow> 'a rb_node" where
  "rb_set_color c RB_NULL = RB_NULL"
| "rb_set_color c (RB_NODE _ l x r) = RB_NODE c l x r"

abbreviation (input) rb_set_black :: "'a rb_node \<Rightarrow> 'a rb_node" where "rb_set_black \<equiv> rb_set_color RB_BLACK"
abbreviation (input) rb_set_red :: "'a rb_node \<Rightarrow> 'a rb_node" where "rb_set_red \<equiv> rb_set_color RB_RED"

fun rb_rotate_left :: "'a rb_node \<Rightarrow> 'a rb_node" where
  "rb_rotate_left (RB_NODE c l x (RB_NODE d m y r)) = RB_NODE d (RB_NODE c l x m) y r"
| "rb_rotate_left t = t"

fun rb_rotate_right :: "'a rb_node \<Rightarrow> 'a rb_node" where
  "rb_rotate_right (RB_NODE c (RB_NODE d l x m) y r) = RB_NODE d l x (RB_NODE c m y r)"
| "rb_rotate_right t = t"

section \<open>Insertion\<close>

text \<open>The loop that restores the colours above a red node.  After a rotation the node's parent is black.\<close>

fun rb_insert_color :: "'a rb_node \<Rightarrow> 'a rb_path \<Rightarrow> 'a rb_node option" where
  "rb_insert_color t [] = Some (rb_set_black t)"
| "rb_insert_color t [p] = (if rb_is_red (rb_up t p) then None else Some (rb_set_black (rb_up t p)))"
| "rb_insert_color t (p # LEFT_OF gc gx uncle # ps) =
     (if \<not> rb_is_red (rb_up t p) then Some (rb_set_black (rb_root t (p # LEFT_OF gc gx uncle # ps)))
      else if rb_is_red uncle
      then rb_insert_color (RB_NODE RB_RED (rb_set_black (rb_up t p)) gx (rb_set_black uncle)) ps
      else let parent = (case p of RIGHT_OF _ _ _ \<Rightarrow> rb_rotate_left (rb_up t p) | LEFT_OF _ _ _ \<Rightarrow> rb_up t p)
        in Some (rb_set_black (rb_root (rb_rotate_right (RB_NODE RB_RED (rb_set_black parent) gx uncle)) ps)))"
| "rb_insert_color t (p # RIGHT_OF gc uncle gx # ps) =
     (if \<not> rb_is_red (rb_up t p) then Some (rb_set_black (rb_root t (p # RIGHT_OF gc uncle gx # ps)))
      else if rb_is_red uncle
      then rb_insert_color (RB_NODE RB_RED (rb_set_black uncle) gx (rb_set_black (rb_up t p))) ps
      else let parent = (case p of LEFT_OF _ _ _ \<Rightarrow> rb_rotate_right (rb_up t p) | RIGHT_OF _ _ _ \<Rightarrow> rb_up t p)
        in Some (rb_set_black (rb_root (rb_rotate_left (RB_NODE RB_RED uncle gx (rb_set_black parent))) ps)))"

text \<open>Linking a new node where a search ended, and restoring the colours.\<close>

definition rb_insert_at :: "'a \<Rightarrow> 'a rb_path \<Rightarrow> 'a rb_node option" where
  "rb_insert_at x ps = rb_insert_color (RB_NODE RB_RED RB_NULL x RB_NULL) ps"

section \<open>Removal\<close>

text \<open>
  A removed black node leaves the paths through \<open>node\<close> one black node short.  \<open>erase_left\<close> is
  the body of the loop for a left child, from the second test on, when the sibling is black: it
  ends with a tree in place of the parent, or goes on at the parent.
\<close>

datatype 'a rb_step = RB_DONE "'a rb_node" | RB_CONT "'a rb_node"

fun rb_child_left :: "'a rb_node \<Rightarrow> 'a rb_node" where
  "rb_child_left RB_NULL = RB_NULL" | "rb_child_left (RB_NODE _ l _ _) = l"

fun rb_child_right :: "'a rb_node \<Rightarrow> 'a rb_node" where
  "rb_child_right RB_NULL = RB_NULL" | "rb_child_right (RB_NODE _ _ _ r) = r"

fun rb_map_left :: "('a rb_node \<Rightarrow> 'a rb_node) \<Rightarrow> 'a rb_node \<Rightarrow> 'a rb_node" where
  "rb_map_left f RB_NULL = RB_NULL" | "rb_map_left f (RB_NODE c l x r) = RB_NODE c (f l) x r"

fun rb_map_right :: "('a rb_node \<Rightarrow> 'a rb_node) \<Rightarrow> 'a rb_node \<Rightarrow> 'a rb_node" where
  "rb_map_right f RB_NULL = RB_NULL" | "rb_map_right f (RB_NODE c l x r) = RB_NODE c l x (f r)"

definition rb_erase_left :: "'a rb_node \<Rightarrow> rb_color \<Rightarrow> 'a \<Rightarrow> 'a rb_node \<Rightarrow> 'a rb_step option" where
  "rb_erase_left node pc px other =
     (if other = RB_NULL then None
      else if \<not> rb_is_red (rb_child_left other) \<and> \<not> rb_is_red (rb_child_right other)
      then Some (RB_CONT (RB_NODE pc node px (rb_set_red other)))
      else let other = (if \<not> rb_is_red (rb_child_right other)
                        then rb_rotate_right (rb_set_red (rb_map_left rb_set_black other)) else other)
        in Some (RB_DONE (rb_rotate_left (RB_NODE RB_BLACK node px (rb_map_right rb_set_black (rb_set_color pc other))))))"

definition rb_erase_right :: "'a rb_node \<Rightarrow> rb_color \<Rightarrow> 'a \<Rightarrow> 'a rb_node \<Rightarrow> 'a rb_step option" where
  "rb_erase_right node pc px other =
     (if other = RB_NULL then None
      else if \<not> rb_is_red (rb_child_left other) \<and> \<not> rb_is_red (rb_child_right other)
      then Some (RB_CONT (RB_NODE pc (rb_set_red other) px node))
      else let other = (if \<not> rb_is_red (rb_child_left other)
                        then rb_rotate_left (rb_set_red (rb_map_right rb_set_black other)) else other)
        in Some (RB_DONE (rb_rotate_right (RB_NODE RB_BLACK (rb_map_left rb_set_black (rb_set_color pc other)) px node))))"

lemma rb_erase_left_cont: "rb_erase_left node pc px other = Some (RB_CONT t) \<Longrightarrow> t = RB_NODE pc node px (rb_set_red other)"
  by (auto simp: rb_erase_left_def Let_def split: if_splits)

lemma rb_erase_right_cont: "rb_erase_right node pc px other = Some (RB_CONT t) \<Longrightarrow> t = RB_NODE pc (rb_set_red other) px node"
  by (auto simp: rb_erase_right_def Let_def split: if_splits)

text \<open>A red sibling is rotated above the parent, which becomes red; going on at the parent then ends the loop.\<close>

function rb_erase_color :: "'a rb_node \<Rightarrow> 'a rb_path \<Rightarrow> 'a rb_node option" where
  "rb_erase_color node [] = Some (rb_set_black node)"
| "rb_erase_color node (LEFT_OF pc px other # ps) =
     (if rb_is_red node then Some (rb_root (rb_set_black node) (LEFT_OF pc px other # ps))
      else let (pc, other, ps) = (case other of
            RB_NODE RB_RED l x r \<Rightarrow> (RB_RED, l, LEFT_OF RB_BLACK x r # ps) | _ \<Rightarrow> (pc, other, ps))
      in case rb_erase_left node pc px other of None \<Rightarrow> None
         | Some (RB_DONE t) \<Rightarrow> Some (rb_set_black (rb_root t ps))
         | Some (RB_CONT t) \<Rightarrow> rb_erase_color t ps)"
| "rb_erase_color node (RIGHT_OF pc other px # ps) =
     (if rb_is_red node then Some (rb_root (rb_set_black node) (RIGHT_OF pc other px # ps))
      else let (pc, other, ps) = (case other of
            RB_NODE RB_RED l x r \<Rightarrow> (RB_RED, r, RIGHT_OF RB_BLACK l x # ps) | _ \<Rightarrow> (pc, other, ps))
      in case rb_erase_right node pc px other of None \<Rightarrow> None
         | Some (RB_DONE t) \<Rightarrow> Some (rb_set_black (rb_root t ps))
         | Some (RB_CONT t) \<Rightarrow> rb_erase_color t ps)"
  by pat_completeness auto

termination
  by (relation "measure (\<lambda>(node, ps). 2 * length ps + (if rb_is_red node then 0 else 1))")
    (auto dest!: rb_erase_left_cont rb_erase_right_cont rb_erase_left_cont [OF sym] rb_erase_right_cont [OF sym] split: if_splits rb_node.splits rb_color.splits)

declare rb_erase_color.simps(2,3) [simp del]

text \<open>The way down to the leftmost node of a subtree.\<close>

fun rb_leftmost :: "rb_color \<Rightarrow> 'a rb_node \<Rightarrow> 'a \<Rightarrow> 'a rb_node \<Rightarrow> 'a rb_path \<Rightarrow> rb_color \<times> 'a \<times> 'a rb_node \<times> 'a rb_path" where
  "rb_leftmost c RB_NULL x r ps = (c, x, r, ps)"
| "rb_leftmost c (RB_NODE d l y m) x r ps = rb_leftmost d l y m (LEFT_OF c x r # ps)"

text \<open>Removal of the node with children \<open>l\<close> and \<open>r\<close>, whose parents are \<open>ps\<close>: with two children, the leftmost
  node of the right subtree takes its place and colour.\<close>

definition rb_erase_at :: "rb_color \<Rightarrow> 'a rb_node \<Rightarrow> 'a rb_node \<Rightarrow> 'a rb_path \<Rightarrow> 'a rb_node option" where
  "rb_erase_at c l r ps =
     (case (l, r) of
        (RB_NULL, _) \<Rightarrow> if c = RB_BLACK then rb_erase_color r ps else Some (rb_root r ps)
      | (_, RB_NULL) \<Rightarrow> if c = RB_BLACK then rb_erase_color l ps else Some (rb_root l ps)
      | (_, RB_NODE d rl y rr) \<Rightarrow>
          let (color, nx, child, down) = rb_leftmost d rl y rr []; ps' = down @ RIGHT_OF c l nx # ps
          in if color = RB_BLACK then rb_erase_color child ps' else Some (rb_root child ps'))"

section \<open>Navigation\<close>

text \<open>A pointer to a node: the node that satisfies \<open>P\<close>, with the path to the root.\<close>

fun rb_locate :: "('a \<Rightarrow> bool) \<Rightarrow> 'a rb_node \<Rightarrow> 'a rb_path \<Rightarrow> (rb_color \<times> 'a rb_node \<times> 'a \<times> 'a rb_node \<times> 'a rb_path) option" where
  "rb_locate P RB_NULL ps = None"
| "rb_locate P (RB_NODE c l x r) ps =
     (if P x then Some (c, l, x, r, ps)
      else case rb_locate P l (LEFT_OF c x r # ps) of Some z \<Rightarrow> Some z | None \<Rightarrow> rb_locate P r (RIGHT_OF c l x # ps))"

definition rb_erase :: "('a \<Rightarrow> bool) \<Rightarrow> 'a rb_node \<Rightarrow> 'a rb_node option" where
  "rb_erase P t = (case rb_locate P t [] of None \<Rightarrow> None | Some (c, l, x, r, ps) \<Rightarrow> rb_erase_at c l r ps)"

fun rb_first :: "'a rb_node \<Rightarrow> 'a option" where
  "rb_first RB_NULL = None"
| "rb_first (RB_NODE c RB_NULL x r) = Some x"
| "rb_first (RB_NODE c l x r) = rb_first l"

fun rb_last :: "'a rb_node \<Rightarrow> 'a option" where
  "rb_last RB_NULL = None"
| "rb_last (RB_NODE c l x RB_NULL) = Some x"
| "rb_last (RB_NODE c l x r) = rb_last r"

text \<open>The way up while the node is a right child, and while it is a left child.\<close>

fun rb_up_next :: "'a rb_path \<Rightarrow> 'a option" where
  "rb_up_next [] = None"
| "rb_up_next (RIGHT_OF c l x # ps) = rb_up_next ps"
| "rb_up_next (LEFT_OF c x r # ps) = Some x"

fun rb_up_prev :: "'a rb_path \<Rightarrow> 'a option" where
  "rb_up_prev [] = None"
| "rb_up_prev (LEFT_OF c x r # ps) = rb_up_prev ps"
| "rb_up_prev (RIGHT_OF c l x # ps) = Some x"

definition rb_next :: "('a \<Rightarrow> bool) \<Rightarrow> 'a rb_node \<Rightarrow> 'a option" where
  "rb_next P t = (case rb_locate P t [] of None \<Rightarrow> None
     | Some (c, l, x, r, ps) \<Rightarrow> if r \<noteq> RB_NULL then rb_first r else rb_up_next ps)"

definition rb_prev :: "('a \<Rightarrow> bool) \<Rightarrow> 'a rb_node \<Rightarrow> 'a option" where
  "rb_prev P t = (case rb_locate P t [] of None \<Rightarrow> None
     | Some (c, l, x, r, ps) \<Rightarrow> if l \<noteq> RB_NULL then rb_last l else rb_up_prev ps)"

section \<open>Well-formed trees\<close>

text \<open>\<open>rb_bh h t\<close>: every way down passes \<open>h\<close> black nodes, and red nodes have black children.  \<open>rb_way h ps\<close>: the
  path makes a well-formed tree of a subtree with black height \<open>h\<close>.\<close>

fun rb_bh :: "nat \<Rightarrow> 'a rb_node \<Rightarrow> bool" where
  "rb_bh h RB_NULL = (h = 0)"
| "rb_bh h (RB_NODE RB_RED l x r) = (\<not> rb_is_red l \<and> \<not> rb_is_red r \<and> rb_bh h l \<and> rb_bh h r)"
| "rb_bh h (RB_NODE RB_BLACK l x r) = (\<exists>k. h = Suc k \<and> rb_bh k l \<and> rb_bh k r)"

definition rb_tree :: "'a rb_node \<Rightarrow> bool" where "rb_tree t \<longleftrightarrow> \<not> rb_is_red t \<and> (\<exists>h. rb_bh h t)"

fun rb_red_parent :: "'a rb_path \<Rightarrow> bool" where
  "rb_red_parent [] = False"
| "rb_red_parent (LEFT_OF c x r # ps) = (c = RB_RED)"
| "rb_red_parent (RIGHT_OF c l x # ps) = (c = RB_RED)"

fun rb_way :: "nat \<Rightarrow> 'a rb_path \<Rightarrow> bool" where
  "rb_way h [] = True"
| "rb_way h (LEFT_OF RB_RED x r # ps) = (rb_bh h r \<and> \<not> rb_is_red r \<and> ps \<noteq> [] \<and> \<not> rb_red_parent ps \<and> rb_way h ps)"
| "rb_way h (LEFT_OF RB_BLACK x r # ps) = (rb_bh h r \<and> rb_way (Suc h) ps)"
| "rb_way h (RIGHT_OF RB_RED l x # ps) = (rb_bh h l \<and> \<not> rb_is_red l \<and> ps \<noteq> [] \<and> \<not> rb_red_parent ps \<and> rb_way h ps)"
| "rb_way h (RIGHT_OF RB_BLACK l x # ps) = (rb_bh h l \<and> rb_way (Suc h) ps)"

fun rb_keys :: "'a rb_node \<Rightarrow> 'a list" where
  "rb_keys RB_NULL = []"
| "rb_keys (RB_NODE _ l x r) = rb_keys l @ x # rb_keys r"

fun rb_before :: "'a rb_path \<Rightarrow> 'a list" where
  "rb_before [] = []"
| "rb_before (LEFT_OF c x r # ps) = rb_before ps"
| "rb_before (RIGHT_OF c l x # ps) = rb_before ps @ rb_keys l @ [x]"

fun rb_after :: "'a rb_path \<Rightarrow> 'a list" where
  "rb_after [] = []"
| "rb_after (LEFT_OF c x r # ps) = x # rb_keys r @ rb_after ps"
| "rb_after (RIGHT_OF c l x # ps) = rb_after ps"

lemma rb_keys_set_color [simp]: "rb_keys (rb_set_color c t) = rb_keys t"
  by (cases t) auto

lemma rb_keys_rotate [simp]: "rb_keys (rb_rotate_left t) = rb_keys t" "rb_keys (rb_rotate_right t) = rb_keys t"
  by (induction t rule: rb_rotate_left.induct; simp) (induction t rule: rb_rotate_right.induct; simp)

lemma rb_keys_map [simp]:
  "(\<And>t. rb_keys (f t) = rb_keys t) \<Longrightarrow> rb_keys (rb_map_left f t) = rb_keys t"
  "(\<And>t. rb_keys (f t) = rb_keys t) \<Longrightarrow> rb_keys (rb_map_right f t) = rb_keys t"
  by (cases t; simp)+

lemma rb_keys_root [simp]: "rb_keys (rb_root t ps) = rb_before ps @ rb_keys t @ rb_after ps"
proof (induction ps arbitrary: t)
  case (Cons p ps)
  then show ?case by (cases p) simp_all
qed simp

lemma rb_insert_color_keys:
  "rb_insert_color t ps = Some t' \<Longrightarrow> rb_keys t' = rb_before ps @ rb_keys t @ rb_after ps"
proof (induction t ps rule: rb_insert_color.induct)
  case (2 t p)
  then show ?case by (cases p) (auto split: if_splits)
next
  case (3 t p gc gx uncle ps)
  then show ?case by (cases p) (auto simp: Let_def split: if_splits)
next
  case (4 t p gc uncle gx ps)
  then show ?case by (cases p) (auto simp: Let_def split: if_splits)
qed auto

fun rb_step_keys :: "'a rb_step \<Rightarrow> 'a list" where
  "rb_step_keys (RB_DONE t) = rb_keys t" | "rb_step_keys (RB_CONT t) = rb_keys t"

lemma rb_erase_left_keys: "rb_erase_left node pc px other = Some s \<Longrightarrow> rb_step_keys s = rb_keys node @ px # rb_keys other"
  by (auto simp: rb_erase_left_def Let_def split: if_splits)

lemma rb_erase_right_keys: "rb_erase_right node pc px other = Some s \<Longrightarrow> rb_step_keys s = rb_keys other @ px # rb_keys node"
  by (auto simp: rb_erase_right_def Let_def split: if_splits)

lemma rb_bh_set_black: "rb_bh h t \<Longrightarrow> \<exists>k. rb_bh k (rb_set_black t)"
  by (cases "(h, t)" rule: rb_bh.cases) auto

lemma rb_set_black_not_red [simp]: "\<not> rb_is_red (rb_set_black t)"
  by (cases t) auto

lemma rb_tree_root: "rb_bh h t \<Longrightarrow> rb_way h ps \<Longrightarrow> \<not> (rb_is_red t \<and> rb_red_parent ps) \<Longrightarrow> rb_tree (rb_set_black (rb_root t ps))"
proof (induction ps arbitrary: h t)
  case Nil
  then show ?case using rb_bh_set_black [of h t] by (auto simp: rb_tree_def)
next
  case (Cons p ps)
  show ?case
  proof (cases p)
    case (LEFT_OF c x r)
    with Cons.prems Cons.IH [of h "rb_up t p"] Cons.IH [of "Suc h" "rb_up t p"] show ?thesis by (cases c) auto
  next
    case (RIGHT_OF c l x)
    with Cons.prems Cons.IH [of h "rb_up t p"] Cons.IH [of "Suc h" "rb_up t p"] show ?thesis by (cases c) auto
  qed
qed

text \<open>The four shapes of a parent.\<close>

lemma rb_parent_color_cases [case_names left_red left_black right_red right_black]:
  obtains x r where "p = LEFT_OF RB_RED x r" | x r where "p = LEFT_OF RB_BLACK x r"
  | l x where "p = RIGHT_OF RB_RED l x" | l x where "p = RIGHT_OF RB_BLACK l x"
proof (cases p)
  case (LEFT_OF c x r)
  then show ?thesis using that(1,2) by (cases c) auto
next
  case (RIGHT_OF c l x)
  then show ?thesis using that(3,4) by (cases c) auto
qed

lemma rb_bh_red_node: "rb_is_red t \<Longrightarrow> rb_bh h t \<Longrightarrow> \<exists>l x r. t = RB_NODE RB_RED l x r \<and> \<not> rb_is_red l \<and> \<not> rb_is_red r \<and> rb_bh h l \<and> rb_bh h r"
  by (cases "(h, t)" rule: rb_bh.cases) auto

lemma rb_bh_black_red: "rb_is_red t \<Longrightarrow> rb_bh h t \<Longrightarrow> rb_bh (Suc h) (rb_set_black t)"
  by (auto dest!: rb_bh_red_node)

text \<open>The last step of an insertion: the rotation below a black grandparent.\<close>

definition rb_fix_left :: "'a rb_node \<Rightarrow> 'a rb_parent \<Rightarrow> 'a \<Rightarrow> 'a rb_node \<Rightarrow> 'a rb_node" where
  "rb_fix_left t p gx uncle = rb_rotate_right (RB_NODE RB_RED (rb_set_black (case p of RIGHT_OF _ _ _ \<Rightarrow> rb_rotate_left (rb_up t p) | LEFT_OF _ _ _ \<Rightarrow> rb_up t p)) gx uncle)"

definition rb_fix_right :: "'a rb_node \<Rightarrow> 'a rb_parent \<Rightarrow> 'a \<Rightarrow> 'a rb_node \<Rightarrow> 'a rb_node" where
  "rb_fix_right t p gx uncle = rb_rotate_left (RB_NODE RB_RED uncle gx (rb_set_black (case p of LEFT_OF _ _ _ \<Rightarrow> rb_rotate_right (rb_up t p) | RIGHT_OF _ _ _ \<Rightarrow> rb_up t p)))"

lemma rb_fix:
  assumes "rb_is_red t" "rb_bh h t" "rb_is_red (rb_up t p)" "rb_way h (p # g # ps)" "\<not> rb_is_red uncle" "rb_bh h uncle"
  shows "rb_bh (Suc h) (rb_fix_left t p gx uncle)" "\<not> rb_is_red (rb_fix_left t p gx uncle)"
    "rb_bh (Suc h) (rb_fix_right t p gx uncle)" "\<not> rb_is_red (rb_fix_right t p gx uncle)"
proof -
  obtain l x r where t: "t = RB_NODE RB_RED l x r" "\<not> rb_is_red l" "\<not> rb_is_red r" "rb_bh h l" "rb_bh h r"
    using rb_bh_red_node [OF assms(1,2)] by blast
  show "rb_bh (Suc h) (rb_fix_left t p gx uncle)" "\<not> rb_is_red (rb_fix_left t p gx uncle)"
    "rb_bh (Suc h) (rb_fix_right t p gx uncle)" "\<not> rb_is_red (rb_fix_right t p gx uncle)"
    by (cases p rule: rb_parent_color_cases; use assms t in \<open>simp add: rb_fix_left_def rb_fix_right_def\<close>)+
qed

lemma rb_way_red_parent:
  assumes "rb_bh h t" "rb_is_red (rb_up t p)" "rb_way h (p # ps)"
  shows "rb_bh (Suc h) (rb_set_black (rb_up t p))" "\<not> rb_red_parent ps" "ps \<noteq> []" "rb_way h ps"
  by (cases p rule: rb_parent_color_cases; use assms in simp)+

lemma rb_insert_color_tree:
  "rb_is_red t \<Longrightarrow> rb_bh h t \<Longrightarrow> rb_way h ps \<Longrightarrow> \<exists>t'. rb_insert_color t ps = Some t' \<and> rb_tree t'"
proof (induction t ps arbitrary: h rule: rb_insert_color.induct)
  case (1 t)
  then show ?case using rb_tree_root [of h t "[]"] by auto
next
  case (2 t p)
  then show ?case using rb_tree_root [of h t "[p]"] by (cases p rule: rb_parent_color_cases) auto
next
  case (3 t p gc gx uncle ps)
  show ?case
  proof (cases "rb_is_red (rb_up t p)")
    case False
    then have "\<not> rb_red_parent (p # LEFT_OF gc gx uncle # ps)" by (cases p) auto
    then show ?thesis using rb_tree_root [OF 3(3,4)] False by auto
  next
    case True
    note w = rb_way_red_parent [OF 3(3) True 3(4)]
    have g: "gc = RB_BLACK" using w(2) by (cases gc) auto
    have gw: "rb_bh h uncle" "rb_way (Suc h) ps" using w(4) unfolding g by auto
    show ?thesis
    proof (cases "rb_is_red uncle")
      case red: True
      have "\<exists>t'. rb_insert_color (RB_NODE RB_RED (rb_set_black (rb_up t p)) gx (rb_set_black uncle)) ps = Some t' \<and> rb_tree t'"
        by (rule 3(1) [of "Suc h"]) (use True red w(1) gw rb_bh_black_red [OF red gw(1)] in auto)
      then show ?thesis using True red by simp
    next
      case False
      then show ?thesis
        using True rb_fix(1,2) [OF 3(2,3) True 3(4) False gw(1), of gx] rb_tree_root [OF _ gw(2)] by (simp add: Let_def rb_fix_left_def)
    qed
  qed
next
  case (4 t p gc uncle gx ps)
  show ?case
  proof (cases "rb_is_red (rb_up t p)")
    case False
    then have "\<not> rb_red_parent (p # RIGHT_OF gc uncle gx # ps)" by (cases p) auto
    then show ?thesis using rb_tree_root [OF 4(3,4)] False by auto
  next
    case True
    note w = rb_way_red_parent [OF 4(3) True 4(4)]
    have g: "gc = RB_BLACK" using w(2) by (cases gc) auto
    have gw: "rb_bh h uncle" "rb_way (Suc h) ps" using w(4) unfolding g by auto
    show ?thesis
    proof (cases "rb_is_red uncle")
      case red: True
      have "\<exists>t'. rb_insert_color (RB_NODE RB_RED (rb_set_black uncle) gx (rb_set_black (rb_up t p))) ps = Some t' \<and> rb_tree t'"
        by (rule 4(1) [of "Suc h"]) (use True red w(1) gw rb_bh_black_red [OF red gw(1)] in auto)
      then show ?thesis using True red by simp
    next
      case False
      then show ?thesis
        using True rb_fix(3,4) [OF 4(2,3) True 4(4) False gw(1), of gx] rb_tree_root [OF _ gw(2)] by (simp add: Let_def rb_fix_right_def)
    qed
  qed
qed

text \<open>Removal.  A path that needs a black height one more than the subtree has is repaired.\<close>

lemma rb_tree_root_black: "rb_bh h t \<Longrightarrow> rb_way h ps \<Longrightarrow> \<not> rb_is_red t \<Longrightarrow> rb_tree (rb_root t ps)"
proof (induction ps arbitrary: h t rule: length_induct)
  case (1 ps)
  show ?case
  proof (cases ps)
    case Nil
    then show ?thesis using 1(2,4) by (auto simp: rb_tree_def)
  next
    case (Cons p qs)
    show ?thesis
    proof (cases "rb_is_red (rb_up t p)")
      case False
      then have "rb_bh (Suc h) (rb_up t p) \<and> rb_way (Suc h) qs"
        using 1(2-4) Cons by (cases p rule: rb_parent_color_cases) auto
      then show ?thesis using 1(1) Cons False by auto
    next
      case True
      have w: "qs \<noteq> []" "\<not> rb_red_parent qs" "rb_way h qs" "rb_bh h (rb_up t p)"
        using True 1(2-4) Cons by (cases p rule: rb_parent_color_cases; simp)+
      then obtain g rs where q: "qs = g # rs" by (cases qs) auto
      have "rb_bh (Suc h) (rb_up (rb_up t p) g) \<and> \<not> rb_is_red (rb_up (rb_up t p) g) \<and> rb_way (Suc h) rs"
        using w q by (cases g rule: rb_parent_color_cases) auto
      then show ?thesis using 1(1) Cons q by auto
    qed
  qed
qed

definition rb_step_ok :: "nat \<Rightarrow> rb_color \<Rightarrow> 'a rb_step option \<Rightarrow> bool" where
  "rb_step_ok h pc s \<longleftrightarrow> (case s of None \<Rightarrow> False
     | Some (RB_DONE t) \<Rightarrow> rb_bh (if pc = RB_BLACK then Suc (Suc h) else Suc h) t \<and> (rb_is_red t \<longleftrightarrow> pc = RB_RED)
     | Some (RB_CONT t) \<Rightarrow> rb_bh (Suc h) (rb_set_black t) \<and> (rb_is_red t \<longleftrightarrow> pc = RB_RED))"

lemma rb_bh_black_node: "rb_bh (Suc h) t \<Longrightarrow> \<not> rb_is_red t \<Longrightarrow> \<exists>l x r. t = RB_NODE RB_BLACK l x r \<and> rb_bh h l \<and> rb_bh h r"
  by (cases "(h, t)" rule: rb_bh.cases) auto

lemma rb_erase_step_ok:
  assumes n: "rb_bh h node" "\<not> rb_is_red node" and o: "rb_bh (Suc h) other" "\<not> rb_is_red other"
  shows "rb_step_ok h pc (rb_erase_left node pc px other)" "rb_step_ok h pc (rb_erase_right node pc px other)"
proof -
  obtain l x r where t: "other = RB_NODE RB_BLACK l x r" "rb_bh h l" "rb_bh h r" using rb_bh_black_node [OF o] by blast
  have "rb_step_ok h pc (rb_erase_left node pc px other) \<and> rb_step_ok h pc (rb_erase_right node pc px other)"
  proof (cases "rb_is_red l"; cases "rb_is_red r")
    assume "rb_is_red l" "rb_is_red r"
    then show ?thesis using t n rb_bh_red_node [of l h] rb_bh_red_node [of r h]
      by (cases pc) (auto simp: rb_erase_left_def rb_erase_right_def rb_step_ok_def Let_def)
  next
    assume "rb_is_red l" "\<not> rb_is_red r"
    then show ?thesis using t n rb_bh_red_node [of l h]
      by (cases pc) (auto simp: rb_erase_left_def rb_erase_right_def rb_step_ok_def Let_def)
  next
    assume "\<not> rb_is_red l" "rb_is_red r"
    then show ?thesis using t n rb_bh_red_node [of r h]
      by (cases pc) (auto simp: rb_erase_left_def rb_erase_right_def rb_step_ok_def Let_def)
  next
    assume "\<not> rb_is_red l" "\<not> rb_is_red r"
    then show ?thesis using t n
      by (cases pc) (auto simp: rb_erase_left_def rb_erase_right_def rb_step_ok_def Let_def)
  qed
  then show "rb_step_ok h pc (rb_erase_left node pc px other)" "rb_step_ok h pc (rb_erase_right node pc px other)" by auto
qed

definition rb_short :: "nat \<Rightarrow> 'a rb_node \<Rightarrow> bool" where
  "rb_short h t \<longleftrightarrow> (if rb_is_red t then rb_bh (Suc h) (rb_set_black t) else rb_bh h t)"

definition rb_resume :: "'a rb_step option \<Rightarrow> 'a rb_path \<Rightarrow> 'a rb_node option" where
  "rb_resume s ps = (case s of None \<Rightarrow> None | Some (RB_DONE t) \<Rightarrow> Some (rb_set_black (rb_root t ps))
     | Some (RB_CONT t) \<Rightarrow> rb_erase_color t ps)"

lemma rb_set_black_id: "\<not> rb_is_red t \<Longrightarrow> rb_set_black t = t"
  by (cases t) (auto, metis rb_color.exhaust)

lemma rb_resume_tree:
  assumes s: "rb_step_ok h pc s" and w: "rb_way (if pc = RB_BLACK then Suc (Suc h) else Suc h) ps" "pc = RB_RED \<Longrightarrow> \<not> rb_red_parent ps"
    and IH: "\<And>t k. s = Some (RB_CONT t) \<Longrightarrow> rb_short k t \<Longrightarrow> rb_way (Suc k) ps
      \<Longrightarrow> \<exists>t'. rb_erase_color t ps = Some t' \<and> rb_tree t' \<and> rb_keys t' = rb_before ps @ rb_keys t @ rb_after ps"
  shows "\<exists>t'. rb_resume s ps = Some t' \<and> rb_tree t' \<and> rb_keys t' = rb_before ps @ rb_step_keys (the s) @ rb_after ps"
proof -
  consider t where "s = Some (RB_DONE t)" | t where "s = Some (RB_CONT t)"
    using s by (auto simp: rb_step_ok_def split: option.splits rb_step.splits)
  then show ?thesis
  proof cases
    case (1 t)
    then show ?thesis using s w rb_tree_root [of _ t ps] by (auto simp: rb_step_ok_def rb_resume_def)
  next
    case (2 t)
    then show ?thesis using s w IH [OF 2, of h] IH [OF 2, of "Suc h"]
      by (cases pc) (auto simp: rb_step_ok_def rb_resume_def rb_short_def rb_set_black_id)
  qed
qed

lemma rb_step_ok_keys:
  "rb_step_ok h pc (rb_erase_left node pc px other) \<Longrightarrow> rb_step_keys (the (rb_erase_left node pc px other)) = rb_keys node @ px # rb_keys other"
  "rb_step_ok h pc (rb_erase_right node pc px other) \<Longrightarrow> rb_step_keys (the (rb_erase_right node pc px other)) = rb_keys other @ px # rb_keys node"
  using rb_erase_left_keys rb_erase_right_keys by (fastforce simp: rb_step_ok_def split: option.splits)+

lemma rb_erase_color_black:
  "\<not> rb_is_red node \<Longrightarrow> \<not> rb_is_red other \<Longrightarrow> rb_erase_color node (LEFT_OF pc px other # ps) = rb_resume (rb_erase_left node pc px other) ps"
  "\<not> rb_is_red node \<Longrightarrow> \<not> rb_is_red other \<Longrightarrow> rb_erase_color node (RIGHT_OF pc other px # ps) = rb_resume (rb_erase_right node pc px other) ps"
  by (cases other; simp add: rb_erase_color.simps rb_resume_def split: rb_color.split)+

lemma rb_erase_color_red:
  "\<not> rb_is_red node \<Longrightarrow> rb_erase_color node (LEFT_OF pc px (RB_NODE RB_RED l x r) # ps)
     = rb_resume (rb_erase_left node RB_RED px l) (LEFT_OF RB_BLACK x r # ps)"
  "\<not> rb_is_red node \<Longrightarrow> rb_erase_color node (RIGHT_OF pc (RB_NODE RB_RED l x r) px # ps)
     = rb_resume (rb_erase_right node RB_RED px r) (RIGHT_OF RB_BLACK l x # ps)"
  by (simp_all add: rb_erase_color.simps rb_resume_def)

text \<open>\<open>rb_fixed\<close>: the loop, started at \<open>t\<close> below \<open>ps\<close>, returns a well-formed tree with the same keys.\<close>

definition rb_fixed :: "'a rb_node \<Rightarrow> 'a rb_path \<Rightarrow> bool" where
  "rb_fixed t ps \<longleftrightarrow> (\<exists>t'. rb_erase_color t ps = Some t' \<and> rb_tree t' \<and> rb_keys t' = rb_before ps @ rb_keys t @ rb_after ps)"

lemma rb_resume_fixed:
  assumes "rb_step_ok h pc s" "rb_way (if pc = RB_BLACK then Suc (Suc h) else Suc h) ps" "pc = RB_RED \<Longrightarrow> \<not> rb_red_parent ps"
    and "\<And>t k. s = Some (RB_CONT t) \<Longrightarrow> rb_short k t \<Longrightarrow> rb_way (Suc k) ps \<Longrightarrow> rb_fixed t ps"
    and "rb_erase_color node qs = rb_resume s ps" "rb_before ps @ rb_step_keys (the s) @ rb_after ps = rb_before qs @ rb_keys node @ rb_after qs"
  shows "rb_fixed node qs"
  using rb_resume_tree [OF assms(1-3)] assms(4-6) unfolding rb_fixed_def by auto

lemma rb_erase_left_fixed:
  fixes node :: "'a rb_node"
  assumes n: "rb_bh h node" "\<not> rb_is_red node" and w: "rb_way (Suc h) (LEFT_OF pc px other # qs)"
    and cont: "\<And>(t :: 'a rb_node) k qs'. length qs' \<le> Suc (length qs) \<Longrightarrow> (length qs' = Suc (length qs) \<longrightarrow> rb_is_red t) \<Longrightarrow> rb_short k t \<Longrightarrow> rb_way (Suc k) qs' \<Longrightarrow> rb_fixed t qs'"
  shows "rb_fixed node (LEFT_OF pc px other # qs)"
proof (cases "rb_is_red other")
  case True
  obtain l x r where o: "other = RB_NODE RB_RED l x r" using True by (cases other) auto
  have w: "pc = RB_BLACK" "rb_bh (Suc h) l" "\<not> rb_is_red l" "rb_bh (Suc h) r" "rb_way (Suc (Suc h)) qs"
    using w unfolding o by (cases pc; simp)+
  note st = rb_erase_step_ok(1) [OF n w(2,3), of RB_RED px]
  have "rb_fixed t (LEFT_OF RB_BLACK x r # qs)"
    if "rb_erase_left node RB_RED px l = Some (RB_CONT t)" "rb_short k t" "rb_way (Suc k) (LEFT_OF RB_BLACK x r # qs)" for t k
    using rb_erase_left_cont [OF that(1)] by (intro cont [OF _ _ that(2,3)]) simp_all
  from rb_resume_fixed [OF st _ _ this] show ?thesis
    unfolding o rb_step_ok_keys(1) [OF st] using w(4,5) by (auto simp: rb_erase_color_red(1) [OF n(2)])
next
  case False
  have w: "rb_bh (Suc h) other" "rb_way (if pc = RB_BLACK then Suc (Suc h) else Suc h) qs" "pc = RB_RED \<Longrightarrow> \<not> rb_red_parent qs"
    using w by (cases pc; simp)+
  note st = rb_erase_step_ok(1) [OF n w(1) False, of pc px]
  show ?thesis
    by (rule rb_resume_fixed [OF st w(2,3) cont rb_erase_color_black(1) [OF n(2) False]]) (simp_all add: rb_step_ok_keys(1) [OF st])
qed

lemma rb_erase_right_fixed:
  fixes node :: "'a rb_node"
  assumes n: "rb_bh h node" "\<not> rb_is_red node" and w: "rb_way (Suc h) (RIGHT_OF pc other px # qs)"
    and cont: "\<And>(t :: 'a rb_node) k qs'. length qs' \<le> Suc (length qs) \<Longrightarrow> (length qs' = Suc (length qs) \<longrightarrow> rb_is_red t) \<Longrightarrow> rb_short k t \<Longrightarrow> rb_way (Suc k) qs' \<Longrightarrow> rb_fixed t qs'"
  shows "rb_fixed node (RIGHT_OF pc other px # qs)"
proof (cases "rb_is_red other")
  case True
  obtain l x r where o: "other = RB_NODE RB_RED l x r" using True by (cases other) auto
  have w: "pc = RB_BLACK" "rb_bh (Suc h) r" "\<not> rb_is_red r" "rb_bh (Suc h) l" "rb_way (Suc (Suc h)) qs"
    using w unfolding o by (cases pc; simp)+
  note st = rb_erase_step_ok(2) [OF n w(2,3), of RB_RED px]
  have "rb_fixed t (RIGHT_OF RB_BLACK l x # qs)"
    if "rb_erase_right node RB_RED px r = Some (RB_CONT t)" "rb_short k t" "rb_way (Suc k) (RIGHT_OF RB_BLACK l x # qs)" for t k
    using rb_erase_right_cont [OF that(1)] by (intro cont [OF _ _ that(2,3)]) simp_all
  from rb_resume_fixed [OF st _ _ this] show ?thesis
    unfolding o rb_step_ok_keys(2) [OF st] using w(4,5) by (auto simp: rb_erase_color_red(2) [OF n(2)])
next
  case False
  have w: "rb_bh (Suc h) other" "rb_way (if pc = RB_BLACK then Suc (Suc h) else Suc h) qs" "pc = RB_RED \<Longrightarrow> \<not> rb_red_parent qs"
    using w by (cases pc; simp)+
  note st = rb_erase_step_ok(2) [OF n w(1) False, of pc px]
  show ?thesis
    by (rule rb_resume_fixed [OF st w(2,3) cont rb_erase_color_black(2) [OF n(2) False]]) (simp_all add: rb_step_ok_keys(2) [OF st])
qed

lemma rb_erase_color_fixed: "rb_short h node \<Longrightarrow> rb_way (Suc h) ps \<Longrightarrow> rb_fixed node ps"
proof (induction "2 * length ps + (if rb_is_red node then 0 else 1)" arbitrary: node ps h rule: less_induct)
  case less
  show ?case
  proof (cases "rb_is_red node \<or> ps = []")
    case True
    have "\<exists>k. rb_bh k (rb_set_black node) \<and> (rb_is_red node \<longrightarrow> k = Suc h)"
      using less.prems(1) rb_bh_set_black by (cases "rb_is_red node") (auto simp: rb_short_def)
    then have "rb_tree (rb_root (rb_set_black node) ps)"
      using rb_tree_root_black [of _ "rb_set_black node" ps] less.prems(2) True by (cases "ps = []") auto
    moreover have "rb_erase_color node ps = Some (rb_root (rb_set_black node) ps)"
      using True by (cases "(node, ps)" rule: rb_erase_color.cases) (auto simp: rb_erase_color.simps)
    ultimately show ?thesis by (simp add: rb_fixed_def)
  next
    case False
    then obtain p qs where ps: "ps = p # qs" by (cases ps) auto
    have n: "rb_bh h node" "\<not> rb_is_red node" using less.prems(1) False by (auto simp: rb_short_def)
    have "rb_fixed t qs'" if "length qs' \<le> Suc (length qs)" "length qs' = Suc (length qs) \<longrightarrow> rb_is_red t" "rb_short k t" "rb_way (Suc k) qs'"
      for t :: "'a rb_node" and k qs'
      by (rule less.hyps [OF _ that(3,4)]) (use that(1,2) n ps in auto)
    then show ?thesis
      using rb_erase_left_fixed [OF n] rb_erase_right_fixed [OF n] less.prems(2) unfolding ps by (cases p) blast+
  qed
qed

section \<open>Operations on a whole tree\<close>

lemma rb_tree_parts: "rb_tree (rb_root t ps) \<Longrightarrow> \<exists>h. rb_bh h t \<and> rb_way h ps \<and> \<not> (rb_is_red t \<and> (ps = [] \<or> rb_red_parent ps))"
proof (induction ps arbitrary: t)
  case Nil
  then show ?case by (auto simp: rb_tree_def)
next
  case (Cons p ps)
  obtain h where "rb_bh h (rb_up t p)" "rb_way h ps" "\<not> (rb_is_red (rb_up t p) \<and> (ps = [] \<or> rb_red_parent ps))"
    using Cons.IH [of "rb_up t p"] Cons.prems by auto
  then show ?case by (cases p rule: rb_parent_color_cases) auto
qed

lemma rb_leftmost_way:
  "rb_leftmost c l x r ps = (c', x', r', ps') \<Longrightarrow> rb_bh h (RB_NODE c l x r) \<Longrightarrow> rb_way h (ps @ qs)
   \<Longrightarrow> (c = RB_RED \<longrightarrow> ps @ qs \<noteq> [] \<and> \<not> rb_red_parent (ps @ qs))
   \<Longrightarrow> \<exists>k. rb_bh k (RB_NODE c' RB_NULL x' r') \<and> rb_way k (ps' @ qs) \<and> (c' = RB_RED \<longrightarrow> ps' @ qs \<noteq> [] \<and> \<not> rb_red_parent (ps' @ qs))"
proof (induction c l x r ps arbitrary: h rule: rb_leftmost.induct)
  case (2 c d l y m x r ps)
  let ?ps = "(LEFT_OF c x r # ps) @ qs"
  have "\<exists>k. rb_bh k (RB_NODE d l y m) \<and> rb_way k ?ps \<and> (d = RB_RED \<longrightarrow> ?ps \<noteq> [] \<and> \<not> rb_red_parent ?ps)"
    using 2(3-5) by (cases c; cases d) auto
  then show ?case using 2(1,2) by auto
qed auto

lemma rb_before_append [simp]: "rb_before (ps @ qs) = rb_before qs @ rb_before ps"
  by (induction ps rule: rb_before.induct) auto

lemma rb_after_append [simp]: "rb_after (ps @ qs) = rb_after ps @ rb_after qs"
  by (induction ps rule: rb_after.induct) auto

lemma rb_leftmost_keys:
  "rb_leftmost c l x r ps = (c', x', r', ps')
   \<Longrightarrow> rb_before ps' = rb_before ps \<and> x' # rb_keys r' @ rb_after ps' = rb_keys l @ x # rb_keys r @ rb_after ps"
  by (induction c l x r ps rule: rb_leftmost.induct) auto

lemma rb_way_key: "rb_way h (down @ RIGHT_OF c l x # ps) = rb_way h (down @ RIGHT_OF c l y # ps)"
  "rb_red_parent (down @ RIGHT_OF c l x # ps) = rb_red_parent (down @ RIGHT_OF c l y # ps)"
proof -
  show r: "rb_red_parent (ds @ RIGHT_OF c l x # ps) = rb_red_parent (ds @ RIGHT_OF c l y # ps)" for ds :: "'a rb_path"
    by (cases "ds" rule: rb_red_parent.cases) auto
  show "rb_way h (down @ RIGHT_OF c l x # ps) = rb_way h (down @ RIGHT_OF c l y # ps)"
  proof (induction down arbitrary: h)
    case Nil
    show ?case by (cases c) auto
  next
    case (Cons p down)
    then show ?case using r [of down] by (cases p rule: rb_parent_color_cases) auto
  qed
qed

text \<open>Taking out a node with at most one child.\<close>

lemma rb_unlink:
  assumes "rb_bh h (RB_NODE c l x r)" "rb_way h ps" "c = RB_RED \<longrightarrow> ps \<noteq> [] \<and> \<not> rb_red_parent ps" "l = RB_NULL \<and> t = r \<or> r = RB_NULL \<and> t = l"
  shows "\<exists>t'. (if c = RB_BLACK then rb_erase_color t ps else Some (rb_root t ps)) = Some t' \<and> rb_tree t'
    \<and> rb_keys t' = rb_before ps @ rb_keys t @ rb_after ps"
proof (cases c)
  case RB_RED
  then have "rb_bh h t" "\<not> rb_is_red t" using assms(1,4) by auto
  then show ?thesis using rb_tree_root_black [OF _ assms(2), of t] RB_RED by simp
next
  case RB_BLACK
  then obtain k where k: "h = Suc k" "rb_bh k t" using assms(1,4) by auto
  then have "rb_short k t" by (auto simp: rb_short_def intro: rb_bh_black_red)
  then have "rb_fixed t ps" using rb_erase_color_fixed assms(2) k by blast
  then show ?thesis using RB_BLACK by (simp add: rb_fixed_def)
qed

lemma rb_erase_at_ok:
  assumes "rb_tree (rb_root (RB_NODE c l x r) ps)"
  shows "\<exists>t'. rb_erase_at c l r ps = Some t' \<and> rb_tree t' \<and> rb_keys t' = rb_before ps @ rb_keys l @ rb_keys r @ rb_after ps"
proof -
  obtain h where h: "rb_bh h (RB_NODE c l x r)" "rb_way h ps" "c = RB_RED \<longrightarrow> ps \<noteq> [] \<and> \<not> rb_red_parent ps"
    using rb_tree_parts [OF assms] by auto
  show ?thesis
  proof (cases "l = RB_NULL \<or> r = RB_NULL")
    case True
    then show ?thesis using rb_unlink [OF h, of r] rb_unlink [OF h, of l] by (auto simp: rb_erase_at_def split: rb_node.split)
  next
    case False
    then obtain d rl y rr where r: "r = RB_NODE d rl y rr" and l: "l \<noteq> RB_NULL" by (cases r) auto
    obtain c' x' r' down where lm: "rb_leftmost d rl y rr [] = (c', x', r', down)" by (metis prod_cases4)
    have "\<exists>k. rb_bh k r \<and> rb_way k ([] @ RIGHT_OF c l x # ps) \<and> (d = RB_RED \<longrightarrow> [] @ RIGHT_OF c l x # ps \<noteq> [] \<and> \<not> rb_red_parent ([] @ RIGHT_OF c l x # ps))"
      using h unfolding r by (cases c; cases d) auto
    then obtain k where k: "rb_bh k (RB_NODE c' RB_NULL x' r')" "rb_way k (down @ RIGHT_OF c l x # ps)"
      "c' = RB_RED \<longrightarrow> \<not> rb_red_parent (down @ RIGHT_OF c l x # ps)"
      using rb_leftmost_way [OF lm] unfolding r by blast
    have "\<exists>t'. (if c' = RB_BLACK then rb_erase_color r' (down @ RIGHT_OF c l x' # ps) else Some (rb_root r' (down @ RIGHT_OF c l x' # ps))) = Some t'
      \<and> rb_tree t' \<and> rb_keys t' = rb_before (down @ RIGHT_OF c l x' # ps) @ rb_keys r' @ rb_after (down @ RIGHT_OF c l x' # ps)"
      using k rb_unlink [OF k(1), of "down @ RIGHT_OF c l x' # ps" r']
        rb_way_key(1) [of k down c l x ps x'] rb_way_key(2) [of down c l x ps x'] by auto
    then show ?thesis using rb_leftmost_keys [OF lm] l by (auto simp: rb_erase_at_def r lm split: rb_node.split)
  qed
qed

lemma rb_insert_at_ok:
  assumes "rb_tree (rb_root RB_NULL ps)"
  shows "\<exists>t'. rb_insert_at x ps = Some t' \<and> rb_tree t' \<and> rb_keys t' = rb_before ps @ x # rb_after ps"
proof -
  have h: "rb_way 0 ps" using rb_tree_parts [OF assms] by auto
  obtain t' where t': "rb_insert_at x ps = Some t'" "rb_tree t'"
    using rb_insert_color_tree [of "RB_NODE RB_RED RB_NULL x RB_NULL" 0 ps] h by (auto simp: rb_insert_at_def)
  then show ?thesis using rb_insert_color_keys [of _ ps t'] by (auto simp: rb_insert_at_def)
qed

lemma rb_locate_Some: "rb_locate P t ps = Some (c, l, x, r, qs) \<Longrightarrow> P x \<and> rb_root (RB_NODE c l x r) qs = rb_root t ps"
  by (induction P t ps rule: rb_locate.induct) (auto split: if_splits option.splits)

lemma rb_locate_None: "rb_locate P t ps = None \<longleftrightarrow> (\<forall>x \<in> set (rb_keys t). \<not> P x)"
  by (induction P t ps rule: rb_locate.induct) (auto split: option.splits)

text \<open>A unique key splits the list of keys.\<close>

lemma rb_locate_unique:
  assumes "rb_keys t = xs @ x # ys" "P x" "\<forall>y \<in> set xs \<union> set ys. \<not> P y"
  shows "\<exists>c l r ps. rb_locate P t [] = Some (c, l, x, r, ps) \<and> rb_root (RB_NODE c l x r) ps = t
    \<and> rb_before ps @ rb_keys l = xs \<and> rb_keys r @ rb_after ps = ys"
proof -
  have "rb_locate P t [] \<noteq> None" using assms(1,2) by (auto simp: rb_locate_None)
  then obtain c l x' r ps where z: "rb_locate P t [] = Some (c, l, x', r, ps)" by (metis not_None_eq prod_cases5)
  have q: "P x'" "rb_root (RB_NODE c l x' r) ps = t" using rb_locate_Some [OF z] by auto
  have e: "(rb_before ps @ rb_keys l) @ x' # rb_keys r @ rb_after ps = xs @ x # ys"
    using arg_cong [OF q(2), of rb_keys] assms(1) by simp
  have "x' \<in> set (xs @ x # ys)" unfolding e [symmetric] by simp
  then have x: "x' = x" using assms(3) q(1) by auto
  have "x \<notin> set xs" "x \<notin> set ys" using assms(2,3) by auto
  then have "xs = rb_before ps @ rb_keys l \<and> ys = rb_keys r @ rb_after ps"
    using append_Cons_eq_iff [of x xs ys "rb_before ps @ rb_keys l" "rb_keys r @ rb_after ps"] e unfolding x by simp
  then show ?thesis using z q x by blast
qed

lemma rb_first_keys: "t \<noteq> RB_NULL \<Longrightarrow> rb_first t = Some (hd (rb_keys t))"
  by (induction t rule: rb_first.induct) (auto simp: hd_append)

lemma rb_last_keys: "t \<noteq> RB_NULL \<Longrightarrow> rb_last t = Some (last (rb_keys t))"
  by (induction t rule: rb_last.induct) auto

lemma rb_up_next_keys: "rb_up_next ps = (case rb_after ps of [] \<Rightarrow> None | y # _ \<Rightarrow> Some y)"
  by (induction ps rule: rb_up_next.induct) auto

lemma rb_up_prev_keys: "rb_up_prev ps = (if rb_before ps = [] then None else Some (last (rb_before ps)))"
  by (induction ps rule: rb_up_prev.induct) auto

lemma rb_keys_Nil [simp]: "rb_keys t = [] \<longleftrightarrow> t = RB_NULL"
  by (cases t) auto

lemma rb_next_keys:
  assumes "rb_keys t = xs @ x # ys" "P x" "\<forall>y \<in> set xs \<union> set ys. \<not> P y"
  shows "rb_next P t = (case ys of [] \<Rightarrow> None | y # _ \<Rightarrow> Some y)"
proof -
  obtain c l r ps where z: "rb_locate P t [] = Some (c, l, x, r, ps)" "rb_keys r @ rb_after ps = ys"
    using rb_locate_unique [OF assms] by blast
  show ?thesis unfolding z(2) [symmetric]
    by (cases "rb_keys r") (auto simp: rb_next_def z(1) rb_first_keys rb_up_next_keys)
qed

lemma rb_prev_keys:
  assumes "rb_keys t = xs @ x # ys" "P x" "\<forall>y \<in> set xs \<union> set ys. \<not> P y"
  shows "rb_prev P t = (if xs = [] then None else Some (last xs))"
proof -
  obtain c l r ps where z: "rb_locate P t [] = Some (c, l, x, r, ps)" "rb_before ps @ rb_keys l = xs"
    using rb_locate_unique [OF assms] by blast
  show ?thesis unfolding z(2) [symmetric] by (auto simp: rb_prev_def z(1) rb_last_keys rb_up_prev_keys)
qed

lemma rb_erase_keys:
  assumes "rb_tree t" "rb_keys t = xs @ x # ys" "P x" "\<forall>y \<in> set xs \<union> set ys. \<not> P y"
  shows "\<exists>t'. rb_erase P t = Some t' \<and> rb_tree t' \<and> rb_keys t' = xs @ ys"
proof -
  obtain c l r ps where z: "rb_locate P t [] = Some (c, l, x, r, ps)" "rb_root (RB_NODE c l x r) ps = t"
    "rb_before ps @ rb_keys l = xs" "rb_keys r @ rb_after ps = ys" using rb_locate_unique [OF assms(2-4)] by blast
  show ?thesis unfolding z(3,4) [symmetric] using rb_erase_at_ok [of c l x r ps] assms(1) z(1,2) by (simp add: rb_erase_def)
qed

text \<open>
  C15. Linking a new node where a search ended and restoring the colours returns a well-formed tree with the new key in
  that place; removing that node again returns a well-formed tree with the old keys in their order.
\<close>

theorem rb_insert_then_erase:
  assumes "rb_tree t" "rb_root RB_NULL ps = t" "P x" "\<forall>y \<in> set (rb_keys t). \<not> P y"
  shows "\<exists>t1 t2. rb_insert_at x ps = Some t1 \<and> rb_tree t1 \<and> rb_keys t1 = rb_before ps @ x # rb_after ps
    \<and> rb_erase P t1 = Some t2 \<and> rb_tree t2 \<and> rb_keys t2 = rb_keys t"
proof -
  have k: "rb_keys t = rb_before ps @ rb_after ps" using assms(2) rb_keys_root [of RB_NULL ps] by simp
  obtain t1 where t1: "rb_insert_at x ps = Some t1" "rb_tree t1" "rb_keys t1 = rb_before ps @ x # rb_after ps"
    using rb_insert_at_ok [of ps x] assms(1,2) by blast
  then show ?thesis using rb_erase_keys [OF t1(2,3), of P] assms(3,4) k by auto
qed

theorem rb_insert_then_erase_witness:
  "\<exists>t1 t2. rb_insert_at (3 :: nat) [LEFT_OF RB_RED 4 RB_NULL, RIGHT_OF RB_BLACK (RB_NODE RB_RED RB_NULL 1 RB_NULL) 2] = Some t1 \<and> rb_keys t1 = [1, 2, 3, 4]
    \<and> rb_erase (\<lambda>k. k = 3) t1 = Some t2 \<and> rb_keys t2 = [1, 2, 4]"
  using rb_insert_then_erase [of "RB_NODE RB_BLACK (RB_NODE RB_RED RB_NULL 1 RB_NULL) 2 (RB_NODE RB_RED RB_NULL 4 RB_NULL)"
      "[LEFT_OF RB_RED 4 RB_NULL, RIGHT_OF RB_BLACK (RB_NODE RB_RED RB_NULL 1 RB_NULL) 2]" "\<lambda>k. k = 3" "3 :: nat"]
  by (auto simp: rb_tree_def)

end
