(* ===== verification/Vm_Maps.thy ===== *)
theory Vm_Maps
  imports Rbtree Lib_Codes
begin

text \<open>
  The lazy mappings of an address space in the virtual memory server \<^verbatim>\<open>sys/vm/vm.c\<close>: a red-black tree of
  disjoint ranges of addresses.  A mapping has its address in the server's memory in \<open>mm_ptr\<close>; a pointer
  to it is that number.  A search that ran into the memory of a freed mapping is \<open>None\<close>.
\<close>

abbreviation (input) MAP_SHARED :: u32 where "MAP_SHARED \<equiv> 1"
abbreviation (input) MAP_PRIVATE :: u32 where "MAP_PRIVATE \<equiv> 2"
abbreviation (input) MAP_FIXED :: u32 where "MAP_FIXED \<equiv> 0x10"
abbreviation (input) MAP_ANONYMOUS :: u32 where "MAP_ANONYMOUS \<equiv> 0x20"

abbreviation (input) PAGE_SIZE :: nat where "PAGE_SIZE \<equiv> 4096"

record lazy_mmap =
  mm_ptr :: nat
  mm_addr :: u32
  mm_length :: u32
  mm_flags :: u32
  mm_fd_serv :: l4_tid
  mm_ino :: u64
  mm_offset :: u32
  mm_tailsz :: nat

type_synonym maps = "lazy_mmap rb_node"

definition IS_ANON_MMAP :: "lazy_mmap \<Rightarrow> bool" where
  "IS_ANON_MMAP mm \<longleftrightarrow> mm_flags mm AND MAP_ANONYMOUS \<noteq> 0 \<and> mm_flags mm AND MAP_SHARED \<noteq> 0"

definition VALID_ADDR_SIZE :: "u32 \<Rightarrow> u32 \<Rightarrow> bool" where
  "VALID_ADDR_SIZE a sz \<longleftrightarrow> NOT 0 - sz \<ge> a"

text \<open>The last address of a mapping, and the address after it.\<close>

definition mm_last :: "lazy_mmap \<Rightarrow> u32" where "mm_last mm = mm_addr mm + mm_length mm - 1"
definition mm_next :: "lazy_mmap \<Rightarrow> u32" where "mm_next mm = mm_addr mm + mm_length mm"

section \<open>Searches\<close>

fun insert_lazy_mmap_helper :: "lazy_mmap \<Rightarrow> maps \<Rightarrow> lazy_mmap rb_path \<Rightarrow> lazy_mmap + lazy_mmap rb_path" where
  "insert_lazy_mmap_helper mm RB_NULL ps = Inr ps"
| "insert_lazy_mmap_helper mm (RB_NODE c l oth r) ps =
     (if mm_last mm < mm_addr oth then insert_lazy_mmap_helper mm l (LEFT_OF c oth r # ps)
      else if mm_addr mm > mm_last oth then insert_lazy_mmap_helper mm r (RIGHT_OF c l oth # ps)
      else Inl oth)"

text \<open>\<open>Inl\<close>: the mapping that is in the way.\<close>

definition insert_lazy_mmap :: "lazy_mmap \<Rightarrow> maps \<Rightarrow> (lazy_mmap + maps) option" where
  "insert_lazy_mmap mm t = (case insert_lazy_mmap_helper mm t [] of Inl oth \<Rightarrow> Some (Inl oth)
     | Inr ps \<Rightarrow> map_option Inr (rb_insert_at mm ps))"

fun maps_search :: "u32 \<Rightarrow> maps \<Rightarrow> lazy_mmap option" where
  "maps_search a RB_NULL = None"
| "maps_search a (RB_NODE c l cand r) =
     (if a < mm_addr cand then maps_search a l
      else if a \<ge> mm_next cand then maps_search a r
      else Some cand)"

definition mm_deref :: "nat \<Rightarrow> maps \<Rightarrow> lazy_mmap option" where
  "mm_deref p t = map_option (\<lambda>(c, l, x, r, ps). x) (rb_locate (\<lambda>m. mm_ptr m = p) t [])"

text \<open>\<open>find_lazy_mmap\<close> tries the last result first; \<open>lastp\<close> is 0 where it points to \<open>no_last_mmap\<close>, an empty mapping.
  The result is the mapping and the new value of \<open>lastp\<close>.\<close>

definition find_lazy_mmap :: "nat \<Rightarrow> maps \<Rightarrow> u32 \<Rightarrow> (lazy_mmap option \<times> nat) option" where
  "find_lazy_mmap lastp t a =
     (case if lastp = 0 then Some None else map_option Some (mm_deref lastp t) of
        None \<Rightarrow> None
      | Some m \<Rightarrow>
          if (case m of None \<Rightarrow> False | Some m \<Rightarrow> mm_addr m \<le> a \<and> a - mm_addr m < mm_length m) then Some (m, lastp)
          else case maps_search a t of None \<Rightarrow> Some (None, lastp) | Some cand \<Rightarrow> Some (Some cand, mm_ptr cand))"

text \<open>\<open>first_lazy_mmap\<close>: the way down, with the last mapping visited; \<open>Inl\<close> if a mapping has the address.\<close>

fun first_descend :: "u32 \<Rightarrow> maps \<Rightarrow> lazy_mmap option \<Rightarrow> lazy_mmap + lazy_mmap option" where
  "first_descend a RB_NULL cand = Inr cand"
| "first_descend a (RB_NODE c l m r) cand =
     (if a < mm_addr m then first_descend a l (Some m)
      else if a \<ge> mm_next m then first_descend a r (Some m)
      else Inl m)"

definition rb_next_mm :: "lazy_mmap \<Rightarrow> maps \<Rightarrow> lazy_mmap option" where
  "rb_next_mm m = rb_next (\<lambda>x. mm_ptr x = mm_ptr m)"

definition rb_prev_mm :: "lazy_mmap \<Rightarrow> maps \<Rightarrow> lazy_mmap option" where
  "rb_prev_mm m = rb_prev (\<lambda>x. mm_ptr x = mm_ptr m)"

text \<open>The two loops, with the number of mappings as fuel.\<close>

fun first_right :: "nat \<Rightarrow> u32 \<Rightarrow> u32 \<Rightarrow> maps \<Rightarrow> lazy_mmap option \<Rightarrow> lazy_mmap option option" where
  "first_right 0 a sz t cand = None"
| "first_right (Suc n) a sz t cand =
     (case cand of Some m \<Rightarrow> if a + sz \<le> mm_addr m then first_right n a sz t (rb_next_mm m t) else Some cand
      | None \<Rightarrow> Some None)"

fun first_left :: "nat \<Rightarrow> u32 \<Rightarrow> maps \<Rightarrow> lazy_mmap option \<Rightarrow> lazy_mmap option option" where
  "first_left 0 a t cand = None"
| "first_left (Suc n) a t cand =
     (case cand of Some m \<Rightarrow> if a \<ge> mm_next m then first_left n a t (rb_prev_mm m t) else Some cand
      | None \<Rightarrow> Some None)"

definition first_lazy_mmap :: "maps \<Rightarrow> u32 \<Rightarrow> u32 \<Rightarrow> lazy_mmap option option" where
  "first_lazy_mmap t a sz =
     (let n = Suc (Suc (length (rb_keys t))) in
      if \<not> VALID_ADDR_SIZE a sz then None
      else case first_descend a t None of Inl m \<Rightarrow> Some (Some m)
      | Inr cand \<Rightarrow> (case first_right n a sz t cand of None \<Rightarrow> None
          | Some cand \<Rightarrow> first_left n a t cand))"

section \<open>Carving\<close>

text \<open>What \<open>munmap_space\<close> does to one mapping that overlaps the range: the new tree, and which case it was.\<close>

datatype carve = CARVE_REMOVE | CARVE_SPLIT lazy_mmap lazy_mmap | CARVE_HEAD lazy_mmap | CARVE_TAIL lazy_mmap

definition mm_update :: "lazy_mmap \<Rightarrow> maps \<Rightarrow> maps" where
  "mm_update m = map_rb_node (\<lambda>x. if mm_ptr x = mm_ptr m then m else x)"

definition carve_step :: "u32 \<Rightarrow> u32 \<Rightarrow> nat \<Rightarrow> lazy_mmap \<Rightarrow> maps \<Rightarrow> (maps \<times> carve) option" where
  "carve_step a sz new cur t =
     (if mm_addr cur \<ge> a \<and> mm_next cur \<le> a + sz
      then map_option (\<lambda>t. (t, CARVE_REMOVE)) (rb_erase (\<lambda>x. mm_ptr x = mm_ptr cur) t)
      else if mm_addr cur < a \<and> mm_next cur > a + sz
      then let tail = cur\<lparr>mm_ptr := new, mm_addr := a + sz, mm_length := mm_length cur - (a + sz - mm_addr cur)\<rparr>;
               head = cur\<lparr>mm_length := a - mm_addr cur, mm_tailsz := PAGE_SIZE\<rparr>
        in (case insert_lazy_mmap tail (mm_update head t) of
              Some (Inr t) \<Rightarrow> Some (t, CARVE_SPLIT head tail) | _ \<Rightarrow> None)
      else if mm_addr cur < a
      then let head = cur\<lparr>mm_length := a - mm_addr cur, mm_tailsz := PAGE_SIZE\<rparr>
        in if a < mm_next cur then Some (mm_update head t, CARVE_HEAD head) else None
      else let tail = cur\<lparr>mm_length := mm_length cur - (a + sz - mm_addr cur), mm_addr := a + sz\<rparr>
        in if mm_next cur > a + sz \<and> mm_addr cur < a + sz then Some (mm_update tail t, CARVE_TAIL tail) else None)"

section \<open>Disjoint ranges\<close>

definition mm_start :: "lazy_mmap \<Rightarrow> nat" where "mm_start m = unat (mm_addr m)"
definition mm_end :: "lazy_mmap \<Rightarrow> nat" where "mm_end m = unat (mm_addr m) + unat (mm_length m)"
definition mm_has :: "lazy_mmap \<Rightarrow> nat \<Rightarrow> bool" where "mm_has m n \<longleftrightarrow> mm_start m \<le> n \<and> n < mm_end m"
definition mm_ok :: "lazy_mmap \<Rightarrow> bool" where "mm_ok m \<longleftrightarrow> mm_start m < mm_end m \<and> mm_end m < 2 ^ 32 \<and> mm_ptr m \<noteq> 0"
definition mm_below :: "lazy_mmap \<Rightarrow> lazy_mmap \<Rightarrow> bool" where "mm_below a b \<longleftrightarrow> mm_end a \<le> mm_start b"

definition mm_list_ok :: "lazy_mmap list \<Rightarrow> bool" where
  "mm_list_ok ms \<longleftrightarrow> sorted_wrt mm_below ms \<and> (\<forall>m \<in> set ms. mm_ok m) \<and> distinct (map mm_ptr ms)"

definition maps_ok :: "maps \<Rightarrow> bool" where "maps_ok t \<longleftrightarrow> rb_tree t \<and> mm_list_ok (rb_keys t)"

lemma unat_add_lt: "unat a + unat b < 2 ^ 32 \<Longrightarrow> unat (a + b) = unat a + unat b" for a b :: u32
  by (simp add: unat_word_ariths)

lemma mm_words:
  assumes "mm_ok m"
  shows "unat (mm_next m) = mm_end m" "unat (mm_last m) = mm_end m - 1"
proof -
  show n: "unat (mm_next m) = mm_end m" using assms by (simp add: mm_next_def mm_end_def mm_ok_def unat_add_lt)
  have "mm_last m = mm_next m - 1" by (simp add: mm_last_def mm_next_def)
  moreover have "1 \<le> mm_next m" using n assms by (simp add: mm_ok_def word_le_nat_alt)
  ultimately show "unat (mm_last m) = mm_end m - 1" using n by (simp add: unat_sub)
qed

lemma valid_addr_size: "VALID_ADDR_SIZE a sz \<Longrightarrow> unat a + unat sz < 2 ^ 32"
proof -
  assume "VALID_ADDR_SIZE a sz"
  then have "unat a \<le> unat (- 1 - sz)" by (simp add: VALID_ADDR_SIZE_def word_le_nat_alt)
  also have "\<dots> = unat (- 1 :: u32) - unat sz" by (rule unat_sub) simp
  also have "unat (- 1 :: u32) = 2 ^ 32 - 1" by (simp add: unsigned_minus_1_eq_mask mask_eq_exp_minus_1)
  finally show ?thesis using unsigned_less [of sz, where ?'a = nat] by simp
qed

lemma mm_list_ok_append:
  "mm_list_ok (xs @ ys) \<longleftrightarrow> mm_list_ok xs \<and> mm_list_ok ys \<and> (\<forall>x \<in> set xs. \<forall>y \<in> set ys. mm_below x y \<and> mm_ptr x \<noteq> mm_ptr y)"
  by (auto simp: mm_list_ok_def sorted_wrt_append image_iff disjoint_iff)

lemma mm_list_ok_Cons:
  "mm_list_ok (x # ys) \<longleftrightarrow> mm_ok x \<and> mm_list_ok ys \<and> (\<forall>y \<in> set ys. mm_below x y \<and> mm_ptr x \<noteq> mm_ptr y)"
  by (auto simp: mm_list_ok_def image_iff)

lemma mm_list_ok_Nil [simp]: "mm_list_ok []"
  by (simp add: mm_list_ok_def)

lemmas mm_list_simps = mm_list_ok_append mm_list_ok_Cons mm_list_ok_Nil

lemma maps_search_Some: "mm_list_ok (rb_keys t) \<Longrightarrow> maps_search a t = Some m \<longleftrightarrow> m \<in> set (rb_keys t) \<and> mm_has m (unat a)"
proof (induction t)
  case (RB_NODE c l x r)
  have ok: "mm_ok x" "\<forall>y \<in> set (rb_keys l). mm_end y \<le> mm_start x \<and> mm_ok y" "\<forall>y \<in> set (rb_keys r). mm_end x \<le> mm_start y \<and> mm_ok y"
    using RB_NODE.prems by (auto simp: mm_list_simps mm_below_def) (auto simp: mm_list_ok_def)
  have IH: "maps_search a l = Some m \<longleftrightarrow> m \<in> set (rb_keys l) \<and> mm_has m (unat a)"
    "maps_search a r = Some m \<longleftrightarrow> m \<in> set (rb_keys r) \<and> mm_has m (unat a)"
    using RB_NODE by (auto simp: mm_list_simps)
  have x: "a < mm_addr x \<longleftrightarrow> unat a < mm_start x" "mm_next x \<le> a \<longleftrightarrow> mm_end x \<le> unat a"
    using mm_words(1) [OF ok(1)] by (simp_all add: word_less_nat_alt word_le_nat_alt mm_start_def)
  have "mm_start x < mm_end x" using ok(1) by (simp add: mm_ok_def)
  then show ?case using ok IH x by (auto simp: mm_has_def mm_ok_def)
qed simp

lemma maps_search_None: "mm_list_ok (rb_keys t) \<Longrightarrow> maps_search a t = None \<longleftrightarrow> (\<forall>m \<in> set (rb_keys t). \<not> mm_has m (unat a))"
  using maps_search_Some [of t a] by (metis not_Some_eq)

lemma insert_helper:
  assumes "mm_list_ok (rb_keys t)" "mm_ok mm" "\<forall>x \<in> set (rb_before ps). mm_below x mm" "\<forall>x \<in> set (rb_after ps). mm_below mm x"
  shows "case insert_lazy_mmap_helper mm t ps of
      Inl oth \<Rightarrow> oth \<in> set (rb_keys t) \<and> \<not> mm_below oth mm \<and> \<not> mm_below mm oth
    | Inr qs \<Rightarrow> rb_root RB_NULL qs = rb_root t ps \<and> (\<forall>x \<in> set (rb_before qs). mm_below x mm) \<and> (\<forall>x \<in> set (rb_after qs). mm_below mm x)"
  using assms
proof (induction mm t ps rule: insert_lazy_mmap_helper.induct)
  case (2 mm c l oth r ps)
  have ok: "mm_ok oth" "mm_list_ok (rb_keys l)" "mm_list_ok (rb_keys r)" "\<forall>y \<in> set (rb_keys l). mm_below y oth" "\<forall>y \<in> set (rb_keys r). mm_below oth y"
    using 2(3) by (auto simp: mm_list_simps)
  have x: "mm_last mm < mm_addr oth \<longleftrightarrow> mm_below mm oth" "mm_last oth < mm_addr mm \<longleftrightarrow> mm_below oth mm"
    using mm_words(2) [OF ok(1)] mm_words(2) [OF 2(4)] ok(1) 2(4) by (auto simp: word_less_nat_alt mm_start_def mm_below_def mm_ok_def)
  have tr: "mm_below a b \<Longrightarrow> mm_below b c \<Longrightarrow> mm_ok b \<Longrightarrow> mm_below a c" for a b c by (auto simp: mm_below_def mm_ok_def)
  consider (left) "mm_below mm oth" | (right) "mm_below oth mm" "\<not> mm_below mm oth" | (over) "\<not> mm_below mm oth" "\<not> mm_below oth mm" by blast
  then show ?case
  proof cases
    case left
    have "\<forall>z \<in> set (rb_after (LEFT_OF c oth r # ps)). mm_below mm z" using left ok 2(6) tr [OF left] by auto
    then have "case insert_lazy_mmap_helper mm l (LEFT_OF c oth r # ps) of
        Inl oth \<Rightarrow> oth \<in> set (rb_keys l) \<and> \<not> mm_below oth mm \<and> \<not> mm_below mm oth
      | Inr qs \<Rightarrow> rb_root RB_NULL qs = rb_root l (LEFT_OF c oth r # ps) \<and> (\<forall>x \<in> set (rb_before qs). mm_below x mm) \<and> (\<forall>x \<in> set (rb_after qs). mm_below mm x)"
      using 2(1) x(1) left ok(2) 2(4,5) by simp
    then show ?thesis using left x by (auto split: sum.splits)
  next
    case right
    have "\<forall>z \<in> set (rb_before (RIGHT_OF c l oth # ps)). mm_below z mm" using right ok 2(5) tr by auto
    then have "case insert_lazy_mmap_helper mm r (RIGHT_OF c l oth # ps) of
        Inl oth \<Rightarrow> oth \<in> set (rb_keys r) \<and> \<not> mm_below oth mm \<and> \<not> mm_below mm oth
      | Inr qs \<Rightarrow> rb_root RB_NULL qs = rb_root r (RIGHT_OF c l oth # ps) \<and> (\<forall>x \<in> set (rb_before qs). mm_below x mm) \<and> (\<forall>x \<in> set (rb_after qs). mm_below mm x)"
      using 2(2) x right ok(3) 2(4,6) by simp
    then show ?thesis using right x by (auto split: sum.splits)
  next
    case over
    then show ?thesis using x by simp
  qed
qed simp

lemma insert_lazy_mmap_ok:
  assumes "maps_ok t" "mm_ok mm" "mm_ptr mm \<notin> mm_ptr ` set (rb_keys t)"
  shows "(\<exists>oth \<in> set (rb_keys t). \<not> mm_below oth mm \<and> \<not> mm_below mm oth \<and> insert_lazy_mmap mm t = Some (Inl oth))
    \<or> (\<exists>t' xs ys. insert_lazy_mmap mm t = Some (Inr t') \<and> maps_ok t' \<and> rb_keys t = xs @ ys \<and> rb_keys t' = xs @ mm # ys)"
proof (cases "insert_lazy_mmap_helper mm t []")
  case (Inl oth)
  then show ?thesis using insert_helper [of t mm "[]"] assms by (auto simp: maps_ok_def insert_lazy_mmap_def)
next
  case (Inr qs)
  have q: "rb_root RB_NULL qs = t" "\<forall>x \<in> set (rb_before qs). mm_below x mm" "\<forall>x \<in> set (rb_after qs). mm_below mm x"
    using insert_helper [of t mm "[]"] assms Inr by (auto simp: maps_ok_def)
  have k: "rb_keys t = rb_before qs @ rb_after qs" using arg_cong [OF q(1), of rb_keys] by simp
  obtain t' where t': "rb_insert_at mm qs = Some t'" "rb_tree t'" "rb_keys t' = rb_before qs @ mm # rb_after qs"
    using rb_insert_at_ok [of qs mm] assms(1) q(1) by (auto simp: maps_ok_def)
  have "mm_list_ok (rb_keys t')" using assms q(2,3) unfolding t'(3) maps_ok_def k by (auto simp: mm_list_simps) (metis image_eqI UnI1 UnI2)+
  then show ?thesis using Inr t' k by (auto simp: insert_lazy_mmap_def maps_ok_def)
qed

section \<open>The first mapping in a range\<close>

text \<open>The mappings below and above an address.\<close>

definition mm_lows :: "nat \<Rightarrow> lazy_mmap list \<Rightarrow> lazy_mmap list" where "mm_lows a = filter (\<lambda>m. mm_end m \<le> a)"
definition mm_highs :: "nat \<Rightarrow> lazy_mmap list \<Rightarrow> lazy_mmap list" where "mm_highs a = filter (\<lambda>m. a < mm_start m)"

lemma first_descend_cases:
  assumes "mm_list_ok (rb_keys t)"
  shows "case first_descend a t cand of
      Inl m \<Rightarrow> m \<in> set (rb_keys t) \<and> mm_has m (unat a)
    | Inr c \<Rightarrow> (\<forall>m \<in> set (rb_keys t). \<not> mm_has m (unat a)) \<and>
        (t = RB_NULL \<and> c = cand
         \<or> mm_lows (unat a) (rb_keys t) \<noteq> [] \<and> c = Some (last (mm_lows (unat a) (rb_keys t)))
         \<or> mm_highs (unat a) (rb_keys t) \<noteq> [] \<and> c = Some (hd (mm_highs (unat a) (rb_keys t))))"
  using assms
proof (induction a t cand rule: first_descend.induct)
  case (2 a c l m r cand)
  have ok: "mm_ok m" "mm_list_ok (rb_keys l)" "mm_list_ok (rb_keys r)" "\<forall>y \<in> set (rb_keys l). mm_end y \<le> mm_start m \<and> mm_ok y" "\<forall>y \<in> set (rb_keys r). mm_end m \<le> mm_start y \<and> mm_ok y"
    using 2(3) by (auto simp: mm_list_simps mm_below_def) (auto simp: mm_list_ok_def)
  have x: "a < mm_addr m \<longleftrightarrow> unat a < mm_start m" "mm_next m \<le> a \<longleftrightarrow> mm_end m \<le> unat a"
    using mm_words(1) [OF ok(1)] by (simp_all add: word_less_nat_alt word_le_nat_alt mm_start_def)
  have m: "mm_start m < mm_end m" using ok(1) by (simp add: mm_ok_def)
  consider (left) "unat a < mm_start m" | (right) "mm_end m \<le> unat a" | (has) "mm_has m (unat a)" unfolding mm_has_def by linarith
  then show ?case
  proof cases
    case left
    then have n: "\<forall>y \<in> set (rb_keys r). \<not> mm_has y (unat a) \<and> unat a < mm_start y \<and> \<not> mm_end y \<le> unat a"
      using ok(5) m by (auto simp: mm_has_def mm_ok_def)
    have e: "mm_lows (unat a) (rb_keys r) = []" "mm_highs (unat a) (rb_keys r) = rb_keys r" "\<not> mm_has m (unat a)" "\<not> mm_end m \<le> unat a"
      using n left m by (auto simp: mm_lows_def mm_highs_def mm_has_def)
    show ?thesis using 2(1) ok(2) left x e n by (auto simp: mm_lows_def mm_highs_def hd_append split: sum.splits)
  next
    case right
    then have n: "\<forall>y \<in> set (rb_keys l). \<not> mm_has y (unat a) \<and> mm_end y \<le> unat a \<and> \<not> unat a < mm_start y"
      using ok(4) m by (auto simp: mm_has_def mm_ok_def)
    have e: "mm_highs (unat a) (rb_keys l) = []" "mm_lows (unat a) (rb_keys l) = rb_keys l" "\<not> mm_has m (unat a)" "\<not> unat a < mm_start m"
      using n right m by (auto simp: mm_lows_def mm_highs_def mm_has_def)
    show ?thesis using 2(2) ok(3) right x e n by (auto simp: mm_lows_def mm_highs_def split: sum.splits)
  next
    case has
    then show ?thesis using x by (auto simp: mm_has_def)
  qed
qed simp

lemma mm_ptr_split:
  assumes "mm_list_ok (xs @ m # ys)"
  shows "\<forall>y \<in> set xs \<union> set ys. mm_ptr y \<noteq> mm_ptr m"
  using assms by (auto simp: mm_list_simps)

lemma rb_next_mm_keys: "mm_list_ok (rb_keys t) \<Longrightarrow> rb_keys t = xs @ m # ys \<Longrightarrow> rb_next_mm m t = (case ys of [] \<Rightarrow> None | y # _ \<Rightarrow> Some y)"
  unfolding rb_next_mm_def by (rule rb_next_keys) (use mm_ptr_split in auto)

lemma rb_prev_mm_keys: "mm_list_ok (rb_keys t) \<Longrightarrow> rb_keys t = xs @ m # ys \<Longrightarrow> rb_prev_mm m t = (if xs = [] then None else Some (last xs))"
  unfolding rb_prev_mm_def by (rule rb_prev_keys) (use mm_ptr_split in auto)

lemma first_right_end:
  "mm_list_ok (rb_keys t) \<Longrightarrow> rb_keys t = xs @ m # ys \<Longrightarrow> \<forall>y \<in> set (m # ys). a + sz \<le> mm_addr y \<Longrightarrow> Suc (length ys) < n
   \<Longrightarrow> first_right n a sz t (Some m) = Some None"
proof (induction ys arbitrary: xs m n)
  case Nil
  then obtain k where "n = Suc (Suc k)" by (metis One_nat_def Suc_lessE length_0_conv lessE list.size(3))
  then show ?case using Nil rb_next_mm_keys [OF Nil(1,2)] by simp
next
  case (Cons y ys)
  then obtain k where "n = Suc k" "Suc (length ys) < k" by (cases n) auto
  then show ?case using Cons.prems Cons.IH [of "xs @ [m]" y k] rb_next_mm_keys [OF Cons.prems(1,2)] by simp
qed

lemma first_left_end:
  "mm_list_ok (rb_keys t) \<Longrightarrow> rb_keys t = xs @ m # ys \<Longrightarrow> \<forall>y \<in> set (xs @ [m]). mm_next y \<le> a \<Longrightarrow> Suc (length xs) < n
   \<Longrightarrow> first_left n a t (Some m) = Some None"
proof (induction xs arbitrary: m ys n rule: rev_induct)
  case Nil
  then obtain k where "n = Suc (Suc k)" by (metis One_nat_def Suc_lessE length_0_conv lessE list.size(3))
  then show ?case using Nil rb_prev_mm_keys [OF Nil(1,2)] by simp
next
  case (snoc x xs)
  then obtain k where "n = Suc k" "Suc (length xs) < k" by (cases n) auto
  then show ?case using snoc.prems snoc.IH [of x "m # ys" k] rb_prev_mm_keys [OF snoc.prems(1,2)] by simp
qed

lemma first_right_stay: "\<not> a + sz \<le> mm_addr m \<Longrightarrow> first_right (Suc n) a sz t (Some m) = Some (Some m)" by simp

lemma mm_lows_highs:
  assumes "mm_list_ok ks" "\<forall>m \<in> set ks. \<not> mm_has m a"
  shows "ks = mm_lows a ks @ mm_highs a ks"
  using assms
proof (induction ks)
  case (Cons m ks)
  then have m: "mm_end m \<le> a \<or> a < mm_start m" "mm_start m < mm_end m" by (auto simp: mm_has_def mm_list_simps mm_ok_def)
  have "mm_lows a ks = []" "mm_highs a ks = ks" if "a < mm_start m"
    using Cons.prems(1) that m(2) by (auto simp: mm_lows_def mm_highs_def mm_list_simps mm_below_def filter_empty_conv filter_id_conv mm_list_ok_def mm_ok_def) fastforce+
  then show ?case using m Cons by (auto simp: mm_list_simps mm_lows_def mm_highs_def)
qed (simp add: mm_lows_def mm_highs_def)

lemma first_lazy_mmap_has:
  assumes "maps_ok t" "VALID_ADDR_SIZE a sz" "m \<in> set (rb_keys t)" "mm_has m (unat a)"
  shows "first_lazy_mmap t a sz = Some (Some m)"
proof -
  have ok: "mm_list_ok (rb_keys t)" using assms(1) by (simp add: maps_ok_def)
  obtain m' where m': "first_descend a t None = Inl m'" "m' \<in> set (rb_keys t)" "mm_has m' (unat a)"
    using first_descend_cases [OF ok, of a None] assms(3,4) by (auto split: sum.splits)
  have "maps_search a t = Some m" "maps_search a t = Some m'" using maps_search_Some [OF ok] assms(3,4) m'(2,3) by auto
  then show ?thesis using m'(1) assms(2) by (simp add: first_lazy_mmap_def)
qed

text \<open>The search ended at a mapping below the range: nothing is found.\<close>

lemma first_lazy_mmap_low:
  assumes "maps_ok t" "VALID_ADDR_SIZE a sz" "first_descend a t None = Inr (Some m)" "mm_end m \<le> unat a"
  shows "first_lazy_mmap t a sz = Some None"
proof -
  have ok: "mm_list_ok (rb_keys t)" using assms(1) by (simp add: maps_ok_def)
  note d = first_descend_cases [OF ok, of a None, unfolded assms(3), simplified]
  define ls hs where "ls = mm_lows (unat a) (rb_keys t)" and "hs = mm_highs (unat a) (rb_keys t)"
  have k: "rb_keys t = ls @ hs" using mm_lows_highs [OF ok] d by (auto simp: ls_def hs_def)
  have "\<not> (hs \<noteq> [] \<and> m = hd hs)" using assms(4) ok
    by (auto simp: hs_def mm_highs_def dest!: hd_in_set) (auto simp: mm_list_ok_def mm_ok_def)
  then have m: "ls \<noteq> []" "m = last ls" using d by (auto simp: ls_def hs_def)
  then have kk: "rb_keys t = butlast ls @ m # hs" using k by simp
  have mem: "y \<in> set (butlast ls @ [m]) \<Longrightarrow> y \<in> set ls" for y using m by (auto dest: in_set_butlastD)
  have w: "mm_next y \<le> a" if "y \<in> set ls" for y
    using that mm_words(1) [of y] ok by (auto simp: ls_def mm_lows_def word_le_nat_alt mm_list_ok_def)
  have lt: "unat a + unat sz < 2 ^ 32" by (rule valid_addr_size) fact
  have m2: "mm_ok m" using ok m kk by (simp add: mm_list_simps)
  have "\<not> a + sz \<le> mm_addr m" using assms(4) lt m2 by (simp add: word_le_nat_alt unat_add_lt mm_start_def [symmetric] mm_ok_def)
  then have "first_right (Suc (Suc (length (rb_keys t)))) a sz t (Some m) = Some (Some m)" by simp
  moreover have "first_left (Suc (Suc (length (rb_keys t)))) a t (Some m) = Some None"
    by (rule first_left_end [OF ok kk]) (use mem w kk in auto)
  ultimately show ?thesis using assms(2,3) by (simp add: first_lazy_mmap_def)
qed

lemma first_lazy_mmap_high:
  assumes "maps_ok t" "VALID_ADDR_SIZE a sz" "first_descend a t None = Inr (Some m)" "unat a < mm_start m"
  shows "m \<in> set (rb_keys t)" "\<forall>y \<in> set (rb_keys t). mm_end y \<le> unat a \<or> y = m \<or> mm_below m y"
    "first_lazy_mmap t a sz = Some (if mm_start m < unat a + unat sz then Some m else None)"
proof -
  have ok: "mm_list_ok (rb_keys t)" using assms(1) by (simp add: maps_ok_def)
  note d = first_descend_cases [OF ok, of a None, unfolded assms(3), simplified]
  define ls hs where "ls = mm_lows (unat a) (rb_keys t)" and "hs = mm_highs (unat a) (rb_keys t)"
  have k: "rb_keys t = ls @ hs" using mm_lows_highs [OF ok] d by (auto simp: ls_def hs_def)
  have "\<not> (ls \<noteq> [] \<and> m = last ls)" using assms(4) ok
    by (auto simp: ls_def mm_lows_def dest!: last_in_set) (auto simp: mm_list_ok_def mm_ok_def)
  then have "hs \<noteq> []" "m = hd hs" using d by (auto simp: ls_def hs_def)
  then obtain hs' where m: "hs = m # hs'" by (cases hs) auto
  show mk: "m \<in> set (rb_keys t)" using k m by simp
  have kk: "rb_keys t = ls @ m # hs'" using k m by simp
  have le: "\<forall>y \<in> set ls. mm_end y \<le> unat a" by (simp add: ls_def mm_lows_def)
  have "mm_list_ok (ls @ m # hs')" using ok unfolding kk .
  then show "\<forall>y \<in> set (rb_keys t). mm_end y \<le> unat a \<or> y = m \<or> mm_below m y"
    using le unfolding kk by (auto simp: mm_list_simps)
  have lt: "unat a + unat sz < 2 ^ 32" by (rule valid_addr_size) fact
  have le: "a + sz \<le> mm_addr y \<longleftrightarrow> unat a + unat sz \<le> mm_start y" for y using lt by (simp add: word_le_nat_alt unat_add_lt mm_start_def)
  have m2: "mm_ok m" using ok kk by (simp add: mm_list_simps)
  show "first_lazy_mmap t a sz = Some (if mm_start m < unat a + unat sz then Some m else None)"
  proof (cases "mm_start m < unat a + unat sz")
    case True
    have "\<not> mm_next m \<le> a" using mm_words(1) [OF m2] m2 assms(4) by (simp add: word_le_nat_alt mm_ok_def)
    then show ?thesis using True assms(2,3) le by (simp add: first_lazy_mmap_def)
  next
    case False
    have "unat a + unat sz \<le> mm_start y" if "y \<in> set (m # hs')" for y
      using that False ok m2 unfolding kk by (auto simp: mm_list_simps mm_below_def mm_ok_def)
    then have "first_right (Suc (Suc (length (rb_keys t)))) a sz t (Some m) = Some None"
      by (intro first_right_end [OF ok kk]) (use le kk in auto)
    then show ?thesis using False assms(2,3) by (simp add: first_lazy_mmap_def del: first_right.simps)
  qed
qed

lemma mm_list_total: "mm_list_ok ks \<Longrightarrow> x \<in> set ks \<Longrightarrow> y \<in> set ks \<Longrightarrow> x = y \<or> mm_below x y \<or> mm_below y x"
  by (induction ks) (auto simp: mm_list_ok_Cons)

lemma first_lazy_mmap_cases:
  assumes "maps_ok t" "VALID_ADDR_SIZE a sz"
  obtains "first_lazy_mmap t a sz = Some None"
  | xs cur ys where "first_lazy_mmap t a sz = Some (Some cur)" "rb_keys t = xs @ cur # ys" "\<forall>x \<in> set xs. mm_end x \<le> unat a" "unat a < mm_end cur"
    "mm_start cur \<le> unat a \<or> mm_start cur < unat a + unat sz"
proof -
  note none = that(1) and some = that(2)
  have ok: "mm_list_ok (rb_keys t)" using assms(1) by (simp add: maps_ok_def)
  have okm: "mm_ok m" if "m \<in> set (rb_keys t)" for m using ok that by (auto simp: mm_list_ok_def)
  note d = first_descend_cases [OF ok, of a None]
  have found: thesis if f: "first_lazy_mmap t a sz = Some (Some m)" and m: "m \<in> set (rb_keys t)" "unat a < mm_end m"
    and o: "\<forall>y \<in> set (rb_keys t). mm_end y \<le> unat a \<or> y = m \<or> mm_below m y" and l: "mm_start m \<le> unat a \<or> mm_start m < unat a + unat sz" for m
  proof -
    obtain xs ys where k: "rb_keys t = xs @ m # ys" using m(1) by (meson split_list)
    have "mm_end x \<le> unat a" if x: "x \<in> set xs" for x
    proof -
      have "mm_below x m" "mm_ok x" "mm_ok m" using ok okm x unfolding k by (auto simp: mm_list_simps)
      then have "x \<noteq> m" "\<not> mm_below m x" by (auto simp: mm_below_def mm_ok_def)
      then show ?thesis using o x k by auto
    qed
    then show ?thesis using some [OF f k] m(2) l by blast
  qed
  show thesis
  proof (cases "first_descend a t None")
    case (Inl m)
    then have m: "m \<in> set (rb_keys t)" "mm_has m (unat a)" using d by auto
    have "first_lazy_mmap t a sz = Some (Some m)" by (rule first_lazy_mmap_has) fact+
    moreover have "mm_end y \<le> unat a \<or> y = m \<or> mm_below m y" if "y \<in> set (rb_keys t)" for y
      using mm_list_total [OF ok that m(1)] m(2) by (auto simp: mm_has_def mm_below_def)
    ultimately show thesis using found m by (auto simp: mm_has_def)
  next
    case (Inr c)
    show thesis
    proof (cases c)
      case None
      then have "t = RB_NULL" using d Inr by (auto split: if_splits)
      then show thesis using none assms(2) by (simp add: first_lazy_mmap_def)
    next
      case (Some m)
      have "m \<in> set (mm_lows (unat a) (rb_keys t)) \<or> m \<in> set (mm_highs (unat a) (rb_keys t))"
        using d Inr Some by (auto split: if_splits)
      then consider "mm_end m \<le> unat a" | "unat a < mm_start m" by (auto simp: mm_lows_def mm_highs_def)
      then show thesis
      proof cases
        case 1
        then show thesis using none first_lazy_mmap_low [OF assms] Inr Some by blast
      next
        case 2
        note h = first_lazy_mmap_high [OF assms _ 2] Inr Some
        show thesis using h 2 found [of m] none okm [of m] by (cases "mm_start m < unat a + unat sz") (auto simp: mm_ok_def)
      qed
    qed
  qed
qed

section \<open>Carving a range out of a mapping\<close>

definition carve_pieces :: "u32 \<Rightarrow> u32 \<Rightarrow> nat \<Rightarrow> lazy_mmap \<Rightarrow> lazy_mmap list" where
  "carve_pieces a sz new cur =
     (if mm_start cur < unat a then [cur\<lparr>mm_length := a - mm_addr cur, mm_tailsz := PAGE_SIZE\<rparr>] else [])
     @ (if unat a + unat sz < mm_end cur
        then [cur\<lparr>mm_ptr := (if mm_start cur < unat a then new else mm_ptr cur), mm_addr := a + sz,
                  mm_length := mm_length cur - (a + sz - mm_addr cur)\<rparr>] else [])"

lemma carve_lengths:
  assumes "mm_ok cur" "unat a + unat sz < 2 ^ 32"
  shows "mm_start cur < unat a \<Longrightarrow> unat (a - mm_addr cur) = unat a - mm_start cur"
    "mm_start cur < unat a + unat sz \<Longrightarrow> unat a + unat sz < mm_end cur
      \<Longrightarrow> unat (mm_length cur - (a + sz - mm_addr cur)) = mm_end cur - (unat a + unat sz)"
proof -
  show "unat (a - mm_addr cur) = unat a - mm_start cur" if "mm_start cur < unat a"
    using that by (subst unat_sub) (simp_all add: mm_start_def word_le_nat_alt)
  assume o: "mm_start cur < unat a + unat sz" "unat a + unat sz < mm_end cur"
  have d: "unat (a + sz - mm_addr cur) = unat a + unat sz - mm_start cur"
    using o(1) unat_add_lt [OF assms(2)] by (subst unat_sub) (simp_all add: mm_start_def word_le_nat_alt)
  have le: "a + sz - mm_addr cur \<le> mm_length cur" using d o by (simp add: word_le_nat_alt mm_end_def mm_start_def)
  show "unat (mm_length cur - (a + sz - mm_addr cur)) = mm_end cur - (unat a + unat sz)"
    unfolding unat_sub [OF le] d using o by (simp add: mm_end_def mm_start_def)
qed

lemma carve_piece_range:
  assumes "mm_ok cur" "unat a + unat sz < 2 ^ 32" "mm_start cur < unat a + unat sz" "unat a < mm_end cur" "p \<in> set (carve_pieces a sz new cur)" "new \<noteq> 0"
  shows "mm_ok p" "mm_start cur \<le> mm_start p" "mm_end p \<le> mm_end cur"
    "mm_has p n \<longleftrightarrow> mm_has cur n \<and> (if mm_addr p = mm_addr cur \<and> mm_start cur < unat a then n < unat a else unat a + unat sz \<le> n)"
proof -
  note w = carve_lengths [OF assms(1,2)] unat_add_lt [OF assms(2)]
  have c: "mm_start cur < mm_end cur" "mm_end cur < 2 ^ 32" "mm_ptr cur \<noteq> 0" using assms(1) by (auto simp: mm_ok_def)
  have ne: "mm_start cur < unat a \<Longrightarrow> a + sz \<noteq> mm_addr cur" using w(3) by (auto simp: mm_start_def)
  show "mm_ok p" "mm_start cur \<le> mm_start p" "mm_end p \<le> mm_end cur"
    using assms(3-6) w c by (auto simp: carve_pieces_def mm_ok_def mm_start_def mm_end_def split: if_splits)
  show "mm_has p n \<longleftrightarrow> mm_has cur n \<and> (if mm_addr p = mm_addr cur \<and> mm_start cur < unat a then n < unat a else unat a + unat sz \<le> n)"
    using assms(3-6) w c ne by (auto simp: carve_pieces_def mm_has_def mm_start_def mm_end_def split: if_splits)
qed

lemma rb_keys_map_node [simp]: "rb_keys (map_rb_node f t) = map f (rb_keys t)"
  by (induction t) auto

lemma rb_tree_map_node [simp]: "rb_tree (map_rb_node f t) = rb_tree t"
proof -
  have r: "rb_is_red (map_rb_node f t) = rb_is_red t" for t by (cases t) auto
  have "rb_bh h (map_rb_node f t) = rb_bh h t" for h by (induction h t rule: rb_bh.induct) (auto simp: r)
  then show ?thesis by (simp add: rb_tree_def r)
qed

lemma mm_update_keys:
  assumes "mm_list_ok (rb_keys t)" "rb_keys t = xs @ cur # ys" "mm_ptr m = mm_ptr cur"
  shows "rb_keys (mm_update m t) = xs @ m # ys" "rb_tree (mm_update m t) = rb_tree t"
proof -
  have "\<forall>y \<in> set xs \<union> set ys. mm_ptr y \<noteq> mm_ptr m" using mm_ptr_split [of xs cur ys] assms by auto
  then have "map (\<lambda>x. if mm_ptr x = mm_ptr m then m else x) xs = xs" "map (\<lambda>x. if mm_ptr x = mm_ptr m then m else x) ys = ys"
    by (auto intro: map_idI)
  then show "rb_keys (mm_update m t) = xs @ m # ys" "rb_tree (mm_update m t) = rb_tree t" using assms by (simp_all add: mm_update_def)
qed

text \<open>Replacing a mapping by pieces of it.\<close>

lemma mm_list_ok_replace:
  assumes "mm_list_ok (xs @ cur # ys)" "mm_list_ok ps" "\<forall>p \<in> set ps. mm_start cur \<le> mm_start p \<and> mm_end p \<le> mm_end cur"
    "\<forall>p \<in> set ps. mm_ptr p = mm_ptr cur \<or> mm_ptr p \<notin> mm_ptr ` set (xs @ ys)"
  shows "mm_list_ok (xs @ ps @ ys)"
proof -
  have o: "mm_list_ok xs" "mm_list_ok ys" "\<forall>x \<in> set xs. mm_end x \<le> mm_start cur \<and> mm_ptr x \<noteq> mm_ptr cur"
    "\<forall>y \<in> set ys. mm_end cur \<le> mm_start y \<and> mm_ptr y \<noteq> mm_ptr cur" "\<forall>x \<in> set xs. \<forall>y \<in> set ys. mm_below x y \<and> mm_ptr x \<noteq> mm_ptr y"
    using assms(1) by (auto simp: mm_list_simps mm_below_def)
  have "mm_below x p \<and> mm_ptr x \<noteq> mm_ptr p" if "x \<in> set xs" "p \<in> set ps" for x p
  proof -
    have "mm_end x \<le> mm_start cur" "mm_ptr x \<noteq> mm_ptr cur" using o(3) that(1) by blast+
    moreover have "mm_start cur \<le> mm_start p" "mm_ptr p = mm_ptr cur \<or> mm_ptr p \<notin> mm_ptr ` set (xs @ ys)" using assms(3,4) that(2) by blast+
    moreover have "mm_ptr x \<in> mm_ptr ` set (xs @ ys)" using that(1) by simp
    ultimately show ?thesis by (auto simp: mm_below_def)
  qed
  moreover have "mm_below p y \<and> mm_ptr p \<noteq> mm_ptr y" if "y \<in> set ys" "p \<in> set ps" for y p
  proof -
    have "mm_end cur \<le> mm_start y" "mm_ptr y \<noteq> mm_ptr cur" using o(4) that(1) by blast+
    moreover have "mm_end p \<le> mm_end cur" "mm_ptr p = mm_ptr cur \<or> mm_ptr p \<notin> mm_ptr ` set (xs @ ys)" using assms(3,4) that(2) by blast+
    moreover have "mm_ptr y \<in> mm_ptr ` set (xs @ ys)" using that(1) by simp
    ultimately show ?thesis by (auto simp: mm_below_def)
  qed
  ultimately show ?thesis using o(1,2,5) assms(2) by (auto simp: mm_list_ok_append)
qed

lemma carve_pieces_ok:
  assumes "mm_list_ok (xs @ cur # ys)" "unat a + unat sz < 2 ^ 32" "mm_start cur < unat a + unat sz" "unat a < mm_end cur"
    "new \<noteq> 0" "new \<notin> mm_ptr ` set (xs @ cur # ys)"
  shows "mm_list_ok (xs @ carve_pieces a sz new cur @ ys)"
proof -
  have c: "mm_ok cur" using assms(1) by (simp add: mm_list_simps)
  note r = carve_piece_range [OF c assms(2-4) _ assms(5)]
  have "mm_list_ok (carve_pieces a sz new cur)"
    using r(1) carve_lengths(1) [OF c assms(2)] assms(2,6) unat_add_lt [OF assms(2)]
    by (auto simp: mm_list_simps carve_pieces_def mm_below_def) (auto simp: mm_start_def mm_end_def)
  moreover have "\<forall>p \<in> set (carve_pieces a sz new cur). mm_ptr p = mm_ptr cur \<or> mm_ptr p \<notin> mm_ptr ` set (xs @ ys)"
    using assms(6) by (auto simp: carve_pieces_def)
  ultimately show ?thesis using r(2,3) by (intro mm_list_ok_replace [OF assms(1)]) auto
qed

lemma mm_split_unique:
  assumes "us @ vs = ps @ qs" "\<forall>x \<in> set us. mm_below x m" "\<forall>x \<in> set vs. \<not> mm_below x m" "\<forall>x \<in> set ps. mm_below x m" "\<forall>x \<in> set qs. \<not> mm_below x m"
  shows "us = ps \<and> vs = qs"
proof -
  have "filter (\<lambda>x. mm_below x m) (us @ vs) = us" "filter (\<lambda>x. mm_below x m) (ps @ qs) = ps"
    using assms(2-5) by (auto simp: filter_empty_conv filter_id_conv)
  then show ?thesis using assms(1) by auto
qed

lemma insert_between:
  assumes "maps_ok t" "rb_keys t = xs @ ys" "mm_list_ok (xs @ mm # ys)"
  shows "\<exists>t'. insert_lazy_mmap mm t = Some (Inr t') \<and> maps_ok t' \<and> rb_keys t' = xs @ mm # ys"
proof -
  have m: "mm_ok mm" "mm_ptr mm \<notin> mm_ptr ` set (rb_keys t)" "\<forall>x \<in> set xs. mm_below x mm" "\<forall>y \<in> set ys. mm_below mm y"
    using assms(2,3) by (auto simp: mm_list_simps)
  have nb: "\<not> mm_below y mm" if "mm_below mm y" "mm_ok y" for y using that m(1) by (auto simp: mm_below_def mm_ok_def)
  have oky: "\<forall>y \<in> set ys. mm_ok y" using assms(3) by (auto simp: mm_list_ok_def)
  obtain t' us vs where t': "insert_lazy_mmap mm t = Some (Inr t')" "maps_ok t'" "rb_keys t = us @ vs" "rb_keys t' = us @ mm # vs"
    using insert_lazy_mmap_ok [OF assms(1) m(1,2)] m(3,4) assms(2) by auto
  have "\<forall>x \<in> set us. mm_below x mm" "\<forall>y \<in> set vs. mm_below mm y \<and> mm_ok y"
    using t'(2,4) by (auto simp: maps_ok_def mm_list_simps) (auto simp: mm_list_ok_def)
  then have "us = xs \<and> vs = ys" using nb m(3,4) oky t'(3) assms(2) by (intro mm_split_unique [of _ _ _ _ mm]) auto
  then show ?thesis using t' by blast
qed

fun carve_shape :: "lazy_mmap \<Rightarrow> nat \<Rightarrow> carve \<Rightarrow> lazy_mmap list \<Rightarrow> bool" where
  "carve_shape cur new CARVE_REMOVE ps = (ps = [])"
| "carve_shape cur new (CARVE_SPLIT h t) ps = (ps = [h, t] \<and> mm_ptr h = mm_ptr cur \<and> mm_ptr t = new)"
| "carve_shape cur new (CARVE_HEAD h) ps = (ps = [h] \<and> mm_ptr h = mm_ptr cur)"
| "carve_shape cur new (CARVE_TAIL t) ps = (ps = [t] \<and> mm_ptr t = mm_ptr cur)"

lemma carve_step_ok:
  assumes "maps_ok t" "rb_keys t = xs @ cur # ys" "unat a + unat sz < 2 ^ 32" "mm_start cur < unat a + unat sz" "unat a < mm_end cur"
    "new \<noteq> 0" "new \<notin> mm_ptr ` set (rb_keys t)"
  shows "\<exists>t' cv. carve_step a sz new cur t = Some (t', cv) \<and> maps_ok t' \<and> rb_keys t' = xs @ carve_pieces a sz new cur @ ys
    \<and> carve_shape cur new cv (carve_pieces a sz new cur)"
proof -
  have ok: "rb_tree t" "mm_list_ok (rb_keys t)" "mm_list_ok (xs @ cur # ys)" "mm_ok cur"
    using assms(1,2) by (auto simp: maps_ok_def mm_list_simps)
  have pcs: "mm_list_ok (xs @ carve_pieces a sz new cur @ ys)" using carve_pieces_ok [OF ok(3) assms(3-6)] assms(2,7) by simp
  have w: "mm_addr cur \<ge> a \<longleftrightarrow> unat a \<le> mm_start cur" "mm_next cur \<le> a + sz \<longleftrightarrow> mm_end cur \<le> unat a + unat sz"
    "a < mm_next cur \<longleftrightarrow> unat a < mm_end cur" "mm_addr cur < a + sz \<longleftrightarrow> mm_start cur < unat a + unat sz"
    using mm_words(1) [OF ok(4)] unat_add_lt [OF assms(3)] by (simp_all add: word_le_nat_alt word_less_nat_alt mm_start_def)
  have w': "mm_addr cur < a \<longleftrightarrow> mm_start cur < unat a" "mm_next cur > a + sz \<longleftrightarrow> unat a + unat sz < mm_end cur"
    using w(1,2) by (simp_all add: linorder_not_le [symmetric])
  define hd' tl' where "hd' = cur\<lparr>mm_length := a - mm_addr cur, mm_tailsz := PAGE_SIZE\<rparr>"
    and "tl' = cur\<lparr>mm_length := mm_length cur - (a + sz - mm_addr cur), mm_addr := a + sz\<rparr>"
  note up = mm_update_keys [OF ok(2) assms(2), of hd'] mm_update_keys [OF ok(2) assms(2), of tl']
  consider (rem) "unat a \<le> mm_start cur" "mm_end cur \<le> unat a + unat sz" | (split) "mm_start cur < unat a" "unat a + unat sz < mm_end cur"
    | (head) "mm_start cur < unat a" "mm_end cur \<le> unat a + unat sz" | (tail) "unat a \<le> mm_start cur" "unat a + unat sz < mm_end cur"
    by linarith
  then show ?thesis
  proof cases
    case rem
    obtain t' where "rb_erase (\<lambda>x. mm_ptr x = mm_ptr cur) t = Some t'" "rb_tree t'" "rb_keys t' = xs @ ys"
      using rb_erase_keys [OF ok(1) assms(2), of "\<lambda>x. mm_ptr x = mm_ptr cur"] mm_ptr_split [OF ok(3)] by auto
    then show ?thesis using rem w pcs by (simp add: carve_step_def carve_pieces_def maps_ok_def)
  next
    case split
    define tl2 where "tl2 = cur\<lparr>mm_ptr := new, mm_addr := a + sz, mm_length := mm_length cur - (a + sz - mm_addr cur)\<rparr>"
    have p: "carve_pieces a sz new cur = [hd', tl2]" using split by (simp add: carve_pieces_def hd'_def tl2_def)
    have "maps_ok (mm_update hd' t)" using up(1,2) ok(1) pcs p by (auto simp: maps_ok_def hd'_def mm_list_simps)
    from insert_between [OF this, of "xs @ [hd']" ys tl2] obtain t' where
      "insert_lazy_mmap tl2 (mm_update hd' t) = Some (Inr t')" "maps_ok t'" "rb_keys t' = xs @ hd' # tl2 # ys"
      using up(1) pcs p by (auto simp: hd'_def)
    then show ?thesis using split w w' p by (simp add: carve_step_def hd'_def [symmetric] tl2_def [symmetric]) (simp add: hd'_def tl2_def)
  next
    case head
    have p: "carve_pieces a sz new cur = [hd']" using head by (simp add: carve_pieces_def hd'_def)
    then show ?thesis using head w w' pcs up(1,2) ok(1) assms(5) by (simp add: carve_step_def hd'_def [symmetric] maps_ok_def) (simp add: hd'_def)
  next
    case tail
    have p: "carve_pieces a sz new cur = [tl']" using tail by (simp add: carve_pieces_def tl'_def)
    then show ?thesis using tail w w' pcs up(3,4) ok(1) assms(4) by (simp add: carve_step_def tl'_def [symmetric] maps_ok_def) (simp add: tl'_def)
  qed
qed

section \<open>The index of mappings as its users see it\<close>

text \<open>
  What the calls rely on: a lookup finds the mapping that has an address, an insertion either reports a mapping in the way or adds exactly
  the new one.
\<close>

locale range_index =
  fixes ok :: "'t \<Rightarrow> bool" and keys :: "'t \<Rightarrow> 'm list" and fresh :: "'m \<Rightarrow> 't \<Rightarrow> bool" and has :: "'m \<Rightarrow> u32 \<Rightarrow> bool"
    and ins :: "'m \<Rightarrow> 't \<Rightarrow> ('m + 't) option" and search :: "u32 \<Rightarrow> 't \<Rightarrow> 'm option"
  assumes search_iff: "ok t \<Longrightarrow> search a t = Some m \<longleftrightarrow> m \<in> set (keys t) \<and> has m a"
    and ins_cases: "ok t \<Longrightarrow> fresh m t \<Longrightarrow>
      (\<exists>x a. ins m t = Some (Inl x) \<and> x \<in> set (keys t) \<and> has x a \<and> has m a)
      \<or> (\<exists>t'. ins m t = Some (Inr t') \<and> ok t' \<and> set (keys t') = insert m (set (keys t)))"
begin

lemma search_None: "ok t \<Longrightarrow> search a t = None \<longleftrightarrow> (\<forall>m \<in> set (keys t). \<not> has m a)"
  using search_iff [of t a] by (metis not_None_eq)

lemma search_unique: "ok t \<Longrightarrow> m \<in> set (keys t) \<Longrightarrow> has m a \<Longrightarrow> m' \<in> set (keys t) \<Longrightarrow> has m' a \<Longrightarrow> m' = m"
  using search_iff [of t a] by (metis option.inject)

lemma ins_clash: "ok t \<Longrightarrow> fresh m t \<Longrightarrow> search a t = Some x \<Longrightarrow> has m a \<Longrightarrow> m \<noteq> x \<Longrightarrow> \<exists>y b. ins m t = Some (Inl y) \<and> y \<in> set (keys t) \<and> has y b \<and> has m b"
  using ins_cases [of t m] search_unique [of _ m a x] search_iff [of t a x] by (metis insertCI)

lemma search_ins:
  assumes "ok t" "fresh m t" "ins m t = Some (Inr t')"
  shows "search a t' = (if has m a then Some m else search a t)"
proof -
  have t': "ok t'" "set (keys t') = insert m (set (keys t))" using ins_cases [OF assms(1,2)] assms(3) by auto
  show ?thesis
  proof (cases "search a t'")
    case None
    then have "\<not> has m a" "search a t = None" using search_None [OF t'(1)] search_None [OF assms(1)] t'(2) by auto
    then show ?thesis using None by simp
  next
    case (Some x)
    then have x: "x = m \<or> x \<in> set (keys t)" "has x a" using search_iff [OF t'(1)] t'(2) by auto
    show ?thesis
    proof (cases "has m a")
      case True
      then show ?thesis using search_iff [OF t'(1), of a m] t'(2) by simp
    next
      case False
      then show ?thesis using x Some search_iff [OF assms(1), of a x] by auto
    qed
  qed
qed

end

definition mm_new :: "lazy_mmap \<Rightarrow> maps \<Rightarrow> bool" where
  "mm_new mm t \<longleftrightarrow> mm_ok mm \<and> mm_ptr mm \<notin> mm_ptr ` set (rb_keys t)"

lemma mm_meet:
  assumes "mm_ok x" "mm_ok m" "\<not> mm_below x m" "\<not> mm_below m x"
  shows "mm_has x (unat (max (mm_addr x) (mm_addr m))) \<and> mm_has m (unat (max (mm_addr x) (mm_addr m)))"
  using assms by (auto simp: mm_has_def mm_below_def mm_ok_def mm_start_def mm_end_def max_def word_le_nat_alt)

interpretation maps_index: range_index maps_ok rb_keys mm_new "\<lambda>m a. mm_has m (unat a)" insert_lazy_mmap maps_search
proof unfold_locales
  fix t a m
  assume "maps_ok t"
  then show "maps_search a t = Some m \<longleftrightarrow> m \<in> set (rb_keys t) \<and> mm_has m (unat a)" by (simp add: maps_ok_def maps_search_Some)
next
  fix t m
  assume t: "maps_ok t" and m: "mm_new m t"
  have ok: "mm_ok x" if "x \<in> set (rb_keys t)" for x using t that by (simp add: maps_ok_def mm_list_ok_def)
  show "(\<exists>x. \<exists>a :: u32. insert_lazy_mmap m t = Some (Inl x) \<and> x \<in> set (rb_keys t) \<and> mm_has x (unat a) \<and> mm_has m (unat a))
      \<or> (\<exists>t'. insert_lazy_mmap m t = Some (Inr t') \<and> maps_ok t' \<and> set (rb_keys t') = insert m (set (rb_keys t)))"
  proof (cases "\<exists>x \<in> set (rb_keys t). \<not> mm_below x m \<and> \<not> mm_below m x \<and> insert_lazy_mmap m t = Some (Inl x)")
    case True
    then obtain x where x: "x \<in> set (rb_keys t)" "\<not> mm_below x m" "\<not> mm_below m x" "insert_lazy_mmap m t = Some (Inl x)" by blast
    have "mm_ok m" using m by (simp add: mm_new_def)
    from mm_meet [OF ok [OF x(1)] this x(2,3)] show ?thesis using x(1,4) by blast
  next
    case False
    then obtain t' xs ys where "insert_lazy_mmap m t = Some (Inr t')" "maps_ok t'" "rb_keys t = xs @ ys" "rb_keys t' = xs @ m # ys"
      using insert_lazy_mmap_ok [of t m] t m unfolding mm_new_def by blast
    then show ?thesis by auto
  qed
qed

text \<open>C21. Once a mapping is entered, a lookup of any address in it finds it and a lookup of any other address finds what it found before; entering a mapping that meets another one fails.\<close>

theorem insert_then_find_mmap:
  assumes "maps_ok t" "mm_ok mm" "mm_ptr mm \<notin> mm_ptr ` set (rb_keys t)"
  shows "(\<forall>t'. insert_lazy_mmap mm t = Some (Inr t') \<longrightarrow> maps_ok t' \<and> (\<forall>a. maps_search a t' = (if mm_has mm (unat a) then Some mm else maps_search a t)))
    \<and> ((\<exists>a. mm_has mm (unat a) \<and> maps_search a t \<noteq> None) \<longleftrightarrow> (\<exists>x. insert_lazy_mmap mm t = Some (Inl x)))"
proof -
  have n: "mm_new mm t" using assms(2,3) by (simp add: mm_new_def)
  have ok: "maps_ok t'" if "insert_lazy_mmap mm t = Some (Inr t')" for t' using maps_index.ins_cases [OF assms(1) n] that by auto
  have "mm \<notin> set (rb_keys t)" using assms(3) by auto
  then have c: "\<exists>x. insert_lazy_mmap mm t = Some (Inl x)" if "mm_has mm (unat a)" "maps_search a t \<noteq> None" for a
    using maps_index.ins_clash [OF assms(1) n, of a] maps_index.search_iff [OF assms(1), of a] that by fastforce
  have "\<exists>a. mm_has mm (unat a) \<and> maps_search a t \<noteq> None" if "insert_lazy_mmap mm t = Some (Inl x)" for x
    using maps_index.ins_cases [OF assms(1) n] maps_index.search_None [OF assms(1)] that by fastforce
  then show ?thesis using ok c maps_index.search_ins [OF assms(1) n] by blast
qed

theorem insert_then_find_mmap_witness:
  "\<exists>mm t'. mm_ok mm \<and> insert_lazy_mmap mm RB_NULL = Some (Inr t') \<and> maps_search 0x10800 t' = Some mm \<and> maps_search 0x11000 t' = None"
proof -
  let ?mm = "\<lparr>mm_ptr = 1, mm_addr = 0x10000, mm_length = 0x1000, mm_flags = 0, mm_fd_serv = \<lparr>is_local = False, tid_version = 1, tid_threadno = 1\<rparr>, mm_ino = 0, mm_offset = 0, mm_tailsz = 0\<rparr>"
  have "mm_ok ?mm" "maps_ok RB_NULL" by (auto simp: mm_ok_def mm_start_def mm_end_def maps_ok_def rb_tree_def)
  moreover obtain t' where "insert_lazy_mmap ?mm RB_NULL = Some (Inr t')" by (simp add: insert_lazy_mmap_def rb_insert_at_def)
  ultimately show ?thesis using insert_then_find_mmap [of RB_NULL ?mm] by (auto simp: mm_has_def mm_start_def mm_end_def)
qed

end
