(* ===== verification/Vm_Pages.thy ===== *)
theory Vm_Pages
  imports Vm_Maps
begin

text \<open>
  Physical memory in the virtual memory server \<^verbatim>\<open>sys/vm/vm.c\<close>: the lists of free, active and cached pages, the
  owner of a page and its other users, copy-on-write.

  A physical page is its number.  A virtual page (\<^verbatim>\<open>struct vp\<close>) is found by process and address, which
  stand for the pointer to it; its flag bits are separate fields.  The server replaces the link
  (\<^verbatim>\<open>struct pl\<close>) of a page when the page changes lists and leaves the old one behind marked dead, to be
  skipped; here a list has the numbers of the live links, newest first, and the hash buckets of the
  page cache are one list.  \<open>mem\<close> is the contents of pages; \<open>unmaps\<close> records what the server told the
  kernel to unmap, and with which rights.  The age of a page is only ever set and is left out.  Memory for
  new links and for entries of the table of shared pages is taken to suffice.
\<close>

type_synonym rights = "3 word"
datatype vpref = Vp (vp_pid: nat) (vp_addr: u32)

abbreviation (input) L4_eXecutable :: rights where "L4_eXecutable \<equiv> 1"
abbreviation (input) L4_Writable :: rights where "L4_Writable \<equiv> 2"
abbreviation (input) L4_Readable :: rights where "L4_Readable \<equiv> 4"
abbreviation (input) L4_FullyAccessible :: rights where "L4_FullyAccessible \<equiv> 7"

record vp =
  vp_rights :: rights
  vp_is_shared :: bool
  vp_is_anon :: bool
  vp_is_cow :: bool
  vp_status :: nat

record pl =
  pl_fsid :: u32
  pl_ino :: u64
  pl_offset :: u32

datatype fpage = Nilpage | FpageOnes | Fpage u32 u32

record vm_space =
  kip_area :: fpage
  vm_utcb_area :: fpage
  sysinfo_area :: fpage
  maps :: maps
  last_mmap :: nat
  brk :: u32
  mmap_bot :: u32

record vm =
  page_free_list :: "nat list"
  page_active_list :: "nat list"
  page_cache :: "nat list"
  links :: "nat \<Rightarrow> pl"
  powner :: "nat \<Rightarrow> vpref option"
  vps :: "vpref \<Rightarrow> vp option"
  share_table :: "vpref list"
  anon_mmap_table :: "(nat \<times> nat) list"
  spaces :: "nat \<Rightarrow> vm_space option"
  next_anon_ino :: u32
  next_ptr :: nat
  mem :: "nat \<Rightarrow> u8 list"
  unmaps :: "(nat \<times> rights) list"
  vm_self :: l4_tid
  user_addr_max :: u32

definition PL_IS_PRIVATE :: "pl \<Rightarrow> bool" where "PL_IS_PRIVATE l \<longleftrightarrow> pl_fsid l = 0 \<and> pl_ino l = 0"

definition vp_writable :: "vp \<Rightarrow> bool" where "vp_writable v \<longleftrightarrow> vp_rights v AND L4_Writable \<noteq> 0"

section \<open>Lists of pages\<close>

text \<open>The server aborts when no page is free.\<close>

definition get_free_pl :: "vm \<Rightarrow> (nat \<times> vm) option" where
  "get_free_pl s = (case page_free_list s of [] \<Rightarrow> None | p # ps \<Rightarrow> Some (p, s\<lparr>page_free_list := ps\<rparr>))"

definition push_free :: "nat \<Rightarrow> vm \<Rightarrow> vm" where "push_free p s = s\<lparr>page_free_list := p # page_free_list s\<rparr>"

definition push_active :: "nat \<Rightarrow> vm \<Rightarrow> vm" where "push_active p s = s\<lparr>page_active_list := p # page_active_list s\<rparr>"

text \<open>\<open>free_page\<close> marks the old link dead; \<open>remove_active_pls\<close> takes it off the active list.\<close>

definition free_page :: "nat \<Rightarrow> vm \<Rightarrow> vm" where
  "free_page p s = push_free p (s\<lparr>page_active_list := removeAll p (page_active_list s), page_cache := removeAll p (page_cache s)\<rparr>)"

section \<open>Users of a page\<close>

definition vp_page :: "vm \<Rightarrow> vpref \<Rightarrow> nat" where
  "vp_page s r = (case vps s r of None \<Rightarrow> 0 | Some v \<Rightarrow> vp_status v)"

definition has_shares :: "nat \<Rightarrow> nat \<Rightarrow> vm \<Rightarrow> bool" where
  "has_shares p n s \<longleftrightarrow> n \<le> length (filter (\<lambda>r. vp_page s r = p) (share_table s))"

definition add_share :: "nat \<Rightarrow> vpref \<Rightarrow> vm \<Rightarrow> vm" where
  "add_share p r s = (if powner s p = None then s\<lparr>powner := (powner s)(p := Some r)\<rparr>
     else s\<lparr>share_table := r # share_table s\<rparr>)"

text \<open>The result says whether the last user went.\<close>

definition rm_share :: "vpref \<Rightarrow> nat \<Rightarrow> vm \<Rightarrow> (bool \<times> vm) option" where
  "rm_share r p s =
     (if powner s p = Some r
      then let s = s\<lparr>powner := (powner s)(p := None)\<rparr> in Some (\<not> has_shares p 1 s, s)
      else if r \<notin> set (share_table s) then None
      else let s = s\<lparr>share_table := remove1 r (share_table s)\<rparr>
        in Some (if powner s p \<noteq> None then False else \<not> has_shares p 1 s, s))"

definition remove_vp :: "vpref \<Rightarrow> vp \<Rightarrow> vm \<Rightarrow> vm option" where
  "remove_vp r v s =
     (let p = vp_status v; del = (\<lambda>s. if powner s p = Some r then None else Some (s\<lparr>vps := (vps s)(r := None)\<rparr>)) in
      if PL_IS_PRIVATE (links s p) \<and> \<not> vp_is_cow v
      then if powner s p \<noteq> Some r \<or> has_shares p 1 s then None
           else del (free_page p (s\<lparr>powner := (powner s)(p := None)\<rparr>))
      else case rm_share r p s of None \<Rightarrow> None
           | Some (gone, s) \<Rightarrow> del (if gone \<and> vp_is_anon v then free_page p s else s))"

text \<open>The addresses of the pages in a range.\<close>

definition pages_of :: "u32 \<Rightarrow> u32 \<Rightarrow> u32 list" where
  "pages_of a sz = map (\<lambda>i. a + of_nat (PAGE_SIZE * i)) [0..<(unat sz + (PAGE_SIZE - 1)) div PAGE_SIZE]"

fun remove_vps :: "nat \<Rightarrow> u32 list \<Rightarrow> vm \<Rightarrow> vm option" where
  "remove_vps pid [] s = Some s"
| "remove_vps pid (a # as) s =
     (case vps s (Vp pid a) of None \<Rightarrow> remove_vps pid as s
      | Some v \<Rightarrow> (case remove_vp (Vp pid a) v (s\<lparr>unmaps := (vp_status v, L4_FullyAccessible) # unmaps s\<rparr>) of
            None \<Rightarrow> None | Some s \<Rightarrow> remove_vps pid as s))"

definition remove_vp_range :: "nat \<Rightarrow> u32 \<Rightarrow> u32 \<Rightarrow> vm \<Rightarrow> vm option" where
  "remove_vp_range pid a sz s = remove_vps pid (pages_of a sz) s"

section \<open>The page cache\<close>

definition find_cached_page :: "lazy_mmap \<Rightarrow> u32 \<Rightarrow> vm \<Rightarrow> nat option" where
  "find_cached_page mm bump s = find (\<lambda>p. pl_ino (links s p) = mm_ino mm \<and> pl_offset (links s p) = mm_offset mm + bump
     \<and> pl_fsid (links s p) = pidof_NP (vm_self s) (mm_fd_serv mm)) (page_cache s)"

text \<open>Contents read from a file: \<open>Inl\<close> a negative error, \<open>Inr\<close> the bytes, at most a page.\<close>

type_synonym reader = "l4_tid \<Rightarrow> u64 \<Rightarrow> u32 \<Rightarrow> int + u8 list"

definition page_fill :: "u8 list \<Rightarrow> u8 list" where
  "page_fill bs = take PAGE_SIZE bs @ replicate (PAGE_SIZE - length bs) 0"

text \<open>Reading a page of a mapping into a free page and putting it in the cache.  A server that runs one
  call at a time never finds that another got there first.\<close>

definition load_cached_page :: "reader \<Rightarrow> lazy_mmap \<Rightarrow> u32 \<Rightarrow> u32 \<Rightarrow> vm \<Rightarrow> (int + nat \<times> vm) option" where
  "load_cached_page rd mm bump pos s =
     (case get_free_pl s of None \<Rightarrow> None
      | Some (p, s1) \<Rightarrow>
          (case (if mm_flags mm AND MAP_ANONYMOUS \<noteq> 0 then Inr [] else rd (mm_fd_serv mm) (mm_ino mm) pos) of
             Inl n \<Rightarrow> Some (Inl n)
           | Inr bs \<Rightarrow>
               if unat (mm_ino mm) \<ge> 2 ^ 48 then None
               else Some (Inr (p, s1\<lparr>mem := (mem s1)(p := page_fill bs),
                      links := (links s1)(p := \<lparr>pl_fsid = pidof_NP (vm_self s1) (mm_fd_serv mm), pl_ino = mm_ino mm, pl_offset = mm_offset mm + bump\<rparr>),
                      page_cache := p # page_cache s1\<rparr>))))"

definition fetch_cached_page :: "reader \<Rightarrow> lazy_mmap \<Rightarrow> u32 \<Rightarrow> vpref \<Rightarrow> vm \<Rightarrow> (int + (nat \<times> bool) \<times> vm) option" where
  "fetch_cached_page rd mm bump r s =
     (case find_cached_page mm bump s of
        Some p \<Rightarrow> Some (Inr ((p, False), s))
      | None \<Rightarrow> (case load_cached_page rd mm bump ((mm_offset mm + bump) * 4096) s of None \<Rightarrow> None
           | Some (Inl n) \<Rightarrow> Some (Inl n)
           | Some (Inr (p, s)) \<Rightarrow> Some (Inr ((p, True), s\<lparr>powner := (powner s)(p := Some r)\<rparr>))))"

section \<open>Faults\<close>

definition pf_cow :: "vpref \<Rightarrow> vp \<Rightarrow> vm \<Rightarrow> (vp \<times> vm) option" where
  "pf_cow r v s =
     (let p = vp_status v; primary = powner s p in
      if \<not> vp_is_cow v \<or> vp_writable v then None
      else if primary \<noteq> Some r \<and> r \<notin> set (share_table s) then None
      else
        let s = (if primary \<noteq> Some r then s\<lparr>share_table := remove1 r (share_table s)\<rparr> else s) in
        if (primary = None \<or> primary = Some r) \<and> vp_is_anon v \<and> \<not> has_shares p 1 s
        then if vp_is_shared v then None
          else let v = v\<lparr>vp_is_cow := False, vp_rights := vp_rights v OR L4_Writable\<rparr>
            in Some (v, s\<lparr>powner := (powner s)(p := Some r), vps := (vps s)(r \<mapsto> v)\<rparr>)
        else
          let s = (if primary = Some r then s\<lparr>powner := (powner s)(p := None)\<rparr> else s) in
          (case get_free_pl s of None \<Rightarrow> None
           | Some (q, s) \<Rightarrow>
               let v = v\<lparr>vp_status := q, vp_is_cow := False, vp_is_shared := False, vp_rights := vp_rights v OR L4_Writable, vp_is_anon := True\<rparr>
               in Some (v, push_active q (s\<lparr>mem := (mem s)(q := mem s p), vps := (vps s)(r \<mapsto> v), powner := (powner s)(q := Some r)\<rparr>))))"

text \<open>The last page of a mapping that is not a whole page.\<close>

definition is_tail :: "lazy_mmap \<Rightarrow> u32 \<Rightarrow> bool" where
  "is_tail mm a \<longleftrightarrow> a = mm_addr mm + mm_length mm - 4096 \<and> mm_tailsz mm < PAGE_SIZE"

definition tail_fill :: "nat \<Rightarrow> u8 list \<Rightarrow> u8 list" where
  "tail_fill n bs = take n bs @ replicate (PAGE_SIZE - n) 0"

text \<open>\<open>pf_mmap_shared\<close> and \<open>pf_mmap_private\<close> complete a new virtual page \<open>v\<close> for the page address \<open>a\<close>.\<close>

definition new_anon_page :: "vpref \<Rightarrow> vp \<Rightarrow> u8 list \<Rightarrow> vm \<Rightarrow> (vp \<times> vm) option" where
  "new_anon_page r v bs s =
     (case get_free_pl s of None \<Rightarrow> None
      | Some (q, s) \<Rightarrow> Some (v\<lparr>vp_status := q, vp_is_anon := True\<rparr>,
          push_active q (s\<lparr>mem := (mem s)(q := bs), powner := (powner s)(q := Some r)\<rparr>)))"

definition pf_mmap_shared :: "reader \<Rightarrow> lazy_mmap \<Rightarrow> vpref \<Rightarrow> vp \<Rightarrow> vm \<Rightarrow> (int + vp \<times> vm) option" where
  "pf_mmap_shared rd mm r v s =
     (let a = vp_addr r; bump = drop_bit 12 (a - mm_addr mm) in
      case (case find_cached_page mm bump s of Some p \<Rightarrow> Some (Inr (p, s))
            | None \<Rightarrow> load_cached_page rd mm bump (mm_offset mm * 4096 + (a - mm_addr mm)) s) of
        None \<Rightarrow> None
      | Some (Inl n) \<Rightarrow> Some (Inl n)
      | Some (Inr (p, s)) \<Rightarrow>
          if is_tail mm a then map_option Inr (new_anon_page r v (tail_fill (mm_tailsz mm) (mem s p)) s)
          else Some (Inr (v\<lparr>vp_status := p, vp_is_shared := True\<rparr>, add_share p r s)))"

definition pf_mmap_private :: "reader \<Rightarrow> lazy_mmap \<Rightarrow> vpref \<Rightarrow> vp \<Rightarrow> vm \<Rightarrow> (int + vp \<times> vm) option" where
  "pf_mmap_private rd mm r v s =
     (let a = vp_addr r; bump = drop_bit 12 (a - mm_addr mm) in
      case fetch_cached_page rd mm bump r s of
        None \<Rightarrow> None
      | Some (Inl n) \<Rightarrow> Some (Inl n)
      | Some (Inr ((p, fresh), s)) \<Rightarrow>
          (case new_anon_page r v (if is_tail mm a then tail_fill (mm_tailsz mm) (mem s p) else mem s p) s of
             None \<Rightarrow> None
           | Some (v, s) \<Rightarrow> if \<not> fresh then Some (Inr (v, s))
               else if powner s p = Some r then Some (Inr (v, s\<lparr>powner := (powner s)(p := None)\<rparr>)) else None))"

end
