(* ===== verification/Vm_Inv.thy ===== *)
theory Vm_Inv
  imports Vm_Pages
begin

text \<open>
  The invariant of physical memory: every page is on one list, free pages have no users, the owner and the share
  table name the users of a page, and private memory that is not copy-on-write has one user.
\<close>

definition inv_lists :: "nat set \<Rightarrow> vm \<Rightarrow> bool" where
  "inv_lists P s \<longleftrightarrow> distinct (page_free_list s @ page_active_list s @ page_cache s)
     \<and> set (page_free_list s @ page_active_list s @ page_cache s) = P"

definition inv_free :: "vm \<Rightarrow> bool" where
  "inv_free s \<longleftrightarrow> (\<forall>p \<in> set (page_free_list s). powner s p = None)"

definition inv_refs :: "vm \<Rightarrow> bool" where
  "inv_refs s \<longleftrightarrow>
     (\<forall>r v. vps s r = Some v \<longrightarrow> vp_status v \<in> set (page_active_list s) \<union> set (page_cache s)
        \<and> (powner s (vp_status v) = Some r \<longleftrightarrow> r \<notin> set (share_table s)))
   \<and> distinct (share_table s) \<and> (\<forall>r \<in> set (share_table s). vps s r \<noteq> None)
   \<and> (\<forall>p r. powner s p = Some r \<longrightarrow> (\<exists>v. vps s r = Some v \<and> vp_status v = p))"

definition inv_active :: "vm \<Rightarrow> bool" where
  "inv_active s \<longleftrightarrow> (\<forall>p \<in> set (page_active_list s). \<exists>r v. vps s r = Some v \<and> vp_status v = p)"

definition inv_flags :: "vm \<Rightarrow> bool" where
  "inv_flags s \<longleftrightarrow> (\<forall>r v. vps s r = Some v \<longrightarrow> (vp_is_cow v \<longrightarrow> \<not> vp_writable v) \<and> (vp_is_anon v \<longleftrightarrow> \<not> vp_is_shared v)
     \<and> (vp_is_anon v \<longleftrightarrow> vp_status v \<in> set (page_active_list s)))"

definition inv_private :: "vm \<Rightarrow> bool" where
  "inv_private s \<longleftrightarrow> (\<forall>r v r' v'. vps s r = Some v \<longrightarrow> vp_is_anon v \<longrightarrow> \<not> vp_is_cow v
     \<longrightarrow> powner s (vp_status v) = Some r \<and> (vps s r' = Some v' \<longrightarrow> vp_status v' = vp_status v \<longrightarrow> r' = r))"

definition inv_cache :: "vm \<Rightarrow> bool" where
  "inv_cache s \<longleftrightarrow> (\<forall>p \<in> set (page_cache s). \<not> PL_IS_PRIVATE (links s p))"

definition vm_inv :: "nat set \<Rightarrow> vm \<Rightarrow> bool" where
  "vm_inv P s \<longleftrightarrow> inv_lists P s \<and> inv_free s \<and> inv_refs s \<and> inv_active s \<and> inv_flags s \<and> inv_private s \<and> inv_cache s"

lemmas vm_inv_defs = inv_lists_def inv_free_def inv_refs_def inv_active_def inv_flags_def inv_private_def inv_cache_def

lemma has_shares_1: "has_shares p 1 s \<longleftrightarrow> (\<exists>r \<in> set (share_table s). vp_page s r = p)"
proof -
  have "has_shares p 1 s \<longleftrightarrow> filter (\<lambda>r. vp_page s r = p) (share_table s) \<noteq> []" by (simp add: has_shares_def Suc_le_eq)
  then show ?thesis by (auto simp: filter_empty_conv)
qed

text \<open>What the invariant says of one virtual page.\<close>

lemma vm_inv_vp:
  assumes "vm_inv P s" "vps s r = Some v"
  shows "vp_status v \<in> set (page_active_list s) \<union> set (page_cache s)"
    "powner s (vp_status v) = Some r \<longleftrightarrow> r \<notin> set (share_table s)"
    "vp_is_cow v \<longrightarrow> \<not> vp_writable v" "vp_is_shared v \<longleftrightarrow> \<not> vp_is_anon v" "vp_is_anon v \<longleftrightarrow> vp_status v \<in> set (page_active_list s)"
    "vp_is_anon v \<Longrightarrow> \<not> vp_is_cow v \<Longrightarrow> vps s r' = Some v' \<Longrightarrow> vp_status v' = vp_status v \<Longrightarrow> r' = r"
    "vp_is_anon v \<Longrightarrow> \<not> vp_is_cow v \<Longrightarrow> powner s (vp_status v) = Some r"
  using assms unfolding vm_inv_def vm_inv_defs by blast+

lemma vm_inv_new:
  assumes "vm_inv P s" "vps s r = None"
  shows "r \<notin> set (share_table s)" "powner s p \<noteq> Some r"
proof -
  show "r \<notin> set (share_table s)" using assms unfolding vm_inv_def inv_refs_def by blast
  show "powner s p \<noteq> Some r"
  proof
    assume "powner s p = Some r"
    then obtain v where "vps s r = Some v" using assms(1) unfolding vm_inv_def inv_refs_def by blast
    then show False using assms(2) by simp
  qed
qed

text \<open>A free page made a new virtual page.\<close>

lemma new_anon_page_inv:
  assumes inv: "vm_inv P s" and r: "vps s r = None" and n: "new_anon_page r v bs s = Some (v1, s1)"
    and v2: "vp_status v2 = vp_status v1" "vp_is_anon v2" "\<not> vp_is_shared v2" "vp_is_cow v2 \<longrightarrow> \<not> vp_writable v2"
  shows "vm_inv P (s1\<lparr>vps := (vps s1)(r \<mapsto> v2)\<rparr>)"
proof -
  obtain q qs where q: "page_free_list s = q # qs" "v1 = v\<lparr>vp_status := q, vp_is_anon := True\<rparr>"
    "s1 = push_active q (s\<lparr>page_free_list := qs, mem := (mem s)(q := bs), powner := (powner s)(q := Some r)\<rparr>)"
    using n by (auto simp: new_anon_page_def get_free_pl_def split: list.splits)
  note nw = vm_inv_new [OF inv r]
  have l: "inv_lists P s" "inv_free s" "inv_refs s" "inv_active s" "inv_flags s" "inv_private s" "inv_cache s" using inv by (auto simp: vm_inv_def)
  have qn: "q \<notin> set (page_active_list s)" "q \<notin> set (page_cache s)" "q \<notin> set qs" using l(1) q(1) by (auto simp: inv_lists_def)
  have nu: "vp_status w \<noteq> q" if "vps s r' = Some w" for r' w using vm_inv_vp(1) [OF inv that] qn by auto
  let ?s = "s1\<lparr>vps := (vps s1)(r \<mapsto> v2)\<rparr>"
  have f: "page_free_list ?s = qs" "page_active_list ?s = q # page_active_list s" "page_cache ?s = page_cache s" "vps ?s = (vps s)(r \<mapsto> v2)"
    "powner ?s = (powner s)(q := Some r)" "share_table ?s = share_table s" "links ?s = links s" "vp_status v2 = q"
    using q v2(1) by (simp_all add: push_active_def)
  have "inv_lists P ?s" using l(1) q(1) by (auto simp: inv_lists_def f(1-3))
  moreover have "inv_free ?s" using l(2) q(1) qn by (auto simp: inv_free_def f(1,5))
  moreover have "inv_refs ?s" unfolding inv_refs_def f
  proof (intro conjI allI impI ballI)
    show "distinct (share_table s)" using l(3) by (simp add: inv_refs_def)
    fix r' w assume w: "((vps s)(r \<mapsto> v2)) r' = Some w"
    show "vp_status w \<in> set (q # page_active_list s) \<union> set (page_cache s)" using w f(8) l(3) by (auto simp: inv_refs_def split: if_splits)
    show "(((powner s)(q := Some r)) (vp_status w) = Some r') = (r' \<notin> set (share_table s))"
      using w f(8) nu vm_inv_vp(2) [OF inv] nw by (auto split: if_splits)
  next
    fix r' assume "r' \<in> set (share_table s)"
    then show "((vps s)(r \<mapsto> v2)) r' \<noteq> None" using l(3) by (auto simp: inv_refs_def)
  next
    fix p r' assume "((powner s)(q := Some r)) p = Some r'"
    then show "\<exists>v. ((vps s)(r \<mapsto> v2)) r' = Some v \<and> vp_status v = p"
      using f(8) nw l(3) by (auto simp: inv_refs_def split: if_splits)
  qed
  moreover have "inv_active ?s" unfolding inv_active_def f
  proof
    fix p assume p: "p \<in> set (q # page_active_list s)"
    show "\<exists>r' w. ((vps s)(r \<mapsto> v2)) r' = Some w \<and> vp_status w = p"
    proof (cases "p = q")
      case False
      then obtain r' w where "vps s r' = Some w" "vp_status w = p" using l(4) p by (auto simp: inv_active_def)
      then show ?thesis using r by (intro exI [of _ r'] exI [of _ w]) auto
    qed (use f(8) in \<open>auto intro: exI [of _ r]\<close>)
  qed
  moreover have "inv_flags ?s" using l(5) v2 nu unfolding inv_flags_def f by (auto simp: f(8) split: if_splits)
  moreover have "inv_private ?s" unfolding inv_private_def f
  proof (intro allI impI conjI)
    fix r1 w1 r2 w2
    assume a: "((vps s)(r \<mapsto> v2)) r1 = Some w1" "vp_is_anon w1" "\<not> vp_is_cow w1"
    show "((powner s)(q := Some r)) (vp_status w1) = Some r1" using a f(8) nu vm_inv_vp(7) [OF inv] by (auto split: if_splits)
    assume "((vps s)(r \<mapsto> v2)) r2 = Some w2" "vp_status w2 = vp_status w1"
    then show "r2 = r1" using a f(8) nu vm_inv_vp(6) [OF inv] by (auto split: if_splits)
  qed
  moreover have "inv_cache ?s" using l(7) by (simp add: inv_cache_def f)
  ultimately show ?thesis by (simp add: vm_inv_def)
qed

text \<open>A page of the cache gets another user.\<close>

lemma add_share_inv:
  assumes inv: "vm_inv P s" and r: "vps s r = None" and p: "p \<in> set (page_cache s)"
    and v: "vp_status v = p" "\<not> vp_is_anon v" "vp_is_shared v" "vp_is_cow v \<longrightarrow> \<not> vp_writable v"
  shows "vm_inv P ((add_share p r s)\<lparr>vps := (vps s)(r \<mapsto> v)\<rparr>)"
proof -
  let ?s = "(add_share p r s)\<lparr>vps := (vps s)(r \<mapsto> v)\<rparr>"
  have l: "inv_lists P s" "inv_free s" "inv_refs s" "inv_active s" "inv_flags s" "inv_private s" "inv_cache s" using inv by (auto simp: vm_inv_def)
  have pn: "p \<notin> set (page_active_list s)" "p \<notin> set (page_free_list s)" using l(1) p by (auto simp: inv_lists_def)
  note nw = vm_inv_new [OF inv r]
  have ref: "\<exists>w. vps s r' = Some w \<and> vp_status w = p'" if "powner s p' = Some r'" for p' r' using l(3) that unfolding inv_refs_def by blast
  have "inv_lists P ?s" "inv_cache ?s" using l(1,7) by (auto simp: inv_lists_def inv_cache_def add_share_def)
  moreover have "inv_free ?s" using l(2) pn by (auto simp: inv_free_def add_share_def)
  moreover have "inv_refs ?s"
  proof (cases "powner s p")
    case None
    show ?thesis using l(3) v(1) p nw ref r None unfolding inv_refs_def by (auto simp: add_share_def split: if_splits) (metis option.distinct(1))+
  next
    case (Some r0)
    then show ?thesis using l(3) v(1) p nw ref r unfolding inv_refs_def by (auto simp: add_share_def split: if_splits)
  qed
  moreover have "inv_active ?s" unfolding inv_active_def
  proof
    fix p' assume "p' \<in> set (page_active_list ?s)"
    then obtain r' w where "vps s r' = Some w" "vp_status w = p'" using l(4) by (auto simp: inv_active_def add_share_def split: if_splits)
    then show "\<exists>r' w. vps ?s r' = Some w \<and> vp_status w = p'" using r by (intro exI [of _ r'] exI [of _ w]) auto
  qed
  moreover have "inv_flags ?s" using l(5) v pn unfolding inv_flags_def by (auto simp: add_share_def split: if_splits)
  moreover have "inv_private ?s"
    using l(6) v pn vm_inv_vp(5) [OF inv] unfolding inv_private_def by (auto simp: add_share_def split: if_splits)
  ultimately show ?thesis by (simp add: vm_inv_def)
qed

lemma load_cached_page_inv:
  assumes inv: "vm_inv P s" and l: "load_cached_page rd mm bump pos s = Some (Inr (p, s1))" and nz: "pidof_NP (vm_self s) (mm_fd_serv mm) \<noteq> 0"
  shows "vm_inv P s1" "p \<in> set (page_cache s1)" "vps s1 = vps s" "powner s1 = powner s" "powner s p = None" "share_table s1 = share_table s" "spaces s1 = spaces s"
proof -
  obtain q qs bs where q: "page_free_list s = q # qs" "p = q"
    "s1 = s\<lparr>page_free_list := qs, mem := (mem s)(q := page_fill bs),
       links := (links s)(q := \<lparr>pl_fsid = pidof_NP (vm_self s) (mm_fd_serv mm), pl_ino = mm_ino mm, pl_offset = mm_offset mm + bump\<rparr>), page_cache := q # page_cache s\<rparr>"
    using l by (auto simp: load_cached_page_def get_free_pl_def split: list.splits sum.splits if_splits)
  have i: "inv_lists P s" "inv_free s" "inv_refs s" "inv_active s" "inv_flags s" "inv_private s" "inv_cache s" using inv by (auto simp: vm_inv_def)
  show "p \<in> set (page_cache s1)" "vps s1 = vps s" "powner s1 = powner s" "powner s p = None" "share_table s1 = share_table s" "spaces s1 = spaces s"
    using q i(2) by (auto simp: inv_free_def)
  have "inv_lists P s1" using i(1) q by (auto simp: inv_lists_def)
  moreover have "inv_free s1" using i(2) q by (auto simp: inv_free_def)
  moreover have "inv_refs s1" using i(3) q by (auto simp: inv_refs_def)
  moreover have "inv_active s1" "inv_flags s1" "inv_private s1" using i(4-6) q by (auto simp: inv_active_def inv_flags_def inv_private_def)
  moreover have "inv_cache s1" using i(1,7) q nz by (auto simp: inv_cache_def inv_lists_def PL_IS_PRIVATE_def)
  ultimately show "vm_inv P s1" by (simp add: vm_inv_def)
qed

text \<open>Removal of a virtual page: no assertion fails, and the page is freed exactly if it is not in the cache and has no
  other user.\<close>

definition other_users :: "vpref \<Rightarrow> nat \<Rightarrow> vm \<Rightarrow> bool" where
  "other_users r p s \<longleftrightarrow> (\<exists>r' w. r' \<noteq> r \<and> vps s r' = Some w \<and> vp_status w = p)"

definition drop_user :: "vpref \<Rightarrow> nat \<Rightarrow> vm \<Rightarrow> vm" where
  "drop_user r p s = (if powner s p = Some r then s\<lparr>powner := (powner s)(p := None)\<rparr> else s\<lparr>share_table := remove1 r (share_table s)\<rparr>)"

lemma drop_user_gone:
  assumes "vm_inv P s" "vps s r = Some v"
  shows "rm_share r (vp_status v) s = Some (\<not> other_users r (vp_status v) s, drop_user r (vp_status v) s)"
proof -
  let ?p = "vp_status v"
  have ref: "\<exists>w. vps s r' = Some w \<and> vp_status w = p'" if "powner s p' = Some r'" for p' r' using assms(1) that unfolding vm_inv_def inv_refs_def by blast
  have d: "distinct (share_table s)" "\<forall>r \<in> set (share_table s). vps s r \<noteq> None" using assms(1) by (auto simp: vm_inv_def inv_refs_def)
  have ou: "other_users r ?p s \<longleftrightarrow> (\<exists>r'. r' \<noteq> r \<and> powner s ?p = Some r') \<or> (\<exists>r' \<in> set (share_table s). r' \<noteq> r \<and> vp_page s r' = ?p)"
  proof
    assume "other_users r ?p s"
    then obtain r' w where w: "r' \<noteq> r" "vps s r' = Some w" "vp_status w = ?p" by (auto simp: other_users_def)
    then show "(\<exists>r'. r' \<noteq> r \<and> powner s ?p = Some r') \<or> (\<exists>r' \<in> set (share_table s). r' \<noteq> r \<and> vp_page s r' = ?p)"
      using vm_inv_vp(2) [OF assms(1) w(2)] by (auto simp: vp_page_def)
  qed (use ref d in \<open>fastforce simp: other_users_def vp_page_def\<close>)
  show ?thesis
  proof (cases "powner s ?p = Some r")
    case True
    then have "r \<notin> set (share_table s)" using vm_inv_vp(2) [OF assms] by simp
    then show ?thesis using True ou by (auto simp: rm_share_def drop_user_def has_shares_1 [unfolded One_nat_def] vp_page_def Let_def)
  next
    case False
    then have "r \<in> set (share_table s)" using vm_inv_vp(2) [OF assms] by simp
    then show ?thesis using False ou d(1) by (auto simp: rm_share_def drop_user_def has_shares_1 [unfolded One_nat_def] vp_page_def Let_def)
  qed
qed

lemma remove_vp_eq:
  assumes inv: "vm_inv P s" and v: "vps s r = Some v"
  shows "remove_vp r v s = Some ((if vp_is_anon v \<and> \<not> other_users r (vp_status v) s then free_page (vp_status v) else (\<lambda>s. s))
    (drop_user r (vp_status v) s\<lparr>vps := (vps s)(r := None)\<rparr>))"
proof -
  let ?p = "vp_status v"
  have o: "powner (drop_user r ?p s) ?p \<noteq> Some r" by (simp add: drop_user_def)
  show ?thesis
  proof (cases "PL_IS_PRIVATE (links s ?p) \<and> \<not> vp_is_cow v")
    case True
    then have "?p \<notin> set (page_cache s)" using inv by (auto simp: vm_inv_def inv_cache_def)
    then have a: "vp_is_anon v" using vm_inv_vp(1,5) [OF inv v] by auto
    have ow: "powner s ?p = Some r" using vm_inv_vp(7) [OF inv v a] True by simp
    have ou: "\<not> other_users r ?p s" using vm_inv_vp(6) [OF inv v a] True unfolding other_users_def by metis
    have "\<not> has_shares ?p 1 s"
      using drop_user_gone [OF inv v] ow ou by (auto simp: rm_share_def has_shares_1 [unfolded One_nat_def] vp_page_def Let_def)
    then show ?thesis using True ow ou a by (simp add: remove_vp_def Let_def free_page_def push_free_def drop_user_def)
  next
    case False
    then show ?thesis using drop_user_gone [OF inv v] o
      by (auto simp: remove_vp_def Let_def free_page_def push_free_def drop_user_def)
  qed
qed

text \<open>The state without the user, before its page is freed.\<close>

definition forget_vp :: "vpref \<Rightarrow> nat \<Rightarrow> vm \<Rightarrow> vm" where
  "forget_vp r p s = drop_user r p s\<lparr>vps := (vps s)(r := None)\<rparr>"

lemma forget_vp_parts:
  assumes inv: "vm_inv P s" and v: "vps s r = Some v"
  shows "inv_lists P (forget_vp r (vp_status v) s)" "inv_free (forget_vp r (vp_status v) s)" "inv_refs (forget_vp r (vp_status v) s)"
    "inv_flags (forget_vp r (vp_status v) s)" "inv_private (forget_vp r (vp_status v) s)" "inv_cache (forget_vp r (vp_status v) s)"
    "other_users r (vp_status v) s \<or> \<not> vp_is_anon v \<Longrightarrow> inv_active (forget_vp r (vp_status v) s)"
    "\<forall>p \<in> set (page_active_list s). p = vp_status v \<or> (\<exists>r' w. r' \<noteq> r \<and> vps s r' = Some w \<and> vp_status w = p)"
proof -
  let ?p = "vp_status v" and ?s = "forget_vp r (vp_status v) s"
  have l: "inv_lists P s" "inv_free s" "inv_refs s" "inv_active s" "inv_flags s" "inv_private s" "inv_cache s" using inv by (auto simp: vm_inv_def)
  have own: "powner s p' = Some r \<Longrightarrow> p' = ?p" for p' using l(3) v unfolding inv_refs_def by (metis option.inject)
  have d: "distinct (share_table s)" using l(3) by (simp add: inv_refs_def)
  have sh: "powner s ?p = Some r \<longleftrightarrow> r \<notin> set (share_table s)" by (rule vm_inv_vp(2) [OF inv v])
  show "inv_lists P ?s" using l(1) by (simp add: inv_lists_def forget_vp_def drop_user_def)
  show "inv_free ?s" using l(2) by (auto simp: inv_free_def forget_vp_def drop_user_def)
  show "inv_cache ?s" using l(7) by (simp add: inv_cache_def forget_vp_def drop_user_def)
  show "inv_flags ?s" using l(5) by (auto simp: inv_flags_def forget_vp_def drop_user_def)
  show "inv_refs ?s" unfolding inv_refs_def
  proof (intro conjI allI impI ballI)
    show "distinct (share_table ?s)" using d by (simp add: forget_vp_def drop_user_def)
    fix r' w assume w: "vps ?s r' = Some w"
    then have w': "r' \<noteq> r" "vps s r' = Some w" by (auto simp: forget_vp_def split: if_splits)
    show "vp_status w \<in> set (page_active_list ?s) \<union> set (page_cache ?s)"
      using vm_inv_vp(1) [OF inv w'(2)] by (simp add: forget_vp_def drop_user_def)
    show "(powner ?s (vp_status w) = Some r') = (r' \<notin> set (share_table ?s))"
      using vm_inv_vp(2) [OF inv w'(2)] w'(1) by (auto simp: forget_vp_def drop_user_def)
  next
    fix r' assume "r' \<in> set (share_table ?s)"
    then have "r' \<in> set (share_table s)" "r' \<noteq> r" using d sh by (auto simp: forget_vp_def drop_user_def split: if_splits)
    then show "vps ?s r' \<noteq> None" using l(3) by (auto simp: forget_vp_def inv_refs_def)
  next
    fix p' r' assume "powner ?s p' = Some r'"
    then have o: "powner s p' = Some r'" "powner s ?p = Some r \<longrightarrow> p' \<noteq> ?p" by (auto simp: forget_vp_def drop_user_def split: if_splits)
    then have "r' \<noteq> r" using own by blast
    moreover obtain w where "vps s r' = Some w" "vp_status w = p'" using l(3) o(1) unfolding inv_refs_def by blast
    ultimately show "\<exists>w. vps ?s r' = Some w \<and> vp_status w = p'" by (auto simp: forget_vp_def)
  qed
  show "inv_private ?s" unfolding inv_private_def
  proof (intro allI impI conjI)
    fix r1 w1 r2 w2 assume "vps ?s r1 = Some w1" and w: "vp_is_anon w1" "\<not> vp_is_cow w1"
    then have w1: "r1 \<noteq> r" "vps s r1 = Some w1" by (auto simp: forget_vp_def split: if_splits)
    then show "powner ?s (vp_status w1) = Some r1" using vm_inv_vp(7) [OF inv w1(2) w] by (auto simp: forget_vp_def drop_user_def)
    assume "vps ?s r2 = Some w2" "vp_status w2 = vp_status w1"
    then show "r2 = r1" using vm_inv_vp(6) [OF inv w1(2) w] by (auto simp: forget_vp_def split: if_splits)
  qed
  show act: "\<forall>p \<in> set (page_active_list s). p = ?p \<or> (\<exists>r' w. r' \<noteq> r \<and> vps s r' = Some w \<and> vp_status w = p)"
    using l(4) v unfolding inv_active_def by (metis option.inject)
  show "inv_active ?s" if o: "other_users r ?p s \<or> \<not> vp_is_anon v" unfolding inv_active_def
  proof
    fix p assume p: "p \<in> set (page_active_list ?s)"
    then have p': "p \<in> set (page_active_list s)" by (simp add: forget_vp_def drop_user_def split: if_splits)
    have "\<exists>r' w. r' \<noteq> r \<and> vps s r' = Some w \<and> vp_status w = p"
    proof (cases "p = ?p")
      case True
      then have "vp_is_anon v" using p' vm_inv_vp(5) [OF inv v] by simp
      then show ?thesis using o True by (auto simp: other_users_def)
    qed (use act p' in blast)
    then show "\<exists>r' w. vps ?s r' = Some w \<and> vp_status w = p" by (auto simp: forget_vp_def)
  qed
qed

lemma forget_vp_inv:
  "vm_inv P s \<Longrightarrow> vps s r = Some v \<Longrightarrow> other_users r (vp_status v) s \<or> \<not> vp_is_anon v \<Longrightarrow> vm_inv P (forget_vp r (vp_status v) s)"
  unfolding vm_inv_def [of P "forget_vp r (vp_status v) s"] using forget_vp_parts [of P s r v] by blast

lemma forget_free_inv:
  assumes inv: "vm_inv P s" and v: "vps s r = Some v" and a: "vp_is_anon v" "\<not> other_users r (vp_status v) s"
  shows "vm_inv P (free_page (vp_status v) (forget_vp r (vp_status v) s))"
proof -
  let ?p = "vp_status v"
  define s0 where "s0 = forget_vp r ?p s"
  note f = forget_vp_parts [OF inv v, folded s0_def]
  have pa: "?p \<in> set (page_active_list s)" using vm_inv_vp(5) [OF inv v] a(1) by simp
  have fl: "page_active_list s0 = page_active_list s" "page_cache s0 = page_cache s" "page_free_list s0 = page_free_list s"
    by (simp_all add: s0_def forget_vp_def drop_user_def)
  have nu: "vp_status w \<noteq> ?p" if "vps s0 r' = Some w" for r' w
    using that a(2) by (auto simp: s0_def forget_vp_def other_users_def split: if_splits)
  have no: "powner s0 ?p = None"
  proof (rule ccontr)
    assume "powner s0 ?p \<noteq> None"
    then obtain r' w where "vps s0 r' = Some w" "vp_status w = ?p" using f(3) unfolding inv_refs_def by (metis not_None_eq)
    then show False using nu by blast
  qed
  let ?s = "free_page ?p s0"
  have "inv_lists P ?s" using f(1) pa fl by (auto simp: inv_lists_def free_page_def push_free_def distinct_removeAll)
  moreover have "inv_free ?s" using f(2) no by (auto simp: inv_free_def free_page_def push_free_def)
  moreover have "inv_refs ?s" using f(3) nu unfolding inv_refs_def by (auto simp: free_page_def push_free_def)
  moreover have "inv_active ?s" unfolding inv_active_def
  proof
    fix p assume "p \<in> set (page_active_list ?s)"
    then have "p \<in> set (page_active_list s)" "p \<noteq> ?p" by (auto simp: free_page_def push_free_def fl)
    then obtain r' w where "r' \<noteq> r" "vps s r' = Some w" "vp_status w = p" using f(8) by blast
    then show "\<exists>r' w. vps ?s r' = Some w \<and> vp_status w = p"
      by (intro exI [of _ r'] exI [of _ w]) (simp add: free_page_def push_free_def s0_def forget_vp_def)
  qed
  moreover have "inv_flags ?s" using f(4) nu by (auto simp: inv_flags_def free_page_def push_free_def)
  moreover have "inv_private ?s" using f(5) unfolding inv_private_def free_page_def push_free_def by simp
  moreover have "inv_cache ?s" using f(6) by (auto simp: inv_cache_def free_page_def push_free_def)
  ultimately show ?thesis by (simp add: vm_inv_def s0_def)
qed

lemma remove_vp_inv:
  assumes "vm_inv P s" "vps s r = Some v"
  obtains s' where "remove_vp r v s = Some s'" "vm_inv P s'" "vps s' = (vps s)(r := None)" "spaces s' = spaces s" "mem s' = mem s"
    "anon_mmap_table s' = anon_mmap_table s" "next_ptr s' = next_ptr s" "unmaps s' = unmaps s" "vm_self s' = vm_self s"
    "user_addr_max s' = user_addr_max s" "next_anon_ino s' = next_anon_ino s"
proof -
  let ?s = "(if vp_is_anon v \<and> \<not> other_users r (vp_status v) s then free_page (vp_status v) else (\<lambda>s. s)) (forget_vp r (vp_status v) s)"
  have "remove_vp r v s = Some ?s" using remove_vp_eq [OF assms] by (simp add: forget_vp_def)
  moreover have "vm_inv P ?s" using forget_vp_inv [OF assms] forget_free_inv [OF assms] by auto
  ultimately show ?thesis by (rule that) (simp_all add: forget_vp_def drop_user_def free_page_def push_free_def)
qed

section \<open>Copy on write\<close>

lemma rights_or_writable [simp]: "(x OR L4_Writable) AND L4_Writable = (L4_Writable :: rights)"
  by (rule bit_word_eqI) (auto simp: bit_simps)

definition vp_take :: "vp \<Rightarrow> vp" where
  "vp_take v = v\<lparr>vp_is_cow := False, vp_rights := vp_rights v OR L4_Writable\<rparr>"

definition vp_copy :: "vp \<Rightarrow> nat \<Rightarrow> vp" where
  "vp_copy v q = v\<lparr>vp_status := q, vp_is_cow := False, vp_is_shared := False, vp_rights := vp_rights v OR L4_Writable, vp_is_anon := True\<rparr>"

text \<open>The sole user of an anonymous page takes it over.\<close>

lemma take_over_inv:
  assumes inv: "vm_inv P s" and v: "vps s r = Some v" "vp_is_anon v" "\<not> other_users r (vp_status v) s"
  shows "vm_inv P (drop_user r (vp_status v) s\<lparr>powner := (powner s)(vp_status v := Some r), vps := (vps s)(r \<mapsto> vp_take v)\<rparr>)"
proof -
  let ?p = "vp_status v"
  let ?s = "drop_user r ?p s\<lparr>powner := (powner s)(?p := Some r), vps := (vps s)(r \<mapsto> vp_take v)\<rparr>"
  have l: "inv_lists P s" "inv_free s" "inv_refs s" "inv_active s" "inv_flags s" "inv_private s" "inv_cache s" using inv by (auto simp: vm_inv_def)
  have pa: "?p \<in> set (page_active_list s)" using vm_inv_vp(5) [OF inv v(1)] v(2) by simp
  have sole: "vps s r' = Some w \<Longrightarrow> vp_status w = ?p \<Longrightarrow> r' = r" for r' w using v(3) by (auto simp: other_users_def)
  have d: "distinct (share_table s)" using l(3) by (simp add: inv_refs_def)
  have sh: "share_table ?s = remove1 r (share_table s)"
    using vm_inv_vp(2) [OF inv v(1)] by (auto simp: drop_user_def remove1_idem)
  have tk: "vp_status (vp_take v) = ?p" "vp_is_anon (vp_take v) = vp_is_anon v" "vp_is_shared (vp_take v) = vp_is_shared v" "\<not> vp_is_cow (vp_take v)"
    by (simp_all add: vp_take_def)
  have fl: "page_active_list ?s = page_active_list s" "page_cache ?s = page_cache s" "page_free_list ?s = page_free_list s" "links ?s = links s"
    by (simp_all add: drop_user_def)
  have "inv_lists P ?s" "inv_cache ?s" using l(1,7) by (simp_all only: inv_lists_def inv_cache_def fl)
  moreover have "inv_free ?s" using l(1,2) pa unfolding inv_free_def inv_lists_def fl by auto
  moreover have "inv_refs ?s" unfolding inv_refs_def fl sh
  proof (intro conjI allI impI ballI)
    show "distinct (remove1 r (share_table s))" using d by simp
    fix r' w assume "vps ?s r' = Some w"
    then have w: "r' = r \<and> w = vp_take v \<or> r' \<noteq> r \<and> vps s r' = Some w" by (auto split: if_splits)
    then show "vp_status w \<in> set (page_active_list s) \<union> set (page_cache s)" using vm_inv_vp(1) [OF inv] pa tk by auto
    show "(powner ?s (vp_status w) = Some r') = (r' \<notin> set (remove1 r (share_table s)))"
      using w d vm_inv_vp(2) [OF inv] sole tk(1) by auto
  next
    fix r' assume "r' \<in> set (remove1 r (share_table s))"
    then show "vps ?s r' \<noteq> None" using d l(3) by (auto simp: inv_refs_def)
  next
    fix p' r' assume o: "powner ?s p' = Some r'"
    show "\<exists>w. vps ?s r' = Some w \<and> vp_status w = p'"
    proof (cases "p' = ?p")
      case False
      then have "powner s p' = Some r'" using o by simp
      then obtain w where w: "vps s r' = Some w" "vp_status w = p'" using l(3) unfolding inv_refs_def by blast
      then have "r' \<noteq> r" using False v(1) by auto
      then show ?thesis using w by simp
    qed (use o tk in auto)
  qed
  moreover have "inv_active ?s" unfolding inv_active_def fl
  proof
    fix p assume "p \<in> set (page_active_list s)"
    then obtain r' w where w: "vps s r' = Some w" "vp_status w = p" using l(4) by (auto simp: inv_active_def)
    show "\<exists>r' w. vps ?s r' = Some w \<and> vp_status w = p"
      by (cases "r' = r"; intro exI [of _ r']) (use w v(1) tk(1) in auto)
  qed
  moreover have "inv_flags ?s" using l(5) v tk unfolding inv_flags_def fl by (auto split: if_splits)
  moreover have "inv_private ?s" unfolding inv_private_def
  proof (intro allI impI conjI)
    fix r1 w1 r2 w2 assume "vps ?s r1 = Some w1" and w: "vp_is_anon w1" "\<not> vp_is_cow w1"
    then have w1: "r1 = r \<and> w1 = vp_take v \<or> r1 \<noteq> r \<and> vps s r1 = Some w1" by (auto split: if_splits)
    show "powner ?s (vp_status w1) = Some r1" using w1 tk(1) vm_inv_vp(7) [OF inv _ w] sole by auto
    assume "vps ?s r2 = Some w2" "vp_status w2 = vp_status w1"
    then show "r2 = r1" using w1 tk(1) vm_inv_vp(6) [OF inv _ w] sole by (auto split: if_splits)
  qed
  ultimately show ?thesis by (simp add: vm_inv_def)
qed

lemma pf_cow_eq:
  assumes inv: "vm_inv P s" and v: "vps s r = Some v" "vp_is_cow v"
  shows "pf_cow r v s = (if vp_is_anon v \<and> \<not> other_users r (vp_status v) s
     then Some (vp_take v, drop_user r (vp_status v) s\<lparr>powner := (powner s)(vp_status v := Some r), vps := (vps s)(r \<mapsto> vp_take v)\<rparr>)
     else case page_free_list s of [] \<Rightarrow> None
       | q # qs \<Rightarrow> Some (vp_copy v q, push_active q ((drop_user r (vp_status v) s)\<lparr>page_free_list := qs, mem := (mem s)(q := mem s (vp_status v)),
            vps := (vps s)(r \<mapsto> vp_copy v q), powner := (powner (drop_user r (vp_status v) s))(q := Some r)\<rparr>)))"
proof -
  let ?p = "vp_status v"
  have nw: "\<not> vp_writable v" "vp_is_shared v \<longleftrightarrow> \<not> vp_is_anon v" using vm_inv_vp(3,4) [OF inv v(1)] v(2) by auto
  have sh: "powner s ?p = Some r \<longleftrightarrow> r \<notin> set (share_table s)" by (rule vm_inv_vp(2) [OF inv v(1)])
  note g = drop_user_gone [OF inv v(1)]
  define s0 where "s0 = (if powner s ?p \<noteq> Some r then s\<lparr>share_table := remove1 r (share_table s)\<rparr> else s)"
  have c: "(powner s ?p = None \<or> powner s ?p = Some r) \<and> \<not> has_shares ?p 1 s0 \<longleftrightarrow> \<not> other_users r ?p s"
    using g by (auto simp: rm_share_def s0_def Let_def has_shares_1 [unfolded One_nat_def] vp_page_def split: if_splits)
  have s1: "(if powner s ?p = Some r then s0\<lparr>powner := (powner s0)(?p := None)\<rparr> else s0) = drop_user r ?p s"
    by (simp add: s0_def drop_user_def)
  have t: "s0\<lparr>powner := (powner s0)(?p := Some r), vps := (vps s0)(r \<mapsto> vp_take v)\<rparr>
      = drop_user r ?p s\<lparr>powner := (powner s)(?p := Some r), vps := (vps s)(r \<mapsto> vp_take v)\<rparr>"
    by (simp add: s0_def drop_user_def)
  show ?thesis
  proof (cases "vp_is_anon v \<and> \<not> other_users r ?p s")
    case True
    then show ?thesis using v(2) nw sh c t unfolding pf_cow_def Let_def s0_def [symmetric] vp_take_def by auto
  next
    case False
    then have "\<not> ((powner s ?p = None \<or> powner s ?p = Some r) \<and> vp_is_anon v \<and> \<not> has_shares ?p 1 s0)" using c by blast
    then show ?thesis using v(2) nw(1) sh False
      unfolding pf_cow_def Let_def s0_def [symmetric] s1 vp_copy_def
      by (auto simp: get_free_pl_def push_active_def drop_user_def split: list.splits)
  qed
qed

lemma vm_free_unused:
  assumes "vm_inv P s" "q \<in> set (page_free_list s)" "vps s r = Some v"
  shows "vp_status v \<noteq> q"
  using vm_inv_vp(1) [OF assms(1,3)] assms(1,2) by (auto simp: vm_inv_def inv_lists_def)

lemma pf_cow_inv:
  assumes inv: "vm_inv P s" and v: "vps s r = Some v" "vp_is_cow v" and c: "pf_cow r v s = Some (v', s')"
  shows "vm_inv P s'"
proof (cases "vp_is_anon v \<and> \<not> other_users r (vp_status v) s")
  case True
  then show ?thesis using take_over_inv [OF inv v(1)] c pf_cow_eq [OF inv v] by auto
next
  case False
  let ?p = "vp_status v"
  obtain q qs where q: "page_free_list s = q # qs" "v' = vp_copy v q"
    "s' = push_active q ((drop_user r ?p s)\<lparr>page_free_list := qs, mem := (mem s)(q := mem s ?p),
            vps := (vps s)(r \<mapsto> vp_copy v q), powner := (powner (drop_user r ?p s))(q := Some r)\<rparr>)"
    using False c pf_cow_eq [OF inv v] by (auto split: list.splits)
  let ?s0 = "forget_vp r ?p s"
  have i0: "vm_inv P ?s0" using forget_vp_inv [OF inv v(1)] False by blast
  have "page_free_list ?s0 = q # qs" using q(1) by (simp add: forget_vp_def drop_user_def)
  then have n: "new_anon_page r v (mem s ?p) ?s0 = Some (v\<lparr>vp_status := q, vp_is_anon := True\<rparr>,
      push_active q (?s0\<lparr>page_free_list := qs, mem := (mem ?s0)(q := mem s ?p), powner := (powner ?s0)(q := Some r)\<rparr>))"
    by (simp add: new_anon_page_def get_free_pl_def)
  have "vm_inv P (push_active q (?s0\<lparr>page_free_list := qs, mem := (mem ?s0)(q := mem s ?p), powner := (powner ?s0)(q := Some r)\<rparr>)
      \<lparr>vps := (vps (push_active q (?s0\<lparr>page_free_list := qs, mem := (mem ?s0)(q := mem s ?p), powner := (powner ?s0)(q := Some r)\<rparr>)))(r \<mapsto> vp_copy v q)\<rparr>)"
    by (rule new_anon_page_inv [OF i0 _ n]) (simp_all add: forget_vp_def vp_copy_def)
  moreover have "push_active q (?s0\<lparr>page_free_list := qs, mem := (mem ?s0)(q := mem s ?p), powner := (powner ?s0)(q := Some r)\<rparr>)
      \<lparr>vps := (vps (push_active q (?s0\<lparr>page_free_list := qs, mem := (mem ?s0)(q := mem s ?p), powner := (powner ?s0)(q := Some r)\<rparr>)))(r \<mapsto> vp_copy v q)\<rparr> = s'"
    unfolding q(3) by (simp add: push_active_def forget_vp_def drop_user_def)
  ultimately show ?thesis by simp
qed

text \<open>The contents that every virtual page shows stay as they were.\<close>

lemma pf_cow_contents:
  assumes inv: "vm_inv P s" and v: "vps s r = Some v" "vp_is_cow v" and c: "pf_cow r v s = Some (v', s')"
  shows "vps s' = (vps s)(r \<mapsto> v')" "vp_writable v'" "vp_is_anon v'" "\<not> vp_is_cow v'" "vps s r' \<noteq> None \<Longrightarrow> mem s' (vp_page s' r') = mem s (vp_page s r')"
    "spaces s' = spaces s" "anon_mmap_table s' = anon_mmap_table s"
proof -
  let ?p = "vp_status v"
  have f: "\<And>w. vps s r' = Some w \<Longrightarrow> q \<in> set (page_free_list s) \<Longrightarrow> vp_status w \<noteq> q" for q using vm_free_unused [OF inv] by blast
  show "vps s' = (vps s)(r \<mapsto> v')" "vp_writable v'" "vp_is_anon v'" "\<not> vp_is_cow v'" "spaces s' = spaces s" "anon_mmap_table s' = anon_mmap_table s"
    using c unfolding pf_cow_eq [OF inv v]
    by (auto simp: vp_take_def vp_copy_def vp_writable_def push_active_def drop_user_def split: if_splits list.splits)
  show "mem s' (vp_page s' r') = mem s (vp_page s r')" if "vps s r' \<noteq> None"
  proof -
    from that obtain w where w: "vps s r' = Some w" by blast
    show ?thesis using c w v(1) f [OF w] unfolding pf_cow_eq [OF inv v]
      by (auto simp: vp_page_def vp_take_def vp_copy_def push_active_def drop_user_def split: if_splits list.splits)
  qed
qed

end
