(* ===== verification/Vm_Ops.thy ===== *)
theory Vm_Ops
  imports Vm_Inv
begin

text \<open>
  The calls of the virtual memory server \<^verbatim>\<open>sys/vm/vm.c\<close> on address spaces: mapping and unmapping, the program break,
  forking, page faults.  A process without an entry in \<open>spaces\<close> has no address space (its \<open>kip_area\<close> is nil).
  Outcomes of allocations and of other servers are arguments, and so is the order in which a hash
  table is walked.
\<close>

section \<open>Flexpages\<close>

fun L4_Address :: "fpage \<Rightarrow> u32" where
  "L4_Address (Fpage a sz) = a" | "L4_Address Nilpage = 0" | "L4_Address FpageOnes = 0xfffffc00"

fun L4_Size :: "fpage \<Rightarrow> u32" where
  "L4_Size (Fpage a sz) = sz" | "L4_Size Nilpage = 0" | "L4_Size FpageOnes = 0"

definition OVERLAP_EXCL :: "u32 \<Rightarrow> u32 \<Rightarrow> u32 \<Rightarrow> u32 \<Rightarrow> bool" where
  "OVERLAP_EXCL a b c d \<longleftrightarrow> \<not> (a + b \<le> c \<or> a \<ge> c + d)"

definition RANGE_IN_FPAGE :: "fpage \<Rightarrow> u32 \<Rightarrow> u32 \<Rightarrow> bool" where
  "RANGE_IN_FPAGE fp a len = OVERLAP_EXCL (L4_Address fp) (L4_Size fp) a len"

definition fpage_overlap :: "fpage \<Rightarrow> fpage \<Rightarrow> bool" where
  "fpage_overlap a b \<longleftrightarrow> (L4_Address a XOR L4_Address b) AND NOT (max (L4_Size a) (L4_Size b) - 1) = 0"

definition PAGE_CEIL :: "u32 \<Rightarrow> u32" where "PAGE_CEIL x = (x + 0xfff) AND NOT 0xfff"

definition prot_to_l4_rights :: "u32 \<Rightarrow> rights" where
  "prot_to_l4_rights prot = ucast (push_bit 2 (prot AND 1) OR (prot AND 2) OR drop_bit 2 (prot AND 4))"

definition mm_rights :: "lazy_mmap \<Rightarrow> rights" where
  "mm_rights mm = ucast (drop_bit 16 (mm_flags mm) AND 7)"

section \<open>Unmapping\<close>

definition mm_of :: "vm \<Rightarrow> nat \<times> nat \<Rightarrow> lazy_mmap option" where
  "mm_of s e = (case spaces s (fst e) of None \<Rightarrow> None | Some sp \<Rightarrow> mm_deref (snd e) (maps sp))"

text \<open>Whether another mapping of the same shared memory has a page there.\<close>

definition anon_covered :: "nat \<Rightarrow> lazy_mmap \<Rightarrow> u32 \<Rightarrow> vm \<Rightarrow> bool" where
  "anon_covered pid mm a s \<longleftrightarrow> list_ex (\<lambda>e. e \<noteq> (pid, mm_ptr mm)
     \<and> (case mm_of s e of None \<Rightarrow> False | Some oth \<Rightarrow> mm_ino oth = mm_ino mm \<and> OVERLAP_EXCL a 4096 (mm_addr oth) (mm_length oth)))
     (anon_mmap_table s)"

fun cut_loop :: "nat \<Rightarrow> lazy_mmap \<Rightarrow> u32 \<Rightarrow> nat list \<Rightarrow> vm \<Rightarrow> vm option" where
  "cut_loop pid mm first [] s = Some s"
| "cut_loop pid mm first (i # is) s =
     (case find_cached_page mm (mm_offset mm + of_nat i) s of None \<Rightarrow> cut_loop pid mm first is s
      | Some p \<Rightarrow>
          if anon_covered pid mm (first + of_nat (i * PAGE_SIZE)) s then cut_loop pid mm first is s
          else if has_shares p 1 s \<or> powner s p \<noteq> None then None
          else cut_loop pid mm first is (free_page p s))"

definition cut_anon_mmap :: "nat \<Rightarrow> lazy_mmap \<Rightarrow> u32 \<Rightarrow> u32 \<Rightarrow> vm \<Rightarrow> vm option" where
  "cut_anon_mmap pid mm first last' s =
     (if \<not> IS_ANON_MMAP mm then None
      else let l = (if last' = first then mm_last mm else min (mm_last mm) last'); f = max (mm_addr mm) first
        in cut_loop pid mm f [0..<unat (drop_bit 12 (l - f + 1))] s)"

definition set_space :: "nat \<Rightarrow> vm_space \<Rightarrow> vm \<Rightarrow> vm" where
  "set_space pid sp s = s\<lparr>spaces := (spaces s)(pid \<mapsto> sp)\<rparr>"

text \<open>What follows the change of the tree, by case; the pieces of shared anonymous memory that lost their mapping
  are cut from the page cache.\<close>

fun carve_done :: "nat \<Rightarrow> u32 \<Rightarrow> lazy_mmap \<Rightarrow> vm_space \<Rightarrow> carve \<Rightarrow> vm \<Rightarrow> vm option" where
  "carve_done pid a cur sp CARVE_REMOVE s =
     map_option (\<lambda>s. s\<lparr>anon_mmap_table := removeAll (pid, mm_ptr cur) (anon_mmap_table s)\<rparr>)
       ((if IS_ANON_MMAP cur then cut_anon_mmap pid cur 0 0 else Some)
          (set_space pid (sp\<lparr>last_mmap := if last_mmap sp = mm_ptr cur then 0 else last_mmap sp\<rparr>) s))"
| "carve_done pid a cur sp (CARVE_SPLIT hd' tl') s =
     (let s = (set_space pid sp s)\<lparr>next_ptr := Suc (next_ptr s)\<rparr> in
      if IS_ANON_MMAP hd'
      then map_option (\<lambda>s. s\<lparr>anon_mmap_table := (pid, mm_ptr tl') # anon_mmap_table s\<rparr>) (cut_anon_mmap pid hd' (mm_next hd') (mm_addr tl' - 1) s)
      else Some s)"
| "carve_done pid a cur sp (CARVE_HEAD hd') s =
     (if IS_ANON_MMAP hd' then cut_anon_mmap pid hd' (mm_addr hd') (mm_last hd') else Some) (set_space pid sp s)"
| "carve_done pid a cur sp (CARVE_TAIL tl') s =
     (if IS_ANON_MMAP cur then cut_anon_mmap pid cur (mm_addr cur) (a - 1) else Some) (set_space pid sp s)"

fun munmap_loop :: "nat \<Rightarrow> nat \<Rightarrow> u32 \<Rightarrow> u32 \<Rightarrow> lazy_mmap option \<Rightarrow> vm \<Rightarrow> vm option" where
  "munmap_loop 0 pid a sz cur s = None"
| "munmap_loop (Suc n) pid a sz None s = Some s"
| "munmap_loop (Suc n) pid a sz (Some cur) s =
     (case spaces s pid of None \<Rightarrow> None
      | Some sp \<Rightarrow>
          let next = rb_next_mm cur (maps sp) in
          if \<not> (mm_addr cur \<ge> a \<or> mm_next cur > a) then None
          else if mm_addr cur \<ge> a + sz then Some s
          else (case carve_step a sz (next_ptr s) cur (maps sp) of None \<Rightarrow> None
             | Some (t, cv) \<Rightarrow> (case carve_done pid a cur (sp\<lparr>maps := t\<rparr>) cv s of None \<Rightarrow> None
                 | Some s \<Rightarrow> munmap_loop n pid a sz next s)))"

definition munmap_space :: "nat \<Rightarrow> u32 \<Rightarrow> u32 \<Rightarrow> vm \<Rightarrow> vm option" where
  "munmap_space pid a sz s =
     (if (a OR sz) AND 0xfff \<noteq> 0 \<or> \<not> VALID_ADDR_SIZE a sz then None
      else case spaces s pid of None \<Rightarrow> None
      | Some sp \<Rightarrow> (case remove_vp_range pid a sz s of None \<Rightarrow> None
         | Some s \<Rightarrow> (case first_lazy_mmap (maps sp) a sz of None \<Rightarrow> None
            | Some cur \<Rightarrow> (case munmap_loop (Suc (Suc (length (rb_keys (maps sp))))) pid a sz cur s of None \<Rightarrow> None
               | Some s \<Rightarrow> (case spaces s pid of None \<Rightarrow> None
                  | Some sp \<Rightarrow> if first_lazy_mmap (maps sp) a sz = Some None then Some s else None)))))"

definition vm_munmap :: "nat \<Rightarrow> u32 \<Rightarrow> u32 \<Rightarrow> vm \<Rightarrow> (int \<times> vm) option" where
  "vm_munmap sender a sz s =
     (let a = a AND NOT 0xfff; sz = PAGE_CEIL sz in
      if sender = 0 \<or> sender > 32767 then Some (- EINVAL, s)
      else if \<not> VALID_ADDR_SIZE a sz then Some (- EINVAL, s)
      else case spaces s sender of None \<Rightarrow> Some (- EINVAL, s)
      | Some sp \<Rightarrow> map_option (\<lambda>s. (0, s)) (munmap_space sender a sz s))"

section \<open>Mapping\<close>

definition nogo_areas :: "vm_space \<Rightarrow> fpage list" where
  "nogo_areas sp = [vm_utcb_area sp, kip_area sp, sysinfo_area sp, Fpage (brk sp - 4096) 4096]"

text \<open>\<open>ht_ok\<close>: whether the table of shared anonymous mappings had room.\<close>

definition reserve_mmap :: "bool \<Rightarrow> lazy_mmap \<Rightarrow> nat \<Rightarrow> u32 \<Rightarrow> u32 \<Rightarrow> bool \<Rightarrow> vm \<Rightarrow> ((int \<times> u32) \<times> vm) option" where
  "reserve_mmap ht_ok mm pid address len fixed s =
     (case spaces s pid of None \<Rightarrow> None
      | Some sp \<Rightarrow>
      if len AND 0xfff \<noteq> 0 \<or> address AND 0xfff \<noteq> 0 then None
      else
        let bad = list_ex (\<lambda>fp. RANGE_IN_FPAGE fp address len) (nogo_areas sp);
            address = (if bad then 0 else address) in
        if bad \<and> fixed then Some ((- EEXIST, 0), s)
        else if IS_ANON_MMAP mm \<and> \<not> ht_ok then Some ((- ENOMEM, 0), s)
        else
          let s = (if IS_ANON_MMAP mm then s\<lparr>anon_mmap_table := (pid, mm_ptr mm) # anon_mmap_table s\<rparr> else s);
              mm = mm\<lparr>mm_addr := address, mm_length := len\<rparr>;
              fresh = (let mm = mm\<lparr>mm_addr := mmap_bot sp - len + 1\<rparr> in
                case insert_lazy_mmap mm (maps sp) of
                  Some (Inr t) \<Rightarrow> Some ((0, mm_addr mm), set_space pid (sp\<lparr>maps := t, mmap_bot := mmap_bot sp - len\<rparr>) s)
                | _ \<Rightarrow> None)
          in if fixed
          then (case insert_lazy_mmap mm (maps sp) of
                  None \<Rightarrow> None
                | Some (Inr t) \<Rightarrow> Some ((0, address), set_space pid (sp\<lparr>maps := t\<rparr>) s)
                | Some (Inl old) \<Rightarrow> (case munmap_space pid address len s of None \<Rightarrow> None
                    | Some s \<Rightarrow> (case spaces s pid of None \<Rightarrow> None
                       | Some sp \<Rightarrow> (case insert_lazy_mmap mm (maps sp) of
                            Some (Inr t) \<Rightarrow> Some ((0, address), set_space pid (sp\<lparr>maps := t\<rparr>) s)
                          | _ \<Rightarrow> None))))
          else if address = 0 then fresh
          else (case insert_lazy_mmap mm (maps sp) of
                  None \<Rightarrow> None
                | Some (Inr t) \<Rightarrow> Some ((0, address), set_space pid (sp\<lparr>maps := t\<rparr>) s)
                | Some (Inl old) \<Rightarrow> fresh))"

definition L4_nilthread :: l4_tid where "L4_nilthread = \<lparr>is_local = False, tid_version = 0, tid_threadno = 0\<rparr>"

text \<open>\<open>touched\<close> is the answer of the file's server to \<open>__io_touch\<close>.\<close>

definition vm_mmap :: "bool \<Rightarrow> bool \<Rightarrow> int \<Rightarrow> nat \<Rightarrow> nat \<Rightarrow> u32 \<Rightarrow> u32 \<Rightarrow> u32 \<Rightarrow> u32 \<Rightarrow> l4_tid \<Rightarrow> u32 \<Rightarrow> u32 \<Rightarrow> vm \<Rightarrow> ((int \<times> u32) \<times> vm) option" where
  "vm_mmap mem_ok ht_ok touched sender target a len prot flags serv fdno off s =
     (let target = (if target = 0 then sender else target);
          anon = flags AND MAP_ANONYMOUS \<noteq> 0; shared = flags AND MAP_SHARED \<noteq> 0; private = flags AND MAP_PRIVATE \<noteq> 0 in
      if len = 0 then Some ((- EINVAL, a), s)
      else if (a OR off) AND 0xfff \<noteq> 0 then Some ((- EINVAL, a), s)
      else if private = shared then Some ((- EINVAL, a), s)
      else if target > 32767 \<or> target = 0 then Some ((- EINVAL, a), s)
      else if spaces s target = None then Some ((- EINVAL, a), s)
      else if \<not> mem_ok then Some ((- ENOMEM, a), s)
      else if \<not> (anon \<and> shared) \<and> \<not> anon \<and> serv \<noteq> L4_nilthread \<and> touched \<noteq> 0
      then Some ((if touched > 0 then - EIO else touched, a), s)
      else
        let mm = \<lparr>mm_ptr = next_ptr s, mm_addr = 0, mm_length = 0,
              mm_flags = push_bit 16 (ucast (prot_to_l4_rights prot)) OR (flags AND NOT MAP_FIXED),
              mm_fd_serv = (if anon \<and> shared then vm_self s else serv),
              mm_ino = scast (if anon \<and> shared then next_anon_ino s else fdno),
              mm_offset = (if anon \<and> shared then 0 else drop_bit 12 off), mm_tailsz = unat len mod PAGE_SIZE\<rparr>;
            s = s\<lparr>next_ptr := Suc (next_ptr s), next_anon_ino := (if anon \<and> shared then next_anon_ino s + 1 else next_anon_ino s)\<rparr>
        in map_option (\<lambda>((n, a'), s). ((n, if n < 0 then a else a'), s)) (reserve_mmap ht_ok mm target a (PAGE_CEIL len) (flags AND MAP_FIXED \<noteq> 0) s))"

section \<open>The program break\<close>

definition set_last :: "nat \<Rightarrow> nat \<Rightarrow> vm \<Rightarrow> vm" where
  "set_last pid p s = (case spaces s pid of None \<Rightarrow> s | Some sp \<Rightarrow> set_space pid (sp\<lparr>last_mmap := p\<rparr>) s)"

definition set_brk :: "nat \<Rightarrow> u32 \<Rightarrow> vm \<Rightarrow> vm" where
  "set_brk pid a s = (case spaces s pid of None \<Rightarrow> s | Some sp \<Rightarrow> set_space pid (sp\<lparr>brk := a\<rparr>) s)"

definition brk_grow :: "bool \<Rightarrow> nat \<Rightarrow> vm_space \<Rightarrow> u32 \<Rightarrow> vm \<Rightarrow> (int \<times> vm) option" where
  "brk_grow mem_ok pid sp a s =
     (case find_lazy_mmap (last_mmap sp) (maps sp) (brk sp) of None \<Rightarrow> None
      | Some (m, l) \<Rightarrow>
          let sp = sp\<lparr>last_mmap := l\<rparr>; s = set_space pid sp s;
              like = (\<lambda>mm. mm_next mm = brk sp \<and> mm_flags mm AND MAP_ANONYMOUS \<noteq> 0 \<and> mm_flags mm AND MAP_PRIVATE \<noteq> 0);
              crowded = (\<lambda>mm. case rb_next_mm mm (maps sp) of None \<Rightarrow> False | Some n \<Rightarrow> mm_addr n < a);
              new = (if \<not> mem_ok then Some (- ENOMEM, s)
                else map_option (\<lambda>((n, _), s). (n, s)) (reserve_mmap True
                  \<lparr>mm_ptr = next_ptr s, mm_addr = 0, mm_length = 0, mm_flags = 0x70022, mm_fd_serv = L4_nilthread, mm_ino = 0, mm_offset = 0, mm_tailsz = 0\<rparr>
                  pid (brk sp) (a - brk sp) True (s\<lparr>next_ptr := Suc (next_ptr s)\<rparr>)))
          in case m of None \<Rightarrow> new
             | Some mm \<Rightarrow>
                 if \<not> like mm then Some (0, s)
                 else if crowded mm then new
                 else Some (0, set_space pid (sp\<lparr>maps := mm_update (mm\<lparr>mm_length := a - mm_addr mm\<rparr>) (maps sp)\<rparr>) s))"

definition brk_shrink :: "nat \<Rightarrow> vm_space \<Rightarrow> u32 \<Rightarrow> vm \<Rightarrow> vm option" where
  "brk_shrink pid sp a s =
     (case find_lazy_mmap (last_mmap sp) (maps sp) (brk sp - 1) of None \<Rightarrow> None
      | Some (m, l) \<Rightarrow>
          let sp = sp\<lparr>last_mmap := l\<rparr>; s = set_space pid sp s in
          (case m of Some mm \<Rightarrow>
              if mm_addr mm < a \<and> mm_next mm = brk sp \<and> mm_flags mm AND MAP_ANONYMOUS \<noteq> 0
              then remove_vp_range pid a (brk sp - a) (set_space pid (sp\<lparr>maps := mm_update (mm\<lparr>mm_length := a - mm_addr mm\<rparr>) (maps sp)\<rparr>) s)
              else munmap_space pid a (brk sp - a) s
           | None \<Rightarrow> munmap_space pid a (brk sp - a) s))"

definition vm_brk :: "bool \<Rightarrow> nat \<Rightarrow> u32 \<Rightarrow> vm \<Rightarrow> (int \<times> vm) option" where
  "vm_brk mem_ok sender a s =
     (if sender \<ge> 32767 then Some (- EINVAL, s)
      else case spaces s sender of None \<Rightarrow> None
      | Some sp \<Rightarrow>
          if vm_utcb_area sp = Nilpage then None
          else
            let a = (if a < 0x10000 then 0x10000 else a); a = (if a > user_addr_max s then user_addr_max s else a); a = PAGE_CEIL a
            in if brk sp = 0 then Some (0, set_brk sender a s)
            else if brk sp < a
            then (case brk_grow mem_ok sender sp a s of None \<Rightarrow> None
                  | Some (n, s) \<Rightarrow> if n < 0 then Some (n, s) else Some (0, set_brk sender a s))
            else map_option (\<lambda>s. (0, set_brk sender a s)) (brk_shrink sender sp a s))"

section \<open>Faults\<close>

datatype pf_result = PF_MAP nat rights u32 | PF_SIP | PF_SEGV | PF_IGNORED

definition vm_pf_new :: "reader \<Rightarrow> nat \<Rightarrow> u32 \<Rightarrow> rights \<Rightarrow> lazy_mmap \<Rightarrow> vm \<Rightarrow> (pf_result \<times> vm) option" where
  "vm_pf_new rd pid page rwx mm s =
     (let rights = mm_rights mm; r = Vp pid page;
          v = \<lparr>vp_rights = rights, vp_is_shared = False, vp_is_anon = False, vp_is_cow = False, vp_status = 0\<rparr>;
          anon = mm_flags mm AND MAP_ANONYMOUS \<noteq> 0; write = rwx AND L4_Writable \<noteq> 0 in
      case (if mm_flags mm AND MAP_SHARED \<noteq> 0 \<or> \<not> write \<and> \<not> anon
            then (case pf_mmap_shared rd mm r v s of Some (Inr (v, s)) \<Rightarrow>
                Some (if \<not> write \<and> vp_writable v then v\<lparr>vp_is_cow := True, vp_rights := vp_rights v AND NOT L4_Writable\<rparr> else v, s)
              | _ \<Rightarrow> None)
            else if anon then new_anon_page r v (replicate PAGE_SIZE 0) s
            else (case pf_mmap_private rd mm r v s of Some (Inr (v, s)) \<Rightarrow> Some (v, s) | _ \<Rightarrow> None)) of
        None \<Rightarrow> None
      | Some (v, s) \<Rightarrow> Some (PF_MAP (vp_status v) (vp_rights v) page, s\<lparr>vps := (vps s)(r \<mapsto> v)\<rparr>))"

definition vm_pf :: "reader \<Rightarrow> nat \<Rightarrow> u32 \<Rightarrow> rights \<Rightarrow> vm \<Rightarrow> (pf_result \<times> vm) option" where
  "vm_pf rd pid faddr rwx s =
     (let page = faddr AND NOT 0xfff; r = Vp pid page in
      if pid > 32767 then Some (PF_IGNORED, s)
      else case spaces s pid of None \<Rightarrow> Some (PF_IGNORED, s)
      | Some sp \<Rightarrow>
          if vm_utcb_area sp = Nilpage then Some (PF_IGNORED, s)
          else case vps s r of
            Some old \<Rightarrow>
              if vp_is_cow old \<and> rwx AND L4_Writable \<noteq> 0
              then map_option (\<lambda>(v, s). (PF_MAP (vp_status v) (vp_rights v) page, s)) (pf_cow r old s)
              else if vp_rights old AND rwx \<noteq> rwx then Some (PF_SEGV, s)
              else Some (PF_MAP (vp_status old) (vp_rights old) page, s)
          | None \<Rightarrow>
              if fpage_overlap (sysinfo_area sp) (Fpage faddr 1) then Some (PF_SIP, s)
              else (case find_lazy_mmap (last_mmap sp) (maps sp) faddr of
                  None \<Rightarrow> None
                | Some (None, l) \<Rightarrow> Some (PF_SEGV, set_last pid l s)
                | Some (Some mm, l) \<Rightarrow>
                    if rwx AND mm_rights mm \<noteq> rwx then Some (PF_SEGV, set_last pid l s)
                    else vm_pf_new rd pid page rwx mm (set_last pid l s)))"

section \<open>Creation and removal of address spaces\<close>

text \<open>\<open>ok\<close> tells whether memory for a copy was there.  \<open>Inl\<close> is \<open>-ENOMEM\<close>, with what was copied so far.\<close>

fun fork_maps :: "(lazy_mmap \<Rightarrow> bool) \<Rightarrow> nat \<Rightarrow> lazy_mmap list \<Rightarrow> vm \<Rightarrow> (vm + vm) option" where
  "fork_maps ok dest [] s = Some (Inr s)"
| "fork_maps ok dest (orig # ms) s =
     (if \<not> ok orig then Some (Inl s)
      else case spaces s dest of None \<Rightarrow> None
      | Some sp \<Rightarrow>
          let copy = orig\<lparr>mm_ptr := next_ptr s\<rparr>;
              s = s\<lparr>next_ptr := Suc (next_ptr s),
                    anon_mmap_table := (if IS_ANON_MMAP copy then (dest, mm_ptr copy) # anon_mmap_table s else anon_mmap_table s)\<rparr>
          in if IS_ANON_MMAP copy \<and> mm_fd_serv copy \<noteq> vm_self s then None
             else (case insert_lazy_mmap copy (maps sp) of
                     Some (Inr t) \<Rightarrow> fork_maps ok dest ms (set_space dest (sp\<lparr>maps := t\<rparr>) s)
                   | _ \<Rightarrow> None))"

definition vp_cow_copy :: "vp \<Rightarrow> vp" where
  "vp_cow_copy v = v\<lparr>vp_rights := vp_rights v AND NOT L4_Writable, vp_is_cow := vp_is_cow v \<or> vp_writable v\<rparr>"

fun fork_pages :: "(u32 \<Rightarrow> bool) \<Rightarrow> nat \<Rightarrow> nat \<Rightarrow> u32 list \<Rightarrow> vm \<Rightarrow> (vm + vm) option" where
  "fork_pages ok src dest [] s = Some (Inr s)"
| "fork_pages ok src dest (a # as) s =
     (case vps s (Vp src a) of None \<Rightarrow> None
      | Some cur \<Rightarrow>
          if vp_is_cow cur = vp_writable cur then None
          else if \<not> ok a then Some (Inl s)
          else if \<not> vp_is_anon cur \<and> (vp_is_shared cur \<or> \<not> vp_writable cur \<and> \<not> vp_is_cow cur)
          then fork_pages ok src dest as s
          else if vp_is_shared cur then None
          else
            let unmap = \<not> vp_is_cow cur \<and> vp_writable cur;
                s = s\<lparr>vps := (vps s)(Vp dest a \<mapsto> vp_cow_copy cur, Vp src a \<mapsto> (if unmap then vp_cow_copy cur else cur))\<rparr>;
                s = add_share (vp_status cur) (Vp dest a) s;
                s = (if unmap then s\<lparr>unmaps := (vp_status cur, L4_Writable) # unmaps s\<rparr> else s)
            in fork_pages ok src dest as s)"

text \<open>\<open>newid\<close> is the number the allocator picks when none is asked for; \<open>order\<close> is the walk over the pages of the parent.\<close>

definition vm_fork :: "(lazy_mmap \<Rightarrow> bool) \<Rightarrow> (u32 \<Rightarrow> bool) \<Rightarrow> nat \<Rightarrow> u32 list \<Rightarrow> nat \<Rightarrow> nat \<Rightarrow> nat \<Rightarrow> vm \<Rightarrow> (int \<times> vm) option" where
  "vm_fork map_ok page_ok newid order sender src destpid s =
     (let dest = (if destpid > 0 then destpid else newid) in
      if src > 32767 \<or> destpid > 32767 then Some (- EINVAL, s)
      else if sender < 50000 then Some (- EINVAL, s)
      else if src \<noteq> 0 \<and> spaces s src = None then Some (- EINVAL, s)
      else if spaces s dest \<noteq> None then Some (- EEXIST, s)
      else if src = 0
      then Some (int dest, set_space dest \<lparr>kip_area = FpageOnes, vm_utcb_area = Nilpage, sysinfo_area = Nilpage, maps = RB_NULL, last_mmap = 0,
             brk = 0, mmap_bot = user_addr_max s\<rparr> s)
      else case spaces s src of None \<Rightarrow> None
      | Some sp \<Rightarrow>
          (case fork_maps map_ok dest (rb_keys (maps sp)) (set_space dest (sp\<lparr>maps := RB_NULL, last_mmap := 0\<rparr>) s) of
             None \<Rightarrow> None
           | Some (Inl s) \<Rightarrow> Some (- ENOMEM, s)
           | Some (Inr s) \<Rightarrow> (case fork_pages page_ok src dest order s of None \<Rightarrow> None
              | Some (Inl s) \<Rightarrow> Some (- ENOMEM, s)
              | Some (Inr s) \<Rightarrow> Some (int dest, s))))"

definition vm_configure :: "bool \<Rightarrow> nat \<Rightarrow> fpage \<Rightarrow> fpage \<Rightarrow> vm \<Rightarrow> ((int \<times> u32) \<times> vm) option" where
  "vm_configure mem_ok pid utcb kip s =
     (if pid > 32767 then Some ((- EINVAL, 0), s)
      else case spaces s pid of None \<Rightarrow> Some ((- EINVAL, 0), s)
      | Some sp \<Rightarrow>
          let si = Fpage (L4_Address kip + L4_Size kip) 4096 in
          if kip_area sp \<noteq> FpageOnes \<or> vm_utcb_area sp \<noteq> Nilpage then Some ((- EINVAL, 0), s)
          else if fpage_overlap kip utcb \<or> fpage_overlap si utcb then Some ((- EINVAL, 0), s)
          else
            let sp = sp\<lparr>kip_area := kip, vm_utcb_area := utcb, sysinfo_area := si\<rparr>; s = set_space pid sp s;
                resv_low = min (L4_Address kip) (min (L4_Address utcb) (L4_Address si))
            in if resv_low \<le> 0x10000 then Some ((- EINVAL, 0), s)
            else if \<not> mem_ok then Some ((- ENOMEM, 0), s)
            else (case reserve_mmap True
                    \<lparr>mm_ptr = next_ptr s, mm_addr = 0, mm_length = 0, mm_flags = 0x70022, mm_fd_serv = L4_nilthread, mm_ino = 0, mm_offset = 0, mm_tailsz = 0\<rparr>
                    pid 0x10000 (resv_low - 0x10000) True (s\<lparr>next_ptr := Suc (next_ptr s)\<rparr>) of
                  None \<Rightarrow> None
                | Some ((n, _), s) \<Rightarrow>
                    if n < 0 then Some ((n, 0), s)
                    else Some ((0, max (L4_Address si + L4_Size si) (L4_Address utcb + L4_Size utcb) - 1), s)))"

definition vm_upload_page :: "bool \<Rightarrow> nat \<Rightarrow> u32 \<Rightarrow> u8 list \<Rightarrow> u32 \<Rightarrow> u32 \<Rightarrow> vm \<Rightarrow> (int \<times> vm) option" where
  "vm_upload_page mem_ok pid a bs prot flags s =
     (case spaces s pid of None \<Rightarrow> Some (- EINVAL, s)
      | Some sp \<Rightarrow>
          if vm_utcb_area sp = Nilpage then Some (- EINVAL, s)
          else if a AND 0xfff \<noteq> 0 then Some (- EINVAL, s)
          else if flags AND MAP_ANONYMOUS = 0 then Some (- EINVAL, s)
          else if flags AND MAP_FIXED = 0 then Some (- EINVAL, s)
          else if prot = 0 then Some (- EINVAL, s)
          else if flags AND MAP_SHARED \<noteq> 0 then Some (- ENOSYS, s)
          else if flags AND MAP_PRIVATE = 0 then Some (- EINVAL, s)
          else if \<not> mem_ok then Some (- ENOMEM, s)
          else
            let v = \<lparr>vp_rights = prot_to_l4_rights prot, vp_is_shared = False, vp_is_anon = True, vp_is_cow = False, vp_status = 0\<rparr>;
                mm = \<lparr>mm_ptr = next_ptr s, mm_addr = 0, mm_length = 0,
                  mm_flags = push_bit 16 (ucast (prot_to_l4_rights prot)) OR (flags AND NOT MAP_FIXED),
                  mm_fd_serv = L4_nilthread, mm_ino = 0, mm_offset = 0, mm_tailsz = 0\<rparr>
            in (case reserve_mmap True mm pid a 4096 True (s\<lparr>next_ptr := Suc (next_ptr s)\<rparr>) of
                  None \<Rightarrow> None
                | Some ((n, _), s) \<Rightarrow>
                    if n < 0 then Some (n, s)
                    else (case (case vps s (Vp pid a) of None \<Rightarrow> Some s | Some old \<Rightarrow> remove_vp (Vp pid a) old s) of
                        None \<Rightarrow> None
                      | Some s \<Rightarrow> map_option (\<lambda>(v, s). (0, s\<lparr>vps := (vps s)(Vp pid a \<mapsto> v)\<rparr>)) (new_anon_page (Vp pid a) v (page_fill bs) s))))"

fun erase_maps :: "nat \<Rightarrow> lazy_mmap list \<Rightarrow> vm \<Rightarrow> vm option" where
  "erase_maps pid [] s = Some s"
| "erase_maps pid (mm # ms) s =
     (if mm_fd_serv mm = vm_self s
      then (case cut_anon_mmap pid mm 0 0 s of None \<Rightarrow> None
            | Some s \<Rightarrow> erase_maps pid ms (s\<lparr>anon_mmap_table := removeAll (pid, mm_ptr mm) (anon_mmap_table s)\<rparr>))
      else if mm_fd_serv mm \<noteq> L4_nilthread \<and> IS_ANON_MMAP mm then None
      else erase_maps pid ms s)"

definition vm_erase :: "u32 list \<Rightarrow> nat \<Rightarrow> nat \<Rightarrow> vm \<Rightarrow> (int \<times> vm) option" where
  "vm_erase order sender target s =
     (if sender < 50000 then Some (- EPERM, s)
      else case spaces s target of None \<Rightarrow> Some (- EINVAL, s)
      | Some sp \<Rightarrow>
          if vm_utcb_area sp = Nilpage \<or> kip_area sp = Nilpage then (if order = [] \<and> maps sp = RB_NULL then Some (- EINVAL, s) else None)
          else (case remove_vps target order s of None \<Rightarrow> None
             | Some s \<Rightarrow> map_option (\<lambda>s. (0, s\<lparr>spaces := (spaces s)(target := None)\<rparr>)) (erase_maps target (rb_keys (maps sp)) s)))"

end
