(* ===== verification/Vm_Keep.thy ===== *)
theory Vm_Keep
  imports Vm_Ops
begin

text \<open>
  Every call of the virtual memory server keeps the invariant of physical memory and, for ranges that do not wrap around,
  the disjointness of the mappings of each address space.
\<close>

section \<open>Calls that leave pages alone\<close>

lemma vm_inv_frame [simp]:
  "vm_inv P (s\<lparr>spaces := x1\<rparr>) = vm_inv P s" "vm_inv P (s\<lparr>next_ptr := x2\<rparr>) = vm_inv P s" "vm_inv P (s\<lparr>anon_mmap_table := x3\<rparr>) = vm_inv P s"
  "vm_inv P (s\<lparr>unmaps := x4\<rparr>) = vm_inv P s" "vm_inv P (s\<lparr>next_anon_ino := x5\<rparr>) = vm_inv P s" "vm_inv P (s\<lparr>mem := x6\<rparr>) = vm_inv P s"
  by (simp_all add: vm_inv_def vm_inv_defs)

lemma vm_inv_set_space [simp]: "vm_inv P (set_space pid sp s) = vm_inv P s"
  by (simp add: set_space_def)

lemma vm_inv_set_last [simp]: "vm_inv P (set_last pid l s) = vm_inv P s"
  by (simp add: set_last_def split: option.split)

lemma vm_inv_set_brk [simp]: "vm_inv P (set_brk pid l s) = vm_inv P s"
  by (simp add: set_brk_def split: option.split)

section \<open>Removing pages\<close>

text \<open>\<open>vm_same\<close>: a step that changed nothing but physical memory.\<close>

definition vm_same :: "vm \<Rightarrow> vm \<Rightarrow> bool" where
  "vm_same s s' \<longleftrightarrow> spaces s' = spaces s \<and> anon_mmap_table s' = anon_mmap_table s \<and> next_ptr s' = next_ptr s \<and> vm_self s' = vm_self s
     \<and> user_addr_max s' = user_addr_max s \<and> next_anon_ino s' = next_anon_ino s \<and> mem s' = mem s"

lemma vm_same_refl [simp]: "vm_same s s" by (simp add: vm_same_def)

lemma vm_same_trans: "vm_same s1 s2 \<Longrightarrow> vm_same s2 s3 \<Longrightarrow> vm_same s1 s3" by (simp add: vm_same_def)

lemma remove_vps_inv:
  "vm_inv P s \<Longrightarrow> \<exists>s'. remove_vps pid as s = Some s' \<and> vm_inv P s' \<and> vm_same s s'
     \<and> vps s' = (\<lambda>r. if vp_pid r = pid \<and> vp_addr r \<in> set as then None else vps s r)"
proof (induction as arbitrary: s)
  case Nil
  then show ?case by simp
next
  case (Cons a as)
  show ?case
  proof (cases "vps s (Vp pid a)")
    case None
    have e: "(if vp_pid r = pid \<and> vp_addr r \<in> set as then None else vps s r) = (if vp_pid r = pid \<and> vp_addr r \<in> set (a # as) then None else vps s r)" for r
      using None by (cases r) auto
    show ?thesis using Cons.IH [OF Cons.prems] None unfolding e by simp
  next
    case (Some v)
    let ?s = "s\<lparr>unmaps := (vp_status v, 7) # unmaps s\<rparr>"
    obtain s1 where s1: "remove_vp (Vp pid a) v ?s = Some s1" "vm_inv P s1" "vps s1 = (vps s)(Vp pid a := None)" "vm_same s s1"
      by (rule remove_vp_inv [of P ?s "Vp pid a" v]) (use Cons.prems Some in \<open>auto simp: vm_same_def\<close>)
    obtain s' where s': "remove_vps pid as s1 = Some s'" "vm_inv P s'" "vm_same s1 s'"
      "vps s' = (\<lambda>r. if vp_pid r = pid \<and> vp_addr r \<in> set as then None else vps s1 r)" using Cons.IH [OF s1(2)] by blast
    have "vps s' = (\<lambda>r. if vp_pid r = pid \<and> vp_addr r \<in> set (a # as) then None else vps s r)"
    proof
      fix r
      show "vps s' r = (if vp_pid r = pid \<and> vp_addr r \<in> set (a # as) then None else vps s r)" by (cases r) (auto simp: s'(4) s1(3))
    qed
    then show ?thesis using Some s1 s' by (auto dest: vm_same_trans)
  qed
qed

lemma free_cached_inv:
  assumes inv: "vm_inv P s" and p: "p \<in> set (page_cache s)" "\<not> has_shares p 1 s" "powner s p = None"
  shows "vm_inv P (free_page p s)"
proof -
  have l: "inv_lists P s" "inv_free s" "inv_refs s" "inv_active s" "inv_flags s" "inv_private s" "inv_cache s" using inv by (auto simp: vm_inv_def)
  have pn: "p \<notin> set (page_active_list s)" "p \<notin> set (page_free_list s)" using l(1) p(1) by (auto simp: inv_lists_def)
  have nu: "vp_status w \<noteq> p" if "vps s r' = Some w" for r' w
    using vm_inv_vp(2) [OF inv that] p(2,3) that by (auto simp: has_shares_1 [unfolded One_nat_def] vp_page_def)
  let ?s = "free_page p s"
  have al: "page_active_list ?s = page_active_list s" using pn by (simp add: free_page_def push_free_def)
  have "inv_lists P ?s" using l(1) p(1) pn by (auto simp: inv_lists_def free_page_def push_free_def distinct_removeAll)
  moreover have "inv_free ?s" using l(2) p(3) by (auto simp: inv_free_def free_page_def push_free_def)
  moreover have "inv_refs ?s" using l(3) nu pn unfolding inv_refs_def by (auto simp: free_page_def push_free_def)
  moreover have "inv_active ?s" "inv_flags ?s" using l(4,5) unfolding inv_active_def inv_flags_def al by (auto simp: free_page_def push_free_def)
  moreover have "inv_private ?s" using l(6) unfolding inv_private_def free_page_def push_free_def by simp
  moreover have "inv_cache ?s" using l(7) by (auto simp: inv_cache_def free_page_def push_free_def)
  ultimately show ?thesis by (simp add: vm_inv_def)
qed

lemma cut_loop_inv: "vm_inv P s \<Longrightarrow> cut_loop pid mm first is s = Some s' \<Longrightarrow> vm_inv P s' \<and> vm_same s s' \<and> vps s' = vps s"
proof (induction pid mm first "is" s rule: cut_loop.induct)
  case (2 pid mm first i "is" s)
  show ?case
  proof (cases "find_cached_page mm (mm_offset mm + of_nat i) s")
    case None
    then show ?thesis using 2 by simp
  next
    case (Some p)
    have p: "p \<in> set (page_cache s)" using Some by (auto simp: find_cached_page_def find_Some_iff)
    show ?thesis
    proof (cases "anon_covered pid mm (first + of_nat (i * 4096)) s")
      case True
      then show ?thesis using 2 Some by simp
    next
      case False
      then have n: "\<not> has_shares p 1 s" "powner s p = None" "cut_loop pid mm first is (free_page p s) = Some s'"
        using 2(5) Some by (auto split: if_splits)
      have "vm_same s (free_page p s)" "vps (free_page p s) = vps s" by (auto simp: vm_same_def free_page_def push_free_def)
      then show ?thesis using 2(3) [OF Some False _ free_cached_inv [OF 2(4) p n(1,2)] n(3)] n(1,2) vm_same_trans by auto
    qed
  qed
qed simp

lemma cut_anon_mmap_inv: "vm_inv P s \<Longrightarrow> cut_anon_mmap pid mm f l s = Some s' \<Longrightarrow> vm_inv P s' \<and> vm_same s s' \<and> vps s' = vps s"
  by (auto simp: cut_anon_mmap_def Let_def split: if_splits dest: cut_loop_inv)

section \<open>Mappings of all address spaces\<close>

definition mm_known :: "nat \<Rightarrow> l4_tid \<Rightarrow> lazy_mmap \<Rightarrow> bool" where
  "mm_known n self m \<longleftrightarrow> mm_ptr m < n \<and> (IS_ANON_MMAP m \<longrightarrow> mm_fd_serv m = self)"

definition space_ok :: "nat \<Rightarrow> l4_tid \<Rightarrow> vm_space \<Rightarrow> bool" where
  "space_ok n self sp \<longleftrightarrow> maps_ok (maps sp) \<and> (last_mmap sp = 0 \<or> last_mmap sp \<in> mm_ptr ` set (rb_keys (maps sp)))
     \<and> (\<forall>m \<in> set (rb_keys (maps sp)). mm_known n self m)"

definition spaces_ok :: "vm \<Rightarrow> bool" where
  "spaces_ok s \<longleftrightarrow> 0 < next_ptr s \<and> (\<forall>pid sp. spaces s pid = Some sp \<longrightarrow> space_ok (next_ptr s) (vm_self s) sp)"

lemma mm_known_mono: "mm_known n self m \<Longrightarrow> n \<le> n' \<Longrightarrow> mm_known n' self m"
  by (auto simp: mm_known_def)

lemma space_ok_mono: "space_ok n self sp \<Longrightarrow> n \<le> n' \<Longrightarrow> space_ok n' self sp"
  by (auto simp: space_ok_def intro: mm_known_mono)

lemma spaces_ok_same: "vm_same s s' \<Longrightarrow> spaces_ok s' = spaces_ok s"
  by (simp add: spaces_ok_def vm_same_def)

lemma spaces_ok_upd:
  assumes "spaces_ok s" "space_ok n (vm_self s) sp" "next_ptr s \<le> n" "spaces s' = (spaces s)(pid \<mapsto> sp)" "next_ptr s' = n" "vm_self s' = vm_self s"
  shows "spaces_ok s'"
  using assms by (auto simp: spaces_ok_def intro: space_ok_mono)

lemma spaces_ok_space: "spaces_ok s \<Longrightarrow> spaces s pid = Some sp \<Longrightarrow> space_ok (next_ptr s) (vm_self s) sp"
  by (simp add: spaces_ok_def)

text \<open>What a range takes out of a list of mappings.\<close>

definition munmap_list :: "u32 \<Rightarrow> u32 \<Rightarrow> nat \<Rightarrow> lazy_mmap list \<Rightarrow> lazy_mmap list" where
  "munmap_list a sz new ms = concat (map (\<lambda>m. if mm_end m \<le> unat a \<or> unat a + unat sz \<le> mm_start m then [m] else carve_pieces a sz new m) ms)"

lemma munmap_list_simps [simp]:
  "munmap_list a sz new [] = []"
  "munmap_list a sz new (m # ms) = (if mm_end m \<le> unat a \<or> unat a + unat sz \<le> mm_start m then [m] else carve_pieces a sz new m) @ munmap_list a sz new ms"
  "munmap_list a sz new (xs @ ys) = munmap_list a sz new xs @ munmap_list a sz new ys"
  by (simp_all add: munmap_list_def)

lemma munmap_list_new: "\<forall>m \<in> set ms. unat a \<le> mm_start m \<Longrightarrow> munmap_list a sz n1 ms = munmap_list a sz n2 ms"
  by (induction ms) (auto simp: carve_pieces_def)

lemma munmap_list_id: "\<forall>m \<in> set ms. mm_end m \<le> unat a \<or> unat a + unat sz \<le> mm_start m \<Longrightarrow> munmap_list a sz new ms = ms"
  by (induction ms) auto

lemma carve_piece_known: "p \<in> set (carve_pieces a sz new cur) \<Longrightarrow> IS_ANON_MMAP p = IS_ANON_MMAP cur \<and> mm_fd_serv p = mm_fd_serv cur \<and> mm_ptr p \<in> {mm_ptr cur, new}"
  by (auto simp: carve_pieces_def IS_ANON_MMAP_def split: if_splits)

text \<open>The bookkeeping after a change of the tree.\<close>

lemma carve_done_inv:
  assumes "vm_inv P s" "carve_shape cur (next_ptr s) cv (carve_pieces a sz (next_ptr s) cur)"
  shows "case carve_done pid a cur sp cv s of None \<Rightarrow> IS_ANON_MMAP cur
    | Some s' \<Rightarrow> vm_inv P s' \<and> vps s' = vps s \<and> mem s' = mem s \<and> vm_self s' = vm_self s \<and> user_addr_max s' = user_addr_max s
        \<and> next_ptr s' = (case cv of CARVE_SPLIT h t \<Rightarrow> Suc (next_ptr s) | _ \<Rightarrow> next_ptr s)
        \<and> spaces s' = (spaces s)(pid \<mapsto> (if cv = CARVE_REMOVE \<and> last_mmap sp = mm_ptr cur then sp\<lparr>last_mmap := 0\<rparr> else sp))"
proof -
  have an: "IS_ANON_MMAP p = IS_ANON_MMAP cur" if "p \<in> set (carve_pieces a sz (next_ptr s) cur)" for p using carve_piece_known [OF that] by simp
  have cut: "case cut_anon_mmap pid' mm f l s0 of None \<Rightarrow> True | Some s' \<Rightarrow> vm_inv P s' \<and> vm_same s0 s' \<and> vps s' = vps s0" if "vm_inv P s0" for pid' mm f l s0
    using cut_anon_mmap_inv [OF that] by (auto split: option.split)
  show ?thesis
  proof (cases cv)
    case CARVE_REMOVE
    let ?s = "set_space pid (sp\<lparr>last_mmap := if last_mmap sp = mm_ptr cur then 0 else last_mmap sp\<rparr>) s"
    show ?thesis using cut [of ?s pid cur 0 0] assms(1) CARVE_REMOVE by (auto simp: vm_same_def set_space_def split: option.splits)
  next
    case (CARVE_SPLIT h t)
    let ?s = "set_space pid sp s\<lparr>next_ptr := Suc (next_ptr s)\<rparr>"
    show ?thesis using cut [of ?s pid h "mm_next h" "mm_addr t - 1"] assms CARVE_SPLIT an [of h]
      by (auto simp: vm_same_def set_space_def Let_def split: option.splits)
  next
    case (CARVE_HEAD h)
    show ?thesis using cut [of "set_space pid sp s" pid h "mm_addr h" "mm_last h"] assms CARVE_HEAD an [of h]
      by (auto simp: vm_same_def set_space_def split: option.splits)
  next
    case (CARVE_TAIL t)
    show ?thesis using cut [of "set_space pid sp s" pid cur "mm_addr cur" "a - 1"] assms CARVE_TAIL an [of t]
      by (auto simp: vm_same_def set_space_def split: option.splits)
  qed
qed

definition sp_same :: "vm_space \<Rightarrow> vm_space \<Rightarrow> bool" where
  "sp_same sp sp' \<longleftrightarrow> kip_area sp' = kip_area sp \<and> vm_utcb_area sp' = vm_utcb_area sp \<and> sysinfo_area sp' = sysinfo_area sp \<and> brk sp' = brk sp \<and> mmap_bot sp' = mmap_bot sp"

text \<open>\<open>vm_remapped\<close>: only the mappings of one process changed, to the given list.\<close>

definition vm_remapped :: "nat \<Rightarrow> lazy_mmap list \<Rightarrow> vm \<Rightarrow> vm \<Rightarrow> bool" where
  "vm_remapped pid ms s s' \<longleftrightarrow> vps s' = vps s \<and> mem s' = mem s \<and> vm_self s' = vm_self s \<and> user_addr_max s' = user_addr_max s \<and> next_ptr s \<le> next_ptr s'
     \<and> (\<exists>sp sp'. spaces s pid = Some sp \<and> spaces s' = (spaces s)(pid \<mapsto> sp') \<and> sp_same sp sp' \<and> rb_keys (maps sp') = ms)"

lemma vm_remapped_trans: "vm_remapped pid ms s1 s2 \<Longrightarrow> vm_remapped pid ms' s2 s3 \<Longrightarrow> vm_remapped pid ms' s1 s3"
  unfolding vm_remapped_def sp_same_def by auto

lemma vm_remapped_refl:
  assumes "spaces s pid = Some sp"
  shows "vm_remapped pid (rb_keys (maps sp)) s s"
proof -
  have "spaces s = (spaces s)(pid \<mapsto> sp)" using assms by (simp add: fun_upd_idem)
  then show ?thesis using assms unfolding vm_remapped_def sp_same_def by blast
qed

lemma munmap_iter:
  assumes inv: "vm_inv P s" and ok: "spaces_ok s" and sp: "spaces s pid = Some sp" "rb_keys (maps sp) = xs @ cur # ys"
    and r: "unat a + unat sz < 2 ^ 32" "mm_start cur < unat a + unat sz" "unat a < mm_end cur"
  shows "\<exists>t cv. carve_step a sz (next_ptr s) cur (maps sp) = Some (t, cv) \<and>
    (case carve_done pid a cur (sp\<lparr>maps := t\<rparr>) cv s of None \<Rightarrow> IS_ANON_MMAP cur
     | Some s' \<Rightarrow> vm_inv P s' \<and> spaces_ok s' \<and> vm_remapped pid (xs @ carve_pieces a sz (next_ptr s) cur @ ys) s s')"
proof -
  let ?n = "next_ptr s" and ?ps = "carve_pieces a sz (next_ptr s) cur"
  have so: "maps_ok (maps sp)" "last_mmap sp = 0 \<or> last_mmap sp \<in> mm_ptr ` set (xs @ cur # ys)" "\<forall>m \<in> set (xs @ cur # ys). mm_known ?n (vm_self s) m"
    using spaces_ok_space [OF ok sp(1)] sp(2) by (auto simp: space_ok_def)
  have n: "?n \<noteq> 0" "?n \<notin> mm_ptr ` set (rb_keys (maps sp))" using ok so(3) sp(2) by (auto simp: spaces_ok_def mm_known_def)
  obtain t cv where t: "carve_step a sz ?n cur (maps sp) = Some (t, cv)" "maps_ok t" "rb_keys t = xs @ ?ps @ ys" "carve_shape cur ?n cv ?ps"
    using carve_step_ok [OF so(1) sp(2) r n] by blast
  note d = carve_done_inv [OF inv t(4), of pid "sp\<lparr>maps := t\<rparr>"]
  show ?thesis
  proof (intro exI conjI)
    show "carve_step a sz ?n cur (maps sp) = Some (t, cv)" by fact
    show "case carve_done pid a cur (sp\<lparr>maps := t\<rparr>) cv s of None \<Rightarrow> IS_ANON_MMAP cur
       | Some s' \<Rightarrow> vm_inv P s' \<and> spaces_ok s' \<and> vm_remapped pid (xs @ ?ps @ ys) s s'"
    proof (cases "carve_done pid a cur (sp\<lparr>maps := t\<rparr>) cv s")
      case (Some s')
      define sp' where "sp' = (if cv = CARVE_REMOVE \<and> last_mmap sp = mm_ptr cur then sp\<lparr>maps := t, last_mmap := 0\<rparr> else sp\<lparr>maps := t\<rparr>)"
      have d': "vm_inv P s'" "vps s' = vps s" "mem s' = mem s" "vm_self s' = vm_self s" "user_addr_max s' = user_addr_max s"
        "next_ptr s' = (case cv of CARVE_SPLIT h t \<Rightarrow> Suc ?n | _ \<Rightarrow> ?n)" "spaces s' = (spaces s)(pid \<mapsto> sp')"
        using d Some by (auto simp: sp'_def)
      have le: "?n \<le> next_ptr s'" using d'(6) by (cases cv) auto
      have kn: "mm_known (next_ptr s') (vm_self s) m" if "m \<in> set ?ps" for m
        using that so(3) t(4) d'(6) carve_piece_known [OF that] by (cases cv) (auto simp: mm_known_def)
      have lp: "last_mmap sp' = 0 \<or> last_mmap sp' \<in> mm_ptr ` set (rb_keys t)"
        unfolding t(3) sp'_def using so(2) t(4) by (cases cv) auto
      have m: "maps sp' = t" by (simp add: sp'_def)
      have "space_ok (next_ptr s') (vm_self s) sp'" unfolding space_ok_def m
        using t(2,3) lp kn so(3) le by (auto intro: mm_known_mono)
      then have "spaces_ok s'" by (rule spaces_ok_upd [OF ok _ le d'(7) refl d'(4)])
      moreover have "sp_same sp sp'" by (simp add: sp_same_def sp'_def)
      ultimately show ?thesis using Some d' le sp(1) m t(3) by (auto simp: vm_remapped_def)
    qed (use d in simp)
  qed
qed

lemma munmap_loop_inv:
  assumes "vm_inv P s" "spaces_ok s" "spaces s pid = Some sp" "rb_keys (maps sp) = xs @ cur # ys"
    and "unat a + unat sz < 2 ^ 32" "unat a < mm_end cur" "length ys + 2 \<le> n"
  shows "case munmap_loop n pid a sz (Some cur) s of None \<Rightarrow> \<exists>m \<in> set (cur # ys). IS_ANON_MMAP m
    | Some s' \<Rightarrow> vm_inv P s' \<and> spaces_ok s' \<and> vm_remapped pid (xs @ munmap_list a sz (next_ptr s) (cur # ys)) s s'"
  using assms
proof (induction ys arbitrary: xs cur s sp n)
  case (Nil xs cur s sp n)
  obtain k where n: "n = Suc (Suc k)" using Nil.prems(7) by (metis One_nat_def Suc_1 add_2_eq_Suc' le_Suc_ex list.size(3) plus_nat.add_0 add_Suc)
  have ok: "mm_list_ok (xs @ [cur])" "mm_ok cur" using spaces_ok_space [OF Nil.prems(2,3)] Nil.prems(4) by (auto simp: space_ok_def maps_ok_def mm_list_simps)
  have w: "mm_addr cur \<ge> a + sz \<longleftrightarrow> unat a + unat sz \<le> mm_start cur" "mm_next cur > a"
    using Nil.prems(5,6) mm_words(1) [OF ok(2)] by (simp_all add: word_le_nat_alt word_less_nat_alt unat_add_lt mm_start_def)
  have nx: "rb_next_mm cur (maps sp) = None" using rb_next_mm_keys [of "maps sp" xs cur "[]"] Nil.prems(4) ok(1) by simp
  show ?case
  proof (cases "unat a + unat sz \<le> mm_start cur")
    case True
    then show ?thesis using vm_remapped_refl [OF Nil.prems(3)] Nil.prems w n by simp
  next
    case False
    then show ?thesis using munmap_iter [OF Nil.prems(1-5)] Nil.prems w n nx
      by (auto simp: Let_def split: option.splits)
  qed
next
  case (Cons y ys xs cur s sp n)
  obtain k where n: "n = Suc k" "length ys + 2 \<le> k" using Cons.prems(7) by (cases n) auto
  have ok: "mm_list_ok (xs @ cur # y # ys)" "mm_ok cur" "mm_ok y" using spaces_ok_space [OF Cons.prems(2,3)] Cons.prems(4) by (auto simp: space_ok_def maps_ok_def mm_list_simps)
  have w: "mm_addr cur \<ge> a + sz \<longleftrightarrow> unat a + unat sz \<le> mm_start cur" "mm_next cur > a"
    using Cons.prems(5,6) mm_words(1) [OF ok(2)] by (simp_all add: word_le_nat_alt word_less_nat_alt unat_add_lt mm_start_def)
  have nx: "rb_next_mm cur (maps sp) = Some y" using rb_next_mm_keys [of "maps sp" xs cur "y # ys"] Cons.prems(4) ok(1) by simp
  have up: "\<forall>z \<in> set (y # ys). mm_end cur \<le> mm_start z" using ok(1) by (auto simp: mm_list_simps mm_below_def)
  show ?case
  proof (cases "unat a + unat sz \<le> mm_start cur")
    case True
    have "munmap_list a sz (next_ptr s) (cur # y # ys) = cur # y # ys"
      using True up ok(2) by (intro munmap_list_id) (auto simp: mm_ok_def)
    then show ?thesis using vm_remapped_refl [OF Cons.prems(3)] True Cons.prems w n by (simp del: munmap_list_simps)
  next
    case False
    obtain t cv where t: "carve_step a sz (next_ptr s) cur (maps sp) = Some (t, cv)"
      "case carve_done pid a cur (sp\<lparr>maps := t\<rparr>) cv s of None \<Rightarrow> IS_ANON_MMAP cur
       | Some s' \<Rightarrow> vm_inv P s' \<and> spaces_ok s' \<and> vm_remapped pid (xs @ carve_pieces a sz (next_ptr s) cur @ y # ys) s s'"
      using munmap_iter [OF Cons.prems(1-4) Cons.prems(5)] False Cons.prems(6) by fastforce
    show ?thesis
    proof (cases "carve_done pid a cur (sp\<lparr>maps := t\<rparr>) cv s")
      case None
      then show ?thesis using t False w n Cons.prems(3) nx by (simp add: Let_def)
    next
      case (Some s1)
      have s1: "vm_inv P s1" "spaces_ok s1" "vm_remapped pid (xs @ carve_pieces a sz (next_ptr s) cur @ y # ys) s s1" using t(2) Some by auto
      obtain sp1 where sp1: "spaces s1 pid = Some sp1" "rb_keys (maps sp1) = (xs @ carve_pieces a sz (next_ptr s) cur) @ y # ys"
        using s1(3) by (auto simp: vm_remapped_def)
      have "unat a < mm_end y" using up Cons.prems(6) ok(3) by (auto simp: mm_ok_def)
      note IH = Cons.IH [OF s1(1,2) sp1 Cons.prems(5) this n(2)]
      have nl: "munmap_list a sz (next_ptr s1) (y # ys) = munmap_list a sz (next_ptr s) (y # ys)"
        by (rule munmap_list_new) (use up Cons.prems(6) in fastforce)
      show ?thesis using IH s1(3) t(1) Some False w n Cons.prems(3,6) nx vm_remapped_trans unfolding nl
        by (auto simp: Let_def split: option.splits)
    qed
  qed
qed

lemma munmap_space_inv:
  assumes inv: "vm_inv P s" and ok: "spaces_ok s" and m: "munmap_space pid a sz s = Some s'"
  shows "vm_inv P s' \<and> spaces_ok s' \<and> vps s' = (\<lambda>r. if vp_pid r = pid \<and> vp_addr r \<in> set (pages_of a sz) then None else vps s r)
    \<and> (\<exists>sp s1. spaces s pid = Some sp \<and> vm_same s s1 \<and> vps s1 = vps s' \<and> vm_remapped pid
          (if first_lazy_mmap (maps sp) a sz = Some None then rb_keys (maps sp) else munmap_list a sz (next_ptr s) (rb_keys (maps sp))) s1 s')"
proof -
  obtain sp s1 cur where sp: "spaces s pid = Some sp" and v: "VALID_ADDR_SIZE a sz" and r: "remove_vp_range pid a sz s = Some s1"
    and f: "first_lazy_mmap (maps sp) a sz = Some cur" and l: "munmap_loop (Suc (Suc (length (rb_keys (maps sp))))) pid a sz cur s1 = Some s'"
    using m by (auto simp: munmap_space_def split: option.splits if_splits)
  have s1: "vm_inv P s1" "vm_same s s1" "vps s1 = (\<lambda>r. if vp_pid r = pid \<and> vp_addr r \<in> set (pages_of a sz) then None else vps s r)"
    using remove_vps_inv [OF inv, of pid "pages_of a sz"] r by (auto simp: remove_vp_range_def)
  have ok1: "spaces_ok s1" "spaces s1 pid = Some sp" "next_ptr s1 = next_ptr s" using spaces_ok_same [OF s1(2)] s1(2) ok sp by (auto simp: vm_same_def)
  have mo: "maps_ok (maps sp)" using spaces_ok_space [OF ok sp] by (simp add: space_ok_def)
  show ?thesis
  proof (rule first_lazy_mmap_cases [OF mo v])
    assume n: "first_lazy_mmap (maps sp) a sz = Some None"
    then have "s' = s1" using l f by simp
    moreover have "vm_remapped pid (rb_keys (maps sp)) s1 s1" by (rule vm_remapped_refl) fact
    ultimately show ?thesis using s1 ok1 sp n by auto
  next
    fix xs m ys assume k: "first_lazy_mmap (maps sp) a sz = Some (Some m)" "rb_keys (maps sp) = xs @ m # ys" "\<forall>x \<in> set xs. mm_end x \<le> unat a" "unat a < mm_end m"
    have L: "vm_inv P s'" "spaces_ok s'" "vm_remapped pid (xs @ munmap_list a sz (next_ptr s1) (m # ys)) s1 s'"
      using munmap_loop_inv [OF s1(1) ok1(1,2) k(2) valid_addr_size [OF v] k(4), of "Suc (Suc (length (rb_keys (maps sp))))"] l f k(1,2) by auto
    have e: "xs @ munmap_list a sz (next_ptr s1) (m # ys) = munmap_list a sz (next_ptr s) (rb_keys (maps sp))"
      using munmap_list_id [of xs a sz "next_ptr s"] k(3) unfolding k(2) ok1(3) by simp
    have v: "vps s' = vps s1" using L(3) by (simp add: vm_remapped_def)
    show ?thesis using L(1,2) v s1(3) sp s1(2) L(3) [unfolded e] k(1) by (intro conjI exI [of _ sp] exI [of _ s1]) simp_all
  qed
qed

text \<open>Nothing of the range is left in what a range takes out of a list.\<close>

lemma munmap_list_gone:
  assumes "mm_list_ok ms" "unat a + unat sz < 2 ^ 32" "0 < unat sz" "new \<noteq> 0" "p \<in> set (munmap_list a sz new ms)" "mm_has p n"
  shows "\<not> (unat a \<le> n \<and> n < unat a + unat sz)"
proof -
  obtain m where m: "m \<in> set ms" "p \<in> set (if mm_end m \<le> unat a \<or> unat a + unat sz \<le> mm_start m then [m] else carve_pieces a sz new m)"
    using assms(5) by (auto simp: munmap_list_def)
  have "mm_ok m" using assms(1) m(1) by (auto simp: mm_list_ok_def)
  then show ?thesis using m(2) assms(6) carve_piece_range(4) [of m a sz p new n] assms(2,4)
    by (cases "mm_end m \<le> unat a \<or> unat a + unat sz \<le> mm_start m") (auto simp: mm_has_def split: if_splits)
qed

lemma munmap_space_returns:
  assumes inv: "vm_inv P s" and ok: "spaces_ok s" and sp: "spaces s pid = Some sp" and v: "VALID_ADDR_SIZE a sz" "(a OR sz) AND 0xfff = 0" "0 < unat sz"
    and na: "\<forall>m \<in> set (rb_keys (maps sp)). \<not> IS_ANON_MMAP m"
  shows "\<exists>s'. munmap_space pid a sz s = Some s'"
proof -
  obtain s1 where s1: "remove_vp_range pid a sz s = Some s1" "vm_inv P s1" "vm_same s s1"
    using remove_vps_inv [OF inv, of pid "pages_of a sz"] by (auto simp: remove_vp_range_def)
  have ok1: "spaces_ok s1" "spaces s1 pid = Some sp" "next_ptr s1 = next_ptr s" using spaces_ok_same [OF s1(3)] s1(3) ok sp by (auto simp: vm_same_def)
  have mo: "maps_ok (maps sp)" using spaces_ok_space [OF ok sp] by (simp add: space_ok_def)
  show ?thesis
  proof (rule first_lazy_mmap_cases [OF mo v(1)])
    assume "first_lazy_mmap (maps sp) a sz = Some None"
    then show ?thesis using sp v s1(1) ok1(2) by (simp add: munmap_space_def)
  next
    fix xs m ys assume k: "first_lazy_mmap (maps sp) a sz = Some (Some m)" "rb_keys (maps sp) = xs @ m # ys" "\<forall>x \<in> set xs. mm_end x \<le> unat a" "unat a < mm_end m"
    note L = munmap_loop_inv [OF s1(2) ok1(1,2) k(2) valid_addr_size [OF v(1)] k(4), of "Suc (Suc (length (rb_keys (maps sp))))"]
    have "munmap_loop (Suc (Suc (length (rb_keys (maps sp))))) pid a sz (Some m) s1 \<noteq> None"
    proof
      assume "munmap_loop (Suc (Suc (length (rb_keys (maps sp))))) pid a sz (Some m) s1 = None"
      then have "\<exists>x \<in> set (m # ys). IS_ANON_MMAP x" using L k(2) by auto
      then show False using na k(2) by auto
    qed
    then obtain s2 where s2: "munmap_loop (Suc (Suc (length (rb_keys (maps sp))))) pid a sz (Some m) s1 = Some s2" "spaces_ok s2"
      "vm_remapped pid (xs @ munmap_list a sz (next_ptr s1) (m # ys)) s1 s2" using L k(2) by auto
    obtain sp2 where sp2: "spaces s2 pid = Some sp2" "rb_keys (maps sp2) = munmap_list a sz (next_ptr s) (rb_keys (maps sp))"
      using s2(3) munmap_list_id [of xs a sz "next_ptr s"] k(3) unfolding k(2) ok1(3) by (auto simp: vm_remapped_def)
    have mo2: "maps_ok (maps sp2)" using spaces_ok_space [OF s2(2) sp2(1)] by (simp add: space_ok_def)
    have gone: "\<not> (unat a \<le> n \<and> n < unat a + unat sz)" if "p \<in> set (rb_keys (maps sp2))" "mm_has p n" for p n
      using munmap_list_gone [of "rb_keys (maps sp)" a sz "next_ptr s" p n] mo valid_addr_size [OF v(1)] v(3) ok that sp2(2)
      by (auto simp: maps_ok_def spaces_ok_def)
    have "first_lazy_mmap (maps sp2) a sz = Some None"
    proof (rule first_lazy_mmap_cases [OF mo2 v(1)])
      fix xs c ys assume c: "rb_keys (maps sp2) = xs @ c # ys" "unat a < mm_end c" "mm_start c \<le> unat a \<or> mm_start c < unat a + unat sz"
      have "mm_has c (max (mm_start c) (unat a))" using c(2,3) mo2 unfolding maps_ok_def c(1) by (auto simp: mm_has_def mm_list_simps mm_ok_def)
      moreover have "c \<in> set (rb_keys (maps sp2))" by (simp add: c(1))
      ultimately have False using gone c(3) v(3) by fastforce
      then show ?thesis ..
    qed simp
    then show ?thesis using sp v s1(1) k(1) s2(1) sp2(1) by (simp add: munmap_space_def)
  qed
qed

end
