(* ===== verification/Vm_Steps.thy ===== *)
theory Vm_Steps
  imports Vm_Keep
begin

text \<open>
  The calls of the virtual memory server as steps, and the states they reach: mapping, unmapping, the program break,
  page faults, fork and erase keep the invariants.
\<close>

section \<open>Mapping\<close>

lemma insert_space_ok:
  assumes ok: "spaces_ok s" and sp: "spaces s pid = Some sp" and i: "insert_lazy_mmap mm (maps sp) = Some (Inr t)"
    and m: "mm_ok mm" "mm_known (next_ptr s) (vm_self s) mm" "mm_ptr mm \<notin> mm_ptr ` set (rb_keys (maps sp))"
    and sp': "maps sp' = t" "last_mmap sp' = last_mmap sp"
  shows "spaces_ok (set_space pid sp' s)"
proof -
  have so: "space_ok (next_ptr s) (vm_self s) sp" by (rule spaces_ok_space) fact+
  obtain xs ys where t: "maps_ok t" "rb_keys (maps sp) = xs @ ys" "rb_keys t = xs @ mm # ys"
    using insert_lazy_mmap_ok [of "maps sp" mm] so m(1,3) i by (auto simp: space_ok_def)
  have "space_ok (next_ptr s) (vm_self s) sp'" using so t m(2) sp' by (auto simp: space_ok_def)
  then show ?thesis using spaces_ok_upd [OF ok, of "next_ptr s" sp' "set_space pid sp' s" pid] by (simp add: set_space_def)
qed

text \<open>A new mapping: its number was just taken, and it is put in a valid range.\<close>

definition mm_fresh :: "lazy_mmap \<Rightarrow> vm \<Rightarrow> bool" where
  "mm_fresh mm s \<longleftrightarrow> 0 < mm_ptr mm \<and> mm_tailsz mm \<le> PAGE_SIZE \<and> mm_known (next_ptr s) (vm_self s) mm \<and> (\<forall>pid sp m. spaces s pid = Some sp \<longrightarrow> m \<in> set (rb_keys (maps sp)) \<longrightarrow> mm_ptr m \<noteq> mm_ptr mm)"

definition range_ok :: "u32 \<Rightarrow> u32 \<Rightarrow> bool \<Rightarrow> vm_space \<Rightarrow> bool" where
  "range_ok a len fixed sp \<longleftrightarrow> 0 < unat len \<and> unat a + unat len < 2 ^ 32
     \<and> (\<not> fixed \<longrightarrow> unat len \<le> unat (mmap_bot sp) \<and> unat (mmap_bot sp) + 1 < 2 ^ 32)"

lemma mm_okI: "0 < unat len \<Longrightarrow> unat a + unat len < 2 ^ 32 \<Longrightarrow> 0 < mm_ptr mm \<Longrightarrow> mm_ok (mm\<lparr>mm_addr := a, mm_length := len\<rparr>)"
  by (simp add: mm_ok_def mm_start_def mm_end_def)

lemma bot_range:
  assumes "range_ok a len False sp"
  shows "unat (mmap_bot sp - len + 1) + unat len < 2 ^ 32"
proof -
  have "len \<le> mmap_bot sp" using assms by (simp add: range_ok_def word_le_nat_alt)
  then have "unat (mmap_bot sp - len) = unat (mmap_bot sp) - unat len" by (rule unat_sub)
  then have "unat (mmap_bot sp - len + 1) = unat (mmap_bot sp) - unat len + 1"
    using assms unat_add_lt [of "mmap_bot sp - len" 1] by (simp add: range_ok_def) linarith
  then show ?thesis using assms by (simp add: range_ok_def)
qed

lemma IS_ANON_upd [simp]: "IS_ANON_MMAP (mm\<lparr>mm_addr := a\<rparr>) = IS_ANON_MMAP mm" "IS_ANON_MMAP (mm\<lparr>mm_length := a\<rparr>) = IS_ANON_MMAP mm"
  by (simp_all add: IS_ANON_MMAP_def)

lemma mm_known_upd [simp]: "mm_known n self (mm\<lparr>mm_addr := a\<rparr>) = mm_known n self mm" "mm_known n self (mm\<lparr>mm_length := l\<rparr>) = mm_known n self mm"
  by (simp_all add: mm_known_def)

lemma mm_fresh_ptrs: "mm_fresh mm s \<Longrightarrow> spaces s pid = Some sp \<Longrightarrow> mm_ptr mm \<notin> mm_ptr ` set (rb_keys (maps sp))"
  by (fastforce simp: mm_fresh_def)

lemma spaces_ok_table [simp]: "spaces_ok (s\<lparr>anon_mmap_table := t\<rparr>) = spaces_ok s"
  by (simp add: spaces_ok_def)

lemma munmap_list_ptrs: "p \<in> set (munmap_list a sz new ms) \<Longrightarrow> mm_ptr p = new \<or> mm_ptr p \<in> mm_ptr ` set ms"
  by (auto simp: munmap_list_def split: if_splits dest: carve_piece_known)

section \<open>Pages and the mappings they lie in\<close>

lemma page_mask: "x AND 0xfff = take_bit 12 x" for x :: u32
  by (simp add: take_bit_eq_mask mask_numeral)

lemma page_offset: "unat (x AND 0xfff) = unat x mod PAGE_SIZE" for x :: u32
  unfolding page_mask unsigned_take_bit_eq by (simp add: take_bit_eq_mod)

lemma aligned_nat: "x AND 0xfff = 0 \<longleftrightarrow> PAGE_SIZE dvd unat x" for x :: u32
  using page_offset [of x] unsigned_0 unat_eq_zero [of "x AND 0xfff"] by (simp add: dvd_eq_mod_eq_0)

lemma page_dvd: "PAGE_SIZE dvd n mod 2 ^ 32 \<longleftrightarrow> PAGE_SIZE dvd n"
  by (rule dvd_mod_iff) simp

lemma aligned_add: "x AND 0xfff = 0 \<Longrightarrow> y AND 0xfff = 0 \<Longrightarrow> (x + y) AND 0xfff = 0" for x y :: u32
  unfolding aligned_nat unat_word_ariths by (simp add: page_dvd [simplified])

lemma aligned_diff: 
  fixes x y :: u32
  assumes "x AND 0xfff = 0" "y AND 0xfff = 0" shows "(x - y) AND 0xfff = 0"
proof -
  have "unat x = (unat (x - y) + unat y) mod 2 ^ 32" using unat_word_ariths(1) [of "x - y" y] by simp
  then have "PAGE_SIZE dvd unat (x - y) + unat y" using assms(1) page_dvd unfolding aligned_nat by metis
  then show ?thesis using assms(2) unfolding aligned_nat by (simp add: dvd_add_left_iff)
qed

lemma page_floor_add: "(x AND NOT 0xfff) + (x AND 0xfff) = x" for x :: u32
proof -
  have "(x AND NOT 0xfff) + (x AND 0xfff) = (x AND NOT 0xfff) OR (x AND 0xfff)"
    by (rule disjunctive_add_eq_or) (rule bit_word_eqI, auto simp: bit_simps)
  also have "\<dots> = x" by (rule bit_word_eqI) (auto simp: bit_simps)
  finally show ?thesis .
qed

lemma page_floor_diff: "x AND NOT 0xfff = x - (x AND 0xfff)" for x :: u32
  using page_floor_add [of x] by (metis add_diff_cancel_right')

lemma page_floor_nat: "unat (x AND NOT 0xfff) = unat x - unat x mod PAGE_SIZE" for x :: u32
proof -
  have "x AND 0xfff \<le> x" by (simp add: word_le_nat_alt page_offset)
  then have "unat (x - (x AND 0xfff)) = unat x - unat (x AND 0xfff)" by (rule unat_sub)
  then show ?thesis unfolding page_floor_diff page_offset .
qed

lemma aligned_floor [simp]: "(x AND NOT 0xfff) AND 0xfff = 0" for x :: u32
  unfolding aligned_nat page_floor_nat by (rule dvd_minus_mod)

lemma page_floor_id: "a AND 0xfff = 0 \<Longrightarrow> a AND NOT 0xfff = a" for a :: u32
  using page_floor_add [of a] by (metis add.right_neutral)

lemma page_floor_eq: "- 4096 AND x = x AND NOT 0xfff" for x :: u32
  by (simp add: and.commute)

lemma PAGE_CEIL_aligned: "PAGE_CEIL x AND 0xfff = 0"
  unfolding PAGE_CEIL_def by (rule aligned_floor)

lemma pages_of_has:
  assumes "a AND 0xfff = 0" "x AND 0xfff = 0" "unat a \<le> unat x" "unat x < unat a + unat sz"
  shows "x \<in> set (pages_of a sz)"
proof -
  define i where "i = (unat x - unat a) div PAGE_SIZE"
  have "PAGE_SIZE dvd unat x - unat a" using assms(1,2) unfolding aligned_nat by (rule dvd_diff_nat [rotated])
  then have e: "unat x = unat a + PAGE_SIZE * i" using assms(3) by (auto simp: i_def)
  then have "x = a + of_nat (PAGE_SIZE * i)" by (metis of_nat_add of_nat_unat ucast_id)
  moreover have "i < (unat sz + (PAGE_SIZE - 1)) div PAGE_SIZE" using e assms(4) by simp
  ultimately show ?thesis by (auto simp: pages_of_def)
qed
definition mm_aligned :: "lazy_mmap \<Rightarrow> bool" where
  "mm_aligned m \<longleftrightarrow> mm_addr m AND 0xfff = 0 \<and> mm_tailsz m \<le> PAGE_SIZE"

definition vm_cov :: "vm \<Rightarrow> bool" where
  "vm_cov s \<longleftrightarrow> (\<forall>pid sp. spaces s pid = Some sp \<longrightarrow> (mmap_bot sp + 1) AND 0xfff = 0 \<and> (\<forall>m \<in> set (rb_keys (maps sp)). mm_aligned m))
     \<and> (\<forall>r. vps s r \<noteq> None \<longrightarrow> vp_addr r AND 0xfff = 0
         \<and> (\<exists>sp. spaces s (vp_pid r) = Some sp \<and> (\<exists>m \<in> set (rb_keys (maps sp)). mm_has m (unat (vp_addr r)))))"

lemma vm_cov_mono:
  assumes c: "vm_cov s" and v: "\<And>r. vps s' r \<noteq> None \<Longrightarrow> vps s r \<noteq> None \<or> vp_addr r AND 0xfff = 0
      \<and> (\<exists>sp. spaces s' (vp_pid r) = Some sp \<and> (\<exists>m \<in> set (rb_keys (maps sp)). mm_has m (unat (vp_addr r))))"
    and sp: "\<And>pid sp. spaces s pid = Some sp \<Longrightarrow> \<exists>sp'. spaces s' pid = Some sp' \<and> set (rb_keys (maps sp)) \<subseteq> set (rb_keys (maps sp'))"
    and sp': "\<And>pid sp'. spaces s' pid = Some sp' \<Longrightarrow> (mmap_bot sp' + 1) AND 0xfff = 0 \<and> (\<forall>m \<in> set (rb_keys (maps sp')). mm_aligned m)"
  shows "vm_cov s'"
  unfolding vm_cov_def
proof (intro conjI allI impI)
  fix r assume r: "vps s' r \<noteq> None"
  have "vp_addr r AND 0xfff = 0 \<and> (\<exists>sp. spaces s' (vp_pid r) = Some sp \<and> (\<exists>m \<in> set (rb_keys (maps sp)). mm_has m (unat (vp_addr r))))"
    using v [OF r]
  proof
    assume "vps s r \<noteq> None"
    then obtain sp m where "vp_addr r AND 0xfff = 0" "spaces s (vp_pid r) = Some sp" "m \<in> set (rb_keys (maps sp))" "mm_has m (unat (vp_addr r))"
      using c by (auto simp: vm_cov_def)
    then show ?thesis using sp by blast
  qed
  then show "vp_addr r AND 0xfff = 0" "\<exists>sp. spaces s' (vp_pid r) = Some sp \<and> (\<exists>m \<in> set (rb_keys (maps sp)). mm_has m (unat (vp_addr r)))" by blast+
qed (use sp' in blast)+

lemma munmap_list_keeps:
  assumes "mm_list_ok ms" "unat a + unat sz < 2 ^ 32" "m \<in> set ms" "mm_has m n" "\<not> (unat a \<le> n \<and> n < unat a + unat sz)"
  shows "\<exists>p \<in> set (munmap_list a sz new ms). mm_has p n"
proof (cases "mm_end m \<le> unat a \<or> unat a + unat sz \<le> mm_start m")
  case True
  then show ?thesis using assms(3,4) by (fastforce simp: munmap_list_def)
next
  case False
  have m: "mm_ok m" using assms(1,3) by (simp add: mm_list_ok_def)
  note w = carve_lengths [OF m assms(2)] unat_add_lt [OF assms(2)]
  have "\<exists>p \<in> set (carve_pieces a sz new m). mm_has p n"
  proof (cases "n < unat a")
    case True
    then show ?thesis using assms(4) w by (auto simp: carve_pieces_def mm_has_def mm_start_def mm_end_def)
  next
    case ge: False
    then have "unat a + unat sz < mm_end m" using assms(4,5) by (auto simp: mm_has_def)
    then show ?thesis using assms(4,5) w ge False by (auto simp: carve_pieces_def mm_has_def mm_start_def mm_end_def)
  qed
  then show ?thesis using False assms(3) by (auto simp: munmap_list_def)
qed

lemma munmap_list_aligned:
  assumes "\<forall>m \<in> set ms. mm_aligned m" "a AND 0xfff = 0" "sz AND 0xfff = 0" "p \<in> set (munmap_list a sz new ms)"
  shows "mm_aligned p"
  using assms(1,4) aligned_add [OF assms(2,3)] by (auto simp: munmap_list_def carve_pieces_def mm_aligned_def split: if_splits)

lemma aligned_or: "(x OR y) AND 0xfff = 0 \<Longrightarrow> x AND 0xfff = 0 \<and> y AND 0xfff = 0" for x y :: u32
  by (auto simp: word_bw_assocs bit_eq_iff bit_simps)

lemma munmap_space_cov:
  assumes inv: "vm_inv P s" "spaces_ok s" "munmap_space pid a sz s = Some s'" and c: "vm_cov s"
  shows "vm_cov s'"
proof -
  obtain sp s1 ms where v: "vps s' = (\<lambda>r. if vp_pid r = pid \<and> vp_addr r \<in> set (pages_of a sz) then None else vps s r)"
    and m: "vm_same s s1" "vm_remapped pid ms s1 s'" and sp: "spaces s pid = Some sp"
    and ms: "ms = (if first_lazy_mmap (maps sp) a sz = Some None then rb_keys (maps sp) else munmap_list a sz (next_ptr s) (rb_keys (maps sp)))"
    using munmap_space_inv [OF inv] by blast
  then have ms: "ms = rb_keys (maps sp) \<or> ms = munmap_list a sz (next_ptr s) (rb_keys (maps sp))" by simp
  have al: "a AND 0xfff = 0" "sz AND 0xfff = 0" "unat a + unat sz < 2 ^ 32"
    using inv(3) aligned_or [of a sz] valid_addr_size by (auto simp: munmap_space_def split: if_splits)
  obtain sp' where sp': "spaces s' = (spaces s)(pid \<mapsto> sp')" "mmap_bot sp' = mmap_bot sp" "rb_keys (maps sp') = ms"
    using m sp by (auto simp: vm_remapped_def vm_same_def sp_same_def)
  have mo: "mm_list_ok (rb_keys (maps sp))" "\<forall>m \<in> set (rb_keys (maps sp)). mm_aligned m"
    using spaces_ok_space [OF inv(2) sp] c sp by (auto simp: space_ok_def maps_ok_def vm_cov_def)
  have al': "\<forall>m \<in> set ms. mm_aligned m" using ms mo(2) munmap_list_aligned [OF mo(2) al(1,2)] by blast
  have keep: "\<exists>p \<in> set ms. mm_has p (unat x)" if "m \<in> set (rb_keys (maps sp))" "mm_has m (unat x)" "x \<notin> set (pages_of a sz)" "x AND 0xfff = 0" for m x
    using ms munmap_list_keeps [OF mo(1) al(3) that(1,2)] pages_of_has [OF al(1) that(4)] that by fastforce
  have "vps s r \<noteq> None \<and> \<not> (vp_pid r = pid \<and> vp_addr r \<in> set (pages_of a sz))" if "vps s' r \<noteq> None" for r
    using fun_cong [OF v, of r] that by (simp split: if_splits)
  note left = this
  show ?thesis unfolding vm_cov_def
  proof (intro conjI allI impI)
    fix p q assume "spaces s' p = Some q"
    then show "(mmap_bot q + 1) AND 0xfff = 0" "\<forall>m \<in> set (rb_keys (maps q)). mm_aligned m"
      using c sp sp' al' unfolding vm_cov_def by (auto split: if_splits)
  next
    fix r assume "vps s' r \<noteq> None"
    from left [OF this] obtain q m where q: "vp_addr r AND 0xfff = 0" "spaces s (vp_pid r) = Some q" "m \<in> set (rb_keys (maps q))" "mm_has m (unat (vp_addr r))"
      "\<not> (vp_pid r = pid \<and> vp_addr r \<in> set (pages_of a sz))" using c by (auto simp: vm_cov_def)
    show "vp_addr r AND 0xfff = 0" by fact
    show "\<exists>sp. spaces s' (vp_pid r) = Some sp \<and> (\<exists>m \<in> set (rb_keys (maps sp)). mm_has m (unat (vp_addr r)))"
    proof (cases "vp_pid r = pid")
      case True
      then have "m \<in> set (rb_keys (maps sp))" "vp_addr r \<notin> set (pages_of a sz)" using q sp by auto
      from keep [OF this(1) q(4) this(2) q(1)] show ?thesis using True sp' by simp
    next
      case False
      then show ?thesis using q(2-4) sp'(1) by auto
    qed
  qed
qed

definition sp_areas :: "vm_space \<Rightarrow> fpage \<times> fpage \<times> fpage" where
  "sp_areas sp = (kip_area sp, vm_utcb_area sp, sysinfo_area sp)"

lemma sp_areas_upd [simp]:
  "sp_areas (sp\<lparr>maps := x1\<rparr>) = sp_areas sp" "sp_areas (sp\<lparr>last_mmap := x2\<rparr>) = sp_areas sp" "sp_areas (sp\<lparr>brk := x3\<rparr>) = sp_areas sp" "sp_areas (sp\<lparr>mmap_bot := x4\<rparr>) = sp_areas sp"
  by (simp_all add: sp_areas_def)

lemma sp_same_areas: "sp_same sp sp' \<Longrightarrow> sp_areas sp' = sp_areas sp"
  by (simp add: sp_same_def sp_areas_def)

text \<open>\<open>vm_less\<close>: pages may have gone, address spaces have not.\<close>

definition vm_less :: "vm \<Rightarrow> vm \<Rightarrow> bool" where
  "vm_less s s' \<longleftrightarrow> (\<forall>r. vps s' r = None \<or> vps s' r = vps s r) \<and> (\<forall>pid. map_option sp_areas (spaces s' pid) = map_option sp_areas (spaces s pid)) \<and> vm_self s' = vm_self s
     \<and> (vm_cov s \<longrightarrow> vm_cov s')"

lemma vm_less_refl [simp]: "vm_less s s" by (simp add: vm_less_def)

lemma vm_less_trans: "vm_less s1 s2 \<Longrightarrow> vm_less s2 s3 \<Longrightarrow> vm_less s1 s3"
  unfolding vm_less_def by metis

lemma munmap_space_less:
  assumes "vm_inv P s" "spaces_ok s" "munmap_space pid a sz s = Some s'"
  shows "vm_less s s'"
proof -
  obtain s1 ms where v: "vps s' = (\<lambda>r. if vp_pid r = pid \<and> vp_addr r \<in> set (pages_of a sz) then None else vps s r)"
    and m: "vm_same s s1" "vm_remapped pid ms s1 s'"
    using munmap_space_inv [OF assms] by blast
  have "vps s' r = None \<or> vps s' r = vps s r" for r using fun_cong [OF v, of r] by (simp split: if_splits)
  then show ?thesis using m munmap_space_cov [OF assms] unfolding vm_less_def vm_same_def vm_remapped_def by (auto dest: sp_same_areas)
qed

lemma vm_less_insert:
  assumes "vm_less s1 s2" "spaces s2 pid = Some sp" "rb_keys (maps sp) = xs @ ys" "rb_keys (maps sp') = xs @ mm # ys" "mm_tailsz mm \<le> PAGE_SIZE"
    "sp_areas sp' = sp_areas sp" "mm_addr mm AND 0xfff = 0 \<or> (mmap_bot sp + 1) AND 0xfff \<noteq> 0" "(mmap_bot sp + 1) AND 0xfff = 0 \<longrightarrow> (mmap_bot sp' + 1) AND 0xfff = 0"
  shows "vm_less s1 (set_space pid sp' s2)"
proof -
  have "vm_cov (set_space pid sp' s2)" if "vm_cov s2"
  proof (rule vm_cov_mono [OF that])
    fix p q assume "spaces (set_space pid sp' s2) p = Some q"
    then show "(mmap_bot q + 1) AND 0xfff = 0 \<and> (\<forall>m \<in> set (rb_keys (maps q)). mm_aligned m)"
      using that assms(2-8) unfolding vm_cov_def by (cases "p = pid") (auto simp: set_space_def mm_aligned_def)
  qed (use assms in \<open>auto simp: set_space_def\<close>)
  moreover have "map_option sp_areas (spaces s1 pid) = Some (sp_areas sp')" using assms(1,2,6) unfolding vm_less_def by (metis option.simps(9))
  ultimately show ?thesis using assms(1) by (auto simp: vm_less_def set_space_def)
qed

lemma insert_space_less:
  assumes ok: "spaces_ok s" and sp: "spaces s pid = Some sp" and i: "insert_lazy_mmap mm (maps sp) = Some (Inr t)"
    and m: "mm_ok mm" "mm_ptr mm \<notin> mm_ptr ` set (rb_keys (maps sp))" "mm_tailsz mm \<le> PAGE_SIZE"
    and a: "(mmap_bot sp + 1) AND 0xfff = 0 \<longrightarrow> mm_addr mm AND 0xfff = 0 \<and> (mmap_bot sp' + 1) AND 0xfff = 0"
    and sp': "maps sp' = t" "sp_areas sp' = sp_areas sp" and l: "vm_less s0 s"
  shows "vm_less s0 (set_space pid sp' s)"
proof -
  have "maps_ok (maps sp)" using spaces_ok_space [OF ok sp] by (simp add: space_ok_def)
  then obtain xs ys where "rb_keys (maps sp) = xs @ ys" "rb_keys t = xs @ mm # ys"
    using insert_lazy_mmap_ok [of "maps sp" mm] m i by auto
  then show ?thesis using m(3) a sp' by (intro vm_less_insert [OF l sp, of xs ys sp' mm]) auto
qed

lemma reserve_mmap_inv:
  assumes inv: "vm_inv P s" and ok: "spaces_ok s" and sp: "spaces s pid = Some sp" and r: "range_ok a len fixed sp" and f: "mm_fresh mm s"
    and m: "reserve_mmap ht mm pid a len fixed s = Some (n, s')"
  shows "vm_inv P s' \<and> spaces_ok s' \<and> vm_less s s'"
proof -
  define tb where "tb = (if IS_ANON_MMAP mm then (pid, mm_ptr mm) # anon_mmap_table s else anon_mmap_table s)"
  define s0 where "s0 = s\<lparr>anon_mmap_table := tb\<rparr>"
  have s0: "(if IS_ANON_MMAP mm then s\<lparr>anon_mmap_table := (pid, mm_ptr mm) # anon_mmap_table s\<rparr> else s) = s0"
    "vm_inv P s0" "spaces_ok s0" "spaces s0 = spaces s" "next_ptr s0 = next_ptr s" "vm_self s0 = vm_self s" "vm_less s s0"
    using inv ok by (auto simp: s0_def tb_def vm_less_def vm_cov_def)
  have kn: "mm_known (next_ptr s) (vm_self s) mm" "0 < mm_ptr mm" using f by (auto simp: mm_fresh_def)
  have al: "len AND 0xfff = 0" "a AND 0xfff = 0" using m by (auto simp: reserve_mmap_def sp split: if_splits)
  have ins: "spaces_ok (set_space pid sp'' s0) \<and> vm_less s (set_space pid sp'' s0)"
    if "insert_lazy_mmap (mm\<lparr>mm_addr := b, mm_length := len\<rparr>) (maps sp) = Some (Inr t)" "unat b + unat len < 2 ^ 32" "maps sp'' = t" "last_mmap sp'' = last_mmap sp" "sp_areas sp'' = sp_areas sp"
      "(mmap_bot sp + 1) AND 0xfff = 0 \<longrightarrow> b AND 0xfff = 0 \<and> (mmap_bot sp'' + 1) AND 0xfff = 0" for b t sp''
  proof -
    let ?mm = "mm\<lparr>mm_addr := b, mm_length := len\<rparr>"
    have mo: "mm_ok ?mm" "mm_ptr ?mm \<notin> mm_ptr ` set (rb_keys (maps sp))" "spaces s0 pid = Some sp"
      using mm_okI [of len b mm] r that(2) kn(2) mm_fresh_ptrs [OF f sp] sp s0(4) by (auto simp: range_ok_def)
    have "spaces_ok (set_space pid sp'' s0)"
      by (rule insert_space_ok [OF s0(3) mo(3) that(1) mo(1) _ mo(2) that(3,4)]) (use kn in \<open>simp add: s0\<close>)
    moreover have "vm_less s (set_space pid sp'' s0)"
      by (rule insert_space_less [OF s0(3) mo(3) that(1) mo(1,2) _ _ that(3,5) s0(7)]) (use f that(6) in \<open>auto simp: mm_fresh_def\<close>)
    ultimately show ?thesis ..
  qed
  have bot: "(mmap_bot sp + 1) AND 0xfff = 0 \<longrightarrow> (mmap_bot sp - len + 1) AND 0xfff = 0"
    using aligned_diff [of "mmap_bot sp + 1" len] al(1) by (simp add: algebra_simps)
  have fresh: "vm_inv P s' \<and> spaces_ok s' \<and> vm_less s s'"
    if "insert_lazy_mmap (mm\<lparr>mm_addr := mmap_bot sp - len + 1, mm_length := len\<rparr>) (maps sp) = Some (Inr t)"
      "s' = set_space pid (sp\<lparr>maps := t, mmap_bot := mmap_bot sp - len\<rparr>) s0" "\<not> fixed" for t
    using ins [OF that(1) bot_range [of a]] r that(2,3) s0(2) bot by simp
  have direct: "vm_inv P s' \<and> spaces_ok s' \<and> vm_less s s'"
    if "insert_lazy_mmap (mm\<lparr>mm_addr := b, mm_length := len\<rparr>) (maps sp) = Some (Inr t)" "unat b + unat len < 2 ^ 32" "s' = set_space pid (sp\<lparr>maps := t\<rparr>) s0" "b AND 0xfff = 0" for b t
    using ins [OF that(1,2), of "sp\<lparr>maps := t\<rparr>"] that(3,4) s0(2) by simp
  have over: "vm_inv P s' \<and> spaces_ok s' \<and> vm_less s s'"
    if u: "munmap_space pid a len s0 = Some s1" "spaces s1 pid = Some sp1"
      "insert_lazy_mmap (mm\<lparr>mm_addr := a, mm_length := len\<rparr>) (maps sp1) = Some (Inr t)" "s' = set_space pid (sp1\<lparr>maps := t\<rparr>) s1" for s1 sp1 t
  proof -
    obtain s2 ms where u': "vm_inv P s1" "spaces_ok s1" "vm_same s0 s2" "vm_remapped pid ms s2 s1"
      "ms = rb_keys (maps sp) \<or> ms = munmap_list a len (next_ptr s) (rb_keys (maps sp))"
      using munmap_space_inv [OF s0(2,3) u(1)] s0 sp by (auto split: if_splits)
    have k: "rb_keys (maps sp1) = ms" "next_ptr s \<le> next_ptr s1" "vm_self s1 = vm_self s"
      using u'(3,4) u(2) s0 by (auto simp: vm_remapped_def vm_same_def)
    have np: "mm_ptr mm \<notin> mm_ptr ` set ms" using u'(5) mm_fresh_ptrs [OF f sp] munmap_list_ptrs kn(1) by (fastforce simp: mm_known_def)
    have mo: "mm_ok (mm\<lparr>mm_addr := a, mm_length := len\<rparr>)" using mm_okI [of len a mm] r kn(2) by (simp add: range_ok_def)
    have "spaces_ok (set_space pid (sp1\<lparr>maps := t\<rparr>) s1)" using np
      by (intro insert_space_ok [OF u'(2) u(2,3) mm_okI]) (use r kn k in \<open>auto simp: range_ok_def intro: mm_known_mono\<close>)
    moreover have "vm_less s (set_space pid (sp1\<lparr>maps := t\<rparr>) s1)"
      by (rule insert_space_less [OF u'(2) u(2,3) mo _ _ _ _ _ vm_less_trans [OF s0(7) munmap_space_less [OF s0(2,3) u(1)]]])
        (use np k(1) f al in \<open>auto simp: mm_fresh_def\<close>)
    ultimately show ?thesis using u'(1) u(4) by simp
  qed
  have a0: "unat (0 :: u32) + unat len < 2 ^ 32" "unat a + unat len < 2 ^ 32" using r by (auto simp: range_ok_def)
  define bad where "bad = list_ex (\<lambda>fp. RANGE_IN_FPAGE fp a len) (nogo_areas sp)"
  define b where "b = (if bad then 0 else a)"
  have b: "unat b + unat len < 2 ^ 32" "b AND 0xfff = 0" using a0 al by (auto simp: b_def)
  note M = m [unfolded reserve_mmap_def Let_def s0(1) bad_def [symmetric] b_def [symmetric] sp option.case]
  show ?thesis
  proof (cases "bad \<and> fixed \<or> IS_ANON_MMAP mm \<and> \<not> ht")
    case True
    then show ?thesis using M inv ok by (auto split: if_splits)
  next
    case False
    let ?i = "insert_lazy_mmap (mm\<lparr>mm_addr := b, mm_length := len\<rparr>) (maps sp)"
    have e: "mm\<lparr>mm_addr := b, mm_length := len, mm_addr := x\<rparr> = mm\<lparr>mm_addr := x, mm_length := len\<rparr>" for x by (cases mm) simp
    have fr: "vm_inv P s' \<and> spaces_ok s' \<and> vm_less s s'"
      if "(case insert_lazy_mmap (mm\<lparr>mm_addr := b, mm_length := len, mm_addr := mmap_bot sp - len + 1\<rparr>) (maps sp) of
            Some (Inr t) \<Rightarrow> Some ((0, mm_addr (mm\<lparr>mm_addr := b, mm_length := len, mm_addr := mmap_bot sp - len + 1\<rparr>)), set_space pid (sp\<lparr>maps := t, mmap_bot := mmap_bot sp - len\<rparr>) s0)
          | _ \<Rightarrow> None) = Some (n, s')" "\<not> fixed"
      using that fresh unfolding e by (auto split: option.splits sum.splits)
    show ?thesis
    proof (cases fixed)
      case True
      then have "b = a" using False by (simp add: b_def)
      then show ?thesis using M False True direct [OF _ a0(2) _ al(2)] over
        by (simp split: option.splits sum.splits if_splits) auto
    next
      case nf: False
      show ?thesis
      proof (cases "b = 0")
        case True
        then show ?thesis using M False nf fr by (simp split: if_splits)
      next
        case nz: False
        show ?thesis
        proof (cases "\<exists>t. ?i = Some (Inr t)")
          case True
          then show ?thesis using M False nf nz direct [OF _ b(1) _ b(2)] by (auto split: if_splits)
        next
          case ni: False
          then obtain old where "?i = Some (Inl old)" using M False nf nz by (auto split: if_splits option.splits sum.splits)
          then show ?thesis using M False nf nz fr by (simp split: if_splits)
        qed
      qed
    qed
  qed
qed

lemma spaces_ok_next:
  assumes "spaces_ok s" "spaces s' = spaces s" "vm_self s' = vm_self s" "next_ptr s \<le> next_ptr s'"
  shows "spaces_ok s'"
  using assms space_ok_mono [OF _ assms(4)] by (auto simp: spaces_ok_def)

lemma mm_fresh_new:
  assumes "spaces_ok s" "mm_ptr mm = next_ptr s" "IS_ANON_MMAP mm \<longrightarrow> mm_fd_serv mm = vm_self s"
    "spaces s' = spaces s" "vm_self s' = vm_self s" "next_ptr s' = Suc (next_ptr s)" "mm_tailsz mm \<le> PAGE_SIZE"
  shows "mm_fresh mm s'"
proof -
  have "mm_ptr m < next_ptr s" if "spaces s pid = Some sp" "m \<in> set (rb_keys (maps sp))" for pid sp m
    using spaces_ok_space [OF assms(1) that(1)] that(2) by (auto simp: space_ok_def mm_known_def)
  then show ?thesis using assms by (fastforce simp: mm_fresh_def mm_known_def spaces_ok_def)
qed

section \<open>Faults\<close>

lemma find_lazy_mmap_eq:
  assumes t: "maps_ok t" and l: "lp = 0 \<or> lp \<in> mm_ptr ` set (rb_keys t)"
  shows "\<exists>l'. find_lazy_mmap lp t a = Some (maps_search a t, l') \<and> (l' = 0 \<or> l' \<in> mm_ptr ` set (rb_keys t))"
proof -
  have ok: "mm_list_ok (rb_keys t)" using t by (simp add: maps_ok_def)
  have search: "\<exists>l'. (case maps_search a t of None \<Rightarrow> Some (None, lp) | Some cand \<Rightarrow> Some (Some cand, mm_ptr cand)) = Some (maps_search a t, l')
    \<and> (l' = 0 \<or> l' \<in> mm_ptr ` set (rb_keys t))"
    using maps_search_Some [OF ok, of a] l by (cases "maps_search a t") auto
  show ?thesis
  proof (cases "lp = 0")
    case True
    then show ?thesis using search unfolding True by (simp add: find_lazy_mmap_def)
  next
    case False
    then obtain m where m: "m \<in> set (rb_keys t)" "mm_ptr m = lp" using l by auto
    have "\<exists>m'. mm_deref lp t = Some m' \<and> m' \<in> set (rb_keys t) \<and> mm_ptr m' = lp"
    proof -
      have "rb_locate (\<lambda>m. mm_ptr m = lp) t [] \<noteq> None" using m by (auto simp: rb_locate_None)
      then obtain c l x r ps where z: "rb_locate (\<lambda>m. mm_ptr m = lp) t [] = Some (c, l, x, r, ps)" by (metis not_None_eq prod_cases5)
      have "mm_ptr x = lp" "rb_root (RB_NODE c l x r) ps = t" using rb_locate_Some [OF z] by auto
      then show ?thesis using z by (auto simp: mm_deref_def)
    qed
    then obtain m' where d: "mm_deref lp t = Some m'" "m' \<in> set (rb_keys t)" "mm_ptr m' = lp" by blast
    have h: "mm_addr m' \<le> a \<and> a - mm_addr m' < mm_length m' \<longleftrightarrow> mm_has m' (unat a)"
      by (cases "mm_addr m' \<le> a") (auto simp: mm_has_def mm_start_def mm_end_def word_le_nat_alt word_less_nat_alt unat_sub)
    show ?thesis
    proof (cases "mm_has m' (unat a)")
      case True
      then show ?thesis using False d h maps_search_Some [OF ok, of a m'] by (auto simp: find_lazy_mmap_def)
    next
      case nh: False
      then show ?thesis using False d h search by (auto simp: find_lazy_mmap_def)
    qed
  qed
qed

lemma rights_not_writable [simp]: "(x AND NOT L4_Writable) AND L4_Writable = (0 :: rights)"
  by (rule bit_word_eqI) (auto simp: bit_simps)

lemma rights_not_writable' [simp]: "(x AND - 3) AND L4_Writable = (0 :: rights)"
  using rights_not_writable [of x] by simp

definition reader_ok :: "l4_tid \<Rightarrow> reader \<Rightarrow> bool" where
  "reader_ok self rd \<longleftrightarrow> (\<forall>t i pos. pidof_NP self t = 0 \<longrightarrow> (\<exists>n. rd t i pos = Inl n)) \<and> pidof_NP self self \<noteq> 0"

lemma load_cached_nonzero:
  assumes "load_cached_page rd mm bump pos s = Some (Inr (p, s1))" "reader_ok (vm_self s) rd"
    "mm_flags mm AND MAP_ANONYMOUS \<noteq> 0 \<longrightarrow> mm_fd_serv mm = vm_self s"
  shows "pidof_NP (vm_self s) (mm_fd_serv mm) \<noteq> 0"
proof (cases "mm_flags mm AND MAP_ANONYMOUS \<noteq> 0")
  case False
  then obtain bs where "rd (mm_fd_serv mm) (mm_ino mm) pos = Inr bs"
    using assms(1) by (auto simp: load_cached_page_def split: option.splits sum.splits)
  then show ?thesis using assms(2) by (metis Inl_Inr_False reader_ok_def)
qed (use assms(2,3) in \<open>simp add: reader_ok_def\<close>)

definition vp_empty :: "vp \<Rightarrow> bool" where "vp_empty v \<longleftrightarrow> \<not> vp_is_shared v \<and> \<not> vp_is_anon v \<and> \<not> vp_is_cow v"

definition vp_read_only :: "vp \<Rightarrow> vp" where
  "vp_read_only v = v\<lparr>vp_is_cow := True, vp_rights := vp_rights v AND NOT L4_Writable\<rparr>"

text \<open>\<open>vm_faulted\<close>: a step of the fault handler, which changed no mapping.\<close>

definition vm_faulted :: "vm \<Rightarrow> vm \<Rightarrow> bool" where
  "vm_faulted s s' \<longleftrightarrow> spaces s' = spaces s \<and> next_ptr s' = next_ptr s \<and> vm_self s' = vm_self s"

lemma new_anon_faulted: "new_anon_page r v bs s = Some (v1, s1) \<Longrightarrow> vm_faulted s s1 \<and> vps s1 = vps s"
  by (auto simp: new_anon_page_def get_free_pl_def push_active_def vm_faulted_def split: list.splits)

lemma pf_shared_inv:
  assumes inv: "vm_inv P s" and r: "vps s r = None" and v: "vp_empty v" and rd: "reader_ok (vm_self s) rd"
    and mm: "mm_flags mm AND MAP_ANONYMOUS \<noteq> 0 \<longrightarrow> mm_fd_serv mm = vm_self s"
    and f: "pf_mmap_shared rd mm r v s = Some (Inr (v1, s1))" and v2: "v2 = v1 \<or> v2 = vp_read_only v1"
  shows "vm_inv P (s1\<lparr>vps := (vps s1)(r \<mapsto> v2)\<rparr>) \<and> vm_faulted s s1"
proof -
  define a bump where "a = vp_addr r" and "bump = drop_bit 12 (a - mm_addr mm)"
  obtain p s0 where c: "vm_inv P s0" "p \<in> set (page_cache s0)" "vps s0 r = None" "vm_faulted s s0"
    and b: "if is_tail mm a then new_anon_page r v (tail_fill (mm_tailsz mm) (mem s0 p)) s0 = Some (v1, s1)
      else v1 = v\<lparr>vp_status := p, vp_is_shared := True\<rparr> \<and> s1 = add_share p r s0"
  proof (cases "find_cached_page mm bump s")
    case (Some p)
    then have "p \<in> set (page_cache s)" by (auto simp: find_cached_page_def find_Some_iff)
    then show thesis using that [of s p] inv r f Some
      by (auto simp: pf_mmap_shared_def Let_def a_def bump_def vm_faulted_def split: if_splits)
  next
    case None
    then obtain p s0 where l: "load_cached_page rd mm bump (mm_offset mm * 4096 + (a - mm_addr mm)) s = Some (Inr (p, s0))"
      using f by (auto simp: pf_mmap_shared_def Let_def a_def bump_def split: option.splits sum.splits)
    note L = load_cached_page_inv [OF inv l load_cached_nonzero [OF l rd mm]]
    have "vm_faulted s s0" using l by (auto simp: load_cached_page_def get_free_pl_def vm_faulted_def split: list.splits sum.splits if_splits)
    then show thesis using that [of s0 p] L r f None l
      by (auto simp: pf_mmap_shared_def Let_def a_def bump_def split: if_splits)
  qed
  have fl: "vp_status v2 = vp_status v1" "vp_is_anon v2 = vp_is_anon v1" "vp_is_shared v2 = vp_is_shared v1"
    "vp_is_cow v2 \<longrightarrow> vp_is_cow v1 \<or> \<not> vp_writable v2"
    using v2 by (auto simp: vp_read_only_def vp_writable_def)
  show ?thesis
  proof (cases "is_tail mm a")
    case True
    then have n: "new_anon_page r v (tail_fill (mm_tailsz mm) (mem s0 p)) s0 = Some (v1, s1)" using b by simp
    have "vp_is_anon v1" "\<not> vp_is_shared v1" "\<not> vp_is_cow v1" using n v by (auto simp: new_anon_page_def vp_empty_def split: option.splits)
    then have "vm_inv P (s1\<lparr>vps := (vps s1)(r \<mapsto> v2)\<rparr>)" using fl by (intro new_anon_page_inv [OF c(1,3) n]) auto
    then show ?thesis using new_anon_faulted [OF n] c(4) by (auto simp: vm_faulted_def)
  next
    case False
    then have n: "v1 = v\<lparr>vp_status := p, vp_is_shared := True\<rparr>" "s1 = add_share p r s0" using b by auto
    have "vm_inv P ((add_share p r s0)\<lparr>vps := (vps s0)(r \<mapsto> v2)\<rparr>)"
      by (rule add_share_inv [OF c(1,3,2)]) (use fl n v in \<open>auto simp: vp_empty_def\<close>)
    moreover have "vps (add_share p r s0) = vps s0" "vm_faulted s0 (add_share p r s0)" by (auto simp: add_share_def vm_faulted_def)
    ultimately show ?thesis using n c(4) by (auto simp: vm_faulted_def)
  qed
qed

lemma pf_private_inv:
  assumes inv: "vm_inv P s" and r: "vps s r = None" and v: "vp_empty v" and rd: "reader_ok (vm_self s) rd"
    and mm: "mm_flags mm AND MAP_ANONYMOUS = 0"
    and f: "pf_mmap_private rd mm r v s = Some (Inr (v1, s1))"
  shows "\<exists>bs s0. vm_inv P s0 \<and> vps s0 = vps s \<and> vm_faulted s s0 \<and> new_anon_page r v bs s0 = Some (v1, s1)"
proof -
  define a bump where "a = vp_addr r" and "bump = drop_bit 12 (a - mm_addr mm)"
  show ?thesis
  proof (cases "find_cached_page mm bump s")
    case (Some p)
    then have "\<exists>bs. new_anon_page r v bs s = Some (v1, s1)"
      using f by (auto simp: pf_mmap_private_def fetch_cached_page_def Let_def a_def bump_def split: option.splits)
    then show ?thesis using inv by (auto simp: vm_faulted_def)
  next
    case None
    then obtain p s0 where l: "load_cached_page rd mm bump ((mm_offset mm + bump) * 4096) s = Some (Inr (p, s0))"
      using f by (auto simp: pf_mmap_private_def fetch_cached_page_def Let_def a_def bump_def split: option.splits sum.splits)
    note L = load_cached_page_inv [OF inv l load_cached_nonzero [OF l rd]]
    let ?s = "s0\<lparr>powner := (powner s0)(p := Some r)\<rparr>"
    obtain bs s2 where n: "new_anon_page r v bs ?s = Some (v1, s2)" "s1 = s2\<lparr>powner := (powner s2)(p := None)\<rparr>"
      using f None l by (auto simp: pf_mmap_private_def fetch_cached_page_def Let_def a_def [symmetric] bump_def [symmetric] split: option.splits if_splits)
    obtain q qs where q: "page_free_list s0 = q # qs" "v1 = v\<lparr>vp_status := q, vp_is_anon := True\<rparr>"
      "s2 = push_active q (?s\<lparr>page_free_list := qs, mem := (mem s0)(q := bs), powner := (powner ?s)(q := Some r)\<rparr>)"
      using n(1) by (auto simp: new_anon_page_def get_free_pl_def split: list.splits)
    have "vm_inv P s0" "p \<in> set (page_cache s0)" using L mm by auto
    then have "q \<noteq> p" using q(1) by (auto simp: vm_inv_def inv_lists_def)
    moreover have "powner s0 p = None" using L(4,5) mm by simp
    ultimately have "((powner s0)(p := Some r, q := Some r))(p := None) = (powner s0)(q := Some r)" by (auto simp: fun_eq_iff)
    then have "new_anon_page r v bs s0 = Some (v1, s1)"
      using q n(2) by (simp add: new_anon_page_def get_free_pl_def push_active_def)
    moreover have "vm_faulted s s0" using l by (auto simp: load_cached_page_def get_free_pl_def vm_faulted_def split: list.splits sum.splits if_splits)
    ultimately show ?thesis using L(1,3) mm by blast
  qed
qed

lemma vm_pf_new_inv:
  assumes inv: "vm_inv P s" and r: "vps s (Vp pid page) = None" and rd: "reader_ok (vm_self s) rd"
    and mm: "IS_ANON_MMAP mm \<longrightarrow> mm_fd_serv mm = vm_self s" and f: "vm_pf_new rd pid page rwx mm s = Some (res, s')"
  shows "vm_inv P s' \<and> vm_faulted s s'"
proof -
  let ?r = "Vp pid page"
  define v where "v = \<lparr>vp_rights = mm_rights mm, vp_is_shared = False, vp_is_anon = False, vp_is_cow = False, vp_status = 0\<rparr>"
  have v: "vp_empty v" by (simp add: v_def vp_empty_def)
  note F = f [unfolded vm_pf_new_def Let_def v_def [symmetric]]
  have new: "vm_inv P s' \<and> vm_faulted s s'"
    if "vm_inv P s0" "vps s0 = vps s" "vm_faulted s s0" "new_anon_page ?r v bs s0 = Some (v1, s1)" "s' = s1\<lparr>vps := (vps s1)(?r \<mapsto> v1)\<rparr>" for bs s0 v1 s1
  proof -
    have "vp_is_anon v1" "\<not> vp_is_shared v1" "\<not> vp_is_cow v1" using that(4) v by (auto simp: new_anon_page_def vp_empty_def split: option.splits)
    then have "vm_inv P s'" unfolding that(5) using r that(2) by (intro new_anon_page_inv [OF that(1) _ that(4)]) auto
    then show ?thesis using new_anon_faulted [OF that(4)] that(3,5) by (auto simp: vm_faulted_def)
  qed
  consider (shared) "mm_flags mm AND MAP_SHARED \<noteq> 0 \<or> \<not> rwx AND L4_Writable \<noteq> 0 \<and> \<not> mm_flags mm AND MAP_ANONYMOUS \<noteq> 0"
    | (anon) "mm_flags mm AND MAP_SHARED = 0" "mm_flags mm AND MAP_ANONYMOUS \<noteq> 0"
    | (priv) "mm_flags mm AND MAP_SHARED = 0" "rwx AND L4_Writable \<noteq> 0" "mm_flags mm AND MAP_ANONYMOUS = 0" by blast
  then show ?thesis
  proof cases
    case shared
    then have "mm_flags mm AND MAP_SHARED \<noteq> 0 \<or> \<not> rwx AND L4_Writable \<noteq> 0 \<and> \<not> mm_flags mm AND MAP_ANONYMOUS \<noteq> 0 \<longleftrightarrow> True" by blast
    note F' = F [unfolded this if_True]
    obtain v1 s1 where p1: "pf_mmap_shared rd mm ?r v s = Some (Inr (v1, s1))" using F' by (auto split: option.splits sum.splits)
    define v2 where "v2 = (if \<not> rwx AND L4_Writable \<noteq> 0 \<and> vp_writable v1 then vp_read_only v1 else v1)"
    have p: "pf_mmap_shared rd mm ?r v s = Some (Inr (v1, s1))" "v2 = v1 \<or> v2 = vp_read_only v1" "s' = s1\<lparr>vps := (vps s1)(?r \<mapsto> v2)\<rparr>"
      using F' p1 by (auto simp: v2_def vp_read_only_def)
    have "mm_flags mm AND MAP_ANONYMOUS \<noteq> 0 \<longrightarrow> mm_fd_serv mm = vm_self s" using shared mm by (auto simp: IS_ANON_MMAP_def)
    from pf_shared_inv [OF inv r v rd this p(1,2)] show ?thesis using p(3) by (auto simp: vm_faulted_def)
  next
    case anon
    then obtain v1 s1 where "new_anon_page ?r v (replicate PAGE_SIZE 0) s = Some (v1, s1)" "s' = s1\<lparr>vps := (vps s1)(?r \<mapsto> v1)\<rparr>"
      using F by (auto split: option.splits)
    then show ?thesis using new [of s] inv by (auto simp: vm_faulted_def)
  next
    case priv
    then obtain v1 s1 where p: "pf_mmap_private rd mm ?r v s = Some (Inr (v1, s1))" "s' = s1\<lparr>vps := (vps s1)(?r \<mapsto> v1)\<rparr>"
      using F by (auto split: option.splits sum.splits)
    then show ?thesis using pf_private_inv [OF inv r v rd priv(3) p(1)] new by blast
  qed
qed

section \<open>Fork\<close>

lemma vp_cow_copy_flags:
  "vp_status (vp_cow_copy v) = vp_status v" "vp_is_anon (vp_cow_copy v) = vp_is_anon v" "vp_is_shared (vp_cow_copy v) = vp_is_shared v"
  "\<not> vp_writable (vp_cow_copy v)" "vp_is_cow (vp_cow_copy v) = (vp_is_cow v \<or> vp_writable v)"
  by (simp_all add: vp_cow_copy_def vp_writable_def)

text \<open>Both processes have the page, copy-on-write.\<close>

lemma fork_page_inv:
  assumes inv: "vm_inv P s" and v: "vps s r = Some v" "vp_is_anon v" and d: "vps s d = None"
    and w: "vp_status w = vp_status v" "vp_is_anon w" "\<not> vp_is_shared w" "vp_is_cow w" "\<not> vp_writable w"
    and c: "vp_status c = vp_status v" "vp_is_anon c" "\<not> vp_is_shared c" "vp_is_cow c" "\<not> vp_writable c"
  shows "vm_inv P (add_share (vp_status v) d (s\<lparr>vps := (vps s)(d \<mapsto> c, r \<mapsto> w)\<rparr>))"
proof -
  let ?p = "vp_status v" and ?s = "add_share (vp_status v) d (s\<lparr>vps := (vps s)(d \<mapsto> c, r \<mapsto> w)\<rparr>)"
  have l: "inv_lists P s" "inv_free s" "inv_refs s" "inv_active s" "inv_flags s" "inv_private s" "inv_cache s" using inv by (auto simp: vm_inv_def)
  have rd: "r \<noteq> d" using v d by auto
  have pa: "?p \<in> set (page_active_list s)" using vm_inv_vp(5) [OF inv v(1)] v(2) by simp
  note nw = vm_inv_new [OF inv d]
  have vs: "vps ?s = (vps s)(d \<mapsto> c, r \<mapsto> w)" "page_active_list ?s = page_active_list s" "page_cache ?s = page_cache s" "page_free_list ?s = page_free_list s" "links ?s = links s"
    by (simp_all add: add_share_def)
  have who: "r' = d \<and> x = c \<or> r' = r \<and> x = w \<or> r' \<noteq> d \<and> r' \<noteq> r \<and> vps s r' = Some x" if "vps ?s r' = Some x" for r' x
    using that unfolding vs by (auto split: if_splits)
  have ref: "\<exists>x. vps s r' = Some x \<and> vp_status x = p'" if "powner s p' = Some r'" for p' r' using l(3) that unfolding inv_refs_def by blast
  have "inv_lists P ?s" "inv_cache ?s" using l(1,7) by (auto simp: inv_lists_def inv_cache_def vs)
  moreover have "inv_free ?s" using l(1,2) pa by (auto simp: inv_free_def add_share_def inv_lists_def)
  moreover have "inv_refs ?s" unfolding inv_refs_def
  proof (intro conjI allI impI ballI)
    show "distinct (share_table ?s)" using l(3) nw by (simp add: add_share_def inv_refs_def)
    fix r' x assume x: "vps ?s r' = Some x"
    show "vp_status x \<in> set (page_active_list ?s) \<union> set (page_cache ?s)" using who [OF x] vm_inv_vp(1) [OF inv] w(1) c(1) pa by (auto simp: vs)
    show "(powner ?s (vp_status x) = Some r') = (r' \<notin> set (share_table ?s))"
      using who [OF x] vm_inv_vp(2) [OF inv v(1)] vm_inv_vp(2) [OF inv, of r' x] w(1) c(1) nw rd by (auto simp: add_share_def)
  next
    fix r' assume "r' \<in> set (share_table ?s)"
    then show "vps ?s r' \<noteq> None" using l(3) by (auto simp: vs inv_refs_def add_share_def split: if_splits)
  next
    fix p' r' assume "powner ?s p' = Some r'"
    then have "p' = ?p \<and> r' = d \<or> powner s p' = Some r'" by (auto simp: add_share_def split: if_splits)
    then show "\<exists>x. vps ?s r' = Some x \<and> vp_status x = p'"
    proof
      assume o: "powner s p' = Some r'"
      then obtain x where "vps s r' = Some x" "vp_status x = p'" using ref by blast
      then show ?thesis using nw(2) [of p'] o v(1) w(1) unfolding vs by (cases "r' = r") auto
    qed (use c(1) rd in \<open>auto simp: vs\<close>)
  qed
  moreover have "inv_active ?s" unfolding inv_active_def vs(2)
  proof
    fix p' assume "p' \<in> set (page_active_list s)"
    then obtain r' x where x: "vps s r' = Some x" "vp_status x = p'" using l(4) by (auto simp: inv_active_def)
    then show "\<exists>r' x. vps ?s r' = Some x \<and> vp_status x = p'"
      using d v(1) w(1) unfolding vs by (intro exI [of _ r'] exI [of _ "if r' = r then w else x"]) auto
  qed
  moreover have "inv_flags ?s" unfolding inv_flags_def
  proof (intro allI impI conjI)
    fix r' x assume x: "vps ?s r' = Some x"
    show "vp_is_cow x \<Longrightarrow> \<not> vp_writable x" using who [OF x] vm_inv_vp(3) [OF inv] w c by auto
    show "vp_is_anon x = (\<not> vp_is_shared x)" using who [OF x] vm_inv_vp(4) [OF inv] w c by auto
    show "vp_is_anon x = (vp_status x \<in> set (page_active_list ?s))" using who [OF x] vm_inv_vp(5) [OF inv] w c pa by (auto simp: vs)
  qed
  moreover have "inv_private ?s" unfolding inv_private_def
  proof (intro allI impI conjI)
    fix r1 w1 r2 w2 assume x: "vps ?s r1 = Some w1" and a: "vp_is_anon w1" "\<not> vp_is_cow w1"
    then have w1: "r1 \<noteq> d" "r1 \<noteq> r" "vps s r1 = Some w1" using who [OF x] w(4) c(4) by auto
    then have np: "vp_status w1 \<noteq> ?p" using vm_inv_vp(6) [OF inv w1(3) a v(1)] by auto
    show "powner ?s (vp_status w1) = Some r1" using vm_inv_vp(7) [OF inv w1(3) a] np by (auto simp: add_share_def)
    assume y: "vps ?s r2 = Some w2" "vp_status w2 = vp_status w1"
    then show "r2 = r1" using who [OF y(1)] vm_inv_vp(6) [OF inv w1(3) a] np w(1) c(1) by auto
  qed
  ultimately show ?thesis by (simp add: vm_inv_def)
qed

lemma fork_pages_inv:
  "vm_inv P s \<Longrightarrow> distinct as \<Longrightarrow> \<forall>a \<in> set as. vps s (Vp dest a) = None \<Longrightarrow> src \<noteq> dest
   \<Longrightarrow> fork_pages ok src dest as s = Some res \<Longrightarrow> \<exists>s'. (res = Inl s' \<or> res = Inr s') \<and> vm_inv P s' \<and> vm_faulted s s'"
proof (induction as arbitrary: s)
  case Nil
  then show ?case by (auto simp: vm_faulted_def)
next
  case (Cons a as)
  obtain v where v: "vps s (Vp src a) = Some v" "vp_is_cow v \<noteq> vp_writable v" using Cons.prems(5) by (auto split: option.splits if_splits)
  consider (oom) "\<not> ok a" "res = Inl s" | (skip) "fork_pages ok src dest as s = Some res"
    | (copy) "ok a" "vp_is_anon v" "\<not> vp_is_shared v"
  proof (cases "ok a")
    case False
    then show ?thesis using that(1) Cons.prems(5) v by simp
  next
    case True
    then show ?thesis using that(2,3) Cons.prems(5) v vm_inv_vp(4) [OF Cons.prems(1) v(1)]
      by (cases "vp_is_anon v") simp_all
  qed
  then show ?case
  proof cases
    case oom
    then show ?thesis using Cons.prems(1) by (auto simp: vm_faulted_def)
  next
    case skip
    then show ?thesis using Cons.IH [OF Cons.prems(1)] Cons.prems(2-4) by auto
  next
    case copy
    define unmap where "unmap \<longleftrightarrow> \<not> vp_is_cow v \<and> vp_writable v"
    define w where "w = (if unmap then vp_cow_copy v else v)"
    define s1 where "s1 = add_share (vp_status v) (Vp dest a) (s\<lparr>vps := (vps s)(Vp dest a \<mapsto> vp_cow_copy v, Vp src a \<mapsto> w)\<rparr>)"
    define s2 where "s2 = (if unmap then s1\<lparr>unmaps := (vp_status v, L4_Writable) # unmaps s1\<rparr> else s1)"
    have r: "fork_pages ok src dest as s2 = Some res"
      using Cons.prems(5) v copy unfolding s2_def s1_def w_def by (simp add: unmap_def [symmetric] Let_def)
    have w: "vp_status w = vp_status v" "vp_is_anon w" "\<not> vp_is_shared w" "vp_is_cow w" "\<not> vp_writable w"
      using v(2) copy vp_cow_copy_flags [of v] by (auto simp: w_def unmap_def)
    have "vm_inv P s1" unfolding s1_def
      by (rule fork_page_inv [OF Cons.prems(1) v(1) copy(2) _ w]) (use Cons.prems(3) v(2) copy vp_cow_copy_flags [of v] in auto)
    then have i: "vm_inv P s2" by (simp add: s2_def)
    have f: "vm_faulted s s2" by (simp add: s2_def s1_def add_share_def vm_faulted_def)
    have "\<forall>b \<in> set as. vps s2 (Vp dest b) = None" using Cons.prems(2-4) by (auto simp: s2_def s1_def add_share_def)
    from Cons.IH [OF i _ this Cons.prems(4) r] show ?thesis using Cons.prems(2) f by (auto simp: vm_faulted_def)
  qed
qed

definition mm_copies :: "lazy_mmap list \<Rightarrow> lazy_mmap list \<Rightarrow> bool" where
  "mm_copies = list_all2 (\<lambda>m c. \<exists>p. c = m\<lparr>mm_ptr := p\<rparr>)"

lemma mm_ptr_upd [simp]:
  "mm_start (m\<lparr>mm_ptr := p\<rparr>) = mm_start m" "mm_end (m\<lparr>mm_ptr := p\<rparr>) = mm_end m" "IS_ANON_MMAP (m\<lparr>mm_ptr := p\<rparr>) = IS_ANON_MMAP m"
  "mm_below (m\<lparr>mm_ptr := p\<rparr>) m' = mm_below m m'" "mm_below m' (m\<lparr>mm_ptr := p\<rparr>) = mm_below m' m"
  by (simp_all add: mm_start_def mm_end_def IS_ANON_MMAP_def mm_below_def)

lemma fork_maps_inv:
  assumes "vm_inv P s" "spaces_ok s" "spaces s dest = Some sp" "mm_list_ok ms" "\<forall>d \<in> set (rb_keys (maps sp)). \<forall>m \<in> set ms. mm_below d m"
    "\<forall>m \<in> set ms. IS_ANON_MMAP m \<longrightarrow> mm_fd_serv m = vm_self s"
  shows "\<exists>s' sp' cs. (fork_maps ok dest ms s = Some (Inr s') \<and> mm_copies ms cs \<and> rb_keys (maps sp') = rb_keys (maps sp) @ cs
        \<or> fork_maps ok dest ms s = Some (Inl s') \<and> (\<exists>m \<in> set ms. \<not> ok m))
    \<and> vm_inv P s' \<and> spaces_ok s' \<and> vps s' = vps s \<and> vm_self s' = vm_self s \<and> mem s' = mem s \<and> spaces s' = (spaces s)(dest \<mapsto> sp') \<and> sp_same sp sp'
    \<and> (\<forall>c \<in> set (rb_keys (maps sp')). c \<in> set (rb_keys (maps sp)) \<or> (\<exists>m \<in> set ms. \<exists>p. c = m\<lparr>mm_ptr := p\<rparr>))"
  using assms
proof (induction ms arbitrary: s sp)
  case Nil
  have "spaces s = (spaces s)(dest \<mapsto> sp)" using Nil.prems(3) by (simp add: fun_upd_idem)
  then show ?case using Nil.prems by (intro exI [of _ s] exI [of _ sp] exI [of _ "[]"]) (auto simp: mm_copies_def sp_same_def)
next
  case (Cons m ms)
  show ?case
  proof (cases "ok m")
    case False
    have "spaces s = (spaces s)(dest \<mapsto> sp)" using Cons.prems(3) by (simp add: fun_upd_idem)
    then show ?thesis using Cons.prems False by (intro exI [of _ s] exI [of _ sp] exI [of _ "[]"]) (auto simp: sp_same_def)
  next
    case True
    let ?c = "m\<lparr>mm_ptr := next_ptr s\<rparr>" and ?ds = "rb_keys (maps sp)"
    define s1 where "s1 = s\<lparr>next_ptr := Suc (next_ptr s), anon_mmap_table := (if IS_ANON_MMAP ?c then (dest, mm_ptr ?c) # anon_mmap_table s else anon_mmap_table s)\<rparr>"
    have so: "space_ok (next_ptr s) (vm_self s) sp" by (rule spaces_ok_space [OF Cons.prems(2,3)])
    have mo: "maps_ok (maps sp)" "\<forall>d \<in> set ?ds. mm_ptr d < next_ptr s" using so by (auto simp: space_ok_def mm_known_def)
    have cm: "mm_ok ?c" using Cons.prems(2,4) by (auto simp: mm_list_simps mm_ok_def spaces_ok_def)
    have "mm_list_ok (?ds @ [?c])" using mo Cons.prems(5) cm by (auto simp: maps_ok_def mm_list_simps)
    then obtain t where t: "insert_lazy_mmap ?c (maps sp) = Some (Inr t)" "maps_ok t" "rb_keys t = ?ds @ [?c]"
      using insert_between [OF mo(1), of ?ds "[]" ?c] by auto
    define s2 where "s2 = set_space dest (sp\<lparr>maps := t\<rparr>) s1"
    have ok1: "spaces_ok s1" by (rule spaces_ok_next [OF Cons.prems(2)]) (simp_all add: s1_def)
    have ok2: "spaces_ok s2" unfolding s2_def
      by (rule insert_space_ok [OF ok1 _ t(1) cm])
        (use Cons.prems(3,6) mo(2) in \<open>auto simp: s1_def mm_known_def\<close>)
    have f2: "fork_maps ok dest (m # ms) s = fork_maps ok dest ms s2"
      using True Cons.prems(3,6) t(1) by (auto simp: s2_def s1_def Let_def)
    have v2: "vm_inv P s2" "vps s2 = vps s" "vm_self s2 = vm_self s" "mem s2 = mem s" "spaces s2 = (spaces s)(dest \<mapsto> sp\<lparr>maps := t\<rparr>)"
      using Cons.prems(1) by (auto simp: s2_def s1_def set_space_def)
    have k: "spaces s2 dest = Some (sp\<lparr>maps := t\<rparr>)" "mm_list_ok ms" "\<forall>m \<in> set ms. IS_ANON_MMAP m \<longrightarrow> mm_fd_serv m = vm_self s2"
      "\<forall>d \<in> set (rb_keys (maps (sp\<lparr>maps := t\<rparr>))). \<forall>m \<in> set ms. mm_below d m"
      using Cons.prems(4-6) v2 t(3) by (auto simp: mm_list_simps)
    obtain s' sp' cs where IH: "fork_maps ok dest ms s2 = Some (Inr s') \<and> mm_copies ms cs \<and> rb_keys (maps sp') = rb_keys (maps (sp\<lparr>maps := t\<rparr>)) @ cs
        \<or> fork_maps ok dest ms s2 = Some (Inl s') \<and> (\<exists>m \<in> set ms. \<not> ok m)"
      "vm_inv P s'" "spaces_ok s'" "vps s' = vps s2" "vm_self s' = vm_self s2" "mem s' = mem s2" "spaces s' = (spaces s2)(dest \<mapsto> sp')" "sp_same (sp\<lparr>maps := t\<rparr>) sp'"
      "\<forall>c \<in> set (rb_keys (maps sp')). c \<in> set (rb_keys (maps (sp\<lparr>maps := t\<rparr>))) \<or> (\<exists>m \<in> set ms. \<exists>p. c = m\<lparr>mm_ptr := p\<rparr>)"
      using Cons.IH [OF v2(1) ok2 k(1,2,4,3)] by blast
    show ?thesis unfolding f2
      by (rule exI [of _ s'], rule exI [of _ sp'], rule exI [of _ "?c # cs"])
        (use IH v2 t(3) in \<open>auto simp: mm_copies_def sp_same_def\<close>)
  qed
qed

end
