(* ===== verification/Vm_Reach.thy ===== *)
theory Vm_Reach
  imports Vm_Steps
begin

text \<open>
  The states of the virtual memory server that its calls and faults can reach, and the writes of the processes it serves.
\<close>

section \<open>What every call keeps\<close>

definition areas_apart :: "fpage \<times> fpage \<times> fpage \<Rightarrow> bool" where
  "areas_apart = (\<lambda>(kip, utcb, si). kip \<noteq> Nilpage \<longrightarrow> utcb \<noteq> Nilpage \<longrightarrow> \<not> fpage_overlap kip utcb \<and> \<not> fpage_overlap kip si \<and> \<not> fpage_overlap utcb si)"

definition areas_ok :: "vm \<Rightarrow> bool" where
  "areas_ok s \<longleftrightarrow> (\<forall>pid x. map_option sp_areas (spaces s pid) = Some x \<longrightarrow> areas_apart x)"

definition vm_ok :: "nat set \<Rightarrow> vm \<Rightarrow> bool" where
  "vm_ok P s \<longleftrightarrow> vm_inv P s \<and> spaces_ok s \<and> vm_cov s \<and> areas_ok s"

lemma vm_okD: "vm_ok P s \<Longrightarrow> vm_inv P s" "vm_ok P s \<Longrightarrow> spaces_ok s" "vm_ok P s \<Longrightarrow> vm_cov s" "vm_ok P s \<Longrightarrow> areas_ok s"
  by (simp_all add: vm_ok_def)

lemma vm_ok_less: "vm_ok P s \<Longrightarrow> vm_inv P s' \<and> spaces_ok s' \<and> vm_less s s' \<Longrightarrow> vm_ok P s'"
  by (simp add: vm_ok_def vm_less_def areas_ok_def)

lemma areas_ok_frame [simp]: "areas_ok (s\<lparr>next_ptr := x2\<rparr>) = areas_ok s" "areas_ok (s\<lparr>next_anon_ino := x5\<rparr>) = areas_ok s" "areas_ok (s\<lparr>mem := x6\<rparr>) = areas_ok s"
  by (simp_all add: areas_ok_def)

lemma areas_ok_upd: "areas_ok s \<Longrightarrow> spaces s' = (spaces s)(pid \<mapsto> sp') \<Longrightarrow> areas_apart (sp_areas sp') \<Longrightarrow> areas_ok s'"
  unfolding areas_ok_def by (metis fun_upd_apply option.inject option.simps(9))

lemma areas_ok_sp: "areas_ok s \<Longrightarrow> spaces s pid = Some sp \<Longrightarrow> areas_apart (sp_areas sp)"
  unfolding areas_ok_def by (metis option.simps(9))

lemma areas_ok_faulted: "vm_faulted s s' \<Longrightarrow> areas_ok s' = areas_ok s"
  by (simp add: vm_faulted_def areas_ok_def)

lemma vm_ok_space: "vm_ok P s \<Longrightarrow> spaces s pid = Some sp \<Longrightarrow> space_ok (next_ptr s) (vm_self s) sp"
  by (simp add: vm_ok_def spaces_ok_space)

lemma vm_cov_frame [simp]:
  "vm_cov (s\<lparr>next_ptr := x2\<rparr>) = vm_cov s" "vm_cov (s\<lparr>anon_mmap_table := x3\<rparr>) = vm_cov s"
  "vm_cov (s\<lparr>unmaps := x4\<rparr>) = vm_cov s" "vm_cov (s\<lparr>next_anon_ino := x5\<rparr>) = vm_cov s" "vm_cov (s\<lparr>mem := x6\<rparr>) = vm_cov s"
  by (simp_all add: vm_cov_def)

lemma vm_ok_next: "vm_ok P s \<Longrightarrow> next_ptr s \<le> n \<Longrightarrow> vm_ok P (s\<lparr>next_ptr := n\<rparr>)"
  using spaces_ok_next [of s "s\<lparr>next_ptr := n\<rparr>"] by (simp add: vm_ok_def)

lemma vm_ok_ino [simp]: "vm_ok P (s\<lparr>next_anon_ino := n\<rparr>) = vm_ok P s"
  by (simp add: vm_ok_def spaces_ok_def)

text \<open>A change of an address space that leaves its mappings alone.\<close>

lemma vm_ok_set_space:
  assumes "vm_ok P s" "spaces s pid = Some sp" "maps sp' = maps sp" "mmap_bot sp' = mmap_bot sp" "sp_areas sp' = sp_areas sp \<or> areas_apart (sp_areas sp')"
    "last_mmap sp' = 0 \<or> last_mmap sp' \<in> mm_ptr ` set (rb_keys (maps sp))"
  shows "vm_ok P (set_space pid sp' s)"
proof -
  have "space_ok (next_ptr s) (vm_self s) sp'" using vm_ok_space [OF assms(1,2)] assms(3,6) by (simp add: space_ok_def)
  then have "spaces_ok (set_space pid sp' s)"
    using spaces_ok_upd [OF vm_okD(2) [OF assms(1)], of "next_ptr s" sp' "set_space pid sp' s" pid] by (simp add: set_space_def)
  moreover have "vm_cov (set_space pid sp' s)"
  proof (rule vm_cov_mono [OF vm_okD(3) [OF assms(1)]])
    fix p q assume "spaces (set_space pid sp' s) p = Some q"
    then obtain q' where "spaces s p = Some q'" "maps q = maps q'" "mmap_bot q = mmap_bot q'"
      using assms(2-4) by (auto simp: set_space_def split: if_splits)
    then show "(mmap_bot q + 1) AND 0xfff = 0 \<and> (\<forall>m \<in> set (rb_keys (maps q)). mm_aligned m)"
      using vm_okD(3) [OF assms(1)] unfolding vm_cov_def by metis
  qed (use assms(2,3) in \<open>auto simp: set_space_def\<close>)
  moreover have "areas_ok (set_space pid sp' s)" using assms(5) areas_ok_sp [OF vm_okD(4) [OF assms(1)] assms(2)]
    by (intro areas_ok_upd [OF vm_okD(4) [OF assms(1)], of _ pid sp']) (auto simp: set_space_def)
  ultimately show ?thesis using assms(1) by (simp add: vm_ok_def)
qed

lemma vm_ok_set_brk: "vm_ok P s \<Longrightarrow> vm_ok P (set_brk pid a s)"
  by (auto simp: set_brk_def split: option.split intro!: vm_ok_set_space dest: vm_ok_space simp: space_ok_def)

lemma vm_ok_find:
  assumes "vm_ok P s" "spaces s pid = Some sp"
  obtains l where "find_lazy_mmap (last_mmap sp) (maps sp) a = Some (maps_search a (maps sp), l)" "l = 0 \<or> l \<in> mm_ptr ` set (rb_keys (maps sp))"
    "vm_ok P (set_space pid (sp\<lparr>last_mmap := l\<rparr>) s)"
proof -
  have so: "maps_ok (maps sp)" "last_mmap sp = 0 \<or> last_mmap sp \<in> mm_ptr ` set (rb_keys (maps sp))"
    using vm_ok_space [OF assms] by (auto simp: space_ok_def)
  obtain l where l: "find_lazy_mmap (last_mmap sp) (maps sp) a = Some (maps_search a (maps sp), l)" "l = 0 \<or> l \<in> mm_ptr ` set (rb_keys (maps sp))"
    using find_lazy_mmap_eq [OF so] by blast
  have "vm_ok P (set_space pid (sp\<lparr>last_mmap := l\<rparr>) s)" using l(2) by (intro vm_ok_set_space [OF assms]) auto
  then show ?thesis using that l by blast
qed

section \<open>Mapping and unmapping\<close>

lemma reserve_ok:
  assumes ok: "vm_ok P s" and sp: "spaces s pid = Some sp" and r: "range_ok a len fixed sp"
    and mm: "mm_ptr mm = next_ptr s" "IS_ANON_MMAP mm \<longrightarrow> mm_fd_serv mm = vm_self s" "mm_tailsz mm \<le> PAGE_SIZE"
    and m: "reserve_mmap ht mm pid a len fixed s0 = Some (n, s')"
    and s0: "s0 = s\<lparr>next_ptr := Suc (next_ptr s), next_anon_ino := i\<rparr>"
  shows "vm_ok P s' \<and> vm_less s0 s'"
proof -
  have ok0: "vm_ok P s0" unfolding s0 using vm_ok_next [OF ok] by simp
  have "mm_fresh mm s0" by (rule mm_fresh_new [OF vm_okD(2) [OF ok] mm(1,2)]) (use mm(3) in \<open>simp_all add: s0\<close>)
  from reserve_mmap_inv [OF vm_okD(1,2) [OF ok0 ] _ r this m] sp have "vm_inv P s' \<and> spaces_ok s' \<and> vm_less s0 s'" using ok0 by (simp add: s0)
  then show ?thesis using vm_ok_less [OF ok0] by blast
qed

lemma munmap_ok: "vm_ok P s \<Longrightarrow> munmap_space pid a sz s = Some s' \<Longrightarrow> vm_ok P s'"
  using munmap_space_inv [of P s pid a sz s'] munmap_space_less [of P s pid a sz s'] vm_ok_less [of P s s'] by (auto simp: vm_ok_def)

lemma vm_munmap_ok: "vm_ok P s \<Longrightarrow> vm_munmap sender a sz s = Some (n, s') \<Longrightarrow> vm_ok P s'"
  by (auto simp: vm_munmap_def Let_def split: if_splits option.splits dest: munmap_ok)

lemma flags_low:
  "(push_bit 16 x OR (f AND NOT MAP_FIXED)) AND MAP_ANONYMOUS = f AND MAP_ANONYMOUS" "(push_bit 16 x OR (f AND NOT MAP_FIXED)) AND MAP_SHARED = f AND MAP_SHARED"
  for x f :: u32
proof -
  have n: "bit (0x20 :: u32) i \<longleftrightarrow> i = 5" "bit (0x10 :: u32) i \<longleftrightarrow> i = 4" for i
    using bit_exp_iff [where 'a = "32 word", of 5 i] bit_exp_iff [where 'a = "32 word", of 4 i] by auto
  show "(push_bit 16 x OR (f AND NOT MAP_FIXED)) AND MAP_ANONYMOUS = f AND MAP_ANONYMOUS"
    by (rule bit_word_eqI) (simp only: bit_and_iff bit_or_iff bit_not_iff bit_push_bit_iff n, auto)
  show "(push_bit 16 x OR (f AND NOT MAP_FIXED)) AND MAP_SHARED = f AND MAP_SHARED"
    by (rule bit_word_eqI) (simp only: bit_and_iff bit_or_iff bit_not_iff bit_push_bit_iff bit_1_iff n, auto)
qed

lemma vm_mmap_ok:
  assumes ok: "vm_ok P s" and m: "vm_mmap mem_ok ht touched sender target a len prot flags serv fdno off s = Some (n, s')"
    and r: "\<And>sp. spaces s (if target = 0 then sender else target) = Some sp \<Longrightarrow> range_ok a (PAGE_CEIL len) (flags AND MAP_FIXED \<noteq> 0) sp"
  shows "vm_ok P s'"
proof (cases "s' = s")
  case False
  define t anon shared where "t = (if target = 0 then sender else target)" and "anon \<longleftrightarrow> flags AND MAP_ANONYMOUS \<noteq> 0" and "shared \<longleftrightarrow> flags AND MAP_SHARED \<noteq> 0"
  define mm where "mm = \<lparr>mm_ptr = next_ptr s, mm_addr = 0, mm_length = 0,
              mm_flags = push_bit 16 (ucast (prot_to_l4_rights prot)) OR (flags AND NOT MAP_FIXED),
              mm_fd_serv = (if anon \<and> shared then vm_self s else serv),
              mm_ino = scast (if anon \<and> shared then next_anon_ino s else fdno),
              mm_offset = (if anon \<and> shared then 0 else drop_bit 12 off), mm_tailsz = unat len mod PAGE_SIZE\<rparr>"
  define s0 where "s0 = s\<lparr>next_ptr := Suc (next_ptr s), next_anon_ino := (if anon \<and> shared then next_anon_ino s + 1 else next_anon_ino s)\<rparr>"
  obtain sp n' where sp: "spaces s t = Some sp" and m': "reserve_mmap ht mm t a (PAGE_CEIL len) (flags AND MAP_FIXED \<noteq> 0) s0 = Some (n', s')"
    using m False unfolding vm_mmap_def Let_def t_def [symmetric] anon_def [symmetric] shared_def [symmetric] mm_def [symmetric] s0_def [symmetric]
    by (auto split: if_splits)
  have "IS_ANON_MMAP mm \<longrightarrow> anon \<and> shared" using flags_low [of _ flags] by (auto simp: IS_ANON_MMAP_def mm_def anon_def shared_def)
  moreover have "mm_fd_serv mm = (if anon \<and> shared then vm_self s else serv)" by (simp add: mm_def)
  ultimately have an: "IS_ANON_MMAP mm \<longrightarrow> mm_fd_serv mm = vm_self s" by simp
  have "mm_ptr mm = next_ptr s" "mm_tailsz mm \<le> PAGE_SIZE" by (simp_all add: mm_def less_imp_le)
  then show ?thesis using reserve_ok [OF ok sp r [folded t_def, OF sp] _ an _ m' s0_def] by blast
qed (use ok in simp)

section \<open>The program break\<close>

lemma vm_ok_sz:
  assumes ok: "vm_ok P s" and sp: "spaces s pid = Some sp" "m \<in> set (rb_keys (maps sp))" and a: "a AND 0xfff = 0" "mm_addr m < a" "unat a \<le> mm_end m"
    and r: "remove_vp_range pid a (mm_next m - a) (set_space pid (sp\<lparr>maps := mm_update (m\<lparr>mm_length := a - mm_addr m\<rparr>) (maps sp)\<rparr>) s) = Some s'"
  shows "vm_ok P s'"
proof -
  let ?m = "m\<lparr>mm_length := a - mm_addr m\<rparr>" and ?sp = "sp\<lparr>maps := mm_update (m\<lparr>mm_length := a - mm_addr m\<rparr>) (maps sp)\<rparr>"
  have so: "maps_ok (maps sp)" "last_mmap sp = 0 \<or> last_mmap sp \<in> mm_ptr ` set (rb_keys (maps sp))" "\<forall>m \<in> set (rb_keys (maps sp)). mm_known (next_ptr s) (vm_self s) m"
    using vm_ok_space [OF ok sp(1)] by (auto simp: space_ok_def)
  obtain xs ys where k: "rb_keys (maps sp) = xs @ m # ys" using sp(2) by (auto simp: in_set_conv_decomp)
  have mo: "mm_ok m" "mm_list_ok (xs @ m # ys)" using so(1) k by (auto simp: maps_ok_def mm_list_simps)
  have u: "rb_keys (maps ?sp) = xs @ ?m # ys" "rb_tree (maps ?sp)"
    using mm_update_keys [of "maps sp" xs m ys ?m] so(1) k by (auto simp: maps_ok_def)
  have l: "unat (a - mm_addr m) = unat a - mm_start m" using a(2) by (simp add: mm_start_def unat_sub less_imp_le)
  have e: "mm_start ?m = mm_start m" "mm_end ?m = unat a" "mm_ok ?m" "mm_ptr ?m = mm_ptr m" "unat (mm_next m) = mm_end m" "unat (mm_next m - a) = mm_end m - unat a"
    using l a(2,3) mo(1) mm_words(1) [OF mo(1)] by (auto simp: mm_start_def mm_end_def mm_ok_def word_less_nat_alt unat_sub word_le_nat_alt)
  have "mm_list_ok (xs @ [?m] @ ys)"
    by (rule mm_list_ok_replace [OF mo(2)]) (use e a(3) in \<open>auto simp: mm_list_simps\<close>)
  then have "space_ok (next_ptr s) (vm_self s) ?sp" using u so(2,3) k by (auto simp: space_ok_def maps_ok_def mm_known_def)
  then have ok1: "spaces_ok (set_space pid ?sp s)"
    using spaces_ok_upd [OF vm_okD(2) [OF ok], of "next_ptr s" ?sp "set_space pid ?sp s" pid] by (simp add: set_space_def)
  obtain s'' where "remove_vps pid (pages_of a (mm_next m - a)) (set_space pid ?sp s) = Some s''" "vm_inv P s''" "vm_same (set_space pid ?sp s) s''"
    "vps s'' = (\<lambda>r. if vp_pid r = pid \<and> vp_addr r \<in> set (pages_of a (mm_next m - a)) then None else vps (set_space pid ?sp s) r)"
    using remove_vps_inv [of P "set_space pid ?sp s"] vm_okD(1) [OF ok] by force
  then have s': "vm_inv P s'" "vm_same (set_space pid ?sp s) s'" "\<And>r. vps s' r = (if vp_pid r = pid \<and> vp_addr r \<in> set (pages_of a (mm_next m - a)) then None else vps s r)"
    using r by (simp_all add: remove_vp_range_def set_space_def)
  have sps: "spaces s' = (spaces s)(pid \<mapsto> ?sp)" using s'(2) by (simp add: vm_same_def set_space_def)
  have "vm_cov s'" unfolding vm_cov_def
  proof (intro conjI allI impI)
    fix p q assume "spaces s' p = Some q"
    then show "(mmap_bot q + 1) AND 0xfff = 0" "\<forall>m \<in> set (rb_keys (maps q)). mm_aligned m"
      using vm_okD(3) [OF ok] sp(1) u(1) k unfolding sps vm_cov_def by (auto simp: mm_aligned_def split: if_splits)
  next
    fix r assume r: "vps s' r \<noteq> None"
    then obtain q c where q: "vp_addr r AND 0xfff = 0" "spaces s (vp_pid r) = Some q" "c \<in> set (rb_keys (maps q))" "mm_has c (unat (vp_addr r))"
      "\<not> (vp_pid r = pid \<and> vp_addr r \<in> set (pages_of a (mm_next m - a)))" using vm_okD(3) [OF ok] s'(3) [of r] by (auto simp: vm_cov_def split: if_splits)
    show "vp_addr r AND 0xfff = 0" by fact
    show "\<exists>sp. spaces s' (vp_pid r) = Some sp \<and> (\<exists>m \<in> set (rb_keys (maps sp)). mm_has m (unat (vp_addr r)))"
    proof (cases "vp_pid r = pid")
      case True
      then have c: "c \<in> set (xs @ m # ys)" using q(2,3) sp(1) k by simp
      have "\<not> (unat a \<le> unat (vp_addr r) \<and> unat (vp_addr r) < mm_end m)"
        using q(5) True pages_of_has [OF a(1) q(1), of "mm_next m - a"] e(6) a(3) by auto
      then have "c = m \<Longrightarrow> mm_has ?m (unat (vp_addr r))" using q(4) e(1,2) by (auto simp: mm_has_def)
      then have "\<exists>m \<in> set (rb_keys (maps ?sp)). mm_has m (unat (vp_addr r))" using c q(4) unfolding u(1) by auto
      then show ?thesis using True by (simp add: sps)
    qed (use q(2-4) sps in auto)
  qed
  moreover have "areas_ok s'" using areas_ok_sp [OF vm_okD(4) [OF ok] sp(1)] by (intro areas_ok_upd [OF vm_okD(4) [OF ok] sps]) simp
  ultimately show ?thesis using s'(1) ok1 spaces_ok_same [OF s'(2)] by (simp add: vm_ok_def)
qed

lemma brk_shrink_ok:
  assumes ok: "vm_ok P s" and sp: "spaces s pid = Some sp" and a: "a AND 0xfff = 0" "a \<le> brk sp" and b: "brk_shrink pid sp a s = Some s'"
  shows "vm_ok P s'"
proof -
  obtain l where l: "find_lazy_mmap (last_mmap sp) (maps sp) (brk sp - 1) = Some (maps_search (brk sp - 1) (maps sp), l)"
    "vm_ok P (set_space pid (sp\<lparr>last_mmap := l\<rparr>) s)" by (rule vm_ok_find [OF ok sp])
  let ?s = "set_space pid (sp\<lparr>last_mmap := l\<rparr>) s"
  have ss: "set_space pid q ?s = set_space pid q s" for q by (simp add: set_space_def)
  consider "munmap_space pid a (brk sp - a) ?s = Some s'"
    | mm where "maps_search (brk sp - 1) (maps sp) = Some mm" "mm_addr mm < a" "mm_next mm = brk sp"
      "remove_vp_range pid a (brk sp - a) (set_space pid (sp\<lparr>last_mmap := l, maps := mm_update (mm\<lparr>mm_length := a - mm_addr mm\<rparr>) (maps sp)\<rparr>) ?s) = Some s'"
    using b l(1) by (auto simp: brk_shrink_def Let_def split: if_splits option.splits)
  then show ?thesis
  proof cases
    case 1
    then show ?thesis using munmap_ok l(2) by blast
  next
    case (2 mm)
    have "mm_list_ok (rb_keys (maps sp))" using vm_ok_space [OF ok sp] by (simp add: space_ok_def maps_ok_def)
    then have m: "mm \<in> set (rb_keys (maps sp))" "mm_ok mm" using maps_search_Some 2(1) by (auto simp: mm_list_ok_def)
    have "unat a \<le> mm_end mm" using a(2) mm_words(1) [OF m(2)] 2(3) by (simp add: word_le_nat_alt)
    then show ?thesis using vm_ok_sz [OF l(2), of pid "sp\<lparr>last_mmap := l\<rparr>" mm a s'] m(1) a(1) 2(2-4) by (simp add: set_space_def)
  qed
qed

text \<open>The mapping found at the break never ends there, so growing always reserves a new range.\<close>

lemma brk_grow_ok:
  assumes ok: "vm_ok P s" and sp: "spaces s pid = Some sp" and a: "brk sp < a" and b: "brk_grow mem_ok pid sp a s = Some (n, s')"
  shows "vm_ok P s'"
proof -
  obtain l where l: "find_lazy_mmap (last_mmap sp) (maps sp) (brk sp) = Some (maps_search (brk sp) (maps sp), l)"
    "vm_ok P (set_space pid (sp\<lparr>last_mmap := l\<rparr>) s)" by (rule vm_ok_find [OF ok sp])
  let ?s = "set_space pid (sp\<lparr>last_mmap := l\<rparr>) s" and ?sp = "sp\<lparr>last_mmap := l\<rparr>"
  let ?mm = "\<lparr>mm_ptr = next_ptr ?s, mm_addr = 0, mm_length = 0, mm_flags = 0x70022, mm_fd_serv = L4_nilthread, mm_ino = 0, mm_offset = 0, mm_tailsz = 0\<rparr>"
  have "mm_next mm \<noteq> brk sp" if "maps_search (brk sp) (maps sp) = Some mm" for mm
  proof -
    have "mm_list_ok (rb_keys (maps sp))" using vm_ok_space [OF ok sp] by (simp add: space_ok_def maps_ok_def)
    then have "mm_ok mm" "mm_has mm (unat (brk sp))" using maps_search_Some that by (auto simp: mm_list_ok_def)
    then show ?thesis using mm_words(1) [of mm] by (auto simp: mm_has_def)
  qed
  then consider "s' = ?s" | n' where "reserve_mmap True ?mm pid (brk sp) (a - brk sp) True (?s\<lparr>next_ptr := Suc (next_ptr ?s)\<rparr>) = Some (n', s')"
    using b l(1) by (auto simp: brk_grow_def Let_def split: if_splits option.splits)
  then show ?thesis
  proof cases
    case (2 n')
    have "unat (a - brk sp) = unat a - unat (brk sp)" using a by (simp add: unat_sub less_imp_le)
    then have "range_ok (brk sp) (a - brk sp) True ?sp" using a unsigned_less [of a] by (simp add: range_ok_def word_less_nat_alt)
    then show ?thesis
      using reserve_ok [OF l(2), of pid ?sp "brk sp" "a - brk sp" True ?mm True _ n' s' "next_anon_ino ?s"] 2
      by (simp add: set_space_def IS_ANON_MMAP_def)
  qed (use l(2) in simp)
qed

lemma vm_brk_ok:
  assumes ok: "vm_ok P s" and b: "vm_brk mem_ok sender a s = Some (n, s')"
  shows "vm_ok P s'"
proof -
  define c where "c = PAGE_CEIL (if (if a < 0x10000 then 0x10000 else a) > user_addr_max s then user_addr_max s else if a < 0x10000 then 0x10000 else a)"
  have al: "c AND 0xfff = 0" unfolding c_def by (rule PAGE_CEIL_aligned)
  note B = b [unfolded vm_brk_def Let_def c_def [symmetric]]
  show ?thesis
  proof (cases "sender \<ge> 32767")
    case False
    then obtain sp where sp: "spaces s sender = Some sp" using B by (auto split: option.splits)
    note B' = B [unfolded sp option.case, simplified False if_False]
    show ?thesis
    proof (cases "brk sp \<noteq> 0 \<and> brk sp < c")
      case True
      then obtain n1 s1 where g: "brk_grow mem_ok sender sp c s = Some (n1, s1)" "s' = s1 \<or> s' = set_brk sender c s1"
        using B' by (simp split: if_splits option.splits prod.splits)
      then show ?thesis using brk_grow_ok [OF ok sp _ g(1)] vm_ok_set_brk True by blast
    next
      case nl: False
      show ?thesis
      proof (cases "brk sp = 0")
        case True
        then have "s' = set_brk sender c s" using B' by (simp split: if_splits)
        then show ?thesis using vm_ok_set_brk [OF ok] by simp
      next
        case False
        then obtain s1 where "brk_shrink sender sp c s = Some s1" "s' = set_brk sender c s1" "c \<le> brk sp"
          using nl B' by (auto split: if_splits)
        then show ?thesis using brk_shrink_ok [OF ok sp al] vm_ok_set_brk by blast
      qed
    qed
  qed (use ok B in simp)
qed

section \<open>Faults\<close>

lemma load_cached_vps: "load_cached_page rd mm bump pos s = Some (Inr (p, s1)) \<Longrightarrow> vps s1 = vps s"
  by (auto simp: load_cached_page_def get_free_pl_def split: list.splits sum.splits if_splits)

lemma add_share_vps [simp]: "vps (add_share p r s) = vps s" by (simp add: add_share_def)

lemma pf_mmap_vps:
  "pf_mmap_shared rd mm r v s = Some (Inr (v1, s1)) \<Longrightarrow> vps s1 = vps s"
  "pf_mmap_private rd mm r v s = Some (Inr (v1, s1)) \<Longrightarrow> vps s1 = vps s"
  by (auto simp: pf_mmap_shared_def pf_mmap_private_def fetch_cached_page_def Let_def split: option.splits sum.splits if_splits
      dest!: new_anon_faulted load_cached_vps)

lemma vm_pf_new_vps:
  assumes "vm_pf_new rd pid page rwx mm s = Some (res, s')"
  shows "\<exists>v. vps s' = (vps s)(Vp pid page \<mapsto> v)"
  using assms by (auto simp: vm_pf_new_def Let_def split: option.splits sum.splits if_splits dest!: pf_mmap_vps new_anon_faulted)

lemma pf_cow_faulted:
  assumes "vm_inv P s" "vps s r = Some v" "vp_is_cow v" "pf_cow r v s = Some (v', s')"
  shows "vm_faulted s s'"
  using assms(4) unfolding pf_cow_eq [OF assms(1-3)] by (auto simp: vm_faulted_def drop_user_def push_active_def split: if_splits list.splits)

lemma spaces_ok_faulted: "vm_faulted s s' \<Longrightarrow> spaces_ok s' = spaces_ok s"
  by (simp add: vm_faulted_def spaces_ok_def)

lemma vm_cov_fault:
  assumes "vm_cov s" "vm_faulted s s'" "vps s' = (vps s)(r \<mapsto> v)" "vp_addr r AND 0xfff = 0" "spaces s (vp_pid r) = Some sp" "m \<in> set (rb_keys (maps sp))" "mm_has m (unat (vp_addr r))"
  shows "vm_cov s'"
proof (rule vm_cov_mono [OF assms(1)])
  fix r' assume "vps s' r' \<noteq> None"
  then have "vps s r' \<noteq> None \<or> r' = r" using assms(3) by (auto split: if_splits)
  then show "vps s r' \<noteq> None \<or> vp_addr r' AND 0xfff = 0 \<and> (\<exists>sp. spaces s' (vp_pid r') = Some sp \<and> (\<exists>m \<in> set (rb_keys (maps sp)). mm_has m (unat (vp_addr r'))))"
    using assms(2,4-7) by (auto simp: vm_faulted_def)
qed (use assms(1,2) in \<open>auto simp: vm_cov_def vm_faulted_def\<close>)

text \<open>A page lies in a mapping that has any of its addresses.\<close>

lemma mm_has_page:
  fixes a :: u32
  assumes "mm_has m (unat a)" "mm_addr m AND 0xfff = 0"
  shows "mm_has m (unat (a AND NOT 0xfff))"
proof -
  have d: "mm_start m mod PAGE_SIZE = 0" using assms(2) unfolding aligned_nat mm_start_def by (rule dvd_imp_mod_0)
  have "mm_start m div PAGE_SIZE \<le> unat a div PAGE_SIZE" using assms(1) by (intro div_le_mono) (simp add: mm_has_def)
  then have "mm_start m \<le> unat a div PAGE_SIZE * PAGE_SIZE" using d mult_le_mono1 [of "mm_start m div PAGE_SIZE" _ PAGE_SIZE] div_mult_mod_eq [of "mm_start m" PAGE_SIZE] by simp
  moreover have "unat (a AND NOT 0xfff) = unat a div PAGE_SIZE * PAGE_SIZE" unfolding page_floor_nat by (simp add: minus_mod_eq_div_mult)
  moreover have "unat a div PAGE_SIZE * PAGE_SIZE \<le> unat a" by simp
  ultimately show ?thesis using assms(1) unfolding mm_has_def by linarith
qed

lemma vm_pf_ok:
  assumes ok: "vm_ok P s" and rd: "reader_ok (vm_self s) rd" and f: "vm_pf rd pid faddr rwx s = Some (res, s')"
  shows "vm_ok P s'"
proof (cases "s' = s")
  case False
  let ?r = "Vp pid (faddr AND NOT 0xfff)"
  obtain sp where sp: "spaces s pid = Some sp" "vm_utcb_area sp \<noteq> Nilpage" "pid \<le> 32767"
    using f False by (auto simp: vm_pf_def Let_def split: if_splits option.splits)
  note F = f [unfolded vm_pf_def Let_def sp option.case]
  show ?thesis
  proof (cases "vps s ?r")
    case (Some v)
    then obtain v' where c: "vp_is_cow v" "pf_cow ?r v s = Some (v', s')" using F False sp by (auto split: if_splits)
    note i = pf_cow_inv [OF vm_okD(1) [OF ok] Some c] pf_cow_faulted [OF vm_okD(1) [OF ok] Some c] pf_cow_contents(1) [OF vm_okD(1) [OF ok] Some c]
    obtain q m where "vp_addr ?r AND 0xfff = 0" "spaces s (vp_pid ?r) = Some q" "m \<in> set (rb_keys (maps q))" "mm_has m (unat (vp_addr ?r))"
      using vm_okD(3) [OF ok] Some unfolding vm_cov_def by blast
    then have "vm_cov s'" by (rule vm_cov_fault [OF vm_okD(3) [OF ok] i(2,3)])
    then show ?thesis using i(1,2) spaces_ok_faulted areas_ok_faulted vm_okD(2,4) [OF ok] by (simp add: vm_ok_def)
  next
    case None
    obtain l where l: "find_lazy_mmap (last_mmap sp) (maps sp) faddr = Some (maps_search faddr (maps sp), l)" "vm_ok P (set_space pid (sp\<lparr>last_mmap := l\<rparr>) s)"
      by (rule vm_ok_find [OF ok sp(1)])
    let ?s = "set_space pid (sp\<lparr>last_mmap := l\<rparr>) s"
    have e: "set_last pid l s = ?s" by (simp add: set_last_def sp)
    consider "s' = ?s" | mm where "maps_search faddr (maps sp) = Some mm" "vm_pf_new rd pid (faddr AND NOT 0xfff) rwx mm ?s = Some (res, s')"
      using F False None l(1) sp e by (auto split: if_splits option.splits)
    then show ?thesis
    proof cases
      case (2 mm)
      have mo: "mm_list_ok (rb_keys (maps sp))" "\<forall>m \<in> set (rb_keys (maps sp)). mm_known (next_ptr s) (vm_self s) m"
        using vm_ok_space [OF ok sp(1)] by (auto simp: space_ok_def maps_ok_def)
      have m: "mm \<in> set (rb_keys (maps sp))" "mm_has mm (unat faddr)" using maps_search_Some [OF mo(1)] 2(1) by auto
      have an: "IS_ANON_MMAP mm \<longrightarrow> mm_fd_serv mm = vm_self ?s" using mo(2) m(1) by (auto simp: mm_known_def set_space_def)
      have i: "vm_inv P s'" "vm_faulted ?s s'"
        using vm_pf_new_inv [OF vm_okD(1) [OF l(2)] _ _ an 2(2)] None rd by (auto simp: set_space_def)
      obtain v where v: "vps s' = (vps ?s)(?r \<mapsto> v)" using vm_pf_new_vps [OF 2(2)] by blast
      have "mm_addr mm AND 0xfff = 0" using vm_okD(3) [OF ok] sp(1) m(1) by (auto simp: vm_cov_def mm_aligned_def)
      then have "mm_has mm (unat (vp_addr ?r))" unfolding vpref.sel using mm_has_page m(2) by blast
      then have "vm_cov s'"
        by (rule vm_cov_fault [OF vm_okD(3) [OF l(2)] i(2) v, of "sp\<lparr>last_mmap := l\<rparr>" mm, rotated 3])
          (unfold vpref.sel aligned_floor, use m(1) in \<open>simp_all add: set_space_def\<close>)
      then show ?thesis using i spaces_ok_faulted areas_ok_faulted vm_okD(2,4) [OF l(2)] by (simp add: vm_ok_def)
    qed (use l(2) in simp)
  qed
qed (use ok in simp)

section \<open>Creation and removal of address spaces\<close>

lemma fork_pages_vps:
  assumes "src \<noteq> dest" "fork_pages ok src dest as s = Some res"
  shows "\<exists>s'. (res = Inl s' \<or> res = Inr s') \<and> (\<forall>r. vps s' r \<noteq> None \<longrightarrow> vps s r \<noteq> None \<or> vp_pid r = dest \<and> vps s (Vp src (vp_addr r)) \<noteq> None)"
  using assms(2)
proof (induction as arbitrary: s)
  case (Cons a as)
  then obtain v where v: "vps s (Vp src a) = Some v" by (auto split: option.splits)
  define w where "w = (if \<not> vp_is_cow v \<and> vp_writable v then vp_cow_copy v else v)"
  define s1 where "s1 = add_share (vp_status v) (Vp dest a) (s\<lparr>vps := (vps s)(Vp dest a \<mapsto> vp_cow_copy v, Vp src a \<mapsto> w)\<rparr>)"
  define s2 where "s2 = (if \<not> vp_is_cow v \<and> vp_writable v then s1\<lparr>unmaps := (vp_status v, L4_Writable) # unmaps s1\<rparr> else s1)"
  have v2: "vps s2 = (vps s)(Vp dest a \<mapsto> vp_cow_copy v, Vp src a \<mapsto> w)" by (simp add: s2_def s1_def)
  have "res = Inl s \<or> fork_pages ok src dest as s = Some res \<or> fork_pages ok src dest as s2 = Some res"
    using Cons.prems v unfolding s2_def s1_def w_def by (simp add: Let_def split: if_splits)
  then consider "res = Inl s" | "fork_pages ok src dest as s = Some res" | "fork_pages ok src dest as s2 = Some res" by blast
  then show ?case
  proof cases
    case 3
    obtain s' where s': "res = Inl s' \<or> res = Inr s'" "\<And>r. vps s' r \<noteq> None \<Longrightarrow> vps s2 r \<noteq> None \<or> vp_pid r = dest \<and> vps s2 (Vp src (vp_addr r)) \<noteq> None"
      using Cons.IH [OF 3] by blast
    have "vps s r \<noteq> None \<or> vp_pid r = dest \<and> vps s (Vp src (vp_addr r)) \<noteq> None" if "vps s' r \<noteq> None" for r
      using s'(2) [OF that] v assms(1) unfolding v2 by (auto split: if_splits)
    then show ?thesis using s'(1) by blast
  qed (use Cons.IH in auto)
qed auto

lemma rb_tree_NULL: "rb_tree RB_NULL"
  by (auto simp: rb_tree_def)

lemma fork_space_ok:
  assumes ok: "vm_ok P s" and dn: "spaces s dest = None" and q: "maps q = RB_NULL" "last_mmap q = 0" "(mmap_bot q + 1) AND 0xfff = 0" "areas_apart (sp_areas q)"
  shows "vm_ok P (set_space dest q s)"
proof -
  have "space_ok (next_ptr s) (vm_self s) q" using q rb_tree_NULL by (simp add: space_ok_def maps_ok_def)
  then have "spaces_ok (set_space dest q s)"
    using spaces_ok_upd [OF vm_okD(2) [OF ok], of "next_ptr s" q "set_space dest q s" dest] by (simp add: set_space_def)
  moreover have "vm_cov (set_space dest q s)"
    by (rule vm_cov_mono [OF vm_okD(3) [OF ok]]) (use q dn vm_okD(3) [OF ok] in \<open>auto simp: set_space_def vm_cov_def split: if_splits\<close>)
  moreover have "areas_ok (set_space dest q s)" by (rule areas_ok_upd [OF vm_okD(4) [OF ok], of _ dest q]) (simp_all add: q set_space_def)
  ultimately show ?thesis using vm_okD(1) [OF ok] by (simp add: vm_ok_def)
qed

lemma fork_maps_ok:
  assumes ok: "vm_ok P s" and sp: "spaces s src = Some sp" and dn: "spaces s dest = None"
  obtains s2 sp2 where
    "fork_maps map_ok dest (rb_keys (maps sp)) (set_space dest (sp\<lparr>maps := RB_NULL, last_mmap := 0\<rparr>) s) = Some (Inr s2) \<and> mm_copies (rb_keys (maps sp)) (rb_keys (maps sp2))
      \<or> fork_maps map_ok dest (rb_keys (maps sp)) (set_space dest (sp\<lparr>maps := RB_NULL, last_mmap := 0\<rparr>) s) = Some (Inl s2)"
    "vm_ok P s2" "vps s2 = vps s" "mem s2 = mem s" "spaces s2 = (spaces s)(dest \<mapsto> sp2)" "brk sp2 = brk sp"
proof -
  define q where "q = sp\<lparr>maps := RB_NULL, last_mmap := 0\<rparr>"
  define s1 where "s1 = set_space dest q s"
  have c: "(mmap_bot sp + 1) AND 0xfff = 0" "\<forall>m \<in> set (rb_keys (maps sp)). mm_aligned m" using vm_okD(3) [OF ok] sp unfolding vm_cov_def by blast+
  have so: "mm_list_ok (rb_keys (maps sp))" "\<forall>m \<in> set (rb_keys (maps sp)). IS_ANON_MMAP m \<longrightarrow> mm_fd_serv m = vm_self s"
    using vm_ok_space [OF ok sp] by (auto simp: space_ok_def maps_ok_def mm_known_def)
  have aa: "areas_apart (sp_areas q)" using areas_ok_sp [OF vm_okD(4) [OF ok] sp] by (simp add: q_def)
  have ok1: "vm_ok P s1" unfolding s1_def by (rule fork_space_ok [OF ok dn]) (use c(1) aa in \<open>simp_all add: q_def\<close>)
  have e1: "spaces s1 dest = Some q" "vps s1 = vps s" "mem s1 = mem s" "vm_self s1 = vm_self s" "spaces s1 = (spaces s)(dest \<mapsto> q)" by (simp_all add: s1_def set_space_def)
  have "rb_keys (maps q) = []" by (simp add: q_def)
  then obtain s2 sp2 where s2: "fork_maps map_ok dest (rb_keys (maps sp)) s1 = Some (Inr s2) \<and> mm_copies (rb_keys (maps sp)) (rb_keys (maps sp2))
      \<or> fork_maps map_ok dest (rb_keys (maps sp)) s1 = Some (Inl s2)"
    and s2': "vm_inv P s2" "spaces_ok s2" "vps s2 = vps s" "mem s2 = mem s" "spaces s2 = (spaces s1)(dest \<mapsto> sp2)" "sp_same q sp2"
      "\<forall>c \<in> set (rb_keys (maps sp2)). \<exists>m \<in> set (rb_keys (maps sp)). \<exists>p. c = m\<lparr>mm_ptr := p\<rparr>"
    using fork_maps_inv [OF vm_okD(1,2) [OF ok1] e1(1) so(1), of map_ok] so(2) e1 by auto
  have "vm_cov s2"
  proof (rule vm_cov_mono [OF vm_okD(3) [OF ok]])
    fix p x assume x: "spaces s2 p = Some x"
    have "\<forall>m \<in> set (rb_keys (maps sp2)). mm_aligned m" using s2'(7) c(2) by (auto simp: mm_aligned_def)
    moreover have "(mmap_bot sp2 + 1) AND 0xfff = 0" using s2'(6) c(1) by (simp add: sp_same_def q_def)
    ultimately show "(mmap_bot x + 1) AND 0xfff = 0 \<and> (\<forall>m \<in> set (rb_keys (maps x)). mm_aligned m)"
      using x vm_okD(3) [OF ok] unfolding s2'(5) e1(5) by (auto simp: vm_cov_def split: if_splits)
  qed (use s2'(3,5) e1(5) dn in auto)
  moreover have "areas_ok s2" using aa sp_same_areas [OF s2'(6)] by (intro areas_ok_upd [OF vm_okD(4) [OF ok1] s2'(5)]) simp
  ultimately have "vm_ok P s2" using s2' by (simp add: vm_ok_def)
  moreover have "brk sp2 = brk sp" "spaces s2 = (spaces s)(dest \<mapsto> sp2)" using s2'(5,6) e1(5) by (auto simp: sp_same_def q_def)
  ultimately show ?thesis using that s2 s2'(3,4) unfolding s1_def q_def by blast
qed

lemma vm_fork_ok:
  assumes ok: "vm_ok P s" and d: "distinct order" and lim: "(user_addr_max s + 1) AND 0xfff = 0"
    and f: "vm_fork map_ok page_ok newid order sender src destpid s = Some (n, s')"
  shows "vm_ok P s'"
proof (cases "s' = s")
  case False
  define dest where "dest = (if destpid > 0 then destpid else newid)"
  note F = f [unfolded vm_fork_def Let_def dest_def [symmetric]]
  have dn: "spaces s dest = None" using F False by (auto split: if_splits)
  then have dv: "vps s (Vp dest a) = None" for a using vm_okD(3) [OF ok] unfolding vm_cov_def by (metis option.distinct(1) vpref.sel(1))
  show ?thesis
  proof (cases "src = 0")
    case True
    then obtain q where "s' = set_space dest q s" "maps q = RB_NULL" "last_mmap q = 0" "mmap_bot q = user_addr_max s" "vm_utcb_area q = Nilpage" using F False by (auto split: if_splits)
    then show ?thesis using fork_space_ok [OF ok dn, of q] lim by (simp add: areas_apart_def sp_areas_def)
  next
    case nz: False
    then obtain sp where sp: "spaces s src = Some sp" using F False by (auto split: if_splits option.splits)
    have ne: "src \<noteq> dest" using sp dn by auto
    obtain s2 sp2 where s2: "fork_maps map_ok dest (rb_keys (maps sp)) (set_space dest (sp\<lparr>maps := RB_NULL, last_mmap := 0\<rparr>) s) = Some (Inr s2) \<and> mm_copies (rb_keys (maps sp)) (rb_keys (maps sp2))
        \<or> fork_maps map_ok dest (rb_keys (maps sp)) (set_space dest (sp\<lparr>maps := RB_NULL, last_mmap := 0\<rparr>) s) = Some (Inl s2)"
      and ok2: "vm_ok P s2" "vps s2 = vps s" "spaces s2 = (spaces s)(dest \<mapsto> sp2)"
      by (rule fork_maps_ok [OF ok sp dn])
    from s2 show ?thesis
    proof
      assume "fork_maps map_ok dest (rb_keys (maps sp)) (set_space dest (sp\<lparr>maps := RB_NULL, last_mmap := 0\<rparr>) s) = Some (Inl s2)"
      then show ?thesis using F False nz dn sp ok2(1) by (auto split: if_splits)
    next
      assume m: "fork_maps map_ok dest (rb_keys (maps sp)) (set_space dest (sp\<lparr>maps := RB_NULL, last_mmap := 0\<rparr>) s) = Some (Inr s2) \<and> mm_copies (rb_keys (maps sp)) (rb_keys (maps sp2))"
      obtain res where p: "fork_pages page_ok src dest order s2 = Some res" "res = Inl s' \<or> res = Inr s'"
        using F False nz dn m sp by (auto split: if_splits option.splits sum.splits)
      have i: "vm_inv P s'" "vm_faulted s2 s'" using fork_pages_inv [OF vm_okD(1) [OF ok2(1)] d _ ne p(1)] p(2) dv ok2(2) by auto
      have "vm_cov s'"
      proof (rule vm_cov_mono [OF vm_okD(3) [OF ok2(1)]])
        fix r assume "vps s' r \<noteq> None"
        then have "vps s2 r \<noteq> None \<or> vp_pid r = dest \<and> vps s (Vp src (vp_addr r)) \<noteq> None" using fork_pages_vps [OF ne p(1)] p(2) ok2(2) by auto
        then show "vps s2 r \<noteq> None \<or> vp_addr r AND 0xfff = 0 \<and> (\<exists>sp. spaces s' (vp_pid r) = Some sp \<and> (\<exists>m \<in> set (rb_keys (maps sp)). mm_has m (unat (vp_addr r))))"
        proof (elim disjE conjE)
          assume v: "vp_pid r = dest" "vps s (Vp src (vp_addr r)) \<noteq> None"
          then have "vp_addr r AND 0xfff = 0" "\<exists>m \<in> set (rb_keys (maps sp)). mm_has m (unat (vp_addr r))"
            using vm_okD(3) [OF ok] sp unfolding vm_cov_def by (metis option.inject vpref.sel)+
          moreover then obtain x where "x \<in> set (rb_keys (maps sp2))" "mm_has x (unat (vp_addr r))"
            using m unfolding mm_copies_def by (fastforce simp: list_all2_conv_all_nth in_set_conv_nth mm_has_def)
          moreover have "spaces s' (vp_pid r) = Some sp2" using i(2) ok2(3) v(1) by (simp add: vm_faulted_def)
          ultimately show ?thesis by blast
        qed blast
      qed (use i(2) vm_okD(3) [OF ok2(1)] in \<open>auto simp: vm_faulted_def vm_cov_def\<close>)
      then show ?thesis using i spaces_ok_faulted areas_ok_faulted vm_okD(2,4) [OF ok2(1)] by (simp add: vm_ok_def)
    qed
  qed
qed (use ok in simp)

text \<open>The kernel interface page area is a flexpage of at least a page, on a multiple of its size.\<close>

definition fpage_wf :: "fpage \<Rightarrow> bool" where
  "fpage_wf fp \<longleftrightarrow> fp = Nilpage \<or> (\<exists>a k. fp = Fpage a (2 ^ k) \<and> 12 \<le> k \<and> k < 32 \<and> take_bit k a = 0)"

lemma fpage_overlap_sym: "fpage_overlap a b = fpage_overlap b a"
  by (simp add: fpage_overlap_def xor.commute max.commute)

lemma fpage_next_apart:
  assumes "12 \<le> k" "k < 32" "take_bit k a = 0"
  shows "\<not> fpage_overlap (Fpage a (2 ^ k)) (Fpage (a + 2 ^ k) 4096)"
proof
  have "(2 :: nat) ^ k < 2 ^ 32" using assms(2) by (rule power_strict_increasing) simp
  moreover have "unat (of_nat (2 ^ k) :: u32) = 2 ^ k mod 2 ^ 32" by (simp only: unat_of_nat len_num1 len_bit0 len_of_numeral_defs mult.right_neutral) simp
  ultimately have k: "unat (2 ^ k :: u32) = 2 ^ k" by simp
  have "(2 :: nat) ^ 12 \<le> 2 ^ k" using assms(1) by (rule power_increasing) simp
  then have m: "max (2 ^ k) 4096 = (2 ^ k :: u32)" using k by (intro max.absorb1) (simp add: word_le_nat_alt)
  assume "fpage_overlap (Fpage a (2 ^ k)) (Fpage (a + 2 ^ k) 4096)"
  then have o: "(a XOR (a + 2 ^ k)) AND NOT (mask k) = 0" by (simp add: fpage_overlap_def m mask_eq_exp_minus_1)
  have d: "take_bit k x = 0 \<longleftrightarrow> 2 ^ k dvd unat x" for x :: u32
  proof -
    have "unat (take_bit k x) = unat x mod 2 ^ k" unfolding unsigned_take_bit_eq by (simp add: take_bit_eq_mod)
    then show ?thesis using unat_eq_zero [of "take_bit k x"] by (simp add: dvd_eq_mod_eq_0)
  qed
  have "(2 :: nat) ^ k dvd 2 ^ 32" by (rule le_imp_power_dvd) (use assms(2) in simp)
  then have l: "take_bit k (a + 2 ^ k) = 0" using assms(3) unfolding d unat_word_ariths k by (simp add: dvd_mod_iff k)
  have "a = a + 2 ^ k"
  proof (rule bit_word_eqI)
    fix n assume "n < LENGTH(32)"
    show "bit a n = bit (a + 2 ^ k) n"
    proof (cases "n < k")
      case True
      then show ?thesis using assms(3) l by (metis bit_0_eq bit_take_bit_iff bot_apply bot_bool_def)
    next
      case False
      have "\<not> bit ((a XOR (a + 2 ^ k)) AND NOT (mask k)) n" unfolding o by simp
      then show ?thesis using False \<open>n < LENGTH(32)\<close> by (auto simp: bit_simps)
    qed
  qed
  then show False using assms(2) by simp
qed

lemma vm_configure_ok:
  assumes ok: "vm_ok P s" and kip: "fpage_wf kip" and c: "vm_configure mem_ok pid utcb kip s = Some (n, s')"
  shows "vm_ok P s'"
proof (cases "s' = s")
  case False
  obtain sp where sp: "spaces s pid = Some sp" using c False by (auto simp: vm_configure_def split: if_splits option.splits)
  define si where "si = Fpage (L4_Address kip + L4_Size kip) 4096"
  define q where "q = sp\<lparr>kip_area := kip, vm_utcb_area := utcb, sysinfo_area := si\<rparr>"
  define s1 where "s1 = set_space pid q s"
  define low where "low = min (L4_Address kip) (min (L4_Address utcb) (L4_Address si))"
  define mm where "mm = \<lparr>mm_ptr = next_ptr s1, mm_addr = 0, mm_length = 0, mm_flags = 0x70022, mm_fd_serv = L4_nilthread, mm_ino = 0, mm_offset = 0, mm_tailsz = 0\<rparr>"
  have so: "last_mmap sp = 0 \<or> last_mmap sp \<in> mm_ptr ` set (rb_keys (maps sp))" using vm_ok_space [OF ok sp] by (simp add: space_ok_def)
  note C = c [unfolded vm_configure_def sp option.case Let_def, folded si_def, folded q_def, folded s1_def, folded low_def mm_def]
  have "\<not> fpage_overlap kip utcb" "\<not> fpage_overlap utcb si" using C False fpage_overlap_sym by (auto split: if_splits)
  moreover have "kip \<noteq> Nilpage \<longrightarrow> \<not> fpage_overlap kip si" using kip fpage_next_apart by (auto simp: fpage_wf_def si_def)
  ultimately have "areas_apart (sp_areas q)" by (simp add: areas_apart_def sp_areas_def q_def)
  then have ok1: "vm_ok P s1" "spaces s1 pid = Some q" unfolding s1_def
    by (intro vm_ok_set_space [OF ok sp]) (use so in \<open>simp_all add: q_def set_space_def\<close>)
  show ?thesis
  proof (cases "s' = s1")
    case nn: False
    then obtain x where l: "\<not> low \<le> 0x10000"
      and x: "reserve_mmap True mm pid 0x10000 (low - 0x10000) True (s1\<lparr>next_ptr := Suc (next_ptr s1)\<rparr>) = Some (x, s')"
      using C False by (simp split: if_splits option.splits prod.splits)
    have "unat (low - 0x10000) = unat low - 0x10000" using unat_sub [of "0x10000" low] l by simp
    then have r: "range_ok 0x10000 (low - 0x10000) True q" using l unsigned_less [of low] by (simp add: range_ok_def word_le_nat_alt)
    show ?thesis using reserve_ok [OF ok1 r _ _ _ x, of "next_anon_ino s1"] by (simp add: mm_def IS_ANON_MMAP_def)
  qed (use ok1 in simp)
qed (use ok in simp)

text \<open>A range that was reserved is mapped.\<close>

lemma insert_has: "insert_lazy_mmap mm t = Some (Inr t') \<Longrightarrow> mm \<in> set (rb_keys t')"
  by (auto simp: insert_lazy_mmap_def rb_insert_at_def dest: rb_insert_color_keys split: sum.splits)

lemma reserve_mmap_placed:
  assumes "reserve_mmap ht mm pid a len fixed s = Some ((n, a'), s')" "0 \<le> n"
  shows "\<exists>sp. spaces s' pid = Some sp \<and> mm\<lparr>mm_addr := a', mm_length := len\<rparr> \<in> set (rb_keys (maps sp)) \<and> (fixed \<longrightarrow> a' = a)"
proof -
  obtain sp where sp: "spaces s pid = Some sp" using assms(1) by (auto simp: reserve_mmap_def split: option.splits)
  define b where "b = (if list_ex (\<lambda>fp. RANGE_IN_FPAGE fp a len) (nogo_areas sp) then 0 else a)"
  have e: "mm\<lparr>mm_addr := b, mm_length := len, mm_addr := x\<rparr> = mm\<lparr>mm_addr := x, mm_length := len\<rparr>" for x by (cases mm) simp
  let ?i = "insert_lazy_mmap (mm\<lparr>mm_addr := b, mm_length := len\<rparr>) (maps sp)"
  let ?j = "insert_lazy_mmap (mm\<lparr>mm_addr := mmap_bot sp - len + 1, mm_length := len\<rparr>) (maps sp)"
  note M = assms(1) [unfolded reserve_mmap_def Let_def sp option.case b_def [symmetric] e]
  have p: "\<exists>sp. spaces (set_space pid q s0) pid = Some sp \<and> m \<in> set (rb_keys (maps sp))"
    if "insert_lazy_mmap m (maps sp0) = Some (Inr t)" "maps q = t" for m sp0 t q s0
    using insert_has [OF that(1)] that(2) by (simp add: set_space_def)
  show ?thesis
  proof (cases fixed)
    case True
    then have ba: "b = a" using M assms(2) by (simp add: b_def split: if_splits)
    show ?thesis
    proof (cases "\<exists>t. ?i = Some (Inr t)")
      case True
      then obtain t where t: "?i = Some (Inr t)" by blast
      have "a' = b" "\<exists>s0. s' = set_space pid (sp\<lparr>maps := t\<rparr>) s0" using M assms(2) t \<open>fixed\<close> by (auto split: if_splits)
      then show ?thesis using p [OF t] ba by auto
    next
      case False
      then obtain old where i: "?i = Some (Inl old)" using M assms(2) \<open>fixed\<close> by (auto split: if_splits option.splits sum.splits)
      define s0 where "s0 = (if IS_ANON_MMAP mm then s\<lparr>anon_mmap_table := (pid, mm_ptr mm) # anon_mmap_table s\<rparr> else s)"
      have c: "(case munmap_space pid b len s0 of None \<Rightarrow> None | Some s \<Rightarrow> (case spaces s pid of None \<Rightarrow> None
          | Some sp \<Rightarrow> (case insert_lazy_mmap (mm\<lparr>mm_addr := b, mm_length := len\<rparr>) (maps sp) of
                 Some (Inr t) \<Rightarrow> Some ((0, b), set_space pid (sp\<lparr>maps := t\<rparr>) s) | _ \<Rightarrow> None))) = Some ((n, a'), s')"
        using M assms(2) \<open>fixed\<close> i unfolding s0_def [symmetric] by (simp split: if_splits)
      then obtain s1 sp1 where s1: "munmap_space pid b len s0 = Some s1" "spaces s1 pid = Some sp1" by (auto split: option.splits)
      then obtain t where t: "insert_lazy_mmap (mm\<lparr>mm_addr := b, mm_length := len\<rparr>) (maps sp1) = Some (Inr t)"
        using c by (simp split: option.splits sum.splits)
      have "s' = set_space pid (sp1\<lparr>maps := t\<rparr>) s1" "a' = b" using c s1 t by simp_all
      then show ?thesis using p [OF t] ba by simp
    qed
  next
    case nf: False
    consider t s0 where "?j = Some (Inr t)" "a' = mmap_bot sp - len + 1" "s' = set_space pid (sp\<lparr>maps := t, mmap_bot := mmap_bot sp - len\<rparr>) s0"
      | t s0 where "?i = Some (Inr t)" "a' = b" "s' = set_space pid (sp\<lparr>maps := t\<rparr>) s0"
      using M assms(2) nf by (simp split: if_splits option.splits sum.splits; blast)
    then show ?thesis
    proof cases
      case 1
      show ?thesis using p [OF 1(1)] 1(2,3) nf by simp
    next
      case 2
      show ?thesis using p [OF 2(1)] 2(2,3) nf by simp
    qed
  qed
qed

lemma vm_upload_ok:
  assumes ok: "vm_ok P s" and a: "unat a + PAGE_SIZE < 2 ^ 32" and u: "vm_upload_page mem_ok pid a bs prot flags s = Some (n, s')"
  shows "vm_ok P s'"
proof (cases "s' = s")
  case False
  let ?r = "Vp pid a"
  define v where "v = \<lparr>vp_rights = prot_to_l4_rights prot, vp_is_shared = False, vp_is_anon = True, vp_is_cow = False, vp_status = 0\<rparr>"
  define mm where "mm = \<lparr>mm_ptr = next_ptr s, mm_addr = 0, mm_length = 0,
                  mm_flags = push_bit 16 (ucast (prot_to_l4_rights prot)) OR (flags AND NOT MAP_FIXED),
                  mm_fd_serv = L4_nilthread, mm_ino = 0, mm_offset = 0, mm_tailsz = 0\<rparr>"
  note U = u [unfolded vm_upload_page_def Let_def, folded v_def mm_def]
  obtain sp where sp: "spaces s pid = Some sp" using U False by (auto split: option.splits)
  note U' = U [unfolded sp option.case]
  have g: "a AND 0xfff = 0" "flags AND MAP_SHARED = 0" using U' False by (simp_all split: if_splits)
  obtain n1 a1 s1 where m: "reserve_mmap True mm pid a 4096 True (s\<lparr>next_ptr := Suc (next_ptr s)\<rparr>) = Some ((n1, a1), s1)"
    using U' False by (simp split: if_splits option.splits prod.splits)
  have "\<not> IS_ANON_MMAP mm" using flags_low(2) [of _ flags] g(2) by (simp add: IS_ANON_MMAP_def mm_def)
  moreover have "range_ok a 4096 True sp" using a by (simp add: range_ok_def)
  ultimately have ok1: "vm_ok P s1" using reserve_ok [OF ok sp, of a 4096 True mm True _ "(n1, a1)" s1 "next_anon_ino s"] m by (simp add: mm_def)
  show ?thesis
  proof (cases "n1 < 0")
    case True
    then have "s' = s1" using U' m False by (simp split: if_splits)
    then show ?thesis using ok1 by simp
  next
    case nn: False
    obtain q where q: "spaces s1 pid = Some q" "mm\<lparr>mm_addr := a, mm_length := 4096\<rparr> \<in> set (rb_keys (maps q))"
      using reserve_mmap_placed [OF m] nn by auto
    obtain s2 where s2: "vm_inv P s2" "vm_faulted s1 s2" "vps s2 = (vps s1)(?r := None)"
      and d: "(case vps s1 ?r of None \<Rightarrow> Some s1 | Some old \<Rightarrow> remove_vp ?r old s1) = Some s2"
    proof (cases "vps s1 ?r")
      case None
      then show ?thesis using that [of s1] vm_okD(1) [OF ok1] by (simp add: vm_faulted_def fun_upd_idem)
    next
      case (Some old)
      show ?thesis by (rule remove_vp_inv [OF vm_okD(1) [OF ok1] Some]) (use that Some in \<open>simp add: vm_faulted_def\<close>)
    qed
    obtain v1 s3 where n3: "new_anon_page ?r v (page_fill bs) s2 = Some (v1, s3)" "s' = s3\<lparr>vps := (vps s3)(?r \<mapsto> v1)\<rparr>"
      using U' m nn d False by (auto split: if_splits)
    have "vp_is_anon v1" "\<not> vp_is_shared v1" "\<not> vp_is_cow v1" using n3(1) by (auto simp: new_anon_page_def v_def split: option.splits)
    then have i: "vm_inv P s'" unfolding n3(2) using s2(3) by (intro new_anon_page_inv [OF s2(1) _ n3(1)]) auto
    have f: "vm_faulted s1 s'" "vps s' = (vps s1)(?r \<mapsto> v1)" using new_anon_faulted [OF n3(1)] s2(2,3) n3(2) by (auto simp: vm_faulted_def)
    have "mm_has (mm\<lparr>mm_addr := a, mm_length := 4096\<rparr>) (unat (vp_addr ?r))" by (simp add: mm_has_def mm_start_def mm_end_def)
    from vm_cov_fault [OF vm_okD(3) [OF ok1] f _ _ q(2) this] have "vm_cov s'" using g(1) q(1) by simp
    then show ?thesis using i spaces_ok_faulted [OF f(1)] areas_ok_faulted [OF f(1)] vm_okD(2,4) [OF ok1] by (simp add: vm_ok_def)
  qed
qed (use ok in simp)

lemma erase_maps_inv:
  "vm_inv P s \<Longrightarrow> erase_maps pid ms s = Some s' \<Longrightarrow> vm_inv P s' \<and> vps s' = vps s \<and> spaces s' = spaces s \<and> next_ptr s' = next_ptr s \<and> vm_self s' = vm_self s"
proof (induction ms arbitrary: s)
  case (Cons m ms)
  show ?case
  proof (cases "mm_fd_serv m = vm_self s")
    case True
    then obtain s1 where s1: "cut_anon_mmap pid m 0 0 s = Some s1" "erase_maps pid ms (s1\<lparr>anon_mmap_table := removeAll (pid, mm_ptr m) (anon_mmap_table s1)\<rparr>) = Some s'"
      using Cons.prems(2) by (auto split: option.splits)
    have "vm_inv P s1" "vm_same s s1" "vps s1 = vps s" using cut_anon_mmap_inv [OF Cons.prems(1) s1(1)] by auto
    then show ?thesis using Cons.IH [OF _ s1(2)] by (simp add: vm_same_def)
  next
    case False
    then show ?thesis using Cons.IH [OF Cons.prems(1)] Cons.prems(2) by (simp split: if_splits)
  qed
qed simp

lemma vm_erase_ok:
  assumes ok: "vm_ok P s" and all: "\<And>a. vps s (Vp target a) \<noteq> None \<Longrightarrow> a \<in> set order" and e: "vm_erase order sender target s = Some (n, s')"
  shows "vm_ok P s'"
proof (cases "s' = s")
  case False
  then obtain sp s1 s2 where sp: "spaces s target = Some sp" and s1: "remove_vps target order s = Some s1"
    and s2: "erase_maps target (rb_keys (maps sp)) s1 = Some s2" "s' = s2\<lparr>spaces := (spaces s2)(target := None)\<rparr>"
    using e by (auto simp: vm_erase_def split: if_splits option.splits)
  have r: "vm_inv P s1" "vm_same s s1" "vps s1 = (\<lambda>r. if vp_pid r = target \<and> vp_addr r \<in> set order then None else vps s r)"
    using remove_vps_inv [OF vm_okD(1) [OF ok], of target order] s1 by auto
  note m = erase_maps_inv [OF r(1) s2(1)]
  have sps: "spaces s' = (spaces s)(target := None)" "next_ptr s' = next_ptr s" "vm_self s' = vm_self s" "vps s' = vps s1"
    using m r(2) s2(2) by (simp_all add: vm_same_def)
  have live: "vps s r \<noteq> None \<and> vp_pid r \<noteq> target" if "vps s' r \<noteq> None" for r
    using that all [of "vp_addr r"] unfolding sps(4) r(3) by (cases r) (auto split: if_splits)
  have "spaces_ok s'" using vm_okD(2) [OF ok] by (auto simp: spaces_ok_def sps)
  moreover have "vm_cov s'" using vm_okD(3) [OF ok] live unfolding vm_cov_def sps(1) by (auto split: if_splits)
  moreover have "areas_ok s'" using vm_okD(4) [OF ok] by (auto simp: areas_ok_def sps(1) split: if_splits)
  ultimately show ?thesis using m s2(2) by (simp add: vm_ok_def)
qed (use ok in simp)

section \<open>The contract of the calls\<close>

text \<open>Every call of the server keeps the invariants wherever its precondition holds.\<close>

locale vm_call =
  fixes call :: "vm \<Rightarrow> ('r \<times> vm) option" and pre :: "vm \<Rightarrow> bool"
  assumes keeps: "vm_ok P s \<Longrightarrow> pre s \<Longrightarrow> call s = Some (r, s') \<Longrightarrow> vm_ok P s'"
begin

lemma keeps_pages: "vm_ok P s \<Longrightarrow> pre s \<Longrightarrow> call s = Some (r, s') \<Longrightarrow> set (page_free_list s' @ page_active_list s' @ page_cache s') = P"
  using keeps [of P s r s'] by (simp add: vm_ok_def vm_inv_def inv_lists_def)

lemma keeps_private:
  assumes "vm_ok P s" "pre s" "call s = Some (x, s')" "vps s' r = Some v" "vp_is_anon v" "vp_writable v" "vps s' r' = Some w" "vp_status w = vp_status v"
  shows "r' = r"
  using vm_inv_vp(3,6) [OF vm_okD(1) [OF keeps [OF assms(1-3)]] assms(4)] assms(5-8) by blast

end

abbreviation mmap_pre :: "nat \<Rightarrow> nat \<Rightarrow> u32 \<Rightarrow> u32 \<Rightarrow> u32 \<Rightarrow> vm \<Rightarrow> bool" where
  "mmap_pre sender target a len flags s \<equiv> \<forall>sp. spaces s (if target = 0 then sender else target) = Some sp \<longrightarrow> range_ok a (PAGE_CEIL len) (flags AND MAP_FIXED \<noteq> 0) sp"

interpretation mmap_call: vm_call "vm_mmap mem_ok ht touched sender target a len prot flags serv fdno off" "mmap_pre sender target a len flags"
  for mem_ok ht touched sender target a len prot flags serv fdno off
  by unfold_locales (blast intro: vm_mmap_ok)

interpretation munmap_call: vm_call "vm_munmap sender a sz" "\<lambda>_. True" for sender a sz
  by unfold_locales (rule vm_munmap_ok)

interpretation brk_call: vm_call "vm_brk mem_ok sender a" "\<lambda>_. True" for mem_ok sender a
  by unfold_locales (rule vm_brk_ok)

interpretation pf_call: vm_call "vm_pf rd pid a rwx" "\<lambda>s. reader_ok (vm_self s) rd" for rd pid a rwx
  by unfold_locales (rule vm_pf_ok)

interpretation fork_call: vm_call "vm_fork map_ok page_ok newid order sender src dest" "\<lambda>s. distinct order \<and> (user_addr_max s + 1) AND 0xfff = 0"
  for map_ok page_ok newid order sender src dest
  by unfold_locales (blast intro: vm_fork_ok)

interpretation configure_call: vm_call "vm_configure mem_ok pid utcb kip" "\<lambda>_. fpage_wf kip" for mem_ok pid utcb kip
  by unfold_locales (rule vm_configure_ok)

interpretation upload_call: vm_call "vm_upload_page mem_ok pid a bs prot flags" "\<lambda>_. unat a + PAGE_SIZE < 2 ^ 32" for mem_ok pid a bs prot flags
  by unfold_locales (rule vm_upload_ok)

interpretation erase_call: vm_call "vm_erase order sender pid" "\<lambda>s. \<forall>a. vps s (Vp pid a) \<noteq> None \<longrightarrow> a \<in> set order" for order sender pid
  by unfold_locales (blast intro: vm_erase_ok)

section \<open>Reachable states\<close>

text \<open>
  The server starts with its pages free and no address space.  A call that aborts has no successor.  A process writes to memory through its
  pages that are mapped writable.

  Not every argument the server accepts is a step.  It does not check that the range of a mapping is not empty after rounding and does not
  wrap past the end of the address space (\<open>range_ok\<close>; where the server chooses the address, that it fits below \<open>mmap_bot\<close>), nor that an uploaded page
  is not the last of the address space; what a wrapping range does is in \<open>vm_mmap_wrap_hides_mapping\<close>.  The other
  conditions are on the environment: the limit of addresses is the last address of a page, areas are well-formed flexpages, a hash table is
  walked over all its elements, each once, and what an I/O server reads is a page.
\<close>

definition vm_start :: "nat list \<Rightarrow> l4_tid \<Rightarrow> u32 \<Rightarrow> vm" where
  "vm_start ps self amax = \<lparr>page_free_list = ps, page_active_list = [], page_cache = [], links = (\<lambda>_. \<lparr>pl_fsid = 0, pl_ino = 0, pl_offset = 0\<rparr>),
     powner = (\<lambda>_. None), vps = (\<lambda>_. None), share_table = [], anon_mmap_table = [], spaces = (\<lambda>_. None), next_anon_ino = 1, next_ptr = 1,
     mem = (\<lambda>_. []), unmaps = [], vm_self = self, user_addr_max = amax\<rparr>"

definition user_write :: "vpref \<Rightarrow> u8 list \<Rightarrow> vm \<Rightarrow> vm" where
  "user_write r bs s = s\<lparr>mem := (mem s)(vp_page s r := bs)\<rparr>"

inductive vm_step :: "vm \<Rightarrow> vm \<Rightarrow> bool" where
  step_mmap: "vm_mmap mem_ok ht touched sender target a len prot flags serv fdno off s = Some (n, s')
    \<Longrightarrow> \<forall>sp. spaces s (if target = 0 then sender else target) = Some sp \<longrightarrow> range_ok a (PAGE_CEIL len) (flags AND MAP_FIXED \<noteq> 0) sp \<Longrightarrow> vm_step s s'"
| step_munmap: "vm_munmap sender a sz s = Some (m, s') \<Longrightarrow> vm_step s s'"
| step_brk: "vm_brk mem_ok sender a s = Some (m, s') \<Longrightarrow> vm_step s s'"
| step_pf: "vm_pf rd pid a rwx s = Some (res, s') \<Longrightarrow> reader_ok (vm_self s) rd \<Longrightarrow> vm_step s s'"
| step_fork: "vm_fork map_ok page_ok newid order sender src dest s = Some (m, s') \<Longrightarrow> distinct order \<Longrightarrow> (user_addr_max s + 1) AND 0xfff = 0 \<Longrightarrow> vm_step s s'"
| step_configure: "vm_configure mem_ok pid utcb kip s = Some (n, s') \<Longrightarrow> fpage_wf kip \<Longrightarrow> vm_step s s'"
| step_upload: "vm_upload_page mem_ok pid a bs prot flags s = Some (m, s') \<Longrightarrow> unat a + PAGE_SIZE < 2 ^ 32 \<Longrightarrow> vm_step s s'"
| step_erase: "vm_erase order sender pid s = Some (m, s') \<Longrightarrow> \<forall>a. vps s (Vp pid a) \<noteq> None \<longrightarrow> a \<in> set order \<Longrightarrow> vm_step s s'"
| step_write: "vps s r = Some v \<Longrightarrow> vp_writable v \<Longrightarrow> vm_step s (user_write r bs s)"

inductive vm_reach :: "nat list \<Rightarrow> vm \<Rightarrow> bool" for ps where
  reach_start: "distinct ps \<Longrightarrow> vm_reach ps (vm_start ps self amax)"
| reach_step: "vm_reach ps s \<Longrightarrow> vm_step s s' \<Longrightarrow> vm_reach ps s'"

lemma vm_ok_start: "distinct ps \<Longrightarrow> vm_ok (set ps) (vm_start ps self amax)"
  by (simp add: vm_ok_def vm_inv_def vm_inv_defs spaces_ok_def vm_cov_def areas_ok_def vm_start_def)

lemma vm_step_ok:
  assumes "vm_step s s'" "vm_ok P s"
  shows "vm_ok P s'"
  using assms
proof cases
  case step_mmap
  then show ?thesis using mmap_call.keeps [OF assms(2) _ step_mmap(1)] by blast
next
  case step_fork
  then show ?thesis using fork_call.keeps [OF assms(2) _ step_fork(1)] by blast
next
  case step_erase
  then show ?thesis using erase_call.keeps [OF assms(2) _ step_erase(1)] by blast
next
  case step_configure
  then show ?thesis using configure_call.keeps [OF assms(2) _ step_configure(1)] by blast
next
  case step_upload
  then show ?thesis using upload_call.keeps [OF assms(2) _ step_upload(1)] by blast
next
  case (step_write r v bs)
  have "vm_ok P (s\<lparr>mem := x\<rparr>) = vm_ok P s" for x by (simp add: vm_ok_def spaces_ok_def)
  then show ?thesis using assms(2) step_write by (simp add: user_write_def)
qed (use munmap_call.keeps [OF assms(2)] brk_call.keeps [OF assms(2)] pf_call.keeps [OF assms(2)] in blast)+

lemma vm_reach_ok: "vm_reach ps s \<Longrightarrow> vm_ok (set ps) s"
  by (induction rule: vm_reach.induct) (auto intro: vm_ok_start vm_step_ok)

end
