(* ===== verification/Vm_Invariants.thy ===== *)
theory Vm_Invariants
  imports Vm_Reach
begin

text \<open>
  The self-check \<^verbatim>\<open>invariants()\<close> of the virtual memory server \<^verbatim>\<open>sys/vm/vm.c\<close>, which a debugging build runs in assertions
  around its calls, and the proof that reachable states pass it but for one clause.

  A virtual page is referred to by process and address; their order stands for the order of pointers, by which the check sorts.
  A reference to a page that is gone fails the check.  \<open>pp_first\<close> and \<open>pp_total\<close> are the first number and the count of the page numbers
  from the lowest to the highest page the server was given; the check wants every one of them on a list.  \<open>None\<close> is a check that reads
  memory it does not own: the loop over the users of a cached page goes on to the element after the last one of its array when they
  are at the end of the array, which is sorted by page.
\<close>

section \<open>References in order\<close>

instantiation vpref :: linorder
begin
definition less_eq_vpref :: "vpref \<Rightarrow> vpref \<Rightarrow> bool" where
  "less_eq_vpref a b \<longleftrightarrow> vp_pid a < vp_pid b \<or> vp_pid a = vp_pid b \<and> vp_addr a \<le> vp_addr b"
definition less_vpref :: "vpref \<Rightarrow> vpref \<Rightarrow> bool" where
  "less_vpref a b \<longleftrightarrow> vp_pid a < vp_pid b \<or> vp_pid a = vp_pid b \<and> vp_addr a < vp_addr b"
instance
  by standard (auto simp: less_eq_vpref_def less_vpref_def vpref.expand)
end

section \<open>The check\<close>

definition vp_invariants :: "vm \<Rightarrow> vpref \<Rightarrow> nat \<Rightarrow> bool" where
  "vp_invariants s r p = (case vps s r of None \<Rightarrow> False
     | Some v \<Rightarrow> vp_status v \<noteq> 0 \<and> vp_status v < 2 ^ 31 \<and> vp_status v = p
         \<and> (vp_is_cow v \<longrightarrow> \<not> vp_writable v) \<and> (vp_writable v \<longrightarrow> \<not> vp_is_cow v))"

text \<open>The pages of a process are walked in no particular order.\<close>

definition space_invariants :: "vm \<Rightarrow> vpref list \<Rightarrow> nat \<Rightarrow> vm_space \<Rightarrow> bool" where
  "space_invariants s all_vps pid sp \<longleftrightarrow> kip_area sp = Nilpage \<or> vm_utcb_area sp = Nilpage \<or>
     (\<forall>a. vps s (Vp pid a) \<noteq> None \<longrightarrow> Vp pid a \<in> set all_vps
        \<and> (\<exists>mm l. find_lazy_mmap (last_mmap sp) (maps sp) (a AND NOT 0xfff) = Some (Some mm, l)))
     \<and> list_all (\<lambda>mm. mm_tailsz mm \<le> PAGE_SIZE) (rb_keys (maps sp))
     \<and> \<not> fpage_overlap (kip_area sp) (vm_utcb_area sp) \<and> \<not> fpage_overlap (kip_area sp) (sysinfo_area sp)
     \<and> \<not> fpage_overlap (vm_utcb_area sp) (sysinfo_area sp)"

definition all_space_invariants :: "vm \<Rightarrow> vpref list \<Rightarrow> bool" where
  "all_space_invariants s all_vps \<longleftrightarrow> (\<forall>pid sp. spaces s pid = Some sp \<longrightarrow> space_invariants s all_vps pid sp)"

text \<open>The owners of shared pages, sorted, without repetitions; the loop starts at the second element.\<close>

definition owner_vps :: "vm \<Rightarrow> vpref list" where
  "owner_vps s = sort (List.map_filter (\<lambda>r. powner s (vp_page s r)) (share_table s))"

definition uniq_owners :: "vm \<Rightarrow> vpref list" where
  "uniq_owners s = remdups_adj (tl (owner_vps s))"

definition share_table_invariants :: "vm \<Rightarrow> vpref list \<Rightarrow> bool" where
  "share_table_invariants s all_vps \<longleftrightarrow>
     list_all (\<lambda>r. vps s r \<noteq> None \<and> vp_page s r < 2 ^ 31 \<and> r \<in> set all_vps
       \<and> (case powner s (vp_page s r) of None \<Rightarrow> True
          | Some ow \<Rightarrow> vps s ow \<noteq> None \<and> vp_page s ow = vp_page s r \<and> r \<noteq> ow \<and> ow \<in> set all_vps)) (share_table s)
     \<and> list_all (\<lambda>ow. ow \<notin> set (share_table s)) (uniq_owners s)
     \<and> length (share_table s @ uniq_owners s) \<le> length all_vps
     \<and> distinct (share_table s @ uniq_owners s)"

definition PL_IS_ANON :: "vm \<Rightarrow> nat \<Rightarrow> bool" where
  "PL_IS_ANON s p \<longleftrightarrow> pl_fsid (links s p) = pidof_NP (vm_self s) (vm_self s)"

definition has_anon_mmaps :: "u64 \<Rightarrow> nat \<Rightarrow> vm \<Rightarrow> bool" where
  "has_anon_mmaps ino n s \<longleftrightarrow> n \<le> length (filter (\<lambda>e. case mm_of s e of None \<Rightarrow> False | Some mm \<Rightarrow> mm_ino mm = ino) (anon_mmap_table s))"

text \<open>The users of a cached page; the check may find any of them first.\<close>

definition pc_link_ok :: "vm \<Rightarrow> vpref list \<Rightarrow> nat \<Rightarrow> bool" where
  "pc_link_ok s all_vps p =
     (let vs = filter (\<lambda>r. vp_page s r = p) all_vps in
      (PL_IS_ANON s p \<longrightarrow> has_anon_mmaps (pl_ino (links s p)) 1 s)
      \<and> (vs = [] \<longrightarrow> powner s p = None \<and> \<not> has_shares p 1 s)
      \<and> list_all (\<lambda>r. (powner s p = Some r \<or> has_shares p 1 s) \<and> (case vps s r of None \<Rightarrow> False | Some v \<Rightarrow> \<not> vp_is_anon v \<and> vp_is_shared v)) vs)"

definition pc_link_overrun :: "vm \<Rightarrow> vpref list \<Rightarrow> nat \<Rightarrow> bool" where
  "pc_link_overrun s all_vps p \<longleftrightarrow> list_ex (\<lambda>r. vp_page s r = p) all_vps \<and> list_all (\<lambda>r. vp_page s r \<le> p) all_vps"

fun pc_links_invariants :: "vm \<Rightarrow> vpref list \<Rightarrow> nat list \<Rightarrow> bool option" where
  "pc_links_invariants s all_vps [] = Some True"
| "pc_links_invariants s all_vps (p # ps) =
     (if \<not> pc_link_ok s all_vps p then Some False
      else if pc_link_overrun s all_vps p then None
      else pc_links_invariants s all_vps ps)"

definition pc_invariants :: "vm \<Rightarrow> vpref list \<Rightarrow> bool option" where
  "pc_invariants s all_vps = pc_links_invariants s all_vps (page_cache s)"

definition page_vps :: "vm \<Rightarrow> nat \<Rightarrow> vpref list" where
  "page_vps s p = (case powner s p of None \<Rightarrow> [] | Some r \<Rightarrow> [r]) @ filter (\<lambda>r. vp_page s r = p) (share_table s)"

definition page_invariants :: "nat \<Rightarrow> vm \<Rightarrow> nat \<Rightarrow> bool" where
  "page_invariants pp_first s p \<longleftrightarrow> pp_first \<le> p
     \<and> (p \<in> set (page_free_list s) \<longrightarrow> powner s p = None)
     \<and> (p \<in> set (page_active_list s) \<longrightarrow> powner s p \<noteq> None \<or> has_shares p 1 s)
     \<and> list_all (\<lambda>r. vp_invariants s r p) (page_vps s p)"

definition invariants :: "nat \<Rightarrow> nat \<Rightarrow> vm \<Rightarrow> bool option" where
  "invariants pp_first pp_total s =
     (let pages = page_free_list s @ page_active_list s @ page_cache s; all_vps = concat (map (page_vps s) pages) in
      if \<exists>p \<in> set pages. pp_first + pp_total \<le> p then None
      else if \<not> (distinct pages \<and> list_all (page_invariants pp_first s) pages \<and> list_all (\<lambda>p. p \<in> set pages) [pp_first ..< pp_first + pp_total] \<and> distinct all_vps
        \<and> all_space_invariants s all_vps \<and> share_table_invariants s all_vps) then Some False
      else pc_invariants s all_vps)"

section \<open>Reachable states pass it\<close>

definition pages_listed :: "vm \<Rightarrow> nat list" where "pages_listed s = page_free_list s @ page_active_list s @ page_cache s"

definition vps_listed :: "vm \<Rightarrow> vpref list" where "vps_listed s = concat (map (page_vps s) (pages_listed s))"

lemma page_vps_iff:
  assumes "vm_inv P s"
  shows "r \<in> set (page_vps s p) \<longleftrightarrow> (\<exists>v. vps s r = Some v \<and> vp_status v = p)"
proof -
  have l: "inv_refs s" using assms by (simp add: vm_inv_def)
  have o: "\<exists>v. vps s r = Some v \<and> vp_status v = p" if "powner s p = Some r" using l that unfolding inv_refs_def by blast
  have t: "vps s r \<noteq> None" if "r \<in> set (share_table s)" using l that unfolding inv_refs_def by blast
  show ?thesis using o t vm_inv_vp(2) [OF assms, of r] by (auto simp: page_vps_def vp_page_def split: option.splits)
qed

lemma page_vps_distinct:
  assumes "vm_inv P s"
  shows "distinct (page_vps s p)"
proof -
  have l: "inv_refs s" using assms by (simp add: vm_inv_def)
  have "r \<notin> set (share_table s)" if "powner s p = Some r" for r
  proof -
    obtain v where "vps s r = Some v" "vp_status v = p" using l \<open>powner s p = Some r\<close> unfolding inv_refs_def by blast
    then show ?thesis using vm_inv_vp(2) [OF assms] that by auto
  qed
  moreover have "distinct (share_table s)" using l by (simp add: inv_refs_def)
  ultimately show ?thesis by (auto simp: page_vps_def split: option.split)
qed

lemma vps_listed_iff: "vm_inv P s \<Longrightarrow> r \<in> set (vps_listed s) \<longleftrightarrow> vps s r \<noteq> None"
  using vm_inv_vp(1) [of P s r] by (fastforce simp: vps_listed_def pages_listed_def page_vps_iff)

lemma vps_listed_distinct:
  assumes "vm_inv P s"
  shows "distinct (vps_listed s)"
proof -
  have "distinct (concat (map (page_vps s) ps))" if "distinct ps" for ps
    using that
  proof (induction ps)
    case (Cons p ps)
    then show ?case using page_vps_distinct [OF assms] page_vps_iff [OF assms] by auto
  qed simp
  moreover have "distinct (pages_listed s)" using assms by (simp add: vm_inv_def inv_lists_def pages_listed_def)
  ultimately show ?thesis by (simp add: vps_listed_def)
qed

lemma page_invariants_ok:
  assumes inv: "vm_inv P s" and P: "\<forall>p \<in> P. pp_first \<le> p \<and> 0 < p \<and> p < 2 ^ 31" and p: "p \<in> set (pages_listed s)"
  shows "page_invariants pp_first s p"
proof -
  have l: "inv_lists P s" "inv_free s" "inv_active s" using inv by (auto simp: vm_inv_def)
  have pP: "p \<in> P" using l(1) p by (simp add: inv_lists_def pages_listed_def)
  have "powner s p \<noteq> None \<or> has_shares p 1 s" if "p \<in> set (page_active_list s)"
  proof -
    have "\<exists>r. r \<in> set (page_vps s p)" using l(3) that unfolding page_vps_iff [OF inv] inv_active_def by blast
    then show ?thesis by (auto simp: page_vps_def has_shares_1 [unfolded One_nat_def] split: option.splits)
  qed
  moreover have "vp_invariants s r p" if "r \<in> set (page_vps s p)" for r
    using that pP P vm_inv_vp(3) [OF inv, of r] unfolding page_vps_iff [OF inv] by (auto simp: vp_invariants_def)
  ultimately show ?thesis using l(2) pP P by (auto simp: page_invariants_def inv_free_def list_all_iff)
qed

lemma all_space_ok:
  assumes "vm_ok P s"
  shows "all_space_invariants s (vps_listed s)"
  unfolding all_space_invariants_def
proof (intro allI impI)
  fix pid sp assume sp: "spaces s pid = Some sp"
  note c = vm_okD(3) [OF assms]
  have al: "mm_tailsz m \<le> PAGE_SIZE" if "m \<in> set (rb_keys (maps sp))" for m using c sp that by (auto simp: vm_cov_def mm_aligned_def)
  have mo: "maps_ok (maps sp)" using vm_ok_space [OF assms sp] by (simp add: space_ok_def)
  have "\<exists>mm l. find_lazy_mmap (last_mmap sp) (maps sp) (a AND NOT 0xfff) = Some (Some mm, l)" if "vps s (Vp pid a) \<noteq> None" for a
  proof -
    have "vp_addr (Vp pid a) AND 0xfff = 0 \<and> (\<exists>sp. spaces s (vp_pid (Vp pid a)) = Some sp \<and> (\<exists>m \<in> set (rb_keys (maps sp)). mm_has m (unat (vp_addr (Vp pid a)))))"
      using c that unfolding vm_cov_def by blast
    then obtain m where m: "a AND 0xfff = 0" "m \<in> set (rb_keys (maps sp))" "mm_has m (unat a)" using sp by auto
    have "a AND NOT 0xfff = a" using page_floor_add [of a] m(1) by (metis add.right_neutral)
    moreover obtain l where "find_lazy_mmap (last_mmap sp) (maps sp) a = Some (maps_search a (maps sp), l)" by (rule vm_ok_find [OF assms sp])
    moreover have "maps_search a (maps sp) \<noteq> None" using maps_search_None [of "maps sp" a] mo m by (auto simp: maps_ok_def)
    ultimately show ?thesis by auto
  qed
  then show "space_invariants s (vps_listed s) pid sp"
    using al areas_ok_sp [OF vm_okD(4) [OF assms] sp] vps_listed_iff [OF vm_okD(1) [OF assms]]
    by (auto simp: space_invariants_def areas_apart_def sp_areas_def list_all_iff)
qed

lemma sorted_remdups_adj_distinct: "sorted xs \<Longrightarrow> distinct (remdups_adj xs)" for xs :: "'a :: linorder list"
  by (induction xs rule: remdups_adj.induct) auto

lemma uniq_owners_ok:
  assumes inv: "vm_inv P s"
  shows "distinct (uniq_owners s)" "set (uniq_owners s) \<subseteq> {ow. vps s ow \<noteq> None \<and> ow \<notin> set (share_table s)}"
proof -
  have "sorted (tl (owner_vps s))" by (cases "owner_vps s") (use sorted_sort [of "List.map_filter (\<lambda>r. powner s (vp_page s r)) (share_table s)"] in \<open>auto simp: owner_vps_def\<close>)
  then show "distinct (uniq_owners s)" unfolding uniq_owners_def by (rule sorted_remdups_adj_distinct)
  show "set (uniq_owners s) \<subseteq> {ow. vps s ow \<noteq> None \<and> ow \<notin> set (share_table s)}"
  proof
    fix ow assume "ow \<in> set (uniq_owners s)"
    then have "ow \<in> set (owner_vps s)" by (auto simp: uniq_owners_def dest: list.set_sel(2) [rotated]) (metis list.sel(2) list.set_sel(2))
    then obtain r where "powner s (vp_page s r) = Some ow" by (auto simp: owner_vps_def map_filter_def)
    then obtain v where v: "vps s ow = Some v" "vp_status v = vp_page s r" "powner s (vp_page s r) = Some ow" using inv unfolding vm_inv_def inv_refs_def by blast
    then show "ow \<in> {ow. vps s ow \<noteq> None \<and> ow \<notin> set (share_table s)}" using vm_inv_vp(2) [OF inv v(1)] by auto
  qed
qed

lemma share_table_ok:
  assumes inv: "vm_inv P s" and P: "\<forall>p \<in> P. 0 < p \<and> p < 2 ^ 31"
  shows "share_table_invariants s (vps_listed s)"
proof -
  have l: "inv_refs s" "inv_lists P s" using inv by (auto simp: vm_inv_def)
  have st: "distinct (share_table s)" "\<And>r. r \<in> set (share_table s) \<Longrightarrow> vps s r \<noteq> None" using l(1) by (auto simp: inv_refs_def)
  note u = uniq_owners_ok [OF inv]
  have d: "distinct (share_table s @ uniq_owners s)" using st(1) u by auto
  have "set (share_table s @ uniq_owners s) \<subseteq> set (vps_listed s)" using st(2) u(2) vps_listed_iff [OF inv] by auto
  then have "card (set (share_table s @ uniq_owners s)) \<le> card (set (vps_listed s))" by (intro card_mono) simp_all
  then have "length (share_table s @ uniq_owners s) \<le> length (vps_listed s)"
    using distinct_card [OF d] distinct_card [OF vps_listed_distinct [OF inv]] by simp
  moreover have "vp_page s r < 2 ^ 31 \<and> (case powner s (vp_page s r) of None \<Rightarrow> True
          | Some ow \<Rightarrow> vps s ow \<noteq> None \<and> vp_page s ow = vp_page s r \<and> r \<noteq> ow \<and> ow \<in> set (vps_listed s))" if r: "r \<in> set (share_table s)" for r
  proof -
    obtain v where v: "vps s r = Some v" using st(2) r by blast
    have "vp_status v \<in> P" using vm_inv_vp(1) [OF inv v] l(2) by (auto simp: inv_lists_def)
    moreover have "\<exists>w. vps s ow = Some w \<and> vp_status w = vp_status v \<and> r \<noteq> ow" if "powner s (vp_status v) = Some ow" for ow
      using l(1) that vm_inv_vp(2) [OF inv v] r unfolding inv_refs_def by metis
    ultimately show ?thesis using v P vps_listed_iff [OF inv] by (fastforce simp: vp_page_def split: option.split)
  qed
  ultimately show ?thesis using d u(2) st(2) vps_listed_iff [OF inv] unfolding share_table_invariants_def list_all_iff by fastforce
qed

lemma pc_ok:
  assumes inv: "vm_inv P s"
  shows "p \<in> set (page_cache s) \<Longrightarrow> pc_link_ok s (vps_listed s) p \<longleftrightarrow> (PL_IS_ANON s p \<longrightarrow> has_anon_mmaps (pl_ino (links s p)) 1 s)"
proof -
  have g: "(filter (\<lambda>r. vp_page s r = p) (vps_listed s) = [] \<longrightarrow> powner s p = None \<and> \<not> has_shares p 1 s)
      \<and> list_all (\<lambda>r. (powner s p = Some r \<or> has_shares p 1 s) \<and> (case vps s r of None \<Rightarrow> False | Some v \<Rightarrow> \<not> vp_is_anon v \<and> vp_is_shared v))
          (filter (\<lambda>r. vp_page s r = p) (vps_listed s))"
    if p: "p \<in> set (page_cache s)" for p
  proof
    have e: "r \<in> set (filter (\<lambda>r. vp_page s r = p) (vps_listed s)) \<longleftrightarrow> r \<in> set (page_vps s p)" for r
      unfolding page_vps_iff [OF inv] using vps_listed_iff [OF inv] by (auto simp: vp_page_def)
    show "filter (\<lambda>r. vp_page s r = p) (vps_listed s) = [] \<longrightarrow> powner s p = None \<and> \<not> has_shares p 1 s"
    proof
      assume "filter (\<lambda>r. vp_page s r = p) (vps_listed s) = []"
      then have "set (page_vps s p) = {}" using e by (metis all_not_in_conv empty_set)
      then show "powner s p = None \<and> \<not> has_shares p 1 s" by (cases "powner s p") (auto simp: page_vps_def has_shares_1 [unfolded One_nat_def] filter_empty_conv split: option.splits)
    qed
    have "(powner s p = Some r \<or> has_shares p 1 s) \<and> (case vps s r of None \<Rightarrow> False | Some v \<Rightarrow> \<not> vp_is_anon v \<and> vp_is_shared v)" if r: "r \<in> set (page_vps s p)" for r
    proof -
      obtain v where v: "vps s r = Some v" "vp_status v = p" using r page_vps_iff [OF inv] by auto
      have "p \<notin> set (page_active_list s)" using inv p by (auto simp: vm_inv_def inv_lists_def)
      then show ?thesis using v vm_inv_vp(4,5) [OF inv v(1)] r by (auto simp: page_vps_def has_shares_1 [unfolded One_nat_def] split: option.splits)
    qed
    then show "list_all (\<lambda>r. (powner s p = Some r \<or> has_shares p 1 s) \<and> (case vps s r of None \<Rightarrow> False | Some v \<Rightarrow> \<not> vp_is_anon v \<and> vp_is_shared v))
          (filter (\<lambda>r. vp_page s r = p) (vps_listed s))" using e unfolding list_all_iff by blast
  qed
  show "pc_link_ok s (vps_listed s) p \<longleftrightarrow> (PL_IS_ANON s p \<longrightarrow> has_anon_mmaps (pl_ino (links s p)) 1 s)" if "p \<in> set (page_cache s)"
    using g [OF that] unfolding pc_link_ok_def Let_def by blast
qed

lemma pc_links_cases:
  "case pc_links_invariants s vs ps of None \<Rightarrow> \<exists>p \<in> set ps. pc_link_overrun s vs p
     | Some b \<Rightarrow> (if b then \<forall>p \<in> set ps. pc_link_ok s vs p \<and> \<not> pc_link_overrun s vs p else \<exists>p \<in> set ps. \<not> pc_link_ok s vs p)"
  by (induction ps) (auto split: option.splits if_splits)

text \<open>The page with the highest number in use.\<close>

definition top_page :: "vm \<Rightarrow> nat \<Rightarrow> bool" where
  "top_page s p \<longleftrightarrow> (\<exists>r v. vps s r = Some v \<and> vp_status v = p) \<and> (\<forall>r v. vps s r = Some v \<longrightarrow> vp_status v \<le> p)"

lemma overrun_iff:
  assumes "vm_inv P s"
  shows "pc_link_overrun s (vps_listed s) p \<longleftrightarrow> top_page s p"
proof -
  have "list_ex (\<lambda>r. vp_page s r = p) (vps_listed s) \<longleftrightarrow> (\<exists>r v. vps s r = Some v \<and> vp_status v = p)"
    unfolding list_ex_iff Bex_def vps_listed_iff [OF assms] by (force simp: vp_page_def)
  moreover have "list_all (\<lambda>r. vp_page s r \<le> p) (vps_listed s) \<longleftrightarrow> (\<forall>r v. vps s r = Some v \<longrightarrow> vp_status v \<le> p)"
    unfolding list_all_iff Ball_def vps_listed_iff [OF assms] by (force simp: vp_page_def)
  ultimately show ?thesis by (simp add: pc_link_overrun_def top_page_def)
qed

lemma invariants_ok:
  assumes ok: "vm_ok P s" and P: "P = {pp_first ..< pp_first + pp_total}" "0 < pp_first" "pp_first + pp_total \<le> 2 ^ 31"
  shows "case invariants pp_first pp_total s of None \<Rightarrow> \<exists>p \<in> set (page_cache s). top_page s p
     | Some b \<Rightarrow> (if b then \<forall>p \<in> set (page_cache s). (PL_IS_ANON s p \<longrightarrow> has_anon_mmaps (pl_ino (links s p)) 1 s) \<and> \<not> top_page s p
         else \<exists>p \<in> set (page_cache s). PL_IS_ANON s p \<and> \<not> has_anon_mmaps (pl_ino (links s p)) 1 s)"
proof -
  note inv = vm_okD(1) [OF ok]
  have P': "\<forall>p \<in> P. pp_first \<le> p \<and> 0 < p \<and> p < 2 ^ 31" "\<forall>p \<in> P. 0 < p \<and> p < 2 ^ 31" using P by auto
  have l: "distinct (pages_listed s)" "set (pages_listed s) = P" using inv by (auto simp: vm_inv_def inv_lists_def pages_listed_def)
  have "invariants pp_first pp_total s = pc_links_invariants s (vps_listed s) (page_cache s)"
    unfolding invariants_def Let_def pages_listed_def [symmetric] vps_listed_def [symmetric] pc_invariants_def
    using page_invariants_ok [OF inv P'(1)] vps_listed_distinct [OF inv] all_space_ok [OF ok] share_table_ok [OF inv P'(2)] l P
    by (auto simp: list_all_iff)
  then show ?thesis using pc_links_cases [where s = s and vs = "vps_listed s" and ps = "page_cache s"] pc_ok [OF inv] overrun_iff [OF inv]
    by (auto split: option.splits if_splits)
qed

end
