(* ===== verification/Vm_Examples.thy ===== *)
theory Vm_Examples
  imports Vm_Invariants
begin

text \<open>
  A run of the virtual memory server, call by call: an address space is made and configured, two pages of it are touched, files are mapped into it.
  The states serve as the concrete inputs at which the theorems about the server are applied.
\<close>

definition ex_self :: l4_tid where "ex_self = \<lparr>is_local = False, tid_version = 0x15, tid_threadno = 0x20000\<rparr>"

definition ex_serv :: l4_tid where "ex_serv = \<lparr>is_local = False, tid_version = 0x15, tid_threadno = 0x20100\<rparr>"

definition ex_reader :: reader where
  "ex_reader t ino pos = (if pidof_NP ex_self t = 0 then Inl (- 5) else Inr [7])"

definition ex_s0 :: vm where "ex_s0 = vm_start [1, 2, 3] ex_self 0xbfffffff"

definition ex_sp0 :: vm_space where
  "ex_sp0 = \<lparr>kip_area = FpageOnes, vm_utcb_area = Nilpage, sysinfo_area = Nilpage, maps = RB_NULL, last_mmap = 0, brk = 0, mmap_bot = 0xbfffffff\<rparr>"

definition ex_mm :: lazy_mmap where
  "ex_mm = \<lparr>mm_ptr = 1, mm_addr = 0x10000, mm_length = 0x1f0000, mm_flags = 0x70022, mm_fd_serv = L4_nilthread, mm_ino = 0, mm_offset = 0, mm_tailsz = 0\<rparr>"

definition ex_space :: "maps \<Rightarrow> nat \<Rightarrow> vm_space" where
  "ex_space t l = \<lparr>kip_area = Fpage 0x200000 0x1000, vm_utcb_area = Fpage 0x300000 0x1000, sysinfo_area = Fpage 0x201000 0x1000,
     maps = t, last_mmap = l, brk = 0, mmap_bot = 0xbfffffff\<rparr>"

definition ex_s1 :: vm where "ex_s1 = set_space 1 ex_sp0 ex_s0"

definition ex_s2 :: vm where "ex_s2 = (set_space 1 (ex_space (RB_NODE RB_BLACK RB_NULL ex_mm RB_NULL) 0) ex_s0)\<lparr>next_ptr := 2\<rparr>"

lemmas ex_defs = ex_s0_def vm_start_def ex_sp0_def ex_mm_def ex_space_def ex_s1_def ex_s2_def set_space_def

lemma ex_reader_ok: "reader_ok ex_self ex_reader"
proof -
  have "pidof_NP ex_self ex_self \<noteq> 0" by code_simp
  then show ?thesis by (simp add: reader_ok_def ex_reader_def)
qed

lemma ex_step1: "vm_fork (\<lambda>_. True) (\<lambda>_. True) 0 [] 50001 0 1 ex_s0 = Some (1, ex_s1)"
  by (simp add: vm_fork_def ex_defs)

lemmas reserve_simps = reserve_mmap_def nogo_areas_def RANGE_IN_FPAGE_def OVERLAP_EXCL_def IS_ANON_MMAP_def insert_lazy_mmap_def rb_insert_at_def

lemma ex_step2: "vm_configure True 1 (Fpage 0x300000 0x1000) (Fpage 0x200000 0x1000) ex_s1 = Some ((0, 0x300fff), ex_s2)"
  by (simp add: vm_configure_def fpage_overlap_def reserve_simps ex_defs)

lemma ex_reach2: "vm_reach [1, 2, 3] ex_s2"
proof -
  have "vm_reach [1, 2, 3] ex_s0" unfolding ex_s0_def by (rule reach_start) simp
  then have "vm_reach [1, 2, 3] ex_s1" by (rule reach_step) (rule step_fork [OF ex_step1], simp_all add: ex_defs)
  moreover have "fpage_wf (Fpage 0x200000 0x1000)"
    unfolding fpage_wf_def by (rule disjI2, rule exI [of _ "0x200000"], rule exI [of _ "12 :: nat"]) simp
  ultimately show ?thesis by (rule reach_step [OF _ step_configure [OF ex_step2]])
qed

definition ex_page :: "nat \<Rightarrow> vp" where
  "ex_page p = \<lparr>vp_rights = 7, vp_is_shared = False, vp_is_anon = True, vp_is_cow = False, vp_status = p\<rparr>"

definition ex_zeros :: "u8 list" where "ex_zeros = replicate PAGE_SIZE 0"

definition ex_sp2 :: vm_space where "ex_sp2 = ex_space (RB_NODE RB_BLACK RB_NULL ex_mm RB_NULL) 1"

definition ex_s3 :: vm where
  "ex_s3 = (set_space 1 ex_sp2 ex_s0)\<lparr>next_ptr := 2, page_free_list := [2, 3], page_active_list := [1], powner := [1 \<mapsto> Vp 1 0x10000],
     vps := [Vp 1 0x10000 \<mapsto> ex_page 1], mem := (\<lambda>_. [])(1 := ex_zeros)\<rparr>"

definition ex_s4 :: vm where
  "ex_s4 = ex_s3\<lparr>page_free_list := [3], page_active_list := [2, 1], powner := [1 \<mapsto> Vp 1 0x10000, 2 \<mapsto> Vp 1 0x11000],
     vps := [Vp 1 0x10000 \<mapsto> ex_page 1, Vp 1 0x11000 \<mapsto> ex_page 2], mem := (\<lambda>_. [])(1 := ex_zeros, 2 := ex_zeros)\<rparr>"

lemmas ex_pf_simps = vm_pf_def vm_pf_new_def find_lazy_mmap_def mm_deref_def fpage_overlap_def new_anon_page_def get_free_pl_def push_active_def mm_rights_def
  set_last_def ex_page_def ex_sp2_def mm_next_def Let_def

lemma ex_step3: "vm_pf ex_reader 1 0x10000 L4_Writable ex_s2 = Some (PF_MAP 1 7 0x10000, ex_s3)"
  by (simp add: ex_pf_simps ex_zeros_def [symmetric] ex_s3_def ex_defs)

lemma ex_step4: "vm_pf ex_reader 1 0x11234 L4_Readable ex_s3 = Some (PF_MAP 2 7 0x11000, ex_s4)"
  by (simp add: ex_pf_simps ex_zeros_def [symmetric] ex_s4_def ex_s3_def ex_defs)

lemma ex_reach3: "vm_reach [1, 2, 3] ex_s3"
  by (rule reach_step [OF ex_reach2 step_pf [OF ex_step3]]) (use ex_reader_ok in \<open>simp add: ex_defs\<close>)

lemma ex_reach4: "vm_reach [1, 2, 3] ex_s4"
  by (rule reach_step [OF ex_reach3 step_pf [OF ex_step4]]) (use ex_reader_ok in \<open>simp add: ex_s3_def ex_defs\<close>)

text \<open>The process forks.\<close>

definition ex_shared :: "nat \<Rightarrow> vp" where
  "ex_shared p = \<lparr>vp_rights = 5, vp_is_shared = False, vp_is_anon = True, vp_is_cow = True, vp_status = p\<rparr>"

definition ex_s5 :: vm where
  "ex_s5 = ex_s4\<lparr>spaces := [1 \<mapsto> ex_sp2, 2 \<mapsto> ex_space (RB_NODE RB_BLACK RB_NULL (ex_mm\<lparr>mm_ptr := 2\<rparr>) RB_NULL) 0], next_ptr := 3,
     vps := [Vp 1 0x10000 \<mapsto> ex_shared 1, Vp 1 0x11000 \<mapsto> ex_shared 2, Vp 2 0x10000 \<mapsto> ex_shared 1, Vp 2 0x11000 \<mapsto> ex_shared 2],
     share_table := [Vp 2 0x11000, Vp 2 0x10000], unmaps := [(2, 2), (1, 2)]\<rparr>"

lemma ex_step5: "vm_fork (\<lambda>_. True) (\<lambda>_. True) 0 [0x10000, 0x11000] 50001 1 2 ex_s4 = Some (2, ex_s5)"
  by (simp add: vm_fork_def insert_lazy_mmap_def rb_insert_at_def IS_ANON_MMAP_def vp_cow_copy_def vp_writable_def add_share_def Let_def fun_upd_twist
      ex_page_def ex_shared_def ex_sp2_def ex_s5_def ex_s4_def ex_s3_def ex_defs)

lemma ex_reach5: "vm_reach [1, 2, 3] ex_s5"
  by (rule reach_step [OF ex_reach4 step_fork [OF ex_step5]]) (simp_all add: ex_s4_def ex_s3_def ex_defs)

text \<open>More mappings: two of anonymous memory, out of order; a file, shared and writable; a file, private and read-only.\<close>

definition ex_anon :: "nat \<Rightarrow> u32 \<Rightarrow> lazy_mmap" where
  "ex_anon n a = \<lparr>mm_ptr = n, mm_addr = a, mm_length = 0x1000, mm_flags = 0x60022, mm_fd_serv = L4_nilthread, mm_ino = 0, mm_offset = 0, mm_tailsz = 0\<rparr>"

definition ex_a1 :: vm where
  "ex_a1 = (set_space 1 (ex_space (RB_NODE RB_BLACK RB_NULL ex_mm (RB_NODE RB_RED RB_NULL (ex_anon 2 0x30000000) RB_NULL)) 0) ex_s0)\<lparr>next_ptr := 3\<rparr>"

definition ex_a2 :: vm where
  "ex_a2 = (set_space 1 (ex_space (RB_NODE RB_BLACK (RB_NODE RB_RED RB_NULL ex_mm RB_NULL) (ex_anon 3 0x20000000) (RB_NODE RB_RED RB_NULL (ex_anon 2 0x30000000) RB_NULL)) 0) ex_s0)\<lparr>next_ptr := 4\<rparr>"

lemmas ex_mmap_simps = vm_mmap_def reserve_simps PAGE_CEIL_def prot_to_l4_rights_def mm_last_def Let_def

lemma ex_mmap1: "vm_mmap True True 0 1 0 0x30000000 0x1000 3 0x32 L4_nilthread 0 0 ex_s2 = Some ((0, 0x30000000), ex_a1)"
  by (simp add: ex_mmap_simps ex_anon_def ex_a1_def ex_defs)

lemma ex_mmap2: "vm_mmap True True 0 1 0 0x20000000 0x1000 3 0x32 L4_nilthread 0 0 ex_a1 = Some ((0, 0x20000000), ex_a2)"
  by (simp add: ex_mmap_simps ex_anon_def ex_a2_def ex_a1_def ex_defs)

lemma ex_reach_a2: "vm_reach [1, 2, 3] ex_a2"
proof -
  have "vm_reach [1, 2, 3] ex_a1"
    by (rule reach_step [OF ex_reach2 step_mmap [OF ex_mmap1]]) (simp add: range_ok_def PAGE_CEIL_def)
  then show ?thesis by (rule reach_step [OF _ step_mmap [OF ex_mmap2]]) (simp add: range_ok_def PAGE_CEIL_def)
qed

definition ex_file :: "u32 \<Rightarrow> lazy_mmap" where
  "ex_file fl = \<lparr>mm_ptr = 2, mm_addr = 0x40000000, mm_length = 0x2000, mm_flags = fl, mm_fd_serv = ex_serv, mm_ino = 5, mm_offset = 0, mm_tailsz = 0\<rparr>"

definition ex_sp_file :: "u32 \<Rightarrow> nat \<Rightarrow> vm_space" where
  "ex_sp_file fl = ex_space (RB_NODE RB_BLACK RB_NULL ex_mm (RB_NODE RB_RED RB_NULL (ex_file fl) RB_NULL))"

definition ex_f :: "u32 \<Rightarrow> vm" where
  "ex_f fl = (set_space 1 (ex_sp_file fl 0) ex_s0)\<lparr>next_ptr := 3\<rparr>"

lemma ex_mmap_shared: "vm_mmap True True 0 1 0 0x40000000 0x2000 3 0x11 ex_serv 5 0 ex_s2 = Some ((0, 0x40000000), ex_f 0x60001)"
  by (simp add: ex_mmap_simps ex_file_def ex_sp_file_def ex_f_def ex_serv_def L4_nilthread_def ex_defs)

lemma ex_mmap_ro: "vm_mmap True True 0 1 0 0x40000000 0x2000 1 0x12 ex_serv 5 0 ex_s2 = Some ((0, 0x40000000), ex_f 0x40002)"
  by (simp add: ex_mmap_simps ex_file_def ex_sp_file_def ex_f_def ex_serv_def L4_nilthread_def ex_defs)

lemma ex_reach_f: "vm_reach [1, 2, 3] (ex_f 0x60001)" "vm_reach [1, 2, 3] (ex_f 0x40002)"
  by (rule reach_step [OF ex_reach2 step_mmap [OF ex_mmap_shared]], simp add: range_ok_def PAGE_CEIL_def)
    (rule reach_step [OF ex_reach2 step_mmap [OF ex_mmap_ro]], simp add: range_ok_def PAGE_CEIL_def)

text \<open>The first page of the file is read.\<close>

definition ex_fpage :: "rights \<Rightarrow> bool \<Rightarrow> vp" where
  "ex_fpage rs cow = \<lparr>vp_rights = rs, vp_is_shared = True, vp_is_anon = False, vp_is_cow = cow, vp_status = 1\<rparr>"

definition ex_g :: "u32 \<Rightarrow> bool \<Rightarrow> vm" where
  "ex_g fl cow = (set_space 1 (ex_sp_file fl 2) ex_s0)\<lparr>next_ptr := 3, page_free_list := [2, 3], page_cache := [1],
     links := (\<lambda>_. \<lparr>pl_fsid = 0, pl_ino = 0, pl_offset = 0\<rparr>)(1 := \<lparr>pl_fsid = pidof_NP ex_self ex_serv, pl_ino = 5, pl_offset = 0\<rparr>),
     powner := [1 \<mapsto> Vp 1 0x40000000], vps := [Vp 1 0x40000000 \<mapsto> ex_fpage 4 cow], mem := (\<lambda>_. [])(1 := page_fill [7])\<rparr>"

lemma ex_serv_pid [simp]: "pidof_NP ex_self ex_serv \<noteq> 0" by code_simp

lemmas ex_file_simps = pf_mmap_shared_def find_cached_page_def load_cached_page_def is_tail_def add_share_def vp_writable_def

lemma ex_read_shared: "vm_pf ex_reader 1 0x40000000 L4_Readable (ex_f 0x60001) = Some (PF_MAP 1 4 0x40000000, ex_g 0x60001 True)"
  by (simp add: ex_pf_simps ex_file_simps ex_reader_def ex_fpage_def ex_file_def ex_sp_file_def ex_f_def ex_g_def ex_defs)

lemma ex_read_ro: "vm_pf ex_reader 1 0x40000000 L4_Readable (ex_f 0x40002) = Some (PF_MAP 1 4 0x40000000, ex_g 0x40002 False)"
  by (simp add: ex_pf_simps ex_file_simps ex_reader_def ex_fpage_def ex_file_def ex_sp_file_def ex_f_def ex_g_def ex_defs)

lemma ex_reach_g: "vm_reach [1, 2, 3] (ex_g 0x60001 True)" "vm_reach [1, 2, 3] (ex_g 0x40002 False)"
  by (rule reach_step [OF ex_reach_f(1) step_pf [OF ex_read_shared]], use ex_reader_ok in \<open>simp add: ex_f_def ex_defs\<close>)
    (rule reach_step [OF ex_reach_f(2) step_pf [OF ex_read_ro]], use ex_reader_ok in \<open>simp add: ex_f_def ex_defs\<close>)

text \<open>Shared anonymous memory is mapped, its third page is written, and it is unmapped in two pieces.\<close>

definition ex_shm :: "u32 \<Rightarrow> u32 \<Rightarrow> lazy_mmap" where
  "ex_shm a len = \<lparr>mm_ptr = 2, mm_addr = a, mm_length = len, mm_flags = 0x60021, mm_fd_serv = ex_self, mm_ino = 1, mm_offset = 0, mm_tailsz = 0\<rparr>"

definition ex_l :: "maps \<Rightarrow> nat \<Rightarrow> vm" where
  "ex_l t l = (set_space 1 (ex_space (RB_NODE RB_BLACK RB_NULL ex_mm t) l) ex_s0)\<lparr>next_ptr := 3, next_anon_ino := 2\<rparr>"

definition ex_l1 :: vm where "ex_l1 = (ex_l (RB_NODE RB_RED RB_NULL (ex_shm 0x40000000 0x4000) RB_NULL) 0)\<lparr>anon_mmap_table := [(1, 2)]\<rparr>"

definition ex_cached :: "vm \<Rightarrow> vm" where
  "ex_cached s = s\<lparr>page_free_list := [2, 3], page_cache := [1],
     links := (\<lambda>_. \<lparr>pl_fsid = 0, pl_ino = 0, pl_offset = 0\<rparr>)(1 := \<lparr>pl_fsid = pidof_NP ex_self ex_self, pl_ino = 1, pl_offset = 2\<rparr>),
     mem := (\<lambda>_. [])(1 := page_fill [])\<rparr>"

definition ex_touched :: "vm \<Rightarrow> vm" where
  "ex_touched s = (ex_cached s)\<lparr>anon_mmap_table := [(1, 2)], powner := [1 \<mapsto> Vp 1 0x40002000],
     vps := [Vp 1 0x40002000 \<mapsto> \<lparr>vp_rights = 6, vp_is_shared = True, vp_is_anon = False, vp_is_cow = False, vp_status = 1\<rparr>]\<rparr>"

definition ex_l2 :: vm where "ex_l2 = ex_touched (ex_l (RB_NODE RB_RED RB_NULL (ex_shm 0x40000000 0x4000) RB_NULL) 2)"
definition ex_l3 :: vm where "ex_l3 = ex_touched (ex_l (RB_NODE RB_RED RB_NULL (ex_shm 0x40002000 0x2000) RB_NULL) 2)"
definition ex_l4 :: vm where "ex_l4 = (ex_cached (ex_l RB_NULL 0))\<lparr>unmaps := [(1, 7)]\<rparr>"

lemmas ex_l_defs = ex_shm_def ex_l_def ex_l1_def ex_l2_def ex_l3_def ex_l4_def ex_cached_def ex_touched_def ex_defs

lemma ex_self_pid [simp]: "pidof_NP ex_self ex_self \<noteq> 0" by code_simp

lemma ex_shm1: "vm_mmap True True 0 1 0 0x40000000 0x4000 3 0x31 L4_nilthread 0 0 ex_s2 = Some ((0, 0x40000000), ex_l1)"
  by (simp add: ex_mmap_simps ex_l_defs)

lemma ex_shm2: "vm_pf ex_reader 1 0x40002000 L4_Writable ex_l1 = Some (PF_MAP 1 6 0x40002000, ex_l2)"
  by (simp add: ex_pf_simps ex_file_simps ex_l_defs)

lemmas ex_munmap_simps = vm_munmap_def munmap_space_def remove_vp_range_def PAGE_CEIL_def VALID_ADDR_SIZE_def pages_of_def first_lazy_mmap_def carve_step_def mm_update_def mm_next_def
  rb_next_mm_def rb_next_def rb_prev_mm_def rb_prev_def rb_erase_def rb_erase_at_def cut_anon_mmap_def mm_last_def remove_vp_def rm_share_def has_shares_def vp_page_def PL_IS_PRIVATE_def
  find_cached_page_def IS_ANON_MMAP_def Let_def upt_rec

lemma ex_shm3: "vm_munmap 1 0x40000000 0x2000 ex_l2 = Some (0, ex_l3)"
  by (simp add: ex_munmap_simps ex_l_defs)

lemma ex_shm4: "vm_munmap 1 0x40002000 0x2000 ex_l3 = Some (0, ex_l4)"
  by (simp add: ex_munmap_simps ex_l_defs)

lemma ex_reach_l4: "vm_reach [1, 2, 3] ex_l4"
proof -
  have "vm_reach [1, 2, 3] ex_l1" by (rule reach_step [OF ex_reach2 step_mmap [OF ex_shm1]]) (simp add: range_ok_def PAGE_CEIL_def)
  then have "vm_reach [1, 2, 3] ex_l2" by (rule reach_step [OF _ step_pf [OF ex_shm2]]) (use ex_reader_ok in \<open>simp add: ex_l_defs\<close>)
  then have "vm_reach [1, 2, 3] ex_l3" by (rule reach_step [OF _ step_munmap [OF ex_shm3]])
  then show ?thesis by (rule reach_step [OF _ step_munmap [OF ex_shm4]])
qed

end
