(* ===== verification/Vm_Props.thy ===== *)
theory Vm_Props
  imports Vm_Examples
begin

text \<open>
  What the virtual memory server does for the processes: faults and fork keep what every process sees, private memory is private,
  unmapping is exact where it works, and where it does not.
\<close>

definition vp_view :: "vm \<Rightarrow> vpref \<Rightarrow> u8 list" where "vp_view s r = mem s (vp_page s r)"

section \<open>Faults\<close>

lemma new_anon_view:
  assumes "vm_inv P s" "new_anon_page r v bs s = Some (v1, s1)" "vps s r' = Some w"
  shows "mem s1 (vp_status w) = mem s (vp_status w)" "mem s1 (vp_status v1) = bs" "vp_status v1 \<in> set (page_free_list s)"
  using assms(2) vm_free_unused [OF assms(1) _ assms(3)]
  by (auto simp: new_anon_page_def get_free_pl_def push_active_def split: list.splits)

lemma load_cached_mem:
  assumes "vm_inv P s" "load_cached_page rd mm bump pos s = Some (Inr (p, s1))" "vps s r' = Some w"
  shows "mem s1 (vp_status w) = mem s (vp_status w)"
  using assms(2) vm_free_unused [OF assms(1) _ assms(3)]
  by (auto simp: load_cached_page_def get_free_pl_def split: list.splits sum.splits if_splits)

lemma pf_shared_mem:
  assumes inv: "vm_inv P s" and rd: "reader_ok (vm_self s) rd" and an: "mm_flags mm AND MAP_ANONYMOUS \<noteq> 0 \<longrightarrow> mm_fd_serv mm = vm_self s"
    and f: "pf_mmap_shared rd mm r v s = Some (Inr (v1, s1))" and w: "vps s r' = Some w"
  shows "mem s1 (vp_status w) = mem s (vp_status w)"
proof -
  define a bump where "a = vp_addr r" and "bump = drop_bit 12 (a - mm_addr mm)"
  note F = f [unfolded pf_mmap_shared_def Let_def, folded a_def, folded bump_def]
  obtain p s0 where s0: "vm_inv P s0" "vps s0 = vps s" "mem s0 (vp_status w) = mem s (vp_status w)"
    and b: "if is_tail mm a then new_anon_page r v (tail_fill (mm_tailsz mm) (mem s0 p)) s0 = Some (v1, s1) else s1 = add_share p r s0"
  proof (cases "find_cached_page mm bump s")
    case (Some p)
    then show thesis using that [of s p] inv F by (auto split: if_splits)
  next
    case None
    then obtain p s0 where l: "load_cached_page rd mm bump (mm_offset mm * 4096 + (a - mm_addr mm)) s = Some (Inr (p, s0))"
      using F by (auto split: option.splits sum.splits)
    note L = load_cached_page_inv [OF inv l load_cached_nonzero [OF l rd an]]
    show thesis using that [of s0 p] L load_cached_mem [OF inv l w] F None l by (auto split: if_splits)
  qed
  show ?thesis
  proof (cases "is_tail mm a")
    case True
    then show ?thesis using b new_anon_view(1) [OF s0(1), of r v _ v1 s1 r' w] s0(2,3) w by simp
  next
    case False
    then show ?thesis using b s0(3) by (simp add: add_share_def)
  qed
qed

lemma pf_private_mem:
  assumes inv: "vm_inv P s" and r: "vps s r = None" and v: "vp_empty v" and rd: "reader_ok (vm_self s) rd" and an: "mm_flags mm AND MAP_ANONYMOUS = 0"
    and f: "pf_mmap_private rd mm r v s = Some (Inr (v1, s1))" and w: "vps s r' = Some w"
  shows "mem s1 (vp_status w) = mem s (vp_status w)"
proof -
  define a bump where "a = vp_addr r" and "bump = drop_bit 12 (a - mm_addr mm)"
  note F = f [unfolded pf_mmap_private_def fetch_cached_page_def Let_def, folded a_def, folded bump_def]
  show ?thesis
  proof (cases "find_cached_page mm bump s")
    case (Some p)
    then obtain bs where "new_anon_page r v bs s = Some (v1, s1)" using F by (auto split: option.splits)
    then show ?thesis using new_anon_view(1) [OF inv _ w] by blast
  next
    case None
    then obtain p s0 where l: "load_cached_page rd mm bump ((mm_offset mm + bump) * 4096) s = Some (Inr (p, s0))"
      using F by (auto split: option.splits sum.splits)
    note L = load_cached_page_inv [OF inv l load_cached_nonzero [OF l rd]]
    obtain bs s2 where n: "new_anon_page r v bs (s0\<lparr>powner := (powner s0)(p := Some r)\<rparr>) = Some (v1, s2)" "mem s1 = mem s2"
      using F None l by (auto split: option.splits if_splits)
    have "vp_status w \<notin> set (page_free_list s0)" using vm_free_unused [of P s0 "vp_status w" r' w] L(1,3) an w by auto
    then have "mem s2 (vp_status w) = mem s0 (vp_status w)" using n(1) by (auto simp: new_anon_page_def get_free_pl_def push_active_def split: list.splits)
    then show ?thesis using n(2) load_cached_mem [OF inv l w] by simp
  qed
qed

lemma vm_pf_new_view:
  assumes inv: "vm_inv P s" and r: "vps s (Vp pid page) = None" and rd: "reader_ok (vm_self s) rd"
    and mm: "IS_ANON_MMAP mm \<longrightarrow> mm_fd_serv mm = vm_self s" and f: "vm_pf_new rd pid page rwx mm s = Some (res, s')" and w: "vps s r' = Some w"
  shows "vp_view s' r' = vp_view s r'"
proof -
  define v where "v = \<lparr>vp_rights = mm_rights mm, vp_is_shared = False, vp_is_anon = False, vp_is_cow = False, vp_status = 0\<rparr>"
  have v: "vp_empty v" by (simp add: v_def vp_empty_def)
  have ne: "r' \<noteq> Vp pid page" using r w by auto
  note F = f [unfolded vm_pf_new_def Let_def, folded v_def]
  obtain v1 and s1 :: vm where s1: "vps s1 = vps s" "mem s' = mem s1" "vps s' = (vps s)(Vp pid page \<mapsto> v1)" "mem s1 (vp_status w) = mem s (vp_status w)"
  proof (cases "mm_flags mm AND MAP_SHARED \<noteq> 0 \<or> \<not> rwx AND L4_Writable \<noteq> 0 \<and> \<not> mm_flags mm AND MAP_ANONYMOUS \<noteq> 0")
    case True
    then obtain v0 s1 where p: "pf_mmap_shared rd mm (Vp pid page) v s = Some (Inr (v0, s1))" using F by (auto split: option.splits sum.splits)
    then obtain v1 where s': "s' = s1\<lparr>vps := (vps s1)(Vp pid page \<mapsto> v1)\<rparr>" using True F by auto
    have "mm_flags mm AND MAP_ANONYMOUS \<noteq> 0 \<longrightarrow> mm_fd_serv mm = vm_self s" using True mm by (auto simp: IS_ANON_MMAP_def)
    from pf_shared_mem [OF inv rd this p w] show thesis using that [of s1 v1] s' pf_mmap_vps(1) [OF p] by simp
  next
    case ns: False
    show thesis
    proof (cases "mm_flags mm AND MAP_ANONYMOUS = 0")
      case True
      then obtain v1 s1 where p: "pf_mmap_private rd mm (Vp pid page) v s = Some (Inr (v1, s1))" "s' = s1\<lparr>vps := (vps s1)(Vp pid page \<mapsto> v1)\<rparr>"
        using F ns by (auto split: option.splits sum.splits)
      from pf_private_mem [OF inv r v rd True p(1) w] show thesis using that [of s1 v1] p(2) pf_mmap_vps(2) [OF p(1)] by simp
    next
      case False
      then obtain v1 s1 where n: "new_anon_page (Vp pid page) v (replicate PAGE_SIZE 0) s = Some (v1, s1)" "s' = s1\<lparr>vps := (vps s1)(Vp pid page \<mapsto> v1)\<rparr>"
        using F ns by (auto split: option.splits)
      from new_anon_view(1) [OF inv n(1) w] show thesis using that [of s1 v1] n(2) new_anon_faulted [OF n(1)] by simp
    qed
  qed
  show ?thesis using s1 w ne by (simp add: vp_view_def vp_page_def)
qed

text \<open>C9. A page fault changes the contents of no page that any process already sees: whatever page the handler takes
  from the free list, fills or copies, each virtual page that existed before shows the same bytes after.\<close>

theorem vm_pf_keeps_views:
  assumes "vm_reach ps s" "reader_ok (vm_self s) rd" "vm_pf rd pid faddr rwx s = Some (res, s')" "vps s r \<noteq> None"
  shows "vp_view s' r = vp_view s r"
proof (cases "mem s' = mem s \<and> vps s' = vps s")
  case True
  then show ?thesis by (simp add: vp_view_def vp_page_def)
next
  case False
  have ok: "vm_ok (set ps) s" by (rule vm_reach_ok) fact
  let ?r = "Vp pid (faddr AND NOT 0xfff)"
  obtain sp where sp: "spaces s pid = Some sp" "vm_utcb_area sp \<noteq> Nilpage" "pid \<le> 32767"
    using assms(3) False by (auto simp: vm_pf_def Let_def split: if_splits option.splits)
  note F = assms(3) [unfolded vm_pf_def Let_def sp option.case]
  obtain w where w: "vps s r = Some w" using assms(4) by blast
  show ?thesis
  proof (cases "vps s ?r")
    case (Some v)
    then obtain v' where c: "vp_is_cow v" "pf_cow ?r v s = Some (v', s')" using F False sp by (auto split: if_splits)
    show ?thesis using pf_cow_contents(5) [OF vm_okD(1) [OF ok] Some c assms(4)] by (simp add: vp_view_def)
  next
    case None
    obtain l where l: "find_lazy_mmap (last_mmap sp) (maps sp) faddr = Some (maps_search faddr (maps sp), l)" "vm_ok (set ps) (set_space pid (sp\<lparr>last_mmap := l\<rparr>) s)"
      by (rule vm_ok_find [OF ok sp(1)])
    let ?s = "set_space pid (sp\<lparr>last_mmap := l\<rparr>) s"
    have e: "set_last pid l s = ?s" "mem ?s = mem s" "vps ?s = vps s" "vm_self ?s = vm_self s" by (simp_all add: set_last_def sp set_space_def)
    obtain mm where mm: "maps_search faddr (maps sp) = Some mm" "vm_pf_new rd pid (faddr AND NOT 0xfff) rwx mm ?s = Some (res, s')"
      using F False None l(1) sp e by (auto split: if_splits option.splits)
    have "mm_list_ok (rb_keys (maps sp))" "\<forall>m \<in> set (rb_keys (maps sp)). mm_known (next_ptr s) (vm_self s) m"
      using vm_ok_space [OF ok sp(1)] by (auto simp: space_ok_def maps_ok_def)
    then have an: "IS_ANON_MMAP mm \<longrightarrow> mm_fd_serv mm = vm_self ?s" using maps_search_Some mm(1) e(4) by (auto simp: mm_known_def)
    from vm_pf_new_view [OF vm_okD(1) [OF l(2)] _ _ an mm(2), of r w] show ?thesis
      using None assms(2) w e by (simp add: vp_view_def vp_page_def)
  qed
qed

theorem vm_pf_keeps_views_witness: "vps ex_s3 (Vp 1 0x10000) \<noteq> None \<and> vp_view ex_s4 (Vp 1 0x10000) = vp_view ex_s3 (Vp 1 0x10000)"
proof -
  have "vps ex_s3 (Vp 1 0x10000) \<noteq> None" "reader_ok (vm_self ex_s3) ex_reader" using ex_reader_ok by (simp_all add: ex_s3_def ex_defs)
  then show ?thesis using vm_pf_keeps_views [OF ex_reach3 _ ex_step4] by blast
qed

text \<open>C7. What a process writes through a writable page of private memory nobody else sees: no other page of any process
  shows the change, and the page that was written shows exactly the bytes written.\<close>

theorem vm_write_isolated:
  assumes "vm_reach ps s" "vps s r = Some v" "vp_is_anon v" "vp_writable v" "vps s r' \<noteq> None"
  shows "vp_view (user_write r bs s) r' = (if r' = r then bs else vp_view s r')"
proof -
  have inv: "vm_inv (set ps) s" using vm_reach_ok [OF assms(1)] by (rule vm_okD)
  have nc: "\<not> vp_is_cow v" using vm_inv_vp(3) [OF inv assms(2)] assms(4) by blast
  obtain w where w: "vps s r' = Some w" using assms(5) by blast
  have "r' = r" if "vp_status w = vp_status v" by (rule vm_inv_vp(6) [OF inv assms(2,3) nc w that])
  then show ?thesis using assms(2) w by (auto simp: vp_view_def vp_page_def user_write_def)
qed

theorem vm_write_isolated_witness: "vp_view (user_write (Vp 1 0x10000) [1] ex_s4) (Vp 1 0x11000) = vp_view ex_s4 (Vp 1 0x11000)"
  using vm_write_isolated [OF ex_reach4, of "Vp 1 0x10000" "ex_page 1" "Vp 1 0x11000" "[1]"]
  by (simp add: ex_s4_def ex_page_def vp_writable_def)

text \<open>C16. A write fault on a copy-on-write page, when a page is free: the process gets a page of private memory, mapped writable, at
  the same address and with the same contents.\<close>

theorem vm_pf_cow_gives_private:
  assumes "vm_reach ps s" "spaces s pid = Some sp" "vm_utcb_area sp \<noteq> Nilpage" "pid \<le> 32767" "rwx AND L4_Writable \<noteq> 0"
    "vps s (Vp pid (faddr AND NOT 0xfff)) = Some v" "vp_is_cow v" "page_free_list s \<noteq> []"
  shows "\<exists>v' s'. vm_pf rd pid faddr rwx s = Some (PF_MAP (vp_status v') (vp_rights v') (faddr AND NOT 0xfff), s')
    \<and> vps s' = (vps s)(Vp pid (faddr AND NOT 0xfff) \<mapsto> v') \<and> vp_is_anon v' \<and> vp_writable v' \<and> \<not> vp_is_cow v' \<and> mem s' (vp_status v') = mem s (vp_status v)"
proof -
  let ?r = "Vp pid (faddr AND NOT 0xfff)"
  have inv: "vm_inv (set ps) s" using vm_reach_ok [OF assms(1)] by (rule vm_okD)
  obtain v' s' where c: "pf_cow ?r v s = Some (v', s')" using pf_cow_eq [OF inv assms(6,7)] assms(8) by (cases "page_free_list s") (auto split: if_splits)
  note C = pf_cow_contents [OF inv assms(6,7) c]
  have "vm_pf rd pid faddr rwx s = Some (PF_MAP (vp_status v') (vp_rights v') (faddr AND NOT 0xfff), s')"
    using assms(2-7) c unfolding vm_pf_def Let_def by simp
  moreover have "mem s' (vp_status v') = mem s (vp_status v)" using C(5) [of ?r] C(1) assms(6) by (simp add: vp_page_def)
  ultimately show ?thesis using C(1-4) by blast
qed

theorem vm_pf_cow_gives_private_witness:
  "\<exists>v' s'. vm_pf ex_reader 2 0x10004 L4_Writable ex_s5 = Some (PF_MAP (vp_status v') (vp_rights v') 0x10000, s')
    \<and> vps s' = (vps ex_s5)(Vp 2 0x10000 \<mapsto> v') \<and> vp_is_anon v' \<and> vp_writable v' \<and> \<not> vp_is_cow v' \<and> mem s' (vp_status v') = mem ex_s5 1"
  using vm_pf_cow_gives_private [OF ex_reach5, of 2 _ L4_Writable "0x10004" "ex_shared 1" ex_reader]
  by (simp add: ex_s5_def ex_s4_def ex_space_def ex_shared_def)

section \<open>Fork\<close>

definition fork_vps :: "nat \<Rightarrow> nat \<Rightarrow> u32 set \<Rightarrow> vm \<Rightarrow> vpref \<Rightarrow> vp option" where
  "fork_vps src dest as s r =
     (case vps s (Vp src (vp_addr r)) of
        Some v \<Rightarrow> if vp_addr r \<in> as \<and> vp_is_anon v \<and> vp_pid r = dest then Some (vp_cow_copy v)
          else if vp_addr r \<in> as \<and> vp_is_anon v \<and> vp_pid r = src then Some (if vp_is_cow v then v else vp_cow_copy v)
          else vps s r
      | None \<Rightarrow> vps s r)"

lemma fork_pages_result:
  assumes "vm_inv P s" "distinct as" "\<forall>a \<in> set as. vps s (Vp dest a) = None" "src \<noteq> dest" "fork_pages ok src dest as s = Some (Inr s')"
  shows "mem s' = mem s \<and> vps s' = fork_vps src dest (set as) s"
  using assms
proof (induction as arbitrary: s)
  case Nil
  then show ?case by (auto simp: fork_vps_def split: option.split)
next
  case (Cons a as)
  obtain v where v: "vps s (Vp src a) = Some v" "vp_is_cow v \<noteq> vp_writable v" using Cons.prems(5) by (auto split: option.splits if_splits)
  have ok: "ok a" using Cons.prems(5) v by (simp split: if_splits)
  show ?case
  proof (cases "vp_is_anon v")
    case False
    then have "fork_pages ok src dest as s = Some (Inr s')" using Cons.prems(5) v ok vm_inv_vp(4) [OF Cons.prems(1) v(1)] by simp
    then have "mem s' = mem s \<and> vps s' = fork_vps src dest (set as) s" using Cons.IH [OF Cons.prems(1)] Cons.prems(2-4) by simp
    moreover have "fork_vps src dest (set as) s = fork_vps src dest (set (a # as)) s"
      using v(1) False by (auto simp: fork_vps_def fun_eq_iff split: option.split)
    ultimately show ?thesis by simp
  next
    case True
    have ns: "\<not> vp_is_shared v" using vm_inv_vp(4) [OF Cons.prems(1) v(1)] True by simp
    define unmap where "unmap \<longleftrightarrow> \<not> vp_is_cow v \<and> vp_writable v"
    define w where "w = (if unmap then vp_cow_copy v else v)"
    define s1 where "s1 = add_share (vp_status v) (Vp dest a) (s\<lparr>vps := (vps s)(Vp dest a \<mapsto> vp_cow_copy v, Vp src a \<mapsto> w)\<rparr>)"
    define s2 where "s2 = (if unmap then s1\<lparr>unmaps := (vp_status v, L4_Writable) # unmaps s1\<rparr> else s1)"
    have r: "fork_pages ok src dest as s2 = Some (Inr s')"
      using Cons.prems(5) v ok True ns unfolding s2_def s1_def w_def by (simp add: unmap_def [symmetric] Let_def)
    have wf: "vp_status w = vp_status v" "vp_is_anon w" "\<not> vp_is_shared w" "vp_is_cow w" "\<not> vp_writable w"
      using v(2) True ns vp_cow_copy_flags [of v] by (auto simp: w_def unmap_def)
    have "vm_inv P s1" unfolding s1_def
      by (rule fork_page_inv [OF Cons.prems(1) v(1) True _ wf]) (use Cons.prems(3) v(2) True ns vp_cow_copy_flags [of v] in auto)
    then have i: "vm_inv P s2" by (simp add: s2_def)
    have v2: "vps s2 = (vps s)(Vp dest a \<mapsto> vp_cow_copy v, Vp src a \<mapsto> w)" "mem s2 = mem s" by (simp_all add: s2_def s1_def add_share_def)
    have "\<forall>b \<in> set as. vps s2 (Vp dest b) = None" using Cons.prems(2-4) by (auto simp: v2)
    then have e: "mem s' = mem s \<and> vps s' = fork_vps src dest (set as) s2" using Cons.IH [OF i _ _ Cons.prems(4) r] Cons.prems(2) v2(2) by simp
    have "fork_vps src dest (set as) s2 r = fork_vps src dest (set (a # as)) s r" for r
      using v Cons.prems(2,4) True by (cases r) (auto simp: fork_vps_def v2 w_def unmap_def split: option.split)
    then show ?thesis using e by auto
  qed
qed

lemma fork_pages_checked:
  assumes "fork_pages ok src dest as s = Some (Inr s')" "a \<in> set as" "distinct as" "src \<noteq> dest" "vps s (Vp src a) = Some v"
  shows "vp_is_cow v \<or> vp_writable v"
  using assms
proof (induction as arbitrary: s)
  case (Cons b as)
  show ?case
  proof (cases "a = b")
    case True
    then show ?thesis using Cons.prems by (auto split: if_splits)
  next
    case False
    obtain w where w: "vps s (Vp src b) = Some w" "vp_is_cow w \<noteq> vp_writable w" "ok b" using Cons.prems(1) by (auto split: option.splits if_splits)
    have "\<exists>s2. fork_pages ok src dest as s2 = Some (Inr s') \<and> vps s2 (Vp src a) = Some v"
    proof (cases "\<not> vp_is_anon w \<and> (vp_is_shared w \<or> \<not> vp_writable w \<and> \<not> vp_is_cow w)")
      case True
      then have "fork_pages ok src dest as s = Some (Inr s')" using Cons.prems(1) w by simp
      then show ?thesis using Cons.prems(5) by blast
    next
      case nt: False
      then have ns: "\<not> vp_is_shared w" using Cons.prems(1) w by (auto split: if_splits)
      define unmap where "unmap \<longleftrightarrow> \<not> vp_is_cow w \<and> vp_writable w"
      define s1 where "s1 = add_share (vp_status w) (Vp dest b) (s\<lparr>vps := (vps s)(Vp dest b \<mapsto> vp_cow_copy w, Vp src b \<mapsto> (if unmap then vp_cow_copy w else w))\<rparr>)"
      define s2 where "s2 = (if unmap then s1\<lparr>unmaps := (vp_status w, L4_Writable) # unmaps s1\<rparr> else s1)"
      have "fork_pages ok src dest as s2 = Some (Inr s')" using Cons.prems(1) w nt ns unfolding s2_def s1_def by (cases "vp_writable w") (simp_all add: unmap_def Let_def)
      moreover have "vps s2 (Vp src a) = Some v" using False Cons.prems(4,5) by (simp add: s2_def s1_def)
      ultimately show ?thesis by blast
    qed
    then show ?thesis using Cons.IH Cons.prems(2-4) False by auto
  qed
qed simp

lemma fork_maps_no_error: "fork_maps (\<lambda>_. True) d ms s \<noteq> Some (Inl s')"
  by (induction ms arbitrary: s) (auto simp: Let_def split: option.splits sum.splits if_splits)

lemma fork_pages_no_error: "fork_pages (\<lambda>_. True) src dest as s \<noteq> Some (Inl s')"
  by (induction as arbitrary: s) (auto simp: Let_def split: option.splits if_splits)

lemma fork_pages_succeeds:
  assumes "distinct as" "src \<noteq> dest" "\<forall>a \<in> set as. \<exists>v. vps s (Vp src a) = Some v \<and> vp_is_cow v \<noteq> vp_writable v \<and> \<not> (vp_is_anon v \<and> vp_is_shared v)"
  shows "\<exists>s'. fork_pages (\<lambda>_. True) src dest as s = Some (Inr s')"
  using assms
proof (induction as arbitrary: s)
  case (Cons a as)
  obtain v where v: "vps s (Vp src a) = Some v" "vp_is_cow v \<noteq> vp_writable v" "\<not> (vp_is_anon v \<and> vp_is_shared v)" using Cons.prems(3) by auto
  have g: "\<exists>s'. fork_pages (\<lambda>_. True) src dest as s2 = Some (Inr s')" if "\<forall>b. b \<noteq> a \<longrightarrow> vps s2 (Vp src b) = vps s (Vp src b)" for s2
    by (rule Cons.IH) (use Cons.prems that in auto)
  show ?case by (simp add: v Let_def) (use v Cons.prems(2) in \<open>auto intro!: g simp: add_share_def\<close>)
qed simp

lemma vm_fork_succeeds:
  assumes "vm_ok P s" "distinct order" "0 < src" "src \<le> 32767" "0 < dest" "dest \<le> 32767" "50000 \<le> sender" "spaces s src = Some sp" "spaces s dest = None"
    "\<forall>a \<in> set order. \<exists>v. vps s (Vp src a) = Some v \<and> (vp_is_cow v \<or> vp_writable v)"
  shows "\<exists>s'. vm_fork (\<lambda>_. True) (\<lambda>_. True) newid order sender src dest s = Some (int dest, s')"
proof -
  have ne: "src \<noteq> dest" using assms(8,9) by auto
  obtain s2 sp2 where s2: "fork_maps (\<lambda>_. True) dest (rb_keys (maps sp)) (set_space dest (sp\<lparr>maps := RB_NULL, last_mmap := 0\<rparr>) s) = Some (Inr s2) \<and> mm_copies (rb_keys (maps sp)) (rb_keys (maps sp2))
      \<or> fork_maps (\<lambda>_. True) dest (rb_keys (maps sp)) (set_space dest (sp\<lparr>maps := RB_NULL, last_mmap := 0\<rparr>) s) = Some (Inl s2)"
    and v2: "vps s2 = vps s" "spaces s2 = (spaces s)(dest \<mapsto> sp2)" by (rule fork_maps_ok [OF assms(1,8,9), of "\<lambda>_. True"])
  have "\<exists>s'. fork_pages (\<lambda>_. True) src dest order s2 = Some (Inr s')"
    by (rule fork_pages_succeeds [OF assms(2) ne]) (use assms(10) v2 vm_inv_vp(3,4) [OF vm_okD(1) [OF assms(1)]] in fastforce)
  then show ?thesis using s2 fork_maps_no_error assms(3-9) by (auto simp: vm_fork_def Let_def)
qed

lemma vm_fork_result:
  assumes "vm_reach ps s" "distinct order" "\<forall>a. vps s (Vp src a) \<noteq> None \<longrightarrow> a \<in> set order" "src \<noteq> 0" "0 < dest"
    "vm_fork map_ok page_ok newid order sender src dest s = Some (int dest, s')"
  shows "mem s' = mem s \<and> (\<forall>r. vp_pid r \<noteq> src \<longrightarrow> vp_pid r \<noteq> dest \<longrightarrow> vps s' r = vps s r)
    \<and> (\<forall>a v. vps s (Vp src a) = Some v \<longrightarrow> vp_is_anon v \<longrightarrow> (\<exists>w c. vps s' (Vp src a) = Some w \<and> vps s' (Vp dest a) = Some c
        \<and> vp_view s' (Vp src a) = vp_view s (Vp src a) \<and> vp_view s' (Vp dest a) = vp_view s (Vp src a)
        \<and> vp_is_cow w \<and> vp_is_cow c \<and> \<not> vp_writable w \<and> \<not> vp_writable c))
    \<and> (\<exists>sp sp'. spaces s src = Some sp \<and> spaces s' dest = Some sp' \<and> mm_copies (rb_keys (maps sp)) (rb_keys (maps sp')) \<and> brk sp' = brk sp)"
proof -
  have ok: "vm_ok (set ps) s" by (rule vm_reach_ok) fact
  note F = assms(6) [unfolded vm_fork_def Let_def, simplified assms(4,5) if_True]
  have dn: "spaces s dest = None" using F assms(5) by (auto split: if_splits)
  obtain sp where sp: "spaces s src = Some sp" using F assms(4,5) by (auto split: if_splits option.splits)
  have ne: "src \<noteq> dest" using sp dn by auto
  have dv: "vps s (Vp dest a) = None" for a using vm_okD(3) [OF ok] dn unfolding vm_cov_def by (metis option.distinct(1) vpref.sel(1))
  obtain s2 sp2 where s2: "fork_maps map_ok dest (rb_keys (maps sp)) (set_space dest (sp\<lparr>maps := RB_NULL, last_mmap := 0\<rparr>) s) = Some (Inr s2) \<and> mm_copies (rb_keys (maps sp)) (rb_keys (maps sp2))
      \<or> fork_maps map_ok dest (rb_keys (maps sp)) (set_space dest (sp\<lparr>maps := RB_NULL, last_mmap := 0\<rparr>) s) = Some (Inl s2)"
    and ok2: "vm_ok (set ps) s2" "vps s2 = vps s" "mem s2 = mem s" "spaces s2 = (spaces s)(dest \<mapsto> sp2)" "brk sp2 = brk sp"
    by (rule fork_maps_ok [OF ok sp dn])
  have m: "fork_maps map_ok dest (rb_keys (maps sp)) (set_space dest (sp\<lparr>maps := RB_NULL, last_mmap := 0\<rparr>) s) = Some (Inr s2)" "mm_copies (rb_keys (maps sp)) (rb_keys (maps sp2))"
    using s2 F sp dn assms(4,5) by (auto split: if_splits)
  have p: "fork_pages page_ok src dest order s2 = Some (Inr s')" using F sp dn assms(4,5) m(1) by (auto split: if_splits option.splits sum.splits)
  have "fork_vps src dest (set order) s2 = fork_vps src dest (set order) s" by (simp add: fork_vps_def fun_eq_iff ok2(2) split: option.split)
  then have r: "mem s' = mem s" "vps s' = fork_vps src dest (set order) s"
    using fork_pages_result [OF vm_okD(1) [OF ok2(1)] assms(2) _ ne p] dv ok2(2,3) by auto
  have "vm_faulted s2 s'" using fork_pages_inv [OF vm_okD(1) [OF ok2(1)] assms(2) _ ne p] dv ok2(2) by auto
  then have "spaces s' dest = Some sp2" using ok2(4) by (simp add: vm_faulted_def)
  moreover have "vps s' q = vps s q" if "vp_pid q \<noteq> src" "vp_pid q \<noteq> dest" for q using that by (simp add: r(2) fork_vps_def split: option.split)
  moreover have "\<exists>w c. vps s' (Vp src a) = Some w \<and> vps s' (Vp dest a) = Some c
        \<and> vp_view s' (Vp src a) = vp_view s (Vp src a) \<and> vp_view s' (Vp dest a) = vp_view s (Vp src a)
        \<and> vp_is_cow w \<and> vp_is_cow c \<and> \<not> vp_writable w \<and> \<not> vp_writable c" if v: "vps s (Vp src a) = Some v" "vp_is_anon v" for a v
  proof -
    have a: "a \<in> set order" using assms(3) v(1) by auto
    have x: "vp_is_cow v \<or> vp_writable v" using fork_pages_checked [OF p a] v(1) ok2(2) assms(2) ne by simp
    have "vps s' (Vp src a) = Some (if vp_is_cow v then v else vp_cow_copy v)" "vps s' (Vp dest a) = Some (vp_cow_copy v)"
      using v a ne by (simp_all add: r(2) fork_vps_def)
    then show ?thesis using x v(1) vm_inv_vp(3) [OF vm_okD(1) [OF ok] v(1)] vp_cow_copy_flags [of v] by (auto simp: vp_view_def vp_page_def r(1))
  qed
  ultimately show ?thesis using r(1) sp m(2) ok2(5) by blast
qed

text \<open>C1. While memory lasts, the fork of a process whose pages are all writable or copy-on-write succeeds.  It gives the child every mapping of the parent
  and every page of its private memory, at the same address and with the same contents, and neither of the two may write to such a page before
  it has a copy of its own; no byte of memory and no page of any other process changes.\<close>

theorem vm_fork_snapshot:
  assumes "vm_reach ps s" "distinct order" "\<forall>a. vps s (Vp src a) \<noteq> None \<longleftrightarrow> a \<in> set order" "0 < src" "src \<le> 32767" "0 < dest" "dest \<le> 32767" "50000 \<le> sender"
    "spaces s src = Some sp" "spaces s dest = None" "\<forall>a v. vps s (Vp src a) = Some v \<longrightarrow> vp_is_cow v \<or> vp_writable v"
  shows "\<exists>s' sp'. vm_fork (\<lambda>_. True) (\<lambda>_. True) newid order sender src dest s = Some (int dest, s')
    \<and> mem s' = mem s \<and> (\<forall>r. vp_pid r \<noteq> src \<longrightarrow> vp_pid r \<noteq> dest \<longrightarrow> vps s' r = vps s r)
    \<and> (\<forall>a v. vps s (Vp src a) = Some v \<longrightarrow> vp_is_anon v \<longrightarrow> (\<exists>w c. vps s' (Vp src a) = Some w \<and> vps s' (Vp dest a) = Some c
        \<and> vp_view s' (Vp src a) = vp_view s (Vp src a) \<and> vp_view s' (Vp dest a) = vp_view s (Vp src a)
        \<and> vp_is_cow w \<and> vp_is_cow c \<and> \<not> vp_writable w \<and> \<not> vp_writable c))
    \<and> spaces s' dest = Some sp' \<and> mm_copies (rb_keys (maps sp)) (rb_keys (maps sp')) \<and> brk sp' = brk sp"
proof -
  have "\<forall>a \<in> set order. \<exists>v. vps s (Vp src a) = Some v \<and> (vp_is_cow v \<or> vp_writable v)" using assms(3,11) by (metis option.exhaust)
  then obtain s' where s': "vm_fork (\<lambda>_. True) (\<lambda>_. True) newid order sender src dest s = Some (int dest, s')"
    using vm_fork_succeeds [OF vm_reach_ok [OF assms(1)] assms(2,4-10)] by blast
  have o: "\<forall>a. vps s (Vp src a) \<noteq> None \<longrightarrow> a \<in> set order" "src \<noteq> 0" using assms(3,4) by auto
  show ?thesis using s' vm_fork_result [OF assms(1,2) o assms(6) s'] assms(9) by auto
qed

theorem vm_fork_snapshot_witness:
  "\<exists>s' sp'. vm_fork (\<lambda>_. True) (\<lambda>_. True) 0 [0x10000, 0x11000] 50001 1 2 ex_s4 = Some (2, s') \<and> mem s' = mem ex_s4
    \<and> vp_view s' (Vp 2 0x10000) = vp_view ex_s4 (Vp 1 0x10000) \<and> spaces s' 2 = Some sp' \<and> map mm_addr (rb_keys (maps sp')) = [mm_addr ex_mm]"
proof -
  have o: "\<forall>a. vps ex_s4 (Vp 1 a) \<noteq> None \<longleftrightarrow> a \<in> set [0x10000, 0x11000]" "\<forall>a v. vps ex_s4 (Vp 1 a) = Some v \<longrightarrow> vp_is_cow v \<or> vp_writable v"
    by (simp_all add: ex_s4_def ex_page_def vp_writable_def)
  have v: "vps ex_s4 (Vp 1 0x10000) = Some (ex_page 1)" "vp_is_anon (ex_page 1)" "spaces ex_s4 1 = Some ex_sp2" "spaces ex_s4 2 = None" "rb_keys (maps ex_sp2) = [ex_mm]"
    by (simp_all add: ex_s4_def ex_s3_def ex_page_def ex_sp2_def ex_defs)
  obtain s' sp' where s': "vm_fork (\<lambda>_. True) (\<lambda>_. True) 0 [0x10000, 0x11000] 50001 1 2 ex_s4 = Some (int 2, s')" "mem s' = mem ex_s4"
    "vp_view s' (Vp 2 0x10000) = vp_view ex_s4 (Vp 1 0x10000)" "spaces s' 2 = Some sp'" "mm_copies (rb_keys (maps ex_sp2)) (rb_keys (maps sp'))"
    using vm_fork_snapshot [OF ex_reach4 _ o(1) _ _ _ _ _ v(3,4) o(2), of 50001 0] v(1,2) by force
  have "map mm_addr (rb_keys (maps sp')) = [mm_addr ex_mm]" using s'(5) by (auto simp: v(5) mm_copies_def list_all2_Cons1)
  then show ?thesis using s'(1-4) by (metis of_nat_numeral)
qed

text \<open>C38. A parent with a page that is neither writable nor copy-on-write, say of its program text or of a file mapped read-only, cannot be forked:
  unless memory runs out first, an assertion in the copying loop fails.\<close>

theorem vm_fork_read_only_aborts:
  assumes "vm_reach ps s" "distinct order" "\<forall>a \<in> set order. vps s (Vp src a) \<noteq> None" "0 < src" "src \<le> 32767" "0 < dest" "dest \<le> 32767" "50000 \<le> sender"
    "spaces s src = Some sp" "spaces s dest = None" "a \<in> set order" "vps s (Vp src a) = Some v" "\<not> vp_is_cow v" "\<not> vp_writable v"
  shows "vm_fork (\<lambda>_. True) (\<lambda>_. True) newid order sender src dest s = None"
proof -
  have ok: "vm_ok (set ps) s" by (rule vm_reach_ok) fact
  have ne: "src \<noteq> dest" using assms(9,10) by auto
  obtain s2 sp2 where s2: "fork_maps (\<lambda>_. True) dest (rb_keys (maps sp)) (set_space dest (sp\<lparr>maps := RB_NULL, last_mmap := 0\<rparr>) s) = Some (Inr s2) \<and> mm_copies (rb_keys (maps sp)) (rb_keys (maps sp2))
      \<or> fork_maps (\<lambda>_. True) dest (rb_keys (maps sp)) (set_space dest (sp\<lparr>maps := RB_NULL, last_mmap := 0\<rparr>) s) = Some (Inl s2)"
    and v2: "vps s2 = vps s" "spaces s2 = (spaces s)(dest \<mapsto> sp2)" by (rule fork_maps_ok [OF ok assms(9,10), of "\<lambda>_. True"])
  have "fork_pages (\<lambda>_. True) src dest order s2 = None"
  proof (cases "fork_pages (\<lambda>_. True) src dest order s2")
    case (Some res)
    then obtain s' where "fork_pages (\<lambda>_. True) src dest order s2 = Some (Inr s')" using fork_pages_no_error by (cases res) auto
    then show ?thesis using fork_pages_checked [of "\<lambda>_. True" src dest order s2 s' a v] assms(2,11-14) ne v2 by simp
  qed simp
  then show ?thesis using s2 fork_maps_no_error assms(4-10) by (auto simp: vm_fork_def Let_def)
qed

theorem vm_fork_read_only_aborts_witness:
  "vps (ex_g 0x40002 False) (Vp 1 0x40000000) = Some (ex_fpage 4 False) \<and> vm_fork (\<lambda>_. True) (\<lambda>_. True) 0 [0x40000000] 50001 1 2 (ex_g 0x40002 False) = None"
proof -
  have "vps (ex_g 0x40002 False) (Vp 1 0x40000000) = Some (ex_fpage 4 False)" "spaces (ex_g 0x40002 False) 1 = Some (ex_sp_file 0x40002 2)" "spaces (ex_g 0x40002 False) 2 = None"
    "\<not> vp_is_cow (ex_fpage 4 False)" "\<not> vp_writable (ex_fpage 4 False)"
    by (simp_all add: ex_g_def ex_fpage_def vp_writable_def ex_defs)
  then show ?thesis using vm_fork_read_only_aborts [OF ex_reach_g(2), of "[0x40000000]" 1 2 50001 "ex_sp_file 0x40002 2" "0x40000000" "ex_fpage 4 False" 0] by simp
qed

section \<open>Lookup\<close>

lemma maps_search_find:
  assumes "maps_ok t"
  shows "maps_search a t = find (\<lambda>m. mm_has m (unat a)) (rb_keys t)"
proof (cases "find (\<lambda>m. mm_has m (unat a)) (rb_keys t)")
  case None
  then have "maps_search a t = None" using maps_index.search_None [OF assms, of a] by (simp add: find_None_iff)
  then show ?thesis using None by simp
next
  case (Some m)
  then have "m \<in> set (rb_keys t)" "mm_has m (unat a)" by (auto simp: find_Some_iff)
  then show ?thesis using Some maps_index.search_iff [OF assms, of a m] by simp
qed

text \<open>In every state that is reached by calls of which no \<^verbatim>\<open>mmap\<close> or upload has a range that is empty or wraps past the end of the address space, the lookup of an address, which first tries the mapping found last and then searches the tree, gives
  the same answer as going through all mappings of the address space in order: the one that has the address, or none.\<close>

theorem vm_lookup_equivalent:
  assumes "vm_reach ps s" "spaces s pid = Some sp"
  shows "\<exists>l. find_lazy_mmap (last_mmap sp) (maps sp) a = Some (find (\<lambda>m. mm_has m (unat a)) (rb_keys (maps sp)), l)"
proof -
  have ok: "vm_ok (set ps) s" by (rule vm_reach_ok) fact
  have "maps_ok (maps sp)" using vm_ok_space [OF ok assms(2)] by (simp add: space_ok_def)
  then show ?thesis using vm_ok_find [OF ok assms(2), of a] maps_search_find [of "maps sp" a] by metis
qed

theorem vm_lookup_equivalent_witness: "last_mmap ex_sp2 = 1 \<and> (\<exists>l. find_lazy_mmap (last_mmap ex_sp2) (maps ex_sp2) 0x10800 = Some (Some ex_mm, l))"
proof -
  have "spaces ex_s4 1 = Some ex_sp2" "rb_keys (maps ex_sp2) = [ex_mm]" "mm_has ex_mm 0x10800" "last_mmap ex_sp2 = 1"
    by (simp_all add: ex_s4_def ex_s3_def ex_sp2_def ex_defs mm_has_def mm_start_def mm_end_def)
  then show ?thesis using vm_lookup_equivalent [OF ex_reach4, of 1 ex_sp2 "0x10800"] by simp
qed

section \<open>Unmapping\<close>

definition mapped :: "vm_space \<Rightarrow> nat \<Rightarrow> bool" where
  "mapped sp n \<longleftrightarrow> (\<exists>m \<in> set (rb_keys (maps sp)). mm_has m n)"

lemma PAGE_CEIL_id:
  assumes "a AND 0xfff = 0" "unat a + 0xfff < 2 ^ 32"
  shows "PAGE_CEIL a = a"
proof -
  have "unat (a + 0xfff) = unat a + 0xfff" using assms(2) by (simp add: unat_add_lt)
  moreover have "(unat a + 0xfff) mod PAGE_SIZE = 0xfff" using assms(1) unfolding aligned_nat by (simp add: mod_add_eq [symmetric] dvd_eq_mod_eq_0)
  ultimately have "unat (PAGE_CEIL a) = unat a" unfolding PAGE_CEIL_def page_floor_nat by simp
  then show ?thesis by (simp add: word_unat_eq_iff)
qed

lemma munmap_list_mapped:
  assumes "mm_list_ok ms" "unat a + unat sz < 2 ^ 32" "0 < unat sz" "new \<noteq> 0"
  shows "(\<exists>p \<in> set (munmap_list a sz new ms). mm_has p n) \<longleftrightarrow> (\<exists>m \<in> set ms. mm_has m n) \<and> \<not> (unat a \<le> n \<and> n < unat a + unat sz)"
proof
  assume "\<exists>p \<in> set (munmap_list a sz new ms). mm_has p n"
  then obtain p where p: "p \<in> set (munmap_list a sz new ms)" "mm_has p n" by blast
  obtain m where m: "m \<in> set ms" "p \<in> set (if mm_end m \<le> unat a \<or> unat a + unat sz \<le> mm_start m then [m] else carve_pieces a sz new m)"
    using p(1) by (auto simp: munmap_list_def)
  have "mm_ok m" using assms(1) m(1) by (auto simp: mm_list_ok_def)
  then have "mm_has m n" using m(2) p(2) carve_piece_range(4) [of m a sz p new n] assms(2,4)
    by (cases "mm_end m \<le> unat a \<or> unat a + unat sz \<le> mm_start m") (auto split: if_splits)
  then show "(\<exists>m \<in> set ms. mm_has m n) \<and> \<not> (unat a \<le> n \<and> n < unat a + unat sz)" using munmap_list_gone [OF assms p] m(1) by blast
qed (use munmap_list_keeps [OF assms(1,2)] in blast)



text \<open>Where the first address of the range is not mapped and the search in the tree ends at a mapping below the range, unmapping takes
  no mapping at all: it reports success, exactly the pages of the process in the range are gone, but every mapping of the range is still there, and the next fault that a mapping
  in the range allows is served from that mapping as a first fault, as if nothing had been unmapped.\<close>

theorem vm_munmap_misses:
  assumes "vm_reach ps s" "spaces s pid = Some sp" "0 < pid" "pid \<le> 32767" "a AND 0xfff = 0" "sz AND 0xfff = 0" "VALID_ADDR_SIZE a sz" "unat sz + 0xfff < 2 ^ 32"
    "first_descend a (maps sp) None = Inr (Some m)" "mm_end m \<le> unat a"
  shows "\<exists>s'. vm_munmap pid a sz s = Some (0, s') \<and> spaces s' = spaces s
    \<and> vps s' = (\<lambda>r. if vp_pid r = pid \<and> vp_addr r \<in> set (pages_of a sz) then None else vps s r)
    \<and> (\<forall>x mm rd rwx. x AND NOT 0xfff \<in> set (pages_of a sz) \<and> maps_search x (maps sp) = Some mm \<and> vm_utcb_area sp \<noteq> Nilpage
         \<and> \<not> fpage_overlap (sysinfo_area sp) (Fpage x 1) \<and> rwx AND mm_rights mm = rwx
         \<longrightarrow> (\<exists>l. vm_pf rd pid x rwx s' = vm_pf_new rd pid (x AND NOT 0xfff) rwx mm (set_last pid l s')))"
proof -
  have ok: "vm_ok (set ps) s" by (rule vm_reach_ok) fact
  have mo: "maps_ok (maps sp)" using vm_ok_space [OF ok assms(2)] by (simp add: space_ok_def)
  have al: "(a OR sz) AND 0xfff = 0" using assms(5,6) by (simp add: bit_eq_iff bit_simps) blast
  have f: "first_lazy_mmap (maps sp) a sz = Some None" by (rule first_lazy_mmap_low [OF mo assms(7,9,10)])
  obtain s1 where s1: "remove_vp_range pid a sz s = Some s1" "vm_same s s1"
    "vps s1 = (\<lambda>r. if vp_pid r = pid \<and> vp_addr r \<in> set (pages_of a sz) then None else vps s r)"
    using remove_vps_inv [OF vm_okD(1) [OF ok], of pid "pages_of a sz"] by (auto simp: remove_vp_range_def)
  have sp1: "spaces s1 = spaces s" using s1(2) by (simp add: vm_same_def)
  have "munmap_space pid a sz s = Some s1" using assms(2,7) al f s1 by (simp add: munmap_space_def vm_same_def)
  then have m: "vm_munmap pid a sz s = Some (0, s1)"
    using assms(2-4,7) page_floor_id [OF assms(5)] PAGE_CEIL_id [OF assms(6,8)] unfolding vm_munmap_def Let_def by simp
  have "\<exists>l. vm_pf rd pid x rwx s1 = vm_pf_new rd pid (x AND NOT 0xfff) rwx mm (set_last pid l s1)"
    if x: "x AND NOT 0xfff \<in> set (pages_of a sz)" "maps_search x (maps sp) = Some mm" "vm_utcb_area sp \<noteq> Nilpage" "\<not> fpage_overlap (sysinfo_area sp) (Fpage x 1)" "rwx AND mm_rights mm = rwx"
    for x mm rd rwx
  proof -
    obtain l where "find_lazy_mmap (last_mmap sp) (maps sp) x = Some (maps_search x (maps sp), l)" by (rule vm_ok_find [OF ok assms(2)])
    then have "vm_pf rd pid x rwx s1 = vm_pf_new rd pid (x AND NOT 0xfff) rwx mm (set_last pid l s1)"
      using x assms(2,4) sp1 s1(3) by (simp add: vm_pf_def Let_def)
    then show ?thesis by blast
  qed
  then show ?thesis using m sp1 s1(3) by blast
qed

theorem vm_munmap_misses_witness:
  "\<exists>s' sp'. vm_munmap 1 0x10000000 0x30000000 ex_a2 = Some (0, s') \<and> spaces s' 1 = Some sp' \<and> mapped sp' 0x20000000 \<and> mapped sp' 0x30000000"
proof -
  let ?sp = "ex_space (RB_NODE RB_BLACK (RB_NODE RB_RED RB_NULL ex_mm RB_NULL) (ex_anon 3 0x20000000) (RB_NODE RB_RED RB_NULL (ex_anon 2 0x30000000) RB_NULL)) 0"
  have sp: "spaces ex_a2 1 = Some ?sp" by (simp add: ex_a2_def set_space_def)
  have f: "first_descend 0x10000000 (maps ?sp) None = Inr (Some ex_mm)" "mm_end ex_mm \<le> 0x10000000"
    by (simp_all add: ex_space_def ex_mm_def ex_anon_def mm_next_def mm_end_def)
  have "mapped ?sp 0x20000000" "mapped ?sp 0x30000000" by (simp_all add: mapped_def ex_space_def ex_mm_def ex_anon_def mm_has_def mm_start_def mm_end_def)
  then show ?thesis using vm_munmap_misses [OF ex_reach_a2 sp _ _ _ _ _ _ f(1), of "0x30000000"] f(2) sp by (simp add: VALID_ADDR_SIZE_def) auto
qed

section \<open>Mapping\<close>

lemma vm_mmap_placed:
  assumes m: "vm_mmap mem_ok ht touched sender target a len prot flags serv fdno off s = Some ((n, a'), s')" and n: "0 \<le> n"
  shows "\<exists>sp m. spaces s' (if target = 0 then sender else target) = Some sp \<and> m \<in> set (rb_keys (maps sp)) \<and> mm_addr m = a' \<and> mm_length m = PAGE_CEIL len
    \<and> mm_flags m = push_bit 16 (ucast (prot_to_l4_rights prot)) OR (flags AND NOT MAP_FIXED) \<and> mm_tailsz m = unat len mod PAGE_SIZE
    \<and> (flags AND MAP_ANONYMOUS = 0 \<longrightarrow> mm_fd_serv m = serv \<and> mm_offset m = drop_bit 12 off) \<and> (flags AND MAP_FIXED \<noteq> 0 \<longrightarrow> a' = a)"
proof -
  define t anon shared where "t = (if target = 0 then sender else target)" and "anon \<longleftrightarrow> flags AND MAP_ANONYMOUS \<noteq> 0" and "shared \<longleftrightarrow> flags AND MAP_SHARED \<noteq> 0"
  define mm where "mm = \<lparr>mm_ptr = next_ptr s, mm_addr = 0, mm_length = 0,
              mm_flags = push_bit 16 (ucast (prot_to_l4_rights prot)) OR (flags AND NOT MAP_FIXED),
              mm_fd_serv = (if anon \<and> shared then vm_self s else serv),
              mm_ino = scast (if anon \<and> shared then next_anon_ino s else fdno),
              mm_offset = (if anon \<and> shared then 0 else drop_bit 12 off), mm_tailsz = unat len mod PAGE_SIZE\<rparr>"
  define s0 where "s0 = s\<lparr>next_ptr := Suc (next_ptr s), next_anon_ino := (if anon \<and> shared then next_anon_ino s + 1 else next_anon_ino s)\<rparr>"
  obtain n1 a1 where m': "reserve_mmap ht mm t a (PAGE_CEIL len) (flags AND MAP_FIXED \<noteq> 0) s0 = Some ((n1, a1), s')" "n1 = n" "a' = (if n1 < 0 then a else a1)"
    using m n unfolding vm_mmap_def Let_def t_def [symmetric] anon_def [symmetric] shared_def [symmetric] mm_def [symmetric] s0_def [symmetric]
    by (auto split: if_splits)
  obtain sp where sp: "spaces s' t = Some sp" "mm\<lparr>mm_addr := a1, mm_length := PAGE_CEIL len\<rparr> \<in> set (rb_keys (maps sp))" "flags AND MAP_FIXED \<noteq> 0 \<longrightarrow> a1 = a"
    using reserve_mmap_placed [OF m'(1)] n m'(2) by auto
  show ?thesis unfolding t_def [symmetric]
    by (rule exI [of _ sp], rule exI [of _ "mm\<lparr>mm_addr := a1, mm_length := PAGE_CEIL len\<rparr>"]) (use sp n m' in \<open>auto simp: mm_def anon_def\<close>)
qed

lemma tail_fill_0 [simp]: "tail_fill 0 bs = replicate PAGE_SIZE 0"
  by (simp add: tail_fill_def)

lemma pf_tail_zero:
  assumes "is_tail mm (vp_addr r)" "mm_tailsz mm = 0"
  shows "pf_mmap_shared rd mm r v s = Some (Inr (v1, s1)) \<Longrightarrow> mem s1 (vp_status v1) = replicate PAGE_SIZE 0"
    "pf_mmap_private rd mm r v s = Some (Inr (v1, s1)) \<Longrightarrow> mem s1 (vp_status v1) = replicate PAGE_SIZE 0"
  using assms by (auto simp: pf_mmap_shared_def pf_mmap_private_def new_anon_page_def get_free_pl_def push_active_def Let_def
      split: option.splits sum.splits list.splits if_splits)

text \<open>C40. A file mapped at a length that is a whole number of pages has its last page replaced by zeros: the mapping is
  recorded with no bytes in its last page, so a fault there, read or write, shared or private, maps a page of zeros whatever the file holds.\<close>

theorem vm_mmap_last_page_zero:
  assumes "vm_mmap mem_ok ht touched sender target a len prot flags serv fdno off s = Some ((0, a'), s1)" "flags AND MAP_ANONYMOUS = 0" "len AND 0xfff = 0"
  shows "\<exists>sp m. spaces s1 (if target = 0 then sender else target) = Some sp \<and> m \<in> set (rb_keys (maps sp)) \<and> mm_addr m = a' \<and> mm_fd_serv m = serv
    \<and> (\<forall>rd pid rwx s2 p rs s3. vm_pf_new rd pid (mm_addr m + mm_length m - 4096) rwx m s2 = Some (PF_MAP p rs (mm_addr m + mm_length m - 4096), s3)
         \<longrightarrow> mem s3 p = replicate PAGE_SIZE 0)"
proof -
  obtain sp m where m: "spaces s1 (if target = 0 then sender else target) = Some sp" "m \<in> set (rb_keys (maps sp))" "mm_addr m = a'" "mm_fd_serv m = serv"
    "mm_flags m = push_bit 16 (ucast (prot_to_l4_rights prot)) OR (flags AND NOT MAP_FIXED)" "mm_tailsz m = unat len mod PAGE_SIZE"
    using vm_mmap_placed [OF assms(1)] assms(2) by auto
  have z: "mm_tailsz m = 0" using m(6) assms(3) unfolding aligned_nat by (simp add: dvd_eq_mod_eq_0)
  have an: "mm_flags m AND MAP_ANONYMOUS = 0" unfolding m(5) flags_low(1) by fact
  have "mem s3 p = replicate PAGE_SIZE 0" if f: "vm_pf_new rd pid (mm_addr m + mm_length m - 4096) rwx m s2 = Some (PF_MAP p rs (mm_addr m + mm_length m - 4096), s3)" for rd pid rwx s2 p rs s3
  proof -
    let ?r = "Vp pid (mm_addr m + mm_length m - 4096)"
    define v where "v = \<lparr>vp_rights = mm_rights m, vp_is_shared = False, vp_is_anon = False, vp_is_cow = False, vp_status = 0\<rparr>"
    have tl: "is_tail m (vp_addr ?r)" using z by (simp add: is_tail_def)
    note F = f [unfolded vm_pf_new_def Let_def, folded v_def]
    show ?thesis
    proof (cases "mm_flags m AND MAP_SHARED \<noteq> 0 \<or> \<not> rwx AND L4_Writable \<noteq> 0 \<and> \<not> mm_flags m AND MAP_ANONYMOUS \<noteq> 0")
      case True
      then obtain v1 s4 where p: "pf_mmap_shared rd m ?r v s2 = Some (Inr (v1, s4))" using F by (auto split: option.splits sum.splits)
      then have "p = vp_status v1" "mem s3 = mem s4" using True F by (auto split: if_splits)
      then show ?thesis using pf_tail_zero(1) [OF tl z p] by simp
    next
      case False
      then obtain v1 s4 where p: "pf_mmap_private rd m ?r v s2 = Some (Inr (v1, s4))" "p = vp_status v1" "mem s3 = mem s4"
        using an F by (auto split: option.splits sum.splits)
      then show ?thesis using pf_tail_zero(2) [OF tl z p(1)] by simp
    qed
  qed
  then show ?thesis using m(1-4) by blast
qed

theorem vm_mmap_last_page_zero_witness:
  "\<exists>sp m. spaces (ex_f 0x60001) 1 = Some sp \<and> m \<in> set (rb_keys (maps sp)) \<and> mm_addr m = 0x40000000 \<and> mm_fd_serv m = ex_serv
    \<and> (\<forall>rd pid rwx s2 p rs s3. vm_pf_new rd pid (mm_addr m + mm_length m - 4096) rwx m s2 = Some (PF_MAP p rs (mm_addr m + mm_length m - 4096), s3)
         \<longrightarrow> mem s3 p = replicate PAGE_SIZE 0)"
  using vm_mmap_last_page_zero [OF ex_mmap_shared] by simp

section \<open>Faults on private and shared mappings\<close>

text \<open>A first fault that is served from a mapping of private anonymous memory maps a page of zeros, whatever the page that comes off the free list held before.\<close>

theorem vm_pf_anonymous_zero:
  assumes "vm_pf_new rd pid page rwx mm s = Some (res, s')" "mm_flags mm AND MAP_ANONYMOUS \<noteq> 0" "mm_flags mm AND MAP_SHARED = 0"
  shows "\<exists>v. vps s' = (vps s)(Vp pid page \<mapsto> v) \<and> vp_is_anon v \<and> res = PF_MAP (vp_status v) (mm_rights mm) page \<and> mem s' (vp_status v) = replicate PAGE_SIZE 0"
  using assms by (auto simp: vm_pf_new_def Let_def new_anon_page_def get_free_pl_def push_active_def split: option.splits list.splits)

theorem vm_pf_anonymous_zero_witness: "\<exists>v. vps ex_s4 = (vps ex_s3)(Vp 1 0x11000 \<mapsto> v) \<and> mem ex_s4 (vp_status v) = replicate PAGE_SIZE 0"
proof -
  have "vm_pf_new ex_reader 1 0x11000 L4_Readable ex_mm ex_s3 = Some (PF_MAP 2 7 0x11000, ex_s4)"
    by (simp add: ex_pf_simps ex_zeros_def [symmetric] ex_s4_def ex_s3_def ex_defs)
  then show ?thesis using vm_pf_anonymous_zero [of ex_reader 1 "0x11000" L4_Readable ex_mm ex_s3 _ ex_s4] by (auto simp: ex_mm_def)
qed

text \<open>C37. Shared mappings that a process may write stop being shared when they are read first: the fault handler marks the page copy-on-write, so the first write
  after a read goes to a private copy and never reaches the page that the other processes, or the file, see.\<close>

theorem vm_shared_read_unshares:
  assumes "vm_reach ps s" "reader_ok (vm_self s) rd" "spaces s pid = Some sp" "vm_utcb_area sp \<noteq> Nilpage" "pid \<le> 32767"
    "maps_search a (maps sp) = Some mm" "mm_flags mm AND MAP_SHARED \<noteq> 0" "mm_rights mm AND L4_Writable \<noteq> 0" "\<not> is_tail mm (a AND NOT 0xfff)"
    "vps s (Vp pid (a AND NOT 0xfff)) = None" "vm_pf rd pid a L4_Readable s = Some (PF_MAP p rs b, s1)" "vm_pf rd pid a L4_Writable s1 = Some (PF_MAP q rs' b', s2)"
  shows "p \<in> set (page_cache s2) \<and> q \<notin> set (page_cache s2) \<and> mem s2 q = mem s2 p"
proof -
  let ?r = "Vp pid (a AND NOT 0xfff)"
  have ok: "vm_ok (set ps) s" by (rule vm_reach_ok) fact
  have ok1: "vm_ok (set ps) s1" by (rule vm_pf_ok [OF ok assms(2,11)])
  obtain l where l: "find_lazy_mmap (last_mmap sp) (maps sp) a = Some (maps_search a (maps sp), l)" "vm_ok (set ps) (set_space pid (sp\<lparr>last_mmap := l\<rparr>) s)"
    by (rule vm_ok_find [OF ok assms(3)])
  let ?s = "set_space pid (sp\<lparr>last_mmap := l\<rparr>) s"
  define v where "v = \<lparr>vp_rights = mm_rights mm, vp_is_shared = False, vp_is_anon = False, vp_is_cow = False, vp_status = 0\<rparr>"
  have e: "set_last pid l s = ?s" "vps ?s = vps s" by (simp_all add: set_last_def assms(3) set_space_def)
  have f: "vm_pf_new rd pid (a AND NOT 0xfff) L4_Readable mm ?s = Some (PF_MAP p rs b, s1)"
    using assms(3-6,10,11) l(1) e unfolding vm_pf_def Let_def by (simp split: if_splits)
  note F = f [unfolded vm_pf_new_def Let_def, folded v_def]
  obtain v1 s0 where p: "pf_mmap_shared rd mm ?r v ?s = Some (Inr (v1, s0))" using F assms(7) by (auto split: option.splits sum.splits)
  have v1: "vp_is_shared v1" "\<not> vp_is_anon v1" "vp_rights v1 = mm_rights mm"
    using p assms(9) by (auto simp: pf_mmap_shared_def Let_def v_def split: option.splits sum.splits)
  then have w: "vp_writable v1" using assms(8) by (simp add: vp_writable_def)
  have s1: "p = vp_status v1" "vps s1 ?r = Some (vp_read_only v1)" using F assms(7) p w by (auto simp: vp_read_only_def)
  have ro: "vp_is_cow (vp_read_only v1)" "\<not> vp_is_anon (vp_read_only v1)" "vp_status (vp_read_only v1) = p" using v1 s1(1) by (simp_all add: vp_read_only_def)
  note inv1 = vm_okD(1) [OF ok1]
  have pc: "p \<in> set (page_cache s1)" using vm_inv_vp(1,5) [OF inv1 s1(2)] ro by auto
  have "vm_faulted ?s s1" using vm_pf_new_inv [OF vm_okD(1) [OF l(2)] _ _ _ f] assms(2,6,10) e vm_ok_space [OF ok assms(3)] maps_search_Some
    by (fastforce simp: space_ok_def maps_ok_def mm_known_def set_space_def)
  then have sp1: "spaces s1 pid = Some (sp\<lparr>last_mmap := l\<rparr>)" by (simp add: vm_faulted_def set_space_def)
  obtain v2 where c: "pf_cow ?r (vp_read_only v1) s1 = Some (v2, s2)" "q = vp_status v2"
    using assms(4,5,12) sp1 s1(2) ro(1) unfolding vm_pf_def Let_def by auto
  obtain q' qs where q: "page_free_list s1 = q' # qs" "q = q'" "page_cache s2 = page_cache s1" "mem s2 = (mem s1)(q := mem s1 p)"
    using c ro unfolding pf_cow_eq [OF inv1 s1(2) ro(1)] by (auto simp: vp_copy_def push_active_def drop_user_def split: list.splits)
  have "q \<notin> set (page_cache s1)" using inv1 q(1,2) by (auto simp: vm_inv_def inv_lists_def)
  then show ?thesis using pc q by auto
qed

theorem vm_shared_read_unshares_witness:
  "\<exists>s2. vm_pf ex_reader 1 0x40000000 L4_Writable (ex_g 0x60001 True) = Some (PF_MAP 2 6 0x40000000, s2) \<and> 1 \<in> set (page_cache s2) \<and> 2 \<notin> set (page_cache s2)"
proof -
  let ?s = "ex_f 0x60001"
  have h: "reader_ok (vm_self ?s) ex_reader" "spaces ?s 1 = Some (ex_sp_file 0x60001 0)" "vm_utcb_area (ex_sp_file 0x60001 0) \<noteq> Nilpage"
    "maps_search 0x40000000 (maps (ex_sp_file 0x60001 0)) = Some (ex_file 0x60001)" "vps ?s (Vp 1 (0x40000000 AND NOT 0xfff)) = None"
    using ex_reader_ok by (simp_all add: ex_f_def ex_sp_file_def ex_file_def mm_next_def ex_defs)
  have m: "mm_flags (ex_file 0x60001) AND MAP_SHARED \<noteq> 0" "mm_rights (ex_file 0x60001) AND L4_Writable \<noteq> 0" "\<not> is_tail (ex_file 0x60001) (0x40000000 AND NOT 0xfff)"
    by (simp_all add: ex_file_def mm_rights_def is_tail_def)
  obtain s2 where "vm_pf ex_reader 1 0x40000000 L4_Writable (ex_g 0x60001 True) = Some (PF_MAP 2 6 0x40000000, s2)"
    by (simp add: vm_pf_def pf_cow_def ex_g_def ex_fpage_def ex_sp_file_def vp_writable_def get_free_pl_def push_active_def Let_def ex_defs)
  then show ?thesis using vm_shared_read_unshares [OF ex_reach_f(1) h(1-3) _ h(4) m h(5) ex_read_shared] by auto
qed

text \<open>C4. In every state that is reached by calls of which no \<^verbatim>\<open>mmap\<close> or upload has a range that is empty or wraps past the end of the
  address space, the self-check of the server, on physical memory without holes, passes but for two clauses: each physical page is on exactly one list, free pages have
  no user and active pages have one, every virtual page is found from its physical page, lies in a mapping of its address space and is not both writable and
  copy-on-write, the areas of an address space are apart, owners and sharers of a page are different and recorded once, and cached pages are mapped as
  shared.  It fails only at a cached page of shared anonymous memory that has no mapping any more, and it reads past the end of its
  array of virtual pages only where the page with the highest number of all that are in use is a cached one.\<close>

theorem vm_reach_invariants:
  assumes "vm_reach ps s" "set ps = {pp_first ..< pp_first + pp_total}" "0 < pp_first" "pp_first + pp_total \<le> 2 ^ 31"
  shows "(invariants pp_first pp_total s = Some True
      \<longleftrightarrow> (\<forall>p \<in> set (page_cache s). (PL_IS_ANON s p \<longrightarrow> has_anon_mmaps (pl_ino (links s p)) 1 s) \<and> \<not> top_page s p))
    \<and> (invariants pp_first pp_total s = Some False \<longrightarrow> (\<exists>p \<in> set (page_cache s). PL_IS_ANON s p \<and> \<not> has_anon_mmaps (pl_ino (links s p)) 1 s))
    \<and> (invariants pp_first pp_total s = None \<longrightarrow> (\<exists>p \<in> set (page_cache s). top_page s p))"
proof -
  note I = invariants_ok [OF vm_reach_ok [OF assms(1)] assms(2-4)]
  show ?thesis
  proof (cases "invariants pp_first pp_total s")
    case None
    then show ?thesis using I by auto
  next
    case (Some b)
    then show ?thesis using I by (cases b) auto
  qed
qed

theorem vm_reach_invariants_witness: "invariants 1 3 ex_s5 = Some True"
proof -
  have "page_cache ex_s5 = []" by (simp add: ex_s5_def ex_s4_def ex_s3_def ex_defs)
  moreover have "set [1, 2, 3 :: nat] = {1 ..< 1 + 3}" by auto
  ultimately show ?thesis using vm_reach_invariants [OF ex_reach5] by simp
qed

text \<open>A run in which shared anonymous memory is lost.  A process maps four pages of it, writes to the third, and unmaps the first two pages and
  then the last two: every call succeeds, no mapping and no virtual page is left, but a page of memory stays in the page cache, where no lookup will ever
  find it, and the self-check of the server fails.\<close>

theorem vm_shared_memory_lost:
  "\<exists>s1 s2 s3 s4. vm_reach [1, 2, 3] ex_s2 \<and> vm_mmap True True 0 1 0 0x40000000 0x4000 3 (MAP_SHARED OR MAP_ANONYMOUS OR MAP_FIXED) L4_nilthread 0 0 ex_s2 = Some ((0, 0x40000000), s1)
    \<and> vm_pf ex_reader 1 0x40002000 L4_Writable s1 = Some (PF_MAP 1 6 0x40002000, s2)
    \<and> vm_munmap 1 0x40000000 0x2000 s2 = Some (0, s3) \<and> vm_munmap 1 0x40002000 0x2000 s3 = Some (0, s4)
    \<and> anon_mmap_table s4 = [] \<and> page_cache s4 = [1] \<and> (\<forall>r. vps s4 r = None) \<and> invariants 1 3 s4 = Some False"
proof -
  have l: "anon_mmap_table ex_l4 = []" "page_cache ex_l4 = [1]" "\<forall>r. vps ex_l4 r = None" "PL_IS_ANON ex_l4 1" by (simp_all add: PL_IS_ANON_def ex_l_defs)
  have n: "\<not> has_anon_mmaps (pl_ino (links ex_l4 1)) 1 ex_l4" "\<not> top_page ex_l4 1" using l(1,3) by (simp_all add: has_anon_mmaps_def top_page_def)
  have "set [1, 2, 3 :: nat] = {1 ..< 1 + 3}" by auto
  then have "case invariants 1 3 ex_l4 of None \<Rightarrow> \<exists>p \<in> set (page_cache ex_l4). top_page ex_l4 p
     | Some b \<Rightarrow> (if b then \<forall>p \<in> set (page_cache ex_l4). (PL_IS_ANON ex_l4 p \<longrightarrow> has_anon_mmaps (pl_ino (links ex_l4 p)) 1 ex_l4) \<and> \<not> top_page ex_l4 p
         else \<exists>p \<in> set (page_cache ex_l4). PL_IS_ANON ex_l4 p \<and> \<not> has_anon_mmaps (pl_ino (links ex_l4 p)) 1 ex_l4)"
    by (intro invariants_ok [OF vm_reach_ok [OF ex_reach_l4]]) simp_all
  then have "invariants 1 3 ex_l4 = Some False" using l(2,4) n by (cases "invariants 1 3 ex_l4") (auto split: if_splits)
  then show ?thesis using ex_shm1 ex_shm2 ex_shm3 ex_shm4 ex_reach2 l(1-3) by force
qed

section \<open>Ranges that wrap\<close>

text \<open>A request for a fixed mapping is accepted although its range wraps past the end of the address space.  In an address space of two mappings
  such a mapping, starting above both and ending between their starts, becomes the root of the tree, and every address of the upper mapping that was found
  before is found no more, though the mapping is still in the tree.\<close>

lemma fixed_mmap_inserted:
  assumes "vm_mmap mem_ok ht touched sender target a len prot flags serv fdno off s = Some ((0, a'), s')" "flags AND MAP_FIXED \<noteq> 0"
    "spaces s (if target = 0 then sender else target) = Some sp" "\<And>mm. mm_addr mm = a \<Longrightarrow> mm_length mm = PAGE_CEIL len \<Longrightarrow> insert_lazy_mmap mm (maps sp) = Some (Inr (u mm))"
  shows "\<exists>mm t. mm_addr mm = a \<and> mm_length mm = PAGE_CEIL len \<and> insert_lazy_mmap mm (maps sp) = Some (Inr t) \<and> spaces s' (if target = 0 then sender else target) = Some (sp\<lparr>maps := t\<rparr>)"
proof -
  define t anon shared where "t = (if target = 0 then sender else target)" and "anon \<longleftrightarrow> flags AND MAP_ANONYMOUS \<noteq> 0" and "shared \<longleftrightarrow> flags AND MAP_SHARED \<noteq> 0"
  define mm where "mm = \<lparr>mm_ptr = next_ptr s, mm_addr = 0, mm_length = 0,
              mm_flags = push_bit 16 (ucast (prot_to_l4_rights prot)) OR (flags AND NOT MAP_FIXED),
              mm_fd_serv = (if anon \<and> shared then vm_self s else serv),
              mm_ino = scast (if anon \<and> shared then next_anon_ino s else fdno),
              mm_offset = (if anon \<and> shared then 0 else drop_bit 12 off), mm_tailsz = unat len mod PAGE_SIZE\<rparr>"
  define s0 where "s0 = s\<lparr>next_ptr := Suc (next_ptr s), next_anon_ino := (if anon \<and> shared then next_anon_ino s + 1 else next_anon_ino s)\<rparr>"
  have s0: "spaces s0 t = Some sp" using assms(3) by (simp add: s0_def t_def)
  obtain n1 a1 where m: "reserve_mmap ht mm t a (PAGE_CEIL len) True s0 = Some ((n1, a1), s')" "n1 = 0"
    using assms(1,2) unfolding vm_mmap_def Let_def t_def [symmetric] anon_def [symmetric] shared_def [symmetric] mm_def [symmetric] s0_def [symmetric]
    by (auto split: if_splits)
  let ?mm = "mm\<lparr>mm_addr := a, mm_length := PAGE_CEIL len\<rparr>"
  have u: "insert_lazy_mmap ?mm (maps sp) = Some (Inr (u ?mm))" by (rule assms(4)) simp_all
  have "spaces s' t = Some (sp\<lparr>maps := u ?mm\<rparr>)"
    using m s0 u by (auto simp: reserve_mmap_def Let_def set_space_def split: if_splits)
  then show ?thesis unfolding t_def [symmetric] using u by (intro exI [of _ ?mm] exI [of _ "u ?mm"]) simp
qed

theorem vm_mmap_wrap_hides_mapping:
  assumes "vm_mmap mem_ok ht touched sender target a len prot flags serv fdno off s = Some ((0, a'), s')" "flags AND MAP_FIXED \<noteq> 0"
    "spaces s (if target = 0 then sender else target) = Some sp" "maps sp = RB_NODE RB_BLACK RB_NULL m0 (RB_NODE RB_RED RB_NULL m1 RB_NULL)"
    "mm_last m0 < a" "mm_last m1 < a" "mm_addr m0 \<le> a + PAGE_CEIL len - 1" "a + PAGE_CEIL len - 1 < mm_addr m1" "mm_next m0 \<le> mm_addr m1" "mm_addr m0 \<le> mm_addr m1"
    "mm_addr m1 \<le> x" "x \<le> mm_last m1" "x < mm_next m1"
  shows "\<exists>sp'. spaces s' (if target = 0 then sender else target) = Some sp' \<and> maps_search x (maps sp) = Some m1 \<and> m1 \<in> set (rb_keys (maps sp')) \<and> maps_search x (maps sp') = None"
proof -
  let ?u = "\<lambda>mm. RB_NODE RB_BLACK (RB_NODE RB_RED RB_NULL m0 RB_NULL) mm (RB_NODE RB_RED RB_NULL m1 RB_NULL)"
  have ins: "insert_lazy_mmap mm (maps sp) = Some (Inr (?u mm))" if "mm_addr mm = a" "mm_length mm = PAGE_CEIL len" for mm
  proof -
    have l: "mm_last mm = a + PAGE_CEIL len - 1" by (simp only: mm_last_def that)
    have "\<not> mm_last mm < mm_addr m0" "mm_last mm < mm_addr m1" using assms(7,8) unfolding l by (simp_all only: not_less)
    moreover have "mm_addr mm > mm_last m0" using assms(5) that(1) by simp
    ultimately show ?thesis by (simp add: insert_lazy_mmap_def assms(4) rb_insert_at_def)
  qed
  obtain mm t where m: "mm_addr mm = a" "mm_length mm = PAGE_CEIL len" "insert_lazy_mmap mm (maps sp) = Some (Inr t)"
    "spaces s' (if target = 0 then sender else target) = Some (sp\<lparr>maps := t\<rparr>)"
    using fixed_mmap_inserted [OF assms(1-3) ins] by blast
  have t: "t = ?u mm" using ins m(1-3) by simp
  have "x < a" using assms(6,12) by simp
  then have "maps_search x t = None" "m1 \<in> set (rb_keys t)" using assms(9-11) m(1) by (auto simp: t)
  moreover have "maps_search x (maps sp) = Some m1" using assms(9-13) by (auto simp: assms(4))
  ultimately show ?thesis using m(4) by auto
qed

theorem vm_mmap_wrap_hides_mapping_witness:
  "\<exists>s' sp'. vm_reach [1, 2, 3] ex_a1 \<and> vm_mmap True True 0 1 0 0x80000000 0xa0000000 3 0x32 L4_nilthread 0 0 ex_a1 = Some ((0, 0x80000000), s')
    \<and> spaces s' 1 = Some sp' \<and> ex_anon 2 0x30000000 \<in> set (rb_keys (maps sp')) \<and> maps_search 0x30000000 (maps sp') = None"
proof -
  let ?sp = "ex_space (RB_NODE RB_BLACK RB_NULL ex_mm (RB_NODE RB_RED RB_NULL (ex_anon 2 0x30000000) RB_NULL)) 0"
  have sp: "spaces ex_a1 (if (0 :: nat) = 0 then 1 else 0) = Some ?sp" "maps ?sp = RB_NODE RB_BLACK RB_NULL ex_mm (RB_NODE RB_RED RB_NULL (ex_anon 2 0x30000000) RB_NULL)"
    by (simp_all add: ex_a1_def set_space_def ex_space_def)
  obtain s' where m: "vm_mmap True True 0 1 0 0x80000000 0xa0000000 3 0x32 L4_nilthread 0 0 ex_a1 = Some ((0, 0x80000000), s')"
    by (simp add: ex_mmap_simps ex_anon_def ex_a1_def ex_defs)
  have "vm_reach [1, 2, 3] ex_a1" by (rule reach_step [OF ex_reach2 step_mmap [OF ex_mmap1]]) (simp add: range_ok_def PAGE_CEIL_def)
  then show ?thesis using vm_mmap_wrap_hides_mapping [OF m _ sp, of "0x30000000"] m
    by (auto simp: ex_mm_def ex_anon_def mm_last_def mm_next_def PAGE_CEIL_def)
qed

end
