(* ===== verification/Sysmem.thy ===== *)
theory Sysmem
  imports Vm_Ops
begin

text \<open>
  The pager of the system tasks, \<^verbatim>\<open>sys/sysmem/sysmem.c\<close>: memory of tasks, page faults, and the replacement of
  pages that are not in use by compressed copies, two to a page.

  A physical page (\<^verbatim>\<open>struct p_page\<close>) is its number.  A logical page (\<^verbatim>\<open>struct l_page\<close>) has a number for the pointer to it;
  the nodes of a task's tree carry the address of the page and that number.  \<open>lp_frame\<close> and \<open>lp_swap\<close> are the
  page number and the \<^verbatim>\<open>LF_SWAP\<close> bit of \<open>p_addr\<close>.  \<open>sm_hdrs\<close> has the header of a page of compressed
  contents, with the bytes after the header in \<open>c_data\<close>, and \<open>sm_mem\<close> the contents of other pages.  What the kernel reports of accesses to
  pages, the compression library and the position of the program image in memory are arguments, in \<open>sm_env\<close>.
  \<open>None\<close> stands for a panic or a failed assertion.
\<close>

section \<open>Data\<close>

record sm_env =
  accessed :: "nat \<Rightarrow> nat \<Rightarrow> rights"
  lz_compress :: "u8 list \<Rightarrow> u8 list"
  lz_decompress :: "u8 list \<Rightarrow> u8 list"
  image :: "nat \<Rightarrow> bool"
  first_mem :: "nat \<Rightarrow> bool"

record p_page =
  pp_incompressible :: bool
  pp_owner :: "nat option"
  pp_age :: nat

record l_page =
  l_addr :: u32
  lp_frame :: nat
  lp_swap :: bool
  lp_flags :: u32

record c_hdr =
  c_a :: "nat option"
  c_b :: "nat option"
  c_a_len :: nat
  c_b_len :: nat
  c_data :: "u8 list"

record systask =
  t_mem :: "(u32 \<times> nat) rb_node"
  t_brk :: u32
  t_min_fault :: u32
  t_utcb_area :: fpage
  t_kip_area :: fpage

datatype alloc_type = SYSTASK | P_PAGE | L_PAGE

record alloc_head =
  ah_pages :: "nat list"
  ah_next :: nat
  ah_trash :: nat

record sysmem =
  sm_free :: "nat list"
  sm_active :: "nat list"
  sm_reserved :: "nat list"
  num_free_pages :: nat
  repl_enable :: bool
  sm_heads :: "alloc_type \<Rightarrow> alloc_head"
  sm_tasks :: "nat \<Rightarrow> systask option"
  sm_phys :: "nat \<Rightarrow> p_page"
  sm_log :: "nat \<Rightarrow> l_page option"
  sm_hdrs :: "nat \<Rightarrow> c_hdr option"
  buddy_list :: "nat list"
  hand :: "nat option"
  sm_mem :: "nat \<Rightarrow> u8 list"
  sm_next :: nat
  sm_unmaps :: nat

text \<open>The bytes of a page after the header, and the largest compressed size that is kept.\<close>

abbreviation (input) C_SPACE :: nat where "C_SPACE \<equiv> 4068"
abbreviation (input) MAX_COMPRESSED_SIZE :: nat where "MAX_COMPRESSED_SIZE \<equiv> 4042"
abbreviation (input) EFAULT :: int where "EFAULT \<equiv> 14"
abbreviation (input) SMATTR_PIN :: u32 where "SMATTR_PIN \<equiv> 1"

fun alloc_sz :: "alloc_type \<Rightarrow> nat" where
  "alloc_sz SYSTASK = 36" | "alloc_sz P_PAGE = 20" | "alloc_sz L_PAGE = 24"

definition upd_phys :: "nat \<Rightarrow> (p_page \<Rightarrow> p_page) \<Rightarrow> sysmem \<Rightarrow> sysmem" where
  "upd_phys p f s = s\<lparr>sm_phys := (sm_phys s)(p := f (sm_phys s p))\<rparr>"

definition upd_log :: "nat \<Rightarrow> (l_page \<Rightarrow> l_page) \<Rightarrow> sysmem \<Rightarrow> sysmem" where
  "upd_log lp f s = s\<lparr>sm_log := (sm_log s)(lp := map_option f (sm_log s lp))\<rparr>"

definition upd_systask :: "nat \<Rightarrow> (systask \<Rightarrow> systask) \<Rightarrow> sysmem \<Rightarrow> sysmem" where
  "upd_systask pid f s = s\<lparr>sm_tasks := (sm_tasks s)(pid := map_option f (sm_tasks s pid))\<rparr>"

definition add_free :: "nat \<Rightarrow> sysmem \<Rightarrow> sysmem" where
  "add_free p s = s\<lparr>sm_free := p # sm_free s, num_free_pages := Suc (num_free_pages s)\<rparr>"

section \<open>Trees\<close>

definition find_task :: "nat \<Rightarrow> sysmem \<Rightarrow> systask option" where
  "find_task pid s = (if pid < 50000 then None else sm_tasks s pid)"

fun put_lpage_helper :: "u32 \<Rightarrow> (u32 \<times> nat) rb_node \<Rightarrow> (u32 \<times> nat) rb_path \<Rightarrow> (u32 \<times> nat) rb_path option" where
  "put_lpage_helper a RB_NULL ps = Some ps"
| "put_lpage_helper a (RB_NODE c l oth r) ps =
     (if a < fst oth then put_lpage_helper a l (LEFT_OF c oth r # ps)
      else if a > fst oth then put_lpage_helper a r (RIGHT_OF c l oth # ps)
      else None)"

definition put_lpage :: "u32 \<Rightarrow> nat \<Rightarrow> (u32 \<times> nat) rb_node \<Rightarrow> (u32 \<times> nat) rb_node option" where
  "put_lpage a lp t = (case put_lpage_helper a t [] of None \<Rightarrow> None | Some ps \<Rightarrow> rb_insert_at (a, lp) ps)"

fun lpage_search :: "u32 \<Rightarrow> (u32 \<times> nat) rb_node \<Rightarrow> nat option" where
  "lpage_search a RB_NULL = None"
| "lpage_search a (RB_NODE c l cand r) =
     (let cand_addr = fst cand AND NOT 0xfff in
      if a < cand_addr then lpage_search a l else if a > cand_addr then lpage_search a r else Some (snd cand))"

text \<open>The outer option is the assertion that the address is that of a page.\<close>

definition get_lpage :: "systask \<Rightarrow> u32 \<Rightarrow> nat option option" where
  "get_lpage task a = (if a AND 0xfff \<noteq> 0 then None else Some (lpage_search a (t_mem task)))"

section \<open>Replacement of pages\<close>

text \<open>The search for the page of compressed contents with the least space left over.\<close>

definition buddy_left :: "sysmem \<Rightarrow> nat \<Rightarrow> int option" where
  "buddy_left s b = (case sm_hdrs s b of None \<Rightarrow> None
     | Some h \<Rightarrow> Some (int C_SPACE - int (if c_a h \<noteq> None then c_a_len h else c_b_len h)))"

fun best_buddy :: "int \<Rightarrow> int \<Rightarrow> nat option \<Rightarrow> nat list \<Rightarrow> sysmem \<Rightarrow> nat option option" where
  "best_buddy c waste best [] s = Some best"
| "best_buddy c waste best (cand # bs) s =
     (case buddy_left s cand of None \<Rightarrow> None
      | Some left \<Rightarrow>
          if left < c then best_buddy c waste best bs s
          else if left - c < waste then best_buddy c (left - c) (Some cand) bs s
          else best_buddy c waste best bs s)"

text \<open>Storing the compressed contents \<open>out\<close> of page \<open>p\<close>, which belongs to \<open>lp\<close>, in the page itself or in page \<open>b\<close>.\<close>

definition store_alone :: "nat \<Rightarrow> nat \<Rightarrow> u8 list \<Rightarrow> sysmem \<Rightarrow> sysmem" where
  "store_alone p lp out s =
     upd_phys p (\<lambda>q. q\<lparr>pp_owner := None\<rparr>) (upd_log lp (\<lambda>r. r\<lparr>lp_swap := True\<rparr>)
       (s\<lparr>sm_hdrs := (sm_hdrs s)(p \<mapsto> \<lparr>c_a = Some lp, c_b = None, c_a_len = length out, c_b_len = 0,
              c_data = out @ drop (length out + 28) (sm_mem s p)\<rparr>),
          buddy_list := p # buddy_list s\<rparr>))"

definition store_buddy :: "nat \<Rightarrow> nat \<Rightarrow> u8 list \<Rightarrow> c_hdr \<Rightarrow> c_hdr option" where
  "store_buddy b lp out h =
     (if c_a h = None then Some (h\<lparr>c_a := Some lp, c_a_len := length out, c_data := out @ drop (length out) (c_data h)\<rparr>)
      else if length out > C_SPACE then None
      else Some (h\<lparr>c_b := Some lp, c_b_len := length out, c_data := take (C_SPACE - length out) (c_data h) @ out\<rparr>))"

definition replace_active_page :: "sm_env \<Rightarrow> nat \<Rightarrow> sysmem \<Rightarrow> (bool \<times> sysmem) option" where
  "replace_active_page e p s =
     (case pp_owner (sm_phys s p) of None \<Rightarrow> None
      | Some lp \<Rightarrow>
          let out = lz_compress e (sm_mem s p); c_size = length out in
          if c_size \<ge> MAX_COMPRESSED_SIZE then Some (False, s)
          else if c_size = 0 then None
          else case best_buddy (int c_size) (int C_SPACE - int c_size) None (buddy_list s) s of
              None \<Rightarrow> None
            | Some None \<Rightarrow> Some (True, store_alone p lp out (s\<lparr>sm_active := removeAll p (sm_active s)\<rparr>))
            | Some (Some b) \<Rightarrow>
                (case sm_hdrs s b of None \<Rightarrow> None
                 | Some h \<Rightarrow> (case store_buddy b lp out h of None \<Rightarrow> None
                   | Some h' \<Rightarrow> Some (True, add_free p (upd_phys p (\<lambda>q. q\<lparr>pp_owner := None\<rparr>)
                        (upd_log lp (\<lambda>r. r\<lparr>lp_frame := b, lp_swap := True\<rparr>)
                          (s\<lparr>sm_active := removeAll p (sm_active s), sm_hdrs := (sm_hdrs s)(b \<mapsto> h'),
                             buddy_list := removeAll b (buddy_list s)\<rparr>)))))))"

definition list_next :: "nat list \<Rightarrow> nat \<Rightarrow> nat option" where
  "list_next xs x = (case dropWhile (\<lambda>y. y \<noteq> x) xs of _ # y # _ \<Rightarrow> Some y | _ \<Rightarrow> None)"

definition list_top :: "nat list \<Rightarrow> nat option" where
  "list_top xs = (case xs of [] \<Rightarrow> None | x # _ \<Rightarrow> Some x)"

text \<open>The clock hand moves over at most 64 pages: the pages seen, where the hand stops, and whether it passed the end of the list.\<close>

fun clock_scan :: "nat \<Rightarrow> nat \<Rightarrow> nat \<Rightarrow> bool \<Rightarrow> sysmem \<Rightarrow> (nat list \<times> nat \<times> bool) option" where
  "clock_scan 0 start h looped s = Some ([], h, looped)"
| "clock_scan (Suc n) start h looped s =
     (if h \<notin> set (sm_active s) \<or> pp_owner (sm_phys s h) = None then None
      else let (h', looped) = (case list_next (sm_active s) h of Some y \<Rightarrow> (y, looped) | None \<Rightarrow> (hd (sm_active s), True)) in
        if h' = start then Some ([h], h', looped)
        else map_option (\<lambda>(ps, r). (h # ps, r)) (clock_scan n start h' looped s))"

definition pinned :: "sysmem \<Rightarrow> nat \<Rightarrow> bool option" where
  "pinned s p = (case pp_owner (sm_phys s p) of None \<Rightarrow> None
     | Some lp \<Rightarrow> map_option (\<lambda>r. lp_flags r AND SMATTR_PIN \<noteq> 0) (sm_log s lp))"

definition age_page :: "sm_env \<Rightarrow> rights \<Rightarrow> nat \<Rightarrow> sysmem \<Rightarrow> (nat \<times> sysmem) option" where
  "age_page e acc p s =
     (let q = sm_phys s p in
      if acc \<noteq> 0
      then Some (0, upd_phys p (\<lambda>q. q\<lparr>pp_age := Suc (pp_age q), pp_incompressible := pp_incompressible q \<and> acc AND L4_Writable = 0\<rparr>) s)
      else if pp_age q > 0 then Some (0, upd_phys p (\<lambda>q. q\<lparr>pp_age := pp_age q div 2\<rparr>) s)
      else if pp_incompressible q then Some (0, s)
      else case pinned s p of None \<Rightarrow> None
        | Some True \<Rightarrow> Some (0, s)
        | Some False \<Rightarrow>
            let nxt = list_next (sm_active s) p in
            (case replace_active_page e p s of None \<Rightarrow> None
             | Some (False, s) \<Rightarrow> Some (0, upd_phys p (\<lambda>q. q\<lparr>pp_incompressible := True\<rparr>) s)
             | Some (True, s) \<Rightarrow>
                 Some (1, if hand s = Some p then s\<lparr>hand := (if nxt \<noteq> None then nxt else list_top (sm_active s))\<rparr> else s)))"

fun age_pages :: "sm_env \<Rightarrow> (nat \<Rightarrow> rights) \<Rightarrow> nat list \<Rightarrow> sysmem \<Rightarrow> (nat \<times> sysmem) option" where
  "age_pages e acc [] s = Some (0, s)"
| "age_pages e acc (p # ps) s =
     (case age_page e (acc p) p s of None \<Rightarrow> None
      | Some (n, s) \<Rightarrow> map_option (\<lambda>(m, s). (n + m, s)) (age_pages e acc ps s))"

definition clock_hand :: "sysmem \<Rightarrow> nat option" where
  "clock_hand s = (case hand s of None \<Rightarrow> list_top (sm_active s)
     | Some h \<Rightarrow> if pp_owner (sm_phys s h) = None then list_top (sm_active s) else Some h)"

definition replace_pages :: "sm_env \<Rightarrow> sysmem \<Rightarrow> ((nat \<times> bool) \<times> sysmem) option" where
  "replace_pages e s =
     (case clock_hand s of None \<Rightarrow> None
      | Some start \<Rightarrow>
          (case clock_scan 64 start start False s of None \<Rightarrow> None
           | Some (ps, h, looped) \<Rightarrow>
               map_option (\<lambda>(n, s). ((n, looped), s))
                 (age_pages e (accessed e (sm_unmaps s)) ps (s\<lparr>hand := Some h, sm_unmaps := Suc (sm_unmaps s)\<rparr>))))"

text \<open>The loop of \<open>get_free_page\<close>.  \<open>Inl\<close> is a panic; a loop that does not end is \<open>None\<close>.\<close>

partial_function (option) repl_loop :: "sm_env \<Rightarrow> nat \<Rightarrow> nat \<Rightarrow> sysmem \<Rightarrow> (unit + sysmem) option" where
  "repl_loop e loops loop_freed s =
     (if num_free_pages s \<ge> 48 then Some (Inr s)
      else case replace_pages e s of None \<Rightarrow> Some (Inl ())
        | Some ((n, looped), s) \<Rightarrow>
            if \<not> looped then repl_loop e loops (loop_freed + n) s
            else if loops > 1 \<and> loop_freed + n = 0 then Some (Inr s)
            else repl_loop e (Suc loops) 0 s)"

definition get_free_page :: "sm_env \<Rightarrow> sysmem \<Rightarrow> (nat \<times> sysmem) option" where
  "get_free_page e s =
     (case sm_free s of [] \<Rightarrow> None
      | p # ps \<Rightarrow>
          let s = upd_phys p (\<lambda>q. q\<lparr>pp_age := 1\<rparr>) (s\<lparr>sm_free := ps, num_free_pages := num_free_pages s - 1\<rparr>) in
          if repl_enable s \<and> num_free_pages s < 16
          then (case repl_loop e 0 0 s of
                  Some (Inr s) \<Rightarrow> if num_free_pages s < 16 then None else Some (p, s)
                | _ \<Rightarrow> None)
          else Some (p, s))"

section \<open>Memory for the server's own structures\<close>

text \<open>Items are cut from the page at the head of the list; an item that would end at the end of the page or after it is given up for
  one in a new page.  Recycled items are counted.\<close>

definition alloc_get_ram :: "sm_env \<Rightarrow> alloc_type \<Rightarrow> sysmem \<Rightarrow> sysmem option" where
  "alloc_get_ram e k s = map_option (\<lambda>(p, s). s\<lparr>sm_heads := (sm_heads s)(k := (sm_heads s k)\<lparr>ah_pages := p # ah_pages (sm_heads s k), ah_next := 4 + alloc_sz k\<rparr>)\<rparr>)
     (get_free_page e s)"

definition alloc :: "sm_env \<Rightarrow> alloc_type \<Rightarrow> sysmem \<Rightarrow> sysmem option" where
  "alloc e k s =
     (let h = sm_heads s k; nxt = ah_next h + alloc_sz k in
      if ah_trash h > 0 then Some (s\<lparr>sm_heads := (sm_heads s)(k := h\<lparr>ah_trash := ah_trash h - 1\<rparr>)\<rparr>)
      else if ah_pages h = [] \<or> nxt \<ge> PAGE_SIZE then alloc_get_ram e k s
      else Some (s\<lparr>sm_heads := (sm_heads s)(k := h\<lparr>ah_next := nxt\<rparr>)\<rparr>))"

definition recycle :: "alloc_type \<Rightarrow> sysmem \<Rightarrow> sysmem" where
  "recycle k s = s\<lparr>sm_heads := (sm_heads s)(k := (sm_heads s k)\<lparr>ah_trash := Suc (ah_trash (sm_heads s k))\<rparr>)\<rparr>"

section \<open>Faults\<close>

text \<open>The compressed contents of a logical page, and the header without it.\<close>

definition c_take :: "nat \<Rightarrow> c_hdr \<Rightarrow> (u8 list \<times> c_hdr) option" where
  "c_take lp h =
     (if c_a h = Some lp then Some (take (c_a_len h) (c_data h), h\<lparr>c_a := None\<rparr>)
      else if c_b h = Some lp then Some (drop (C_SPACE - c_b_len h) (c_data h), h\<lparr>c_b := None\<rparr>)
      else None)"

definition decompress :: "sm_env \<Rightarrow> nat \<Rightarrow> l_page \<Rightarrow> sysmem \<Rightarrow> (nat \<times> sysmem) option" where
  "decompress e lp r s =
     (case sm_hdrs s (lp_frame r) of None \<Rightarrow> None
      | Some h \<Rightarrow> (case c_take lp h of None \<Rightarrow> None
        | Some (bs, h') \<Rightarrow>
            if length (lz_decompress e bs) \<noteq> PAGE_SIZE then None
            else if c_a h' = None \<and> c_b h' = None
            then Some (lp_frame r, s\<lparr>sm_hdrs := (sm_hdrs s)(lp_frame r := None), buddy_list := removeAll (lp_frame r) (buddy_list s),
                   sm_mem := (sm_mem s)(lp_frame r := lz_decompress e bs)\<rparr>)
            else map_option (\<lambda>(p, s). (p, s\<lparr>buddy_list := lp_frame r # buddy_list s, sm_mem := (sm_mem s)(p := lz_decompress e bs)\<rparr>))
                   (get_free_page e (s\<lparr>sm_hdrs := (sm_hdrs s)(lp_frame r \<mapsto> h')\<rparr>))))"

definition get_task :: "sm_env \<Rightarrow> nat \<Rightarrow> sysmem \<Rightarrow> (systask \<times> sysmem) option" where
  "get_task e pid s =
     (if pid < 50000 then None
      else case find_task pid s of Some t \<Rightarrow> Some (t, s)
        | None \<Rightarrow> (case alloc e SYSTASK s of None \<Rightarrow> None
            | Some s \<Rightarrow> let t = \<lparr>t_mem = RB_NULL, t_brk = 0x10000, t_min_fault = NOT 0xfff, t_utcb_area = Nilpage, t_kip_area = Nilpage\<rparr>
                in Some (t, s\<lparr>sm_tasks := (sm_tasks s)(pid \<mapsto> t)\<rparr>)))"

text \<open>A new logical page without memory.\<close>

definition new_lpage :: "sm_env \<Rightarrow> nat \<Rightarrow> l_page \<Rightarrow> sysmem \<Rightarrow> (nat \<times> sysmem) option" where
  "new_lpage e pid r s =
     (case alloc e L_PAGE s of None \<Rightarrow> None
      | Some s \<Rightarrow> (case sm_tasks s pid of None \<Rightarrow> None
        | Some t \<Rightarrow> (case put_lpage (l_addr r) (sm_next s) (t_mem t) of None \<Rightarrow> None
          | Some m \<Rightarrow> Some (sm_next s, upd_systask pid (\<lambda>t. t\<lparr>t_mem := m\<rparr>)
              (s\<lparr>sm_log := (sm_log s)(sm_next s \<mapsto> r), sm_next := Suc (sm_next s)\<rparr>)))))"

definition give_page :: "nat \<Rightarrow> nat \<Rightarrow> sysmem \<Rightarrow> sysmem" where
  "give_page lp p s = (upd_phys p (\<lambda>q. q\<lparr>pp_owner := Some lp\<rparr>) (upd_log lp (\<lambda>r. r\<lparr>lp_frame := p, lp_swap := False\<rparr>) s))\<lparr>sm_active := sm_active s @ [p]\<rparr>"

datatype sm_result = SM_MAP nat u32 | SM_NO_REPLY

definition pf_page :: "sm_env \<Rightarrow> nat \<Rightarrow> nat \<Rightarrow> l_page \<Rightarrow> sysmem \<Rightarrow> sysmem option" where
  "pf_page e pid lp r s =
     (if lp_frame r = 0 \<and> \<not> lp_swap r then map_option (\<lambda>(p, s). give_page lp p s) (get_free_page e s)
      else if lp_swap r then map_option (\<lambda>(p, s). give_page lp p s) (decompress e lp r s)
      else Some s)"

definition pf_reply :: "nat \<Rightarrow> nat \<Rightarrow> u32 \<Rightarrow> sysmem \<Rightarrow> (sm_result \<times> sysmem) option" where
  "pf_reply pid lp page s =
     (case sm_log s lp of None \<Rightarrow> None
      | Some r \<Rightarrow> if lp_frame r = 0 then None
          else Some (SM_MAP (lp_frame r) page, upd_systask pid (\<lambda>t. t\<lparr>t_min_fault := min (t_min_fault t) page\<rparr>) s))"

definition handle_pf :: "sm_env \<Rightarrow> nat \<Rightarrow> u32 \<Rightarrow> sysmem \<Rightarrow> (sm_result \<times> sysmem) option" where
  "handle_pf e pid faddr s =
     (let page = faddr AND NOT 0xfff in
      if page = 0 then Some (SM_NO_REPLY, s)
      else case get_task e pid s of None \<Rightarrow> None
      | Some (t, s) \<Rightarrow> (case get_lpage t page of None \<Rightarrow> None
        | Some None \<Rightarrow>
            if page > t_brk t then Some (SM_NO_REPLY, s)
            else (case new_lpage e pid \<lparr>l_addr = page, lp_frame = 0, lp_swap = False, lp_flags = 0\<rparr> s of None \<Rightarrow> None
              | Some (lp, s) \<Rightarrow> (case get_free_page e s of None \<Rightarrow> None
                | Some (p, s) \<Rightarrow> pf_reply pid lp page (give_page lp p s)))
        | Some (Some lp) \<Rightarrow> (case sm_log s lp of None \<Rightarrow> None
            | Some r \<Rightarrow>
                if lp_frame r = 0 \<and> \<not> lp_swap r \<and> lp_flags r = 0 then None
                else (case pf_page e pid lp r s of None \<Rightarrow> None | Some s \<Rightarrow> pf_reply pid lp page s))))"

section \<open>Removal\<close>

definition drop_contents :: "nat \<Rightarrow> l_page \<Rightarrow> sysmem \<Rightarrow> sysmem option" where
  "drop_contents lp r s =
     (if lp_swap r
      then (case sm_hdrs s (lp_frame r) of None \<Rightarrow> None
        | Some h \<Rightarrow> (case c_take lp h of None \<Rightarrow> None
          | Some (bs, h') \<Rightarrow>
              if c_a h' = None \<and> c_b h' = None
              then if pp_owner (sm_phys s (lp_frame r)) \<noteq> None then None
                else Some (add_free (lp_frame r) (s\<lparr>sm_hdrs := (sm_hdrs s)(lp_frame r := None), buddy_list := removeAll (lp_frame r) (buddy_list s)\<rparr>))
              else Some (s\<lparr>sm_hdrs := (sm_hdrs s)(lp_frame r \<mapsto> h'), buddy_list := lp_frame r # buddy_list s\<rparr>)))
      else if lp_frame r \<notin> set (sm_active s) then Some s
      else if pp_owner (sm_phys s (lp_frame r)) \<noteq> Some lp then None
      else Some (add_free (lp_frame r) (upd_phys (lp_frame r) (\<lambda>q. q\<lparr>pp_owner := None\<rparr>) (s\<lparr>sm_active := removeAll (lp_frame r) (sm_active s)\<rparr>))))"

definition unlink_lpage :: "nat \<Rightarrow> nat \<Rightarrow> sysmem \<Rightarrow> sysmem option" where
  "unlink_lpage pid lp s = (case sm_tasks s pid of None \<Rightarrow> None
     | Some t \<Rightarrow> map_option (\<lambda>m. upd_systask pid (\<lambda>t. t\<lparr>t_mem := m\<rparr>) s) (rb_erase (\<lambda>x. snd x = lp) (t_mem t)))"

definition remove_l_page :: "nat \<Rightarrow> nat \<Rightarrow> sysmem \<Rightarrow> sysmem option" where
  "remove_l_page pid lp s =
     (case sm_log s lp of None \<Rightarrow> None
      | Some r \<Rightarrow> (case drop_contents lp r s of None \<Rightarrow> None
        | Some s \<Rightarrow> map_option (\<lambda>s. recycle L_PAGE (s\<lparr>sm_log := (sm_log s)(lp := None)\<rparr>)) (unlink_lpage pid lp s)))"

fun remove_l_pages :: "nat \<Rightarrow> nat list \<Rightarrow> sysmem \<Rightarrow> sysmem option" where
  "remove_l_pages pid [] s = Some s"
| "remove_l_pages pid (lp # lps) s = (case remove_l_page pid lp s of None \<Rightarrow> None | Some s \<Rightarrow> remove_l_pages pid lps s)"

definition impl_rm_task :: "nat \<Rightarrow> sysmem \<Rightarrow> sysmem option" where
  "impl_rm_task pid s =
     (case find_task pid s of None \<Rightarrow> Some s
      | Some t \<Rightarrow> map_option (\<lambda>s. recycle SYSTASK (s\<lparr>sm_tasks := (sm_tasks s)(pid := None)\<rparr>)) (remove_l_pages pid (map snd (rb_keys (t_mem t))) s))"

section \<open>Giving memory\<close>

definition new_p_page :: "nat \<Rightarrow> sysmem \<Rightarrow> sysmem" where
  "new_p_page p = upd_phys p (\<lambda>q. q\<lparr>pp_owner := None, pp_incompressible := False\<rparr>)"

text \<open>The record of a page of \<^verbatim>\<open>first_mem\<close> is dropped, since the page has one.\<close>

definition add_free_page :: "sm_env \<Rightarrow> nat \<Rightarrow> sysmem \<Rightarrow> sysmem" where
  "add_free_page e p s =
     (if image e p then if first_mem e p then s else (new_p_page p s)\<lparr>sm_reserved := sm_reserved s @ [p]\<rparr>
      else (new_p_page p s)\<lparr>sm_free := sm_free s @ [p], num_free_pages := Suc (num_free_pages s), repl_enable := repl_enable s \<or> Suc (num_free_pages s) > 60\<rparr>)"

definition add_task_page :: "sm_env \<Rightarrow> nat \<Rightarrow> nat \<Rightarrow> sysmem \<Rightarrow> sysmem option" where
  "add_task_page e pid p s =
     (let a = of_nat (PAGE_SIZE * p) in
      case new_lpage e pid \<lparr>l_addr = a, lp_frame = p, lp_swap = False, lp_flags = 0\<rparr> s of None \<Rightarrow> None
      | Some (lp, s) \<Rightarrow>
          Some (upd_systask pid (\<lambda>t. t\<lparr>t_min_fault := min (t_min_fault t) (a AND NOT 0xfff), t_brk := max (t_brk t) (a OR 0xfff)\<rparr>)
            (upd_phys p (\<lambda>q. q\<lparr>pp_owner := Some lp, pp_age := 1\<rparr>) (s\<lparr>sm_active := sm_active s @ [p]\<rparr>))))"

fun send_pages :: "sm_env \<Rightarrow> nat option \<Rightarrow> nat list \<Rightarrow> sysmem \<Rightarrow> sysmem option" where
  "send_pages e task [] s = Some s"
| "send_pages e task (p # ps) s =
     (case alloc e P_PAGE s of None \<Rightarrow> None
      | Some s \<Rightarrow>
          (case (case task of None \<Rightarrow> Some (add_free_page e p s) | Some pid \<Rightarrow> add_task_page e pid p (new_p_page p s)) of
             None \<Rightarrow> None | Some s \<Rightarrow> send_pages e task ps s))"

text \<open>Faults of the sender are served while the server waits for the pages; one that cannot be served is an abort.  \<open>received\<close>: whether the
  pages came, with contents \<open>cont\<close>; those of \<^verbatim>\<open>first_mem\<close> are mapped from the start.\<close>

fun interim_faults :: "sm_env \<Rightarrow> nat \<Rightarrow> u32 list \<Rightarrow> sysmem \<Rightarrow> sysmem option" where
  "interim_faults e pid [] s = Some s"
| "interim_faults e pid (a # as) s = (case handle_pf e pid a s of
      Some (SM_MAP p b, s) \<Rightarrow> interim_faults e pid as s | _ \<Rightarrow> None)"

definition impl_send_phys :: "sm_env \<Rightarrow> nat \<Rightarrow> u32 list \<Rightarrow> bool \<Rightarrow> (nat \<Rightarrow> u8 list) \<Rightarrow> nat option \<Rightarrow> nat \<Rightarrow> nat \<Rightarrow> sysmem \<Rightarrow> sysmem option" where
  "impl_send_phys e sender faults received cont dest frame_num size_log2 s =
     (if \<exists>pid. dest = Some pid \<and> pid < 50000 then Some s
      else case (case dest of None \<Rightarrow> Some s | Some pid \<Rightarrow> map_option snd (get_task e pid s)) of None \<Rightarrow> None
      | Some s \<Rightarrow> (case interim_faults e sender faults s of None \<Rightarrow> None
        | Some s \<Rightarrow>
            if \<not> received then Some s
            else let ps = [frame_num ..< frame_num + 2 ^ (size_log2 - 12)]
              in send_pages e dest ps (s\<lparr>sm_mem := (\<lambda>p. if p \<in> set ps \<and> \<not> first_mem e p then cont p else sm_mem s p)\<rparr>)))"

section \<open>Other calls\<close>

text \<open>The page at \<open>dest_addr\<close> goes first; if it is the page to be moved, the code goes on with memory it has recycled.\<close>

definition move_lpage :: "nat \<Rightarrow> nat \<Rightarrow> nat \<Rightarrow> u32 \<Rightarrow> sysmem \<Rightarrow> sysmem option" where
  "move_lpage src lp dest a s =
     (if sm_log s lp = None then None
      else case unlink_lpage src lp s of None \<Rightarrow> None
      | Some s \<Rightarrow> (case sm_tasks s dest of None \<Rightarrow> None
        | Some d \<Rightarrow> (case put_lpage a lp (t_mem d) of None \<Rightarrow> None
          | Some m \<Rightarrow> Some (upd_systask dest (\<lambda>t. t\<lparr>t_mem := m, t_min_fault := min (t_min_fault t) (a AND NOT 0xfff), t_brk := max (t_brk t) (a OR 0xfff)\<rparr>)
              (upd_log lp (\<lambda>r. r\<lparr>l_addr := a\<rparr>) s)))))"

definition impl_send_virt :: "sm_env \<Rightarrow> nat \<Rightarrow> u32 \<Rightarrow> nat option \<Rightarrow> u32 \<Rightarrow> sysmem \<Rightarrow> (int \<times> sysmem) option" where
  "impl_send_virt e src_pid src_addr dest dest_addr s =
     (if src_pid < 50000 then Some (EINVAL, s)
      else case get_task e src_pid s of None \<Rightarrow> None
      | Some (src, s) \<Rightarrow> (case get_lpage src src_addr of None \<Rightarrow> None
        | Some None \<Rightarrow> Some (EFAULT, s)
        | Some (Some lp) \<Rightarrow> (case dest of
              None \<Rightarrow> map_option (\<lambda>s. (0, s)) (remove_l_page src_pid lp s)
            | Some dest_pid \<Rightarrow>
                if dest_pid < 50000 then Some (EINVAL, s)
                else (case get_task e dest_pid s of None \<Rightarrow> None
                  | Some (d, s) \<Rightarrow> (case get_lpage d dest_addr of None \<Rightarrow> None
                    | Some dst \<Rightarrow> (case (case dst of None \<Rightarrow> Some s | Some q \<Rightarrow> remove_l_page dest_pid q s) of None \<Rightarrow> None
                      | Some s \<Rightarrow> map_option (\<lambda>s. (0, s)) (move_lpage src_pid lp dest_pid dest_addr s)))))))"

text \<open>The search for the first page to release goes by addresses; at the end of the address space it wraps around and may not end.\<close>

definition brk_first :: "u32 \<Rightarrow> u32 \<Rightarrow> (u32 \<times> nat) rb_node \<Rightarrow> nat option option" where
  "brk_first low high t =
     (let hit = (\<lambda>as. List.find (\<lambda>q. q \<noteq> None) (map (\<lambda>i. lpage_search (of_nat (PAGE_SIZE * i)) t) as));
          lo = unat (drop_bit 12 low); hi = unat (drop_bit 12 high) in
      case hit (if low < high then [lo ..< Suc hi] else []) of
        Some q \<Rightarrow> Some q
      | None \<Rightarrow> if high = NOT 0 \<and> low < high then (case hit [0 ..< lo] of Some q \<Rightarrow> Some q | None \<Rightarrow> None) else Some None)"

definition impl_brk :: "sm_env \<Rightarrow> nat \<Rightarrow> u32 \<Rightarrow> sysmem \<Rightarrow> sysmem option" where
  "impl_brk e pid new_brk s =
     (if pid < 50000 then Some s
      else case get_task e pid s of None \<Rightarrow> None
      | Some (t, s) \<Rightarrow>
          (case (if new_brk < t_brk t
                 then let low = (new_brk + 0xfff) AND NOT 0xfff; high = t_brk t OR 0xfff in
                   (case brk_first low high (t_mem t) of None \<Rightarrow> None
                    | Some None \<Rightarrow> Some s
                    | Some (Some lp) \<Rightarrow> remove_l_pages pid (map snd (takeWhile (\<lambda>x. fst x < high) (dropWhile (\<lambda>x. snd x \<noteq> lp) (rb_keys (t_mem t))))) s)
                 else Some s) of
             None \<Rightarrow> None
           | Some s \<Rightarrow> Some (upd_systask pid (\<lambda>t. t\<lparr>t_brk := new_brk\<rparr>) s)))"

definition impl_get_shape :: "nat \<Rightarrow> sysmem \<Rightarrow> int + u32 \<times> u32" where
  "impl_get_shape pid s =
     (case find_task pid s of None \<Rightarrow> Inl ENOENT
      | Some t \<Rightarrow>
          let fp_edges = (\<lambda>p. [L4_Address p, L4_Address p + L4_Size p - 1]);
              edges = [t_brk t, t_min_fault t] @ fp_edges (t_utcb_area t) @ fp_edges (t_kip_area t)
          in Inr (foldl min (NOT 0xfff) edges, foldl max 0 edges))"

definition impl_set_kernel_areas :: "nat \<Rightarrow> fpage \<Rightarrow> fpage \<Rightarrow> sysmem \<Rightarrow> int \<times> sysmem" where
  "impl_set_kernel_areas pid utcb kip s =
     (case find_task pid s of None \<Rightarrow> (ENOENT, s)
      | Some t \<Rightarrow>
          if utcb = Nilpage \<or> kip = Nilpage then (EINVAL, s)
          else if t_utcb_area t \<noteq> Nilpage \<or> t_kip_area t \<noteq> Nilpage then (EEXIST, s)
          else (0, upd_systask pid (\<lambda>t. t\<lparr>t_utcb_area := utcb, t_kip_area := kip\<rparr>) s))"

definition alter_page :: "sm_env \<Rightarrow> nat \<Rightarrow> u32 \<Rightarrow> u32 \<Rightarrow> u32 \<Rightarrow> sysmem \<Rightarrow> sysmem option" where
  "alter_page e pid or_mask and_mask a s =
     (case sm_tasks s pid of None \<Rightarrow> None
      | Some t \<Rightarrow> (case get_lpage t a of None \<Rightarrow> None
        | Some None \<Rightarrow> map_option snd (new_lpage e pid \<lparr>l_addr = a, lp_frame = 0, lp_swap = False, lp_flags = or_mask\<rparr> s)
        | Some (Some lp) \<Rightarrow>
            let s = upd_log lp (\<lambda>r. r\<lparr>lp_flags := (lp_flags r OR or_mask) AND and_mask\<rparr>) s in
            (case sm_log s lp of None \<Rightarrow> None
             | Some r \<Rightarrow> if lp_flags r = 0 \<and> lp_frame r = 0 \<and> \<not> lp_swap r then remove_l_page pid lp s else Some s)))"

fun alter_pages :: "sm_env \<Rightarrow> nat \<Rightarrow> u32 \<Rightarrow> u32 \<Rightarrow> u32 list \<Rightarrow> sysmem \<Rightarrow> sysmem option" where
  "alter_pages e pid or_mask and_mask [] s = Some s"
| "alter_pages e pid or_mask and_mask (a # as) s =
     (case alter_page e pid or_mask and_mask a s of None \<Rightarrow> None | Some s \<Rightarrow> alter_pages e pid or_mask and_mask as s)"

definition impl_alter_flags :: "sm_env \<Rightarrow> nat \<Rightarrow> nat option \<Rightarrow> fpage \<Rightarrow> u32 \<Rightarrow> u32 \<Rightarrow> sysmem \<Rightarrow> (int \<times> sysmem) option" where
  "impl_alter_flags e sender task area or_mask and_mask s =
     (let pid = (case task of None \<Rightarrow> sender | Some pid \<Rightarrow> pid) in
      if or_mask AND NOT and_mask \<noteq> 0 \<or> L4_Size area < 12 \<or> task = Some sender then Some (- EINVAL, s)
      else case find_task pid s of None \<Rightarrow> Some (- EINVAL, s)
      | Some t \<Rightarrow>
          if fpage_overlap (t_utcb_area t) area \<or> fpage_overlap (t_kip_area t) area then Some (- EINVAL, s)
          else map_option (\<lambda>s. (0, s)) (alter_pages e pid or_mask and_mask
            (if L4_Address area < L4_Address area + L4_Size area then pages_of (L4_Address area) (L4_Size area) else []) s))"

section \<open>Start\<close>

definition sm_start :: "nat list \<Rightarrow> (nat \<Rightarrow> u8 list) \<Rightarrow> sysmem" where
  "sm_start ps cont = \<lparr>sm_free = ps, sm_active = [], sm_reserved = [], num_free_pages = length ps, repl_enable = False,
     sm_heads = (\<lambda>_. \<lparr>ah_pages = [], ah_next = 0, ah_trash = 0\<rparr>), sm_tasks = (\<lambda>_. None),
     sm_phys = (\<lambda>_. \<lparr>pp_incompressible = False, pp_owner = None, pp_age = 0\<rparr>), sm_log = (\<lambda>_. None), sm_hdrs = (\<lambda>_. None), buddy_list = [],
     hand = None, sm_mem = cont, sm_next = 0, sm_unmaps = 0\<rparr>"

end
