(* ===== verification/Sysmem_Inv.thy ===== *)
theory Sysmem_Inv
  imports Sysmem
begin

text \<open>
  The invariant of the pager \<^verbatim>\<open>sys/sysmem/sysmem.c\<close> on pages: \<open>P\<close> is the set of physical pages it has been given and
  not handed to a caller; each is in one place.  While a page is being restored, it is in no header (\<open>L\<close>), and the page it
  comes from is not on the list of half-empty ones (\<open>F\<close>).
\<close>

definition head_pages :: "sysmem \<Rightarrow> nat set" where "head_pages s = (\<Union>k. set (ah_pages (sm_heads s k)))"

definition pg_lists :: "nat set \<Rightarrow> sysmem \<Rightarrow> bool" where
  "pg_lists P s \<longleftrightarrow> distinct (sm_free s @ sm_active s @ sm_reserved s)
     \<and> set (sm_free s @ sm_active s @ sm_reserved s) \<inter> (head_pages s \<union> dom (sm_hdrs s)) = {} \<and> head_pages s \<inter> dom (sm_hdrs s) = {}
     \<and> P = set (sm_free s @ sm_active s @ sm_reserved s) \<union> head_pages s \<union> dom (sm_hdrs s) \<and> 0 \<notin> P \<and> num_free_pages s = length (sm_free s)"

definition has_frame :: "sysmem \<Rightarrow> nat \<Rightarrow> nat \<Rightarrow> bool" where
  "has_frame s lp p \<longleftrightarrow> p \<noteq> 0 \<and> (\<exists>r. sm_log s lp = Some r \<and> \<not> lp_swap r \<and> lp_frame r = p)"

definition swapped_to :: "sysmem \<Rightarrow> nat \<Rightarrow> nat \<Rightarrow> bool" where
  "swapped_to s lp p \<longleftrightarrow> (\<exists>r. sm_log s lp = Some r \<and> lp_swap r \<and> lp_frame r = p)"

definition pg_owners :: "sysmem \<Rightarrow> bool" where
  "pg_owners s \<longleftrightarrow> (\<forall>p lp. pp_owner (sm_phys s p) = Some lp \<longleftrightarrow> has_frame s lp p) \<and> (\<forall>p. pp_owner (sm_phys s p) \<noteq> None \<longleftrightarrow> p \<in> set (sm_active s))"

definition c_ok :: "c_hdr \<Rightarrow> bool" where
  "c_ok h \<longleftrightarrow> length (c_data h) = C_SPACE \<and> (c_a h \<noteq> None \<or> c_b h \<noteq> None) \<and> (c_a h \<noteq> None \<longrightarrow> c_a h \<noteq> c_b h)
     \<and> (c_a h \<noteq> None \<longrightarrow> c_a_len h \<le> C_SPACE) \<and> (c_b h \<noteq> None \<longrightarrow> c_b_len h \<le> C_SPACE)
     \<and> (c_a h \<noteq> None \<longrightarrow> c_b h \<noteq> None \<longrightarrow> c_a_len h + c_b_len h \<le> C_SPACE)"

definition c_has :: "c_hdr \<Rightarrow> nat \<Rightarrow> bool" where "c_has h lp \<longleftrightarrow> c_a h = Some lp \<or> c_b h = Some lp"

definition pg_swap :: "nat set \<Rightarrow> nat set \<Rightarrow> sysmem \<Rightarrow> bool" where
  "pg_swap L F s \<longleftrightarrow> (\<forall>p h. sm_hdrs s p = Some h \<longrightarrow> c_ok h) \<and> (\<forall>lp p. swapped_to s lp p \<and> lp \<notin> L \<longleftrightarrow> (\<exists>h. sm_hdrs s p = Some h \<and> c_has h lp))
     \<and> (\<forall>lp \<in> L. \<exists>p \<in> F. swapped_to s lp p) \<and> F \<inter> set (sm_active s) = {}
     \<and> distinct (buddy_list s) \<and> set (buddy_list s) = {p. \<exists>h. sm_hdrs s p = Some h \<and> (c_a h = None \<or> c_b h = None)} - F"

definition pg_inv :: "nat set \<Rightarrow> nat set \<Rightarrow> nat set \<Rightarrow> sysmem \<Rightarrow> bool" where
  "pg_inv P L F s \<longleftrightarrow> pg_lists P s \<and> pg_owners s \<and> pg_swap L F s \<and> (\<forall>p. length (sm_mem s p) = PAGE_SIZE)"

lemma pg_invD:
  assumes "pg_inv P L F s"
  shows "pg_lists P s" "pg_owners s" "pg_swap L F s" "length (sm_mem s p) = PAGE_SIZE"
  using assms by (simp_all add: pg_inv_def)

text \<open>The contents of a logical page, wherever they are.\<close>

definition lview :: "sm_env \<Rightarrow> sysmem \<Rightarrow> nat \<Rightarrow> u8 list option" where
  "lview e s lp = (case sm_log s lp of None \<Rightarrow> None
     | Some r \<Rightarrow> if lp_swap r
         then (case sm_hdrs s (lp_frame r) of None \<Rightarrow> None | Some h \<Rightarrow> map_option (\<lambda>(bs, h). lz_decompress e bs) (c_take lp h))
         else if lp_frame r = 0 then None else Some (sm_mem s (lp_frame r)))"

definition lz_ok :: "sm_env \<Rightarrow> bool" where
  "lz_ok e \<longleftrightarrow> (\<forall>bs. length bs = PAGE_SIZE \<longrightarrow> lz_decompress e (lz_compress e bs) = bs)"

text \<open>What replacement keeps.\<close>

definition paged :: "sm_env \<Rightarrow> nat set \<Rightarrow> nat set \<Rightarrow> sysmem \<Rightarrow> sysmem \<Rightarrow> bool" where
  "paged e L F s s' \<longleftrightarrow> sm_tasks s' = sm_tasks s \<and> sm_next s' = sm_next s \<and> (\<forall>lp. map_option (\<lambda>r. (l_addr r, lp_flags r)) (sm_log s' lp) = map_option (\<lambda>r. (l_addr r, lp_flags r)) (sm_log s lp))
     \<and> (\<forall>lp \<in> L. sm_log s' lp = sm_log s lp) \<and> (\<forall>p \<in> F. sm_hdrs s' p = sm_hdrs s p) \<and> (\<forall>lp. lp \<notin> L \<longrightarrow> lview e s' lp = lview e s lp)
     \<and> sm_mem s' = sm_mem s \<and> (\<forall>lp r. sm_log s lp = Some r \<longrightarrow> \<not> lp_swap r \<longrightarrow> lp_frame r = 0 \<longrightarrow> sm_log s' lp = Some r)"

lemma paged_refl [simp]: "paged e L F s s" by (simp add: paged_def)

lemma paged_trans: "paged e L F s t \<Longrightarrow> paged e L F t u \<Longrightarrow> paged e L F s u" by (simp add: paged_def)

lemma sm_upd_sel [simp]:
  "sm_log (upd_log lp f s) = (sm_log s)(lp := map_option f (sm_log s lp))" "sm_phys (upd_phys p g s) = (sm_phys s)(p := g (sm_phys s p))"
  "sm_phys (upd_log lp f s) = sm_phys s" "sm_log (upd_phys p g s) = sm_log s"
  "sm_free (upd_log lp f s) = sm_free s" "sm_free (upd_phys p g s) = sm_free s"
  "sm_active (upd_log lp f s) = sm_active s" "sm_active (upd_phys p g s) = sm_active s"
  "sm_reserved (upd_log lp f s) = sm_reserved s" "sm_reserved (upd_phys p g s) = sm_reserved s"
  "num_free_pages (upd_log lp f s) = num_free_pages s" "num_free_pages (upd_phys p g s) = num_free_pages s"
  "repl_enable (upd_log lp f s) = repl_enable s" "repl_enable (upd_phys p g s) = repl_enable s"
  "sm_heads (upd_log lp f s) = sm_heads s" "sm_heads (upd_phys p g s) = sm_heads s"
  "sm_tasks (upd_log lp f s) = sm_tasks s" "sm_tasks (upd_phys p g s) = sm_tasks s"
  "sm_hdrs (upd_log lp f s) = sm_hdrs s" "sm_hdrs (upd_phys p g s) = sm_hdrs s"
  "buddy_list (upd_log lp f s) = buddy_list s" "buddy_list (upd_phys p g s) = buddy_list s"
  "hand (upd_log lp f s) = hand s" "hand (upd_phys p g s) = hand s"
  "sm_mem (upd_log lp f s) = sm_mem s" "sm_mem (upd_phys p g s) = sm_mem s"
  "sm_next (upd_log lp f s) = sm_next s" "sm_next (upd_phys p g s) = sm_next s"
  "sm_unmaps (upd_log lp f s) = sm_unmaps s" "sm_unmaps (upd_phys p g s) = sm_unmaps s"
  by (simp_all add: upd_log_def upd_phys_def)

lemma add_free_sel [simp]:
  "sm_log (add_free p s) = sm_log s" "sm_phys (add_free p s) = sm_phys s" "sm_free (add_free p s) = p # sm_free s" "sm_active (add_free p s) = sm_active s"
  "sm_reserved (add_free p s) = sm_reserved s" "num_free_pages (add_free p s) = Suc (num_free_pages s)" "repl_enable (add_free p s) = repl_enable s"
  "sm_heads (add_free p s) = sm_heads s" "sm_tasks (add_free p s) = sm_tasks s" "sm_hdrs (add_free p s) = sm_hdrs s" "buddy_list (add_free p s) = buddy_list s"
  "hand (add_free p s) = hand s" "sm_mem (add_free p s) = sm_mem s" "sm_next (add_free p s) = sm_next s" "sm_unmaps (add_free p s) = sm_unmaps s"
  by (simp_all add: add_free_def)

text \<open>Changes the invariant does not see.\<close>

lemma pg_inv_cong:
  assumes "sm_free s' = sm_free s" "sm_active s' = sm_active s" "sm_reserved s' = sm_reserved s" "num_free_pages s' = num_free_pages s"
    "head_pages s' = head_pages s" "sm_hdrs s' = sm_hdrs s" "sm_log s' = sm_log s" "buddy_list s' = buddy_list s" "sm_mem s' = sm_mem s"
    "\<forall>p. pp_owner (sm_phys s' p) = pp_owner (sm_phys s p)"
  shows "pg_inv P L F s' = pg_inv P L F s"
  unfolding pg_inv_def pg_lists_def pg_owners_def pg_swap_def has_frame_def swapped_to_def using assms by simp

lemma lview_cong: "sm_log s' = sm_log s \<Longrightarrow> sm_hdrs s' = sm_hdrs s \<Longrightarrow> sm_mem s' = sm_mem s \<Longrightarrow> lview e s' = lview e s"
  by (auto simp: lview_def fun_eq_iff split: option.split)

lemma paged_cong:
  assumes "sm_log s' = sm_log s" "sm_hdrs s' = sm_hdrs s" "sm_mem s' = sm_mem s" "sm_tasks s' = sm_tasks s" "sm_next s' = sm_next s"
  shows "paged e L F s s'"
  unfolding paged_def using assms lview_cong [of s' s] by simp

section \<open>Replacing a page\<close>

lemma best_buddy_Some:
  "best_buddy c w best bs s = Some (Some b) \<Longrightarrow> best = Some b \<or> b \<in> set bs \<and> (\<exists>left. buddy_left s b = Some left \<and> c \<le> left)"
  by (induction c w best bs s rule: best_buddy.induct) (auto split: option.splits if_splits)

lemma store_buddy_ok:
  assumes "c_ok h" "c_a h = None \<or> c_b h = None" "int (length out) \<le> int C_SPACE - int (if c_a h \<noteq> None then c_a_len h else c_b_len h)" "\<not> c_has h lp" "out \<noteq> []"
  shows "\<exists>h'. store_buddy b lp out h = Some h' \<and> c_ok h' \<and> c_a h' \<noteq> None \<and> c_b h' \<noteq> None \<and> (\<forall>q. c_has h' q \<longleftrightarrow> q = lp \<or> c_has h q)
    \<and> map_option fst (c_take lp h') = Some out \<and> (\<forall>q. c_has h q \<longrightarrow> map_option fst (c_take q h') = map_option fst (c_take q h))"
proof (cases "c_a h")
  case None
  then obtain q where q: "c_b h = Some q" "q \<noteq> lp" using assms(1,4) by (auto simp: c_ok_def c_has_def)
  have "c_b_len h \<le> C_SPACE" "length out \<le> C_SPACE - c_b_len h" using assms(1,3) None q by (auto simp: c_ok_def)
  then show ?thesis using None q assms(1) by (auto simp: store_buddy_def c_ok_def c_has_def c_take_def)
next
  case (Some q)
  then have q: "c_b h = None" "q \<noteq> lp" using assms(2,4) by (auto simp: c_has_def)
  have "c_a_len h \<le> C_SPACE" "length out \<le> C_SPACE - c_a_len h" "0 < length out" using assms(1,3,5) Some q by (auto simp: c_ok_def)
  then have "\<not> C_SPACE \<le> C_SPACE - length out" by linarith
  then show ?thesis using \<open>length out \<le> C_SPACE - c_a_len h\<close> \<open>c_a_len h \<le> C_SPACE\<close> Some q assms(1) by (auto simp: store_buddy_def c_ok_def c_has_def c_take_def min_def)
qed

lemma owned_page:
  assumes "pg_inv P L F s" "pp_owner (sm_phys s p) = Some lp"
  shows "has_frame s lp p" "p \<in> set (sm_active s)" "p \<notin> set (sm_free s)" "p \<notin> set (sm_reserved s)" "p \<notin> head_pages s" "sm_hdrs s p = None" "p \<noteq> 0" "p \<in> P" "lp \<notin> L"
    "\<not> swapped_to s lp q" "p \<notin> F" "\<not> swapped_to s q p"
proof -
  note I = pg_invD [OF assms(1)]
  show hf: "has_frame s lp p" "p \<in> set (sm_active s)" using I(2) assms(2) unfolding pg_owners_def by auto
  then show "p \<notin> set (sm_free s)" "p \<notin> set (sm_reserved s)" "p \<notin> head_pages s" "p \<noteq> 0" "p \<in> P" using I(1) unfolding pg_lists_def by auto
  show n: "sm_hdrs s p = None" using hf(2) I(1) unfolding pg_lists_def by auto
  show ns: "\<not> swapped_to s lp q" for q using hf(1) by (auto simp: swapped_to_def has_frame_def)
  then show "lp \<notin> L" using I(3) unfolding pg_swap_def by blast
  show f: "p \<notin> F" using hf(2) I(3) unfolding pg_swap_def by auto
  have "\<exists>h. sm_hdrs s p = Some h" if "swapped_to s q p" for q
  proof (cases "q \<in> L")
    case True
    then obtain p' where "p' \<in> F" "swapped_to s q p'" using I(3) unfolding pg_swap_def by blast
    moreover have "p' = p" using calculation(2) that by (auto simp: swapped_to_def)
    ultimately show ?thesis using f by simp
  next
    case False
    then show ?thesis using that I(3) unfolding pg_swap_def by blast
  qed
  then show "\<not> swapped_to s q p" using n by auto
qed

lemma pg_owners_drop:
  assumes "pg_owners s" "pp_owner (sm_phys s p) = Some lp" "\<And>x q. has_frame s' x q \<longleftrightarrow> has_frame s x q \<and> x \<noteq> lp"
    "\<And>q. pp_owner (sm_phys s' q) = (if q = p then None else pp_owner (sm_phys s q))" "sm_active s' = removeAll p (sm_active s)"
  shows "pg_owners s'"
proof -
  have o: "pp_owner (sm_phys s q) = Some x \<longleftrightarrow> has_frame s x q" "pp_owner (sm_phys s q) \<noteq> None \<longleftrightarrow> q \<in> set (sm_active s)" for x q
    using assms(1) unfolding pg_owners_def by blast+
  have u: "has_frame s lp q \<Longrightarrow> q = p" for q using o(1) [of p lp] assms(2) by (auto simp: has_frame_def)
  have "pp_owner (sm_phys s' q) = Some x \<longleftrightarrow> has_frame s' x q" for x q
    using o(1) [of q x] u [of q] assms(2) by (cases "q = p") (auto simp: assms(3,4))
  moreover have "pp_owner (sm_phys s' q) \<noteq> None \<longleftrightarrow> q \<in> set (sm_active s')" for q using o(2) [of q] by (simp add: assms(4,5))
  ultimately show ?thesis unfolding pg_owners_def by blast
qed

lemma store_alone_ok:
  assumes inv: "pg_inv P L F s" and lz: "lz_ok e" and ow: "pp_owner (sm_phys s p) = Some lp" and out: "out = lz_compress e (sm_mem s p)" "length out < MAX_COMPRESSED_SIZE"
  defines "s' \<equiv> store_alone p lp out (s\<lparr>sm_active := removeAll p (sm_active s)\<rparr>)"
  shows "pg_inv P L F s' \<and> paged e L F s s'"
proof -
  note I = pg_invD [OF inv]
  note O = owned_page [OF inv ow]
  define h where "h = \<lparr>c_a = Some lp, c_b = None, c_a_len = length out, c_b_len = 0, c_data = out @ drop (length out + 28) (sm_mem s p)\<rparr>"
  obtain r where r: "sm_log s lp = Some r" "\<not> lp_swap r" "lp_frame r = p" using O(1) by (auto simp: has_frame_def)
  have sel: "sm_free s' = sm_free s" "sm_active s' = removeAll p (sm_active s)" "sm_reserved s' = sm_reserved s" "num_free_pages s' = num_free_pages s" "head_pages s' = head_pages s"
    "sm_hdrs s' = (sm_hdrs s)(p \<mapsto> h)" "sm_log s' = (sm_log s)(lp \<mapsto> r\<lparr>lp_swap := True\<rparr>)" "buddy_list s' = p # buddy_list s" "sm_mem s' = sm_mem s"
    "\<And>q. pp_owner (sm_phys s' q) = (if q = p then None else pp_owner (sm_phys s q))"
    "sm_tasks s' = sm_tasks s" "sm_next s' = sm_next s" "sm_heads s' = sm_heads s" "repl_enable s' = repl_enable s"
    by (simp_all add: s'_def store_alone_def h_def r(1) head_pages_def)
  have hf: "has_frame s' x q \<longleftrightarrow> has_frame s x q \<and> x \<noteq> lp" for x q by (simp add: has_frame_def sel)
  have sw: "swapped_to s' x q \<longleftrightarrow> swapped_to s x q \<or> x = lp \<and> q = p" for x q using O(10) [of q] by (auto simp: swapped_to_def sel r)
  have h: "c_ok h" "c_has h x \<longleftrightarrow> x = lp" for x using I(4) [of p] out(2) by (auto simp: h_def c_ok_def c_has_def)
  have "pg_lists P s'" using I(1) O unfolding pg_lists_def sel by (auto simp: distinct_removeAll)
  moreover have "pg_owners s'" using pg_owners_drop [OF I(2) ow, of s'] hf sel(2,10) by blast
  moreover have "pg_swap L F s'" unfolding pg_swap_def sel sw
  proof (intro conjI)
    have sp: "(swapped_to s x q \<and> x \<notin> L) = (\<exists>h. sm_hdrs s q = Some h \<and> c_has h x)" for x q using I(3) unfolding pg_swap_def by blast
    show "\<forall>x q. ((swapped_to s x q \<or> x = lp \<and> q = p) \<and> x \<notin> L) = (\<exists>h'. ((sm_hdrs s)(p \<mapsto> h)) q = Some h' \<and> c_has h' x)"
    proof (intro allI)
      fix x q
      show "((swapped_to s x q \<or> x = lp \<and> q = p) \<and> x \<notin> L) = (\<exists>h'. ((sm_hdrs s)(p \<mapsto> h)) q = Some h' \<and> c_has h' x)"
        using sp [of x q] O(9,12) h(2) by (cases "q = p") auto
    qed
  qed (use I(3) O h in \<open>auto simp: pg_swap_def h_def\<close>)
  ultimately have "pg_inv P L F s'" using I(4) by (simp add: pg_inv_def sel)
  moreover have "lview e s' x = lview e s x" if "x \<notin> L" for x
  proof (cases "x = lp")
    case True
    have "lview e s' lp = Some (lz_decompress e out)" by (simp add: lview_def sel r c_take_def h_def)
    also have "lz_decompress e out = sm_mem s p" using lz I(4) unfolding lz_ok_def out(1) by blast
    finally show ?thesis using True O(7) by (simp add: lview_def r)
  next
    case False
    have "sm_log s x = Some r' \<Longrightarrow> lp_swap r' \<Longrightarrow> lp_frame r' \<noteq> p" for r' using O(12) [of x] by (auto simp: swapped_to_def)
    then show ?thesis using False by (auto simp: lview_def sel split: option.split)
  qed
  ultimately show ?thesis using O(9,11) r O(7) by (auto simp: paged_def sel)
qed

lemma add_buddy_ok:
  assumes inv: "pg_inv P L F s" and lz: "lz_ok e" and ow: "pp_owner (sm_phys s p) = Some lp" and out: "out = lz_compress e (sm_mem s p)" "out \<noteq> []"
    and b: "b \<in> set (buddy_list s)" "buddy_left s b = Some left" "int (length out) \<le> left" and hb: "sm_hdrs s b = Some h"
  obtains h' where "store_buddy b lp out h = Some h'"
    "let s' = add_free p (upd_phys p (\<lambda>q. q\<lparr>pp_owner := None\<rparr>) (upd_log lp (\<lambda>r. r\<lparr>lp_frame := b, lp_swap := True\<rparr>)
                          (s\<lparr>sm_active := removeAll p (sm_active s), sm_hdrs := (sm_hdrs s)(b \<mapsto> h'), buddy_list := removeAll b (buddy_list s)\<rparr>)))
     in pg_inv P L F s' \<and> paged e L F s s'"
proof -
  note I = pg_invD [OF inv]
  note O = owned_page [OF inv ow]
  have sp: "(swapped_to s x q \<and> x \<notin> L) = (\<exists>h. sm_hdrs s q = Some h \<and> c_has h x)" for x q using I(3) unfolding pg_swap_def by blast
  have hok: "c_ok h" "c_a h = None \<or> c_b h = None" "b \<notin> F" using I(3) hb b(1) unfolding pg_swap_def by auto
  have nh: "\<not> c_has h lp" using sp [of lp b] O(10) hb by auto
  obtain h' where h': "store_buddy b lp out h = Some h'" "c_ok h'" "c_a h' \<noteq> None" "c_b h' \<noteq> None" "\<forall>q. c_has h' q \<longleftrightarrow> q = lp \<or> c_has h q"
    "map_option fst (c_take lp h') = Some out" "\<forall>q. c_has h q \<longrightarrow> map_option fst (c_take q h') = map_option fst (c_take q h)"
    using store_buddy_ok [OF hok(1,2) _ nh out(2), of b] b(2,3) hb by (auto simp: buddy_left_def)
  define s' where "s' = add_free p (upd_phys p (\<lambda>q. q\<lparr>pp_owner := None\<rparr>) (upd_log lp (\<lambda>r. r\<lparr>lp_frame := b, lp_swap := True\<rparr>)
                          (s\<lparr>sm_active := removeAll p (sm_active s), sm_hdrs := (sm_hdrs s)(b \<mapsto> h'), buddy_list := removeAll b (buddy_list s)\<rparr>)))"
  obtain r where r: "sm_log s lp = Some r" "\<not> lp_swap r" "lp_frame r = p" using O(1) by (auto simp: has_frame_def)
  have sel: "sm_free s' = p # sm_free s" "sm_active s' = removeAll p (sm_active s)" "sm_reserved s' = sm_reserved s" "num_free_pages s' = Suc (num_free_pages s)" "head_pages s' = head_pages s"
    "sm_hdrs s' = (sm_hdrs s)(b \<mapsto> h')" "sm_log s' = (sm_log s)(lp \<mapsto> r\<lparr>lp_frame := b, lp_swap := True\<rparr>)" "buddy_list s' = removeAll b (buddy_list s)" "sm_mem s' = sm_mem s"
    "\<And>q. pp_owner (sm_phys s' q) = (if q = p then None else pp_owner (sm_phys s q))"
    "sm_tasks s' = sm_tasks s" "sm_next s' = sm_next s" "sm_heads s' = sm_heads s" "repl_enable s' = repl_enable s"
    by (simp_all add: s'_def r(1) head_pages_def)
  have hf: "has_frame s' x q \<longleftrightarrow> has_frame s x q \<and> x \<noteq> lp" for x q by (simp add: has_frame_def sel)
  have sw: "swapped_to s' x q \<longleftrightarrow> swapped_to s x q \<or> x = lp \<and> q = b" for x q using O(10) [of q] by (auto simp: swapped_to_def sel r)
  have "dom (sm_hdrs s') = dom (sm_hdrs s)" using hb by (auto simp: sel)
  then have "pg_lists P s'" using I(1) O unfolding pg_lists_def sel by (auto simp: distinct_removeAll)
  moreover have "pg_owners s'" using pg_owners_drop [OF I(2) ow, of s'] hf sel(2,10) by blast
  moreover have "pg_swap L F s'" unfolding pg_swap_def sel sw
  proof (intro conjI)
    show "\<forall>x q. ((swapped_to s x q \<or> x = lp \<and> q = b) \<and> x \<notin> L) = (\<exists>h''. ((sm_hdrs s)(b \<mapsto> h')) q = Some h'' \<and> c_has h'' x)"
    proof (intro allI)
      fix x q
      show "((swapped_to s x q \<or> x = lp \<and> q = b) \<and> x \<notin> L) = (\<exists>h''. ((sm_hdrs s)(b \<mapsto> h')) q = Some h'' \<and> c_has h'' x)"
        using sp [of x q] O(9) h'(5) hb by (cases "q = b") auto
    qed
  qed (use I(3) hb h'(2-4) hok(3) in \<open>auto simp: pg_swap_def distinct_removeAll\<close>)
  ultimately have inv': "pg_inv P L F s'" using I(4) by (simp add: pg_inv_def sel)
  have "lview e s' x = lview e s x" if "x \<notin> L" for x
  proof (cases "x = lp")
    case True
    have "lview e s' lp = Some (lz_decompress e out)" using h'(6) by (auto simp: lview_def sel)
    also have "lz_decompress e out = sm_mem s p" using lz I(4) unfolding lz_ok_def out(1) by blast
    finally show ?thesis using True O(7) by (simp add: lview_def r)
  next
    case False
    have "map_option (\<lambda>(bs, h). lz_decompress e bs) (c_take x h') = map_option (\<lambda>(bs, h). lz_decompress e bs) (c_take x h)"
      if "sm_log s x = Some r'" "lp_swap r'" "lp_frame r' = b" for r'
    proof -
      have "c_has h x" using sp [of x b] that \<open>x \<notin> L\<close> hb by (auto simp: swapped_to_def)
      then have "map_option (lz_decompress e) (map_option fst (c_take x h')) = map_option (lz_decompress e) (map_option fst (c_take x h))" using h'(7) by simp
      then show ?thesis by (simp add: option.map_comp comp_def case_prod_unfold)
    qed
    then show ?thesis using False hb by (auto simp: lview_def sel split: option.split)
  qed
  then have "paged e L F s s'" using O(7,9) hok(3) r by (auto simp: paged_def sel)
  then show ?thesis using that [OF h'(1)] inv' unfolding s'_def Let_def by blast
qed

lemma replace_active_page_ok:
  assumes inv: "pg_inv P L F s" and lz: "lz_ok e" and r: "replace_active_page e p s = Some (b, s')"
  shows "pg_inv P L F s'" "paged e L F s s'" "sm_active s' = (if b then removeAll p (sm_active s) else sm_active s)" "hand s' = hand s" "p \<in> set (sm_active s)" "\<not> b \<Longrightarrow> s' = s"
proof -
  obtain lp where lp: "pp_owner (sm_phys s p) = Some lp" using r by (auto simp: replace_active_page_def split: option.splits)
  show "p \<in> set (sm_active s)" by (rule owned_page(2) [OF inv lp])
  define out where "out = lz_compress e (sm_mem s p)"
  have "pg_inv P L F s' \<and> paged e L F s s' \<and> sm_active s' = (if b then removeAll p (sm_active s) else sm_active s) \<and> hand s' = hand s \<and> (\<not> b \<longrightarrow> s' = s)"
  proof (cases "MAX_COMPRESSED_SIZE \<le> length out")
    case True
    then have "b = False" "s' = s" using r by (simp_all add: replace_active_page_def lp out_def [symmetric])
    then show ?thesis using inv by simp
  next
    case False
    note R = r [unfolded replace_active_page_def lp option.case Let_def, folded out_def]
    have o: "out \<noteq> []" using R False by (auto split: if_splits)
    obtain best where best: "best_buddy (int (length out)) (int C_SPACE - int (length out)) None (buddy_list s) s = Some best"
      using R False o by (cases "best_buddy (int (length out)) (int C_SPACE - int (length out)) None (buddy_list s) s") auto
    show ?thesis
    proof (cases best)
      case None
      have e: "b = True" "s' = store_alone p lp out (s\<lparr>sm_active := removeAll p (sm_active s)\<rparr>)" using R False o best None by auto
      have "pg_inv P L F s' \<and> paged e L F s s'" unfolding e(2) by (rule store_alone_ok [OF inv lz lp]) (use False in \<open>simp_all add: out_def\<close>)
      then show ?thesis by (simp add: e store_alone_def)
    next
      case (Some q)
      obtain left where q: "q \<in> set (buddy_list s)" "buddy_left s q = Some left" "int (length out) \<le> left" using best_buddy_Some [OF best [unfolded Some]] by blast
      then obtain h where h: "sm_hdrs s q = Some h" by (auto simp: buddy_left_def split: option.splits)
      obtain h' where h': "store_buddy q lp out h = Some h'"
        "let s' = add_free p (upd_phys p (\<lambda>q. q\<lparr>pp_owner := None\<rparr>) (upd_log lp (\<lambda>r. r\<lparr>lp_frame := q, lp_swap := True\<rparr>)
                          (s\<lparr>sm_active := removeAll p (sm_active s), sm_hdrs := (sm_hdrs s)(q \<mapsto> h'), buddy_list := removeAll q (buddy_list s)\<rparr>)))
     in pg_inv P L F s' \<and> paged e L F s s'" by (rule add_buddy_ok [OF inv lz lp out_def o q h])
      show ?thesis using R False o best Some h h' by (auto simp: Let_def)
    qed
  qed
  then show "pg_inv P L F s'" "paged e L F s s'" "sm_active s' = (if b then removeAll p (sm_active s) else sm_active s)" "hand s' = hand s" "\<not> b \<Longrightarrow> s' = s" by blast+
qed

lemma pg_inv_phys:
  assumes "\<And>q. pp_owner (f q) = pp_owner q"
  shows "pg_inv P L F (upd_phys p f s) = pg_inv P L F s" "paged e L F s (upd_phys p f s)"
proof -
  show "pg_inv P L F (upd_phys p f s) = pg_inv P L F s" by (rule pg_inv_cong) (simp_all add: assms head_pages_def)
  show "paged e L F s (upd_phys p f s)" by (rule paged_cong) simp_all
qed

lemma pg_inv_hand [simp]: "pg_inv P L F (s\<lparr>hand := h\<rparr>) = pg_inv P L F s" "pg_inv P L F (s\<lparr>sm_unmaps := n\<rparr>) = pg_inv P L F s"
  by (rule pg_inv_cong; simp add: head_pages_def)+

lemma paged_hand: "paged e L F s (s\<lparr>hand := h\<rparr>)" "paged e L F s (s\<lparr>hand := h, sm_unmaps := n\<rparr>)"
  by (rule paged_cong; simp)+

lemma length_removeAll_distinct: "distinct xs \<Longrightarrow> x \<in> set xs \<Longrightarrow> Suc (length (removeAll x xs)) = length xs"
  using length_pos_if_in_set [of x xs] by (simp add: length_remove1 distinct_remove1_removeAll [symmetric])

lemma age_page_ok:
  assumes inv: "pg_inv P L F s" and lz: "lz_ok e" and r: "age_page e acc p s = Some (n, s')"
  shows "pg_inv P L F s' \<and> paged e L F s s' \<and> length (sm_active s') + n = length (sm_active s) \<and> (n = 0 \<longrightarrow> sm_active s' = sm_active s \<and> hand s' = hand s)"
proof (cases "acc \<noteq> 0 \<or> pp_age (sm_phys s p) > 0 \<or> pp_incompressible (sm_phys s p) \<or> pinned s p = Some True")
  case True
  then have "n = 0" "s' = s \<or> s' = upd_phys p (\<lambda>q. q\<lparr>pp_age := Suc (pp_age q), pp_incompressible := pp_incompressible q \<and> acc AND L4_Writable = 0\<rparr>) s
      \<or> s' = upd_phys p (\<lambda>q. q\<lparr>pp_age := pp_age q div 2\<rparr>) s"
    using r by (auto simp: age_page_def Let_def split: if_splits)
  then show ?thesis using inv by (auto simp: pg_inv_phys)
next
  case False
  then have pin: "pinned s p = Some False" using r by (auto simp: age_page_def Let_def split: option.splits)
  then obtain b s1 where b: "replace_active_page e p s = Some (b, s1)" using r False by (auto simp: age_page_def Let_def split: option.splits)
  note R = replace_active_page_ok [OF inv lz b]
  show ?thesis
  proof (cases b)
    case True
    have "n = 1" "s' = s1 \<or> (\<exists>h. s' = s1\<lparr>hand := h\<rparr>)" using r False pin b True by (auto simp: age_page_def Let_def split: if_splits)
    moreover have "distinct (sm_active s)" using pg_invD(1) [OF inv] by (simp add: pg_lists_def)
    ultimately show ?thesis using R True length_removeAll_distinct [of "sm_active s" p] paged_trans [OF R(2) paged_hand(1)] by auto
  next
    case nb: False
    have "n = 0" "s' = upd_phys p (\<lambda>q. q\<lparr>pp_incompressible := True\<rparr>) s" using r False pin b nb R(6) by (auto simp: age_page_def Let_def split: if_splits)
    then show ?thesis using inv by (simp add: pg_inv_phys)
  qed
qed

lemma age_pages_ok:
  assumes "pg_inv P L F s" "lz_ok e" "age_pages e acc ps s = Some (n, s')"
  shows "pg_inv P L F s' \<and> paged e L F s s' \<and> length (sm_active s') + n = length (sm_active s) \<and> (n = 0 \<longrightarrow> sm_active s' = sm_active s \<and> hand s' = hand s)"
  using assms
proof (induction ps arbitrary: s n)
  case (Cons p ps)
  obtain n1 s1 where 1: "age_page e (acc p) p s = Some (n1, s1)" using Cons.prems(3) by (auto split: option.splits)
  then obtain n2 where 2: "age_pages e acc ps s1 = Some (n2, s')" "n = n1 + n2" using Cons.prems(3) by auto
  note A = age_page_ok [OF Cons.prems(1,2) 1]
  have B: "pg_inv P L F s' \<and> paged e L F s1 s' \<and> length (sm_active s') + n2 = length (sm_active s1) \<and> (n2 = 0 \<longrightarrow> sm_active s' = sm_active s1 \<and> hand s' = hand s1)"
    using Cons.IH A Cons.prems(2) 2(1) by blast
  show ?case using A B 2(2) paged_trans by auto
qed simp

section \<open>The clock\<close>

lemma list_next_Some:
  assumes "distinct xs" "list_next xs x = Some y"
  shows "y \<in> set xs" "length (dropWhile (\<lambda>z. z \<noteq> y) xs) < length (dropWhile (\<lambda>z. z \<noteq> x) xs)"
proof -
  obtain x' zs where d: "dropWhile (\<lambda>z. z \<noteq> x) xs = x' # y # zs" using assms(2) by (auto simp: list_next_def split: list.splits)
  define us where "us = takeWhile (\<lambda>z. z \<noteq> x) xs"
  have e: "xs = us @ x' # y # zs" using takeWhile_dropWhile_id [of "\<lambda>z. z \<noteq> x" xs] d us_def by simp
  then show "y \<in> set xs" by simp
  have "y \<notin> set us" "y \<noteq> x'" using assms(1) e by auto
  then have "dropWhile (\<lambda>z. z \<noteq> y) xs = y # zs" unfolding e by (induction us) auto
  then show "length (dropWhile (\<lambda>z. z \<noteq> y) xs) < length (dropWhile (\<lambda>z. z \<noteq> x) xs)" using d by simp
qed

lemma clock_scan_ok:
  assumes "clock_scan n start h looped s = Some (ps, h', looped')" "distinct (sm_active s)" "0 < n"
  shows "h' \<in> set (sm_active s) \<and> (\<not> looped' \<longrightarrow> \<not> looped \<and> length (dropWhile (\<lambda>z. z \<noteq> h') (sm_active s)) < length (dropWhile (\<lambda>z. z \<noteq> h) (sm_active s)))"
  using assms
proof (induction n arbitrary: h looped ps)
  case (Suc n)
  have h: "h \<in> set (sm_active s)" using Suc.prems(1) by (auto split: if_splits)
  define w where "w = (case list_next (sm_active s) h of Some y \<Rightarrow> (y, looped) | None \<Rightarrow> (hd (sm_active s), True))"
  have m: "fst w \<in> set (sm_active s)" using list_next_Some(1) [OF Suc.prems(2), of h] h by (cases "list_next (sm_active s) h") (auto simp: w_def intro: hd_in_set)
  have l: "\<not> snd w \<Longrightarrow> \<not> looped \<and> length (dropWhile (\<lambda>z. z \<noteq> fst w) (sm_active s)) < length (dropWhile (\<lambda>z. z \<noteq> h) (sm_active s))"
    using list_next_Some(2) [OF Suc.prems(2), of h] by (cases "list_next (sm_active s) h") (auto simp: w_def)
  note C = Suc.prems(1) [unfolded clock_scan.simps, folded w_def]
  show ?case
  proof (cases "fst w = start \<or> n = 0")
    case True
    then have "h' = fst w" "looped' = snd w" using C by (auto split: if_splits prod.splits simp: case_prod_unfold)
    then show ?thesis using m l by simp
  next
    case False
    obtain qs where q: "clock_scan n start (fst w) (snd w) s = Some (qs, h', looped')" using C False by (auto split: if_splits prod.splits simp: case_prod_unfold)
    have "h' \<in> set (sm_active s) \<and> (\<not> looped' \<longrightarrow> \<not> snd w \<and> length (dropWhile (\<lambda>z. z \<noteq> h') (sm_active s)) < length (dropWhile (\<lambda>z. z \<noteq> fst w) (sm_active s)))"
      using Suc.IH [OF q Suc.prems(2)] False by simp
    then show ?thesis using l by auto
  qed
qed simp

end
