(* ===== verification/Sysmem_Pages.thy ===== *)
theory Sysmem_Pages
  imports Sysmem_Inv
begin

text \<open>
  Free pages in the pager \<^verbatim>\<open>sys/sysmem/sysmem.c\<close>: the replacement loop ends, and taking a page keeps the
  invariant and the contents of every logical page.
\<close>

definition clock_dist :: "sysmem \<Rightarrow> nat" where
  "clock_dist s = (case clock_hand s of None \<Rightarrow> 0 | Some h \<Rightarrow> length (dropWhile (\<lambda>z. z \<noteq> h) (sm_active s)))"

lemma replace_pages_ok:
  assumes inv: "pg_inv P L F s" and lz: "lz_ok e" and r: "replace_pages e s = Some ((n, looped), s')"
  shows "pg_inv P L F s'" "paged e L F s s'" "length (sm_active s') + n = length (sm_active s)" "n = 0 \<Longrightarrow> \<not> looped \<Longrightarrow> clock_dist s' < clock_dist s"
proof -
  obtain start ps h where c: "clock_hand s = Some start" "clock_scan 64 start start False s = Some (ps, h, looped)"
    "age_pages e (accessed e (sm_unmaps s)) ps (s\<lparr>hand := Some h, sm_unmaps := Suc (sm_unmaps s)\<rparr>) = Some (n, s')"
    using r by (auto simp: replace_pages_def split: option.splits)
  have i: "pg_inv P L F (s\<lparr>hand := Some h, sm_unmaps := Suc (sm_unmaps s)\<rparr>)"
    using inv by simp
  note A = age_pages_ok [OF i lz c(3)]
  show "pg_inv P L F s'" "length (sm_active s') + n = length (sm_active s)" using A by simp_all
  show "paged e L F s s'" using A paged_trans [OF paged_hand(2)] by blast
  assume z: "n = 0" "\<not> looped"
  have e: "sm_active s' = sm_active s" "hand s' = Some h" using A z by simp_all
  have d: "distinct (sm_active s)" using pg_invD(1) [OF inv] by (simp add: pg_lists_def)
  have S: "h \<in> set (sm_active s)" "length (dropWhile (\<lambda>z. z \<noteq> h) (sm_active s)) < length (dropWhile (\<lambda>z. z \<noteq> start) (sm_active s))"
    using clock_scan_ok [OF c(2) d] z by simp_all
  have "pg_owners s'" using A by (simp add: pg_inv_def)
  then have "pp_owner (sm_phys s' h) \<noteq> None" using S(1) e(1) unfolding pg_owners_def by metis
  then have "clock_hand s' = Some h" by (auto simp: clock_hand_def e(2))
  then show "clock_dist s' < clock_dist s" using S(2) by (simp add: clock_dist_def c(1) e(1))
qed

lemma repl_loop_returns:
  assumes "pg_inv P L F s" "lz_ok e"
  shows "\<exists>res. repl_loop e loops loop_freed s = Some res \<and> (\<forall>s'. res = Inr s' \<longrightarrow> pg_inv P L F s' \<and> paged e L F s s')"
  using assms(1)
proof (induction "(2 - loops, 2 * length (sm_active s) + (if loop_freed > 0 then 1 else 0), clock_dist s)" arbitrary: loops loop_freed s
    rule: wf_induct_rule [OF wf_lex_prod [OF wf_less_than wf_lex_prod [OF wf_less_than wf_less_than]]])
  case (1 loops loop_freed s)
  show ?case
  proof (cases "num_free_pages s \<ge> 48")
    case True
    then show ?thesis using 1(2) by (subst repl_loop.simps) simp
  next
    case few: False
    show ?thesis
    proof (cases "replace_pages e s")
      case None
      then show ?thesis using few by (subst repl_loop.simps) simp
    next
      case (Some x)
      obtain n looped s1 where x: "replace_pages e s = Some ((n, looped), s1)" using Some by (cases x) auto
      note R = replace_pages_ok [OF 1(2) assms(2) x]
      have step: "repl_loop e loops loop_freed s = (if \<not> looped then repl_loop e loops (loop_freed + n) s1
          else if loops > 1 \<and> loop_freed + n = 0 then Some (Inr s1) else repl_loop e (Suc loops) 0 s1)"
        using few x by (subst repl_loop.simps) simp
      have go: "\<exists>res. repl_loop e l f s1 = Some res \<and> (\<forall>s'. res = Inr s' \<longrightarrow> pg_inv P L F s' \<and> paged e L F s s')"
        if "((2 - l, 2 * length (sm_active s1) + (if f > 0 then 1 else 0), clock_dist s1),
             (2 - loops, 2 * length (sm_active s) + (if loop_freed > 0 then 1 else 0), clock_dist s)) \<in> less_than <*lex*> less_than <*lex*> less_than" for l f
        using 1(1) [OF that R(1)] paged_trans [OF R(2)] by blast
      show ?thesis
      proof (cases looped)
        case False
        have "\<exists>res. repl_loop e loops (loop_freed + n) s1 = Some res \<and> (\<forall>s'. res = Inr s' \<longrightarrow> pg_inv P L F s' \<and> paged e L F s s')"
          by (rule go) (use R(3,4) False in \<open>auto simp: in_lex_prod\<close>)
        then show ?thesis using step False by simp
      next
        case True
        show ?thesis
        proof (cases "loops > 1 \<and> loop_freed + n = 0")
          case stop: True
          then show ?thesis using step True R(1,2) by simp
        next
          case False
          have "\<exists>res. repl_loop e (Suc loops) 0 s1 = Some res \<and> (\<forall>s'. res = Inr s' \<longrightarrow> pg_inv P L F s' \<and> paged e L F s s')"
            by (rule go) (use R(3) False in \<open>auto simp: in_lex_prod\<close>)
          moreover have "repl_loop e loops loop_freed s = repl_loop e (Suc loops) 0 s1" using step True False by auto
          ultimately show ?thesis by simp
        qed
      qed
    qed
  qed
qed

lemma get_free_page_ok:
  assumes inv: "pg_inv P L F s" and lz: "lz_ok e" and r: "get_free_page e s = Some (p, s')"
  shows "p \<in> P" "pg_inv (P - {p}) L F s'" "paged e L F s s'" "p \<in> set (sm_free s)"
proof -
  obtain ps where f: "sm_free s = p # ps" using r by (auto simp: get_free_page_def Let_def split: list.splits if_splits option.splits sum.splits)
  define s1 where "s1 = upd_phys p (\<lambda>q. q\<lparr>pp_age := 1\<rparr>) (s\<lparr>sm_free := ps, num_free_pages := num_free_pages s - 1\<rparr>)"
  note I = pg_invD [OF inv]
  show "p \<in> P" "p \<in> set (sm_free s)" using I(1) f by (auto simp: pg_lists_def)
  have o: "pp_owner (sm_phys s1 q) = pp_owner (sm_phys s q)" "sm_log s1 = sm_log s" "sm_active s1 = sm_active s" for q by (simp_all add: s1_def)
  have "pg_lists (P - {p}) s1" using I(1) f by (auto simp: pg_lists_def s1_def head_pages_def)
  moreover have "pg_owners s1" using I(2) unfolding pg_owners_def has_frame_def o .
  moreover have "pg_swap L F s1" using I(3) by (simp add: pg_swap_def swapped_to_def s1_def)
  ultimately have i1: "pg_inv (P - {p}) L F s1" using I(4) by (simp add: pg_inv_def s1_def)
  have p1: "paged e L F s s1" by (rule paged_cong) (simp_all add: s1_def)
  obtain res where l: "repl_loop e 0 0 s1 = Some res" "\<And>s'. res = Inr s' \<Longrightarrow> pg_inv (P - {p}) L F s' \<and> paged e L F s1 s'"
    using repl_loop_returns [OF i1 lz, of 0 0] by blast
  have "get_free_page e s = (if repl_enable s1 \<and> num_free_pages s1 < 16
      then (case repl_loop e 0 0 s1 of Some (Inr s) \<Rightarrow> if num_free_pages s < 16 then None else Some (p, s) | _ \<Rightarrow> None) else Some (p, s1))"
    unfolding get_free_page_def f list.case s1_def [symmetric] Let_def ..
  then have "s' = s1 \<or> res = Inr s'" using r l(1) by (auto split: if_splits sum.splits)
  then show "pg_inv (P - {p}) L F s'" "paged e L F s s'" using i1 p1 l(2) paged_trans by blast+
qed

end
