(* ===== verification/Sysmem_Tasks.thy ===== *)
theory Sysmem_Tasks
  imports Sysmem_Pages Vm_Steps
begin

text \<open>
  Tasks of the pager \<^verbatim>\<open>sys/sysmem/sysmem.c\<close>: giving a page to a logical page, restoring and dropping compressed
  contents, and the trees of tasks, which implement the locale of indexes of ranges.
\<close>

section \<open>Giving and dropping pages\<close>

lemma pg_owners_cong: "sm_phys s' = sm_phys s \<Longrightarrow> sm_log s' = sm_log s \<Longrightarrow> sm_active s' = sm_active s \<Longrightarrow> pg_owners s' = pg_owners s"
  unfolding pg_owners_def has_frame_def by simp

definition half :: "sysmem \<Rightarrow> nat set" where "half s = {p. \<exists>h. sm_hdrs s p = Some h \<and> (c_a h = None \<or> c_b h = None)}"

lemma give_page_ok:
  assumes inv: "pg_inv Q L F s" and L: "L \<subseteq> {lp}" and p: "p \<notin> Q" "p \<noteq> 0" and r: "sm_log s lp = Some r" "if lp \<in> L then lp_swap r else \<not> lp_swap r \<and> lp_frame r = 0"
    and bl: "set bl = half s" "distinct bl" and bs: "length bs = PAGE_SIZE"
  defines "s' \<equiv> give_page lp p (s\<lparr>buddy_list := bl, sm_mem := (sm_mem s)(p := bs)\<rparr>)"
  shows "pg_inv (insert p Q) {} {} s'" "lview e s' lp = Some bs" "x \<noteq> lp \<Longrightarrow> lview e s' x = lview e s x"
proof -
  note I = pg_invD [OF inv]
  have sp: "(swapped_to s x q \<and> x \<notin> L) = (\<exists>h. sm_hdrs s q = Some h \<and> c_has h x)" for x q using I(3) unfolding pg_swap_def by blast
  have sel: "sm_free s' = sm_free s" "sm_active s' = sm_active s @ [p]" "sm_reserved s' = sm_reserved s" "num_free_pages s' = num_free_pages s" "head_pages s' = head_pages s"
    "sm_hdrs s' = sm_hdrs s" "sm_log s' = (sm_log s)(lp \<mapsto> r\<lparr>lp_frame := p, lp_swap := False\<rparr>)" "buddy_list s' = bl" "sm_mem s' = (sm_mem s)(p := bs)"
    "\<And>q. pp_owner (sm_phys s' q) = (if q = p then Some lp else pp_owner (sm_phys s q))"
    by (simp_all add: s'_def give_page_def r(1) head_pages_def)
  have out: "p \<notin> set (sm_free s)" "p \<notin> set (sm_active s)" "p \<notin> set (sm_reserved s)" "p \<notin> head_pages s" "sm_hdrs s p = None" using I(1) p(1) by (auto simp: pg_lists_def)
  have no: "\<not> has_frame s lp q" for q using r by (auto simp: has_frame_def split: if_splits)
  have own: "pp_owner (sm_phys s q) = Some x \<longleftrightarrow> has_frame s x q" "pp_owner (sm_phys s q) \<noteq> None \<longleftrightarrow> q \<in> set (sm_active s)" for q x
    using I(2) unfolding pg_owners_def by blast+
  have hf: "has_frame s' x q \<longleftrightarrow> has_frame s x q \<or> x = lp \<and> q = p" for x q using p(2) no [of q] by (auto simp: has_frame_def sel)
  have sw: "swapped_to s' x q \<longleftrightarrow> swapped_to s x q \<and> x \<noteq> lp" for x q by (simp add: swapped_to_def sel)
  have "pg_lists (insert p Q) s'" using I(1) out p(2) unfolding pg_lists_def sel by auto
  moreover have "pg_owners s'"
  proof -
    have "pp_owner (sm_phys s' q) = Some x \<longleftrightarrow> has_frame s' x q" for q x using own(1) [of q x] own(2) [of p] out(2) no [of q] by (cases "q = p") (auto simp: hf sel)
    moreover have "pp_owner (sm_phys s' q) \<noteq> None \<longleftrightarrow> q \<in> set (sm_active s')" for q using own(2) [of q] by (simp add: sel)
    ultimately show ?thesis unfolding pg_owners_def by blast
  qed
  moreover have "pg_swap {} {} s'"
  proof -
    have "swapped_to s lp q \<Longrightarrow> lp \<in> L" for q using r by (auto simp: swapped_to_def split: if_splits)
    then have "swapped_to s' x q \<longleftrightarrow> (\<exists>h. sm_hdrs s q = Some h \<and> c_has h x)" for x q using sp [of x q] L by (auto simp: sw)
    then show ?thesis using I(3) bl unfolding pg_swap_def half_def sel by blast
  qed
  ultimately show "pg_inv (insert p Q) {} {} s'" using I(4) bs by (simp add: pg_inv_def sel)
  show "lview e s' lp = Some bs" using p(2) by (simp add: lview_def sel)
  assume x: "x \<noteq> lp"
  have "lp_frame r' \<noteq> p" if "sm_log s x = Some r'" "\<not> lp_swap r'" "lp_frame r' \<noteq> 0" for r'
  proof -
    have "has_frame s x (lp_frame r')" using that by (auto simp: has_frame_def)
    then have "lp_frame r' \<in> set (sm_active s)" using own by blast
    then show ?thesis using out(2) by auto
  qed
  then show "lview e s' x = lview e s x" using x by (auto simp: lview_def sel split: option.split)
qed

lemma c_take_ok:
  assumes "c_ok h" "c_take lp h = Some (bs, h')"
  shows "c_has h lp" "\<And>x. c_has h' x \<longleftrightarrow> c_has h x \<and> x \<noteq> lp" "c_a h' = None \<or> c_b h' = None" "c_a h' \<noteq> None \<or> c_b h' \<noteq> None \<Longrightarrow> c_ok h'"
    "\<And>x. x \<noteq> lp \<Longrightarrow> map_option fst (c_take x h') = map_option fst (c_take x h)"
  using assms by (auto simp: c_take_def c_ok_def c_has_def split: if_splits)

lemma lview_fst: "lview e s lp = (case sm_log s lp of None \<Rightarrow> None
     | Some r \<Rightarrow> if lp_swap r then (case sm_hdrs s (lp_frame r) of None \<Rightarrow> None | Some h \<Rightarrow> map_option (lz_decompress e) (map_option fst (c_take lp h)))
         else if lp_frame r = 0 then None else Some (sm_mem s (lp_frame r)))"
  by (auto simp: lview_def option.map_comp comp_def case_prod_unfold split: option.split)

text \<open>Taking compressed contents out of a page: another page stays in it, or the page is free.\<close>

lemma take_out_ok:
  assumes inv: "pg_inv P {} {} s" and r: "sm_log s lp = Some r" "lp_swap r" and h: "sm_hdrs s (lp_frame r) = Some h" "c_take lp h = Some (bs, h')"
  shows "c_a h' \<noteq> None \<or> c_b h' \<noteq> None \<Longrightarrow> pg_inv P {lp} {lp_frame r} (s\<lparr>sm_hdrs := (sm_hdrs s)(lp_frame r \<mapsto> h')\<rparr>)"
    "c_a h' \<noteq> None \<or> c_b h' \<noteq> None \<Longrightarrow> lp_frame r \<notin> set (buddy_list s)"
    "c_a h' = None \<and> c_b h' = None \<Longrightarrow> pg_inv (P - {lp_frame r}) {lp} {lp_frame r} (s\<lparr>sm_hdrs := (sm_hdrs s)(lp_frame r := None), buddy_list := removeAll (lp_frame r) (buddy_list s)\<rparr>)"
    "x \<noteq> lp \<Longrightarrow> c_a h' \<noteq> None \<or> c_b h' \<noteq> None \<Longrightarrow> lview e (s\<lparr>sm_hdrs := (sm_hdrs s)(lp_frame r \<mapsto> h')\<rparr>) x = lview e s x"
    "x \<noteq> lp \<Longrightarrow> c_a h' = None \<and> c_b h' = None \<Longrightarrow> lview e (s\<lparr>sm_hdrs := (sm_hdrs s)(lp_frame r := None), buddy_list := bl\<rparr>) x = lview e s x"
    "lview e s lp = Some (lz_decompress e bs)" "lp_frame r \<in> P" "lp_frame r \<noteq> 0" "pp_owner (sm_phys s (lp_frame r)) = None"
proof -
  note I = pg_invD [OF inv]
  let ?b = "lp_frame r"
  have hok: "c_ok h" using I(3) h(1) unfolding pg_swap_def by blast
  note C = c_take_ok [OF hok h(2)]
  have sp: "swapped_to s x q = (\<exists>h. sm_hdrs s q = Some h \<and> c_has h x)" for x q using I(3) unfolding pg_swap_def by blast
  have b: "?b \<notin> set (sm_free s)" "?b \<notin> set (sm_active s)" "?b \<notin> set (sm_reserved s)" "?b \<notin> head_pages s" "?b \<in> P" "?b \<noteq> 0" using I(1) h(1) by (auto simp: pg_lists_def)
  show "?b \<in> P" "?b \<noteq> 0" by (rule b)+
  show on: "pp_owner (sm_phys s ?b) = None" using I(2) b(2) unfolding pg_owners_def by blast
  have lpb: "swapped_to s lp ?b" using r by (simp add: swapped_to_def)
  show "lview e s lp = Some (lz_decompress e bs)" using r h by (simp add: lview_def)
  have hx: "x \<noteq> lp \<Longrightarrow> c_has h x \<Longrightarrow> c_has h' x" for x using C(2) by simp
  {
    assume f: "c_a h' \<noteq> None \<or> c_b h' \<noteq> None"
    have full: "c_a h \<noteq> None \<and> c_b h \<noteq> None" using h(2) f by (auto simp: c_take_def split: if_splits)
    then show nb: "?b \<notin> set (buddy_list s)" using I(3) h(1) unfolding pg_swap_def by auto
    let ?s = "s\<lparr>sm_hdrs := (sm_hdrs s)(?b \<mapsto> h')\<rparr>"
    have "dom (sm_hdrs ?s) = dom (sm_hdrs s)" using h(1) by auto
    then have "pg_lists P ?s = pg_lists P s" unfolding pg_lists_def head_pages_def by simp
    then have "pg_lists P ?s" using I(1) by simp
    moreover have "pg_owners ?s" using I(2) pg_owners_cong [of ?s s] by simp
    moreover have "pg_swap {lp} {?b} ?s" unfolding pg_swap_def
    proof (intro conjI)
      show "\<forall>x q. (swapped_to ?s x q \<and> x \<notin> {lp}) = (\<exists>h. sm_hdrs ?s q = Some h \<and> c_has h x)"
      proof (intro allI)
        fix x q
        have e: "swapped_to ?s x q = swapped_to s x q" by (simp add: swapped_to_def)
        have "swapped_to s lp q \<Longrightarrow> q = ?b" using r by (simp add: swapped_to_def)
        then show "(swapped_to ?s x q \<and> x \<notin> {lp}) = (\<exists>h. sm_hdrs ?s q = Some h \<and> c_has h x)" unfolding e
          using sp [of x q] sp [of lp q] C(2) [of x] h(1) by (cases "q = ?b") auto
      qed
      show "\<forall>p h. sm_hdrs ?s p = Some h \<longrightarrow> c_ok h" using I(3) C(4) [OF f] by (simp add: pg_swap_def)
      show "\<forall>lp \<in> {lp}. \<exists>p \<in> {?b}. swapped_to ?s lp p" using lpb by (simp add: swapped_to_def)
      show "{?b} \<inter> set (sm_active ?s) = {}" using b(2) by simp
      show "distinct (buddy_list ?s)" using I(3) by (simp add: pg_swap_def)
      show "set (buddy_list ?s) = {p. \<exists>h. sm_hdrs ?s p = Some h \<and> (c_a h = None \<or> c_b h = None)} - {?b}" using I(3) nb by (auto simp: pg_swap_def)
    qed
    ultimately show "pg_inv P {lp} {?b} ?s" using I(4) by (simp add: pg_inv_def)
    show "lview e ?s x = lview e s x" if "x \<noteq> lp" using C(5) [OF that] h(1) by (auto simp: lview_fst split: option.split)
  }
  {
    assume d: "c_a h' = None \<and> c_b h' = None"
    have only: "c_has h x \<Longrightarrow> x = lp" for x using C(2) [of x] d by (auto simp: c_has_def)
    let ?s = "s\<lparr>sm_hdrs := (sm_hdrs s)(?b := None), buddy_list := removeAll ?b (buddy_list s)\<rparr>"
    have "pg_lists (P - {?b}) ?s" using I(1) b unfolding pg_lists_def by (auto simp: head_pages_def)
    moreover have "pg_owners ?s" using I(2) pg_owners_cong [of ?s s] by simp
    moreover have "pg_swap {lp} {?b} ?s" unfolding pg_swap_def
    proof (intro conjI)
      show "\<forall>x q. (swapped_to ?s x q \<and> x \<notin> {lp}) = (\<exists>h. sm_hdrs ?s q = Some h \<and> c_has h x)"
      proof (intro allI)
        fix x q
        have e: "swapped_to ?s x q = swapped_to s x q" by (simp add: swapped_to_def)
        have "swapped_to s lp q \<Longrightarrow> q = ?b" using r by (simp add: swapped_to_def)
        then show "(swapped_to ?s x q \<and> x \<notin> {lp}) = (\<exists>h. sm_hdrs ?s q = Some h \<and> c_has h x)" unfolding e
          using sp [of x q] sp [of lp q] only [of x] h(1) by (cases "q = ?b") auto
      qed
      show "\<forall>p h. sm_hdrs ?s p = Some h \<longrightarrow> c_ok h" using I(3) by (auto simp: pg_swap_def)
      show "\<forall>lp \<in> {lp}. \<exists>p \<in> {?b}. swapped_to ?s lp p" using lpb by (simp add: swapped_to_def)
      show "{?b} \<inter> set (sm_active ?s) = {}" using b(2) by simp
      show "distinct (buddy_list ?s)" using I(3) by (simp add: pg_swap_def distinct_removeAll)
      show "set (buddy_list ?s) = {p. \<exists>h. sm_hdrs ?s p = Some h \<and> (c_a h = None \<or> c_b h = None)} - {?b}" using I(3) by (auto simp: pg_swap_def)
    qed
    ultimately show "pg_inv (P - {?b}) {lp} {?b} ?s" using I(4) by (simp add: pg_inv_def)
    have "sm_log s x = Some r' \<Longrightarrow> lp_swap r' \<Longrightarrow> x \<noteq> lp \<Longrightarrow> lp_frame r' \<noteq> ?b" for r' x
      using sp [of x ?b] only [of x] h(1) by (auto simp: swapped_to_def)
    then show "lview e (s\<lparr>sm_hdrs := (sm_hdrs s)(?b := None), buddy_list := bl\<rparr>) x = lview e s x" if "x \<noteq> lp" using that by (auto simp: lview_def split: option.split)
  }
qed

section \<open>Trees of logical pages\<close>

definition lp_list_ok :: "(u32 \<times> nat) list \<Rightarrow> bool" where
  "lp_list_ok xs \<longleftrightarrow> sorted_wrt (\<lambda>x y. fst x < fst y) xs \<and> (\<forall>x \<in> set xs. fst x AND 0xfff = 0)"

definition lp_tree :: "(u32 \<times> nat) rb_node \<Rightarrow> bool" where "lp_tree t \<longleftrightarrow> rb_tree t \<and> lp_list_ok (rb_keys t)"

lemma lp_list_ok_append: "lp_list_ok (xs @ ys) \<longleftrightarrow> lp_list_ok xs \<and> lp_list_ok ys \<and> (\<forall>x \<in> set xs. \<forall>y \<in> set ys. fst x < fst y)"
  by (auto simp: lp_list_ok_def sorted_wrt_append)

lemma lp_list_ok_Cons: "lp_list_ok (x # xs) \<longleftrightarrow> fst x AND 0xfff = 0 \<and> lp_list_ok xs \<and> (\<forall>y \<in> set xs. fst x < fst y)"
  by (auto simp: lp_list_ok_def)

lemma lpage_search_Some: "lp_list_ok (rb_keys t) \<Longrightarrow> lpage_search a t = Some lp \<longleftrightarrow> (a, lp) \<in> set (rb_keys t)"
proof (induction t)
  case (RB_NODE c l x r)
  have ok: "lp_list_ok (rb_keys l)" "lp_list_ok (rb_keys r)" "fst x AND 0xfff = 0" "\<forall>y \<in> set (rb_keys l). fst y < fst x" "\<forall>y \<in> set (rb_keys r). fst x < fst y"
    using RB_NODE.prems by (auto simp: lp_list_ok_append lp_list_ok_Cons)
  have e: "fst x AND NOT 0xfff = fst x" by (rule page_floor_id) (rule ok(3))
  consider "a < fst x" | "a > fst x" | "a = fst x" by fastforce
  then show ?case
    by cases (cases x; use RB_NODE.IH ok e in \<open>auto simp: Let_def\<close>)+
qed simp

lemma put_lpage_helper_ok:
  assumes "lp_list_ok (rb_keys t)" "\<forall>x \<in> set (rb_before ps). fst x < a" "\<forall>x \<in> set (rb_after ps). a < fst x"
  shows "case put_lpage_helper a t ps of None \<Rightarrow> a \<in> fst ` set (rb_keys t)
    | Some qs \<Rightarrow> rb_root RB_NULL qs = rb_root t ps \<and> (\<forall>x \<in> set (rb_before qs). fst x < a) \<and> (\<forall>x \<in> set (rb_after qs). a < fst x)"
  using assms
proof (induction a t ps rule: put_lpage_helper.induct)
  case (2 a c l oth r ps)
  have ok: "lp_list_ok (rb_keys l)" "lp_list_ok (rb_keys r)" "\<forall>y \<in> set (rb_keys l). fst y < fst oth" "\<forall>y \<in> set (rb_keys r). fst oth < fst y"
    using 2(3) by (auto simp: lp_list_ok_append lp_list_ok_Cons)
  consider (left) "a < fst oth" | (right) "a > fst oth" | (eq) "a = fst oth" by fastforce
  then show ?case
  proof cases
    case left
    have "\<forall>x \<in> set (rb_after (LEFT_OF c oth r # ps)). a < fst x" using left ok(4) 2(5) by auto
    then show ?thesis using 2(1) [OF left ok(1)] 2(4) left by (auto split: option.splits)
  next
    case right
    have "\<forall>x \<in> set (rb_before (RIGHT_OF c l oth # ps)). fst x < a" using right ok(3) 2(4) by auto
    moreover have "put_lpage_helper a (RB_NODE c l oth r) ps = put_lpage_helper a r (RIGHT_OF c l oth # ps)" using right by auto
    moreover have "\<not> a < fst oth" using right by auto
    ultimately show ?thesis using 2(2) [OF _ right ok(2)] 2(5) right by (cases "put_lpage_helper a r (RIGHT_OF c l oth # ps)") auto
  qed auto
qed simp

lemma put_lpage_ok:
  assumes "lp_tree t" "a AND 0xfff = 0"
  shows "if a \<in> fst ` set (rb_keys t) then put_lpage a lp t = None
    else \<exists>m. put_lpage a lp t = Some m \<and> lp_tree m \<and> set (rb_keys m) = insert (a, lp) (set (rb_keys t))"
proof -
  have t: "rb_tree t" "lp_list_ok (rb_keys t)" using assms(1) by (auto simp: lp_tree_def)
  note H = put_lpage_helper_ok [OF t(2), of "[]" a]
  show ?thesis
  proof (cases "put_lpage_helper a t []")
    case None
    then show ?thesis using H by (simp add: put_lpage_def)
  next
    case (Some qs)
    then have q: "rb_root RB_NULL qs = t" "\<forall>x \<in> set (rb_before qs). fst x < a" "\<forall>x \<in> set (rb_after qs). a < fst x" using H by auto
    have k: "rb_keys t = rb_before qs @ rb_after qs" using rb_keys_root [of RB_NULL qs] q(1) by simp
    obtain m where m: "rb_insert_at (a, lp) qs = Some m" "rb_tree m" "rb_keys m = rb_before qs @ (a, lp) # rb_after qs" using rb_insert_at_ok [of qs "(a, lp)"] q(1) t(1) by blast
    have "lp_list_ok (rb_keys m)" using t(2) q(2,3) assms(2) unfolding k m(3) lp_list_ok_append lp_list_ok_Cons by auto
    moreover have "a \<notin> fst ` set (rb_keys t)" using q(2,3) unfolding k by force
    ultimately show ?thesis using Some m k by (auto simp: put_lpage_def lp_tree_def)
  qed
qed

lemma erase_lpage_ok:
  assumes "lp_tree t" "(a, lp) \<in> set (rb_keys t)" "\<forall>b. (b, lp) \<in> set (rb_keys t) \<longrightarrow> b = a"
  shows "\<exists>m. rb_erase (\<lambda>x. snd x = lp) t = Some m \<and> lp_tree m \<and> set (rb_keys m) = set (rb_keys t) - {(a, lp)}"
proof -
  obtain xs ys where k: "rb_keys t = xs @ (a, lp) # ys" using assms(2) by (meson split_list)
  have t: "rb_tree t" "lp_list_ok (xs @ (a, lp) # ys)" using assms(1) by (auto simp: lp_tree_def k)
  have n: "(a, lp) \<notin> set xs" "(a, lp) \<notin> set ys" using t(2) by (force simp: lp_list_ok_append lp_list_ok_Cons)+
  have u: "\<forall>y \<in> set xs \<union> set ys. snd y \<noteq> lp" using n assms(3) unfolding k by auto
  obtain m where m: "rb_erase (\<lambda>x. snd x = lp) t = Some m" "rb_tree m" "rb_keys m = xs @ ys" using rb_erase_keys [OF t(1) k, of "\<lambda>x. snd x = lp"] u by auto
  have "lp_list_ok (xs @ ys)" using t(2) by (auto simp: lp_list_ok_append lp_list_ok_Cons)
  then show ?thesis using m n k by (auto simp: lp_tree_def)
qed

interpretation lpages: range_index lp_tree rb_keys "\<lambda>(m :: u32 \<times> nat) t. fst m AND 0xfff = 0 \<and> fst m \<notin> fst ` set (rb_keys t)" "\<lambda>m a. fst m = a"
  "\<lambda>m t. map_option Inr (put_lpage (fst m) (snd m) t)" "\<lambda>a t. map_option (Pair a) (lpage_search a t)"
proof unfold_locales
  fix t a and m :: "u32 \<times> nat"
  assume "lp_tree t"
  then have "lpage_search a t = Some lp \<longleftrightarrow> (a, lp) \<in> set (rb_keys t)" for lp by (simp add: lp_tree_def lpage_search_Some)
  then show "map_option (Pair a) (lpage_search a t) = Some m \<longleftrightarrow> m \<in> set (rb_keys t) \<and> fst m = a" by (cases m) auto
next
  fix t and m :: "u32 \<times> nat"
  assume "lp_tree t" "fst m AND 0xfff = 0 \<and> fst m \<notin> fst ` set (rb_keys t)"
  then show "(\<exists>x a. map_option Inr (put_lpage (fst m) (snd m) t) = Some (Inl x) \<and> x \<in> set (rb_keys t) \<and> fst x = a \<and> fst m = a)
      \<or> (\<exists>t'. map_option Inr (put_lpage (fst m) (snd m) t) = Some (Inr t') \<and> lp_tree t' \<and> set (rb_keys t') = insert m (set (rb_keys t)))"
    using put_lpage_ok [of t "fst m" "snd m"] by auto
qed

section \<open>The invariant of tasks\<close>

definition in_task :: "sysmem \<Rightarrow> nat \<Rightarrow> u32 \<Rightarrow> nat \<Rightarrow> bool" where
  "in_task s pid a lp \<longleftrightarrow> (\<exists>t. sm_tasks s pid = Some t \<and> (a, lp) \<in> set (rb_keys (t_mem t)))"

definition tr_inv :: "sysmem \<Rightarrow> bool" where
  "tr_inv s \<longleftrightarrow> (\<forall>pid t. sm_tasks s pid = Some t \<longrightarrow> lp_tree (t_mem t)) \<and> (\<forall>pid a lp. in_task s pid a lp \<longrightarrow> (\<exists>r. sm_log s lp = Some r \<and> l_addr r = a))
     \<and> (\<forall>lp pid pid' a a'. in_task s pid a lp \<longrightarrow> in_task s pid' a' lp \<longrightarrow> pid = pid')
     \<and> (\<forall>lp r. sm_log s lp = Some r \<longrightarrow> lp < sm_next s \<and> (\<exists>pid. in_task s pid (l_addr r) lp))"

definition sm_inv :: "nat set \<Rightarrow> sysmem \<Rightarrow> bool" where "sm_inv P s \<longleftrightarrow> pg_inv P {} {} s \<and> tr_inv s"

lemma tr_inv_same:
  assumes "tr_inv s" "sm_tasks s' = sm_tasks s" "sm_next s' = sm_next s" "\<And>lp. map_option l_addr (sm_log s' lp) = map_option l_addr (sm_log s lp)"
  shows "tr_inv s'"
proof -
  have t: "in_task s' pid a lp \<longleftrightarrow> in_task s pid a lp" for pid a lp by (simp add: in_task_def assms(2))
  have l: "\<exists>r. sm_log s lp = Some r \<and> l_addr r = l_addr r'" if "sm_log s' lp = Some r'" for lp r' using assms(4) [of lp] that by (cases "sm_log s lp") auto
  have l': "\<exists>r'. sm_log s' lp = Some r' \<and> l_addr r' = l_addr r" if "sm_log s lp = Some r" for lp r using assms(4) [of lp] that by (cases "sm_log s' lp") auto
  have 1: "\<forall>pid t. sm_tasks s pid = Some t \<longrightarrow> lp_tree (t_mem t)" "\<And>pid a lp. in_task s pid a lp \<Longrightarrow> \<exists>r. sm_log s lp = Some r \<and> l_addr r = a"
    "\<forall>lp pid pid' a a'. in_task s pid a lp \<longrightarrow> in_task s pid' a' lp \<longrightarrow> pid = pid'"
    "\<And>lp r. sm_log s lp = Some r \<Longrightarrow> lp < sm_next s \<and> (\<exists>pid. in_task s pid (l_addr r) lp)" using assms(1) unfolding tr_inv_def by blast+
  have "\<exists>r. sm_log s' lp = Some r \<and> l_addr r = a" if "in_task s pid a lp" for pid a lp using 1(2) [OF that] l' by blast
  moreover have "lp < sm_next s \<and> (\<exists>pid. in_task s pid (l_addr r) lp)" if "sm_log s' lp = Some r" for lp r using l [OF that] 1(4) by metis
  ultimately show ?thesis using 1(1,3) unfolding tr_inv_def t assms(2,3) by blast
qed

lemma tr_inv_paged:
  assumes "tr_inv s" "paged e L F s s'"
  shows "tr_inv s'"
proof -
  have "map_option l_addr (sm_log s' lp) = map_option l_addr (sm_log s lp)" for lp
  proof -
    have "map_option fst (map_option (\<lambda>r. (l_addr r, lp_flags r)) (sm_log s' lp)) = map_option fst (map_option (\<lambda>r. (l_addr r, lp_flags r)) (sm_log s lp))"
      using assms(2) unfolding paged_def by metis
    then show ?thesis by (simp add: option.map_comp comp_def)
  qed
  then show ?thesis using tr_inv_same [OF assms(1)] assms(2) by (simp add: paged_def)
qed

end
