(* ===== verification/Sysmem_Calls.thy ===== *)
theory Sysmem_Calls
  imports Sysmem_Tasks
begin

text \<open>
  The calls of the pager \<^verbatim>\<open>sys/sysmem/sysmem.c\<close> keep the invariant and the contents of the logical pages they do not remove.
\<close>

section \<open>The server's own structures\<close>

lemma sm_inv_paged: "sm_inv P s \<Longrightarrow> pg_inv Q {} {} s' \<Longrightarrow> paged e L F s s' \<Longrightarrow> sm_inv Q s'"
  using tr_inv_paged unfolding sm_inv_def by blast

lemma head_pages_upd: "head_pages (s\<lparr>sm_heads := (sm_heads s)(k := h)\<rparr>) = (\<Union>j \<in> - {k}. set (ah_pages (sm_heads s j))) \<union> set (ah_pages h)"
  by (auto simp: head_pages_def split: if_splits)

lemma head_pages_split: "head_pages s = (\<Union>j \<in> - {k}. set (ah_pages (sm_heads s j))) \<union> set (ah_pages (sm_heads s k))"
  by (auto simp: head_pages_def)

lemma sm_inv_heads:
  assumes "sm_inv P s" "ah_pages h = ah_pages (sm_heads s k)"
  shows "sm_inv P (s\<lparr>sm_heads := (sm_heads s)(k := h)\<rparr>)" "paged e L F s (s\<lparr>sm_heads := (sm_heads s)(k := h)\<rparr>)"
proof -
  have "head_pages (s\<lparr>sm_heads := (sm_heads s)(k := h)\<rparr>) = head_pages s" unfolding head_pages_upd head_pages_split [of s k] assms(2) ..
  then have "pg_inv P {} {} (s\<lparr>sm_heads := (sm_heads s)(k := h)\<rparr>) = pg_inv P {} {} s" by (intro pg_inv_cong) simp_all
  moreover show p: "paged e L F s (s\<lparr>sm_heads := (sm_heads s)(k := h)\<rparr>)" for L F by (rule paged_cong) simp_all
  ultimately show "sm_inv P (s\<lparr>sm_heads := (sm_heads s)(k := h)\<rparr>)" using assms(1) sm_inv_paged [OF assms(1) _ p] by (simp add: sm_inv_def)
qed

lemma add_head_page:
  assumes "pg_inv Q {} {} s" "p \<notin> Q" "p \<noteq> 0" "ah_pages h = p # ah_pages (sm_heads s k)"
  shows "pg_inv (insert p Q) {} {} (s\<lparr>sm_heads := (sm_heads s)(k := h)\<rparr>)"
proof -
  note I = pg_invD [OF assms(1)]
  let ?s = "s\<lparr>sm_heads := (sm_heads s)(k := h)\<rparr>"
  have "head_pages ?s = insert p (head_pages s)" unfolding head_pages_upd head_pages_split [of s k] assms(4) by auto
  then have "pg_lists (insert p Q) ?s" using I(1) assms(2,3) unfolding pg_lists_def by auto
  moreover have "pg_owners ?s" using I(2) pg_owners_cong [of ?s s] by simp
  moreover have "pg_swap {} {} ?s" using I(3) by (simp add: pg_swap_def swapped_to_def)
  ultimately show ?thesis using I(4) by (simp add: pg_inv_def)
qed

lemma pg_inv_nonzero: "pg_inv P L F s \<Longrightarrow> p \<in> P \<Longrightarrow> p \<noteq> 0"
  unfolding pg_inv_def pg_lists_def by metis

lemma alloc_ok:
  assumes inv: "sm_inv P s" and lz: "lz_ok e" and r: "alloc e k s = Some s'"
  shows "sm_inv P s'" "paged e {} {} s s'"
proof -
  have pg: "pg_inv P {} {} s" using inv by (simp add: sm_inv_def)
  have "sm_inv P s' \<and> paged e {} {} s s'"
  proof (cases "alloc_get_ram e k s = Some s'")
    case True
    then obtain p s1 where g: "get_free_page e s = Some (p, s1)"
      "s' = s1\<lparr>sm_heads := (sm_heads s1)(k := (sm_heads s1 k)\<lparr>ah_pages := p # ah_pages (sm_heads s1 k), ah_next := 4 + alloc_sz k\<rparr>)\<rparr>"
      by (auto simp: alloc_get_ram_def)
    note G = get_free_page_ok [OF pg lz g(1)]
    have "pg_inv (insert p (P - {p})) {} {} s'" unfolding g(2) by (rule add_head_page [OF G(2)]) (use pg_inv_nonzero [OF pg G(1)] in simp_all)
    then have i: "pg_inv P {} {} s'" using G(1) by (simp add: insert_absorb)
    have "paged e {} {} s1 s'" unfolding g(2) by (rule paged_cong) simp_all
    then have p: "paged e {} {} s s'" by (rule paged_trans [OF G(3)])
    then show ?thesis using sm_inv_paged [OF inv i p] by blast
  next
    case False
    then obtain h where "s' = s\<lparr>sm_heads := (sm_heads s)(k := h)\<rparr>" "ah_pages h = ah_pages (sm_heads s k)"
      using r by (auto simp: alloc_def Let_def split: if_splits)
    then show ?thesis using sm_inv_heads [OF inv] by blast
  qed
  then show "sm_inv P s'" "paged e {} {} s s'" by blast+
qed

section \<open>Tasks\<close>

lemma upd_systask_sel [simp]:
  "sm_free (upd_systask pid f s) = sm_free s" "sm_active (upd_systask pid f s) = sm_active s" "sm_reserved (upd_systask pid f s) = sm_reserved s"
  "num_free_pages (upd_systask pid f s) = num_free_pages s" "sm_heads (upd_systask pid f s) = sm_heads s" "sm_phys (upd_systask pid f s) = sm_phys s"
  "sm_log (upd_systask pid f s) = sm_log s" "sm_hdrs (upd_systask pid f s) = sm_hdrs s" "buddy_list (upd_systask pid f s) = buddy_list s"
  "sm_mem (upd_systask pid f s) = sm_mem s" "sm_next (upd_systask pid f s) = sm_next s"
  "sm_tasks (upd_systask pid f s) = (sm_tasks s)(pid := map_option f (sm_tasks s pid))" "head_pages (upd_systask pid f s) = head_pages s"
  "has_frame (upd_systask pid f s) = has_frame s"
  by (simp_all add: upd_systask_def head_pages_def has_frame_def fun_eq_iff)

lemma pg_inv_tasks [simp]: "pg_inv P L F (s\<lparr>sm_tasks := ts\<rparr>) = pg_inv P L F s" "pg_inv P L F (upd_systask pid f s) = pg_inv P L F s"
  by (rule pg_inv_cong; simp add: head_pages_def)+

lemma lview_tasks [simp]: "lview e (s\<lparr>sm_tasks := ts\<rparr>) = lview e s" "lview e (upd_systask pid f s) = lview e s" "lview e (recycle k s) = lview e s"
  by (rule lview_cong; simp add: recycle_def)+

lemma in_task_upd [simp]: "(\<And>t. t_mem (f t) = t_mem t) \<Longrightarrow> in_task (upd_systask pid f s) q a lp = in_task s q a lp"
  by (auto simp: in_task_def)

lemma sm_inv_upd:
  assumes "\<And>t. t_mem (f t) = t_mem t"
  shows "sm_inv P (upd_systask pid f s) = sm_inv P s"
proof -
  have "(\<forall>q t. sm_tasks (upd_systask pid f s) q = Some t \<longrightarrow> lp_tree (t_mem t)) = (\<forall>q t. sm_tasks s q = Some t \<longrightarrow> lp_tree (t_mem t))"
    using assms by (auto split: if_splits)
  then show ?thesis unfolding sm_inv_def tr_inv_def in_task_upd [of f, OF assms] by simp
qed

lemma in_task_log: "sm_inv P s \<Longrightarrow> in_task s pid a lp \<Longrightarrow> \<exists>r. sm_log s lp = Some r \<and> l_addr r = a"
  by (simp add: sm_inv_def tr_inv_def)

lemma task_tree: "sm_inv P s \<Longrightarrow> sm_tasks s pid = Some t \<Longrightarrow> lp_tree (t_mem t)"
  by (simp add: sm_inv_def tr_inv_def)

lemma in_task_same: "sm_tasks s' = sm_tasks s \<Longrightarrow> in_task s' = in_task s"
  by (simp add: in_task_def fun_eq_iff)

lemma log_attr_same:
  assumes "paged e L F s s'"
  shows "sm_log s' lp = None \<longleftrightarrow> sm_log s lp = None"
proof -
  have "map_option (\<lambda>r. (l_addr r, lp_flags r)) (sm_log s' lp) = map_option (\<lambda>r. (l_addr r, lp_flags r)) (sm_log s lp)" using assms by (simp add: paged_def)
  then show ?thesis by (cases "sm_log s' lp"; cases "sm_log s lp") simp_all
qed

lemma get_task_ok:
  assumes inv: "sm_inv P s" and lz: "lz_ok e" and r: "get_task e pid s = Some (t, s')"
  shows "sm_inv P s'" "find_task pid s' = Some t" "lview e s' = lview e s" "in_task s' = in_task s" "50000 \<le> pid" "sm_tasks s' pid = Some t" "\<And>lp. sm_log s' lp = None \<longleftrightarrow> sm_log s lp = None"
    "sm_mem s' = sm_mem s" "q \<noteq> pid \<Longrightarrow> sm_tasks s' q = sm_tasks s q"
proof -
  show pid: "50000 \<le> pid"
  proof (rule ccontr)
    assume "\<not> 50000 \<le> pid"
    then show False using r by (simp add: get_task_def)
  qed
  have "sm_inv P s' \<and> lview e s' = lview e s \<and> in_task s' = in_task s \<and> sm_tasks s' pid = Some t \<and> (\<forall>lp. sm_log s' lp = None \<longleftrightarrow> sm_log s lp = None) \<and> sm_mem s' = sm_mem s
      \<and> (\<forall>q. q \<noteq> pid \<longrightarrow> sm_tasks s' q = sm_tasks s q)"
  proof (cases "sm_tasks s pid")
    case (Some u)
    then show ?thesis using r inv pid by (auto simp: get_task_def find_task_def)
  next
    case None
    then obtain s1 where a: "alloc e SYSTASK s = Some s1" "s' = s1\<lparr>sm_tasks := (sm_tasks s1)(pid \<mapsto> t)\<rparr>" "t_mem t = RB_NULL"
      using r pid by (auto simp: get_task_def find_task_def Let_def split: option.splits)
    note A = alloc_ok [OF inv lz a(1)]
    have tk: "sm_tasks s1 = sm_tasks s" "sm_mem s1 = sm_mem s" using A(2) by (simp_all add: paged_def)
    have it: "in_task s' q b lp \<longleftrightarrow> in_task s1 q b lp" for q b lp using None a(3) by (auto simp: in_task_def a(2) tk)
    have lt: "lp_tree (t_mem t)" by (simp add: a(3) lp_tree_def lp_list_ok_def rb_tree_def)
    have e: "sm_log s' = sm_log s1" "sm_next s' = sm_next s1" by (simp_all add: a(2))
    have "\<forall>q u. sm_tasks s' q = Some u \<longrightarrow> lp_tree (t_mem u)" using task_tree [OF A(1)] lt by (simp add: a(2))
    then have "tr_inv s'" using A(1) unfolding sm_inv_def tr_inv_def it e by blast
    moreover have "pg_inv P {} {} s'" using A(1) by (simp add: a(2) sm_inv_def)
    moreover have "lview e s' = lview e s1" by (simp add: a(2))
    moreover have "lview e s1 = lview e s" using A(2) by (simp add: paged_def fun_eq_iff)
    moreover have "in_task s' = in_task s" using it in_task_same [OF tk(1)] by (simp add: fun_eq_iff)
    ultimately show ?thesis using log_attr_same [OF A(2)] by (simp add: sm_inv_def a(2) tk)
  qed
  then show "sm_inv P s'" "find_task pid s' = Some t" "lview e s' = lview e s" "in_task s' = in_task s" "sm_tasks s' pid = Some t" "\<And>lp. sm_log s' lp = None \<longleftrightarrow> sm_log s lp = None"
    "sm_mem s' = sm_mem s" "q \<noteq> pid \<Longrightarrow> sm_tasks s' q = sm_tasks s q" using pid by (simp_all add: find_task_def)
qed

text \<open>A logical page enters the tree of a task.\<close>

lemma tr_inv_put:
  assumes t: "tr_inv s" and a: "a AND 0xfff = 0" and no: "\<And>q b. \<not> in_task s q b lp" and pid: "sm_tasks s pid = Some t" and m: "put_lpage a lp (t_mem t) = Some m"
    and s': "sm_tasks s' = (sm_tasks s)(pid \<mapsto> t')" "t_mem t' = m" "sm_log s' = (sm_log s)(lp \<mapsto> r)" "l_addr r = a" "sm_next s \<le> sm_next s'" "lp < sm_next s'"
  shows "tr_inv s'" "in_task s' q b x \<longleftrightarrow> in_task s q b x \<or> q = pid \<and> b = a \<and> x = lp"
proof -
  have lt: "lp_tree (t_mem t)" using t pid unfolding tr_inv_def by blast
  have m': "lp_tree m" "set (rb_keys m) = insert (a, lp) (set (rb_keys (t_mem t)))" using put_lpage_ok [OF lt a, of lp] m by (auto split: if_splits)
  have it: "in_task s' q b x \<longleftrightarrow> in_task s q b x \<or> q = pid \<and> b = a \<and> x = lp" for q b x using pid m'(2) s'(2) by (auto simp: in_task_def s'(1))
  show "in_task s' q b x \<longleftrightarrow> in_task s q b x \<or> q = pid \<and> b = a \<and> x = lp" by (rule it)
  have 1: "\<forall>pid t. sm_tasks s pid = Some t \<longrightarrow> lp_tree (t_mem t)" "\<And>pid a lp. in_task s pid a lp \<Longrightarrow> \<exists>r. sm_log s lp = Some r \<and> l_addr r = a"
    "\<And>lp pid pid' a a'. in_task s pid a lp \<Longrightarrow> in_task s pid' a' lp \<Longrightarrow> pid = pid'"
    "\<And>lp r. sm_log s lp = Some r \<Longrightarrow> lp < sm_next s \<and> (\<exists>pid. in_task s pid (l_addr r) lp)" using t unfolding tr_inv_def by blast+
  show "tr_inv s'" unfolding tr_inv_def it
  proof (intro conjI)
    show "\<forall>q u. sm_tasks s' q = Some u \<longrightarrow> lp_tree (t_mem u)" using 1(1) m'(1) s'(1,2) by auto
    show "\<forall>q b x. in_task s q b x \<or> q = pid \<and> b = a \<and> x = lp \<longrightarrow> (\<exists>r. sm_log s' x = Some r \<and> l_addr r = b)" using 1(2) no s'(3,4) by fastforce
    show "\<forall>x q q' b b'. in_task s q b x \<or> q = pid \<and> b = a \<and> x = lp \<longrightarrow> in_task s q' b' x \<or> q' = pid \<and> b' = a \<and> x = lp \<longrightarrow> q = q'" using 1(3) no by blast
    show "\<forall>x r. sm_log s' x = Some r \<longrightarrow> x < sm_next s' \<and> (\<exists>q. in_task s q (l_addr r) x \<or> q = pid \<and> l_addr r = a \<and> x = lp)"
    proof (intro allI impI)
      fix x r' assume r': "sm_log s' x = Some r'"
      show "x < sm_next s' \<and> (\<exists>q. in_task s q (l_addr r') x \<or> q = pid \<and> l_addr r' = a \<and> x = lp)"
      proof (cases "x = lp")
        case True
        then show ?thesis using r' s'(3,4,6) by auto
      next
        case False
        then have "sm_log s x = Some r'" using r' s'(3) by simp
        from 1(4) [OF this] show ?thesis using s'(5) by auto
      qed
    qed
  qed
qed

lemma new_lpage_ok:
  assumes inv: "sm_inv P s" and lz: "lz_ok e" and r: "new_lpage e pid r s = Some (lp, s')" "lp_frame r = 0" "\<not> lp_swap r" "l_addr r AND 0xfff = 0"
  shows "sm_inv P s'" "sm_log s' lp = Some r" "lview e s' = lview e s" "in_task s' q b x \<longleftrightarrow> in_task s q b x \<or> q = pid \<and> b = l_addr r \<and> x = lp" "sm_log s lp = None"
    "sm_mem s' = sm_mem s" "\<And>q. sm_tasks s' q = None \<longleftrightarrow> sm_tasks s q = None"
proof -
  obtain s1 t m where a: "alloc e L_PAGE s = Some s1" "sm_tasks s1 pid = Some t" "put_lpage (l_addr r) (sm_next s1) (t_mem t) = Some m" "lp = sm_next s1"
    "s' = upd_systask pid (\<lambda>t. t\<lparr>t_mem := m\<rparr>) (s1\<lparr>sm_log := (sm_log s1)(lp \<mapsto> r), sm_next := Suc (sm_next s1)\<rparr>)"
    using r(1) by (auto simp: new_lpage_def split: option.splits)
  note A = alloc_ok [OF inv lz a(1)]
  have n: "sm_log s1 lp = None" using A(1) unfolding sm_inv_def tr_inv_def a(4) by (metis less_irrefl not_None_eq)
  then show "sm_log s lp = None" using log_attr_same [OF A(2), of lp] by simp
  have no: "\<not> in_task s1 q b lp" for q b using in_task_log [OF A(1), of q b lp] n by auto
  have it: "in_task s1 = in_task s" by (rule in_task_same) (use A(2) in \<open>simp add: paged_def\<close>)
  have "tr_inv s'" and t: "in_task s' q b x \<longleftrightarrow> in_task s1 q b x \<or> q = pid \<and> b = l_addr r \<and> x = lp" for q b x
    using tr_inv_put [OF _ r(4) no a(2) a(3) [folded a(4)], of s' "t\<lparr>t_mem := m\<rparr>" r] A(1) by (auto simp: a sm_inv_def)
  moreover have "pg_inv P {} {} s'"
  proof -
    note I = pg_invD [OF A(1) [unfolded sm_inv_def, THEN conjunct1]]
    let ?s = "s1\<lparr>sm_log := (sm_log s1)(lp \<mapsto> r), sm_next := Suc (sm_next s1)\<rparr>"
    have hf: "has_frame ?s x q \<longleftrightarrow> has_frame s1 x q" "swapped_to ?s x q \<longleftrightarrow> swapped_to s1 x q" for x q using n r(2,3) by (auto simp: has_frame_def swapped_to_def)
    have "pg_lists P ?s = pg_lists P s1" unfolding pg_lists_def head_pages_def by simp
    moreover have "pg_owners ?s = pg_owners s1" unfolding pg_owners_def hf by simp
    moreover have "pg_swap {} {} ?s = pg_swap {} {} s1" unfolding pg_swap_def hf by simp
    ultimately have "pg_inv P {} {} ?s" using I by (simp add: pg_inv_def)
    then show ?thesis by (simp add: a(5))
  qed
  ultimately show "sm_inv P s'" by (simp add: sm_inv_def)
  show "sm_log s' lp = Some r" by (simp add: a(5))
  show "in_task s' q b x \<longleftrightarrow> in_task s q b x \<or> q = pid \<and> b = l_addr r \<and> x = lp" using t it by simp
  have "lview e s' = lview e s1" using n r(2,3) by (auto simp: a(5) lview_def fun_eq_iff split: option.split)
  moreover have "lview e s1 = lview e s" using A(2) by (simp add: paged_def fun_eq_iff)
  ultimately show "lview e s' = lview e s" by simp
  show "sm_mem s' = sm_mem s" using A(2) by (simp add: a(5) paged_def)
  show "sm_tasks s' q = None \<longleftrightarrow> sm_tasks s q = None" for q using A(2) a(2) by (simp add: a(5) paged_def)
qed

section \<open>Removal\<close>

lemma forget_ok:
  assumes inv: "pg_inv Q L F s" and L: "L \<subseteq> {lp}" and r: "sm_log s lp = Some r" "if lp \<in> L then lp_swap r else \<not> lp_swap r \<and> lp_frame r = 0"
    and bl: "set bl = half s" "distinct bl"
  shows "pg_inv Q {} {} (s\<lparr>sm_log := (sm_log s)(lp := None), buddy_list := bl\<rparr>)"
proof -
  note I = pg_invD [OF inv]
  let ?s = "s\<lparr>sm_log := (sm_log s)(lp := None), buddy_list := bl\<rparr>"
  have sp: "(swapped_to s x q \<and> x \<notin> L) = (\<exists>h. sm_hdrs s q = Some h \<and> c_has h x)" for x q using I(3) unfolding pg_swap_def by blast
  have no: "\<not> has_frame s lp q" "swapped_to s lp q \<Longrightarrow> lp \<in> L" for q using r by (auto simp: has_frame_def swapped_to_def split: if_splits)
  have hf: "has_frame ?s x q \<longleftrightarrow> has_frame s x q" for x q using no(1) [of q] by (auto simp: has_frame_def)
  have sw: "swapped_to ?s x q \<longleftrightarrow> swapped_to s x q \<and> x \<notin> L" for x q using no(2) [of q] L by (auto simp: swapped_to_def)
  have "pg_lists Q ?s = pg_lists Q s" unfolding pg_lists_def head_pages_def by simp
  moreover have "pg_owners ?s = pg_owners s" unfolding pg_owners_def hf by simp
  moreover have "pg_swap {} {} ?s" using I(3) bl unfolding pg_swap_def sw half_def by simp
  ultimately show ?thesis using I by (simp add: pg_inv_def)
qed

lemma add_free_ok:
  assumes "pg_inv Q {} {} s" "p \<notin> Q" "p \<noteq> 0"
  shows "pg_inv (insert p Q) {} {} (add_free p s)"
proof -
  note I = pg_invD [OF assms(1)]
  have h: "head_pages (add_free p s) = head_pages s" "swapped_to (add_free p s) = swapped_to s" by (simp_all add: head_pages_def swapped_to_def fun_eq_iff)
  have "pg_lists (insert p Q) (add_free p s)" using I(1) assms(2,3) unfolding pg_lists_def h by auto
  moreover have "pg_owners (add_free p s)" using I(2) pg_owners_cong [of "add_free p s" s] by simp
  moreover have "pg_swap {} {} (add_free p s)" using I(3) unfolding pg_swap_def h by simp
  ultimately show ?thesis using I(4) by (simp add: pg_inv_def)
qed

lemma drop_active:
  assumes inv: "pg_inv P {} {} s" and hf: "has_frame s lp p"
  shows "pg_inv (P - {p}) {} {} ((upd_phys p (\<lambda>q. q\<lparr>pp_owner := None\<rparr>) (s\<lparr>sm_active := removeAll p (sm_active s)\<rparr>))\<lparr>sm_log := (sm_log s)(lp := None)\<rparr>)" (is "pg_inv _ _ _ ?s")
    "pp_owner (sm_phys s p) = Some lp" "p \<in> set (sm_active s)"
proof -
  note I = pg_invD [OF inv]
  show ow: "pp_owner (sm_phys s p) = Some lp" using I(2) hf unfolding pg_owners_def by blast
  note O = owned_page [OF inv ow]
  show "p \<in> set (sm_active s)" by (rule O(2))
  have f: "has_frame ?s x q \<longleftrightarrow> has_frame s x q \<and> x \<noteq> lp" for x q by (simp add: has_frame_def)
  have w: "swapped_to ?s x q \<longleftrightarrow> swapped_to s x q" for x q using O(10) [of q] by (auto simp: swapped_to_def)
  have "pg_lists (P - {p}) ?s" using I(1) O unfolding pg_lists_def by (auto simp: distinct_removeAll head_pages_def)
  moreover have "pg_owners ?s" by (rule pg_owners_drop [OF I(2) ow f]) simp_all
  moreover have "pg_swap {} {} ?s" using I(3) unfolding pg_swap_def w by simp
  ultimately show "pg_inv (P - {p}) {} {} ?s" using I(4) by (simp add: pg_inv_def)
qed

text \<open>Contents that go leave the others as they are.\<close>

lemma drop_contents_ok:
  assumes inv: "pg_inv P {} {} s" and r: "sm_log s lp = Some r"
  obtains s1 where "drop_contents lp r s = Some s1" "pg_inv P {} {} (s1\<lparr>sm_log := (sm_log s)(lp := None)\<rparr>)" "sm_log s1 = sm_log s" "sm_tasks s1 = sm_tasks s" "sm_next s1 = sm_next s"
    "sm_mem s1 = sm_mem s" "\<forall>x. x \<noteq> lp \<longrightarrow> lview e s1 x = lview e s x"
proof -
  note I = pg_invD [OF inv]
  have sp: "swapped_to s x q = (\<exists>h. sm_hdrs s q = Some h \<and> c_has h x)" for x q using I(3) unfolding pg_swap_def by blast
  consider (swap) "lp_swap r" | (none) "\<not> lp_swap r" "lp_frame r = 0" | (page) "\<not> lp_swap r" "lp_frame r \<noteq> 0" by blast
  then show thesis
  proof cases
    case swap
    let ?b = "lp_frame r"
    obtain h where h: "sm_hdrs s ?b = Some h" "c_has h lp" using sp [of lp ?b] swap r by (auto simp: swapped_to_def)
    have "c_take lp h \<noteq> None" using h(2) by (auto simp: c_has_def c_take_def)
    then obtain bs h' where c: "c_take lp h = Some (bs, h')" by (cases "c_take lp h") auto
    note T = take_out_ok [OF inv r swap h(1) c]
    have hf: "half s = set (buddy_list s)" using I(3) by (simp add: pg_swap_def half_def)
    show thesis
    proof (cases "c_a h' = None \<and> c_b h' = None")
      case True
      let ?s = "s\<lparr>sm_hdrs := (sm_hdrs s)(?b := None), buddy_list := removeAll ?b (buddy_list s)\<rparr>"
      have "pg_inv (P - {?b}) {} {} (?s\<lparr>sm_log := (sm_log ?s)(lp := None), buddy_list := buddy_list ?s\<rparr>)"
        by (rule forget_ok [OF T(3) [OF True], of lp r]) (use r swap hf I(3) in \<open>auto simp: half_def pg_swap_def distinct_removeAll\<close>)
      then have "pg_inv (insert ?b (P - {?b})) {} {} (add_free ?b (?s\<lparr>sm_log := (sm_log ?s)(lp := None), buddy_list := buddy_list ?s\<rparr>))"
        by (rule add_free_ok) (use T(8) in simp_all)
      moreover have "(add_free ?b ?s)\<lparr>sm_log := (sm_log s)(lp := None)\<rparr> = add_free ?b (?s\<lparr>sm_log := (sm_log ?s)(lp := None), buddy_list := buddy_list ?s\<rparr>)" by (simp add: add_free_def)
      ultimately have i: "pg_inv P {} {} ((add_free ?b ?s)\<lparr>sm_log := (sm_log s)(lp := None)\<rparr>)" using T(7) by (simp only: insert_Diff_single insert_absorb)
      have "drop_contents lp r s = Some (add_free ?b ?s)" using swap h(1) c True T(9) by (simp add: drop_contents_def)
      then show thesis
      proof (rule that)
        show "\<forall>x. x \<noteq> lp \<longrightarrow> lview e (add_free ?b ?s) x = lview e s x"
          using T(5) [OF _ True] lview_cong [of "add_free ?b ?s" ?s e] by simp
      qed (use i in simp_all)
    next
      case False
      then have f: "c_a h' \<noteq> None \<or> c_b h' \<noteq> None" by auto
      let ?s = "s\<lparr>sm_hdrs := (sm_hdrs s)(?b \<mapsto> h')\<rparr>"
      have "c_ok h" using I(3) h(1) by (simp add: pg_swap_def)
      then have ho: "c_a h' = None \<or> c_b h' = None" by (rule c_take_ok(3) [OF _ c])
      have "pg_inv P {} {} (?s\<lparr>sm_log := (sm_log ?s)(lp := None), buddy_list := ?b # buddy_list s\<rparr>)"
        by (rule forget_ok [OF T(1) [OF f], of lp r]) (use r swap hf I(3) ho T(2) [OF f] in \<open>auto simp: half_def pg_swap_def\<close>)
      moreover have "?s\<lparr>buddy_list := ?b # buddy_list s, sm_log := (sm_log s)(lp := None)\<rparr> = ?s\<lparr>sm_log := (sm_log ?s)(lp := None), buddy_list := ?b # buddy_list s\<rparr>" by simp
      ultimately have i: "pg_inv P {} {} (?s\<lparr>buddy_list := ?b # buddy_list s, sm_log := (sm_log s)(lp := None)\<rparr>)" by (simp only:)
      have "drop_contents lp r s = Some (?s\<lparr>buddy_list := ?b # buddy_list s\<rparr>)" using swap h(1) c f by (auto simp: drop_contents_def)
      then show thesis
      proof (rule that)
        show "\<forall>x. x \<noteq> lp \<longrightarrow> lview e (?s\<lparr>buddy_list := ?b # buddy_list s\<rparr>) x = lview e s x"
          using T(4) [OF _ f] lview_cong [of "?s\<lparr>buddy_list := ?b # buddy_list s\<rparr>" ?s e] by simp
      qed (use i in simp_all)
    qed
  next
    case none
    have "0 \<notin> set (sm_active s)" using I(1) by (auto simp: pg_lists_def)
    then have d: "drop_contents lp r s = Some s" using none by (simp add: drop_contents_def)
    have "pg_inv P {} {} (s\<lparr>sm_log := (sm_log s)(lp := None), buddy_list := buddy_list s\<rparr>)"
      by (rule forget_ok [OF inv, of lp r]) (use r none I(3) in \<open>auto simp: half_def pg_swap_def\<close>)
    then have "pg_inv P {} {} (s\<lparr>sm_log := (sm_log s)(lp := None)\<rparr>)" by simp
    then show thesis by (rule that [OF d]) simp_all
  next
    case page
    let ?p = "lp_frame r"
    have hf: "has_frame s lp ?p" using page r by (simp add: has_frame_def)
    note D = drop_active [OF inv hf]
    have p: "?p \<in> P" "?p \<noteq> 0" using owned_page(8,7) [OF inv D(2)] by simp_all
    let ?s = "upd_phys ?p (\<lambda>q. q\<lparr>pp_owner := None\<rparr>) (s\<lparr>sm_active := removeAll ?p (sm_active s)\<rparr>)"
    have "pg_inv (insert ?p (P - {?p})) {} {} (add_free ?p (?s\<lparr>sm_log := (sm_log s)(lp := None)\<rparr>))" by (rule add_free_ok [OF D(1)]) (use p in simp_all)
    moreover have "(add_free ?p ?s)\<lparr>sm_log := (sm_log s)(lp := None)\<rparr> = add_free ?p (?s\<lparr>sm_log := (sm_log s)(lp := None)\<rparr>)" by (simp add: add_free_def)
    ultimately have i: "pg_inv P {} {} ((add_free ?p ?s)\<lparr>sm_log := (sm_log s)(lp := None)\<rparr>)" using p(1) by (simp only: insert_Diff_single insert_absorb)
    have "drop_contents lp r s = Some (add_free ?p ?s)" using page D(2,3) by (simp add: drop_contents_def)
    then show thesis
    proof (rule that)
      show "\<forall>x. x \<noteq> lp \<longrightarrow> lview e (add_free ?p ?s) x = lview e s x" using lview_cong [of "add_free ?p ?s" s e] by simp
    qed (use i in simp_all)
  qed
qed

lemma unlink_ok:
  assumes t: "tr_inv s" and it: "in_task s pid a lp"
  obtains s1 where "unlink_lpage pid lp s = Some s1" "\<forall>q b x. in_task s1 q b x \<longleftrightarrow> in_task s q b x \<and> x \<noteq> lp" "tr_inv (s1\<lparr>sm_log := (sm_log s)(lp := None)\<rparr>)"
    "\<exists>u m. sm_tasks s pid = Some u \<and> s1 = upd_systask pid (\<lambda>t. t\<lparr>t_mem := m\<rparr>) s"
proof -
  obtain u where u: "sm_tasks s pid = Some u" "(a, lp) \<in> set (rb_keys (t_mem u))" using it by (auto simp: in_task_def)
  have 1: "\<forall>pid t. sm_tasks s pid = Some t \<longrightarrow> lp_tree (t_mem t)" "\<And>pid a lp. in_task s pid a lp \<Longrightarrow> \<exists>r. sm_log s lp = Some r \<and> l_addr r = a"
    "\<And>lp pid pid' a a'. in_task s pid a lp \<Longrightarrow> in_task s pid' a' lp \<Longrightarrow> pid = pid'"
    "\<And>lp r. sm_log s lp = Some r \<Longrightarrow> lp < sm_next s \<and> (\<exists>pid. in_task s pid (l_addr r) lp)" using t unfolding tr_inv_def by blast+
  have au: "q = pid \<and> b = a" if "in_task s q b lp" for q b using 1(2) [OF that] 1(2) [OF it] 1(3) [OF that it] by auto
  have "\<forall>b. (b, lp) \<in> set (rb_keys (t_mem u)) \<longrightarrow> b = a" using au u(1) unfolding in_task_def by blast
  then obtain m where m: "rb_erase (\<lambda>x. snd x = lp) (t_mem u) = Some m" "lp_tree m" "set (rb_keys m) = set (rb_keys (t_mem u)) - {(a, lp)}"
    using erase_lpage_ok [of "t_mem u" a lp] 1(1) u by blast
  let ?s = "upd_systask pid (\<lambda>t. t\<lparr>t_mem := m\<rparr>) s"
  have e: "in_task ?s q b x \<longleftrightarrow> in_task s q b x \<and> x \<noteq> lp" for q b x
  proof (cases "q = pid")
    case True
    then show ?thesis using m(3) u(1) au [of q b] by (auto simp: in_task_def)
  next
    case False
    then show ?thesis using au [of q b] by (auto simp: in_task_def)
  qed
  have e': "in_task (?s\<lparr>sm_log := (sm_log s)(lp := None)\<rparr>) q b x \<longleftrightarrow> in_task s q b x \<and> x \<noteq> lp" for q b x using e [of q b x] by (simp add: in_task_def)
  have "tr_inv (?s\<lparr>sm_log := (sm_log s)(lp := None)\<rparr>)" unfolding tr_inv_def e'
  proof (intro conjI)
    show "\<forall>q t. sm_tasks (?s\<lparr>sm_log := (sm_log s)(lp := None)\<rparr>) q = Some t \<longrightarrow> lp_tree (t_mem t)" using 1(1) m(2) u(1) by simp
    show "\<forall>q b x. in_task s q b x \<and> x \<noteq> lp \<longrightarrow> (\<exists>r. sm_log (?s\<lparr>sm_log := (sm_log s)(lp := None)\<rparr>) x = Some r \<and> l_addr r = b)" by (intro allI impI) (use 1(2) in auto)
    show "\<forall>x q q' b b'. in_task s q b x \<and> x \<noteq> lp \<longrightarrow> in_task s q' b' x \<and> x \<noteq> lp \<longrightarrow> q = q'" using 1(3) by blast
    show "\<forall>x r. sm_log (?s\<lparr>sm_log := (sm_log s)(lp := None)\<rparr>) x = Some r \<longrightarrow> x < sm_next (?s\<lparr>sm_log := (sm_log s)(lp := None)\<rparr>) \<and> (\<exists>q. in_task s q (l_addr r) x \<and> x \<noteq> lp)"
      using 1(4) by (simp add: upd_systask_def split: if_splits)
  qed
  moreover have "unlink_lpage pid lp s = Some ?s" using u(1) m(1) by (simp add: unlink_lpage_def)
  ultimately show thesis using that e u(1) by blast
qed

lemma remove_l_page_ok:
  assumes inv: "sm_inv P s" and it: "in_task s pid a lp"
  obtains s' where "remove_l_page pid lp s = Some s'" "sm_inv P s'" "\<And>x. x \<noteq> lp \<Longrightarrow> lview e s' x = lview e s x" "sm_log s' = (sm_log s)(lp := None)"
    "\<And>q b x. in_task s' q b x \<longleftrightarrow> in_task s q b x \<and> x \<noteq> lp" "\<And>q. sm_tasks s' q = None \<longleftrightarrow> sm_tasks s q = None" "sm_mem s' = sm_mem s"
proof -
  have pg: "pg_inv P {} {} s" "tr_inv s" using inv by (simp_all add: sm_inv_def)
  obtain r where r: "sm_log s lp = Some r" using in_task_log [OF inv it] by blast
  obtain s1 where s1: "drop_contents lp r s = Some s1" "pg_inv P {} {} (s1\<lparr>sm_log := (sm_log s)(lp := None)\<rparr>)" "sm_log s1 = sm_log s" "sm_tasks s1 = sm_tasks s" "sm_next s1 = sm_next s"
    "sm_mem s1 = sm_mem s" "\<forall>x. x \<noteq> lp \<longrightarrow> lview e s1 x = lview e s x" by (rule drop_contents_ok [OF pg(1) r, of e])
  have t1: "tr_inv s1" by (rule tr_inv_same [OF pg(2) s1(4,5)]) (simp add: s1(3))
  have i1: "in_task s1 = in_task s" by (rule in_task_same [OF s1(4)])
  obtain s2 where s2: "unlink_lpage pid lp s1 = Some s2" "\<forall>q b x. in_task s2 q b x \<longleftrightarrow> in_task s1 q b x \<and> x \<noteq> lp" "tr_inv (s2\<lparr>sm_log := (sm_log s1)(lp := None)\<rparr>)"
    "\<exists>u m. sm_tasks s1 pid = Some u \<and> s2 = upd_systask pid (\<lambda>t. t\<lparr>t_mem := m\<rparr>) s1" by (rule unlink_ok [OF t1, of pid a lp]) (use it i1 in simp)
  obtain u m where m: "sm_tasks s1 pid = Some u" "s2 = upd_systask pid (\<lambda>t. t\<lparr>t_mem := m\<rparr>) s1" using s2(4) by blast
  let ?s = "s2\<lparr>sm_log := (sm_log s2)(lp := None)\<rparr>"
  have l2: "sm_log s2 = sm_log s" "lview e s2 = lview e s1" by (simp_all add: m(2) s1(3))
  have "?s = upd_systask pid (\<lambda>t. t\<lparr>t_mem := m\<rparr>) (s1\<lparr>sm_log := (sm_log s)(lp := None)\<rparr>)" by (simp add: m(2) upd_systask_def s1(3))
  then have "sm_inv P ?s" using s1(2) s2(3) by (simp add: sm_inv_def l2 s1(3))
  then have i: "sm_inv P (recycle L_PAGE ?s)" unfolding recycle_def by (rule sm_inv_heads) simp
  have "remove_l_page pid lp s = Some (recycle L_PAGE ?s)" using r s1(1) s2(1) by (simp add: remove_l_page_def)
  then show thesis
  proof (rule that)
    show "sm_inv P (recycle L_PAGE ?s)" by (rule i)
    show "lview e (recycle L_PAGE ?s) x = lview e s x" if "x \<noteq> lp" for x
    proof -
      have "lview e ?s x = lview e s2 x" using that by (auto simp: lview_def split: option.split)
      then show ?thesis using s1(7) that l2(2) by simp
    qed
    show "sm_log (recycle L_PAGE ?s) = (sm_log s)(lp := None)" by (simp add: recycle_def l2)
    show "in_task (recycle L_PAGE ?s) q b x \<longleftrightarrow> in_task s q b x \<and> x \<noteq> lp" for q b x
      using s2(2) i1 in_task_same [of "recycle L_PAGE ?s" s2] by (simp add: recycle_def)
    show "sm_tasks (recycle L_PAGE ?s) q = None \<longleftrightarrow> sm_tasks s q = None" for q by (simp add: recycle_def m(2) s1(4))
    show "sm_mem (recycle L_PAGE ?s) = sm_mem s" by (simp add: recycle_def m(2) s1(6))
  qed
qed

end
