(* ===== verification/Sysmem_Faults.thy ===== *)
theory Sysmem_Faults
  imports Sysmem_Calls
begin

text \<open>
  Page faults in the pager \<^verbatim>\<open>sys/sysmem/sysmem.c\<close>: a fault keeps the invariant and the contents of every logical page,
  and maps the page that has the contents.
\<close>

definition keeps :: "sm_env \<Rightarrow> sysmem \<Rightarrow> sysmem \<Rightarrow> bool" where
  "keeps e s s' \<longleftrightarrow> (\<forall>x bs. lview e s x = Some bs \<longrightarrow> lview e s' x = Some bs)"

lemma keepsI: "lview e s' = lview e s \<Longrightarrow> keeps e s s'" by (simp add: keeps_def)

lemma keeps_trans: "keeps e s t \<Longrightarrow> keeps e t u \<Longrightarrow> keeps e s u" by (simp add: keeps_def)

lemma half_buddies: "pg_inv P L F s \<Longrightarrow> set (buddy_list s) = half s - F" "pg_inv P L F s \<Longrightarrow> distinct (buddy_list s)"
  by (simp_all add: pg_inv_def pg_swap_def half_def)

lemma give_page_sel [simp]:
  "sm_tasks (give_page lp p s) = sm_tasks s" "sm_next (give_page lp p s) = sm_next s" "sm_mem (give_page lp p s) = sm_mem s"
  "sm_log (give_page lp p s) = (sm_log s)(lp := map_option (\<lambda>r. r\<lparr>lp_frame := p, lp_swap := False\<rparr>) (sm_log s lp))"
  by (simp_all add: give_page_def)

text \<open>A free page for a logical page that has none.\<close>

lemma give_fresh_ok:
  assumes inv: "sm_inv P s" and lz: "lz_ok e" and r: "sm_log s lp = Some r" "\<not> lp_swap r" "lp_frame r = 0" and g: "get_free_page e s = Some (p, s1)"
  shows "sm_inv P (give_page lp p s1)" "lview e (give_page lp p s1) lp = Some (sm_mem s p)" "\<And>x. x \<noteq> lp \<Longrightarrow> lview e (give_page lp p s1) x = lview e s x"
    "sm_tasks (give_page lp p s1) = sm_tasks s" "p \<noteq> 0" "sm_mem (give_page lp p s1) = sm_mem s" "p \<in> set (sm_free s)"
proof -
  have pg: "pg_inv P {} {} s" "tr_inv s" using inv by (simp_all add: sm_inv_def)
  note G = get_free_page_ok [OF pg(1) lz g]
  show p: "p \<noteq> 0" "p \<in> set (sm_free s)" using pg_inv_nonzero [OF pg(1) G(1)] G(4) by simp_all
  have e: "s1\<lparr>buddy_list := buddy_list s1, sm_mem := (sm_mem s1)(p := sm_mem s1 p)\<rparr> = s1" by simp
  have l: "sm_log s1 lp = Some r" "sm_mem s1 = sm_mem s" "sm_tasks s1 = sm_tasks s" "sm_next s1 = sm_next s" "\<And>x. lview e s1 x = lview e s x" using G(3) r by (simp_all add: paged_def)
  have c: "{} \<subseteq> {lp}" "p \<notin> P - {p}" "if lp \<in> {} then lp_swap r else \<not> lp_swap r \<and> lp_frame r = 0" "set (buddy_list s1) = half s1" "distinct (buddy_list s1)"
    "length (sm_mem s1 p) = PAGE_SIZE" using r half_buddies [OF G(2)] pg_invD(4) [OF G(2)] by simp_all
  note V1 = give_page_ok [OF G(2) c(1,2) p(1) l(1) c(3-6), unfolded e]
  have "tr_inv (give_page lp p s1)" by (rule tr_inv_same [OF tr_inv_paged [OF pg(2) G(3)]]) (auto simp: l(1))
  then show "sm_inv P (give_page lp p s1)" using V1(1) G(1) by (simp add: sm_inv_def insert_absorb)
  show "lview e (give_page lp p s1) lp = Some (sm_mem s p)" using V1(2) [of e] l(2) by simp
  show "lview e (give_page lp p s1) x = lview e s x" if "x \<noteq> lp" for x using V1(3) [OF that, of e] l(5) by simp
  show "sm_tasks (give_page lp p s1) = sm_tasks s" "sm_mem (give_page lp p s1) = sm_mem s" using l by simp_all
qed

text \<open>Compressed contents restored.\<close>

lemma restore_ok:
  assumes inv: "sm_inv P s" and lz: "lz_ok e" and r: "sm_log s lp = Some r" "lp_swap r" and d: "decompress e lp r s = Some (p, s1)"
  shows "sm_inv P (give_page lp p s1)" "lview e (give_page lp p s1) x = lview e s x" "sm_tasks (give_page lp p s1) = sm_tasks s" "p \<noteq> 0"
proof -
  have pg: "pg_inv P {} {} s" "tr_inv s" using inv by (simp_all add: sm_inv_def)
  let ?b = "lp_frame r"
  obtain h bs h' where h: "sm_hdrs s ?b = Some h" "c_take lp h = Some (bs, h')" "length (lz_decompress e bs) = PAGE_SIZE"
    using d by (auto simp: decompress_def split: option.splits if_splits)
  note T = take_out_ok [OF pg(1) r h(1,2)]
  have main: "pg_inv P {} {} (give_page lp p s1) \<and> (\<forall>x. lview e (give_page lp p s1) x = lview e s x) \<and> sm_tasks s1 = sm_tasks s \<and> sm_next s1 = sm_next s
      \<and> (\<forall>x. map_option l_addr (sm_log s1 x) = map_option l_addr (sm_log s x)) \<and> p \<noteq> 0"
  proof (cases "c_a h' = None \<and> c_b h' = None")
    case True
    let ?s = "s\<lparr>sm_hdrs := (sm_hdrs s)(?b := None), buddy_list := removeAll ?b (buddy_list s)\<rparr>"
    have e: "p = ?b" "s1 = ?s\<lparr>buddy_list := removeAll ?b (buddy_list s), sm_mem := (sm_mem ?s)(?b := lz_decompress e bs)\<rparr>"
      using d h True by (auto simp: decompress_def)
    have hf: "half ?s = half s - {?b}" by (auto simp: half_def)
    have c: "{lp} \<subseteq> {lp}" "?b \<notin> P - {?b}" "sm_log ?s lp = Some r" "if lp \<in> {lp} then lp_swap r else \<not> lp_swap r \<and> lp_frame r = 0" "set (removeAll ?b (buddy_list s)) = half ?s"
      "distinct (removeAll ?b (buddy_list s))" using r half_buddies [OF pg(1)] hf by (simp_all add: distinct_removeAll)
    note V1 = give_page_ok [OF T(3) [OF True] c(1,2) T(8) c(3-6) h(3), folded e(2)]
    have "lview e (give_page lp ?b s1) x = lview e s x" for x using V1(2) [of e] V1(3) [of x e] T(6) [of e] T(5) [OF _ True, of x e "removeAll ?b (buddy_list s)"] by (cases "x = lp") auto
    then show ?thesis using V1(1) T(7,8) e by (simp add: insert_absorb)
  next
    case False
    then have f: "c_a h' \<noteq> None \<or> c_b h' \<noteq> None" by auto
    let ?s = "s\<lparr>sm_hdrs := (sm_hdrs s)(?b \<mapsto> h')\<rparr>"
    obtain s2 where g: "get_free_page e ?s = Some (p, s2)" "s1 = s2\<lparr>buddy_list := ?b # buddy_list s2, sm_mem := (sm_mem s2)(p := lz_decompress e bs)\<rparr>"
      using d h f by (auto simp: decompress_def)
    note G = get_free_page_ok [OF T(1) [OF f] lz g(1)]
    have ok: "c_ok h" using pg_invD(3) [OF pg(1)] h(1) by (simp add: pg_swap_def)
    have "sm_hdrs s2 ?b = Some h'" using G(3) by (simp add: paged_def)
    then have hf: "?b \<in> half s2" using c_take_ok(3) [OF ok h(2)] by (simp add: half_def)
    have l: "sm_log s2 lp = Some r" "sm_tasks s2 = sm_tasks s" "sm_next s2 = sm_next s" "\<And>x. x \<noteq> lp \<Longrightarrow> lview e s2 x = lview e ?s x" using G(3) r by (simp_all add: paged_def)
    have p: "p \<noteq> 0" by (rule pg_inv_nonzero [OF T(1) [OF f] G(1)])
    have c: "{lp} \<subseteq> {lp}" "p \<notin> P - {p}" "if lp \<in> {lp} then lp_swap r else \<not> lp_swap r \<and> lp_frame r = 0" "set (?b # buddy_list s2) = half s2" "distinct (?b # buddy_list s2)"
      using r half_buddies [OF G(2)] hf by auto
    note V1 = give_page_ok [OF G(2) c(1,2) p l(1) c(3-5) h(3), folded g(2)]
    have "lview e (give_page lp p s1) x = lview e s x" for x using V1(2) [of e] V1(3) [of x e] l(4) [of x] T(6) [of e] T(4) [OF _ f, of x e] by (cases "x = lp") auto
    moreover have "map_option l_addr (sm_log s2 x) = map_option l_addr (sm_log s x)" for x
    proof -
      have "map_option (\<lambda>r. (l_addr r, lp_flags r)) (sm_log s2 x) = map_option (\<lambda>r. (l_addr r, lp_flags r)) (sm_log s x)" using G(3) by (simp add: paged_def)
      then show ?thesis by (cases "sm_log s2 x"; cases "sm_log s x") auto
    qed
    ultimately show ?thesis using V1(1) G(1) l p by (simp add: g(2) insert_absorb)
  qed
  have "tr_inv (give_page lp p s1)"
  proof (rule tr_inv_same [OF pg(2)])
    have "map_option l_addr (sm_log (give_page lp p s1) x) = map_option l_addr (sm_log s1 x)" for x by (simp add: option.map_comp comp_def)
    then show "map_option l_addr (sm_log (give_page lp p s1) x) = map_option l_addr (sm_log s x)" for x using main by metis
  qed (use main in simp_all)
  then show "sm_inv P (give_page lp p s1)" "lview e (give_page lp p s1) x = lview e s x" "sm_tasks (give_page lp p s1) = sm_tasks s" "p \<noteq> 0" using main by (simp_all add: sm_inv_def)
qed

lemma pf_page_ok:
  assumes inv: "sm_inv P s" and lz: "lz_ok e" and r: "sm_log s lp = Some r" and f: "pf_page e pid lp r s = Some s'"
  shows "sm_inv P s' \<and> keeps e s s' \<and> in_task s' = in_task s \<and> (\<exists>r'. sm_log s' lp = Some r' \<and> \<not> lp_swap r')"
proof -
  consider (fresh) p s1 where "get_free_page e s = Some (p, s1)" "s' = give_page lp p s1" "lp_frame r = 0" "\<not> lp_swap r"
    | (swap) p s1 where "decompress e lp r s = Some (p, s1)" "s' = give_page lp p s1" "lp_swap r"
    | (same) "s' = s" "\<not> lp_swap r"
    using f by (auto simp: pf_page_def split: if_splits)
  then show ?thesis
  proof cases
    case fresh
    note G = give_fresh_ok [OF inv lz r fresh(4,3,1)]
    have "lview e s lp = None" using r fresh by (simp add: lview_def)
    then have "keeps e s s'" unfolding keeps_def using G(3) by (metis fresh(2) option.distinct(1))
    moreover have "lview e s' lp \<noteq> None" using G(2) fresh(2) by simp
    then have "sm_log s' lp \<noteq> None" by (cases "sm_log s' lp") (simp_all add: lview_def)
    ultimately show ?thesis using G(1,4) in_task_same [of s' s] fresh(2) by auto
  next
    case swap
    note R = restore_ok [OF inv lz r swap(3,1)]
    have "lview e s' = lview e s" using R(2) swap(2) by (simp add: fun_eq_iff)
    moreover have "sm_log s' lp \<noteq> None"
    proof -
      have "\<exists>pid. in_task s pid (l_addr r) lp" using inv r by (simp add: sm_inv_def tr_inv_def)
      then show ?thesis using in_task_log [OF R(1)] in_task_same [OF R(3)] swap(2) by fastforce
    qed
    ultimately show ?thesis using R(1,3) keepsI in_task_same [of s' s] swap(2) by auto
  next
    case same
    then show ?thesis using inv r by (simp add: keeps_def)
  qed
qed

lemma pf_reply_ok:
  assumes inv: "sm_inv P s" and it: "in_task s pid page lp" and r: "sm_log s lp = Some r" "\<not> lp_swap r" and f: "pf_reply pid lp page s = Some (res, s')"
  shows "sm_inv P s' \<and> keeps e s s' \<and> (\<exists>p. res = SM_MAP p page \<and> in_task s' pid page lp \<and> lview e s' lp = Some (sm_mem s' p) \<and> p \<noteq> 0)"
proof -
  have e: "lp_frame r \<noteq> 0" "res = SM_MAP (lp_frame r) page" "s' = upd_systask pid (\<lambda>t. t\<lparr>t_min_fault := min (t_min_fault t) page\<rparr>) s"
    using f r by (auto simp: pf_reply_def split: if_splits)
  have "sm_inv P s'" unfolding e(3) by (subst sm_inv_upd) (use inv in simp_all)
  then show ?thesis using it r e by (simp add: keeps_def lview_def)
qed

lemma handle_pf_ok:
  assumes inv: "sm_inv P s" and lz: "lz_ok e" and f: "handle_pf e pid a s = Some (res, s')"
  shows "sm_inv P s' \<and> keeps e s s' \<and> (\<forall>p b. res = SM_MAP p b \<longrightarrow> b = a AND NOT 0xfff \<and> p \<noteq> 0 \<and> (\<exists>lp. in_task s' pid b lp \<and> lview e s' lp = Some (sm_mem s' p)))"
proof (cases "a AND NOT 0xfff = 0")
  case True
  then have "res = SM_NO_REPLY" "s' = s" using f by (simp_all add: handle_pf_def)
  then show ?thesis using inv by (simp add: keeps_def)
next
  case nz: False
  define page where "page = a AND NOT 0xfff"
  have al: "page AND 0xfff = 0" unfolding page_def by (rule aligned_floor)
  obtain t s1 where t: "get_task e pid s = Some (t, s1)" using f nz by (cases "get_task e pid s") (auto simp: handle_pf_def Let_def)
  note T = get_task_ok [OF inv lz t]
  have k1: "keeps e s s1" by (rule keepsI) (rule T(3))
  have lt: "lp_tree (t_mem t)" by (rule task_tree [OF T(1,6)])
  note F = f [unfolded handle_pf_def Let_def, folded page_def, unfolded t get_lpage_def, simplified al]
  have nz': "page \<noteq> 0" using nz page_def by simp
  show ?thesis
  proof (cases "lpage_search page (t_mem t)")
    case (Some lp)
    then have it: "in_task s1 pid page lp" using lpage_search_Some [of "t_mem t" page lp] lt T(6) by (auto simp: lp_tree_def in_task_def)
    then obtain r where r: "sm_log s1 lp = Some r" using in_task_log [OF T(1)] by blast
    obtain s2 where s2: "pf_page e pid lp r s1 = Some s2" "pf_reply pid lp page s2 = Some (res, s')" using F Some r nz' by (auto split: if_splits option.splits)
    note A = pf_page_ok [OF T(1) lz r s2(1)]
    obtain r' where r': "sm_log s2 lp = Some r'" "\<not> lp_swap r'" using A by blast
    have "in_task s2 pid page lp" using A it by simp
    from pf_reply_ok [OF A [THEN conjunct1] this r' s2(2), of e] show ?thesis using A k1 keeps_trans page_def by blast
  next
    case None
    show ?thesis
    proof (cases "page > t_brk t")
      case True
      then have "res = SM_NO_REPLY" "s' = s1" using F None nz' by auto
      then show ?thesis using T(1) k1 by simp
    next
      case False
      obtain lp s2 p s3 where s2: "new_lpage e pid \<lparr>l_addr = page, lp_frame = 0, lp_swap = False, lp_flags = 0\<rparr> s1 = Some (lp, s2)"
        "get_free_page e s2 = Some (p, s3)" "pf_reply pid lp page (give_page lp p s3) = Some (res, s')"
        using F None False nz' by (auto split: option.splits)
      note N = new_lpage_ok [OF T(1) lz s2(1), simplified, OF al]
      note G = give_fresh_ok [OF N(1) lz N(2) _ _ s2(2), simplified]
      have "lview e s2 lp = None" using N(2) by (simp add: lview_def)
      then have k: "keeps e s2 (give_page lp p s3)" unfolding keeps_def using G(3) by (metis option.distinct(1))
      have it: "in_task (give_page lp p s3) pid page lp" using N(4) in_task_same [of "give_page lp p s3" s2] G(4) by simp
      obtain r where r: "sm_log (give_page lp p s3) lp = Some r" using in_task_log [OF G(1) it] by blast
      moreover have "\<not> lp_swap r" using r by auto
      ultimately show ?thesis using pf_reply_ok [OF G(1) it r _ s2(3), of e] k1 keepsI [OF N(3)] k keeps_trans page_def by blast
    qed
  qed
qed

end
