(* ===== verification/Sysmem_Moves.thy ===== *)
theory Sysmem_Moves
  imports Sysmem_Faults
begin

text \<open>
  The calls of the pager \<^verbatim>\<open>sys/sysmem/sysmem.c\<close> that take pages from tasks or move them: each keeps the invariant and the
  contents of the logical pages it does not remove.
\<close>

text \<open>A page that loses its contents or its place takes nothing from the others.\<close>

definition keeps_except :: "nat set \<Rightarrow> sm_env \<Rightarrow> sysmem \<Rightarrow> sysmem \<Rightarrow> bool" where
  "keeps_except X e s s' \<longleftrightarrow> (\<forall>x bs. x \<notin> X \<longrightarrow> lview e s x = Some bs \<longrightarrow> lview e s' x = Some bs)"

lemma keeps_exceptI: "(\<And>x. x \<notin> X \<Longrightarrow> lview e s' x = lview e s x) \<Longrightarrow> keeps_except X e s s'" by (simp add: keeps_except_def)

lemma keeps_except_trans: "keeps_except X e s t \<Longrightarrow> keeps_except Y e t u \<Longrightarrow> keeps_except (X \<union> Y) e s u" by (simp add: keeps_except_def)

lemma keeps_except_keeps: "keeps e s t \<Longrightarrow> keeps_except X e s t" by (simp add: keeps_except_def keeps_def)

lemma keeps_iff_except: "keeps e s t \<longleftrightarrow> keeps_except {} e s t" by (simp add: keeps_except_def keeps_def)

section \<open>Removal\<close>

lemma remove_l_page_all:
  assumes "sm_inv P s" "in_task s pid a lp"
  shows "\<exists>s'. remove_l_page pid lp s = Some s' \<and> sm_inv P s' \<and> (\<forall>x. x \<noteq> lp \<longrightarrow> lview e s' x = lview e s x) \<and> sm_log s' = (sm_log s)(lp := None)
    \<and> (\<forall>q b x. in_task s' q b x \<longleftrightarrow> in_task s q b x \<and> x \<noteq> lp) \<and> (\<forall>q. sm_tasks s' q = None \<longleftrightarrow> sm_tasks s q = None) \<and> sm_mem s' = sm_mem s"
proof (rule remove_l_page_ok [OF assms, where e = e])
  fix s' assume "remove_l_page pid lp s = Some s'" "sm_inv P s'" "\<And>x. x \<noteq> lp \<Longrightarrow> lview e s' x = lview e s x" "sm_log s' = (sm_log s)(lp := None)"
    "\<And>q b x. in_task s' q b x \<longleftrightarrow> in_task s q b x \<and> x \<noteq> lp" "\<And>q. sm_tasks s' q = None \<longleftrightarrow> sm_tasks s q = None" "sm_mem s' = sm_mem s"
  then show ?thesis by simp
qed

lemma remove_l_pages_ok:
  assumes "sm_inv P s" "distinct lps" "\<forall>lp \<in> set lps. \<exists>a. in_task s pid a lp"
  shows "\<exists>s'. remove_l_pages pid lps s = Some s' \<and> sm_inv P s' \<and> (\<forall>x. x \<notin> set lps \<longrightarrow> lview e s' x = lview e s x)
    \<and> (\<forall>q b x. in_task s' q b x \<longleftrightarrow> in_task s q b x \<and> x \<notin> set lps) \<and> (\<forall>q. sm_tasks s' q = None \<longleftrightarrow> sm_tasks s q = None)
    \<and> (\<forall>x. sm_log s' x = (if x \<in> set lps then None else sm_log s x)) \<and> sm_mem s' = sm_mem s"
  using assms
proof (induction lps arbitrary: s)
  case Nil
  then show ?case by simp
next
  case (Cons lp lps)
  obtain a where a: "in_task s pid a lp" using Cons.prems(3) by auto
  obtain t where t: "remove_l_page pid lp s = Some t" "sm_inv P t" "\<And>x. x \<noteq> lp \<Longrightarrow> lview e t x = lview e s x" "sm_log t = (sm_log s)(lp := None)"
    "\<And>q b x. in_task t q b x \<longleftrightarrow> in_task s q b x \<and> x \<noteq> lp" "\<And>q. sm_tasks t q = None \<longleftrightarrow> sm_tasks s q = None" "sm_mem t = sm_mem s"
    using remove_l_page_all [OF Cons.prems(1) a, of e] by blast
  have "\<forall>x \<in> set lps. \<exists>a. in_task t pid a x" using Cons.prems(2,3) t(5) by auto
  then obtain u where u: "remove_l_pages pid lps t = Some u" "sm_inv P u" "\<forall>x. x \<notin> set lps \<longrightarrow> lview e u x = lview e t x"
    "\<forall>q b x. in_task u q b x \<longleftrightarrow> in_task t q b x \<and> x \<notin> set lps" "\<forall>q. sm_tasks u q = None \<longleftrightarrow> sm_tasks t q = None"
    "\<forall>x. sm_log u x = (if x \<in> set lps then None else sm_log t x)" "sm_mem u = sm_mem t"
    using Cons.IH [OF t(2)] Cons.prems(2) by auto
  show ?case
  proof (intro exI conjI)
    show "remove_l_pages pid (lp # lps) s = Some u" using t(1) u(1) by simp
    show "\<forall>x. x \<notin> set (lp # lps) \<longrightarrow> lview e u x = lview e s x" using t(3) u(3) by simp
    show "\<forall>q b x. in_task u q b x \<longleftrightarrow> in_task s q b x \<and> x \<notin> set (lp # lps)" using t(5) u(4) by auto
    show "\<forall>q. sm_tasks u q = None \<longleftrightarrow> sm_tasks s q = None" using t(6) u(5) by simp
    show "\<forall>x. sm_log u x = (if x \<in> set (lp # lps) then None else sm_log s x)" using t(4) u(6) by simp
    show "sm_mem u = sm_mem s" using t(7) u(7) by simp
  qed (rule u(2))
qed

lemma distinct_lpages:
  assumes "sm_inv P s" "sm_tasks s pid = Some t"
  shows "distinct (map snd (rb_keys (t_mem t)))" "\<And>lp. lp \<in> set (map snd (rb_keys (t_mem t))) \<longleftrightarrow> (\<exists>a. in_task s pid a lp)"
proof -
  have l: "lp_list_ok (rb_keys (t_mem t))" using task_tree [OF assms] by (simp add: lp_tree_def)
  have "fst x = fst y" if "x \<in> set (rb_keys (t_mem t))" "y \<in> set (rb_keys (t_mem t))" "snd x = snd y" for x y
  proof -
    have "in_task s pid (fst x) (snd x)" "in_task s pid (fst y) (snd y)" using that(1,2) assms(2) by (simp_all add: in_task_def)
    then show ?thesis using in_task_log [OF assms(1)] that(3) by (metis option.inject)
  qed
  then have "inj_on snd (set (rb_keys (t_mem t)))" unfolding inj_on_def prod_eq_iff by blast
  moreover have "sorted_wrt (<) (map fst (rb_keys (t_mem t)))" using l by (simp add: lp_list_ok_def sorted_wrt_map)
  then have "distinct (rb_keys (t_mem t))" unfolding strict_sorted_iff distinct_map by blast
  ultimately show "distinct (map snd (rb_keys (t_mem t)))" by (simp add: distinct_map)
  show "lp \<in> set (map snd (rb_keys (t_mem t))) \<longleftrightarrow> (\<exists>a. in_task s pid a lp)" for lp using assms(2) by (force simp: in_task_def)
qed

lemma impl_rm_task_ok:
  assumes inv: "sm_inv P s"
  obtains s' where "impl_rm_task pid s = Some s'" "sm_inv P s'" "\<And>x. find_task pid s = None \<or> \<not> (\<exists>a. in_task s pid a x) \<Longrightarrow> lview e s' x = lview e s x"
    "find_task pid s' = None" "\<And>q b x. in_task s' q b x \<longleftrightarrow> in_task s q b x \<and> (find_task pid s = None \<or> q \<noteq> pid)"
proof (cases "find_task pid s")
  case None
  then show thesis using that [of s] inv by (simp add: impl_rm_task_def)
next
  case (Some t)
  then have t: "sm_tasks s pid = Some t" by (simp add: find_task_def split: if_splits)
  note D = distinct_lpages [OF inv t]
  let ?lps = "map snd (rb_keys (t_mem t))"
  obtain u where u: "remove_l_pages pid ?lps s = Some u" "sm_inv P u" "\<forall>x. x \<notin> set ?lps \<longrightarrow> lview e u x = lview e s x"
    "\<forall>q b x. in_task u q b x \<longleftrightarrow> in_task s q b x \<and> x \<notin> set ?lps"
    using remove_l_pages_ok [OF inv D(1), of pid e] D(2) by blast
  let ?u = "u\<lparr>sm_tasks := (sm_tasks u)(pid := None)\<rparr>"
  have tr: "tr_inv u" "tr_inv s" using u(2) inv by (simp_all add: sm_inv_def)
  have own: "q = pid" if it: "in_task s q b x" and x: "x \<in> set ?lps" for q b x
  proof -
    obtain a where "in_task s pid a x" using D(2) x by blast
    then show ?thesis using tr(2) it unfolding tr_inv_def by blast
  qed
  have np: "\<not> in_task u pid b x" for b x using u(4) D(2) by blast
  have it: "in_task ?u q b x \<longleftrightarrow> in_task u q b x" for q b x using np by (auto simp: in_task_def)
  have "tr_inv ?u" using tr(1) unfolding tr_inv_def it by simp
  then have "sm_inv P ?u" using u(2) by (simp add: sm_inv_def)
  then have i: "sm_inv P (recycle SYSTASK ?u)" unfolding recycle_def by (rule sm_inv_heads) simp
  have "impl_rm_task pid s = Some (recycle SYSTASK ?u)" using Some u(1) by (simp add: impl_rm_task_def)
  then show thesis
  proof (rule that)
    show "lview e (recycle SYSTASK ?u) x = lview e s x" if "find_task pid s = None \<or> \<not> (\<exists>a. in_task s pid a x)" for x
      using that Some D(2) u(3) by simp
    show "find_task pid (recycle SYSTASK ?u) = None" by (simp add: recycle_def find_task_def)
    show "in_task (recycle SYSTASK ?u) q b x \<longleftrightarrow> in_task s q b x \<and> (find_task pid s = None \<or> q \<noteq> pid)" for q b x
    proof -
      have "in_task (recycle SYSTASK ?u) q b x \<longleftrightarrow> in_task ?u q b x" by (simp add: recycle_def in_task_def)
      moreover have "in_task s q b x \<Longrightarrow> q \<noteq> pid \<Longrightarrow> x \<notin> set ?lps" using own by blast
      ultimately show ?thesis using it u(4) np Some by auto
    qed
  qed (rule i)
qed

section \<open>The break\<close>

lemma brk_pages_ok:
  assumes inv: "sm_inv P s" and t: "sm_tasks s pid = Some t"
  shows "distinct (map snd (takeWhile f (dropWhile g (rb_keys (t_mem t)))))" "\<forall>lp \<in> set (map snd (takeWhile f (dropWhile g (rb_keys (t_mem t))))). \<exists>a. in_task s pid a lp"
proof -
  have "\<exists>xs ys. rb_keys (t_mem t) = xs @ takeWhile f (dropWhile g (rb_keys (t_mem t))) @ ys" by (metis takeWhile_dropWhile_id)
  then obtain xs ys where e: "rb_keys (t_mem t) = xs @ takeWhile f (dropWhile g (rb_keys (t_mem t))) @ ys" by blast
  note D = distinct_lpages [OF inv t]
  have d: "distinct (map snd (xs @ takeWhile f (dropWhile g (rb_keys (t_mem t))) @ ys))" using D(1) e by simp
  show "distinct (map snd (takeWhile f (dropWhile g (rb_keys (t_mem t)))))" using d unfolding map_append distinct_append by blast
  show "\<forall>lp \<in> set (map snd (takeWhile f (dropWhile g (rb_keys (t_mem t))))). \<exists>a. in_task s pid a lp"
  proof
    fix lp assume "lp \<in> set (map snd (takeWhile f (dropWhile g (rb_keys (t_mem t)))))"
    then have "lp \<in> set (map snd (rb_keys (t_mem t)))" by (subst e) simp
    then show "\<exists>a. in_task s pid a lp" using D(2) by blast
  qed
qed

lemma impl_brk_ok:
  assumes inv: "sm_inv P s" and lz: "lz_ok e" and r: "impl_brk e pid new_brk s = Some s'"
  shows "sm_inv P s' \<and> (\<forall>q b x. in_task s' q b x \<longrightarrow> in_task s q b x) \<and> (\<forall>q b x. q \<noteq> pid \<longrightarrow> in_task s q b x \<longrightarrow> in_task s' q b x)
    \<and> keeps_except {x. \<exists>b. in_task s pid b x \<and> \<not> in_task s' pid b x} e s s'"
proof (cases "pid < 50000")
  case True
  then show ?thesis using r inv by (simp add: impl_brk_def keeps_except_def)
next
  case False
  obtain t s1 where t: "get_task e pid s = Some (t, s1)" using r False by (cases "get_task e pid s") (auto simp: impl_brk_def)
  note T = get_task_ok [OF inv lz t]
  consider (same) "s' = upd_systask pid (\<lambda>t. t\<lparr>t_brk := new_brk\<rparr>) s1"
    | (cut) lp high u where "remove_l_pages pid (map snd (takeWhile (\<lambda>x. fst x < high) (dropWhile (\<lambda>x. snd x \<noteq> lp) (rb_keys (t_mem t))))) s1 = Some u"
        "s' = upd_systask pid (\<lambda>t. t\<lparr>t_brk := new_brk\<rparr>) u"
    using r False t by (auto simp: impl_brk_def Let_def split: option.splits if_splits)
  then show ?thesis
  proof cases
    case same
    have "sm_inv P s'" unfolding same by (subst sm_inv_upd) (use T(1) in simp_all)
    then show ?thesis using T(3,4) by (simp add: same keeps_except_def)
  next
    case (cut lp high u)
    let ?lps = "map snd (takeWhile (\<lambda>x. fst x < high) (dropWhile (\<lambda>x. snd x \<noteq> lp) (rb_keys (t_mem t))))"
    note B = brk_pages_ok [OF T(1,6), of "\<lambda>x. fst x < high" "\<lambda>x. snd x \<noteq> lp"]
    obtain v where v: "remove_l_pages pid ?lps s1 = Some v" "sm_inv P v" "\<forall>x. x \<notin> set ?lps \<longrightarrow> lview e v x = lview e s1 x"
      "\<forall>q b x. in_task v q b x \<longleftrightarrow> in_task s1 q b x \<and> x \<notin> set ?lps" using remove_l_pages_ok [OF T(1) B, of e] by blast
    have uv: "u = v" using v(1) cut(1) by simp
    have i: "sm_inv P s'" unfolding cut(2) by (subst sm_inv_upd) (use v(2) uv in simp_all)
    have it: "in_task s' q b x \<longleftrightarrow> in_task s q b x \<and> x \<notin> set ?lps" for q b x unfolding cut(2) uv using v(4) T(4) by simp
    have own: "q = pid" if m: "in_task s q b x" and x: "x \<in> set ?lps" for q b x
    proof -
      obtain a where "in_task s pid a x" using B(2) x T(4) by auto
      then show ?thesis using inv m unfolding sm_inv_def tr_inv_def by blast
    qed
    have gone: "x \<in> set ?lps \<Longrightarrow> \<exists>b. in_task s pid b x \<and> \<not> in_task s' pid b x" for x using B(2) T(4) it by fastforce
    have "lview e s' x = lview e s x" if "\<not> (\<exists>b. in_task s pid b x \<and> \<not> in_task s' pid b x)" for x
      using that gone [of x] v(3) T(3) unfolding cut(2) uv by auto
    then have "keeps_except {x. \<exists>b. in_task s pid b x \<and> \<not> in_task s' pid b x} e s s'" by (auto simp: keeps_except_def)
    then show ?thesis using i it own by blast
  qed
qed

section \<open>Moving a page to another task\<close>

lemma move_lpage_ok:
  assumes inv: "sm_inv P s" and it: "in_task s src a0 lp" and al: "a AND 0xfff = 0" and r: "move_lpage src lp dest a s = Some s'"
  shows "sm_inv P s' \<and> lview e s' = lview e s \<and> (\<forall>q b x. in_task s' q b x \<longleftrightarrow> in_task s q b x \<and> x \<noteq> lp \<or> q = dest \<and> b = a \<and> x = lp)"
proof -
  have pg: "pg_inv P {} {} s" "tr_inv s" using inv by (simp_all add: sm_inv_def)
  obtain l where l: "sm_log s lp = Some l" using in_task_log [OF inv it] by blast
  obtain s1 where s1: "unlink_lpage src lp s = Some s1" "\<forall>q b x. in_task s1 q b x \<longleftrightarrow> in_task s q b x \<and> x \<noteq> lp" "tr_inv (s1\<lparr>sm_log := (sm_log s)(lp := None)\<rparr>)"
    "\<exists>u m. sm_tasks s src = Some u \<and> s1 = upd_systask src (\<lambda>t. t\<lparr>t_mem := m\<rparr>) s" by (rule unlink_ok [OF pg(2) it])
  obtain um where um: "s1 = upd_systask src (\<lambda>t. t\<lparr>t_mem := um\<rparr>) s" using s1(4) by blast
  obtain d m where d: "sm_tasks s1 dest = Some d" "put_lpage a lp (t_mem d) = Some m"
    "s' = upd_systask dest (\<lambda>t. t\<lparr>t_mem := m, t_min_fault := min (t_min_fault t) (a AND NOT 0xfff), t_brk := max (t_brk t) (a OR 0xfff)\<rparr>) (upd_log lp (\<lambda>r. r\<lparr>l_addr := a\<rparr>) s1)"
    using r l s1(1) by (auto simp: move_lpage_def split: option.splits)
  let ?z = "s1\<lparr>sm_log := (sm_log s)(lp := None)\<rparr>"
  have ls: "sm_log s' = (sm_log s)(lp \<mapsto> l\<lparr>l_addr := a\<rparr>)" by (simp add: d(3) um l)
  have lt: "lp < sm_next s" using pg(2) l unfolding tr_inv_def by blast
  have iz: "in_task ?z = in_task s1" by (rule in_task_same) simp
  have tk: "sm_tasks s' = (sm_tasks ?z)(dest \<mapsto> d\<lparr>t_mem := m, t_min_fault := min (t_min_fault d) (a AND NOT 0xfff), t_brk := max (t_brk d) (a OR 0xfff)\<rparr>)"
    by (simp add: d(1,3) del: fun_upd_apply)
  have tp: "tr_inv s'" "in_task s' q b x \<longleftrightarrow> in_task ?z q b x \<or> q = dest \<and> b = a \<and> x = lp" for q b x
    using tr_inv_put [OF s1(3) al, of lp dest d m s' _ "l\<lparr>l_addr := a\<rparr>"] s1(2) iz d(1,2) tk ls lt by (simp_all add: d(3) um)
  have "pg_inv P {} {} s' = pg_inv P {} {} (upd_log lp (\<lambda>r. r\<lparr>l_addr := a\<rparr>) s)" unfolding d(3) um upd_log_def by (simp add: upd_systask_def pg_inv_def pg_lists_def pg_owners_def pg_swap_def has_frame_def swapped_to_def head_pages_def)
  moreover have "pg_inv P {} {} (upd_log lp (\<lambda>r. r\<lparr>l_addr := a\<rparr>) s) = pg_inv P {} {} s"
  proof -
    let ?s = "upd_log lp (\<lambda>r. r\<lparr>l_addr := a\<rparr>) s"
    have "has_frame ?s = has_frame s" "swapped_to ?s = swapped_to s" "head_pages ?s = head_pages s" using l by (auto simp: has_frame_def swapped_to_def head_pages_def fun_eq_iff)
    then show ?thesis by (simp add: pg_inv_def pg_lists_def pg_owners_def pg_swap_def)
  qed
  moreover have "lview e s' x = lview e s x" for x using l by (auto simp: lview_def ls d(3) um split: option.split)
  ultimately show ?thesis using pg(1) tp s1(2) iz by (auto simp: sm_inv_def)
qed

end
