(* ===== verification/Sysmem_Give.thy ===== *)
theory Sysmem_Give
  imports Sysmem_Moves
begin

text \<open>
  The calls of the pager \<^verbatim>\<open>sys/sysmem/sysmem.c\<close> that bring new pages, move pages between tasks or alter their
  flags.
\<close>

section \<open>Moving and altering\<close>

lemma get_lpage_in:
  assumes "sm_inv P s" "sm_tasks s pid = Some t" "get_lpage t a = Some (Some lp)"
  shows "in_task s pid a lp" "a AND 0xfff = 0"
  using assms lpage_search_Some [of "t_mem t" a lp] task_tree [OF assms(1,2)] by (auto simp: get_lpage_def in_task_def lp_tree_def split: if_splits)

lemma get_lpage_aligned: "get_lpage t a = Some q \<Longrightarrow> a AND 0xfff = 0" by (simp add: get_lpage_def split: if_splits)

text \<open>The page that was at the destination goes; the one that is moved keeps its contents.\<close>

lemma impl_send_virt_ok:
  assumes inv: "sm_inv P s" and lz: "lz_ok e" and r: "impl_send_virt e src a dest b s = Some (n, s')"
  shows "sm_inv P s' \<and> keeps_except {x. \<exists>q c. in_task s q c x \<and> \<not> (\<exists>q c. in_task s' q c x)} e s s'
    \<and> (n = 0 \<longrightarrow> (\<exists>lp. in_task s src a lp \<and> (case dest of None \<Rightarrow> \<forall>q c. \<not> in_task s' q c lp
         | Some d \<Rightarrow> in_task s' d b lp \<and> lview e s' lp = lview e s lp \<and> (\<forall>q c. in_task s' q c lp \<longrightarrow> q = d \<and> c = b))))"
proof (cases "src < 50000")
  case True
  then show ?thesis using r inv by (simp add: impl_send_virt_def keeps_except_def)
next
  case False
  obtain t s1 where t: "get_task e src s = Some (t, s1)" using r False by (cases "get_task e src s") (auto simp: impl_send_virt_def)
  note T = get_task_ok [OF inv lz t]
  show ?thesis
  proof (cases "get_lpage t a")
    case None
    then show ?thesis using r False t by (simp add: impl_send_virt_def)
  next
    case (Some o1)
    show ?thesis
    proof (cases o1)
      case None
      then have "n = EFAULT" "s' = s1" using r False t Some by (simp_all add: impl_send_virt_def)
      then show ?thesis using T(1,3) by (simp add: keeps_except_def)
    next
      case (Some lp)
      then have gl: "get_lpage t a = Some (Some lp)" using \<open>get_lpage t a = Some o1\<close> by simp
      have it: "in_task s1 src a lp" by (rule get_lpage_in [OF T(1,6) gl])
      have it0: "in_task s src a lp" using it T(4) by simp
      have F: "(case dest of None \<Rightarrow> map_option (\<lambda>s. (0, s)) (remove_l_page src lp s1)
          | Some dest_pid \<Rightarrow>
              if dest_pid < 50000 then Some (EINVAL, s1)
              else (case get_task e dest_pid s1 of None \<Rightarrow> None
                | Some (d, s) \<Rightarrow> (case get_lpage d b of None \<Rightarrow> None
                  | Some dst \<Rightarrow> (case (case dst of None \<Rightarrow> Some s | Some q \<Rightarrow> remove_l_page dest_pid q s) of None \<Rightarrow> None
                    | Some s \<Rightarrow> map_option (\<lambda>s. (0, s)) (move_lpage src lp dest_pid b s))))) = Some (n, s')"
        using r False t gl by (simp add: impl_send_virt_def)
      show ?thesis
      proof (cases dest)
        case None
        obtain u where u: "remove_l_page src lp s1 = Some u" "sm_inv P u" "\<forall>x. x \<noteq> lp \<longrightarrow> lview e u x = lview e s1 x"
          "\<forall>q b x. in_task u q b x \<longleftrightarrow> in_task s1 q b x \<and> x \<noteq> lp" using remove_l_page_all [OF T(1) it, of e] by blast
        have "n = 0" "s' = u" using F None u(1) by simp_all
        moreover have "keeps_except {x. \<exists>q c. in_task s q c x \<and> \<not> (\<exists>q c. in_task u q c x)} e s u"
          unfolding keeps_except_def
        proof (intro allI impI)
          fix x bs assume x: "x \<notin> {x. \<exists>q c. in_task s q c x \<and> \<not> (\<exists>q c. in_task u q c x)}" "lview e s x = Some bs"
          have "x \<noteq> lp" using x(1) u(4) it0 by blast
          then show "lview e u x = Some bs" using u(3) T(3) x(2) by simp
        qed
        ultimately show ?thesis using None u(2,4) it0 by auto
      next
        case (Some d)
        show ?thesis
        proof (cases "d < 50000")
          case True
          then have "n = EINVAL" "s' = s1" using F Some by simp_all
          then show ?thesis using T(1,3) by (simp add: keeps_except_def)
        next
          case df: False
          obtain td s2 where td: "get_task e d s1 = Some (td, s2)" using F Some df by (cases "get_task e d s1") auto
          note T2 = get_task_ok [OF T(1) lz td]
          obtain dst where dst: "get_lpage td b = Some dst" using F Some df td by (cases "get_lpage td b") auto
          obtain s3 where s3: "(case dst of None \<Rightarrow> Some s2 | Some q \<Rightarrow> remove_l_page d q s2) = Some s3" "n = 0" "move_lpage src lp d b s3 = Some s'"
            using F Some df td dst by (auto split: option.splits)
          have al: "b AND 0xfff = 0" by (rule get_lpage_aligned [OF dst])
          have R: "sm_inv P s3 \<and> (\<forall>x. dst \<noteq> Some x \<longrightarrow> lview e s3 x = lview e s2 x) \<and> (\<forall>q c x. in_task s3 q c x \<longleftrightarrow> in_task s2 q c x \<and> dst \<noteq> Some x) \<and> (\<forall>x. dst = Some x \<longrightarrow> in_task s2 d b x \<and> sm_log s3 x = None)"
          proof (cases dst)
            case None
            then show ?thesis using s3(1) T2(1) by simp
          next
            case (Some q)
            have q: "in_task s2 d b q" using get_lpage_in(1) [OF T2(1,6)] dst Some by simp
            then show ?thesis using remove_l_page_all [OF T2(1) q, of e] s3(1) Some by auto
          qed
          have nq: "dst \<noteq> Some lp" using s3(3) R by (auto simp: move_lpage_def)
          have i3: "in_task s3 src a lp" using R nq it T2(4) by simp
          have M: "sm_inv P s' \<and> lview e s' = lview e s3 \<and> (\<forall>q c x. in_task s' q c x \<longleftrightarrow> in_task s3 q c x \<and> x \<noteq> lp \<or> q = d \<and> c = b \<and> x = lp)"
            by (rule move_lpage_ok [OF _ i3 al s3(3)]) (use R in simp)
          have v: "dst \<noteq> Some x \<Longrightarrow> lview e s' x = lview e s x" for x using M R T2(3) T(3) by simp
          have g: "in_task s d b x \<and> (\<forall>q c. \<not> in_task s' q c x)" if "dst = Some x" for x using that R M nq T2(4) T(4) by auto
          have k: "keeps_except {x. \<exists>q c. in_task s q c x \<and> \<not> (\<exists>q c. in_task s' q c x)} e s s'"
            unfolding keeps_except_def
          proof (intro allI impI)
            fix x bs assume x: "x \<notin> {x. \<exists>q c. in_task s q c x \<and> \<not> (\<exists>q c. in_task s' q c x)}" "lview e s x = Some bs"
            have "dst \<noteq> Some x" using x(1) g [of x] by blast
            then show "lview e s' x = Some bs" using v x(2) by simp
          qed
          have "in_task s' d b lp \<and> lview e s' lp = lview e s lp \<and> (\<forall>q c. in_task s' q c lp \<longrightarrow> q = d \<and> c = b)"
            using conjunct2 [OF conjunct2 [OF M]] v [OF nq] by simp
          then have "\<exists>lp. in_task s src a lp \<and> (case dest of None \<Rightarrow> \<forall>q c. \<not> in_task s' q c lp
            | Some d \<Rightarrow> in_task s' d b lp \<and> lview e s' lp = lview e s lp \<and> (\<forall>q c. in_task s' q c lp \<longrightarrow> q = d \<and> c = b))"
            unfolding Some option.case by (intro exI [of _ lp] conjI it0) simp_all
          then show ?thesis using M k by blast
        qed
      qed
    qed
  qed
qed

lemma upd_flags_ok:
  assumes "sm_inv P s"
  shows "sm_inv P (upd_log lp (\<lambda>r. r\<lparr>lp_flags := f r\<rparr>) s)" "lview e (upd_log lp (\<lambda>r. r\<lparr>lp_flags := f r\<rparr>) s) = lview e s" "in_task (upd_log lp (\<lambda>r. r\<lparr>lp_flags := f r\<rparr>) s) = in_task s"
proof -
  let ?s = "upd_log lp (\<lambda>r. r\<lparr>lp_flags := f r\<rparr>) s"
  have h: "has_frame ?s = has_frame s" "swapped_to ?s = swapped_to s" "head_pages ?s = head_pages s"
    by (auto simp: has_frame_def swapped_to_def head_pages_def fun_eq_iff)
  have "pg_inv P {} {} ?s = pg_inv P {} {} s" unfolding pg_inv_def pg_lists_def pg_owners_def pg_swap_def h by simp
  then have "pg_inv P {} {} ?s" using assms by (simp add: sm_inv_def)
  moreover have "tr_inv ?s" using assms by (auto intro: tr_inv_same simp: sm_inv_def option.map_comp comp_def)
  ultimately show "sm_inv P ?s" by (simp add: sm_inv_def)
  show "lview e ?s = lview e s" by (auto simp: lview_def fun_eq_iff split: option.split)
  show "in_task ?s = in_task s" by (rule in_task_same) simp
qed

lemma alter_page_ok:
  assumes inv: "sm_inv P s" and lz: "lz_ok e" and r: "alter_page e pid om am a s = Some s'"
  shows "sm_inv P s' \<and> keeps e s s'"
proof -
  obtain t q where t: "sm_tasks s pid = Some t" "get_lpage t a = Some q" using r by (auto simp: alter_page_def split: option.splits)
  have al: "a AND 0xfff = 0" by (rule get_lpage_aligned [OF t(2)])
  show ?thesis
  proof (cases q)
    case None
    then obtain lp where "new_lpage e pid \<lparr>l_addr = a, lp_frame = 0, lp_swap = False, lp_flags = om\<rparr> s = Some (lp, s')" using r t by (auto simp: alter_page_def)
    note N = new_lpage_ok [OF inv lz this, simplified, OF al]
    show ?thesis using N(1,3) keepsI by blast
  next
    case (Some lp)
    let ?s = "upd_log lp (\<lambda>r. r\<lparr>lp_flags := (lp_flags r OR om) AND am\<rparr>) s"
    note U = upd_flags_ok [OF inv, where lp = lp and f = "\<lambda>r. (lp_flags r OR om) AND am"]
    have it: "in_task ?s pid a lp" unfolding U(3) by (rule get_lpage_in [OF inv t(1)]) (use t Some in simp)
    obtain l where l: "sm_log ?s lp = Some l" "if lp_flags l = 0 \<and> lp_frame l = 0 \<and> \<not> lp_swap l then remove_l_page pid lp ?s = Some s' else s' = ?s"
      using r t Some by (auto simp: alter_page_def Let_def split: option.splits if_splits)
    show ?thesis
    proof (cases "lp_flags l = 0 \<and> lp_frame l = 0 \<and> \<not> lp_swap l")
      case True
      obtain u where u: "remove_l_page pid lp ?s = Some u" "sm_inv P u" "\<forall>x. x \<noteq> lp \<longrightarrow> lview e u x = lview e ?s x" using remove_l_page_all [OF U(1) it, of e] by blast
      have su: "u = s'" using u(1) l(2) True by simp
      have "lview e ?s lp = None" using l(1) True unfolding lview_def by (simp only: option.case if_False if_True simp_thms)
      then have n: "lview e s lp = None" by (simp only: U(2))
      have "keeps e s s'" unfolding keeps_def
      proof (intro allI impI)
        fix x bs assume "lview e s x = Some bs"
        moreover have "x \<noteq> lp" using n calculation by auto
        ultimately show "lview e s' x = Some bs" using u(3) su U(2) by simp
      qed
      then show ?thesis using u(2) su by simp
    next
      case False
      then show ?thesis using l(2) U(1,2) by (simp add: keeps_def)
    qed
  qed
qed

lemma alter_pages_ok: "sm_inv P s \<Longrightarrow> lz_ok e \<Longrightarrow> alter_pages e pid om am as s = Some s' \<Longrightarrow> sm_inv P s' \<and> keeps e s s'"
proof (induction as arbitrary: s)
  case Nil
  then show ?case by (simp add: keeps_def)
next
  case (Cons a as)
  obtain t where t: "alter_page e pid om am a s = Some t" "alter_pages e pid om am as t = Some s'" using Cons.prems(3) by (auto split: option.splits)
  have A: "sm_inv P t \<and> keeps e s t" by (rule alter_page_ok [OF Cons.prems(1,2) t(1)])
  then have "sm_inv P s' \<and> keeps e t s'" by (intro Cons.IH [OF _ Cons.prems(2) t(2)]) simp
  then show ?case using A keeps_trans by blast
qed

lemma impl_alter_flags_ok:
  assumes "sm_inv P s" "lz_ok e" "impl_alter_flags e sender task area om am s = Some (n, s')"
  shows "sm_inv P s' \<and> keeps e s s'"
proof -
  have "s' = s \<or> (\<exists>pid as. alter_pages e pid om am as s = Some s')" using assms(3) by (auto simp: impl_alter_flags_def Let_def split: option.splits if_splits)
  then show ?thesis using assms(1,2) alter_pages_ok [OF assms(1,2)] by (auto simp: keeps_def)
qed

end
