(* ===== verification/Sysmem_Steps.thy ===== *)
theory Sysmem_Steps
  imports Sysmem_Give
begin

text \<open>
  New pages in the pager \<^verbatim>\<open>sys/sysmem/sysmem.c\<close>, what every call keeps, as the locale \<open>pager_call\<close>, and the
  states the pager can reach.
\<close>

section \<open>New pages\<close>

lemma pg_swap_cong: "sm_hdrs s' = sm_hdrs s \<Longrightarrow> sm_log s' = sm_log s \<Longrightarrow> sm_active s' = sm_active s \<Longrightarrow> buddy_list s' = buddy_list s \<Longrightarrow> pg_swap L F s' = pg_swap L F s"
  by (simp add: pg_swap_def swapped_to_def)

lemma sm_inv_mem:
  assumes "sm_inv P s" "\<forall>p \<in> P. m p = sm_mem s p" "\<forall>p. length (m p) = PAGE_SIZE"
  shows "sm_inv P (s\<lparr>sm_mem := m\<rparr>)" "lview e (s\<lparr>sm_mem := m\<rparr>) = lview e s"
proof -
  let ?s = "s\<lparr>sm_mem := m\<rparr>"
  have "pg_lists P ?s = pg_lists P s" by (simp add: pg_lists_def head_pages_def)
  then have "pg_inv P {} {} ?s" using assms pg_owners_cong [of ?s s] pg_swap_cong [of ?s s "{}" "{}"] by (simp add: sm_inv_def pg_inv_def)
  moreover have "tr_inv ?s" by (rule tr_inv_same [of s]) (use assms(1) in \<open>simp_all add: sm_inv_def\<close>)
  ultimately show "sm_inv P ?s" by (simp add: sm_inv_def)
  have pg: "pg_inv P {} {} s" using assms(1) by (simp add: sm_inv_def)
  have "m (lp_frame r) = sm_mem s (lp_frame r)" if "sm_log s x = Some r" "\<not> lp_swap r" "lp_frame r \<noteq> 0" for x r
  proof -
    have "pp_owner (sm_phys s (lp_frame r)) = Some x" using pg_invD(2) [OF pg] that by (simp add: pg_owners_def has_frame_def)
    then show ?thesis using owned_page(8) [OF pg] assms(2) by blast
  qed
  then show "lview e ?s = lview e s" by (auto simp: lview_def fun_eq_iff split: option.split)
qed

lemma fresh_owner: "pg_inv P L F s \<Longrightarrow> p \<notin> P \<Longrightarrow> pp_owner (sm_phys s p) = None"
  using owned_page(8) [of P L F s p] by (cases "pp_owner (sm_phys s p)") auto

lemma new_p_page_ok:
  assumes "sm_inv P s" "p \<notin> P"
  shows "sm_inv P (new_p_page p s)" "lview e (new_p_page p s) = lview e s" "in_task (new_p_page p s) = in_task s"
proof -
  have o: "pp_owner (sm_phys s p) = None" using assms fresh_owner unfolding sm_inv_def by blast
  have "pg_inv P {} {} (new_p_page p s) = pg_inv P {} {} s" by (rule pg_inv_cong) (simp_all add: new_p_page_def head_pages_def o)
  moreover have "tr_inv (new_p_page p s)" by (rule tr_inv_same [of s]) (use assms(1) in \<open>simp_all add: sm_inv_def new_p_page_def\<close>)
  ultimately show "sm_inv P (new_p_page p s)" using assms(1) by (simp add: sm_inv_def)
  show "lview e (new_p_page p s) = lview e s" by (rule lview_cong) (simp_all add: new_p_page_def)
  show "in_task (new_p_page p s) = in_task s" by (rule in_task_same) (simp add: new_p_page_def)
qed

lemma add_tail_ok:
  assumes "sm_inv P s" "p \<notin> P" "p \<noteq> 0"
  shows "sm_inv (insert p P) (s\<lparr>sm_free := sm_free s @ [p], num_free_pages := Suc (num_free_pages s), repl_enable := b\<rparr>)" (is "sm_inv _ ?f")
    "sm_inv (insert p P) (s\<lparr>sm_reserved := sm_reserved s @ [p]\<rparr>)" (is "sm_inv _ ?r")
proof -
  have pg: "pg_inv P {} {} s" "tr_inv s" using assms(1) by (simp_all add: sm_inv_def)
  have h: "head_pages ?f = head_pages s" "head_pages ?r = head_pages s" by (simp_all add: head_pages_def)
  have "pg_lists (insert p P) ?f" "pg_lists (insert p P) ?r" using pg_invD(1) [OF pg(1)] assms(2,3) unfolding pg_lists_def h by auto
  then have "pg_inv (insert p P) {} {} ?f" "pg_inv (insert p P) {} {} ?r"
    using pg(1) pg_owners_cong [of ?f s] pg_swap_cong [of ?f s "{}" "{}"] pg_owners_cong [of ?r s] pg_swap_cong [of ?r s "{}" "{}"] by (simp_all add: pg_inv_def)
  moreover have "tr_inv ?f" "tr_inv ?r" by (rule tr_inv_same [OF pg(2)]; simp)+
  ultimately show "sm_inv (insert p P) ?f" "sm_inv (insert p P) ?r" by (simp_all add: sm_inv_def)
qed

lemma add_free_page_ok:
  assumes inv: "sm_inv P s" and p: "p \<noteq> 0" "p \<in> P \<longrightarrow> image e p \<and> first_mem e p"
  shows "sm_inv (if image e p \<and> first_mem e p then P else insert p P) (add_free_page e p s)" "lview e (add_free_page e p s) = lview e s" "in_task (add_free_page e p s) = in_task s"
proof -
  show "sm_inv (if image e p \<and> first_mem e p then P else insert p P) (add_free_page e p s)"
  proof (cases "image e p \<and> first_mem e p")
    case True
    then show ?thesis using inv by (simp add: add_free_page_def)
  next
    case False
    then have np: "p \<notin> P" using p(2) by auto
    note N = add_tail_ok [OF new_p_page_ok(1) [OF inv np] np p(1)]
    have s: "sm_free (new_p_page p s) = sm_free s" "sm_reserved (new_p_page p s) = sm_reserved s" "num_free_pages (new_p_page p s) = num_free_pages s" by (simp_all add: new_p_page_def)
    show ?thesis using False N [unfolded s] by (simp add: add_free_page_def)
  qed
  show "lview e (add_free_page e p s) = lview e s" by (rule lview_cong) (simp_all add: add_free_page_def new_p_page_def)
  show "in_task (add_free_page e p s) = in_task s" by (rule in_task_same) (simp add: add_free_page_def new_p_page_def)
qed

lemma frame_aligned: "(of_nat (PAGE_SIZE * p) :: u32) AND 0xfff = 0"
proof -
  have "(of_nat (PAGE_SIZE * p) :: u32) = push_bit 12 (of_nat p)" by (simp add: push_bit_eq_mult mult.commute)
  moreover have "(0xfff :: u32) = mask 12" by (simp add: mask_eq_exp_minus_1)
  ultimately show ?thesis by (simp add: bit_eq_iff bit_simps)
qed

lemma add_task_page_ok:
  assumes inv: "sm_inv P s" and lz: "lz_ok e" and p: "p \<notin> P" "p \<noteq> 0" and r: "add_task_page e pid p s = Some s'"
  shows "sm_inv (insert p P) s' \<and> keeps e s s' \<and> (\<forall>q b x. in_task s q b x \<longrightarrow> in_task s' q b x)"
proof -
  let ?a = "of_nat (PAGE_SIZE * p) :: u32"
  obtain lp s1 where s1: "new_lpage e pid \<lparr>l_addr = ?a, lp_frame = p, lp_swap = False, lp_flags = 0\<rparr> s = Some (lp, s1)"
    "s' = upd_systask pid (\<lambda>t. t\<lparr>t_min_fault := min (t_min_fault t) (?a AND NOT 0xfff), t_brk := max (t_brk t) (?a OR 0xfff)\<rparr>)
            (upd_phys p (\<lambda>q. q\<lparr>pp_owner := Some lp, pp_age := 1\<rparr>) (s1\<lparr>sm_active := sm_active s1 @ [p]\<rparr>))"
    using r by (auto simp: add_task_page_def Let_def split: option.splits)
  let ?r = "\<lparr>l_addr = ?a, lp_frame = 0, lp_swap = False, lp_flags = 0\<rparr>"
  obtain s0 where s0: "new_lpage e pid ?r s = Some (lp, s0)" "s1 = s0\<lparr>sm_log := (sm_log s0)(lp \<mapsto> ?r\<lparr>lp_frame := p\<rparr>)\<rparr>"
    using s1(1) by (auto simp: new_lpage_def upd_systask_def split: option.splits)
  note N = new_lpage_ok [OF inv lz s0(1), simplified, OF frame_aligned [simplified]]
  have pg: "pg_inv P {} {} s0" "tr_inv s0" using N(1) by (simp_all add: sm_inv_def)
  have e0: "s0\<lparr>buddy_list := buddy_list s0, sm_mem := (sm_mem s0)(p := sm_mem s0 p)\<rparr> = s0" by simp
  have c: "{} \<subseteq> {lp}" "if lp \<in> {} then lp_swap ?r else \<not> lp_swap ?r \<and> lp_frame ?r = 0" "set (buddy_list s0) = half s0" "distinct (buddy_list s0)"
    "length (sm_mem s0 p) = PAGE_SIZE" "sm_log s0 lp = Some ?r" using half_buddies [OF pg(1)] pg_invD(4) [OF pg(1)] N(2) by simp_all
  note V = give_page_ok [OF pg(1) c(1) p c(6,2-5), unfolded e0]
  let ?g = "give_page lp p s0"
  have g: "sm_log ?g = (sm_log s0)(lp \<mapsto> ?r\<lparr>lp_frame := p\<rparr>)" using c(6) by simp
  have "tr_inv ?g" by (rule tr_inv_same [OF pg(2)]) (auto simp: c(6))
  then have gi: "sm_inv (insert p P) ?g" using V(1) by (simp add: sm_inv_def)
  have se: "s' = upd_systask pid (\<lambda>t. t\<lparr>t_min_fault := min (t_min_fault t) (?a AND NOT 0xfff), t_brk := max (t_brk t) (?a OR 0xfff)\<rparr>) (upd_phys p (\<lambda>q. q\<lparr>pp_age := 1\<rparr>) ?g)"
    unfolding s1(2) s0(2) using c(6) by (simp add: give_page_def upd_log_def upd_phys_def upd_systask_def)
  have ti: "tr_inv (upd_phys p (\<lambda>q. q\<lparr>pp_age := 1\<rparr>) ?g)" by (rule tr_inv_same [of ?g]) (use gi in \<open>simp_all add: sm_inv_def\<close>)
  have "sm_inv (insert p P) (upd_phys p (\<lambda>q. q\<lparr>pp_age := 1\<rparr>) ?g)" using gi ti pg_inv_phys(1) [of "\<lambda>q. q\<lparr>pp_age := 1\<rparr>"] by (simp add: sm_inv_def)
  then have i: "sm_inv (insert p P) s'" unfolding se by (subst sm_inv_upd) simp_all
  have "lview e s lp = None" using N(5) by (simp add: lview_def)
  moreover have "lview e s' x = lview e s x" if "x \<noteq> lp" for x
  proof -
    have "lview e s' = lview e ?g" unfolding se lview_tasks by (rule lview_cong) simp_all
    then show ?thesis using V(3) [OF that, of e] N(3) by simp
  qed
  ultimately have k: "keeps e s s'" unfolding keeps_def by (metis option.distinct(1))
  have "in_task s' = in_task s0" unfolding se by (simp add: fun_eq_iff) (simp add: in_task_def)
  then show ?thesis using i k N(4) by simp
qed

definition grant_ok :: "sm_env \<Rightarrow> nat set \<Rightarrow> nat option \<Rightarrow> nat list \<Rightarrow> bool" where
  "grant_ok e P dest ps \<longleftrightarrow> distinct ps \<and> (\<forall>p \<in> set ps. p \<noteq> 0 \<and> (p \<in> P \<longrightarrow> dest = None \<and> image e p \<and> first_mem e p))"

definition granted :: "sm_env \<Rightarrow> nat option \<Rightarrow> nat list \<Rightarrow> nat set \<Rightarrow> nat set" where
  "granted e dest ps P = P \<union> {p \<in> set ps. \<not> (dest = None \<and> image e p \<and> first_mem e p)}"

lemma send_pages_ok:
  assumes "sm_inv P s" "lz_ok e" "grant_ok e P dest ps" "send_pages e dest ps s = Some s'"
  shows "sm_inv (granted e dest ps P) s' \<and> keeps e s s' \<and> (\<forall>q b x. in_task s q b x \<longrightarrow> in_task s' q b x)"
  using assms
proof (induction ps arbitrary: s P)
  case Nil
  then show ?case by (simp add: granted_def keeps_def)
next
  case (Cons p ps)
  obtain s1 s2 where s: "alloc e P_PAGE s = Some s1" "(case dest of None \<Rightarrow> Some (add_free_page e p s1) | Some pid \<Rightarrow> add_task_page e pid p (new_p_page p s1)) = Some s2"
    "send_pages e dest ps s2 = Some s'" using Cons.prems(4) by (auto split: option.splits)
  note A = alloc_ok [OF Cons.prems(1,2) s(1)]
  have p: "p \<noteq> 0" "p \<in> P \<longrightarrow> dest = None \<and> image e p \<and> first_mem e p" "distinct (p # ps)" using Cons.prems(3) by (simp_all add: grant_ok_def)
  have k1: "keeps e s s1" "in_task s1 = in_task s" using A(2) in_task_same [of s1 s] by (simp_all add: paged_def keeps_def)
  have S: "sm_inv (granted e dest [p] P) s2 \<and> keeps e s1 s2 \<and> (\<forall>q b x. in_task s1 q b x \<longrightarrow> in_task s2 q b x)"
  proof (cases dest)
    case None
    have g: "granted e dest [p] P = (if image e p \<and> first_mem e p then P else insert p P)" using None by (auto simp: granted_def)
    have "s2 = add_free_page e p s1" using s(2) None by simp
    then show ?thesis unfolding g using add_free_page_ok [OF A(1) p(1), of e] p(2) by (auto simp: keeps_def)
  next
    case (Some pid)
    have g: "granted e dest [p] P = insert p P" "p \<notin> P" using Some p(2) by (auto simp: granted_def)
    note N = new_p_page_ok [OF A(1) g(2)]
    have "add_task_page e pid p (new_p_page p s1) = Some s2" using s(2) Some by simp
    from add_task_page_ok [OF N(1) Cons.prems(2) g(2) p(1) this] show ?thesis unfolding g(1) using N(2,3) by (simp add: keeps_def)
  qed
  have "grant_ok e (granted e dest [p] P) dest ps" using Cons.prems(3) p(3) unfolding grant_ok_def granted_def by auto
  then have R: "sm_inv (granted e dest ps (granted e dest [p] P)) s' \<and> keeps e s2 s' \<and> (\<forall>q b x. in_task s2 q b x \<longrightarrow> in_task s' q b x)"
    using Cons.IH [OF _ Cons.prems(2) _ s(3)] S by blast
  have "granted e dest ps (granted e dest [p] P) = granted e dest (p # ps) P" by (auto simp: granted_def)
  then show ?case using R S k1 keeps_trans by metis
qed

end
