(* ===== verification/Sysmem_Reach.thy ===== *)
theory Sysmem_Reach
  imports Sysmem_Steps
begin

text \<open>
  Every call of the pager \<^verbatim>\<open>sys/sysmem/sysmem.c\<close> under one contract, the locale \<open>pager_call\<close>, and the states the
  pager can reach.
\<close>

text \<open>Logical pages that belong to no task any more.\<close>

definition lost :: "sysmem \<Rightarrow> sysmem \<Rightarrow> nat set" where
  "lost s s' = {x. (\<exists>q a. in_task s q a x) \<and> \<not> (\<exists>q a. in_task s' q a x)}"

locale pager_call =
  fixes call :: "sm_env \<Rightarrow> sysmem \<Rightarrow> ('r \<times> sysmem) option" and pre :: "sm_env \<Rightarrow> nat set \<Rightarrow> bool" and gain :: "sm_env \<Rightarrow> nat set \<Rightarrow> nat set"
  assumes keeps_inv: "sm_inv P s \<Longrightarrow> lz_ok e \<Longrightarrow> pre e P \<Longrightarrow> call e s = Some (r, s') \<Longrightarrow> sm_inv (gain e P) s'"
    and keeps_views: "sm_inv P s \<Longrightarrow> lz_ok e \<Longrightarrow> pre e P \<Longrightarrow> call e s = Some (r, s') \<Longrightarrow> keeps_except (lost s s') e s s'"
begin

lemma keeps_contents:
  assumes "sm_inv P s" "lz_ok e" "pre e P" "call e s = Some (r, s')" "lview e s lp = Some bs" "in_task s' q a lp"
  shows "lview e s' lp = Some bs"
  using keeps_views [OF assms(1-4)] assms(5,6) by (auto simp: keeps_except_def lost_def)

lemma keeps_frames:
  assumes "sm_inv P s" "lz_ok e" "pre e P" "call e s = Some (r, s')" "has_frame s' x p" "has_frame s' y p"
  shows "x = y"
proof -
  have "pg_owners s'" using keeps_inv [OF assms(1-4)] by (simp add: sm_inv_def pg_inv_def)
  then have "pp_owner (sm_phys s' p) = Some x" "pp_owner (sm_phys s' p) = Some y" using assms(5,6) unfolding pg_owners_def by blast+
  then show ?thesis by simp
qed

end

definition unit_call :: "sysmem option \<Rightarrow> (unit \<times> sysmem) option" where
  "unit_call o1 = map_option (Pair ()) o1"

lemma unit_call_Some [simp]: "unit_call o1 = Some (r, s) \<longleftrightarrow> o1 = Some s" by (auto simp: unit_call_def)

interpretation sm_pf_call: pager_call "\<lambda>e. handle_pf e pid a" "\<lambda>_ _. True" "\<lambda>_ P. P" for pid a
  by unfold_locales (use handle_pf_ok keeps_except_keeps in blast)+

lemma own_page: "sm_inv P s \<Longrightarrow> in_task s q a x \<Longrightarrow> in_task s q' a' x \<Longrightarrow> q' = q \<and> a' = a"
  using in_task_log [of P s q a x] in_task_log [of P s q' a' x] unfolding sm_inv_def tr_inv_def by fastforce

lemma view_in_task: "sm_inv P s \<Longrightarrow> lview e s x = Some bs \<Longrightarrow> \<exists>q a. in_task s q a x"
  unfolding sm_inv_def tr_inv_def by (cases "sm_log s x") (simp add: lview_def, blast)

interpretation sm_rm_call: pager_call "\<lambda>_ s. unit_call (impl_rm_task pid s)" "\<lambda>_ _. True" "\<lambda>_ P. P" for pid
proof unfold_locales
  fix P s e r s' assume A: "sm_inv P s" "unit_call (impl_rm_task pid s) = Some (r :: unit, s')"
  have "sm_inv P s' \<and> keeps_except (lost s s') e s s'"
  proof (rule impl_rm_task_ok [OF A(1), of pid e])
    fix u assume u: "impl_rm_task pid s = Some u" "sm_inv P u" "\<And>x. find_task pid s = None \<or> \<not> (\<exists>a. in_task s pid a x) \<Longrightarrow> lview e u x = lview e s x"
      "find_task pid u = None" "\<And>q b x. in_task u q b x \<longleftrightarrow> in_task s q b x \<and> (find_task pid s = None \<or> q \<noteq> pid)"
    have su: "s' = u" using A(2) u(1) by simp
    have "lview e u x = lview e s x" if "x \<notin> lost s u" for x
    proof (rule u(3), rule ccontr)
      assume "\<not> (find_task pid s = None \<or> \<not> (\<exists>a. in_task s pid a x))"
      then obtain a where a: "find_task pid s \<noteq> None" "in_task s pid a x" by blast
      have "\<not> in_task u q b x" for q b
      proof
        assume "in_task u q b x"
        then have "in_task s q b x" "q \<noteq> pid" using u(5) a(1) by simp_all
        then show False using own_page [OF A(1) a(2)] by blast
      qed
      then show False using a(2) that by (auto simp: lost_def)
    qed
    then have "keeps_except (lost s u) e s u" by (rule keeps_exceptI)
    then show ?thesis using u(2) su by simp
  qed
  then show "sm_inv P s'" "keeps_except (lost s s') e s s'" by simp_all
qed

interpretation sm_virt_call: pager_call "\<lambda>e. impl_send_virt e src a dest b" "\<lambda>_ _. True" "\<lambda>_ P. P" for src a dest b
proof unfold_locales
  fix P s e r s' assume A: "sm_inv P s" "lz_ok e" "impl_send_virt e src a dest b s = Some (r, s')"
  show "sm_inv P s'" using impl_send_virt_ok [OF A] by blast
  have "keeps_except {x. \<exists>q c. in_task s q c x \<and> \<not> (\<exists>q c. in_task s' q c x)} e s s'" using impl_send_virt_ok [OF A] by blast
  moreover have "{x. \<exists>q c. in_task s q c x \<and> \<not> (\<exists>q c. in_task s' q c x)} = lost s s'" by (auto simp: lost_def)
  ultimately show "keeps_except (lost s s') e s s'" by simp
qed

interpretation sm_brk_call: pager_call "\<lambda>e s. unit_call (impl_brk e pid a s)" "\<lambda>_ _. True" "\<lambda>_ P. P" for pid a
proof unfold_locales
  fix P s e r s' assume A: "sm_inv P s" "lz_ok e" "unit_call (impl_brk e pid a s) = Some (r :: unit, s')"
  have B: "sm_inv P s' \<and> (\<forall>q b x. in_task s' q b x \<longrightarrow> in_task s q b x) \<and> (\<forall>q b x. q \<noteq> pid \<longrightarrow> in_task s q b x \<longrightarrow> in_task s' q b x)
    \<and> keeps_except {x. \<exists>b. in_task s pid b x \<and> \<not> in_task s' pid b x} e s s'" using impl_brk_ok [OF A(1,2)] A(3) by simp
  then show "sm_inv P s'" by blast
  have "{x. \<exists>b. in_task s pid b x \<and> \<not> in_task s' pid b x} \<subseteq> lost s s'"
  proof
    fix x assume "x \<in> {x. \<exists>b. in_task s pid b x \<and> \<not> in_task s' pid b x}"
    then obtain b where b: "in_task s pid b x" "\<not> in_task s' pid b x" by blast
    then have "\<not> in_task s' q c x" for q c using B own_page [OF A(1) b(1)] by blast
    then show "x \<in> lost s s'" using b(1) by (auto simp: lost_def)
  qed
  then show "keeps_except (lost s s') e s s'" using B unfolding keeps_except_def by blast
qed

interpretation sm_areas_call: pager_call "\<lambda>_ s. Some (impl_set_kernel_areas pid utcb kip s)" "\<lambda>_ _. True" "\<lambda>_ P. P" for pid utcb kip
proof unfold_locales
  fix P s e r s' assume A: "sm_inv P s" "Some (impl_set_kernel_areas pid utcb kip s) = Some (r, s')"
  have "s' = s \<or> s' = upd_systask pid (\<lambda>t. t\<lparr>t_utcb_area := utcb, t_kip_area := kip\<rparr>) s" using A(2) by (auto simp: impl_set_kernel_areas_def split: option.splits if_splits)
  then have "sm_inv P s' \<and> lview e s' = lview e s" using A(1) sm_inv_upd [of "\<lambda>t. t\<lparr>t_utcb_area := utcb, t_kip_area := kip\<rparr>"] by auto
  then show "sm_inv P s'" "keeps_except (lost s s') e s s'" by (simp_all add: keeps_except_def)
qed

interpretation sm_alter_call: pager_call "\<lambda>e. impl_alter_flags e sender task area om am" "\<lambda>_ _. True" "\<lambda>_ P. P" for sender task area om am
  by unfold_locales (use impl_alter_flags_ok keeps_except_keeps in blast)+

lemma interim_faults_ok: "sm_inv P s \<Longrightarrow> lz_ok e \<Longrightarrow> interim_faults e pid as s = Some s' \<Longrightarrow> sm_inv P s' \<and> keeps e s s'"
proof (induction as arbitrary: s)
  case Nil
  then show ?case by (simp add: keeps_def)
next
  case (Cons a as)
  obtain res t where t: "handle_pf e pid a s = Some (res, t)" "interim_faults e pid as t = Some s'" using Cons.prems(3) by (auto split: option.splits sm_result.splits)
  have "sm_inv P t \<and> keeps e s t" using handle_pf_ok [OF Cons.prems(1,2) t(1)] by blast
  moreover have "sm_inv P s' \<and> keeps e t s'" if "sm_inv P t" by (rule Cons.IH [OF that Cons.prems(2) t(2)])
  ultimately show ?case using keeps_trans by blast
qed

definition phys_pages :: "nat \<Rightarrow> nat \<Rightarrow> nat list" where "phys_pages frame_num size_log2 = [frame_num ..< frame_num + 2 ^ (size_log2 - 12)]"

lemma impl_send_phys_ok:
  assumes inv: "sm_inv P s" and lz: "lz_ok e" and g: "grant_ok e P dest (phys_pages f n)" "\<forall>p. length (cont p) = PAGE_SIZE"
    and r: "impl_send_phys e sender faults received cont dest f n s = Some s'"
  shows "sm_inv (if received \<and> \<not> (\<exists>pid. dest = Some pid \<and> pid < 50000) then granted e dest (phys_pages f n) P else P) s' \<and> keeps e s s'"
proof (cases "\<exists>pid. dest = Some pid \<and> pid < 50000")
  case True
  then show ?thesis using r inv by (auto simp: impl_send_phys_def keeps_def)
next
  case False
  obtain s1 s2 where s: "(case dest of None \<Rightarrow> Some s | Some pid \<Rightarrow> map_option snd (get_task e pid s)) = Some s1" "interim_faults e sender faults s1 = Some s2"
    "if received then send_pages e dest (phys_pages f n) (s2\<lparr>sm_mem := (\<lambda>p. if p \<in> set (phys_pages f n) \<and> \<not> first_mem e p then cont p else sm_mem s2 p)\<rparr>) = Some s' else s' = s2"
    using r False by (auto simp: impl_send_phys_def phys_pages_def Let_def split: option.splits if_splits)
  have 1: "sm_inv P s1 \<and> keeps e s s1"
  proof (cases dest)
    case None
    then show ?thesis using s(1) inv by (simp add: keeps_def)
  next
    case (Some pid)
    then obtain t where "get_task e pid s = Some (t, s1)" using s(1) by auto
    from get_task_ok(1,3) [OF inv lz this] show ?thesis by (simp add: keeps_def)
  qed
  have 2: "sm_inv P s2 \<and> keeps e s1 s2" using interim_faults_ok [OF _ lz s(2)] 1 by blast
  show ?thesis
  proof (cases received)
    case rec: True
    let ?m = "\<lambda>p. if p \<in> set (phys_pages f n) \<and> \<not> first_mem e p then cont p else sm_mem s2 p"
    have "\<forall>p. length (?m p) = PAGE_SIZE" using g(2) 2 by (simp add: sm_inv_def pg_inv_def)
    moreover have "\<forall>p \<in> P. ?m p = sm_mem s2 p" using g(1) by (auto simp: grant_ok_def)
    ultimately have M: "sm_inv P (s2\<lparr>sm_mem := ?m\<rparr>)" "lview e (s2\<lparr>sm_mem := ?m\<rparr>) = lview e s2" using sm_inv_mem [of P s2 ?m] 2 by blast+
    have "send_pages e dest (phys_pages f n) (s2\<lparr>sm_mem := ?m\<rparr>) = Some s'" using s(3) rec by simp
    from send_pages_ok [OF M(1) lz g(1) this] have "sm_inv (granted e dest (phys_pages f n) P) s' \<and> keeps e s2 s'" using M(2) by (simp add: keeps_def)
    then show ?thesis using keeps_trans [of e s s1 s2] keeps_trans [of e s s2 s'] 1 2 rec \<open>\<not> (\<exists>pid. dest = Some pid \<and> pid < 50000)\<close> by simp
  next
    case False
    then show ?thesis using 1 2 s(3) keeps_trans by auto
  qed
qed

interpretation sm_phys_call: pager_call "\<lambda>e s. unit_call (impl_send_phys e sender faults received cont dest f n s)" "\<lambda>e P. grant_ok e P dest (phys_pages f n) \<and> (\<forall>p. length (cont p) = PAGE_SIZE)"
  "\<lambda>e P. if received \<and> \<not> (\<exists>pid. dest = Some pid \<and> pid < 50000) then granted e dest (phys_pages f n) P else P" for sender faults received cont dest f n
proof unfold_locales
  fix P s e r s' assume A: "sm_inv P s" "lz_ok e" "grant_ok e P dest (phys_pages f n) \<and> (\<forall>p. length (cont p) = PAGE_SIZE)"
    "unit_call (impl_send_phys e sender faults received cont dest f n s) = Some (r :: unit, s')"
  have "sm_inv (if received \<and> \<not> (\<exists>pid. dest = Some pid \<and> pid < 50000) then granted e dest (phys_pages f n) P else P) s' \<and> keeps e s s'"
    using A by (intro impl_send_phys_ok [OF A(1,2)]) simp_all
  then show "sm_inv (if received \<and> \<not> (\<exists>pid. dest = Some pid \<and> pid < 50000) then granted e dest (phys_pages f n) P else P) s'" "keeps_except (lost s s') e s s'"
    using keeps_except_keeps by blast+
qed

section \<open>Reachable states\<close>

datatype sm_call =
  Fault nat u32
| RmTask nat
| SendPhys nat "u32 list" bool "nat \<Rightarrow> u8 list" "nat option" nat nat
| SendVirt nat u32 "nat option" u32
| Brk nat u32
| SetKernelAreas nat fpage fpage
| AlterFlags nat "nat option" fpage u32 u32

fun sm_do :: "sm_env \<Rightarrow> sm_call \<Rightarrow> sysmem \<Rightarrow> sysmem option" where
  "sm_do e (Fault pid a) s = map_option snd (handle_pf e pid a s)"
| "sm_do e (RmTask pid) s = impl_rm_task pid s"
| "sm_do e (SendPhys sender faults received cont dest f n) s = impl_send_phys e sender faults received cont dest f n s"
| "sm_do e (SendVirt src a dest b) s = map_option snd (impl_send_virt e src a dest b s)"
| "sm_do e (Brk pid a) s = impl_brk e pid a s"
| "sm_do e (SetKernelAreas pid utcb kip) s = Some (snd (impl_set_kernel_areas pid utcb kip s))"
| "sm_do e (AlterFlags sender task area om am) s = map_option snd (impl_alter_flags e sender task area om am s)"

text \<open>What the kernel ensures: pages that are granted are new, but for those of \<^verbatim>\<open>first_mem\<close>.\<close>

fun sm_pre :: "sm_env \<Rightarrow> nat set \<Rightarrow> sm_call \<Rightarrow> bool" where
  "sm_pre e P (SendPhys sender faults received cont dest f n) \<longleftrightarrow> grant_ok e P dest (phys_pages f n) \<and> (\<forall>p. length (cont p) = PAGE_SIZE)"
| "sm_pre e P _ \<longleftrightarrow> True"

fun sm_gain :: "sm_env \<Rightarrow> sm_call \<Rightarrow> nat set \<Rightarrow> nat set" where
  "sm_gain e (SendPhys sender faults received cont dest f n) P = (if received \<and> \<not> (\<exists>pid. dest = Some pid \<and> pid < 50000) then granted e dest (phys_pages f n) P else P)"
| "sm_gain e _ P = P"

text \<open>Tasks write to pages that are mapped to them.\<close>

inductive sm_reach :: "sm_env \<Rightarrow> nat set \<Rightarrow> sysmem \<Rightarrow> bool" for e where
  sm_reach_start: "distinct ps \<Longrightarrow> 0 \<notin> set ps \<Longrightarrow> \<forall>p. length (cont p) = PAGE_SIZE \<Longrightarrow> sm_reach e (set ps) (sm_start ps cont)"
| sm_reach_call: "sm_reach e P s \<Longrightarrow> sm_pre e P c \<Longrightarrow> sm_do e c s = Some s' \<Longrightarrow> sm_reach e (sm_gain e c P) s'"
| sm_reach_write: "sm_reach e P s \<Longrightarrow> has_frame s lp p \<Longrightarrow> length bs = PAGE_SIZE \<Longrightarrow> sm_reach e P (s\<lparr>sm_mem := (sm_mem s)(p := bs)\<rparr>)"

lemma sm_inv_start: "distinct ps \<Longrightarrow> 0 \<notin> set ps \<Longrightarrow> \<forall>p. length (cont p) = PAGE_SIZE \<Longrightarrow> sm_inv (set ps) (sm_start ps cont)"
  by (simp add: sm_inv_def pg_inv_def pg_lists_def pg_owners_def pg_swap_def tr_inv_def has_frame_def swapped_to_def head_pages_def in_task_def sm_start_def)

lemma sm_do_ok:
  assumes "sm_inv P s" "lz_ok e" "sm_pre e P c" "sm_do e c s = Some s'"
  shows "sm_inv (sm_gain e c P) s'" "keeps_except (lost s s') e s s'"
proof -
  have "sm_inv (sm_gain e c P) s' \<and> keeps_except (lost s s') e s s'"
  proof (cases c)
    case (Fault pid a)
    then obtain r where "handle_pf e pid a s = Some (r, s')" using assms(4) by auto
    then show ?thesis using Fault sm_pf_call.keeps_inv [OF assms(1,2)] sm_pf_call.keeps_views [OF assms(1,2)] by simp
  next
    case (RmTask pid)
    then show ?thesis using assms(4) sm_rm_call.keeps_inv [OF assms(1,2)] sm_rm_call.keeps_views [OF assms(1,2)] by simp
  next
    case (SendPhys sender faults received cont dest f n)
    then have "grant_ok e P dest (phys_pages f n) \<and> (\<forall>p. length (cont p) = PAGE_SIZE)" "unit_call (impl_send_phys e sender faults received cont dest f n s) = Some ((), s')" using assms(3,4) by simp_all
    from sm_phys_call.keeps_inv [OF assms(1,2) this] sm_phys_call.keeps_views [OF assms(1,2) this] show ?thesis using SendPhys by simp
  next
    case (SendVirt src a dest b)
    then obtain r where "impl_send_virt e src a dest b s = Some (r, s')" using assms(4) by auto
    then show ?thesis using SendVirt sm_virt_call.keeps_inv [OF assms(1,2)] sm_virt_call.keeps_views [OF assms(1,2)] by simp
  next
    case (Brk pid a)
    then show ?thesis using assms(4) sm_brk_call.keeps_inv [OF assms(1,2)] sm_brk_call.keeps_views [OF assms(1,2)] by simp
  next
    case (SetKernelAreas pid utcb kip)
    then obtain r where "Some (impl_set_kernel_areas pid utcb kip s) = Some (r, s')" using assms(4) by (cases "impl_set_kernel_areas pid utcb kip s") simp
    then show ?thesis using SetKernelAreas sm_areas_call.keeps_inv [OF assms(1,2)] sm_areas_call.keeps_views [OF assms(1,2)] by simp
  next
    case (AlterFlags sender task area om am)
    then obtain r where "impl_alter_flags e sender task area om am s = Some (r, s')" using assms(4) by auto
    then show ?thesis using AlterFlags sm_alter_call.keeps_inv [OF assms(1,2)] sm_alter_call.keeps_views [OF assms(1,2)] by simp
  qed
  then show "sm_inv (sm_gain e c P) s'" "keeps_except (lost s s') e s s'" by simp_all
qed

lemma write_ok:
  assumes "sm_inv P s" "has_frame s lp p" "length bs = PAGE_SIZE"
  shows "sm_inv P (s\<lparr>sm_mem := (sm_mem s)(p := bs)\<rparr>)" "x \<noteq> lp \<Longrightarrow> lview e (s\<lparr>sm_mem := (sm_mem s)(p := bs)\<rparr>) x = lview e s x"
proof -
  let ?s = "s\<lparr>sm_mem := (sm_mem s)(p := bs)\<rparr>"
  have pg: "pg_inv P {} {} s" "tr_inv s" using assms(1) by (simp_all add: sm_inv_def)
  have "pg_lists P ?s = pg_lists P s" by (simp add: pg_lists_def head_pages_def)
  then have "pg_inv P {} {} ?s" using pg(1) assms(3) pg_owners_cong [of ?s s] pg_swap_cong [of ?s s "{}" "{}"] by (simp add: pg_inv_def)
  moreover have "tr_inv ?s" by (rule tr_inv_same [OF pg(2)]) simp_all
  ultimately show "sm_inv P ?s" by (simp add: sm_inv_def)
  have o: "pp_owner (sm_phys s p) = Some lp" using pg_invD(2) [OF pg(1)] assms(2) unfolding pg_owners_def by blast
  have "lp_frame r \<noteq> p" if "sm_log s x = Some r" "\<not> lp_swap r" "x \<noteq> lp" for x r
  proof
    assume "lp_frame r = p"
    then have "has_frame s x p" using that assms(2) by (auto simp: has_frame_def)
    then have "pp_owner (sm_phys s p) = Some x" using pg_invD(2) [OF pg(1)] unfolding pg_owners_def by blast
    then show False using o that(3) by simp
  qed
  then show "lview e ?s x = lview e s x" if "x \<noteq> lp" using that by (auto simp: lview_def split: option.split)
qed

lemma sm_reach_inv: "sm_reach e P s \<Longrightarrow> lz_ok e \<Longrightarrow> sm_inv P s"
  by (induction rule: sm_reach.induct) (use sm_inv_start sm_do_ok(1) write_ok(1) in blast)+

end
