(* ===== verification/Sysmem_Props.thy ===== *)
theory Sysmem_Props
  imports Sysmem_Reach
begin

text \<open>
  What tasks may rely on of the pager \<^verbatim>\<open>sys/sysmem/sysmem.c\<close>, and where it fails them.  The first section has states
  for the witnesses.
\<close>

section \<open>Reachable states for the witnesses\<close>

definition zero_page :: "u8 list" where "zero_page = replicate PAGE_SIZE 0"

definition demo_env :: sm_env where
  "demo_env = \<lparr>accessed = (\<lambda>_ _. 0), lz_compress = (\<lambda>bs. if bs = zero_page then [0] else bs), lz_decompress = (\<lambda>bs. if bs = [0] then zero_page else bs),
     image = (\<lambda>_. False), first_mem = (\<lambda>_. False)\<rparr>"

lemma demo_lz: "lz_ok demo_env" by (auto simp: lz_ok_def demo_env_def zero_page_def)

definition demo_start :: sysmem where "demo_start = sm_start [1, 2, 3, 4, 5] (\<lambda>_. zero_page)"

lemma demo_start_reach: "sm_reach demo_env {1, 2, 3, 4, 5} demo_start"
  using sm_reach_start [of "[1, 2, 3, 4, 5]" "\<lambda>_. zero_page" demo_env] by (simp add: demo_start_def zero_page_def)

definition demo_task :: systask where
  "demo_task = \<lparr>t_mem = RB_NODE RB_BLACK RB_NULL (0x5000, 0) RB_NULL, t_brk = 0x10000, t_min_fault = 0x5000, t_utcb_area = Nilpage, t_kip_area = Nilpage\<rparr>"

definition demo_state :: sysmem where
  "demo_state = demo_start\<lparr>sm_free := [4, 5], sm_active := [3], num_free_pages := 2,
     sm_heads := (sm_heads demo_start)(SYSTASK := \<lparr>ah_pages = [1], ah_next = 40, ah_trash = 0\<rparr>, L_PAGE := \<lparr>ah_pages = [2], ah_next = 28, ah_trash = 0\<rparr>),
     sm_tasks := (sm_tasks demo_start)(50000 \<mapsto> demo_task),
     sm_phys := (sm_phys demo_start)(1 := \<lparr>pp_incompressible = False, pp_owner = None, pp_age = 1\<rparr>, 2 := \<lparr>pp_incompressible = False, pp_owner = None, pp_age = 1\<rparr>,
       3 := \<lparr>pp_incompressible = False, pp_owner = Some 0, pp_age = 1\<rparr>),
     sm_log := (sm_log demo_start)(0 \<mapsto> \<lparr>l_addr = 0x5000, lp_frame = 3, lp_swap = False, lp_flags = 0\<rparr>), sm_next := 1\<rparr>"

lemmas demo_simps = sm_start_def demo_start_def demo_task_def Let_def get_task_def find_task_def alloc_def alloc_get_ram_def get_free_page_def get_lpage_def
  new_lpage_def give_page_def pf_reply_def pf_page_def upd_phys_def upd_log_def upd_systask_def

lemma demo_fault: "handle_pf demo_env 50000 0x5004 demo_start = Some (SM_MAP 3 0x5000, demo_state)"
  by (simp add: handle_pf_def demo_simps put_lpage_def rb_insert_at_def demo_state_def fun_eq_iff)

lemma demo_state_reach: "sm_reach demo_env {1, 2, 3, 4, 5} demo_state"
  using sm_reach_call [OF demo_start_reach, of "Fault 50000 0x5004" demo_state] demo_fault by simp

lemma demo_state_sel [simp]:
  "sm_log demo_state 0 = Some \<lparr>l_addr = 0x5000, lp_frame = 3, lp_swap = False, lp_flags = 0\<rparr>" "sm_tasks demo_state 50000 = Some demo_task"
  "in_task demo_state q a lp \<longleftrightarrow> q = 50000 \<and> a = 0x5000 \<and> lp = 0" "lview e demo_state 0 = Some zero_page"
  by (auto simp: demo_state_def demo_start_def sm_start_def in_task_def demo_task_def lview_def)

lemma demo_fault_again: "handle_pf demo_env 50000 0x5008 demo_state = Some (SM_MAP 3 0x5000, demo_state)"
  by (simp add: handle_pf_def demo_simps put_lpage_def rb_insert_at_def demo_state_def fun_eq_iff pf_page_def)

definition demo_sent :: sysmem where
  "demo_sent = demo_state\<lparr>sm_heads := (sm_heads demo_state)(SYSTASK := \<lparr>ah_pages = [1], ah_next = 76, ah_trash = 0\<rparr>),
     sm_tasks := (sm_tasks demo_state)(50000 \<mapsto> demo_task\<lparr>t_mem := RB_NULL\<rparr>,
       50001 \<mapsto> \<lparr>t_mem = RB_NODE RB_BLACK RB_NULL (0x7000, 0) RB_NULL, t_brk = 0x10000, t_min_fault = 0x7000, t_utcb_area = Nilpage, t_kip_area = Nilpage\<rparr>),
     sm_log := (sm_log demo_state)(0 \<mapsto> \<lparr>l_addr = 0x7000, lp_frame = 3, lp_swap = False, lp_flags = 0\<rparr>)\<rparr>"

lemma demo_send: "impl_send_virt demo_env 50000 0x5000 (Some 50001) 0x7000 demo_state = Some (0, demo_sent)"
  by (simp add: impl_send_virt_def move_lpage_def unlink_lpage_def rb_erase_def demo_simps put_lpage_def rb_insert_at_def demo_state_def demo_sent_def fun_eq_iff rb_erase_at_def max_def min_def)

lemma demo_sent_sel [simp]: "in_task demo_sent q a lp \<longleftrightarrow> q = 50001 \<and> a = 0x7000 \<and> lp = 0"
  by (auto simp: demo_sent_def in_task_def demo_state_def demo_start_def sm_start_def demo_task_def)

section \<open>Memory of tasks\<close>

text \<open>
  C20. Paging is transparent.  In every reachable state of the pager no call changes the contents of a
  page of memory that stays with a task, wherever it was and is: in a page of its own, or compressed alone or
  with another page.
\<close>

theorem sysmem_contents_kept:
  assumes "sm_reach e P s" "lz_ok e" "sm_pre e P c" "sm_do e c s = Some s'" "lview e s lp = Some bs" "in_task s' q a lp"
  shows "lview e s' lp = Some bs"
  using sm_do_ok(2) [OF sm_reach_inv [OF assms(1,2)] assms(2-4)] assms(5,6) by (auto simp: keeps_except_def lost_def)

theorem sysmem_contents_kept_witness: "lview demo_env demo_sent 0 = Some zero_page"
  by (rule sysmem_contents_kept [OF demo_state_reach demo_lz, where c = "SendVirt 50000 0x5000 (Some 50001) 0x7000" and q = 50001 and a = "0x7000"])
    (simp_all add: demo_send)

text \<open>
  A page fault that is served maps the page of the fault, at a page that is not page 0, and that page has
  the contents the logical page of the task had before the fault.
\<close>

theorem sysmem_fault_maps_contents:
  assumes "sm_reach e P s" "lz_ok e" "handle_pf e pid a s = Some (SM_MAP p b, s')"
  shows "b = a AND NOT 0xfff \<and> p \<noteq> 0 \<and> (\<exists>lp. in_task s' pid b lp \<and> lview e s' lp = Some (sm_mem s' p) \<and> lview e s lp \<in> {None, Some (sm_mem s' p)})"
proof -
  have H: "keeps e s s' \<and> b = a AND NOT 0xfff \<and> p \<noteq> 0 \<and> (\<exists>lp. in_task s' pid b lp \<and> lview e s' lp = Some (sm_mem s' p))"
    using handle_pf_ok [OF sm_reach_inv [OF assms(1,2)] assms(2,3)] by blast
  then obtain lp where lp: "in_task s' pid b lp" "lview e s' lp = Some (sm_mem s' p)" by blast
  have "lview e s lp \<in> {None, Some (sm_mem s' p)}" using H lp(2) unfolding keeps_def by (cases "lview e s lp") auto
  then show ?thesis using H lp by blast
qed

theorem sysmem_fault_maps_contents_witness:
  "(0x5000 :: u32) = 0x5004 AND NOT 0xfff \<and> (3 :: nat) \<noteq> 0
    \<and> (\<exists>lp. in_task demo_state 50000 0x5000 lp \<and> lview demo_env demo_state lp = Some (sm_mem demo_state 3)
         \<and> lview demo_env demo_start lp \<in> {None, Some (sm_mem demo_state 3)})"
  by (rule sysmem_fault_maps_contents [OF demo_start_reach demo_lz demo_fault])







text \<open>
  Memory sent to another task arrives: after a call that reports success, the page that the sender had at the
  source address is in the tree of the receiver at the destination address and nowhere else, with its contents.
\<close>

theorem sysmem_send_virt_moves:
  assumes "sm_reach e P s" "lz_ok e" "impl_send_virt e src a (Some d) b s = Some (0, s')"
  shows "\<exists>lp. in_task s src a lp \<and> in_task s' d b lp \<and> lview e s' lp = lview e s lp \<and> (\<forall>q c. in_task s' q c lp \<longrightarrow> q = d \<and> c = b)"
  using impl_send_virt_ok [OF sm_reach_inv [OF assms(1,2)] assms(2,3)] by simp

theorem sysmem_send_virt_moves_witness: "in_task demo_state 50000 0x5000 0 \<and> in_task demo_sent 50001 0x7000 0 \<and> lview demo_env demo_sent 0 = Some zero_page"
  using sysmem_send_virt_moves [OF demo_state_reach demo_lz demo_send] by auto

section \<open>Defects\<close>

text \<open>
  Memory is handed out as it is: a fault on a page that the task does not have yet maps a page with the
  contents that page had before, which may have been those of another task.
\<close>

theorem sysmem_fresh_page_not_cleared:
  assumes "sm_reach e P s" "lz_ok e" "handle_pf e pid a s = Some (SM_MAP p b, s')" "\<forall>lp. \<not> in_task s pid b lp"
  shows "sm_mem s' p = sm_mem s p \<and> p \<in> P"
proof -
  have inv: "sm_inv P s" by (rule sm_reach_inv [OF assms(1,2)])
  have b: "b = a AND NOT 0xfff" using handle_pf_ok [OF inv assms(2,3)] by blast
  have nz: "a AND NOT 0xfff \<noteq> 0" using assms(3) by (auto simp: handle_pf_def)
  obtain t s1 where t: "get_task e pid s = Some (t, s1)" using assms(3) nz by (cases "get_task e pid s") (auto simp: handle_pf_def Let_def)
  note T = get_task_ok [OF inv assms(2) t]
  have lt: "lp_tree (t_mem t)" by (rule task_tree [OF T(1,6)])
  have al: "b AND 0xfff = 0" unfolding b by (rule aligned_floor)
  have none: "lpage_search b (t_mem t) = None"
  proof (cases "lpage_search b (t_mem t)")
    case (Some lp)
    then have "in_task s1 pid b lp" using lpage_search_Some [of "t_mem t" b lp] lt T(6) by (auto simp: lp_tree_def in_task_def)
    then show ?thesis using assms(4) T(4) by simp
  qed simp
  note F = assms(3) [unfolded handle_pf_def Let_def, folded b, unfolded t get_lpage_def, simplified al]
  obtain lp s2 r s3 where s2: "new_lpage e pid \<lparr>l_addr = b, lp_frame = 0, lp_swap = False, lp_flags = 0\<rparr> s1 = Some (lp, s2)"
    "get_free_page e s2 = Some (r, s3)" "pf_reply pid lp b (give_page lp r s3) = Some (SM_MAP p b, s')"
    using F none nz b by (auto split: option.splits if_splits)
  note N = new_lpage_ok [OF T(1) assms(2) s2(1), simplified, OF al]
  note G = give_fresh_ok [OF N(1) assms(2) N(2) _ _ s2(2), simplified]
  have "r = p" "sm_mem s' = sm_mem (give_page lp r s3)" using s2(3) by (auto simp: pf_reply_def split: option.splits if_splits)
  moreover have "p \<in> P" using get_free_page_ok(1) [OF _ assms(2) s2(2)] N(1) calculation(1) by (auto simp: sm_inv_def)
  ultimately show ?thesis using G(6) N(6) T(8) by simp
qed

theorem sysmem_fresh_page_not_cleared_witness: "sm_mem demo_state 3 = sm_mem demo_start 3 \<and> (3 :: nat) \<in> {1, 2, 3, 4, 5}"
  by (rule sysmem_fresh_page_not_cleared [OF demo_start_reach demo_lz demo_fault]) (simp add: in_task_def demo_start_def sm_start_def)

text \<open>
  Altering the flags of a page that is not there, with no flag to set, enters a page without flags or memory;
  the next fault on it fails an assertion of the pager.
\<close>

theorem sysmem_flagless_page_aborts:
  assumes "sm_reach e P s" "lz_ok e" "impl_alter_flags e sender (Some pid) (Fpage a 0x1000) 0 am s = Some (0, s')"
    "a \<noteq> 0" "a < a + 0x1000" "\<forall>lp. \<not> in_task s pid a lp" "x AND NOT 0xfff = a"
  shows "handle_pf e pid x s' = None"
proof -
  have inv: "sm_inv P s" by (rule sm_reach_inv [OF assms(1,2)])
  obtain t where t: "find_task pid s = Some t" "alter_page e pid 0 am a s = Some s'"
    using assms(3,5) by (auto simp: impl_alter_flags_def pages_of_def split: option.splits if_splits)
  have st: "sm_tasks s pid = Some t" "50000 \<le> pid" using t(1) by (simp_all add: find_task_def split: if_splits)
  obtain q where q: "get_lpage t a = Some q" using t(2) st(1) by (auto simp: alter_page_def split: option.splits)
  have al: "a AND 0xfff = 0" by (rule get_lpage_aligned [OF q])
  have "q = None" using get_lpage_in(1) [OF inv st(1)] q assms(6) by (cases q) auto
  then obtain lp where lp: "new_lpage e pid \<lparr>l_addr = a, lp_frame = 0, lp_swap = False, lp_flags = 0\<rparr> s = Some (lp, s')"
    using t(2) st(1) q by (auto simp: alter_page_def)
  note N = new_lpage_ok [OF inv assms(2) lp, simplified, OF al]
  have it: "in_task s' pid a lp" using N(4) by simp
  then obtain t' where t': "sm_tasks s' pid = Some t'" "(a, lp) \<in> set (rb_keys (t_mem t'))" by (auto simp: in_task_def)
  have "lpage_search a (t_mem t') = Some lp" using lpage_search_Some t'(2) task_tree [OF N(1) t'(1)] by (simp add: lp_tree_def)
  moreover have "get_task e pid s' = Some (t', s')" using st(2) t'(1) by (simp add: get_task_def find_task_def)
  ultimately show ?thesis using assms(4,7) al N(2) by (simp add: handle_pf_def get_lpage_def)
qed

theorem sysmem_flagless_page_aborts_witness:
  "\<exists>s'. impl_alter_flags demo_env 50001 (Some 50000) (Fpage 0x8000 0x1000) 0 0 demo_state = Some (0, s') \<and> handle_pf demo_env 50000 0x8010 s' = None"
proof -
  have "\<exists>s'. impl_alter_flags demo_env 50001 (Some 50000) (Fpage 0x8000 0x1000) 0 0 demo_state = Some (0, s')"
    by (simp add: impl_alter_flags_def alter_page_def pages_of_def demo_simps put_lpage_def rb_insert_at_def demo_state_def fpage_overlap_def)
  then obtain s' where s: "impl_alter_flags demo_env 50001 (Some 50000) (Fpage 0x8000 0x1000) 0 0 demo_state = Some (0, s')" by blast
  have "handle_pf demo_env 50000 0x8010 s' = None" by (rule sysmem_flagless_page_aborts [OF demo_state_reach demo_lz s]) simp_all
  then show ?thesis using s by blast
qed

lemma sysmem_send_virt_self:
  assumes "sm_reach e P s" "lz_ok e" "in_task s pid a lp" "50000 \<le> pid"
  shows "impl_send_virt e pid a (Some pid) a s = None"
proof -
  have inv: "sm_inv P s" by (rule sm_reach_inv [OF assms(1,2)])
  obtain t where t: "sm_tasks s pid = Some t" "(a, lp) \<in> set (rb_keys (t_mem t))" using assms(3) by (auto simp: in_task_def)
  have lt: "lp_tree (t_mem t)" by (rule task_tree [OF inv t(1)])
  have g: "get_task e pid s = Some (t, s)" using t(1) assms(4) by (simp add: get_task_def find_task_def)
  have "lpage_search a (t_mem t) = Some lp" "a AND 0xfff = 0" using lpage_search_Some t(2) lt by (auto simp: lp_tree_def lp_list_ok_def)
  then have l: "get_lpage t a = Some (Some lp)" by (simp add: get_lpage_def)
  obtain u where "remove_l_page pid lp s = Some u" "sm_log u = (sm_log s)(lp := None)" using remove_l_page_all [OF inv assms(3)] by blast
  then show ?thesis using g l assms(4) by (simp add: impl_send_virt_def move_lpage_def)
qed

end
