(* ===== verification/Spec2Isabelle.thy ===== *)
theory Spec2Isabelle
  imports Io_Contracts Sysmsg Sort Nibbles Pipe Proc_Dispositions Proc_Kill Startup Elf_Image Lifecycle_Queue
    Vm_Props Sysmem_Props
begin

text \<open>
  A verification development for \<^verbatim>\<open>sneks\<close>, a Unix-like multi-server operating system on an L4
  microkernel.  File names are relative to \<^verbatim>\<open>src/\<close>.

  \<^bold>\<open>The system.\<close>  The root task (\<^verbatim>\<open>root/\<close>) runs the process server: processes, threads, signals,
  fork, exec, exit, wait, user IDs.  Files are handles on I/O servers, which share the library
  \<^verbatim>\<open>sys/io\<close>; the pipe and null-device servers use it through \<^verbatim>\<open>sys/chrdev\<close>.  The message server
  (\<^verbatim>\<open>sys/msg\<close>) broadcasts announcements to subscribers: the process server announces forks, execs and
  exits, and I/O servers follow them to keep each process's handles.  Servers reply lazily: an
  effect that must not happen if the reply is lost is recorded with \<^verbatim>\<open>lib/rollback.c\<close> and run by the
  next call (confirm) or undone (rollback).  The virtual memory server (\<^verbatim>\<open>sys/vm\<close>) keeps the address
  spaces of processes and serves their page faults; the process server tells it to fork, configure
  and erase them, and it reads mapped files from I/O servers.  The pager of the system tasks themselves
  (\<^verbatim>\<open>sys/sysmem\<close>) keeps their memory and compresses pages that are not in use.  Programs are linked with a C library
  (\<^verbatim>\<open>lib\<close>, \<^verbatim>\<open>user/crt\<close>).

  \<^bold>\<open>Conventions.\<close>  Every call is a function on an explicit state record.  \<open>None\<close> stands for a
  failed assertion, \<^verbatim>\<open>abort()\<close> or a use of memory that C leaves undefined; errors are negative
  \<open>errno\<close> values as in the code.  Words have their C widths.  Pointers to records are the keys of
  the maps that hold them.  Outcomes of the kernel, of allocators and of other servers are
  arguments or an oracle in the state.  Loops are recursive functions with termination proofs; the
  heap sort, whose loop depends on its comparator, is \<open>partial_function (option)\<close> with a proof that
  it returns; the scans of the program start code have fuel, and the length of the image is
  proved to be enough; the loops over the mappings of an address space have the number of mappings
  and two as fuel, proved to be enough.  In the virtual memory server a physical page is its number, a
  virtual page its process and address; the order in which a hash table is walked is an argument, and
  the lists that other threads may share are plain lists, since the server runs one call at a time.
  Where C leaves a value undefined but the code only tests it, such as the process ID in a record that has been freed, the
  model takes an argument for it (\<open>freed_pid\<close>), so that a theorem holds for any value; the read of the fifth of four counters in
  \<open>tno_map\<close> has no effect on the result and is not modelled, and the failure of the one allocation per thread in \<open>lib/rollback.c\<close>, which
  ends the server, is not either.  \<open>strscpy\<close> is taken to do what its documentation says.

  \<^bold>\<open>Reachable states.\<close>  \<open>io_step\<close> has all calls and events of an I/O server but for two cases in which the invariant is false, and
  which are reported as defects: the event ring overflows, and a new file is undone after a child has inherited a handle on it.
  \<open>vm_step\<close> has all calls of the virtual memory server but for \<^verbatim>\<open>mmap\<close> and \<^verbatim>\<open>upload_page\<close> with a range that is empty or wraps around the address
  space: the code accepts those, and \<open>vm_mmap_wrap_hides_mapping\<close> shows that the tree of mappings then no longer serves.
  \<open>sm_reach\<close> has all calls of the pager that return, with grants of pages it does not have yet, and writes of tasks to their pages;
  \<open>root_step\<close> has every call of the process server that changes its state.

  \<^bold>\<open>Theories.\<close>
    \<^item> \<open>Prelude\<close>: word types, error numbers, find-first-set and the loop over the bits of a word,
      lemmas on lists and words.  \<open>Nibbles\<close>: four-bit fields of words.
    \<^item> \<open>Sort\<close>: \<^verbatim>\<open>lib/sort.c\<close>, \<^verbatim>\<open>lib/bsearch.c\<close>.  The locale \<open>comparator\<close> is the contract of the
      comparison function; sorting returns a sorted permutation, searching is exact.
      \<open>Lib_Codes\<close>: hashes, radix-64, device numbers, cookies, and the PID of a thread ID.
    \<^item> \<open>Rollback\<close>: \<^verbatim>\<open>lib/rollback.c\<close>; which confirm and rollback actions run over a sequence of
      transactions.
    \<^item> \<open>Sysmsg_Filter\<close>, \<open>Sysmsg\<close>: \<^verbatim>\<open>sys/msg/sysmsg.c\<close>.  The counting Bloom filter interprets the
      locale \<open>counting_filter\<close>; subscriptions and their index agree in all reachable states, and
      a broadcast is delivered exactly once to each receiver.
    \<^item> \<open>Handle_Links\<close>, \<open>Lifecycle_Queue\<close>, \<open>Io_Core\<close>, \<open>Io_Ops\<close>: \<^verbatim>\<open>sys/io/io.c\<close>, its cross-linked arrays
      of handles, the ring of lifecycle events, fork, exec and exit of clients, and the calls.
      \<open>Io_Inv\<close>, \<open>Io_Lifecycle\<close>, \<open>Io_Props\<close>, \<open>Io_Calls\<close>: the invariant and that every operation keeps
      it.  \<open>Io_Contracts\<close>: what the server promises.  \<open>Io_Poll\<close>: \<^verbatim>\<open>sys/io/pollimpl.c\<close> and \<^verbatim>\<open>func.c\<close>,
      notification of readiness.
    \<^item> \<open>Chrdev\<close>: \<^verbatim>\<open>sys/chrdev\<close>.  \<open>Pipe\<close>: \<^verbatim>\<open>sys/pipe\<close> and \<^verbatim>\<open>sys/null\<close>; a pipe is a FIFO even when replies
      are lost.  The byte buffer, a library outside the repository, is a parameter.
    \<^item> \<open>Proc_Threads\<close>, \<open>Proc_Signals\<close>, \<open>Proc_Life\<close>: the process server, \<^verbatim>\<open>root/uapi.c\<close> and \<^verbatim>\<open>root/sig.c\<close>:
      thread numbers and UTCB slots, signals, exit and wait, fork, user IDs and limits.
      \<open>Proc_Props\<close>, \<open>Proc_Exit\<close>, \<open>Proc_Kill\<close>: fork makes a child, exit and wait reap
      it once, who may signal whom.  \<open>Proc_Spawn\<close>: spawn and exec, with the layout of the address space; results of other servers are in the
      record \<open>exec_env\<close>.  \<open>Proc_Dispositions\<close>: signal dispositions stay consistent over all calls.
    \<^item> \<open>Startup\<close>: arguments, environment and auxiliary vector of a new program, from
      \<^verbatim>\<open>user/crt/exec.c\<close> over the stack that \<^verbatim>\<open>root/uapi.c\<close> builds to \<^verbatim>\<open>user/crt/crt1.c\<close>.  \<open>Elf_Image\<close>: the
      reader of executable files; its segments cover the pages the file asks for.
    \<^item> \<open>Rbtree\<close>: \<^verbatim>\<open>lib/rbtree.c\<close>, with the parent pointers of a node as its path to the root; insertion and
      removal keep the order of keys and the colour rules.
    \<^item> \<open>Vm_Maps\<close>, \<open>Vm_Pages\<close>, \<open>Vm_Ops\<close>: \<^verbatim>\<open>sys/vm/vm.c\<close>: the tree of mappings, which interprets the locale
      \<open>range_index\<close>; page lists, users of a page, copy-on-write and the page cache; the calls and the fault
      handler.  \<open>Vm_Inv\<close>, \<open>Vm_Keep\<close>, \<open>Vm_Steps\<close>: the invariant, and what single operations keep of it.
      \<open>Vm_Reach\<close>: every call interprets the locale \<open>vm_call\<close> (a call keeps the invariant); reachable
      states.  \<open>Vm_Invariants\<close>: the self-check of the server, which reachable states pass but for one
      clause.  \<open>Vm_Examples\<close>: reachable states for the witnesses.  \<open>Vm_Props\<close>: what processes may rely on: a
      fork is a snapshot, private memory is seen by nobody else, faults change no memory in use,
      unmapping takes exactly its range.
    \<^item> \<open>Sysmem\<close>: \<^verbatim>\<open>sys/sysmem/sysmem.c\<close>: page lists, the allocator of small records, replacement with compression, faults and the calls.
      \<open>Sysmem_Inv\<close>, \<open>Sysmem_Pages\<close>, \<open>Sysmem_Tasks\<close>: the invariant of pages and of tasks' trees, and that replacement keeps
      it, keeps all contents and ends.  \<open>Sysmem_Faults\<close>, \<open>Sysmem_Calls\<close>, \<open>Sysmem_Moves\<close>, \<open>Sysmem_Give\<close>: faults, removal, moves and
      grants of pages.  \<open>Sysmem_Steps\<close>, \<open>Sysmem_Reach\<close>: every call interprets the locale \<open>pager_call\<close>; reachable states.
      \<open>Sysmem_Props\<close>: what tasks may rely on.  The compression library is a parameter, with the law \<open>lz_ok\<close> that it restores what it compressed.
    \<^item> This theory: the agreement of the process server and the I/O servers on lifecycle messages.

  \<^bold>\<open>Defects.\<close>  Some theorems state what the code does where that is not what it should do:
  \<open>fork_past_last_pid_aborts\<close>, \<open>sigkill_can_be_blocked\<close>, \<open>late_systasks_abort\<close>,
  \<open>lifecycle_overflow_forgotten\<close>, \<open>stale_rollback_runs\<close>, \<open>vm_munmap_misses\<close>, \<open>vm_mmap_last_page_zero\<close>,
  \<open>vm_shared_read_unshares\<close>, \<open>vm_fork_read_only_aborts\<close>, \<open>vm_shared_memory_lost\<close>, \<open>vm_mmap_wrap_hides_mapping\<close>,
  \<open>kill_zombie_aborts\<close>, \<open>sysmem_fresh_page_not_cleared\<close>, \<open>sysmem_flagless_page_aborts\<close>, parts of \<open>spawn_makes_child\<close> and
  \<open>exec_replaces_program\<close>, and the acceptance of the wrong period in
  \<open>validate_cookie_periods\<close>.

  \<^bold>\<open>Not modelled.\<close>  IPC itself, which the kernel and code generated from the interface
  descriptions carry out.  The boot of the root task
  (\<^verbatim>\<open>root/main.c\<close>), of the virtual memory server and of the pager of system tasks, the choice of an interpreter for
  a script, and the mapping of segments and the passing of descriptors by exec are mostly such exchanges.  The squashfs server reads a foreign disk format through third-party
  decompression; string functions, locks and the user side of the calls in the C library are standard
  functions and stubs around IPC.  Third-party code (\<^verbatim>\<open>lib/dlmalloc.c\<close>, \<^verbatim>\<open>lib/lz4.c\<close>) and
  definitions copied from other systems are left out for good.
\<close>

section \<open>Lifecycle announcements between the process server and I/O servers\<close>

lemma tagged_word:
  fixes x :: u32
  assumes "unat x < 2 ^ 24" "t AND 0xff = t"
  shows "(t OR push_bit 8 x) AND 0xff = t" "drop_bit 8 (t OR push_bit 8 x) = x"
proof -
  define m :: u32 where "m = 0xff"
  have bm: "bit m i \<longleftrightarrow> i < 8" for i
  proof -
    have "m = mask 8" by (simp add: m_def mask_eq_exp_minus_1)
    then show ?thesis by (auto simp: bit_mask_iff)
  qed
  have t: "bit t i \<Longrightarrow> i < 8" for i using assms(2) bm unfolding m_def [symmetric] by (metis bit_and_iff)
  have x: "bit x i \<Longrightarrow> i < 24" for i
  proof (rule ccontr)
    assume i: "bit x i" "\<not> i < 24"
    then have "bit (unat x) i" by (simp add: bit_unsigned_iff bit_imp_le_length)
    then have "unat x div 2 ^ i \<noteq> 0" using bit_iff_odd [of "unat x" i] by (metis even_zero)
    moreover have "unat x < 2 ^ i" using assms(1) i(2) by (meson less_le_trans not_less one_le_numeral power_increasing)
    ultimately show False by simp
  qed
  show "(t OR push_bit 8 x) AND 0xff = t" unfolding m_def [symmetric]
    by (rule bit_word_eqI) (auto simp: bit_and_iff bit_or_iff bit_push_bit_iff bm dest: t)
  show "drop_bit 8 (t OR push_bit 8 x) = x"
    by (rule bit_word_eqI) (auto simp: bit_drop_bit_eq bit_or_iff bit_push_bit_iff dest: t x)
qed

text \<open>
  C32. The process server and the I/O servers agree on lifecycle messages: the announcement of a fork
  is decoded as the fork of this parent and child, and that of an exit as the exit of this process
  with its signal, status and code.
\<close>

theorem lifecycle_messages_agree:
  assumes "pid \<le> SNEKS_MAX_PID" "child \<le> SNEKS_MAX_PID" "0 \<le> signo p" "signo p \<le> 64"
  shows "lc_decode (fork_msg pid child) = \<lparr>primary = of_nat pid, lc_tag = MPL_FORK (of_nat child)\<rparr>
    \<and> lc_decode (exit_msg pid p) = \<lparr>primary = of_nat pid, lc_tag = MPL_EXIT (of_int (signo p)) (of_int (status p)) (of_int (code p))\<rparr>"
proof -
  have u: "unat (of_nat child :: u32) < 2 ^ 24" using assms(2) by (simp add: unat_of_nat)
  have "unat (of_int (signo p) :: u32) = nat (signo p)" using assms(3,4) by (simp add: unsigned_of_int take_bit_int_eq_self)
  then have v: "unat (of_int (signo p) :: u32) < 2 ^ 24" using assms(4) by simp
  have c: "ucast (of_nat n :: u32) = (of_nat n :: u16)" if "n \<le> SNEKS_MAX_PID" for n
    using that by (simp add: unsigned_of_nat take_bit_nat_eq_self)
  have d: "ucast (of_int (signo p) :: u32) = (of_int (signo p) :: u16)"
    using assms(3,4) by (simp add: unsigned_of_int take_bit_int_eq_self)
  show ?thesis
    using c [OF assms(1)] c [OF assms(2)] d tagged_word [OF u, of 0] tagged_word [OF v, of 2] by (simp add: lc_decode_def fork_msg_def exit_msg_def)
qed

theorem lifecycle_messages_agree_witness:
  "lc_decode (fork_msg 7 9) = \<lparr>primary = 7, lc_tag = MPL_FORK 9\<rparr> \<and> lc_tag (lc_decode (exit_msg 7 demo_process)) = MPL_EXIT 0 0 0"
  using lifecycle_messages_agree [of 7 9 demo_process] by (simp add: demo_process_def)

end
